(* ===== verification/Prelude.thy ===== *)
theory Prelude
  imports Main "HOL-Library.Multiset"
begin

section \<open>Shared vocabulary and list lemmas\<close>

text \<open>
  Vocabulary the components share. A pointer to an \<open>ExecutionState\<close> and an LLVM instruction,
  function or basic block are identified by a number; every operation of the models compares
  them for equality only. \<open>None\<close> as the result of an operation stands for a run of the C++ code
  that does not return: a failed assertion, a null dereference, an \<open>erase(end())\<close> or an
  out-of-range access.

  The generic lemmas are about \<open>std::vector\<close> idioms: \<open>find\<close> followed by \<open>erase\<close>
  (\<open>find_erase\<close>), the same for every element of a list (\<open>erase_all\<close>), and folds of fallible
  operations (\<open>foldM\<close>).
\<close>

type_synonym state_ptr = nat
type_synonym inst_ptr = nat
type_synonym func_ptr = nat
type_synonym bb_ptr = nat

subsection \<open>Fallible folds\<close>

fun foldM :: "('a \<Rightarrow> 's \<Rightarrow> 's option) \<Rightarrow> 'a list \<Rightarrow> 's \<Rightarrow> 's option" where
  "foldM f [] s = Some s"
| "foldM f (x # xs) s = (case f x s of None \<Rightarrow> None | Some s' \<Rightarrow> foldM f xs s')"

text \<open>\<open>auto it = std::find(v.begin(), v.end(), x); v.erase(it)\<close>: undefined when x is absent.\<close>

definition find_erase :: "'a \<Rightarrow> 'a list \<Rightarrow> 'a list option" where
  "find_erase x xs = (if x \<in> set xs then Some (remove1 x xs) else None)"

lemma foldM_append:
  "foldM f (xs @ ys) s = (case foldM f xs s of None \<Rightarrow> None | Some s' \<Rightarrow> foldM f ys s')"
  by (induction xs arbitrary: s) (auto split: option.splits)

text \<open>An invariant indexed by the elements still to come is carried through a fallible fold.\<close>

lemma foldM_invariant:
  assumes "P xs s"
    and "\<And>x xs s. P (x # xs) s \<Longrightarrow> \<exists>s'. f x s = Some s' \<and> P xs s'"
  shows "\<exists>s'. foldM f xs s = Some s' \<and> P [] s'"
  using assms(1)
proof (induction xs arbitrary: s)
  case (Cons x xs)
  then obtain s' where "f x s = Some s'" "P xs s'"
    using assms(2) by blast
  with Cons.IH show ?case by simp
qed simp

lemma foldM_preserves:
  assumes "foldM f xs s = Some s'" and "P s"
    and "\<And>x s s'. x \<in> set xs \<Longrightarrow> P s \<Longrightarrow> f x s = Some s' \<Longrightarrow> P s'"
  shows "P s'"
  using assms
proof (induction xs arbitrary: s)
  case (Cons x xs)
  from Cons.prems(1) obtain t where t: "f x s = Some t" "foldM f xs t = Some s'"
    by (auto split: option.splits)
  with Cons.prems(2) have "P t" by (intro Cons.prems(3) [of x s t]) auto
  with t(2) show ?case using Cons.prems(3) by (intro Cons.IH) auto
qed simp

subsection \<open>Erasing from vectors\<close>

lemma find_erase_Some [simp]: "x \<in> set xs \<Longrightarrow> find_erase x xs = Some (remove1 x xs)"
  by (simp add: find_erase_def)

lemma find_erase_None [simp]: "x \<notin> set xs \<Longrightarrow> find_erase x xs = None"
  by (simp add: find_erase_def)

lemma set_butlast_distinct: "distinct xs \<Longrightarrow> xs \<noteq> [] \<Longrightarrow> set (butlast xs) = set xs - {last xs}"
  by (induction xs rule: rev_induct) auto

lemma set_tl_distinct: "distinct xs \<Longrightarrow> xs \<noteq> [] \<Longrightarrow> set (tl xs) = set xs - {hd xs}"
  by (cases xs) auto

lemma distinct_snoc [simp]: "distinct (xs @ [x]) \<longleftrightarrow> distinct xs \<and> x \<notin> set xs"
  by auto

text \<open>Moving an element to the end of a vector keeps its elements.\<close>

lemma set_rotate_to_end: "distinct xs \<Longrightarrow> x \<in> set xs \<Longrightarrow> set (remove1 x xs @ [x]) = set xs"
  by auto

lemma distinct_rotate_to_end: "distinct xs \<Longrightarrow> distinct (remove1 x xs @ [x])"
  by auto

lemma mset_diff_distinct:
  assumes "distinct xs" "distinct ys"
  shows "mset xs - mset ys = mset (filter (\<lambda>x. x \<notin> set ys) xs)"
  using assms by (intro multiset_eqI) (simp add: distinct_count_atmost_1)

end
