(* ===== verification/RNG.thy ===== *)
theory RNG
  imports Complex_Main Prelude "HOL-Library.Word"
begin

unbundle bit_operations_syntax

section \<open>The Mersenne twister\<close>

text \<open>
  \<open>klee/lib/Support/RNG.cpp\<close>: the generator \<open>theRNG\<close> every randomised searcher draws from.
  The state is the array \<open>mt\<close> of \<open>N\<close> 32-bit words and the position \<open>mti\<close>. The three loops of
  \<open>getInt32\<close> that refill the array are one pass \<open>twist\<close> over the positions, because the three
  bodies differ only in how the index \<open>kk + M\<close> and the successor \<open>kk + 1\<close> wrap around. The
  floating-point draws modelled here multiply by a power of two, which is exact in a \<open>double\<close>,
  so they return a rational; \<open>getDoubleLR\<close> and the \<open>float\<close> draws, which round, are left out.
\<close>

type_synonym u32 = "32 word"
type_synonym u64 = "64 word"

record rng =
  mt :: "u32 list"
  mti :: nat

definition mt_N :: nat where "mt_N = 624"
definition mt_M :: nat where "mt_M = 397"
definition MATRIX_A :: u32 where "MATRIX_A = 0x9908b0df"
definition UPPER_MASK :: u32 where "UPPER_MASK = 0x80000000"
definition LOWER_MASK :: u32 where "LOWER_MASK = 0x7fffffff"

subsection \<open>Seeding\<close>

definition seed_next :: "u32 \<Rightarrow> nat \<Rightarrow> u32" where
  "seed_next prev i = 1812433253 * (prev XOR drop_bit 30 prev) + of_nat i"

fun seed_from :: "nat \<Rightarrow> u32 \<Rightarrow> nat \<Rightarrow> u32 list" where
  "seed_from 0 prev i = []"
| "seed_from (Suc n) prev i = (let x = seed_next prev i in x # seed_from n x (Suc i))"

definition rng_seed :: "u32 \<Rightarrow> rng" where
  "rng_seed s = \<lparr>mt = s # seed_from (mt_N - 1) s 1, mti = mt_N\<rparr>"

subsection \<open>Drawing a word\<close>

definition mag01 :: "u32 \<Rightarrow> u32" where
  "mag01 y = (if y AND 1 = 0 then 0 else MATRIX_A)"

definition twist_at :: "nat \<Rightarrow> u32 list \<Rightarrow> u32 list" where
  "twist_at kk m =
     (let y = ((m ! kk) AND UPPER_MASK) OR ((m ! (if kk < mt_N - 1 then kk + 1 else 0)) AND LOWER_MASK);
          o' = (if kk < mt_N - mt_M then kk + mt_M else kk - (mt_N - mt_M))
      in m[kk := (m ! o') XOR (drop_bit 1 y) XOR mag01 y])"

definition twist :: "u32 list \<Rightarrow> u32 list" where
  "twist m = fold twist_at [0..<mt_N] m"

definition temper :: "u32 \<Rightarrow> u32" where
  "temper y0 =
     (let y1 = y0 XOR drop_bit 11 y0;
          y2 = y1 XOR (push_bit 7 y1 AND 0x9d2c5680);
          y3 = y2 XOR (push_bit 15 y2 AND 0xefc60000)
      in y3 XOR drop_bit 18 y3)"

definition getInt32 :: "rng \<Rightarrow> (u32 \<times> rng) option" where
  "getInt32 g =
     (let g' = (if mt_N \<le> mti g then \<lparr>mt = twist (mt g), mti = 0\<rparr> else g)
      in if mti g' < length (mt g')
         then Some (temper (mt g' ! mti g'), g'\<lparr>mti := Suc (mti g')\<rparr>) else None)"

definition getInt31 :: "rng \<Rightarrow> (u32 \<times> rng) option" where
  "getInt31 g = map_option (\<lambda>(y, g'). (drop_bit 1 y, g')) (getInt32 g)"

definition getDoubleL :: "rng \<Rightarrow> (rat \<times> rng) option" where
  "getDoubleL g = map_option (\<lambda>(y, g'). (of_nat (unat y) / 4294967296, g')) (getInt32 g)"

definition getDouble :: "rng \<Rightarrow> (rat \<times> rng) option" where
  "getDouble g = map_option (\<lambda>(y, g'). ((of_nat (unat y) + 1 / 2) / 4294967296, g')) (getInt32 g)"

definition getBool :: "rng \<Rightarrow> (bool \<times> rng) option" where
  "getBool g =
     map_option (\<lambda>(b0, g').
       (let b1 = b0 XOR drop_bit 16 b0;
            b2 = b1 XOR drop_bit 8 b1;
            b3 = b2 XOR drop_bit 4 b2;
            b4 = b3 XOR drop_bit 2 b3;
            b5 = b4 XOR drop_bit 1 b4
        in (bit b5 0, g'))) (getInt32 g)"

subsection \<open>Invariant and ranges\<close>

definition rng_ok :: "rng \<Rightarrow> bool" where
  "rng_ok g \<longleftrightarrow> length (mt g) = mt_N \<and> mti g \<le> mt_N"

lemma length_seed_from [simp]: "length (seed_from n x i) = n"
  by (induction n arbitrary: x i) (simp_all add: Let_def)

lemma rng_ok_seed: "rng_ok (rng_seed s)"
  by (simp add: rng_ok_def rng_seed_def mt_N_def)

lemma length_twist_at [simp]: "length (twist_at kk m) = length m"
  by (simp add: twist_at_def Let_def)

lemma length_fold_twist_at [simp]: "length (fold twist_at ks m) = length m"
  by (induction ks arbitrary: m) simp_all

lemma length_twist [simp]: "length (twist m) = length m"
  by (simp add: twist_def)

text \<open>Every access of \<open>twist_at\<close> is within the array.\<close>

lemma twist_at_in_range:
  "kk < mt_N \<Longrightarrow> (if kk < mt_N - 1 then kk + 1 else 0) < mt_N \<and>
     (if kk < mt_N - mt_M then kk + mt_M else kk - (mt_N - mt_M)) < mt_N"
  by (auto simp: mt_N_def mt_M_def)

lemma getInt32_ok:
  assumes "rng_ok g"
  shows "\<exists>y g'. getInt32 g = Some (y, g') \<and> rng_ok g'"
  using assms by (auto simp: getInt32_def rng_ok_def Let_def mt_N_def)

lemma getDoubleL_ok:
  assumes "rng_ok g"
  shows "\<exists>r g'. getDoubleL g = Some (r, g') \<and> rng_ok g' \<and> 0 \<le> r \<and> r < 1"
proof -
  obtain y g' where y: "getInt32 g = Some (y, g')" "rng_ok g'"
    using getInt32_ok [OF assms] by blast
  have "unat y < 4294967296"
    using unsigned_less [of y] by simp
  then have "(of_nat (unat y) :: rat) < 4294967296"
    by (metis of_nat_less_iff of_nat_numeral)
  moreover have "getDoubleL g = Some (of_nat (unat y) / 4294967296, g')"
    by (simp only: getDoubleL_def y option.map prod.case)
  ultimately show ?thesis
    using y(2) of_nat_0_le_iff [of "unat y", where 'a = rat]
    by (intro exI [of _ "of_nat (unat y) / 4294967296"] exI [of _ g']) simp
qed

text \<open>
  \<open>getBool\<close> folds the word onto its lowest bit: the draw is the parity of the 32 bits drawn.
\<close>

definition low_parity :: "u32 \<Rightarrow> nat \<Rightarrow> bool" where
  "low_parity b k = odd (card {i. i < k \<and> bit b i})"

lemma card_less_Suc_filter:
  "card {i. i < Suc k \<and> P i} = card {i. i < k \<and> P i} + (if P k then 1 else 0)"
proof -
  have "{i. i < Suc k \<and> P i} = (if P k then insert k {i. i < k \<and> P i} else {i. i < k \<and> P i})"
    by (auto simp: less_Suc_eq)
  then show ?thesis by simp
qed

lemma low_parity_0 [simp]: "low_parity b 0 = False"
  by (simp add: low_parity_def)

lemma low_parity_Suc [simp]: "low_parity b (Suc k) = (low_parity b k \<noteq> bit b k)"
  by (simp add: low_parity_def card_less_Suc_filter)

lemma low_parity_xor: "low_parity (b XOR c) k = (low_parity b k \<noteq> low_parity c k)"
  by (induction k) (auto simp: bit_simps)

lemma low_parity_add: "low_parity b (k + n) = (low_parity b k \<noteq> low_parity (drop_bit k b) n)"
  by (induction n) (auto simp: bit_simps)

lemma low_parity_fold: "low_parity (b XOR drop_bit k b) k = low_parity b (k + k)"
  by (simp add: low_parity_xor low_parity_add)

lemma getBool_parity:
  assumes "getInt32 g = Some (y, g')"
  shows "getBool g = Some (low_parity y 32, g')"
proof -
  have one: "bit b 0 = low_parity b 1" for b by simp
  show ?thesis
    using assms low_parity_fold [of _ 1] low_parity_fold [of _ 2] low_parity_fold [of _ 4]
      low_parity_fold [of _ 8] low_parity_fold [of _ 16]
    by (simp add: getBool_def Let_def one del: low_parity_Suc One_nat_def)
qed

text \<open>
  \<open>getBool\<close> folds a draw onto its lowest bit: the result is the parity of the 32 bits drawn.
\<close>

theorem getBool_is_parity:
  "getBool g = map_option (\<lambda>(y, g'). (odd (card {i. i < 32 \<and> bit y i}), g')) (getInt32 g)"
  using getBool_parity [of g] by (cases "getInt32 g") (auto simp: low_parity_def getBool_def)

text \<open>A run of the generator: \<open>n\<close> draws.\<close>

fun draws :: "nat \<Rightarrow> rng \<Rightarrow> (u32 list \<times> rng) option" where
  "draws 0 g = Some ([], g)"
| "draws (Suc n) g =
     (case getInt32 g of
        None \<Rightarrow> None
      | Some (y, g') \<Rightarrow> map_option (\<lambda>(ys, g''). (y # ys, g'')) (draws n g'))"

lemma draws_ok: "rng_ok g \<Longrightarrow> \<exists>ys g'. draws n g = Some (ys, g') \<and> length ys = n \<and> rng_ok g'"
proof (induction n arbitrary: g)
  case (Suc n)
  then obtain y g' where "getInt32 g = Some (y, g')" "rng_ok g'" using getInt32_ok by blast
  with Suc.IH [of g'] show ?case by auto
qed simp

text \<open>
  The generator never leaves its array: from every seed any number of draws succeeds, and the next draw
  as a double is at least 0 and below 1, which is what \<open>DiscretePDF::choose\<close> asserts.
\<close>

theorem draws_never_out_of_range:
  "\<exists>ys g r g'. draws n (rng_seed s) = Some (ys, g) \<and> length ys = n \<and> getDoubleL g = Some (r, g') \<and> 0 \<le> r \<and> r < 1"
  using draws_ok [OF rng_ok_seed, of n s] getDoubleL_ok by metis

end
