(* ===== verification/LLVM_IR.thy ===== *)
theory LLVM_IR
  imports RNG
begin

section \<open>The part of LLVM IR the analyses read\<close>

text \<open>
  LLVM is not part of the repository. The dependency analysis under \<open>IDA/\<close> and the executor read
  instructions, their operands, their types and the block and function that hold them; this theory
  has those data as the input of the models. A module is the list of its instructions, an
  instruction is known by its position. \<open>llvm_icmp\<close> is the meaning of an \<open>icmp\<close> at 32 bits, the
  reference for the predicates the executor records. LLVM functions that compute
  (\<open>isPotentiallyReachable\<close>, \<open>getUnsignedPredicate\<close>) are parameters of the definitions that call
  them.
\<close>

datatype predicate = FCMP_FALSE | ICMP_EQ | ICMP_NE | ICMP_UGT | ICMP_UGE | ICMP_ULT | ICMP_ULE
  | ICMP_SGT | ICMP_SGE | ICMP_SLT | ICMP_SLE

datatype ty = TInteger nat | TPointer ty | TStruct string "ty list" | TArray nat ty | TVoid | TOtherTy nat

text \<open>
  An operand: an instruction, a \<open>ConstantInt\<close> (its width and its sign-extended value), a global
  variable, a formal argument (its number), a function, anything else. Globals and arguments carry
  their type (the type of a global is the pointer to it).
\<close>

datatype val = VInst inst_ptr | VConstantInt nat int | VGlobal nat ty | VArgument nat ty | VFunction func_ptr
  | VOther nat ty

datatype opcode = OpAlloca ty | OpLoad | OpStore | OpGetElementPtr | OpICmp predicate | OpCall
  | OpBr bool | OpSwitch "int list" | OpRet | OpAnd | OpOr | OpOther nat

record instr =
  i_op :: opcode
  i_operands :: "val list"
  i_type :: ty
  i_parent :: bb_ptr
  i_function :: func_ptr

type_synonym ir_module = "instr list"

definition inst_at :: "ir_module \<Rightarrow> inst_ptr \<Rightarrow> instr option" where
  "inst_at M i = (if i < length M then Some (M ! i) else None)"

definition operand_insts :: "ir_module \<Rightarrow> instr \<Rightarrow> inst_ptr list" where
  "operand_insts M ins = [j. VInst j \<leftarrow> i_operands ins, j < length M]"

definition is_ConstantInt :: "val \<Rightarrow> bool" where
  "is_ConstantInt v = (case v of VConstantInt _ _ \<Rightarrow> True | _ \<Rightarrow> False)"

definition ConstantInt_sext :: "val \<Rightarrow> int" where
  "ConstantInt_sext v = (case v of VConstantInt _ c \<Rightarrow> c | _ \<Rightarrow> 0)"

definition ConstantInt_zext :: "val \<Rightarrow> nat" where
  "ConstantInt_zext v = (case v of VConstantInt w c \<Rightarrow> nat (c mod 2 ^ w) | _ \<Rightarrow> 0)"

definition val_type :: "ir_module \<Rightarrow> val \<Rightarrow> ty" where
  "val_type M v = (case v of
     VInst i \<Rightarrow> (case inst_at M i of Some ins \<Rightarrow> i_type ins | None \<Rightarrow> TVoid)
   | VConstantInt w _ \<Rightarrow> TInteger w | VGlobal _ t \<Rightarrow> t | VArgument _ t \<Rightarrow> t
   | VFunction _ \<Rightarrow> TOtherTy 0 | VOther _ t \<Rightarrow> t)"

definition is_IntegerTy :: "ty \<Rightarrow> bool" where
  "is_IntegerTy t = (case t of TInteger _ \<Rightarrow> True | _ \<Rightarrow> False)"

definition is_PointerTy :: "ty \<Rightarrow> bool" where
  "is_PointerTy t = (case t of TPointer _ \<Rightarrow> True | _ \<Rightarrow> False)"

definition is_StructTy :: "ty \<Rightarrow> bool" where
  "is_StructTy t = (case t of TStruct _ _ \<Rightarrow> True | _ \<Rightarrow> False)"

subsection \<open>Comparisons\<close>

fun llvm_icmp :: "predicate \<Rightarrow> u32 \<Rightarrow> u32 \<Rightarrow> bool" where
  "llvm_icmp ICMP_EQ a b = (a = b)"
| "llvm_icmp ICMP_NE a b = (a \<noteq> b)"
| "llvm_icmp ICMP_UGT a b = (unat a > unat b)"
| "llvm_icmp ICMP_UGE a b = (unat a \<ge> unat b)"
| "llvm_icmp ICMP_ULT a b = (unat a < unat b)"
| "llvm_icmp ICMP_ULE a b = (unat a \<le> unat b)"
| "llvm_icmp ICMP_SGT a b = (sint a > sint b)"
| "llvm_icmp ICMP_SGE a b = (sint a \<ge> sint b)"
| "llvm_icmp ICMP_SLT a b = (sint a < sint b)"
| "llvm_icmp ICMP_SLE a b = (sint a \<le> sint b)"
| "llvm_icmp FCMP_FALSE a b = False"

text \<open>
  What LLVM documents of \<open>ICmpInst::getUnsignedPredicate\<close>: the predicate as if the operands were
  unsigned (\<open>EQ\<close> to \<open>EQ\<close>, \<open>SLE\<close> to \<open>ULE\<close>, \<open>UGT\<close> to \<open>UGT\<close>, and so on).
\<close>

definition documented_unsigned :: "(predicate \<Rightarrow> predicate) \<Rightarrow> bool" where
  "documented_unsigned f \<longleftrightarrow>
     f ICMP_EQ = ICMP_EQ \<and> f ICMP_NE = ICMP_NE \<and> f ICMP_UGT = ICMP_UGT \<and> f ICMP_UGE = ICMP_UGE \<and>
     f ICMP_ULT = ICMP_ULT \<and> f ICMP_ULE = ICMP_ULE \<and> f ICMP_SGT = ICMP_UGT \<and>
     f ICMP_SGE = ICMP_UGE \<and> f ICMP_SLT = ICMP_ULT \<and> f ICMP_SLE = ICMP_ULE"

definition is_signed_pred :: "predicate \<Rightarrow> bool" where
  "is_signed_pred p \<longleftrightarrow> p \<in> {ICMP_EQ, ICMP_NE, ICMP_SGT, ICMP_SGE, ICMP_SLT, ICMP_SLE}"

definition is_icmp_pred :: "predicate \<Rightarrow> bool" where
  "is_icmp_pred p \<longleftrightarrow> p \<noteq> FCMP_FALSE"

lemma uint_eq_sint: "0 \<le> sint (a :: u32) \<Longrightarrow> uint a = sint a"
  using sint_lt [of a] by (simp add: uint_sint take_bit_int_eq_self_iff)

lemma unat_eq_sint: "0 \<le> sint (a :: u32) \<Longrightarrow> int (unat a) = sint a"
  by (simp add: uint_eq_sint)

text \<open>On values below \<open>2 ^ 31\<close> the signed and the unsigned order agree.\<close>

lemma unat_less_iff_sint_less:
  "0 \<le> sint (a :: u32) \<Longrightarrow> 0 \<le> sint (b :: u32) \<Longrightarrow> unat a < unat b \<longleftrightarrow> sint a < sint b"
  using unat_eq_sint [of a] unat_eq_sint [of b] by linarith

end
