(* ===== verification/CGS_Types.thy ===== *)
theory CGS_Types
  imports LLVM_IR
begin

section \<open>The data of the concrete-constraint guided search\<close>

text \<open>
  What the executor (\<open>klee/lib/Core/Executor.h\<close>) and the \<open>CGSSearcher\<close> share: the dependency
  record of a branch (\<open>BDDep\<close>), the fields the search adds to an \<open>ExecutionState\<close>, the executor's
  tables and lists, and the world the handlers and the searcher run in (tables, the heap of
  states, the searcher's two vectors).

  Branch and store ids are numbers; 32-bit values (\<open>signed\<close> and \<open>unsigned\<close> are the same word,
  comparisons say which reading they use) are \<open>32 word\<close>. A hash set that is iterated is a list:
  the list is the iteration order, which C++ leaves open, and the theorems hold for every list. A
  hash map that the code only ever reads through \<open>operator[]\<close> is a total function with the
  default-constructed value; where a \<open>find\<close> can see that an entry was created it is a map and
  \<open>map_at\<close> is \<open>operator[]\<close>.
\<close>

definition map_at :: "'v \<Rightarrow> 'k \<Rightarrow> ('k \<rightharpoonup> 'v) \<Rightarrow> 'v \<times> ('k \<rightharpoonup> 'v)" where
  "map_at d k m = (case m k of Some v \<Rightarrow> (v, m) | None \<Rightarrow> (d, m(k \<mapsto> d)))"

subsection \<open>BDDep\<close>

record bddep =
  bd_inst :: inst_ptr
  bd_id :: nat
  bd_switch :: bool
  bd_var_num :: nat
  bd_stores :: "nat list"
  bd_pred :: predicate
  bd_arith_op :: string
  bd_arith_var :: u32
  bd_unCoveredPred :: predicate
  bd_var :: u32
  bd_constant :: u32
  bd_unCoveredValues :: "u32 set"

text \<open>\<open>new BDDep()\<close>: every field zero.\<close>

definition new_BDDep :: bddep where
  "new_BDDep = \<lparr>bd_inst = 0, bd_id = 0, bd_switch = False, bd_var_num = 0, bd_stores = [],
     bd_pred = FCMP_FALSE, bd_arith_op = '''', bd_arith_var = 0, bd_unCoveredPred = FCMP_FALSE,
     bd_var = 0, bd_constant = 0, bd_unCoveredValues = {}\<rparr>"

subsection \<open>ExecutionState\<close>

record branch_info =
  reachStoreID :: nat
  targetBranchID :: nat

text \<open>
  \<open>pc_bb\<close> and \<open>pc_func\<close> are the block and the function of \<open>pc->inst\<close>; \<open>prev_inst\<close> is
  \<open>prevPC->inst\<close>.
\<close>

record exec_state =
  reachStore :: bool
  reachBranch :: bool
  branchInfos :: "branch_info list"
  storeValues :: "nat \<rightharpoonup> u32"
  coveredNew :: bool
  instsSinceCovNew :: u32
  pc_bb :: bb_ptr
  pc_func :: func_ptr
  prev_inst :: inst_ptr

subsection \<open>The executor's tables\<close>

text \<open>\<open>BI2ID\<close> has a null key when the searcher looks a switch up as a \<open>BranchInst\<close>.\<close>

record cgs_exec =
  ID2BI :: "nat \<rightharpoonup> inst_ptr"
  BI2ID :: "inst_ptr option \<rightharpoonup> nat"
  ID2SI :: "nat \<rightharpoonup> inst_ptr"
  SI2ID :: "inst_ptr \<Rightarrow> nat"
  storetTobranches :: "nat \<Rightarrow> nat set"
  storesWithSameVar :: "nat \<rightharpoonup> nat list"
  BDDeps :: "nat \<rightharpoonup> bddep"
  targetBranchNum :: nat
  updateTargetBranch :: bool
  newFullyCoveredBranch :: bool
  newPartlyCoveredBranch :: bool
  fullyCoveredBranches :: "nat list"
  partlyCoveredBranches :: "nat list"
  targetBranches :: "nat list"
  invalidBranches :: "nat set"
  reachBranchCount :: "nat \<rightharpoonup> nat"
  invalidStoreValues :: "nat \<rightharpoonup> u32 set"
  newBranchNumFromStore :: nat
  funcStores :: "func_ptr \<Rightarrow> inst_ptr list"
  maxReachBranchCount :: nat

definition init_exec :: "nat \<Rightarrow> nat \<Rightarrow> cgs_exec" where
  "init_exec num maxc = \<lparr>ID2BI = Map.empty, BI2ID = Map.empty, ID2SI = Map.empty,
     SI2ID = (\<lambda>_. 0), storetTobranches = (\<lambda>_. {}), storesWithSameVar = Map.empty,
     BDDeps = Map.empty, targetBranchNum = num, updateTargetBranch = False,
     newFullyCoveredBranch = False, newPartlyCoveredBranch = False, fullyCoveredBranches = [],
     partlyCoveredBranches = [], targetBranches = [], invalidBranches = {},
     reachBranchCount = Map.empty, invalidStoreValues = Map.empty, newBranchNumFromStore = 0,
     funcStores = (\<lambda>_. []), maxReachBranchCount = maxc\<rparr>"

subsection \<open>The world\<close>

record cgs_world =
  cgs_x :: cgs_exec
  heap :: "state_ptr \<Rightarrow> exec_state"
  states :: "state_ptr list"
  branch_states :: "state_ptr list"
  validStoreValues :: "nat \<Rightarrow> u32 set"

text \<open>A state as its default member initialisers leave it; the world when the searcher is built.\<close>

definition new_state :: exec_state where
  "new_state = \<lparr>reachStore = False, reachBranch = False, branchInfos = [],
     storeValues = Map.empty, coveredNew = False, instsSinceCovNew = 0, pc_bb = 0, pc_func = 0, prev_inst = 0\<rparr>"

definition init_world :: "cgs_exec \<Rightarrow> cgs_world" where
  "init_world x = \<lparr>cgs_x = x, heap = (\<lambda>_. new_state), states = [], branch_states = [],
     validStoreValues = (\<lambda>_. {})\<rparr>"

definition upd_state :: "state_ptr \<Rightarrow> (exec_state \<Rightarrow> exec_state) \<Rightarrow> cgs_world \<Rightarrow> cgs_world" where
  "upd_state p f w = w\<lparr>heap := (heap w)(p := f (heap w p))\<rparr>"

definition upd_x :: "(cgs_exec \<Rightarrow> cgs_exec) \<Rightarrow> cgs_world \<Rightarrow> cgs_world" where
  "upd_x f w = w\<lparr>cgs_x := f (cgs_x w)\<rparr>"

text \<open>
  \<open>for (it = v.begin(); ...) if (P(*it)) { v.erase(it); break; }\<close>: the first entry that satisfies
  P is erased.
\<close>

fun erase_first :: "('a \<Rightarrow> bool) \<Rightarrow> 'a list \<Rightarrow> 'a list" where
  "erase_first P [] = []"
| "erase_first P (x # xs) = (if P x then xs else x # erase_first P xs)"

subsection \<open>Lemmas\<close>

lemma map_at_Some [simp]: "m k = Some v \<Longrightarrow> map_at d k m = (v, m)"
  by (simp add: map_at_def)

lemma map_at_None [simp]: "m k = None \<Longrightarrow> map_at d k m = (d, m(k \<mapsto> d))"
  by (simp add: map_at_def)

lemma dom_map_at: "dom (snd (map_at d k m)) = insert k (dom m)"
  by (auto simp: map_at_def split: option.splits)

lemma upd_state_simps [simp]:
  "heap (upd_state p f w) p = f (heap w p)"
  "p \<noteq> q \<Longrightarrow> heap (upd_state p f w) q = heap w q"
  "states (upd_state p f w) = states w"
  "branch_states (upd_state p f w) = branch_states w"
  "cgs_x (upd_state p f w) = cgs_x w"
  "validStoreValues (upd_state p f w) = validStoreValues w"
  by (simp_all add: upd_state_def)

lemma upd_x_simps [simp]:
  "heap (upd_x g w) = heap w"
  "states (upd_x g w) = states w"
  "branch_states (upd_x g w) = branch_states w"
  "cgs_x (upd_x g w) = g (cgs_x w)"
  "validStoreValues (upd_x g w) = validStoreValues w"
  by (simp_all add: upd_x_def)

lemma set_erase_first_subset: "set (erase_first P xs) \<subseteq> set xs"
  by (induction xs) auto

lemma erase_first_None: "(\<And>x. x \<in> set xs \<Longrightarrow> \<not> P x) \<Longrightarrow> erase_first P xs = xs"
  by (induction xs) auto

end
