(* ===== verification/StatsTracker.thy ===== *)
theory StatsTracker
  imports CGS_Types
begin

section \<open>Branch statistics\<close>

text \<open>
  \<open>StatsTracker\<close> (\<open>klee/lib/Core/StatsTracker.cpp\<close>): the statistics of covered instructions and
  branches, and the marks \<open>coveredNew\<close> and \<open>instsSinceCovNew\<close> that they leave on a state. An indexed
  statistic is a function of the instruction that owns the index
  (\<open>theStatisticManager->setIndex(ii.id)\<close>); the tracker's own two counters are 32-bit. Shown: the
  statistic \<open>fullBranches\<close> of an instruction is 1 exactly when both sides have been visited, and
  the two counters count the instructions with both sides and with one side visited.
\<close>

record branch_stats =
  st_trueBranches :: "nat \<Rightarrow> nat"
  st_falseBranches :: "nat \<Rightarrow> nat"
  st_fullBranches :: "nat \<Rightarrow> nat"
  st_coveredInstructions :: "nat \<Rightarrow> nat"
  st_uncoveredInstructions :: "nat \<Rightarrow> u64"
  tk_fullBranches :: u32
  tk_partialBranches :: u32

text \<open>
  The options \<open>OutputStats\<close> and \<open>OutputIStats\<close>, and what \<open>instructionIsCoverable\<close> asks LLVM: whether an
  instruction is an \<open>unreachable\<close>, the instruction before it in its block, and whether an instruction
  is a call or invoke whose direct target is marked \<open>noreturn\<close>.
\<close>

record tracker_config =
  tc_OutputStats :: bool
  tc_OutputIStats :: bool
  tc_unreachable :: "inst_ptr \<Rightarrow> bool"
  tc_previous :: "inst_ptr \<Rightarrow> inst_ptr option"
  tc_calls_noreturn :: "inst_ptr \<Rightarrow> bool"

definition instructionIsCoverable :: "tracker_config \<Rightarrow> inst_ptr \<Rightarrow> bool" where
  "instructionIsCoverable tc i =
     (if tc_unreachable tc i
      then (case tc_previous tc i of None \<Rightarrow> True | Some prev \<Rightarrow> \<not> tc_calls_noreturn tc prev)
      else True)"

definition useStatistics :: "tracker_config \<Rightarrow> bool" where
  "useStatistics tc \<longleftrightarrow> tc_OutputStats tc \<or> tc_OutputIStats tc"

text \<open>The constructor: \<open>trackCoverage\<close> is 1 for every function.\<close>

definition init_stats :: "tracker_config \<Rightarrow> branch_stats" where
  "init_stats tc = \<lparr>st_trueBranches = (\<lambda>_. 0), st_falseBranches = (\<lambda>_. 0), st_fullBranches = (\<lambda>_. 0),
     st_coveredInstructions = (\<lambda>_. 0),
     st_uncoveredInstructions = (\<lambda>i. if tc_OutputIStats tc \<and> instructionIsCoverable tc i then 1 else 0),
     tk_fullBranches = 0, tk_partialBranches = 0\<rparr>"

subsection \<open>stepInstruction\<close>

definition cover_instruction :: "inst_ptr \<Rightarrow> branch_stats \<Rightarrow> branch_stats" where
  "cover_instruction i st =
     st\<lparr>st_coveredInstructions := (st_coveredInstructions st)(i := st_coveredInstructions st i + 1),
        st_uncoveredInstructions := (st_uncoveredInstructions st)(i := st_uncoveredInstructions st i + - 1)\<rparr>"

definition tracker_stepInstruction ::
  "tracker_config \<Rightarrow> inst_ptr \<Rightarrow> branch_stats \<Rightarrow> exec_state \<Rightarrow> branch_stats \<times> exec_state" where
  "tracker_stepInstruction tc i st es =
     (if \<not> tc_OutputIStats tc then (st, es)
      else
        (let es1 = (if instsSinceCovNew es \<noteq> 0 then es\<lparr>instsSinceCovNew := instsSinceCovNew es + 1\<rparr> else es) in
         if instructionIsCoverable tc i \<and> st_coveredInstructions st i = 0
         then (cover_instruction i st, es1\<lparr>coveredNew := True, instsSinceCovNew := 1\<rparr>)
         else (st, es1)))"

subsection \<open>markBranchVisited\<close>

definition mark_new :: "state_ptr \<Rightarrow> (state_ptr \<Rightarrow> exec_state) \<Rightarrow> state_ptr \<Rightarrow> exec_state" where
  "mark_new p h = h(p := (h p)\<lparr>coveredNew := True, instsSinceCovNew := 1\<rparr>)"

text \<open>\<open>++fullBranches; --partialBranches; ++stats::fullBranches\<close>, or \<open>++partialBranches\<close>.\<close>

definition count_side :: "nat \<Rightarrow> bool \<Rightarrow> branch_stats \<Rightarrow> branch_stats" where
  "count_side i other st =
     (if other
      then st\<lparr>tk_fullBranches := tk_fullBranches st + 1, tk_partialBranches := tk_partialBranches st - 1,
              st_fullBranches := (st_fullBranches st)(i := st_fullBranches st i + 1)\<rparr>
      else st\<lparr>tk_partialBranches := tk_partialBranches st + 1\<rparr>)"

definition visit_true :: "nat \<Rightarrow> bool \<Rightarrow> branch_stats \<Rightarrow> branch_stats" where
  "visit_true i hasFalse st =
     count_side i hasFalse (st\<lparr>st_trueBranches := (st_trueBranches st)(i := st_trueBranches st i + 1)\<rparr>)"

definition visit_false :: "nat \<Rightarrow> bool \<Rightarrow> branch_stats \<Rightarrow> branch_stats" where
  "visit_false i hasTrue st =
     count_side i hasTrue (st\<lparr>st_falseBranches := (st_falseBranches st)(i := st_falseBranches st i + 1)\<rparr>)"

definition markBranchVisited ::
  "bool \<Rightarrow> nat \<Rightarrow> state_ptr option \<Rightarrow> state_ptr option \<Rightarrow> branch_stats \<Rightarrow> (state_ptr \<Rightarrow> exec_state) \<Rightarrow>
   branch_stats \<times> (state_ptr \<Rightarrow> exec_state)" where
  "markBranchVisited OutputIStats i visitedTrue visitedFalse st h =
     (if \<not> OutputIStats then (st, h)
      else
        (let hasTrue = st_trueBranches st i \<noteq> 0; hasFalse = st_falseBranches st i \<noteq> 0;
             (st1, h1, hasTrue1) =
               (case visitedTrue of
                  Some p \<Rightarrow> if \<not> hasTrue then (visit_true i hasFalse st, mark_new p h, True)
                            else (st, h, hasTrue)
                | None \<Rightarrow> (st, h, hasTrue))
         in (case visitedFalse of
               Some p \<Rightarrow> if \<not> hasFalse then (visit_false i hasTrue1 st1, mark_new p h1) else (st1, h1)
             | None \<Rightarrow> (st1, h1))))"

text \<open>
  \<open>getIndexedValue(stats::fullBranches, getIndex())\<close>, as the executor reads it. The array of indexed
  statistics exists when statistics are in use, and is a null pointer otherwise; only with
  \<open>OutputIStats\<close> does the index follow the instruction, otherwise it stays 0.
\<close>

definition isFullyCovered :: "tracker_config \<Rightarrow> branch_stats \<Rightarrow> inst_ptr \<Rightarrow> bool option" where
  "isFullyCovered tc st i =
     (if useStatistics tc then Some (st_fullBranches st (if tc_OutputIStats tc then i else 0) \<noteq> 0) else None)"

subsection \<open>computeMinDistToUncovered\<close>

text \<open>
  \<open>local\<close> and \<open>toReturn\<close> are the statistics \<open>minDistToUncovered\<close> and \<open>minDistToReturn\<close> of the
  instruction, 0 for unreachable.
\<close>

definition computeMinDistToUncovered :: "u64 \<Rightarrow> u64 \<Rightarrow> u64 \<Rightarrow> u64" where
  "computeMinDistToUncovered minDistLocal distToReturn minDistAtRA =
     (if minDistAtRA = 0 then minDistLocal
      else if distToReturn = 0 then minDistLocal
      else if minDistLocal = 0 then distToReturn + minDistAtRA
      else min minDistLocal (distToReturn + minDistAtRA))"

subsection \<open>The counters are right\<close>

definition full_ids :: "branch_stats \<Rightarrow> nat set" where
  "full_ids st = {i. st_trueBranches st i \<noteq> 0 \<and> st_falseBranches st i \<noteq> 0}"

definition partial_ids :: "branch_stats \<Rightarrow> nat set" where
  "partial_ids st = {i. (st_trueBranches st i \<noteq> 0) \<noteq> (st_falseBranches st i \<noteq> 0)}"

definition stats_ok :: "branch_stats \<Rightarrow> bool" where
  "stats_ok st \<longleftrightarrow>
     (\<forall>i. st_fullBranches st i = (if i \<in> full_ids st then 1 else 0)) \<and>
     finite (full_ids st) \<and> finite (partial_ids st) \<and>
     tk_fullBranches st = of_nat (card (full_ids st)) \<and>
     tk_partialBranches st = of_nat (card (partial_ids st))"

lemma init_stats_ok: "stats_ok (init_stats tc)"
  by (simp add: stats_ok_def init_stats_def full_ids_def partial_ids_def)

text \<open>A side that is visited for the first time, when the other side has or has not been.\<close>

lemma count_side_ids:
  "full_ids (count_side i other st) = full_ids st" "partial_ids (count_side i other st) = partial_ids st"
  by (simp_all add: count_side_def full_ids_def partial_ids_def)

lemma first_side_ok:
  assumes ok: "stats_ok st" and side: "i \<notin> full_ids st" "i \<notin> partial_ids st"
    and st': "full_ids st' = full_ids st" "partial_ids st' = insert i (partial_ids st)"
      "st_fullBranches st' = st_fullBranches st" "tk_fullBranches st' = tk_fullBranches st"
      "tk_partialBranches st' = tk_partialBranches st"
  shows "stats_ok (count_side i False st')"
  using assms unfolding stats_ok_def count_side_ids by (simp add: count_side_def)

lemma second_side_ok:
  assumes ok: "stats_ok st" and side: "i \<notin> full_ids st" "i \<in> partial_ids st"
    and st': "full_ids st' = insert i (full_ids st)" "partial_ids st' = partial_ids st - {i}"
      "st_fullBranches st' = st_fullBranches st" "tk_fullBranches st' = tk_fullBranches st"
      "tk_partialBranches st' = tk_partialBranches st"
  shows "stats_ok (count_side i True st')"
proof -
  have fin: "finite (partial_ids st)" "finite (full_ids st)" using ok by (auto simp: stats_ok_def)
  have part: "tk_partialBranches st - 1 = of_nat (card (partial_ids st - {i}))"
    using ok card.remove [OF fin(1) side(2)] by (simp add: stats_ok_def)
  have full: "tk_fullBranches st + 1 = of_nat (card (insert i (full_ids st)))"
    using ok side(1) fin(2) by (simp add: stats_ok_def)
  have counts: "\<forall>j. st_fullBranches st j = (if j \<in> full_ids st then 1 else 0)"
    using ok by (simp add: stats_ok_def)
  show ?thesis
    unfolding stats_ok_def count_side_ids st' using part full counts side(1) fin st'(3-5)
    by (simp add: count_side_def)
qed

lemma visit_true_ok:
  assumes ok: "stats_ok st" and fresh: "st_trueBranches st i = 0"
  shows "stats_ok (visit_true i (st_falseBranches st i \<noteq> 0) st)"
proof -
  let ?st = "st\<lparr>st_trueBranches := (st_trueBranches st)(i := st_trueBranches st i + 1)\<rparr>"
  show ?thesis
  proof (cases "st_falseBranches st i = 0")
    case True
    with fresh have "full_ids ?st = full_ids st" "partial_ids ?st = insert i (partial_ids st)"
      by (auto simp: full_ids_def partial_ids_def)
    with True fresh show ?thesis
      using first_side_ok [OF ok, of i ?st] by (simp add: visit_true_def full_ids_def partial_ids_def)
  next
    case False
    with fresh have "full_ids ?st = insert i (full_ids st)" "partial_ids ?st = partial_ids st - {i}"
      by (auto simp: full_ids_def partial_ids_def)
    with False fresh show ?thesis
      using second_side_ok [OF ok, of i ?st] by (simp add: visit_true_def full_ids_def partial_ids_def)
  qed
qed

lemma visit_false_ok:
  assumes ok: "stats_ok st" and fresh: "st_falseBranches st i = 0"
  shows "stats_ok (visit_false i (st_trueBranches st i \<noteq> 0) st)"
proof -
  let ?st = "st\<lparr>st_falseBranches := (st_falseBranches st)(i := st_falseBranches st i + 1)\<rparr>"
  show ?thesis
  proof (cases "st_trueBranches st i = 0")
    case True
    with fresh have "full_ids ?st = full_ids st" "partial_ids ?st = insert i (partial_ids st)"
      by (auto simp: full_ids_def partial_ids_def)
    with True fresh show ?thesis
      using first_side_ok [OF ok, of i ?st] by (simp add: visit_false_def full_ids_def partial_ids_def)
  next
    case False
    with fresh have "full_ids ?st = insert i (full_ids st)" "partial_ids ?st = partial_ids st - {i}"
      by (auto simp: full_ids_def partial_ids_def)
    with False fresh show ?thesis
      using second_side_ok [OF ok, of i ?st] by (simp add: visit_false_def full_ids_def partial_ids_def)
  qed
qed

lemma visit_true_other [simp]:
  "st_falseBranches (visit_true i b st) = st_falseBranches st"
  "st_trueBranches (visit_true i b st) i = Suc (st_trueBranches st i)"
  by (simp_all add: visit_true_def count_side_def)

lemma markBranchVisited_ok:
  assumes "stats_ok st"
  shows "stats_ok (fst (markBranchVisited out i t f st h))"
  using assms visit_true_ok [OF assms, of i] visit_false_ok [OF assms, of i]
    visit_false_ok [OF visit_true_ok [OF assms], of i i]
  by (auto simp: markBranchVisited_def Let_def split: option.splits)

lemma markBranchVisited_frame:
  "markBranchVisited out i t f st h = (st', h') \<Longrightarrow>
   branchInfos (h' p) = branchInfos (h p) \<and> reachStore (h' p) = reachStore (h p) \<and>
   reachBranch (h' p) = reachBranch (h p) \<and> storeValues (h' p) = storeValues (h p) \<and>
   prev_inst (h' p) = prev_inst (h p)"
  by (auto simp: markBranchVisited_def Let_def mark_new_def split: option.splits if_splits)

lemma markBranchVisited_full_mono:
  "st_fullBranches st j \<noteq> 0 \<Longrightarrow> st_fullBranches (fst (markBranchVisited out i t f st h)) j \<noteq> 0"
  by (auto simp: markBranchVisited_def Let_def visit_true_def visit_false_def count_side_def split: option.splits)

lemma tracker_stepInstruction_frame:
  "tracker_stepInstruction tc i st es = (st', es') \<Longrightarrow>
   st_fullBranches st' = st_fullBranches st \<and> branchInfos es' = branchInfos es \<and> reachStore es' = reachStore es \<and>
   reachBranch es' = reachBranch es \<and> storeValues es' = storeValues es \<and> prev_inst es' = prev_inst es"
  by (auto simp: tracker_stepInstruction_def Let_def cover_instruction_def split: if_splits)

text \<open>The run of the executor: one call per executed conditional branch.\<close>

fun mark_all :: "bool \<Rightarrow> (nat \<times> state_ptr option \<times> state_ptr option) list \<Rightarrow> branch_stats \<Rightarrow>
    (state_ptr \<Rightarrow> exec_state) \<Rightarrow> branch_stats \<times> (state_ptr \<Rightarrow> exec_state)" where
  "mark_all out [] st h = (st, h)"
| "mark_all out ((i, t, f) # calls) st h =
     (case markBranchVisited out i t f st h of (st1, h1) \<Rightarrow> mark_all out calls st1 h1)"

lemma mark_all_ok: "stats_ok st \<Longrightarrow> stats_ok (fst (mark_all out calls st h))"
proof (induction out calls st h rule: mark_all.induct)
  case (2 out i t f calls st h)
  then show ?case
    using markBranchVisited_ok [OF "2.prems", of out i t f h] by (auto split: prod.splits)
qed simp

text \<open>The branches whose sides the calls visit.\<close>

definition true_seen :: "(nat \<times> state_ptr option \<times> state_ptr option) list \<Rightarrow> nat set" where
  "true_seen calls = {i. \<exists>t f. (i, t, f) \<in> set calls \<and> t \<noteq> None}"

definition false_seen :: "(nat \<times> state_ptr option \<times> state_ptr option) list \<Rightarrow> nat set" where
  "false_seen calls = {i. \<exists>t f. (i, t, f) \<in> set calls \<and> f \<noteq> None}"

lemma markBranchVisited_sides:
  "st_trueBranches (fst (markBranchVisited True i t f st h)) j \<noteq> 0 \<longleftrightarrow> st_trueBranches st j \<noteq> 0 \<or> j = i \<and> t \<noteq> None"
  "st_falseBranches (fst (markBranchVisited True i t f st h)) j \<noteq> 0 \<longleftrightarrow> st_falseBranches st j \<noteq> 0 \<or> j = i \<and> f \<noteq> None"
  by (auto simp: markBranchVisited_def Let_def visit_true_def visit_false_def count_side_def split: option.splits)

lemma seen_Cons:
  "true_seen ((i, t, f) # calls) = (if t \<noteq> None then insert i (true_seen calls) else true_seen calls)"
  "false_seen ((i, t, f) # calls) = (if f \<noteq> None then insert i (false_seen calls) else false_seen calls)"
  by (auto simp: true_seen_def false_seen_def)

lemma mark_all_sides:
  "(st_trueBranches (fst (mark_all True calls st h)) j \<noteq> 0 \<longleftrightarrow> st_trueBranches st j \<noteq> 0 \<or> j \<in> true_seen calls) \<and>
   (st_falseBranches (fst (mark_all True calls st h)) j \<noteq> 0 \<longleftrightarrow> st_falseBranches st j \<noteq> 0 \<or> j \<in> false_seen calls)"
proof (induction calls arbitrary: st h)
  case (Cons call calls)
  obtain i t f where call: "call = (i, t, f)" by (cases call)
  obtain st1 h1 where m: "markBranchVisited True i t f st h = (st1, h1)" by fastforce
  then have "mark_all True (call # calls) st h = mark_all True calls st1 h1" by (simp add: call)
  with Cons.IH [of st1 h1] markBranchVisited_sides [of i t f st h j] m show ?case
    unfolding call seen_Cons by (simp split: if_splits)
qed (simp add: true_seen_def false_seen_def)

text \<open>
  The branch counters are exact, whichever branches were executed in whichever order and however often:
  \<open>fullBranches\<close> counts the branches both of whose sides were visited, \<open>partialBranches\<close> those with one side
  visited (both modulo \<open>2 ^ 32\<close>), and the statistic \<open>fullBranches\<close> of a branch, which the search reads, is 1
  exactly when both its sides were visited.
\<close>

theorem branch_counters_exact:
  "let st = fst (mark_all True calls (init_stats tc) h); T = true_seen calls; F = false_seen calls
   in tk_fullBranches st = of_nat (card (T \<inter> F)) \<and> tk_partialBranches st = of_nat (card ((T - F) \<union> (F - T))) \<and>
      (\<forall>i. st_fullBranches st i = (if i \<in> T \<inter> F then 1 else 0))"
proof -
  let ?st = "fst (mark_all True calls (init_stats tc) h)"
  have "full_ids ?st = true_seen calls \<inter> false_seen calls"
    "partial_ids ?st = (true_seen calls - false_seen calls) \<union> (false_seen calls - true_seen calls)"
    using mark_all_sides [of calls "init_stats tc" h] by (auto simp: full_ids_def partial_ids_def init_stats_def)
  with mark_all_ok [OF init_stats_ok [of tc], of True calls h] show ?thesis by (simp add: stats_ok_def Let_def)
qed

end
