(* ===== verification/CGS_Executor.thy ===== *)
theory CGS_Executor
  imports StatsTracker
begin

unbundle bit_operations_syntax

section \<open>The executor's handlers\<close>

text \<open>
  The code \<open>Executor::executeInstruction\<close> (\<open>klee/lib/Core/Executor.cpp\<close>) runs after a conditional
  \<open>br\<close>, a \<open>switch\<close> on a concrete value and a \<open>store\<close>. A handler gets what the instruction's own
  part computed (the states the fork returned, the evaluated operands) as its input, and what it reads of
  the coverage statistic that \<open>StatsTracker::markBranchVisited\<close> has just brought up to date. The option
  \<open>covStats\<close>, which ends the \<open>br\<close> case before the handler, is off.
\<close>

subsection \<open>Which side of a branch is not covered\<close>

text \<open>
  The variable is the left operand of the comparison. \<open>c1\<close> and \<open>c2\<close> are the operand values cast to
  \<open>signed\<close>, so every order is the signed one. The \<open>default\<close> case leaves the record as it is.
\<close>

fun uncovered_var_left :: "predicate \<Rightarrow> u32 \<Rightarrow> u32 \<Rightarrow> predicate option" where
  "uncovered_var_left ICMP_EQ c1 c2 = Some (if c1 = c2 then ICMP_NE else ICMP_EQ)"
| "uncovered_var_left ICMP_NE c1 c2 = Some (if c1 \<noteq> c2 then ICMP_EQ else ICMP_NE)"
| "uncovered_var_left ICMP_UGT c1 c2 = Some (if sint c1 > sint c2 then ICMP_ULE else ICMP_UGT)"
| "uncovered_var_left ICMP_ULT c1 c2 = Some (if sint c1 < sint c2 then ICMP_UGE else ICMP_ULT)"
| "uncovered_var_left ICMP_UGE c1 c2 = Some (if sint c1 \<ge> sint c2 then ICMP_ULT else ICMP_UGE)"
| "uncovered_var_left ICMP_ULE c1 c2 = Some (if sint c1 \<le> sint c2 then ICMP_UGT else ICMP_ULE)"
| "uncovered_var_left ICMP_SGT c1 c2 = Some (if sint c1 > sint c2 then ICMP_SLE else ICMP_SGT)"
| "uncovered_var_left ICMP_SLT c1 c2 = Some (if sint c1 < sint c2 then ICMP_SGE else ICMP_SLT)"
| "uncovered_var_left ICMP_SGE c1 c2 = Some (if sint c1 \<ge> sint c2 then ICMP_SLT else ICMP_SGE)"
| "uncovered_var_left ICMP_SLE c1 c2 = Some (if sint c1 \<le> sint c2 then ICMP_SGT else ICMP_SLE)"
| "uncovered_var_left FCMP_FALSE c1 c2 = None"

text \<open>
  The variable is the right operand: the code turns the predicate round and stores the turned
  predicate in \<open>pred\<close> as well. The pair is (\<open>unCoveredPred\<close>, \<open>pred\<close>).
\<close>

fun uncovered_var_right :: "predicate \<Rightarrow> u32 \<Rightarrow> u32 \<Rightarrow> (predicate \<times> predicate) option" where
  "uncovered_var_right ICMP_EQ c1 c2 = Some (if c2 = c1 then ICMP_NE else ICMP_EQ, ICMP_EQ)"
| "uncovered_var_right ICMP_NE c1 c2 = Some (if c2 \<noteq> c1 then ICMP_EQ else ICMP_NE, ICMP_NE)"
| "uncovered_var_right ICMP_UGT c1 c2 = Some (if sint c2 < sint c1 then ICMP_UGE else ICMP_ULT, ICMP_ULT)"
| "uncovered_var_right ICMP_ULT c1 c2 = Some (if sint c2 > sint c1 then ICMP_ULE else ICMP_UGT, ICMP_UGT)"
| "uncovered_var_right ICMP_UGE c1 c2 = Some (if sint c2 \<le> sint c1 then ICMP_UGT else ICMP_ULE, ICMP_ULE)"
| "uncovered_var_right ICMP_ULE c1 c2 = Some (if sint c2 \<ge> sint c1 then ICMP_ULT else ICMP_UGE, ICMP_UGE)"
| "uncovered_var_right ICMP_SGT c1 c2 = Some (if sint c2 < sint c1 then ICMP_SGE else ICMP_SLT, ICMP_SLT)"
| "uncovered_var_right ICMP_SLT c1 c2 = Some (if sint c2 > sint c1 then ICMP_SLE else ICMP_SGT, ICMP_SGT)"
| "uncovered_var_right ICMP_SGE c1 c2 = Some (if sint c2 \<le> sint c1 then ICMP_SGT else ICMP_SLE, ICMP_SLE)"
| "uncovered_var_right ICMP_SLE c1 c2 = Some (if sint c2 \<ge> sint c1 then ICMP_SLT else ICMP_SGE, ICMP_SGE)"
| "uncovered_var_right FCMP_FALSE c1 c2 = None"

definition record_var_left :: "u32 \<Rightarrow> u32 \<Rightarrow> bddep \<Rightarrow> bddep" where
  "record_var_left c1 c2 bd =
     (let bd1 = bd\<lparr>bd_var := c1, bd_constant := c2\<rparr>
      in case uncovered_var_left (bd_pred bd) c1 c2 of
           None \<Rightarrow> bd1 | Some u \<Rightarrow> bd1\<lparr>bd_unCoveredPred := u\<rparr>)"

definition record_var_right :: "u32 \<Rightarrow> u32 \<Rightarrow> bddep \<Rightarrow> bddep" where
  "record_var_right c1 c2 bd =
     (let bd1 = bd\<lparr>bd_var := c2, bd_constant := c1\<rparr>
      in case uncovered_var_right (bd_pred bd) c1 c2 of
           None \<Rightarrow> bd1 | Some (u, p) \<Rightarrow> bd1\<lparr>bd_unCoveredPred := u, bd_pred := p\<rparr>)"

subsection \<open>Arithmetic on the variable\<close>

text \<open>
  The walk back along the operands, inside the block of the branch, to an \<open>and\<close> or \<open>or\<close> with one
  constant operand. The vector \<open>instVec\<close> is a stack, its back is the head here. The walk ends at
  the first instruction of another block and at the first \<open>and\<close> or \<open>or\<close>.
\<close>

definition arith_of :: "instr \<Rightarrow> (string \<times> u32) option" where
  "arith_of ins =
     (let op = (if i_op ins = OpAnd then ''and'' else ''or'') in
      case i_operands ins of
        op1 # op2 # _ \<Rightarrow>
          if \<not> is_ConstantInt op1 \<and> is_ConstantInt op2 then Some (op, of_int (ConstantInt_sext op2))
          else if is_ConstantInt op1 \<and> \<not> is_ConstantInt op2 then Some (op, of_int (ConstantInt_sext op1))
          else None
      | _ \<Rightarrow> None)"

function arith_scan :: "ir_module \<Rightarrow> bb_ptr \<Rightarrow> inst_ptr list \<Rightarrow> inst_ptr list \<Rightarrow> (string \<times> u32) option" where
  "arith_scan M bb [] used = None"
| "arith_scan M bb (i # instVec) used =
     (if i \<in> set used then arith_scan M bb instVec used
      else case inst_at M i of
        None \<Rightarrow> None
      | Some ins \<Rightarrow>
          if i_parent ins \<noteq> bb then None
          else if i_op ins = OpAnd \<or> i_op ins = OpOr then arith_of ins
          else arith_scan M bb (rev (operand_insts M ins) @ instVec) (i # used))"
  by pat_completeness auto
termination
proof (relation "measures [\<lambda>(M, bb, st, used). card ({..<length M} - set used), \<lambda>(M, bb, st, used). length st]",
    goal_cases)
  case (3 M bb i st used ins)
  then have "i < length M" by (auto simp: inst_at_def split: if_splits)
  with 3(1) have "card ({..<length M} - insert i (set used)) < card ({..<length M} - set used)"
    by (intro psubset_card_mono) auto
  then show ?case by simp
qed auto

subsection \<open>The lists of partly and fully covered branches\<close>

text \<open>\<open>reachBranchCount[bid] += 1\<close> when a state reaches a branch it was steered to.\<close>

definition reach_target :: "state_ptr \<Rightarrow> nat \<Rightarrow> cgs_exec \<Rightarrow> (state_ptr \<Rightarrow> exec_state) \<Rightarrow>
    cgs_exec \<times> (state_ptr \<Rightarrow> exec_state)" where
  "reach_target p bid x h =
     (if \<exists>b\<in>set (branchInfos (h p)). targetBranchID b = bid
      then (let c = fst (map_at 0 bid (reachBranchCount x)) + 1
            in (x\<lparr>reachBranchCount := (reachBranchCount x)(bid \<mapsto> c),
                 invalidBranches := (if c > maxReachBranchCount x then insert bid (invalidBranches x)
                                     else invalidBranches x)\<rparr>,
                h(p := (h p)\<lparr>reachBranch := True\<rparr>)))
      else (x, h))"

text \<open>
  The bound on how often a branch is taken up again: \<open>False\<close> when the bound is passed and the
  branch has become invalid.
\<close>

definition count_visit :: "nat \<Rightarrow> cgs_exec \<Rightarrow> bool \<times> cgs_exec" where
  "count_visit bid x =
     (case reachBranchCount x bid of
        None \<Rightarrow> (True, x\<lparr>reachBranchCount := (reachBranchCount x)(bid \<mapsto> 1)\<rparr>)
      | Some c \<Rightarrow>
          (let x1 = x\<lparr>reachBranchCount := (reachBranchCount x)(bid \<mapsto> c + 1)\<rparr>
           in if c + 1 > maxReachBranchCount x
              then (False, x1\<lparr>invalidBranches := insert bid (invalidBranches x1)\<rparr>)
              else (True, x1)))"

definition enlist :: "nat \<Rightarrow> cgs_exec \<Rightarrow> cgs_exec" where
  "enlist bid x =
     (if length (targetBranches x) < targetBranchNum x
      then x\<lparr>targetBranches := targetBranches x @ [bid], newPartlyCoveredBranch := True\<rparr>
      else x\<lparr>partlyCoveredBranches := partlyCoveredBranches x @ [bid]\<rparr>)"

definition retire :: "nat \<Rightarrow> cgs_exec \<Rightarrow> cgs_exec" where
  "retire bid x =
     (if bid \<in> set (fullyCoveredBranches x) then x
      else
        (let x1 = x\<lparr>fullyCoveredBranches := fullyCoveredBranches x @ [bid]\<rparr>;
             x2 = (if bid \<in> set (targetBranches x1)
                   then (let x3 = x1\<lparr>targetBranches := remove1 bid (targetBranches x1)\<rparr>
                         in if partlyCoveredBranches x3 \<noteq> []
                            then x3\<lparr>targetBranches := targetBranches x3 @ [last (partlyCoveredBranches x3)],
                                    partlyCoveredBranches := butlast (partlyCoveredBranches x3),
                                    newPartlyCoveredBranch := True\<rparr>
                            else x3)
                   else x1\<lparr>partlyCoveredBranches := remove1 bid (partlyCoveredBranches x1)\<rparr>)
         in x2\<lparr>newFullyCoveredBranch := True\<rparr>))"

subsection \<open>The br handler\<close>

text \<open>
  The input: the instruction, whether the evaluated condition is a \<open>ConstantExpr\<close>, the states the
  fork returned, and the values (\<open>getZExtValue\<close>) of the two operands of the condition, \<open>None\<close> for a
  symbolic one. \<open>full\<close> is what \<open>isFullyCovered\<close> reads.
\<close>

record br_input =
  br_i :: inst_ptr
  br_cond_constant :: bool
  br_first :: "state_ptr option"
  br_second :: "state_ptr option"
  br_v1 :: "u64 option"
  br_v2 :: "u64 option"

text \<open>
  The condition has to be an instruction of the same function, an \<open>icmp\<close>, with exactly one constant
  operand: the code asserts all three.
\<close>

definition record_branch :: "ir_module \<Rightarrow> br_input \<Rightarrow> nat \<Rightarrow> bddep \<Rightarrow> cgs_exec \<Rightarrow> cgs_exec option" where
  "record_branch M inp bid bd x =
     (case inst_at M (br_i inp) of
        None \<Rightarrow> None
      | Some bi \<Rightarrow>
      (case i_operands bi of
        VInst c # _ \<Rightarrow>
        (case inst_at M c of
          None \<Rightarrow> None
        | Some cond \<Rightarrow>
          if i_function cond \<noteq> i_function bi then None
          else
          (case (br_v1 inp, br_v2 inp) of
            (Some v1, Some v2) \<Rightarrow>
              (let c1 = ucast v1 :: u32; c2 = ucast v2 :: u32 in
               case (i_op cond, i_operands cond) of
                 (OpICmp _, op1 # op2 # _) \<Rightarrow>
                   if is_ConstantInt op1 = is_ConstantInt op2 then None
                   else
                     (let bd1 = (if is_ConstantInt op2 then record_var_left c1 c2 bd
                                 else record_var_right c1 c2 bd);
                          bd2 = (case arith_scan M (i_parent bi) [br_i inp] [] of
                                   None \<Rightarrow> bd1
                                 | Some (op, v) \<Rightarrow> bd1\<lparr>bd_arith_op := op, bd_arith_var := v\<rparr>)
                      in Some (enlist bid (x\<lparr>BDDeps := (BDDeps x)(bid \<mapsto> bd2)\<rparr>)))
               | _ \<Rightarrow> None)
          | _ \<Rightarrow> Some (x\<lparr>invalidBranches := insert bid (invalidBranches x)\<rparr>)))
      | _ \<Rightarrow> None))"

definition br_partly :: "ir_module \<Rightarrow> br_input \<Rightarrow> nat \<Rightarrow> cgs_exec \<Rightarrow> cgs_exec option" where
  "br_partly M inp bid x =
     (if bid \<in> set (targetBranches x) \<or> bid \<in> set (partlyCoveredBranches x) then Some x
      else case BDDeps x bid of
        None \<Rightarrow> None
      | Some bd \<Rightarrow>
          if bd_stores bd = [] then Some x
          else case count_visit bid x of
            (False, x1) \<Rightarrow> Some x1
          | (True, x1) \<Rightarrow> record_branch M inp bid bd x1)"

definition br_concrete :: "ir_module \<Rightarrow> bool option \<Rightarrow> br_input \<Rightarrow> state_ptr \<Rightarrow> cgs_exec \<Rightarrow>
    (state_ptr \<Rightarrow> exec_state) \<Rightarrow> (cgs_exec \<times> (state_ptr \<Rightarrow> exec_state)) option" where
  "br_concrete M full inp p x h =
     (case BI2ID x (Some (br_i inp)) of
        None \<Rightarrow> Some (x, h)
      | Some bid \<Rightarrow>
          (case (reach_target p bid x h, full) of
            (_, None) \<Rightarrow> None
          | ((x1, h1), Some fully) \<Rightarrow>
              (case (if \<not> fully \<and> bid \<notin> invalidBranches x1 then br_partly M inp bid x1 else Some x1) of
                 None \<Rightarrow> None
               | Some x2 \<Rightarrow> Some (if fully then retire bid x2 else x2, h1))))"

definition br_handler :: "ir_module \<Rightarrow> bool option \<Rightarrow> br_input \<Rightarrow> cgs_exec \<Rightarrow> (state_ptr \<Rightarrow> exec_state) \<Rightarrow>
    (cgs_exec \<times> (state_ptr \<Rightarrow> exec_state)) option" where
  "br_handler M full inp x h =
     (if \<not> br_cond_constant inp then Some (x\<lparr>BI2ID := (BI2ID x)(Some (br_i inp) := None)\<rparr>, h)
      else case (br_first inp, br_second inp) of
        (Some p, None) \<Rightarrow> br_concrete M full inp p x h
      | (None, Some p) \<Rightarrow> br_concrete M full inp p x h
      | _ \<Rightarrow> Some (x, h))"

subsection \<open>The switch handler\<close>

record sw_input =
  sw_i :: inst_ptr
  sw_value :: u64

definition sw_partly :: "nat \<Rightarrow> bddep \<Rightarrow> cgs_exec \<Rightarrow> cgs_exec" where
  "sw_partly bid bd x =
     (if bid \<in> set (targetBranches x) \<or> bid \<in> set (partlyCoveredBranches x) \<or> bd_stores bd = [] then x
      else case count_visit bid x of
        (False, x1) \<Rightarrow> x1
      | (True, x1) \<Rightarrow> enlist bid x1)"

definition switch_handler :: "sw_input \<Rightarrow> state_ptr \<Rightarrow> cgs_exec \<Rightarrow> (state_ptr \<Rightarrow> exec_state) \<Rightarrow>
    (cgs_exec \<times> (state_ptr \<Rightarrow> exec_state)) option" where
  "switch_handler inp p x h =
     (case BI2ID x (Some (sw_i inp)) of
        None \<Rightarrow> Some (x, h)
      | Some bid \<Rightarrow>
          (case reach_target p bid x h of
            (x1, h1) \<Rightarrow>
              (case BDDeps x1 bid of
                 None \<Rightarrow> None
               | Some bd \<Rightarrow>
                   (let bd1 = bd\<lparr>bd_unCoveredValues := bd_unCoveredValues bd - {ucast (sw_value inp)}\<rparr>;
                        x2 = x1\<lparr>BDDeps := (BDDeps x1)(bid \<mapsto> bd1)\<rparr>;
                        covered = (bd_unCoveredValues bd1 = {});
                        x3 = (if \<not> covered \<and> bid \<notin> invalidBranches x2 then sw_partly bid bd1 x2 else x2)
                    in Some (if covered then retire bid x3 else x3, h1)))))"

subsection \<open>The store handler\<close>

text \<open>
  \<open>iter\<close> gives the order in which C++ iterates a hash map. The handler runs after the store itself;
  \<open>v\<close> is the stored value when it is concrete and not a pointer.
\<close>

definition iterates :: "((nat \<rightharpoonup> u32) \<Rightarrow> nat list) \<Rightarrow> bool" where
  "iterates iter \<longleftrightarrow> (\<forall>m. finite (dom m) \<longrightarrow> distinct (iter m) \<and> set (iter m) = dom m)"

definition drop_stale :: "((nat \<rightharpoonup> u32) \<Rightarrow> nat list) \<Rightarrow> nat list \<Rightarrow> u32 \<Rightarrow> exec_state \<Rightarrow> exec_state" where
  "drop_stale iter related value es =
     (case find (\<lambda>s. s \<in> set related \<and> storeValues es s \<noteq> Some value) (iter (storeValues es)) of
        None \<Rightarrow> es
      | Some s \<Rightarrow> es\<lparr>storeValues := (storeValues es)(s := None),
                     branchInfos := erase_first (\<lambda>b. reachStoreID b = s) (branchInfos es)\<rparr>)"

definition store_target :: "nat \<Rightarrow> u32 \<Rightarrow> nat \<Rightarrow> cgs_exec \<times> exec_state \<Rightarrow> (cgs_exec \<times> exec_state) option" where
  "store_target sid value bid st =
     (case st of (x, es) \<Rightarrow>
        (case map_at {} bid (invalidStoreValues x) of
          (bad, m) \<Rightarrow>
            (let x1 = x\<lparr>invalidStoreValues := m\<rparr> in
             if value \<in> bad then Some (x1, es)
             else case BDDeps x1 bid of
               None \<Rightarrow> None
             | Some bd \<Rightarrow>
                 if sid \<in> set (bd_stores bd)
                 then Some (x1\<lparr>newBranchNumFromStore := newBranchNumFromStore x1 + 1\<rparr>,
                            es\<lparr>reachStore := True, reachBranch := False,
                               branchInfos := branchInfos es @
                                 [\<lparr>reachStoreID = sid, targetBranchID = bid\<rparr>]\<rparr>)
                 else Some (x1, es))))"

definition store_handler ::
  "((nat \<rightharpoonup> u32) \<Rightarrow> nat list) \<Rightarrow> inst_ptr \<Rightarrow> u64 option \<Rightarrow> state_ptr \<Rightarrow> cgs_exec \<Rightarrow>
   (state_ptr \<Rightarrow> exec_state) \<Rightarrow> (cgs_exec \<times> (state_ptr \<Rightarrow> exec_state)) option" where
  "store_handler iter si v p x h =
     (let sid = SI2ID x si in
      if sid = 0 then Some (x, h)
      else case v of
        None \<Rightarrow> Some (x, h)
      | Some v64 \<Rightarrow>
          (let value = ucast v64 :: u32;
               es1 = (case storesWithSameVar x sid of
                        None \<Rightarrow> h p
                      | Some related \<Rightarrow> drop_stale iter related value (h p));
               es2 = es1\<lparr>storeValues := (storeValues es1)(sid \<mapsto> value)\<rparr>
           in if targetBranches x = [] then Some (x, h(p := es2))
              else map_option (\<lambda>(x', es'). (x', h(p := es')))
                     (foldM (store_target sid value) (targetBranches x) (x, es2))))"

subsection \<open>What the parts of the handlers leave alone\<close>

lemma reach_target_frame:
  assumes "reach_target p bid x h = (x', h')"
  shows "BDDeps x' = BDDeps x" "BI2ID x' = BI2ID x" "ID2BI x' = ID2BI x"
    "targetBranches x' = targetBranches x" "partlyCoveredBranches x' = partlyCoveredBranches x"
    "fullyCoveredBranches x' = fullyCoveredBranches x" "targetBranchNum x' = targetBranchNum x"
    "newFullyCoveredBranch x' = newFullyCoveredBranch x"
    "newBranchNumFromStore x' = newBranchNumFromStore x"
    "branchInfos (h' q) = branchInfos (h q)" "reachStore (h' q) = reachStore (h q)"
    "q \<noteq> p \<Longrightarrow> h' q = h q" "invalidStoreValues x' = invalidStoreValues x"
    "invalidBranches x \<subseteq> invalidBranches x'" "maxReachBranchCount x' = maxReachBranchCount x"
  using assms by (auto simp: reach_target_def Let_def split: if_splits)

lemma count_visit_frame:
  assumes "count_visit bid x = (ok, x')"
  shows "BDDeps x' = BDDeps x" "BI2ID x' = BI2ID x" "ID2BI x' = ID2BI x"
    "targetBranches x' = targetBranches x" "partlyCoveredBranches x' = partlyCoveredBranches x"
    "fullyCoveredBranches x' = fullyCoveredBranches x" "targetBranchNum x' = targetBranchNum x"
    "newFullyCoveredBranch x' = newFullyCoveredBranch x"
    "newBranchNumFromStore x' = newBranchNumFromStore x"
    "invalidStoreValues x' = invalidStoreValues x"
    "maxReachBranchCount x' = maxReachBranchCount x"
  using assms by (auto simp: count_visit_def Let_def split: option.splits if_splits)

lemma enlist_frame [simp]:
  "BDDeps (enlist bid x) = BDDeps x" "BI2ID (enlist bid x) = BI2ID x" "ID2BI (enlist bid x) = ID2BI x"
  "fullyCoveredBranches (enlist bid x) = fullyCoveredBranches x"
  "targetBranchNum (enlist bid x) = targetBranchNum x"
  "newFullyCoveredBranch (enlist bid x) = newFullyCoveredBranch x"
  "newBranchNumFromStore (enlist bid x) = newBranchNumFromStore x"
  "invalidBranches (enlist bid x) = invalidBranches x"
  by (simp_all add: enlist_def)

lemma retire_frame [simp]:
  "BDDeps (retire bid x) = BDDeps x" "BI2ID (retire bid x) = BI2ID x" "ID2BI (retire bid x) = ID2BI x"
  "targetBranchNum (retire bid x) = targetBranchNum x"
  "newBranchNumFromStore (retire bid x) = newBranchNumFromStore x"
  "invalidBranches (retire bid x) = invalidBranches x"
  by (simp_all add: retire_def Let_def)

lemma sw_partly_frame [simp]:
  "BDDeps (sw_partly bid bd x) = BDDeps x" "BI2ID (sw_partly bid bd x) = BI2ID x"
  "ID2BI (sw_partly bid bd x) = ID2BI x"
  "fullyCoveredBranches (sw_partly bid bd x) = fullyCoveredBranches x"
  "targetBranchNum (sw_partly bid bd x) = targetBranchNum x"
  "newFullyCoveredBranch (sw_partly bid bd x) = newFullyCoveredBranch x"
  "newBranchNumFromStore (sw_partly bid bd x) = newBranchNumFromStore x"
  by (auto simp: sw_partly_def count_visit_frame split: prod.splits bool.splits)

subsection \<open>The lists stay consistent\<close>

text \<open>
  The three lists hold each branch at most once and in one list only, there are at most
  \<open>targetBranchNum\<close> targets, and every listed branch has a dependency record.
\<close>

definition lists_ok :: "cgs_exec \<Rightarrow> bool" where
  "lists_ok x \<longleftrightarrow>
     distinct (targetBranches x @ partlyCoveredBranches x @ fullyCoveredBranches x) \<and>
     length (targetBranches x) \<le> targetBranchNum x \<and>
     set (targetBranches x) \<union> set (partlyCoveredBranches x) \<union> set (fullyCoveredBranches x) \<subseteq> dom (BDDeps x)"

lemma lists_ok_cong:
  "lists_ok x \<Longrightarrow> targetBranches x' = targetBranches x \<Longrightarrow>
   partlyCoveredBranches x' = partlyCoveredBranches x \<Longrightarrow>
   fullyCoveredBranches x' = fullyCoveredBranches x \<Longrightarrow> targetBranchNum x' = targetBranchNum x \<Longrightarrow>
   dom (BDDeps x) \<subseteq> dom (BDDeps x') \<Longrightarrow> lists_ok x'"
  unfolding lists_ok_def by (metis subset_trans)

lemma enlist_ok:
  assumes "lists_ok x" "bid \<notin> set (targetBranches x)" "bid \<notin> set (partlyCoveredBranches x)"
    "bid \<notin> set (fullyCoveredBranches x)" "bid \<in> dom (BDDeps x)"
  shows "lists_ok (enlist bid x)"
  using assms by (auto simp: lists_ok_def enlist_def)

lemma butlast_last_cases: "xs \<noteq> [] \<Longrightarrow> \<exists>ys y. xs = ys @ [y] \<and> butlast xs = ys \<and> last xs = y"
  by (rule exI [of _ "butlast xs"], rule exI [of _ "last xs"]) simp

lemma retire_ok:
  assumes "lists_ok x" "bid \<in> dom (BDDeps x)"
  shows "lists_ok (retire bid x)"
proof (cases "bid \<in> set (fullyCoveredBranches x)")
  case True
  with assms show ?thesis by (simp add: retire_def)
next
  case False
  show ?thesis
  proof (cases "bid \<in> set (targetBranches x) \<and> partlyCoveredBranches x \<noteq> []")
    case True
    then obtain ps b where "partlyCoveredBranches x = ps @ [b]" using butlast_last_cases by blast
    moreover have "Suc (length (targetBranches x) - Suc 0) = length (targetBranches x)"
      using True length_pos_if_in_set [of bid "targetBranches x"] by simp
    ultimately show ?thesis
      using assms False True by (auto simp: lists_ok_def retire_def Let_def length_remove1)
  next
    case no: False
    with assms False show ?thesis
      by (auto simp: lists_ok_def retire_def Let_def length_remove1 notin_set_remove1)
  qed
qed

lemma retire_flag:
  "newFullyCoveredBranch x \<longrightarrow> fullyCoveredBranches x \<noteq> [] \<Longrightarrow>
   newFullyCoveredBranch (retire bid x) \<longrightarrow> fullyCoveredBranches (retire bid x) \<noteq> []"
  by (auto simp: retire_def Let_def)

end
