(* ===== verification/Searchers.thy ===== *)
theory Searchers
  imports RNG
begin

section \<open>The searcher interface and the list-based searchers\<close>

text \<open>
  \<open>klee/lib/Core/Searcher.h\<close> declares the abstract class \<open>Searcher\<close> (\<open>selectState\<close>,
  \<open>update\<close>, \<open>empty\<close>); \<open>Searcher.cpp\<close> implements it. Here: the class as a record of functions
  (its virtual table), the contract every searcher keeps towards the executor as the locale
  \<open>searcher\<close>, and \<open>DFSSearcher\<close>, \<open>BFSSearcher\<close> and \<open>RandomSearcher\<close>, whose state is the vector
  (deque) of states, with their proofs of the contract. The executor's bookkeeping around
  \<open>update\<close> (\<open>Executor::updateStates\<close>) is the client of the contract.
\<close>

subsection \<open>The virtual table\<close>

record 's searcher_vt =
  vt_selectState :: "'s \<Rightarrow> (state_ptr \<times> 's) option"
  vt_update :: "state_ptr option \<Rightarrow> state_ptr list \<Rightarrow> state_ptr list \<Rightarrow> 's \<Rightarrow> 's option"
  vt_empty :: "'s \<Rightarrow> bool"

subsection \<open>DFSSearcher\<close>

type_synonym dfs_searcher = "state_ptr list"

definition dfs_selectState :: "dfs_searcher \<Rightarrow> (state_ptr \<times> dfs_searcher) option" where
  "dfs_selectState states = (if states = [] then None else Some (last states, states))"

definition dfs_remove :: "state_ptr \<Rightarrow> dfs_searcher \<Rightarrow> dfs_searcher option" where
  "dfs_remove state states =
     (if states = [] then None
      else if state = last states then Some (butlast states)
      else find_erase state states)"

definition dfs_update ::
  "state_ptr option \<Rightarrow> state_ptr list \<Rightarrow> state_ptr list \<Rightarrow> dfs_searcher \<Rightarrow> dfs_searcher option" where
  "dfs_update current addedStates removedStates states =
     foldM dfs_remove removedStates (states @ addedStates)"

definition dfs_empty :: "dfs_searcher \<Rightarrow> bool" where
  "dfs_empty states \<longleftrightarrow> states = []"

definition dfs_vt :: "dfs_searcher searcher_vt" where
  "dfs_vt = \<lparr>vt_selectState = dfs_selectState, vt_update = dfs_update, vt_empty = dfs_empty\<rparr>"

subsection \<open>BFSSearcher\<close>

type_synonym bfs_searcher = "state_ptr list"

definition bfs_selectState :: "bfs_searcher \<Rightarrow> (state_ptr \<times> bfs_searcher) option" where
  "bfs_selectState states = (if states = [] then None else Some (hd states, states))"

definition bfs_remove :: "state_ptr \<Rightarrow> bfs_searcher \<Rightarrow> bfs_searcher option" where
  "bfs_remove state states =
     (if states = [] then None
      else if state = hd states then Some (tl states)
      else find_erase state states)"

text \<open>The current state moves to the back when it forked and survives.\<close>

definition bfs_rotate ::
  "state_ptr option \<Rightarrow> state_ptr list \<Rightarrow> state_ptr list \<Rightarrow> bfs_searcher \<Rightarrow> bfs_searcher option" where
  "bfs_rotate current addedStates removedStates states =
     (case current of
        None \<Rightarrow> Some states
      | Some c \<Rightarrow>
          if addedStates \<noteq> [] \<and> c \<notin> set removedStates
          then map_option (\<lambda>xs. xs @ [c]) (find_erase c states)
          else Some states)"

definition bfs_update ::
  "state_ptr option \<Rightarrow> state_ptr list \<Rightarrow> state_ptr list \<Rightarrow> bfs_searcher \<Rightarrow> bfs_searcher option" where
  "bfs_update current addedStates removedStates states =
     (case bfs_rotate current addedStates removedStates states of
        None \<Rightarrow> None
      | Some xs \<Rightarrow> foldM bfs_remove removedStates (xs @ addedStates))"

definition bfs_empty :: "bfs_searcher \<Rightarrow> bool" where
  "bfs_empty states \<longleftrightarrow> states = []"

definition bfs_vt :: "bfs_searcher searcher_vt" where
  "bfs_vt = \<lparr>vt_selectState = bfs_selectState, vt_update = bfs_update, vt_empty = bfs_empty\<rparr>"

subsection \<open>RandomSearcher\<close>

record random_searcher =
  rs_states :: "state_ptr list"
  rs_theRNG :: rng

definition random_selectState :: "random_searcher \<Rightarrow> (state_ptr \<times> random_searcher) option" where
  "random_selectState s =
     (if rs_states s = [] then None
      else case getInt32 (rs_theRNG s) of
        None \<Rightarrow> None
      | Some (r, g) \<Rightarrow>
          Some (rs_states s ! (unat r mod length (rs_states s)), s\<lparr>rs_theRNG := g\<rparr>))"

definition random_update ::
  "state_ptr option \<Rightarrow> state_ptr list \<Rightarrow> state_ptr list \<Rightarrow> random_searcher \<Rightarrow>
   random_searcher option" where
  "random_update current addedStates removedStates s =
     map_option (\<lambda>xs. s\<lparr>rs_states := xs\<rparr>) (foldM find_erase removedStates (rs_states s @ addedStates))"

definition random_empty :: "random_searcher \<Rightarrow> bool" where
  "random_empty s \<longleftrightarrow> rs_states s = []"

subsection \<open>The executor's side: \<open>Executor::updateStates\<close>\<close>

text \<open>
  The executor keeps the set \<open>states\<close> of all states and the vectors \<open>addedStates\<close> and
  \<open>removedStates\<close> an instruction filled. The searcher pointer is null before the searcher is
  built (\<open>if (searcher)\<close>).
\<close>

record 's exec_states =
  ex_states :: "state_ptr set"
  ex_added :: "state_ptr list"
  ex_removed :: "state_ptr list"
  ex_searcher :: "'s option"

definition remove_known :: "state_ptr \<Rightarrow> state_ptr set \<Rightarrow> state_ptr set option" where
  "remove_known es S = (if es \<in> S then Some (S - {es}) else None)"

definition updateStates ::
  "'s searcher_vt \<Rightarrow> state_ptr option \<Rightarrow> 's exec_states \<Rightarrow> 's exec_states option" where
  "updateStates vt current ex =
     (case (case ex_searcher ex of
              None \<Rightarrow> Some None
            | Some s \<Rightarrow> map_option Some (vt_update vt current (ex_added ex) (ex_removed ex) s)) of
        None \<Rightarrow> None
      | Some s' \<Rightarrow>
          (case foldM remove_known (ex_removed ex) (ex_states ex \<union> set (ex_added ex)) of
             None \<Rightarrow> None
           | Some S \<Rightarrow> Some (ex\<lparr>ex_states := S, ex_added := [], ex_removed := [], ex_searcher := s'\<rparr>)))"

text \<open>
  One round of the interpreter loop of \<open>Executor::run\<close>: a state is selected, an instruction of it
  is executed and the states are updated. \<open>instr\<close> is what the instruction does to the data the
  searcher shares with the executor, \<open>delta\<close> what it leaves in \<open>addedStates\<close> and
  \<open>removedStates\<close>.
\<close>

definition run_round ::
  "'s searcher_vt \<Rightarrow> (state_ptr \<Rightarrow> 's \<Rightarrow> 's option) \<Rightarrow> state_ptr list \<times> state_ptr list \<Rightarrow>
   's exec_states \<Rightarrow> (state_ptr \<times> 's exec_states) option" where
  "run_round vt instr delta ex =
     (case ex_searcher ex of
        None \<Rightarrow> None
      | Some s \<Rightarrow>
          (case vt_selectState vt s of
             None \<Rightarrow> None
           | Some (x, s') \<Rightarrow>
               (case instr x s' of
                  None \<Rightarrow> None
                | Some s'' \<Rightarrow>
                    map_option (\<lambda>ex'. (x, ex'))
                      (updateStates vt (Some x)
                         (ex\<lparr>ex_searcher := Some s'', ex_added := fst delta,
                             ex_removed := snd delta\<rparr>)))))"

subsection \<open>The contract\<close>

text \<open>
  What the executor guarantees when it calls \<open>update\<close> for a searcher that manages \<open>M\<close>: new
  states are new, removed states are known, nothing is listed twice.
\<close>

definition valid_update :: "state_ptr set \<Rightarrow> state_ptr list \<Rightarrow> state_ptr list \<Rightarrow> bool" where
  "valid_update M added removed \<longleftrightarrow>
     distinct added \<and> set added \<inter> M = {} \<and> distinct removed \<and> set removed \<subseteq> M \<union> set added"

text \<open>
  The contract in two parts. \<open>searcher_core\<close>: \<open>managed\<close> is the set of states a searcher can
  return; \<open>selectState\<close> returns one of them whenever there is one, and an \<open>update\<close> that returns
  changes \<open>managed\<close> by exactly the added and the removed states. \<open>current_ok\<close> says that a state may be
  passed to \<open>update\<close> as the current one; what \<open>selectState\<close> has just returned may.
\<close>

locale searcher_core =
  fixes selectState :: "'s \<Rightarrow> (state_ptr \<times> 's) option"
    and update :: "state_ptr option \<Rightarrow> state_ptr list \<Rightarrow> state_ptr list \<Rightarrow> 's \<Rightarrow> 's option"
    and is_empty :: "'s \<Rightarrow> bool"
    and managed :: "'s \<Rightarrow> state_ptr set"
    and invar :: "'s \<Rightarrow> bool"
    and current_ok :: "'s \<Rightarrow> state_ptr \<Rightarrow> bool"
  assumes empty_managed: "invar s \<Longrightarrow> is_empty s \<longleftrightarrow> managed s = {}"
    and select_returns: "invar s \<Longrightarrow> managed s \<noteq> {} \<Longrightarrow> \<exists>x s'. selectState s = Some (x, s')"
    and select_managed: "invar s \<Longrightarrow> selectState s = Some (x, s') \<Longrightarrow>
      x \<in> managed s \<and> managed s' = managed s \<and> invar s' \<and> current_ok s' x"
    and update_conserves: "invar s \<Longrightarrow> valid_update (managed s) added removed \<Longrightarrow>
      (\<And>c. current = Some c \<Longrightarrow> c \<in> managed s \<and> current_ok s c) \<Longrightarrow> update current added removed s = Some s' \<Longrightarrow>
      invar s' \<and> managed s' = managed s \<union> set added - set removed"
begin

definition vt :: "'s searcher_vt" where
  "vt = \<lparr>vt_selectState = selectState, vt_update = update, vt_empty = is_empty\<rparr>"

definition in_step :: "'s exec_states \<Rightarrow> bool" where
  "in_step ex \<longleftrightarrow> (\<exists>s. ex_searcher ex = Some s \<and> invar s \<and> managed s = ex_states ex)"

lemma remove_all_known:
  "set removed \<subseteq> S \<Longrightarrow> distinct removed \<Longrightarrow> foldM remove_known removed S = Some (S - set removed)"
proof (induction removed arbitrary: S)
  case (Cons x xs)
  then have "foldM remove_known xs (S - {x}) = Some (S - {x} - set xs)"
    by (intro Cons.IH) auto
  moreover have "S - {x} - set xs = S - set (x # xs)" by auto
  ultimately show ?case using Cons.prems(1) by (simp add: remove_known_def [of x S])
qed simp

text \<open>
  Once the searcher's \<open>update\<close> has returned, \<open>updateStates\<close> returns, and searcher and executor
  agree on the set of states.
\<close>

lemma updateStates_in_step:
  assumes s: "ex_searcher ex = Some s" and inv: "invar s" and M: "managed s = ex_states ex"
    and valid: "valid_update (ex_states ex) (ex_added ex) (ex_removed ex)"
    and cur: "\<And>c. current = Some c \<Longrightarrow> c \<in> managed s \<and> current_ok s c"
    and upd: "update current (ex_added ex) (ex_removed ex) s = Some s'"
  shows "\<exists>ex'. updateStates vt current ex = Some ex' \<and> in_step ex' \<and> ex_added ex' = [] \<and>
           ex_removed ex' = [] \<and>
           ex_states ex' = ex_states ex \<union> set (ex_added ex) - set (ex_removed ex)"
proof -
  have s': "invar s'" "managed s' = ex_states ex \<union> set (ex_added ex) - set (ex_removed ex)"
    using update_conserves [OF inv _ cur upd] valid M by auto
  have "foldM remove_known (ex_removed ex) (ex_states ex \<union> set (ex_added ex)) =
          Some (ex_states ex \<union> set (ex_added ex) - set (ex_removed ex))"
    using valid by (intro remove_all_known) (auto simp: valid_update_def)
  with s s' upd show ?thesis
    by (simp add: updateStates_def vt_def in_step_def)
qed

text \<open>A round that returns ran a state the executor knows and leaves both in step.\<close>

lemma round_in_step:
  assumes "in_step ex" and valid: "valid_update (ex_states ex) (fst delta) (snd delta)"
    and run: "run_round vt instr delta ex = Some (x, ex')"
    and instr: "\<And>x s s'. instr x s = Some s' \<Longrightarrow> invar s \<Longrightarrow> current_ok s x \<Longrightarrow>
      invar s' \<and> managed s' = managed s \<and> current_ok s' x"
  shows "x \<in> ex_states ex \<and> in_step ex' \<and>
         ex_states ex' = ex_states ex \<union> set (fst delta) - set (snd delta)"
proof -
  from assms(1) obtain s where s: "ex_searcher ex = Some s" "invar s" "managed s = ex_states ex"
    by (auto simp: in_step_def)
  from run s(1) obtain s1 s2 where sel: "selectState s = Some (x, s1)" and s2: "instr x s1 = Some s2"
    and upd: "updateStates vt (Some x) (ex\<lparr>ex_searcher := Some s2, ex_added := fst delta,
                ex_removed := snd delta\<rparr>) = Some ex'" (is "updateStates vt _ ?ex = _")
    by (auto simp: run_round_def vt_def split: option.splits prod.splits)
  note sm = select_managed [OF s(2) sel]
  have i2: "invar s2" "managed s2 = ex_states ex" "current_ok s2 x"
    using instr [OF s2] sm s(3) by auto
  from upd obtain s3 where "update (Some x) (ex_added ?ex) (ex_removed ?ex) s2 = Some s3"
    by (auto simp: updateStates_def vt_def split: option.splits)
  then have "\<exists>ex'. updateStates vt (Some x) ?ex = Some ex' \<and> in_step ex' \<and> ex_added ex' = [] \<and>
          ex_removed ex' = [] \<and>
          ex_states ex' = ex_states ?ex \<union> set (ex_added ?ex) - set (ex_removed ?ex)"
    using i2 sm s(3) valid by (intro updateStates_in_step [of _ s2]) auto
  then show ?thesis using upd sm s(3) by auto
qed

end

text \<open>
  \<open>searcher\<close> adds that \<open>update\<close> returns: no assertion of it fails and every \<open>erase\<close> finds its
  element.
\<close>

locale searcher = searcher_core +
  assumes update_returns: "invar s \<Longrightarrow> valid_update (managed s) added removed \<Longrightarrow>
      (\<And>c. current = Some c \<Longrightarrow> c \<in> managed s \<and> current_ok s c) \<Longrightarrow>
      \<exists>s'. update current added removed s = Some s'"
begin

text \<open>The interpreter loop never gets stuck in the searcher while there are states.\<close>

lemma round_returns:
  assumes "in_step ex" and "ex_states ex \<noteq> {}"
    and valid: "valid_update (ex_states ex) (fst delta) (snd delta)"
    and instr: "\<And>x s. invar s \<Longrightarrow> current_ok s x \<Longrightarrow>
      \<exists>s'. instr x s = Some s' \<and> invar s' \<and> managed s' = managed s \<and> current_ok s' x"
  shows "\<exists>x ex'. run_round vt instr delta ex = Some (x, ex')"
proof -
  from assms(1) obtain s where s: "ex_searcher ex = Some s" "invar s" "managed s = ex_states ex"
    by (auto simp: in_step_def)
  from select_returns [OF s(2)] s(3) assms(2) obtain x s1 where sel: "selectState s = Some (x, s1)"
    by auto
  note sm = select_managed [OF s(2) sel]
  from instr sm obtain s2 where s2: "instr x s1 = Some s2" "invar s2" "managed s2 = managed s1"
      "current_ok s2 x"
    by blast
  from update_returns [OF s2(2), of "fst delta" "snd delta" "Some x"] s2 sm s(3) valid obtain s3
    where upd: "update (Some x) (fst delta) (snd delta) s2 = Some s3"
    by auto
  let ?ex = "ex\<lparr>ex_searcher := Some s2, ex_added := fst delta, ex_removed := snd delta\<rparr>"
  have "\<exists>ex'. updateStates vt (Some x) ?ex = Some ex' \<and> in_step ex' \<and> ex_added ex' = [] \<and>
          ex_removed ex' = [] \<and>
          ex_states ex' = ex_states ?ex \<union> set (ex_added ?ex) - set (ex_removed ?ex)"
    using s2 sm s(3) valid upd by (intro updateStates_in_step [of _ s2]) auto
  then show ?thesis using s(1) sel s2(1) by (auto simp: run_round_def vt_def)
qed

end

text \<open>
  A searcher that accepts any state it manages as the current one, not only the one it selected
  last: what the searchers that hold on to a selection (\<open>BatchingSearcher\<close>) need below them.
\<close>

locale robust_searcher = searcher +
  assumes any_current: "invar s \<Longrightarrow> c \<in> managed s \<Longrightarrow> current_ok s c"

subsection \<open>The list-based searchers keep the contract\<close>

lemma dfs_remove_spec:
  "distinct xs \<Longrightarrow> x \<in> set xs \<Longrightarrow>
   \<exists>ys. dfs_remove x xs = Some ys \<and> distinct ys \<and> set ys = set xs - {x}"
  by (auto simp: dfs_remove_def set_butlast_distinct distinct_butlast)

lemma bfs_remove_spec:
  "distinct xs \<Longrightarrow> x \<in> set xs \<Longrightarrow>
   \<exists>ys. bfs_remove x xs = Some ys \<and> distinct ys \<and> set ys = set xs - {x}"
  by (auto simp: bfs_remove_def set_tl_distinct distinct_tl)

lemma find_erase_spec:
  "distinct xs \<Longrightarrow> x \<in> set xs \<Longrightarrow>
   \<exists>ys. find_erase x xs = Some ys \<and> distinct ys \<and> set ys = set xs - {x}"
  by simp

text \<open>Removing a list of known states one by one, for any removal that keeps the specification.\<close>

lemma foldM_remove:
  assumes rm: "\<And>x xs. distinct xs \<Longrightarrow> x \<in> set xs \<Longrightarrow>
      \<exists>ys. rm x xs = Some ys \<and> distinct ys \<and> set ys = set xs - {x}"
    and "distinct xs" "distinct removed" "set removed \<subseteq> set xs"
  shows "\<exists>ys. foldM rm removed xs = Some ys \<and> distinct ys \<and> set ys = set xs - set removed"
  using assms(2-4)
proof (induction removed arbitrary: xs)
  case (Cons x removed)
  from rm [of xs x] Cons.prems obtain ys where
    ys: "rm x xs = Some ys" "distinct ys" "set ys = set xs - {x}" by auto
  moreover have "set removed \<subseteq> set ys" using Cons.prems ys(3) by auto
  moreover have "set ys - set removed = set xs - set (x # removed)" using ys(3) by auto
  ultimately show ?case using Cons.prems(2) Cons.IH [of ys] by simp
qed simp

lemma bfs_rotate_spec:
  assumes "distinct xs" and "\<And>c. current = Some c \<Longrightarrow> c \<in> set xs"
  shows "\<exists>ys. bfs_rotate current added removed xs = Some ys \<and> distinct ys \<and> set ys = set xs"
  using assms by (auto simp: bfs_rotate_def split: option.splits)

lemma dfs_update_spec:
  assumes "distinct s" "valid_update (set s) added removed"
  shows "\<exists>s'. dfs_update current added removed s = Some s' \<and> distinct s' \<and>
           set s' = set s \<union> set added - set removed"
  using assms foldM_remove [OF dfs_remove_spec, of "s @ added" removed]
  by (auto simp: dfs_update_def valid_update_def)

lemma bfs_update_spec:
  assumes "distinct s" "valid_update (set s) added removed" "\<And>c. current = Some c \<Longrightarrow> c \<in> set s"
  shows "\<exists>s'. bfs_update current added removed s = Some s' \<and> distinct s' \<and>
           set s' = set s \<union> set added - set removed"
proof -
  obtain ys where ys: "bfs_rotate current added removed s = Some ys" "distinct ys" "set ys = set s"
    using bfs_rotate_spec [OF assms(1,3)] by blast
  with assms(2) show ?thesis
    using foldM_remove [OF bfs_remove_spec, of "ys @ added" removed]
    by (auto simp: bfs_update_def valid_update_def)
qed

lemma random_update_spec:
  assumes "distinct (rs_states s)" "valid_update (set (rs_states s)) added removed"
  shows "\<exists>s'. random_update current added removed s = Some s' \<and> distinct (rs_states s') \<and>
           set (rs_states s') = set (rs_states s) \<union> set added - set removed \<and>
           rs_theRNG s' = rs_theRNG s"
proof -
  obtain ys where "foldM find_erase removed (rs_states s @ added) = Some ys" "distinct ys"
      "set ys = set (rs_states s) \<union> set added - set removed"
    using assms foldM_remove [OF find_erase_spec, of "rs_states s @ added" removed]
    by (auto simp: valid_update_def)
  then show ?thesis by (simp add: random_update_def)
qed

interpretation dfs: robust_searcher dfs_selectState dfs_update dfs_empty set distinct
  "\<lambda>states c. c \<in> set states"
proof (unfold_locales, goal_cases)
  case (4 s added removed current s')
  then show ?case using dfs_update_spec [of s added removed current] by auto
next
  case (5 s added removed current)
  then show ?case using dfs_update_spec [of s added removed current] by auto
qed (auto simp: dfs_selectState_def dfs_empty_def split: if_splits)

interpretation bfs: robust_searcher bfs_selectState bfs_update bfs_empty set distinct
  "\<lambda>states c. c \<in> set states"
proof (unfold_locales, goal_cases)
  case (4 s added removed current s')
  then show ?case using bfs_update_spec [of s added removed current] by auto
next
  case (5 s added removed current)
  then show ?case using bfs_update_spec [of s added removed current] by auto
qed (auto simp: bfs_selectState_def bfs_empty_def split: if_splits)

lemma random_select_spec:
  assumes "rng_ok (rs_theRNG s)" "rs_states s \<noteq> []"
  shows "\<exists>i g. i < length (rs_states s) \<and> rng_ok g \<and>
    random_selectState s = Some (rs_states s ! i, s\<lparr>rs_theRNG := g\<rparr>)"
proof -
  obtain y g where "getInt32 (rs_theRNG s) = Some (y, g)" "rng_ok g"
    using getInt32_ok [OF assms(1)] by blast
  then show ?thesis
    using assms(2)
    by (intro exI [of _ "unat y mod length (rs_states s)"] exI [of _ g])
      (simp add: random_selectState_def)
qed

interpretation random: robust_searcher random_selectState random_update random_empty
  "\<lambda>s. set (rs_states s)" "\<lambda>s. distinct (rs_states s) \<and> rng_ok (rs_theRNG s)"
  "\<lambda>s c. c \<in> set (rs_states s)"
proof (unfold_locales, goal_cases)
  case (2 s)
  then show ?case using random_select_spec [of s] by auto
next
  case (3 s x s')
  then have "rs_states s \<noteq> []" by (auto simp: random_selectState_def)
  with 3 show ?case using random_select_spec [of s] by auto
next
  case (4 s added removed current s')
  then show ?case using random_update_spec [of s added removed current] by auto
next
  case (5 s added removed current)
  then show ?case using random_update_spec [of s added removed current] by auto
qed (auto simp: random_empty_def)

end
