(* ===== verification/CGS_Searcher.thy ===== *)
theory CGS_Searcher
  imports CGS_Executor Searchers
begin

unbundle bit_operations_syntax

section \<open>CGSSearcher\<close>

text \<open>
  \<open>CGSSearcher\<close> of \<open>klee/lib/Core/Searcher.cpp\<close>: two vectors, \<open>branch_states\<close> for the states that
  are steered to a target branch and \<open>states\<close> for the others. \<open>selectState\<close> takes the front of the
  first non-empty one; \<open>update\<close> moves states between them. The searcher works on the executor's
  tables and on the states themselves, so its operations act on the whole \<open>cgs_world\<close>.

  A loop that erases from the vector it iterates goes on with the element after the erased one, as
  the code relies on.
\<close>

subsection \<open>Is a store value worth following?\<close>

definition arith_value :: "bddep \<Rightarrow> u32 \<Rightarrow> u32" where
  "arith_value bd value =
     (if bd_arith_op bd = ''and'' then value AND bd_arith_var bd
      else if bd_arith_op bd = ''or'' then value OR bd_arith_var bd
      else value)"

text \<open>The comparison of the code: signed for the unsigned predicates too, false for others.\<close>

fun compare_pred :: "predicate \<Rightarrow> u32 \<Rightarrow> u32 \<Rightarrow> bool" where
  "compare_pred ICMP_EQ v c = (v = c)"
| "compare_pred ICMP_NE v c = (v \<noteq> c)"
| "compare_pred ICMP_SGT v c = (sint v > sint c)"
| "compare_pred ICMP_UGT v c = (sint v > sint c)"
| "compare_pred ICMP_SLT v c = (sint v < sint c)"
| "compare_pred ICMP_ULT v c = (sint v < sint c)"
| "compare_pred ICMP_SGE v c = (sint v \<ge> sint c)"
| "compare_pred ICMP_UGE v c = (sint v \<ge> sint c)"
| "compare_pred ICMP_SLE v c = (sint v \<le> sint c)"
| "compare_pred ICMP_ULE v c = (sint v \<le> sint c)"
| "compare_pred FCMP_FALSE v c = False"

text \<open>
  The uncached decision: whether the value covers something new, and the value as the code goes on
  to cache it (after \<open>and\<close> or \<open>or\<close>).
\<close>

definition decide_value :: "bddep \<Rightarrow> u32 \<Rightarrow> bool \<times> u32" where
  "decide_value bd value =
     (if bd_switch bd then (value \<in> bd_unCoveredValues bd, value)
      else (let v = arith_value bd value in (compare_pred (bd_unCoveredPred bd) v (bd_constant bd), v)))"

definition isNewStoreValue :: "state_ptr \<Rightarrow> nat \<Rightarrow> nat \<Rightarrow> cgs_world \<Rightarrow> (bool \<times> cgs_world) option" where
  "isNewStoreValue p bid sid w =
     (case map_at 0 sid (storeValues (heap w p)) of
       (value, sv) \<Rightarrow>
         (let w1 = upd_state p (\<lambda>es. es\<lparr>storeValues := sv\<rparr>) w; x = cgs_x w1 in
          case invalidStoreValues x bid of
            None \<Rightarrow> Some (True, upd_x (\<lambda>x. x\<lparr>invalidStoreValues := (invalidStoreValues x)(bid \<mapsto> {value})\<rparr>) w1)
          | Some bad \<Rightarrow>
              (let note_invalid = (\<lambda>v. upd_x (\<lambda>x. x\<lparr>invalidStoreValues :=
                     (invalidStoreValues x)(bid \<mapsto> insert v bad)\<rparr>) w1);
                   note_valid = (\<lambda>v. w1\<lparr>validStoreValues := (validStoreValues w1)
                     (bid := insert v (validStoreValues w1 bid))\<rparr>)
               in if value \<in> bad then Some (False, note_invalid value)
                  else if value \<in> validStoreValues w1 bid then Some (True, note_valid value)
                  else case BDDeps x bid of
                    None \<Rightarrow> None
                  | Some bd \<Rightarrow>
                      (case decide_value bd value of
                        (find_new, v) \<Rightarrow>
                          Some (find_new, if find_new then note_valid v else note_invalid v)))))"

subsection \<open>Moving states\<close>

text \<open>\<open>find\<close> the state in \<open>states\<close> and, if it is there, move it to the back of \<open>branch_states\<close>.\<close>

definition to_branch_states :: "state_ptr \<Rightarrow> cgs_world \<Rightarrow> cgs_world" where
  "to_branch_states p w =
     (if p \<in> set (states w)
      then w\<lparr>states := remove1 p (states w), branch_states := branch_states w @ [p]\<rparr> else w)"

definition to_states_back :: "state_ptr \<Rightarrow> cgs_world \<Rightarrow> cgs_world" where
  "to_states_back p w =
     (if p \<in> set (branch_states w)
      then w\<lparr>branch_states := remove1 p (branch_states w), states := states w @ [p]\<rparr> else w)"

definition to_states_front :: "state_ptr \<Rightarrow> cgs_world \<Rightarrow> cgs_world" where
  "to_states_front p w =
     (if p \<in> set (branch_states w)
      then w\<lparr>branch_states := remove1 p (branch_states w), states := p # states w\<rparr> else w)"

subsection \<open>handlePartlyCoveredBranch\<close>

definition push_info :: "nat \<Rightarrow> nat \<Rightarrow> exec_state \<Rightarrow> exec_state" where
  "push_info sid bid es =
     es\<lparr>branchInfos := branchInfos es @ [\<lparr>reachStoreID = sid, targetBranchID = bid\<rparr>]\<rparr>"

definition partly_current :: "state_ptr option \<Rightarrow> nat \<Rightarrow> nat \<Rightarrow> cgs_world \<Rightarrow> cgs_world option" where
  "partly_current current targetBID sid w =
     (case current of
        None \<Rightarrow> None
      | Some c \<Rightarrow>
          (case (if sid \<in> dom (storeValues (heap w c))
                 then map_option snd (isNewStoreValue c targetBID sid w) else Some w) of
             None \<Rightarrow> None
           | Some w1 \<Rightarrow> Some (upd_state c (push_info sid targetBID) w1)))"

text \<open>One pass over \<open>states\<close> for one store: the arguments are the rest of the vector and what stays.\<close>

fun scan_states :: "state_ptr option \<Rightarrow> nat \<Rightarrow> nat \<Rightarrow> state_ptr list \<Rightarrow> state_ptr list \<Rightarrow> cgs_world \<Rightarrow> cgs_world option" where
  "scan_states current targetBID sid [] kept w = Some (w\<lparr>states := kept\<rparr>)"
| "scan_states current targetBID sid (p # ps) kept w =
     (if current = Some p \<or> sid \<notin> dom (storeValues (heap w p))
      then scan_states current targetBID sid ps (kept @ [p]) w
      else case isNewStoreValue p targetBID sid w of
        None \<Rightarrow> None
      | Some (False, w1) \<Rightarrow> scan_states current targetBID sid ps (kept @ [p]) w1
      | Some (True, w1) \<Rightarrow>
          (let w2 = upd_state p (\<lambda>es. push_info sid targetBID (es\<lparr>reachBranch := False, reachStore := False\<rparr>)) w1
           in scan_states current targetBID sid ps kept (w2\<lparr>branch_states := branch_states w2 @ [p]\<rparr>)))"

definition handlePartlyCoveredBranch :: "state_ptr option \<Rightarrow> nat \<Rightarrow> cgs_world \<Rightarrow> cgs_world option" where
  "handlePartlyCoveredBranch current targetBID w =
     (case BDDeps (cgs_x w) targetBID of
        None \<Rightarrow> None
      | Some bd \<Rightarrow>
          (case foldM (partly_current current targetBID) (bd_stores bd) w of
             None \<Rightarrow> None
           | Some w1 \<Rightarrow>
               (let w2 = (case current of None \<Rightarrow> w1 | Some c \<Rightarrow> to_branch_states c w1)
                in foldM (\<lambda>sid w. scan_states current targetBID sid (states w) [] w) (bd_stores bd) w2)))"

subsection \<open>handleFullyCoveredBranch\<close>

text \<open>One store of the covered branch: the ids whose branches are all covered are collected.\<close>

definition release_store :: "nat \<Rightarrow> func_ptr \<Rightarrow> nat \<Rightarrow> cgs_exec \<times> nat set \<Rightarrow> cgs_exec \<times> nat set" where
  "release_store coveredBID F sid st =
     (case st of (x, remove_sv) \<Rightarrow>
        (let bs = storetTobranches x sid - {coveredBID};
             x1 = x\<lparr>storetTobranches := (storetTobranches x)(sid := bs)\<rparr>
         in if bs = {}
            then (case ID2SI x1 sid of
                    None \<Rightarrow> (x1, insert sid remove_sv)
                  | Some SI \<Rightarrow> (x1\<lparr>funcStores := (funcStores x1)(F := remove1 SI (funcStores x1 F))\<rparr>,
                                insert sid remove_sv))
            else (x1, remove_sv)))"

definition forget_branch :: "nat \<Rightarrow> nat set \<Rightarrow> exec_state \<Rightarrow> exec_state" where
  "forget_branch coveredBID remove_sv es =
     es\<lparr>storeValues := storeValues es |` (- remove_sv),
        branchInfos := erase_first (\<lambda>b. targetBranchID b = coveredBID) (branchInfos es)\<rparr>"

fun fully_loop :: "state_ptr \<Rightarrow> nat \<Rightarrow> nat set \<Rightarrow> state_ptr list \<Rightarrow> state_ptr list \<Rightarrow> cgs_world \<Rightarrow> cgs_world" where
  "fully_loop current coveredBID remove_sv [] kept w = w\<lparr>branch_states := kept\<rparr>"
| "fully_loop current coveredBID remove_sv (p # ps) kept w =
     (let w1 = upd_state p (forget_branch coveredBID remove_sv) w
      in if p \<noteq> current \<and> branchInfos (heap w1 p) = []
         then fully_loop current coveredBID remove_sv ps kept (w1\<lparr>states := states w1 @ [p]\<rparr>)
         else fully_loop current coveredBID remove_sv ps (kept @ [p]) w1)"

definition handleFullyCoveredBranch :: "ir_module \<Rightarrow> state_ptr \<Rightarrow> nat \<Rightarrow> cgs_world \<Rightarrow> cgs_world option" where
  "handleFullyCoveredBranch M current coveredBID w =
     (case ID2BI (cgs_x w) coveredBID of
        None \<Rightarrow> None
      | Some I \<Rightarrow>
      (case inst_at M I of
        None \<Rightarrow> None
      | Some ins \<Rightarrow>
      (case BDDeps (cgs_x w) coveredBID of
        None \<Rightarrow> None
      | Some bd \<Rightarrow>
          (case fold (release_store coveredBID (i_function ins)) (bd_stores bd) (cgs_x w, {}) of
            (x1, remove_sv) \<Rightarrow>
              Some (fully_loop current coveredBID remove_sv (branch_states w) [] (w\<lparr>cgs_x := x1\<rparr>))))))"

subsection \<open>selectState and empty\<close>

definition cgs_selectState :: "cgs_world \<Rightarrow> (state_ptr \<times> cgs_world) option" where
  "cgs_selectState w =
     (if branch_states w \<noteq> [] then Some (hd (branch_states w), w)
      else if states w \<noteq> [] then Some (hd (states w), w) else None)"

definition cgs_empty :: "cgs_world \<Rightarrow> bool" where
  "cgs_empty w \<longleftrightarrow> states w = [] \<and> branch_states w = []"

subsection \<open>update\<close>

text \<open>For bfs: the current state goes to the back of the vector the code expects it in.\<close>

definition upd_rotate :: "state_ptr \<Rightarrow> cgs_world \<Rightarrow> cgs_world option" where
  "upd_rotate c w =
     (if branch_states w = []
      then map_option (\<lambda>xs. w\<lparr>states := xs @ [c]\<rparr>) (find_erase c (states w))
      else map_option (\<lambda>xs. w\<lparr>branch_states := xs @ [c]\<rparr>) (find_erase c (branch_states w)))"

text \<open>The current state has reached a target branch and the branch is now fully covered.\<close>

definition upd_fully :: "ir_module \<Rightarrow> state_ptr \<Rightarrow> cgs_world \<Rightarrow> cgs_world option" where
  "upd_fully M c w =
     (if fullyCoveredBranches (cgs_x w) = [] then None
      else case handleFullyCoveredBranch M c (last (fullyCoveredBranches (cgs_x w))) w of
        None \<Rightarrow> None
      | Some w1 \<Rightarrow>
          (let w2 = (if branchInfos (heap w1 c) = [] then to_states_front c w1 else w1)
           in Some (upd_x (\<lambda>x. x\<lparr>newFullyCoveredBranch := False\<rparr>) w2)))"

text \<open>
  It has reached a target branch that is still not covered. \<open>BI2ID[BI]\<close> with \<open>BI\<close> the cast of the
  previous instruction to a \<open>BranchInst\<close>, null for a switch.
\<close>

definition past_branch :: "ir_module \<Rightarrow> inst_ptr \<Rightarrow> inst_ptr option" where
  "past_branch M i = (case inst_at M i of
     None \<Rightarrow> None | Some ins \<Rightarrow> (case i_op ins of OpBr _ \<Rightarrow> Some i | _ \<Rightarrow> None))"

definition upd_missed :: "ir_module \<Rightarrow> state_ptr \<Rightarrow> cgs_world \<Rightarrow> cgs_world" where
  "upd_missed M c w =
     (case map_at 0 (past_branch M (prev_inst (heap w c))) (BI2ID (cgs_x w)) of
       (pastBID, m) \<Rightarrow>
         (let w1 = upd_x (\<lambda>x. x\<lparr>BI2ID := m\<rparr>) w;
              w2 = upd_state c (\<lambda>es. es\<lparr>branchInfos :=
                     erase_first (\<lambda>b. targetBranchID b = pastBID) (branchInfos es)\<rparr>) w1
          in if branchInfos (heap w2 c) = [] then to_states_back c w2 else w2))"

definition upd_reachBranch :: "ir_module \<Rightarrow> state_ptr \<Rightarrow> cgs_world \<Rightarrow> cgs_world option" where
  "upd_reachBranch M c w =
     (if \<not> reachBranch (heap w c) then Some w
      else map_option (upd_state c (\<lambda>es. es\<lparr>reachBranch := False\<rparr>))
             (if newFullyCoveredBranch (cgs_x w) then upd_fully M c w else Some (upd_missed M c w)))"

text \<open>
  The loop over the entries the store handler has just pushed: the arguments are the rest of the
  vector and what stays before it.
\<close>

fun new_info_loop :: "state_ptr \<Rightarrow> branch_info list \<Rightarrow> branch_info list \<Rightarrow> cgs_world \<Rightarrow> cgs_world option" where
  "new_info_loop c [] kept w = Some (upd_state c (\<lambda>es. es\<lparr>branchInfos := kept\<rparr>) w)"
| "new_info_loop c (b # bs) kept w =
     (case isNewStoreValue c (targetBranchID b) (reachStoreID b) w of
        None \<Rightarrow> None
      | Some (True, w1) \<Rightarrow> new_info_loop c bs (kept @ [b]) (to_branch_states c w1)
      | Some (False, w1) \<Rightarrow> new_info_loop c bs kept w1)"

definition upd_reachStore :: "state_ptr \<Rightarrow> cgs_world \<Rightarrow> cgs_world option" where
  "upd_reachStore c w =
     (if \<not> reachStore (heap w c) then Some w
      else
        (let infos = branchInfos (heap w c); n = newBranchNumFromStore (cgs_x w)
         in if length infos < n then None
            else map_option
                   (\<lambda>w1. upd_state c (\<lambda>es. es\<lparr>reachStore := False\<rparr>)
                           (upd_x (\<lambda>x. x\<lparr>newBranchNumFromStore := 0\<rparr>) w1))
                   (new_info_loop c (drop (length infos - n) infos) (take (length infos - n) infos) w)))"

definition upd_newPartly :: "state_ptr \<Rightarrow> cgs_world \<Rightarrow> cgs_world option" where
  "upd_newPartly c w =
     (if targetBranches (cgs_x w) \<noteq> [] \<and> newPartlyCoveredBranch (cgs_x w)
      then map_option (upd_x (\<lambda>x. x\<lparr>newPartlyCoveredBranch := False\<rparr>))
             (handlePartlyCoveredBranch (Some c) (last (targetBranches (cgs_x w))) w)
      else Some w)"

definition upd_current :: "ir_module \<Rightarrow> state_ptr \<Rightarrow> state_ptr list \<Rightarrow> cgs_world \<Rightarrow> cgs_world option" where
  "upd_current M c addedStates w =
     (case (if addedStates \<noteq> [] then upd_rotate c w else Some w) of
        None \<Rightarrow> None
      | Some w1 \<Rightarrow>
      (case upd_reachBranch M c w1 of
        None \<Rightarrow> None
      | Some w2 \<Rightarrow>
      (case upd_reachStore c w2 of
        None \<Rightarrow> None
      | Some w3 \<Rightarrow> upd_newPartly c w3)))"

text \<open>Renewing the target branches.\<close>

fun clear_loop :: "state_ptr list \<Rightarrow> state_ptr list \<Rightarrow> cgs_world \<Rightarrow> cgs_world" where
  "clear_loop [] kept w = w\<lparr>branch_states := kept\<rparr>"
| "clear_loop (p # ps) kept w =
     (let w1 = upd_state p (\<lambda>es. es\<lparr>branchInfos := []\<rparr>) w
      in if \<not> coveredNew (heap w1 p) then clear_loop ps kept (w1\<lparr>states := states w1 @ [p]\<rparr>)
         else clear_loop ps (kept @ [p]) w1)"

fun refill_targets :: "state_ptr option \<Rightarrow> nat \<Rightarrow> cgs_world \<Rightarrow> cgs_world option" where
  "refill_targets current 0 w = Some w"
| "refill_targets current (Suc n) w =
     (if partlyCoveredBranches (cgs_x w) = [] then Some w
      else
        (let bid = last (partlyCoveredBranches (cgs_x w));
             w1 = upd_x (\<lambda>x. x\<lparr>partlyCoveredBranches := butlast (partlyCoveredBranches x),
                               targetBranches := targetBranches x @ [bid]\<rparr>) w
         in case handlePartlyCoveredBranch current bid w1 of
              None \<Rightarrow> None | Some w2 \<Rightarrow> refill_targets current n w2))"

definition upd_targets :: "state_ptr option \<Rightarrow> cgs_world \<Rightarrow> cgs_world option" where
  "upd_targets current w =
     (if \<not> updateTargetBranch (cgs_x w) then Some w
      else
        (let w1 = clear_loop (branch_states w) [] w;
             w2 = upd_x (\<lambda>x. x\<lparr>targetBranches := []\<rparr>) w1
         in map_option (upd_x (\<lambda>x. x\<lparr>updateTargetBranch := False\<rparr>))
              (refill_targets current (targetBranchNum (cgs_x w2)) w2)))"

text \<open>Adding new states.\<close>

definition has_open_store :: "ir_module \<Rightarrow> cgs_exec \<Rightarrow> func_ptr \<Rightarrow> bb_ptr \<Rightarrow> bool" where
  "has_open_store M x F bb \<longleftrightarrow>
     (\<exists>SI\<in>set (funcStores x F). storetTobranches x (SI2ID x SI) \<noteq> {} \<and>
        (case inst_at M SI of None \<Rightarrow> False | Some ins \<Rightarrow> i_parent ins = bb))"

definition add_state :: "ir_module \<Rightarrow> func_ptr \<Rightarrow> state_ptr \<Rightarrow> cgs_world \<Rightarrow> cgs_world" where
  "add_state M F p w =
     (if branchInfos (heap w p) \<noteq> [] \<or> has_open_store M (cgs_x w) F (pc_bb (heap w p))
      then w\<lparr>branch_states := branch_states w @ [p]\<rparr>
      else w\<lparr>states := states w @ [p]\<rparr>)"

definition upd_add :: "ir_module \<Rightarrow> state_ptr option \<Rightarrow> state_ptr list \<Rightarrow> cgs_world \<Rightarrow> cgs_world" where
  "upd_add M current addedStates w =
     (case current of
        None \<Rightarrow> w\<lparr>states := states w @ addedStates\<rparr>
      | Some c \<Rightarrow> fold (add_state M (pc_func (heap w c))) addedStates w)"

definition remove_state :: "state_ptr \<Rightarrow> cgs_world \<Rightarrow> cgs_world" where
  "remove_state p w =
     (if p \<in> set (branch_states w) then w\<lparr>branch_states := remove1 p (branch_states w)\<rparr>
      else w\<lparr>states := remove1 p (states w)\<rparr>)"

definition cgs_update ::
  "ir_module \<Rightarrow> state_ptr option \<Rightarrow> state_ptr list \<Rightarrow> state_ptr list \<Rightarrow> cgs_world \<Rightarrow> cgs_world option" where
  "cgs_update M current addedStates removedStates w =
     (case (case current of
              None \<Rightarrow> Some w
            | Some c \<Rightarrow> if c \<in> set removedStates then Some w else upd_current M c addedStates w) of
        None \<Rightarrow> None
      | Some w1 \<Rightarrow>
      (case upd_targets current w1 of
        None \<Rightarrow> None
      | Some w2 \<Rightarrow> Some (fold remove_state removedStates (upd_add M current addedStates w2))))"

subsection \<open>No state is lost or doubled\<close>

text \<open>The states the searcher holds, counted with multiplicity over both vectors.\<close>

definition placed :: "cgs_world \<Rightarrow> state_ptr multiset" where
  "placed w = mset (states w) + mset (branch_states w)"

definition cgs_managed :: "cgs_world \<Rightarrow> state_ptr set" where
  "cgs_managed w = set (states w) \<union> set (branch_states w)"

definition cgs_distinct :: "cgs_world \<Rightarrow> bool" where
  "cgs_distinct w \<longleftrightarrow> distinct (states w @ branch_states w)"

lemma set_mset_placed [simp]: "set_mset (placed w) = cgs_managed w"
  by (simp add: placed_def cgs_managed_def)

lemma cgs_distinct_cong: "placed w' = placed w \<Longrightarrow> cgs_distinct w' = cgs_distinct w"
  using mset_eq_imp_distinct_iff [of "states w' @ branch_states w'" "states w @ branch_states w"]
  by (simp add: cgs_distinct_def placed_def)

lemma placed_upd_state [simp]: "placed (upd_state p f w) = placed w"
  by (simp add: placed_def)

lemma placed_upd_x [simp]: "placed (upd_x g w) = placed w"
  by (simp add: placed_def)

lemma placed_cgs_x [simp]: "placed (w\<lparr>cgs_x := x\<rparr>) = placed w"
  by (simp add: placed_def)

lemma isNewStoreValue_vectors:
  "isNewStoreValue p bid sid w = Some (r, w') \<Longrightarrow>
   states w' = states w \<and> branch_states w' = branch_states w"
  by (auto simp: isNewStoreValue_def Let_def split: prod.splits option.splits if_splits)

lemma isNewStoreValue_placed:
  "isNewStoreValue p bid sid w = Some (r, w') \<Longrightarrow> placed w' = placed w"
  by (simp add: placed_def isNewStoreValue_vectors)

lemma to_branch_states_placed [simp]: "placed (to_branch_states p w) = placed w"
  by (auto simp: to_branch_states_def placed_def)

lemma to_states_back_placed [simp]: "placed (to_states_back p w) = placed w"
  by (auto simp: to_states_back_def placed_def)

lemma to_states_front_placed [simp]: "placed (to_states_front p w) = placed w"
  by (auto simp: to_states_front_def placed_def)

lemma partly_current_vectors:
  "partly_current current bid sid w = Some w' \<Longrightarrow>
   states w' = states w \<and> branch_states w' = branch_states w"
  by (auto simp: partly_current_def isNewStoreValue_vectors split: option.splits if_splits)

lemma partly_current_placed: "partly_current current bid sid w = Some w' \<Longrightarrow> placed w' = placed w"
  by (simp add: placed_def partly_current_vectors)

lemma scan_states_placed:
  "scan_states current bid sid ps kept w = Some w' \<Longrightarrow>
   placed w' = mset ps + mset kept + mset (branch_states w)"
proof (induction current bid sid ps kept w rule: scan_states.induct)
  case (1 current bid sid kept w)
  then show ?case by (auto simp: placed_def)
next
  case (2 current bid sid p ps kept w)
  show ?case
  proof (cases "current = Some p \<or> sid \<notin> dom (storeValues (heap w p))")
    case True
    with 2 show ?thesis by simp
  next
    case False
    with "2.prems" obtain r w1 where new: "isNewStoreValue p bid sid w = Some (r, w1)"
      by (auto split: option.splits)
    with False 2 show ?thesis
      by (cases r) (auto simp: Let_def isNewStoreValue_vectors [OF new])
  qed
qed

lemma foldM_placed:
  assumes "foldM f xs w = Some w'" and "\<And>x w w'. f x w = Some w' \<Longrightarrow> placed w' = placed w"
  shows "placed w' = placed w"
  using foldM_preserves [OF assms(1), of "\<lambda>v. placed v = placed w"] assms(2) by simp

lemma handlePartly_placed:
  assumes "handlePartlyCoveredBranch current bid w = Some w'"
  shows "placed w' = placed w"
proof -
  from assms obtain bd where bd: "BDDeps (cgs_x w) bid = Some bd"
    by (cases "BDDeps (cgs_x w) bid") (simp_all add: handlePartlyCoveredBranch_def)
  with assms obtain w1 where w1: "foldM (partly_current current bid) (bd_stores bd) w = Some w1"
    by (cases "foldM (partly_current current bid) (bd_stores bd) w")
      (simp_all add: handlePartlyCoveredBranch_def)
  have scan: "foldM (\<lambda>sid w. scan_states current bid sid (states w) [] w) (bd_stores bd)
      (case current of None \<Rightarrow> w1 | Some c \<Rightarrow> to_branch_states c w1) = Some w'"
    using assms by (simp add: handlePartlyCoveredBranch_def bd w1 Let_def)
  have "placed w' = placed (case current of None \<Rightarrow> w1 | Some c \<Rightarrow> to_branch_states c w1)"
    using scan by (rule foldM_placed) (auto dest: scan_states_placed simp: placed_def)
  moreover have "placed w1 = placed w"
    using w1 by (rule foldM_placed) (rule partly_current_placed)
  ultimately show ?thesis by (simp split: option.splits)
qed

lemma fully_loop_placed:
  "placed (fully_loop current bid rm ps kept w) = mset ps + mset kept + mset (states w)"
  by (induction current bid rm ps kept w rule: fully_loop.induct) (auto simp: Let_def placed_def)

lemma handleFully_placed:
  "handleFullyCoveredBranch M c bid w = Some w' \<Longrightarrow> placed w' = placed w"
  by (auto simp: handleFullyCoveredBranch_def fully_loop_placed placed_def [of w]
      split: option.splits prod.splits)

lemma upd_rotate_placed: "upd_rotate c w = Some w' \<Longrightarrow> placed w' = placed w"
  by (auto simp: upd_rotate_def find_erase_def placed_def split: if_splits)

lemma upd_fully_placed: "upd_fully M c w = Some w' \<Longrightarrow> placed w' = placed w"
  by (auto simp: upd_fully_def Let_def handleFully_placed split: if_splits option.splits)

lemma upd_missed_placed [simp]: "placed (upd_missed M c w) = placed w"
  by (simp add: upd_missed_def Let_def split: prod.splits)

lemma upd_reachBranch_placed: "upd_reachBranch M c w = Some w' \<Longrightarrow> placed w' = placed w"
  by (auto simp: upd_reachBranch_def upd_fully_placed split: if_splits)

lemma new_info_loop_placed: "new_info_loop c bs kept w = Some w' \<Longrightarrow> placed w' = placed w"
  by (induction c bs kept w rule: new_info_loop.induct)
    (auto dest: isNewStoreValue_placed split: option.splits prod.splits bool.splits)

lemma upd_reachStore_placed: "upd_reachStore c w = Some w' \<Longrightarrow> placed w' = placed w"
  by (auto simp: upd_reachStore_def Let_def new_info_loop_placed split: if_splits)

lemma upd_newPartly_placed: "upd_newPartly c w = Some w' \<Longrightarrow> placed w' = placed w"
  by (auto simp: upd_newPartly_def handlePartly_placed split: if_splits)

lemma upd_current_placed: "upd_current M c added w = Some w' \<Longrightarrow> placed w' = placed w"
  by (auto simp: upd_current_def upd_rotate_placed upd_reachBranch_placed upd_reachStore_placed
      upd_newPartly_placed split: option.splits if_splits)

lemma clear_loop_placed: "placed (clear_loop ps kept w) = mset ps + mset kept + mset (states w)"
  by (induction ps kept w rule: clear_loop.induct) (auto simp: Let_def placed_def)

lemma refill_targets_placed: "refill_targets current n w = Some w' \<Longrightarrow> placed w' = placed w"
  by (induction current n w rule: refill_targets.induct)
    (auto simp: Let_def handlePartly_placed split: if_splits option.splits)

lemma upd_targets_placed: "upd_targets current w = Some w' \<Longrightarrow> placed w' = placed w"
  by (cases "updateTargetBranch (cgs_x w)")
    (auto simp: upd_targets_def Let_def clear_loop_placed placed_def [of w]
      dest!: refill_targets_placed)

lemma add_state_placed: "placed (add_state M F p w) = add_mset p (placed w)"
  by (simp add: add_state_def placed_def)

lemma upd_add_placed: "placed (upd_add M current added w) = placed w + mset added"
proof (cases current)
  case (Some c)
  have "placed (fold (add_state M F) added w) = placed w + mset added" for F
    by (induction added arbitrary: w) (simp_all add: add_state_placed)
  with Some show ?thesis by (simp add: upd_add_def)
qed (simp add: upd_add_def placed_def)

lemma remove_state_placed: "placed (remove_state p w) = placed w - {#p#}"
proof (cases "p \<in> set (branch_states w)")
  case True
  then show ?thesis
    using diff_union_single_conv [of p "mset (branch_states w)" "mset (states w)"]
    by (simp add: remove_state_def placed_def)
next
  case False
  then show ?thesis
  proof (cases "p \<in> set (states w)")
    case True
    with False show ?thesis
      using diff_union_single_conv [of p "mset (states w)" "mset (branch_states w)"]
      by (simp add: remove_state_def placed_def add.commute)
  qed (simp add: remove_state_def placed_def diff_single_trivial remove1_idem)
qed

lemma remove_states_placed: "placed (fold remove_state removed w) = placed w - mset removed"
  by (induction removed arbitrary: w) (simp_all add: remove_state_placed)

lemma cgs_update_placed:
  "cgs_update M current added removed w = Some w' \<Longrightarrow>
   placed w' = placed w + mset added - mset removed"
  by (auto simp: cgs_update_def remove_states_placed upd_add_placed upd_targets_placed
      upd_current_placed split: option.splits if_splits)

lemma cgs_update_managed:
  assumes inv: "cgs_distinct w" and valid: "valid_update (cgs_managed w) added removed"
    and upd: "cgs_update M current added removed w = Some w'"
  shows "cgs_distinct w' \<and> cgs_managed w' = cgs_managed w \<union> set added - set removed"
proof -
  let ?all = "states w @ branch_states w @ added"
  have d: "distinct ?all"
    using inv valid by (auto simp: cgs_distinct_def valid_update_def cgs_managed_def)
  have "mset (states w' @ branch_states w') = mset ?all - mset removed"
    using cgs_update_placed [OF upd] by (simp add: placed_def add.assoc)
  also have "\<dots> = mset (filter (\<lambda>x. x \<notin> set removed) ?all)"
    using d valid by (intro mset_diff_distinct) (simp_all add: valid_update_def)
  finally have p: "mset (states w' @ branch_states w') = mset (filter (\<lambda>x. x \<notin> set removed) ?all)" .
  have "cgs_distinct w'"
    using mset_eq_imp_distinct_iff [OF p] distinct_filter [OF d] by (simp add: cgs_distinct_def)
  then show ?thesis
    using mset_eq_setD [OF p] by (auto simp: cgs_managed_def)
qed

interpretation cgs: searcher_core cgs_selectState "cgs_update M" cgs_empty cgs_managed cgs_distinct
  "\<lambda>_ _. True" for M
proof (unfold_locales, goal_cases)
  case (4 s added removed current s')
  then show ?case by (intro cgs_update_managed) auto
qed (auto simp: cgs_empty_def cgs_managed_def cgs_selectState_def split: if_splits)

text \<open>
  C8. No state gets lost or is held twice: whatever the flags of the executor say and whichever branches are
  covered, an \<open>update\<close> of the searcher moves states between its two vectors, adds the added states and drops
  the removed ones, and nothing else.
\<close>

theorem cgs_update_conserves:
  assumes "cgs_update M current added removed w = Some w'"
  shows "mset (states w' @ branch_states w') = mset (states w @ branch_states w) + mset added - mset removed"
  using cgs_update_placed [OF assms] by (simp add: placed_def)

theorem cgs_update_conserves_witness:
  "\<exists>w'. cgs_update [] None [0, 1, 2] [1] (init_world (init_exec 10 64)) = Some w' \<and>
     mset (states w' @ branch_states w') = {#0, 2#}"
proof -
  have u: "cgs_update [] None [0, 1, 2] [1] (init_world (init_exec 10 64)) =
      Some ((init_world (init_exec 10 64))\<lparr>states := [0, 2]\<rparr>)"
    by (simp add: cgs_update_def upd_targets_def upd_add_def remove_state_def init_world_def init_exec_def)
  from cgs_update_conserves [OF u] u show ?thesis by (simp add: init_world_def add_mset_commute)
qed

end
