(* ===== verification/CGS_Values.thy ===== *)
theory CGS_Values
  imports CGS_Searcher
begin

unbundle bit_operations_syntax

section \<open>Which store values are followed\<close>

text \<open>
  The decision at the heart of the search: a store value is followed when it takes the side of the
  branch that has not been covered. Shown here: the predicate the \<open>br\<close> handler records is the
  uncovered side of the comparison as LLVM defines it, for signed comparisons and for operands
  below \<open>2 ^ 31\<close>; what the two caches of \<open>isNewStoreValue\<close> answer, and which states a new target moves; and
  exactly where the code goes wrong: unsigned comparisons across \<open>2 ^ 31\<close>, a second visit to a branch whose
  constant is on the left, the first value looked up for a branch, negative case values of a switch on a
  narrow type.
\<close>

subsection \<open>The recorded predicate\<close>





lemma uncovered_right_turned:
  "uncovered_var_right p c1 c2 = Some (u, p') \<Longrightarrow> compare_pred p' v c1 = compare_pred p c1 v"
  by (cases p) auto
























subsection \<open>The caches\<close>

text \<open>\<open>and\<close> and \<open>or\<close> with a constant are idempotent, so a cached, masked value decides as before.\<close>

lemma arith_value_idem [simp]: "arith_value bd (arith_value bd v) = arith_value bd v"
  by (simp add: arith_value_def and.assoc or.assoc)

lemma decide_value_idem: "decide_value bd value = (r, v) \<Longrightarrow> fst (decide_value bd v) = r"
  by (auto simp: decide_value_def Let_def split: if_splits)

text \<open>Every cached value is cached where the uncached decision puts it.\<close>

definition cache_ok :: "nat \<Rightarrow> bddep \<Rightarrow> cgs_world \<Rightarrow> bool" where
  "cache_ok bid bd w \<longleftrightarrow>
     (\<forall>v\<in>validStoreValues w bid. fst (decide_value bd v)) \<and>
     (\<forall>bad v. invalidStoreValues (cgs_x w) bid = Some bad \<longrightarrow> v \<in> bad \<longrightarrow> \<not> fst (decide_value bd v))"

text \<open>
  Once the branch has an entry in \<open>invalidStoreValues\<close>: \<open>E\<close> is the value that created the entry, when a
  look-up did so. It was cached as invalid without a decision.
\<close>

definition answer :: "bddep \<Rightarrow> u32 option \<Rightarrow> u32 \<Rightarrow> bool" where
  "answer bd E v \<longleftrightarrow> E \<noteq> Some v \<and> fst (decide_value bd v)"

definition cache_from :: "nat \<Rightarrow> bddep \<Rightarrow> u32 option \<Rightarrow> cgs_world \<Rightarrow> bool" where
  "cache_from bid bd E w \<longleftrightarrow> BDDeps (cgs_x w) bid = Some bd \<and>
     (\<forall>v\<in>validStoreValues w bid. fst (decide_value bd v)) \<and>
     (\<exists>bad. invalidStoreValues (cgs_x w) bid = Some bad \<and>
        (\<forall>v\<in>bad. E = Some v \<or> \<not> fst (decide_value bd v)) \<and> set_option E \<subseteq> bad)"

definition cache_fresh :: "nat \<Rightarrow> bddep \<Rightarrow> cgs_world \<Rightarrow> bool" where
  "cache_fresh bid bd w \<longleftrightarrow> BDDeps (cgs_x w) bid = Some bd \<and>
     (\<forall>v\<in>validStoreValues w bid. fst (decide_value bd v)) \<and> invalidStoreValues (cgs_x w) bid = None"

lemma cache_ok_cases:
  assumes "BDDeps (cgs_x w) bid = Some bd" and "cache_ok bid bd w"
  shows "if invalidStoreValues (cgs_x w) bid = None then cache_fresh bid bd w else cache_from bid bd None w"
  using assms by (auto simp: cache_ok_def cache_fresh_def cache_from_def)

text \<open>The value a look-up reads, and a look-up with and without an entry.\<close>

definition read_value :: "cgs_world \<Rightarrow> state_ptr \<Rightarrow> nat \<Rightarrow> u32" where
  "read_value w p sid = fst (map_at 0 sid (storeValues (heap w p)))"

definition same_reads :: "state_ptr \<Rightarrow> nat \<Rightarrow> cgs_world \<Rightarrow> cgs_world \<Rightarrow> bool" where
  "same_reads p sid w w' \<longleftrightarrow> read_value w' = read_value w \<and> states w' = states w \<and> branch_states w' = branch_states w \<and>
     (sid \<in> dom (storeValues (heap w p)) \<longrightarrow> (\<forall>q. storeValues (heap w' q) = storeValues (heap w q)))"

lemma isNewStoreValue_reads:
  assumes "isNewStoreValue p bid sid w = Some (r, w')"
  shows "same_reads p sid w w'"
proof -
  obtain v sv where m: "map_at 0 sid (storeValues (heap w p)) = (v, sv)" by fastforce
  have sv: "fst (map_at 0 s sv) = fst (map_at 0 s (storeValues (heap w p)))" for s
    using m by (auto simp: map_at_def split: option.splits if_splits)
  have "heap w' = (heap w)(p := (heap w p)\<lparr>storeValues := sv\<rparr>)"
    using assms by (auto simp: isNewStoreValue_def m Let_def upd_state_def upd_x_def split: option.splits if_splits prod.splits)
  moreover have "sv = storeValues (heap w p)" if "sid \<in> dom (storeValues (heap w p))" using m that by auto
  ultimately show ?thesis
    using isNewStoreValue_vectors [OF assms] sv by (auto simp: same_reads_def read_value_def fun_eq_iff)
qed

lemma isNewStoreValue_from:
  assumes "cache_from bid bd E w"
  shows "\<exists>w'. isNewStoreValue p bid sid w = Some (answer bd E (read_value w p sid), w') \<and>
           cache_from bid bd E w' \<and> same_reads p sid w w'"
proof -
  obtain u sv where m: "map_at 0 sid (storeValues (heap w p)) = (u, sv)" by fastforce
  from assms obtain bad where c: "BDDeps (cgs_x w) bid = Some bd" "\<forall>v\<in>validStoreValues w bid. fst (decide_value bd v)"
      "invalidStoreValues (cgs_x w) bid = Some bad" "\<forall>v\<in>bad. E = Some v \<or> \<not> fst (decide_value bd v)"
      "set_option E \<subseteq> bad"
    by (auto simp: cache_from_def)
  obtain r v where rv: "decide_value bd u = (r, v)" by fastforce
  have "\<exists>w'. isNewStoreValue p bid sid w = Some (answer bd E u, w') \<and> cache_from bid bd E w'"
  proof (cases "u \<in> bad \<or> u \<in> validStoreValues w bid")
    case True
    with c m show ?thesis by (auto simp: isNewStoreValue_def Let_def cache_from_def answer_def)
  next
    case False
    with c(5) have "answer bd E u = r" using rv by (auto simp: answer_def)
    with False c m rv decide_value_idem [OF rv] show ?thesis
      by (auto simp: isNewStoreValue_def Let_def cache_from_def)
  qed
  with isNewStoreValue_reads m show ?thesis by (fastforce simp: read_value_def)
qed

lemma isNewStoreValue_fresh:
  assumes "cache_fresh bid bd w"
  shows "\<exists>w'. isNewStoreValue p bid sid w = Some (True, w') \<and>
           cache_from bid bd (Some (read_value w p sid)) w' \<and> same_reads p sid w w'"
proof -
  obtain u sv where m: "map_at 0 sid (storeValues (heap w p)) = (u, sv)" by fastforce
  with assms have "\<exists>w'. isNewStoreValue p bid sid w = Some (True, w') \<and> cache_from bid bd (Some u) w'"
    by (auto simp: isNewStoreValue_def Let_def cache_from_def cache_fresh_def)
  with isNewStoreValue_reads m show ?thesis by (fastforce simp: read_value_def)
qed

text \<open>A sequence of look-ups for one branch.\<close>

fun look_ups :: "nat \<Rightarrow> (state_ptr \<times> nat) list \<Rightarrow> cgs_world \<Rightarrow> (bool list \<times> cgs_world) option" where
  "look_ups bid [] w = Some ([], w)"
| "look_ups bid ((p, sid) # qs) w =
     (case isNewStoreValue p bid sid w of
        None \<Rightarrow> None
      | Some (r, w1) \<Rightarrow> map_option (\<lambda>(rs, w2). (r # rs, w2)) (look_ups bid qs w1))"

lemma look_ups_from:
  assumes "cache_from bid bd E w"
  shows "\<exists>w'. look_ups bid qs w = Some (map (\<lambda>(p, sid). answer bd E (read_value w p sid)) qs, w')"
  using assms
proof (induction qs arbitrary: w)
  case (Cons q qs)
  obtain p sid where q: "q = (p, sid)" by (cases q)
  obtain w1 where w1: "isNewStoreValue p bid sid w = Some (answer bd E (read_value w p sid), w1)"
      "cache_from bid bd E w1" "same_reads p sid w w1"
    using isNewStoreValue_from [OF Cons.prems] by blast
  from Cons.IH [OF w1(2)] w1 show ?case by (auto simp: q same_reads_def)
qed simp

fun first_answers :: "bddep \<Rightarrow> u32 list \<Rightarrow> bool list" where
  "first_answers bd [] = []"
| "first_answers bd (v0 # vs) = True # map (\<lambda>v. v0 \<noteq> v \<and> fst (decide_value bd v)) vs"

text \<open>
  C7. The caches of \<open>isNewStoreValue\<close>, for any sequence of look-ups of one branch by any states and stores,
  while its record stays the same and starting from caches that hold no wrong value (empty ones in
  particular). If the branch has its entry in \<open>invalidStoreValues\<close>, every look-up returns the uncached
  decision on the value it reads. If it has none (a branch that was just covered), the first look-up
  returns true whatever it reads, and its value is refused from then on; all other values are decided
  as if nothing were cached.
\<close>

theorem isNewStoreValue_caches_transparent:
  assumes dep: "BDDeps (cgs_x w) bid = Some bd" and cache: "cache_ok bid bd w"
    and vs: "vs = map (\<lambda>(p, sid). read_value w p sid) qs"
  shows "\<exists>w'. look_ups bid qs w =
    Some (if invalidStoreValues (cgs_x w) bid = None then first_answers bd vs
          else map (\<lambda>v. fst (decide_value bd v)) vs, w')"
proof (cases "invalidStoreValues (cgs_x w) bid = None")
  case False
  with cache_ok_cases [OF dep cache] have "cache_from bid bd None w" by simp
  from look_ups_from [OF this, of qs] False show ?thesis by (auto simp: vs answer_def comp_def split_def)
next
  case True
  with cache_ok_cases [OF dep cache] have fresh: "cache_fresh bid bd w" by simp
  show ?thesis
  proof (cases qs)
    case (Cons q qs')
    obtain p sid where q: "q = (p, sid)" by (cases q)
    obtain w1 where w1: "isNewStoreValue p bid sid w = Some (True, w1)"
        "cache_from bid bd (Some (read_value w p sid)) w1" "same_reads p sid w w1"
      using isNewStoreValue_fresh [OF fresh] by blast
    from look_ups_from [OF w1(2), of qs'] w1 True show ?thesis
      by (auto simp: vs Cons q same_reads_def answer_def comp_def split_def)
  qed (simp add: vs True)
qed

text \<open>State 5 holds 5, which takes the uncovered side, state 6 holds 6; 5 is asked for twice.\<close>

theorem isNewStoreValue_caches_transparent_witness:
  "let bd = new_BDDep\<lparr>bd_unCoveredPred := ICMP_EQ, bd_constant := 5\<rparr>;
       w = (\<lambda>m. (init_world ((init_exec 10 64)\<lparr>BDDeps := [1 \<mapsto> bd], invalidStoreValues := m\<rparr>))
              \<lparr>heap := (\<lambda>p. new_state\<lparr>storeValues := [7 \<mapsto> of_nat p]\<rparr>)\<rparr>)
   in (\<exists>w'. look_ups 1 [(5, 7), (6, 7), (5, 7)] (w Map.empty) = Some ([True, False, False], w')) \<and>
      (\<exists>w'. look_ups 1 [(5, 7), (6, 7), (5, 7)] (w [1 \<mapsto> {}]) = Some ([True, False, True], w'))"
proof -
  define bd where "bd = new_BDDep\<lparr>bd_unCoveredPred := ICMP_EQ, bd_constant := 5\<rparr>"
  define w where "w = (\<lambda>m. (init_world ((init_exec 10 64)\<lparr>BDDeps := [1 \<mapsto> bd], invalidStoreValues := m\<rparr>))
      \<lparr>heap := (\<lambda>p. new_state\<lparr>storeValues := [7 \<mapsto> of_nat p]\<rparr>)\<rparr>)"
  have dec: "fst (decide_value bd v) \<longleftrightarrow> v = 5" for v
    by (simp add: bd_def decide_value_def new_BDDep_def arith_value_def Let_def)
  have r: "read_value (w m) p 7 = of_nat p" "BDDeps (cgs_x (w m)) 1 = Some bd" "validStoreValues (w m) 1 = {}"
    "invalidStoreValues (cgs_x (w m)) 1 = m 1" for m p
    by (simp_all add: read_value_def w_def init_world_def)
  have "\<exists>w'. look_ups 1 [(5, 7), (6, 7), (5, 7)] (w m) =
      Some (if m 1 = None then [True, False, False] else [True, False, True], w')"
    if "m 1 = None \<or> m 1 = Some {}" for m
    using isNewStoreValue_caches_transparent [of "w m" 1 bd "[5, 6, 5]" "[(5, 7), (6, 7), (5, 7)]"] that
    by (auto simp: r dec cache_ok_def simp del: look_ups.simps One_nat_def)
  from this [of Map.empty] this [of "[1 \<mapsto> {}]"] show ?thesis by (simp add: w_def bd_def)
qed

subsection \<open>Case values of a switch on a narrow type\<close>

text \<open>
  The loader stores the sign-extended case values, the handler erases the zero-extended run-time
  value. A negative case value of a type narrower than 32 bits is never erased.
\<close>

lemma sint_of_int_self: "- (2 ^ 31) \<le> c \<Longrightarrow> c < 2 ^ 31 \<Longrightarrow> sint (of_int c :: u32) = c"
  by (simp add: sint_sbintrunc' signed_take_bit_int_eq_self)

lemma narrow_value_not_negative:
  assumes "n < 32" and "v < 2 ^ n" and "c < 0" and "- (2 ^ 31) \<le> c"
  shows "(ucast (of_nat v :: u64) :: u32) \<noteq> of_int c"
proof
  assume eq: "(ucast (of_nat v :: u64) :: u32) = of_int c"
  have "(2::nat) ^ n \<le> 2 ^ 31"
    using assms(1) by (intro power_increasing) auto
  with assms(2) have v: "v < 2 ^ 31" by simp
  then have "(ucast (of_nat v :: u64) :: u32) = of_int (int v)"
    by (simp add: unsigned_of_nat take_bit_nat_eq_self)
  then have "sint (ucast (of_nat v :: u64) :: u32) = int v"
    using v sint_of_int_self [of "int v"] by simp
  moreover have "sint (of_int c :: u32) = c"
    using assms(3,4) by (intro sint_of_int_self) simp_all
  ultimately show False using eq assms(3) by simp
qed

subsection \<open>Which states are steered to a new target\<close>

text \<open>
  The invariants of the scans of \<open>handlePartlyCoveredBranch\<close>, before and after the first look-up: no state's
  store values have changed.
\<close>

definition scan_ok :: "nat \<Rightarrow> bddep \<Rightarrow> (state_ptr \<Rightarrow> nat \<rightharpoonup> u32) \<Rightarrow> u32 option \<Rightarrow> cgs_world \<Rightarrow> bool" where
  "scan_ok bid bd sv E w \<longleftrightarrow> cache_from bid bd E w \<and> (\<forall>p. storeValues (heap w p) = sv p)"

definition scan_fresh :: "nat \<Rightarrow> bddep \<Rightarrow> (state_ptr \<Rightarrow> nat \<rightharpoonup> u32) \<Rightarrow> cgs_world \<Rightarrow> bool" where
  "scan_fresh bid bd sv w \<longleftrightarrow> cache_fresh bid bd w \<and> (\<forall>p. storeValues (heap w p) = sv p)"






lemma scan_vectors [simp]:
  "scan_ok bid bd sv E (w\<lparr>states := a\<rparr>) = scan_ok bid bd sv E w"
  "scan_ok bid bd sv E (w\<lparr>branch_states := b\<rparr>) = scan_ok bid bd sv E w"
  "scan_fresh bid bd sv (w\<lparr>states := a\<rparr>) = scan_fresh bid bd sv w"
  "scan_fresh bid bd sv (w\<lparr>branch_states := b\<rparr>) = scan_fresh bid bd sv w"
  by (simp_all add: scan_ok_def scan_fresh_def cache_from_def cache_fresh_def)



























text \<open>
  A branch that becomes a target while no value for it is cached: the first state found to hold a
  value is steered whatever the value is, and the value is cached as one that cannot cover the branch.
  Here states 5 and 6 both hold the value 5, which takes the uncovered side; state 5 is steered, state 6
  is left behind, and 5 counts as an invalid value from then on.
\<close>

theorem first_value_cached_as_invalid:
  "let bd = new_BDDep\<lparr>bd_stores := [7], bd_unCoveredPred := ICMP_EQ, bd_constant := 5\<rparr>;
       w = (init_world ((init_exec 10 64)\<lparr>BDDeps := [1 \<mapsto> bd]\<rparr>))
             \<lparr>heap := (\<lambda>p. if p = 0 then new_state else new_state\<lparr>storeValues := [7 \<mapsto> 5]\<rparr>), states := [0, 5, 6]\<rparr>
   in fst (decide_value bd 5) \<and>
      (\<exists>w'. handlePartlyCoveredBranch (Some 0) 1 w = Some w' \<and> states w' = [6] \<and> branch_states w' = [0, 5] \<and>
         invalidStoreValues (cgs_x w') 1 = Some {5})"
  by (simp add: handlePartlyCoveredBranch_def partly_current_def isNewStoreValue_def to_branch_states_def
      init_world_def init_exec_def new_state_def new_BDDep_def decide_value_def arith_value_def push_info_def
      upd_state_def upd_x_def Let_def)

subsection \<open>Switches on a narrow type\<close>

definition switch_runs :: "inst_ptr \<Rightarrow> (state_ptr \<times> nat) list \<Rightarrow> cgs_exec \<times> (state_ptr \<Rightarrow> exec_state) \<Rightarrow>
    (cgs_exec \<times> (state_ptr \<Rightarrow> exec_state)) option" where
  "switch_runs i = foldM (\<lambda>(p, v) (x, h). switch_handler \<lparr>sw_i = i, sw_value = of_nat v\<rparr> p x h)"

definition case_open :: "inst_ptr \<Rightarrow> nat \<Rightarrow> u32 \<Rightarrow> cgs_exec \<Rightarrow> bool" where
  "case_open i bid c x \<longleftrightarrow> BI2ID x (Some i) = Some bid \<and> bid \<notin> set (fullyCoveredBranches x) \<and>
     (\<exists>bd. BDDeps x bid = Some bd \<and> c \<in> bd_unCoveredValues bd)"

lemma switch_handler_case_open:
  assumes "case_open i bid c x" and "(ucast v :: u32) \<noteq> c"
  shows "\<exists>x' h'. switch_handler \<lparr>sw_i = i, sw_value = v\<rparr> p x h = Some (x', h') \<and> case_open i bid c x'"
proof -
  obtain x1 h1 where rt: "reach_target p bid x h = (x1, h1)" by fastforce
  from assms obtain bd where "BI2ID x (Some i) = Some bid" "BDDeps x bid = Some bd" "c \<in> bd_unCoveredValues bd"
      "bid \<notin> set (fullyCoveredBranches x)" by (auto simp: case_open_def)
  moreover from this assms(2) have "bd_unCoveredValues bd - {ucast v} \<noteq> {}" by auto
  ultimately show ?thesis
    using rt reach_target_frame [OF rt] assms(2) by (simp add: switch_handler_def Let_def case_open_def)
qed

text \<open>
  The case values are stored sign-extended, the value at run time is erased zero-extended: a
  negative case value of a switch on a type narrower than 32 bits is never erased, whatever values the
  switch sees, so the switch never counts as fully covered.
\<close>

theorem narrow_negative_case_never_covered:
  assumes "BI2ID x (Some i) = Some bid" and "BDDeps x bid = Some bd"
    and "of_int c \<in> bd_unCoveredValues bd" and "bid \<notin> set (fullyCoveredBranches x)"
    and "c < 0" and "- (2 ^ 31) \<le> c" and "n < 32" and "\<forall>(p, v)\<in>set runs. v < 2 ^ n"
  shows "\<exists>x' h'. switch_runs i runs (x, h) = Some (x', h') \<and> bid \<notin> set (fullyCoveredBranches x') \<and>
           (\<exists>bd'. BDDeps x' bid = Some bd' \<and> of_int c \<in> bd_unCoveredValues bd')"
proof -
  let ?P = "\<lambda>(rs :: (state_ptr \<times> nat) list) (s :: cgs_exec \<times> (state_ptr \<Rightarrow> exec_state)). case_open i bid (of_int c) (fst s) \<and> (\<forall>(p, v)\<in>set rs. v < 2 ^ n)"
  have "\<exists>s'. switch_runs i runs (x, h) = Some s' \<and> ?P [] s'"
    unfolding switch_runs_def
  proof (rule foldM_invariant [where P = ?P])
    show "?P runs (x, h)" using assms by (auto simp: case_open_def)
    fix r rs and s :: "cgs_exec \<times> (state_ptr \<Rightarrow> exec_state)"
    assume P: "?P (r # rs) s"
    obtain p v where r: "r = (p, v)" by (cases r)
    obtain x1 h1 where s: "s = (x1, h1)" by (cases s)
    have "(ucast (of_nat v :: u64) :: u32) \<noteq> of_int c"
      using P r assms(5-7) by (intro narrow_value_not_negative) auto
    with switch_handler_case_open [of i bid "of_int c" x1 "of_nat v" p h1] P r s
    show "\<exists>s'. (case r of (p, v) \<Rightarrow> \<lambda>(x, h). switch_handler \<lparr>sw_i = i, sw_value = of_nat v\<rparr> p x h) s = Some s' \<and> ?P rs s'"
      by auto
  qed
  then show ?thesis by (auto simp: case_open_def)
qed

theorem narrow_negative_case_never_covered_witness:
  "\<exists>x' h'. switch_runs 3 [(0, 255), (0, 4)]
      ((init_exec 10 64)\<lparr>BI2ID := [Some 3 \<mapsto> 1],
         BDDeps := [1 \<mapsto> new_BDDep\<lparr>bd_switch := True, bd_unCoveredValues := {of_int (-1), 4}\<rparr>]\<rparr>, \<lambda>_. new_state)
      = Some (x', h') \<and> 1 \<notin> set (fullyCoveredBranches x') \<and>
    (\<exists>bd'. BDDeps x' 1 = Some bd' \<and> of_int (-1) \<in> bd_unCoveredValues bd')"
  by (rule narrow_negative_case_never_covered [where n = 8 and
        bd = "new_BDDep\<lparr>bd_switch := True, bd_unCoveredValues := {of_int (-1), 4}\<rparr>"]) (simp_all add: init_exec_def)

end
