(* ===== verification/CGS_Round.thy ===== *)
theory CGS_Round
  imports CGS_Searcher
begin

section \<open>The interpreter loop with the CGS searcher\<close>

text \<open>
  The loop of \<open>Executor::run\<close> (\<open>klee/lib/Core/Executor.cpp\<close>) around the handlers and
  \<open>CGSSearcher\<close>: select a state, step it (with the statistics of \<open>StatsTracker\<close>, which mark the states that
  cover new code), execute the instruction (forking states, counting the sides of a branch,
  running the handler), call \<open>update\<close>, call it again without a current state when memory ran out,
  and raise \<open>updateTargetBranch\<close> every so many instructions. There are no seeds: \<open>seedMap\<close> is empty. \<open>cgs_reach\<close> are the worlds the loop
  reaches. Shown: an invariant of the reachable worlds, and that the loop never gets stuck (no null
  dereference, no \<open>erase(end())\<close>, no iterator out of range, no failed assertion) as long as no store
  that a target branch waits for terminates the state that executes it; and how it gets stuck when one does.
\<close>

subsection \<open>One round\<close>

datatype cgs_instr = IBr br_input | ISwitch sw_input | IStore inst_ptr "u64 option" | IOther inst_ptr

fun cgs_inst :: "cgs_instr \<Rightarrow> inst_ptr" where
  "cgs_inst (IBr inp) = br_i inp"
| "cgs_inst (ISwitch inp) = sw_i inp"
| "cgs_inst (IStore si v) = si"
| "cgs_inst (IOther i) = i"

text \<open>
  What one round is given: the instruction, where the state continues, the states it forks and where
  they continue, the states it terminates, the states \<open>checkMemoryUsage\<close> terminates (\<open>None\<close> when
  memory is fine), and whether the instruction count is a multiple of \<open>TargetBranchUpdateInsts\<close>.
\<close>

record round_input =
  r_instr :: cgs_instr
  r_pos :: "bb_ptr \<times> func_ptr"
  r_added :: "(state_ptr \<times> bb_ptr \<times> func_ptr) list"
  r_removed :: "state_ptr list"
  r_memory :: "state_ptr list option"
  r_tick :: bool

text \<open>\<open>ExecutionState::branch\<close>: the copy constructor copies the fields of the search.\<close>

definition fork_state :: "state_ptr \<Rightarrow> state_ptr \<times> bb_ptr \<times> func_ptr \<Rightarrow> cgs_world \<Rightarrow> cgs_world" where
  "fork_state c a w =
     (case a of (p, bb, F) \<Rightarrow>
        upd_state p (\<lambda>_. (heap w c)\<lparr>coveredNew := False, pc_bb := bb, pc_func := F\<rparr>) w)"

text \<open>\<open>Executor::stepInstruction\<close>; the tracker comes first.\<close>

definition step_state :: "tracker_config \<Rightarrow> state_ptr \<Rightarrow> inst_ptr \<Rightarrow> bb_ptr \<times> func_ptr \<Rightarrow>
    cgs_world \<times> branch_stats \<Rightarrow> cgs_world \<times> branch_stats" where
  "step_state tc c i pos ws =
     (case ws of (w, st) \<Rightarrow>
      (case tracker_stepInstruction tc i st (heap w c) of (st1, es) \<Rightarrow>
         (upd_state c (\<lambda>_. es\<lparr>prev_inst := i, pc_bb := fst pos, pc_func := snd pos\<rparr>) w, st1)))"

text \<open>The call of \<open>markBranchVisited\<close> after the fork of a conditional \<open>br\<close>.\<close>

definition mark_branch :: "tracker_config \<Rightarrow> cgs_instr \<Rightarrow> cgs_world \<times> branch_stats \<Rightarrow> cgs_world \<times> branch_stats" where
  "mark_branch tc ci ws =
     (case (ci, ws) of
        (IBr inp, w, st) \<Rightarrow>
          (case markBranchVisited (tc_OutputIStats tc) (br_i inp) (br_first inp) (br_second inp) st (heap w) of
             (st1, h1) \<Rightarrow> (w\<lparr>heap := h1\<rparr>, st1))
      | _ \<Rightarrow> ws)"

text \<open>The state steps, the states are forked, the sides of a branch are counted.\<close>

definition begin_instr :: "tracker_config \<Rightarrow> state_ptr \<Rightarrow> round_input \<Rightarrow>
    cgs_world \<times> branch_stats \<Rightarrow> cgs_world \<times> branch_stats" where
  "begin_instr tc c ri ws =
     mark_branch tc (r_instr ri)
       (map_prod (fold (fork_state c) (r_added ri)) id
          (step_state tc c (cgs_inst (r_instr ri)) (r_pos ri) ws))"

definition exec_instr ::
  "ir_module \<Rightarrow> ((nat \<rightharpoonup> u32) \<Rightarrow> nat list) \<Rightarrow> tracker_config \<Rightarrow> branch_stats \<Rightarrow> state_ptr \<Rightarrow> cgs_instr \<Rightarrow>
   cgs_world \<Rightarrow> cgs_world option" where
  "exec_instr M iter tc st c ci w =
     map_option (\<lambda>(x, h). w\<lparr>cgs_x := x, heap := h\<rparr>)
       (case ci of
          IBr inp \<Rightarrow> br_handler M (isFullyCovered tc st (br_i inp)) inp (cgs_x w) (heap w)
        | ISwitch inp \<Rightarrow> switch_handler inp c (cgs_x w) (heap w)
        | IStore si v \<Rightarrow> store_handler iter si v c (cgs_x w) (heap w)
        | IOther i \<Rightarrow> Some (cgs_x w, heap w))"

text \<open>The two calls of \<open>updateStates\<close> and the end of the round.\<close>

definition end_round :: "ir_module \<Rightarrow> state_ptr \<Rightarrow> round_input \<Rightarrow> cgs_world \<Rightarrow> cgs_world option" where
  "end_round M c ri w1 =
     (case cgs_update M (Some c) (map fst (r_added ri)) (r_removed ri) w1 of
        None \<Rightarrow> None
      | Some w2 \<Rightarrow>
      (case (case r_memory ri of None \<Rightarrow> Some w2 | Some ps \<Rightarrow> cgs_update M None [] ps w2) of
        None \<Rightarrow> None
      | Some w3 \<Rightarrow> Some (if r_tick ri then upd_x (\<lambda>x. x\<lparr>updateTargetBranch := True\<rparr>) w3 else w3)))"

definition cgs_round ::
  "ir_module \<Rightarrow> ((nat \<rightharpoonup> u32) \<Rightarrow> nat list) \<Rightarrow> tracker_config \<Rightarrow> round_input \<Rightarrow>
   cgs_world \<times> branch_stats \<Rightarrow> (cgs_world \<times> branch_stats) option" where
  "cgs_round M iter tc ri ws =
     (case cgs_selectState (fst ws) of
        None \<Rightarrow> None
      | Some (c, w0) \<Rightarrow>
      (case begin_instr tc c ri (w0, snd ws) of
        (w1, st1) \<Rightarrow>
      (case exec_instr M iter tc st1 c (r_instr ri) w1 of
        None \<Rightarrow> None
      | Some w2 \<Rightarrow> map_option (\<lambda>w3. (w3, st1)) (end_round M c ri w2))))"

subsection \<open>What the loop is given\<close>

text \<open>
  A branch the dependency analysis marked: a \<open>br\<close> on an \<open>icmp\<close> of the same function with exactly
  one constant operand, or a \<open>switch\<close>.
\<close>

definition is_switch :: "ir_module \<Rightarrow> inst_ptr \<Rightarrow> bool" where
  "is_switch M i = (case inst_at M i of
     Some ins \<Rightarrow> (case i_op ins of OpSwitch _ \<Rightarrow> True | _ \<Rightarrow> False) | None \<Rightarrow> False)"

definition is_br :: "ir_module \<Rightarrow> inst_ptr \<Rightarrow> bool" where
  "is_br M i = (case inst_at M i of
     Some ins \<Rightarrow> (case i_op ins of OpBr _ \<Rightarrow> True | _ \<Rightarrow> False) | None \<Rightarrow> False)"

definition icmp_one_constant :: "instr \<Rightarrow> bool" where
  "icmp_one_constant cond =
     (case (i_op cond, i_operands cond) of
        (OpICmp _, op1 # op2 # _) \<Rightarrow> is_ConstantInt op1 \<noteq> is_ConstantInt op2
      | _ \<Rightarrow> False)"

definition marked_br :: "ir_module \<Rightarrow> inst_ptr \<Rightarrow> bool" where
  "marked_br M i =
     (case inst_at M i of
        None \<Rightarrow> False
      | Some bi \<Rightarrow>
          (case i_operands bi of
             VInst c # _ \<Rightarrow>
               (case inst_at M c of
                  None \<Rightarrow> False
                | Some cond \<Rightarrow> i_function cond = i_function bi \<and> icmp_one_constant cond)
           | _ \<Rightarrow> False))"

text \<open>The tables: every branch with an id has its record, and its \<open>br\<close> is one the analysis marks.\<close>

definition tables_ok :: "ir_module \<Rightarrow> cgs_exec \<Rightarrow> bool" where
  "tables_ok M x \<longleftrightarrow>
     (\<forall>i bid. BI2ID x (Some i) = Some bid \<longrightarrow>
        ID2BI x bid = Some i \<and> bid \<in> dom (BDDeps x) \<and> (is_br M i \<longrightarrow> marked_br M i)) \<and>
     (\<forall>bid\<in>dom (BDDeps x). \<exists>I ins. ID2BI x bid = Some I \<and> inst_at M I = Some ins)"

definition loaded :: "ir_module \<Rightarrow> cgs_exec \<Rightarrow> bool" where
  "loaded M x \<longleftrightarrow> tables_ok M x \<and> targetBranches x = [] \<and> partlyCoveredBranches x = [] \<and>
     fullyCoveredBranches x = [] \<and> newFullyCoveredBranch x = False \<and> updateTargetBranch x = False \<and>
     newBranchNumFromStore x = 0"

text \<open>
  The instruction is what the module has at its place; a fork on a constant condition returns the
  state itself.
\<close>

fun valid_instr :: "ir_module \<Rightarrow> state_ptr \<Rightarrow> cgs_instr \<Rightarrow> bool" where
  "valid_instr M c (IBr inp) \<longleftrightarrow> is_br M (br_i inp) \<and>
     (\<forall>p. br_first inp = Some p \<and> br_second inp = None \<longrightarrow> p = c) \<and>
     (\<forall>p. br_first inp = None \<and> br_second inp = Some p \<longrightarrow> p = c)"
| "valid_instr M c (ISwitch inp) \<longleftrightarrow> is_switch M (sw_i inp)"
| "valid_instr M c (IStore si v) \<longleftrightarrow> True"
| "valid_instr M c (IOther i) \<longleftrightarrow> True"

text \<open>How many target branches take note of a store, as the handler decides it.\<close>

definition store_hit :: "nat \<Rightarrow> u32 \<Rightarrow> cgs_exec \<Rightarrow> nat \<Rightarrow> bool" where
  "store_hit sid value x bid \<longleftrightarrow>
     value \<notin> fst (map_at {} bid (invalidStoreValues x)) \<and>
     (case BDDeps x bid of None \<Rightarrow> False | Some bd \<Rightarrow> sid \<in> set (bd_stores bd))"

fun store_hits :: "cgs_exec \<Rightarrow> cgs_instr \<Rightarrow> nat" where
  "store_hits x (IStore si (Some v)) =
     (if SI2ID x si = 0 then 0
      else length (filter (store_hit (SI2ID x si) (ucast v) x) (targetBranches x)))"
| "store_hits x ci = 0"

definition valid_round :: "ir_module \<Rightarrow> cgs_world \<Rightarrow> round_input \<Rightarrow> bool" where
  "valid_round M w ri \<longleftrightarrow>
     (case cgs_selectState w of
        None \<Rightarrow> False
      | Some (c, _) \<Rightarrow>
          valid_instr M c (r_instr ri) \<and>
          valid_update (cgs_managed w) (map fst (r_added ri)) (r_removed ri) \<and>
          (case r_memory ri of
             None \<Rightarrow> True
           | Some ps \<Rightarrow> valid_update (cgs_managed w \<union> set (map fst (r_added ri)) - set (r_removed ri)) [] ps))"

text \<open>No store that a target branch takes note of terminates the state that executes it.\<close>

definition round_keeps_store :: "cgs_world \<Rightarrow> round_input \<Rightarrow> bool" where
  "round_keeps_store w ri =
     (case cgs_selectState w of
        None \<Rightarrow> True
      | Some (c, _) \<Rightarrow> c \<in> set (r_removed ri) \<longrightarrow> store_hits (cgs_x w) (r_instr ri) = 0)"

text \<open>
  The worlds the loop reaches from the loaded tables \<open>x0\<close>, in runs whose rounds all keep their
  stores, with the statistics at that point.
\<close>

inductive cgs_reach :: "ir_module \<Rightarrow> ((nat \<rightharpoonup> u32) \<Rightarrow> nat list) \<Rightarrow> tracker_config \<Rightarrow> cgs_exec \<Rightarrow>
    cgs_world \<times> branch_stats \<Rightarrow> bool"
  for M iter tc x0 where
  start: "distinct ps \<Longrightarrow> cgs_update M None ps [] (init_world x0) = Some w \<Longrightarrow>
    cgs_reach M iter tc x0 (w, init_stats tc)"
| round: "cgs_reach M iter tc x0 ws \<Longrightarrow> valid_round M (fst ws) ri \<Longrightarrow> round_keeps_store (fst ws) ri \<Longrightarrow>
    cgs_round M iter tc ri ws = Some ws' \<Longrightarrow> cgs_reach M iter tc x0 ws'"

subsection \<open>What the handlers keep of the tables\<close>

text \<open>The part of the executor the invariant is about, and the invariant.\<close>

definition x_core :: "cgs_exec \<Rightarrow> (nat \<rightharpoonup> inst_ptr) \<times> (inst_ptr option \<rightharpoonup> nat) \<times> (nat \<rightharpoonup> bddep) \<times> nat \<times>
    bool \<times> nat list \<times> nat list \<times> nat list" where
  "x_core x = (ID2BI x, BI2ID x, BDDeps x, targetBranchNum x, newFullyCoveredBranch x,
     fullyCoveredBranches x, partlyCoveredBranches x, targetBranches x)"

definition switches_done :: "ir_module \<Rightarrow> cgs_exec \<Rightarrow> bool" where
  "switches_done M x \<longleftrightarrow>
     (\<forall>bid\<in>set (fullyCoveredBranches x). \<forall>I bd. ID2BI x bid = Some I \<and> is_switch M I \<and>
        BDDeps x bid = Some bd \<longrightarrow> bd_unCoveredValues bd = {})"

text \<open>A \<open>br\<close> is listed as fully covered only when its statistic says so.\<close>

definition brs_done :: "ir_module \<Rightarrow> (inst_ptr \<Rightarrow> bool) \<Rightarrow> cgs_exec \<Rightarrow> bool" where
  "brs_done M fl x \<longleftrightarrow>
     (\<forall>bid\<in>set (fullyCoveredBranches x). \<forall>I. ID2BI x bid = Some I \<and> is_br M I \<longrightarrow> fl I)"

definition exec_ok :: "ir_module \<Rightarrow> (inst_ptr \<Rightarrow> bool) \<Rightarrow> cgs_exec \<Rightarrow> bool" where
  "exec_ok M fl x \<longleftrightarrow> lists_ok x \<and> tables_ok M x \<and> switches_done M x \<and> brs_done M fl x \<and>
     (newFullyCoveredBranch x \<longrightarrow> fullyCoveredBranches x \<noteq> [])"

lemma x_coreD:
  assumes "x_core x' = x_core x"
  shows "ID2BI x' = ID2BI x" "BI2ID x' = BI2ID x" "BDDeps x' = BDDeps x"
    "targetBranchNum x' = targetBranchNum x" "newFullyCoveredBranch x' = newFullyCoveredBranch x"
    "fullyCoveredBranches x' = fullyCoveredBranches x"
    "partlyCoveredBranches x' = partlyCoveredBranches x" "targetBranches x' = targetBranches x"
  using assms by (simp_all add: x_core_def)

lemma exec_ok_core:
  assumes "x_core x' = x_core x"
  shows "exec_ok M fl x' = exec_ok M fl x"
  by (simp only: exec_ok_def lists_ok_def tables_ok_def switches_done_def brs_done_def x_coreD [OF assms])

lemma exec_okD:
  assumes "exec_ok M fl x"
  shows "lists_ok x" "tables_ok M x" "switches_done M x"
    "newFullyCoveredBranch x \<Longrightarrow> fullyCoveredBranches x \<noteq> []" "brs_done M fl x"
  using assms by (auto simp: exec_ok_def)

lemma exec_ok_mono: "exec_ok M fl x \<Longrightarrow> (\<And>i. fl i \<Longrightarrow> fl' i) \<Longrightarrow> exec_ok M fl' x"
  by (auto simp: exec_ok_def brs_done_def)

lemma tablesD:
  assumes "tables_ok M x" "BI2ID x (Some i) = Some bid"
  shows "ID2BI x bid = Some i" "bid \<in> dom (BDDeps x)" "is_br M i \<Longrightarrow> marked_br M i"
  using assms by (auto simp: tables_ok_def)

lemma reach_target_core: "reach_target p bid x h = (x', h') \<Longrightarrow> x_core x' = x_core x"
  by (simp add: x_core_def reach_target_frame)

lemma count_visit_core: "count_visit bid x = (ok, x') \<Longrightarrow> x_core x' = x_core x"
  by (simp add: x_core_def count_visit_frame)

lemma not_br_and_switch: "is_br M i \<Longrightarrow> \<not> is_switch M i"
  by (auto simp: is_br_def is_switch_def split: option.splits opcode.splits)

text \<open>Putting a branch on a list, and changing the record of a branch.\<close>

lemma enlist_exec_ok:
  assumes "exec_ok M fl x" "bid \<in> dom (BDDeps x)" "bid \<notin> set (fullyCoveredBranches x)"
    "bid \<notin> set (targetBranches x)" "bid \<notin> set (partlyCoveredBranches x)"
  shows "exec_ok M fl (enlist bid x)"
  using assms enlist_ok [of x bid]
  by (auto simp: exec_ok_def tables_ok_def switches_done_def brs_done_def)

lemma retire_exec_ok:
  assumes "exec_ok M fl x" "bid \<in> dom (BDDeps x)"
    and "\<And>I bd. ID2BI x bid = Some I \<Longrightarrow> is_switch M I \<Longrightarrow> BDDeps x bid = Some bd \<Longrightarrow>
      bd_unCoveredValues bd = {}"
    and "\<And>I. ID2BI x bid = Some I \<Longrightarrow> is_br M I \<Longrightarrow> fl I"
  shows "exec_ok M fl (retire bid x)"
  unfolding exec_ok_def
proof (intro conjI)
  show "lists_ok (retire bid x)" using assms retire_ok by (auto simp: exec_ok_def)
  show "tables_ok M (retire bid x)" using assms by (simp add: exec_ok_def tables_ok_def)
  have "set (fullyCoveredBranches (retire bid x)) \<subseteq> insert bid (set (fullyCoveredBranches x))"
    by (auto simp: retire_def Let_def)
  with assms show "switches_done M (retire bid x)" "brs_done M fl (retire bid x)"
    by (auto simp: exec_ok_def switches_done_def brs_done_def)
  show "newFullyCoveredBranch (retire bid x) \<longrightarrow> fullyCoveredBranches (retire bid x) \<noteq> []"
    using assms by (intro retire_flag) (simp add: exec_ok_def)
qed

lemma new_record_exec_ok:
  assumes "exec_ok M fl x" "bid \<in> dom (BDDeps x)"
    and "bid \<in> set (fullyCoveredBranches x) \<Longrightarrow> \<forall>I. ID2BI x bid = Some I \<longrightarrow> is_switch M I \<longrightarrow> bd_unCoveredValues bd = {}"
  shows "exec_ok M fl (x\<lparr>BDDeps := (BDDeps x)(bid \<mapsto> bd)\<rparr>)"
proof -
  have "lists_ok (x\<lparr>BDDeps := (BDDeps x)(bid \<mapsto> bd)\<rparr>)"
    by (rule lists_ok_cong [OF exec_okD(1) [OF assms(1)]]) auto
  moreover have "dom ((BDDeps x)(bid \<mapsto> bd)) = dom (BDDeps x)"
    using assms(2) by auto
  then have "tables_ok M (x\<lparr>BDDeps := (BDDeps x)(bid \<mapsto> bd)\<rparr>) = tables_ok M x"
    by (simp add: tables_ok_def del: dom_fun_upd)
  moreover have "switches_done M (x\<lparr>BDDeps := (BDDeps x)(bid \<mapsto> bd)\<rparr>)"
    using exec_okD(3) [OF assms(1)] assms(3) unfolding switches_done_def by simp blast
  ultimately show ?thesis
    using assms(1) by (simp add: exec_ok_def brs_done_def del: dom_fun_upd)
qed

text \<open>The handlers.\<close>

lemma icmp_one_constantE:
  assumes "icmp_one_constant cond"
  obtains p op1 op2 ops where "i_op cond = OpICmp p" "i_operands cond = op1 # op2 # ops"
    "is_ConstantInt op1 \<noteq> is_ConstantInt op2"
proof (cases "i_op cond")
  case (OpICmp p)
  with assms obtain op1 op2 ops where "i_operands cond = op1 # op2 # ops"
    by (auto simp: icmp_one_constant_def split: list.splits)
  with OpICmp assms that show thesis by (auto simp: icmp_one_constant_def)
qed (use assms in \<open>simp_all add: icmp_one_constant_def\<close>)

lemma marked_brE:
  assumes "marked_br M i"
  obtains bi c ops cond where "inst_at M i = Some bi" "i_operands bi = VInst c # ops"
    "inst_at M c = Some cond" "i_function cond = i_function bi" "icmp_one_constant cond"
proof -
  from assms obtain bi where bi: "inst_at M i = Some bi"
    by (cases "inst_at M i") (simp_all add: marked_br_def)
  with assms obtain c ops where ops: "i_operands bi = VInst c # ops"
    by (auto simp: marked_br_def split: list.splits val.splits)
  with assms bi obtain cond where "inst_at M c = Some cond"
    by (cases "inst_at M c") (simp_all add: marked_br_def)
  with assms bi ops that show thesis by (simp add: marked_br_def)
qed

lemma record_branch_ok:
  assumes ok: "exec_ok M fl x" and bid: "bid \<in> dom (BDDeps x)" "bid \<notin> set (fullyCoveredBranches x)"
      "bid \<notin> set (targetBranches x)" "bid \<notin> set (partlyCoveredBranches x)"
    and br: "marked_br M (br_i inp)"
  shows "\<exists>x'. record_branch M inp bid bd x = Some x' \<and> exec_ok M fl x' \<and> BI2ID x' = BI2ID x \<and>
           ID2BI x' = ID2BI x \<and> newBranchNumFromStore x' = newBranchNumFromStore x"
proof -
  have invalid: "exec_ok M fl (x\<lparr>invalidBranches := S\<rparr>)" for S
    using ok exec_ok_core [of "x\<lparr>invalidBranches := S\<rparr>" x M] by (simp add: x_core_def)
  have "exec_ok M fl (enlist bid (x\<lparr>BDDeps := (BDDeps x)(bid \<mapsto> bd')\<rparr>))" for bd'
    using bid new_record_exec_ok [OF ok bid(1), of bd'] by (intro enlist_exec_ok) auto
  note enl = this
  from br obtain bi c ops cond p op1 op2 ops' where
    M: "inst_at M (br_i inp) = Some bi" "i_operands bi = VInst c # ops" "inst_at M c = Some cond"
      "i_function cond = i_function bi" "i_op cond = OpICmp p" "i_operands cond = op1 # op2 # ops'"
      "is_ConstantInt op1 \<noteq> is_ConstantInt op2"
    by (elim marked_brE icmp_one_constantE)
  show ?thesis
  proof (cases "br_v1 inp = None \<or> br_v2 inp = None")
    case True
    with invalid show ?thesis
      by (auto simp: record_branch_def M split: option.splits)
  next
    case False
    then obtain v1 v2 where "br_v1 inp = Some v1" "br_v2 inp = Some v2" by auto
    with enl show ?thesis by (simp add: record_branch_def M(1-6) M(7) Let_def)
  qed
qed

lemma br_partly_ok:
  assumes ok: "exec_ok M fl x" and bid: "bid \<in> dom (BDDeps x)" "bid \<notin> set (fullyCoveredBranches x)"
    and br: "marked_br M (br_i inp)"
  shows "\<exists>x'. br_partly M inp bid x = Some x' \<and> exec_ok M fl x' \<and> BI2ID x' = BI2ID x \<and>
           ID2BI x' = ID2BI x \<and> newBranchNumFromStore x' = newBranchNumFromStore x"
proof -
  obtain r x1 where cv: "count_visit bid x = (r, x1)" by fastforce
  have ok1: "exec_ok M fl x1" using ok exec_ok_core [OF count_visit_core [OF cv]] by simp
  note core = x_coreD [OF count_visit_core [OF cv]]
  show ?thesis
  proof (cases "bid \<in> set (targetBranches x) \<or> bid \<in> set (partlyCoveredBranches x)")
    case True
    with ok show ?thesis by (simp add: br_partly_def)
  next
    case False
    with bid core have "bid \<in> dom (BDDeps x1)" "bid \<notin> set (fullyCoveredBranches x1)"
      "bid \<notin> set (targetBranches x1)" "bid \<notin> set (partlyCoveredBranches x1)" by auto
    from record_branch_ok [OF ok1 this br] bid(1) False ok ok1 core cv count_visit_frame [OF cv]
    show ?thesis by (cases r) (auto simp: br_partly_def)
  qed
qed

text \<open>What a handler leaves for \<open>update\<close>: how the marks on the current state fit the tables.\<close>

definition marks_ok :: "ir_module \<Rightarrow> state_ptr \<Rightarrow> cgs_exec \<Rightarrow> (state_ptr \<Rightarrow> exec_state) \<Rightarrow> bool" where
  "marks_ok M c x h \<longleftrightarrow>
     (newBranchNumFromStore x \<noteq> 0 \<longrightarrow> reachStore (h c)) \<and>
     (reachStore (h c) \<longrightarrow> \<not> reachBranch (h c) \<and>
        newBranchNumFromStore x \<le> length (branchInfos (h c)) \<and>
        (\<forall>b\<in>set (drop (length (branchInfos (h c)) - newBranchNumFromStore x) (branchInfos (h c))).
           targetBranchID b \<in> dom (BDDeps x))) \<and>
     (reachBranch (h c) \<longrightarrow>
        (\<forall>i. past_branch M (prev_inst (h c)) = Some i \<longrightarrow> Some i \<in> dom (BI2ID x)))"

definition quiet :: "exec_state \<Rightarrow> bool" where
  "quiet es \<longleftrightarrow> \<not> reachStore es \<and> \<not> reachBranch es"

lemma marks_quiet: "quiet (h c) \<Longrightarrow> newBranchNumFromStore x = 0 \<Longrightarrow> marks_ok M c x h"
  by (simp add: marks_ok_def quiet_def)

lemma br_concrete_ok:
  assumes ok: "exec_ok M fl x" and q: "quiet (h p)" and n: "newBranchNumFromStore x = 0"
    and br: "is_br M (br_i inp)" and prev: "prev_inst (h p) = br_i inp"
  shows "\<exists>x' h'. br_concrete M (Some (fl (br_i inp))) inp p x h = Some (x', h') \<and> exec_ok M fl x' \<and> marks_ok M p x' h' \<and>
           newBranchNumFromStore x' = 0 \<and> (\<forall>r. r \<noteq> p \<longrightarrow> h' r = h r)"
proof (cases "BI2ID x (Some (br_i inp))")
  case None
  with ok q n show ?thesis by (simp add: br_concrete_def marks_quiet)
next
  case (Some bid)
  obtain x1 h1 where rt: "reach_target p bid x h = (x1, h1)" by fastforce
  note core = x_coreD [OF reach_target_core [OF rt]] and fr = reach_target_frame [OF rt]
  have ok1: "exec_ok M fl x1" using ok exec_ok_core [OF reach_target_core [OF rt]] by simp
  note tab = tablesD [OF exec_okD(2) [OF ok] Some]
  have dom1: "bid \<in> dom (BDDeps x1)" using tab(2) core by simp
  have prev1: "prev_inst (h1 p) = br_i inp" "\<not> reachStore (h1 p)"
    using rt prev q by (auto simp: reach_target_def Let_def quiet_def split: if_splits)
  have nosw: "is_switch M I \<Longrightarrow> ID2BI x1 bid = Some I \<Longrightarrow> False" for I
    using tab(1) core not_br_and_switch [OF br] by simp
  have marks: "marks_ok M p x' h1"
    if "BI2ID x' = BI2ID x" "newBranchNumFromStore x' = 0" for x'
    using that Some prev1 by (auto simp: marks_ok_def past_branch_def split: option.splits opcode.splits)
  obtain x2 where x2: "(if \<not> fl (br_i inp) \<and> bid \<notin> invalidBranches x1 then br_partly M inp bid x1 else Some x1) = Some x2"
      "exec_ok M fl x2" "BI2ID x2 = BI2ID x" "ID2BI x2 = ID2BI x1" "newBranchNumFromStore x2 = 0"
  proof (cases "\<not> fl (br_i inp) \<and> bid \<notin> invalidBranches x1")
    case True
    with exec_okD(5) [OF ok1] tab(1) core(1) br have "bid \<notin> set (fullyCoveredBranches x1)"
      by (auto simp: brs_done_def)
    from br_partly_ok [OF ok1 dom1 this tab(3) [OF br]] True that core(2) n fr(9) show thesis by auto
  qed (use ok1 core n fr that in auto)
  have dom2: "bid \<in> dom (BDDeps x2)"
    using exec_okD(2) [OF x2(2)] x2(3) Some by (auto dest: tablesD)
  have "exec_ok M fl (retire bid x2)" if "fl (br_i inp)"
    using nosw x2(4) that tab(1) core(1) by (intro retire_exec_ok [OF x2(2) dom2]) auto
  with x2 Some rt marks [of x2] marks [of "retire bid x2"] fr(12) show ?thesis
    by (auto simp: br_concrete_def)
qed

lemma br_handler_ok:
  assumes ok: "exec_ok M fl x" and q: "quiet (h c)" and n: "newBranchNumFromStore x = 0"
    and valid: "valid_instr M c (IBr inp)" and prev: "prev_inst (h c) = br_i inp"
  shows "\<exists>x' h'. br_handler M (Some (fl (br_i inp))) inp x h = Some (x', h') \<and> exec_ok M fl x' \<and> marks_ok M c x' h' \<and>
           newBranchNumFromStore x' = 0 \<and> (\<forall>r. r \<noteq> c \<longrightarrow> h' r = h r)"
proof (cases "br_cond_constant inp")
  case False
  have "exec_ok M fl (x\<lparr>BI2ID := (BI2ID x)(Some (br_i inp) := None)\<rparr>)"
    using ok by (auto simp: exec_ok_def lists_ok_def tables_ok_def switches_done_def brs_done_def)
  with False q n show ?thesis by (simp add: br_handler_def marks_quiet)
next
  case True
  have conc: "\<exists>x' h'. br_concrete M (Some (fl (br_i inp))) inp c x h = Some (x', h') \<and> exec_ok M fl x' \<and> marks_ok M c x' h' \<and>
      newBranchNumFromStore x' = 0 \<and> (\<forall>r. r \<noteq> c \<longrightarrow> h' r = h r)"
    using valid by (intro br_concrete_ok [of M fl x h c inp, OF ok q n _ prev]) auto
  show ?thesis
    using True conc valid ok q n
    by (cases "br_first inp"; cases "br_second inp") (simp_all add: br_handler_def marks_quiet)
qed

lemma sw_partly_ok:
  assumes ok: "exec_ok M fl x" and bid: "bid \<in> dom (BDDeps x)" "bid \<notin> set (fullyCoveredBranches x)"
  shows "exec_ok M fl (sw_partly bid bd x)"
proof -
  obtain r x1 where cv: "count_visit bid x = (r, x1)" by fastforce
  have ok1: "exec_ok M fl x1" using ok exec_ok_core [OF count_visit_core [OF cv]] by simp
  note core = x_coreD [OF count_visit_core [OF cv]]
  have "exec_ok M fl (enlist bid x1)"
    if "bid \<notin> set (targetBranches x)" "bid \<notin> set (partlyCoveredBranches x)"
    using that bid core by (intro enlist_exec_ok [OF ok1]) auto
  with ok ok1 cv show ?thesis by (cases r) (auto simp: sw_partly_def)
qed

lemma switch_handler_ok:
  assumes ok: "exec_ok M fl x" and q: "quiet (h c)" and n: "newBranchNumFromStore x = 0"
    and valid: "is_switch M (sw_i inp)" and prev: "prev_inst (h c) = sw_i inp"
  shows "\<exists>x' h'. switch_handler inp c x h = Some (x', h') \<and> exec_ok M fl x' \<and> marks_ok M c x' h' \<and>
           newBranchNumFromStore x' = 0 \<and> (\<forall>r. r \<noteq> c \<longrightarrow> h' r = h r)"
proof (cases "BI2ID x (Some (sw_i inp))")
  case None
  with ok q n show ?thesis by (simp add: switch_handler_def marks_quiet)
next
  case (Some bid)
  obtain x1 h1 where rt: "reach_target c bid x h = (x1, h1)" by fastforce
  note core = x_coreD [OF reach_target_core [OF rt]] and fr = reach_target_frame [OF rt]
  have ok1: "exec_ok M fl x1" using ok exec_ok_core [OF reach_target_core [OF rt]] by simp
  note tab = tablesD [OF exec_okD(2) [OF ok] Some]
  obtain bd where bd: "BDDeps x1 bid = Some bd" using tab(2) core(3) by auto
  let ?bd = "bd\<lparr>bd_unCoveredValues := bd_unCoveredValues bd - {ucast (sw_value inp)}\<rparr>"
  let ?x2 = "x1\<lparr>BDDeps := (BDDeps x1)(bid \<mapsto> ?bd)\<rparr>"
  have sw: "is_switch M I" if "ID2BI x1 bid = Some I" for I
    using that tab(1) core(1) valid by simp
  have all_done: "bd_unCoveredValues bd = {}" if "bid \<in> set (fullyCoveredBranches x1)"
    using exec_okD(3) [OF ok1] that tab(1) core(1) valid bd by (auto simp: switches_done_def)
  have ok2: "exec_ok M fl ?x2"
    using bd all_done by (intro new_record_exec_ok [OF ok1]) auto
  have not_full: "bid \<notin> set (fullyCoveredBranches ?x2)" if "bd_unCoveredValues ?bd \<noteq> {}"
    using all_done that by auto
  have ok3: "exec_ok M fl (sw_partly bid ?bd ?x2)" if "bd_unCoveredValues ?bd \<noteq> {}"
    using not_full that by (intro sw_partly_ok [OF ok2]) auto
  have okr: "exec_ok M fl (retire bid ?x2)" if "bd_unCoveredValues ?bd = {}"
    using that sw not_br_and_switch by (intro retire_exec_ok [OF ok2]) auto
  have quietS: "\<not> reachStore (h1 c)" "prev_inst (h1 c) = sw_i inp"
    using rt prev q by (auto simp: reach_target_def Let_def quiet_def split: if_splits)
  have marks: "marks_ok M c x' h1" if "newBranchNumFromStore x' = 0" for x'
    using that quietS valid
    by (auto simp: marks_ok_def past_branch_def is_switch_def split: option.splits opcode.splits)
  show ?thesis
    using Some rt bd ok2 ok3 okr marks fr(9,12) n
    by (cases "bd_unCoveredValues ?bd = {}") (auto simp: switch_handler_def Let_def)
qed

text \<open>The loop of the store handler over the target branches.\<close>

definition store_loop_ok :: "cgs_exec \<Rightarrow> exec_state \<Rightarrow> nat list \<Rightarrow> cgs_exec \<times> exec_state \<Rightarrow> bool" where
  "store_loop_ok x es0 bids st \<longleftrightarrow>
     (case st of (x', es) \<Rightarrow>
        x_core x' = x_core x \<and> set bids \<subseteq> dom (BDDeps x) \<and>
        (newBranchNumFromStore x' \<noteq> 0 \<longrightarrow> reachStore es) \<and> (reachStore es \<longrightarrow> \<not> reachBranch es) \<and>
        (\<exists>new. branchInfos es = branchInfos es0 @ new \<and> length new = newBranchNumFromStore x' \<and>
           (\<forall>b\<in>set new. targetBranchID b \<in> dom (BDDeps x))) \<and>
        (\<not> reachStore es \<longrightarrow> reachBranch es = reachBranch es0))"

lemma store_target_ok:
  assumes "store_loop_ok x es0 (bid # bids) st"
  shows "\<exists>st'. store_target sid value bid st = Some st' \<and> store_loop_ok x es0 bids st'"
proof -
  obtain x1 es where st: "st = (x1, es)" by (cases st)
  obtain bad m where m: "map_at {} bid (invalidStoreValues x1) = (bad, m)" by fastforce
  have core: "x_core (x1\<lparr>invalidStoreValues := m\<rparr>) = x_core x1"
    "x_core (x1\<lparr>invalidStoreValues := m, newBranchNumFromStore := k\<rparr>) = x_core x1" for k
    by (simp_all add: x_core_def)
  from assms st obtain bd where bd: "BDDeps x1 bid = Some bd"
    by (auto simp: store_loop_ok_def dest: x_coreD(3))
  from assms st obtain new where new: "branchInfos es = branchInfos es0 @ new"
      "length new = newBranchNumFromStore x1" "\<forall>b\<in>set new. targetBranchID b \<in> dom (BDDeps x)"
    by (auto simp: store_loop_ok_def)
  have b: "bid \<in> dom (BDDeps x)" using assms st by (simp add: store_loop_ok_def)
  have more: "\<exists>new'. branchInfos es @ [b] = branchInfos es0 @ new' \<and> length new' = Suc (newBranchNumFromStore x1) \<and>
      (\<forall>b\<in>set new'. targetBranchID b \<in> dom (BDDeps x))" if "targetBranchID b \<in> dom (BDDeps x)" for b
    using new that by (intro exI [of _ "new @ [b]"]) auto
  show ?thesis
    using assms st m bd core b more by (auto simp: store_target_def Let_def store_loop_ok_def)
qed

lemma store_target_hit:
  assumes "bid \<in> dom (BDDeps x)"
  shows "\<exists>x' es'. store_target sid value bid (x, es) = Some (x', es') \<and> BDDeps x' = BDDeps x \<and>
     store_hit sid value x' = store_hit sid value x \<and>
     newBranchNumFromStore x' = newBranchNumFromStore x + of_bool (store_hit sid value x bid) \<and>
     length (branchInfos es') = length (branchInfos es) + of_bool (store_hit sid value x bid) \<and>
     (reachStore es' \<longleftrightarrow> reachStore es \<or> store_hit sid value x bid) \<and>
     (\<not> reachBranch es \<longrightarrow> \<not> reachBranch es')"
proof -
  obtain bad m where m: "map_at {} bid (invalidStoreValues x) = (bad, m)" by fastforce
  have "fst (map_at {} b m) = fst (map_at {} b (invalidStoreValues x))" for b
    using m by (auto simp: map_at_def split: option.splits if_splits)
  then have "store_hit sid value (x\<lparr>invalidStoreValues := m\<rparr>) = store_hit sid value x"
    "store_hit sid value (x\<lparr>invalidStoreValues := m, newBranchNumFromStore := n\<rparr>) = store_hit sid value x" for n
    by (simp_all add: store_hit_def fun_eq_iff)
  moreover obtain bd where "BDDeps x bid = Some bd" using assms by blast
  moreover have "store_hit sid value x bid \<longleftrightarrow> value \<notin> bad \<and> sid \<in> set (bd_stores bd)"
    using m \<open>BDDeps x bid = Some bd\<close> by (simp add: store_hit_def)
  ultimately show ?thesis by (simp add: store_target_def m Let_def)
qed

lemma store_targets_hits:
  assumes "set bids \<subseteq> dom (BDDeps x)"
  shows "\<exists>x' es'. foldM (store_target sid value) bids (x, es) = Some (x', es') \<and>
     newBranchNumFromStore x' = newBranchNumFromStore x + length (filter (store_hit sid value x) bids) \<and>
     length (branchInfos es') = length (branchInfos es) + length (filter (store_hit sid value x) bids) \<and>
     (reachStore es' \<longleftrightarrow> reachStore es \<or> filter (store_hit sid value x) bids \<noteq> []) \<and>
     (\<not> reachBranch es \<longrightarrow> \<not> reachBranch es')"
  using assms
proof (induction bids arbitrary: x es)
  case (Cons bid bids)
  then have "bid \<in> dom (BDDeps x)" by simp
  from store_target_hit [OF this, of sid "value" es] obtain x1 es1 where
    step: "store_target sid value bid (x, es) = Some (x1, es1)" "BDDeps x1 = BDDeps x"
      "store_hit sid value x1 = store_hit sid value x"
      "newBranchNumFromStore x1 = newBranchNumFromStore x + of_bool (store_hit sid value x bid)"
      "length (branchInfos es1) = length (branchInfos es) + of_bool (store_hit sid value x bid)"
      "reachStore es1 \<longleftrightarrow> reachStore es \<or> store_hit sid value x bid" "\<not> reachBranch es \<longrightarrow> \<not> reachBranch es1"
    by blast
  from Cons.IH [of x1 es1] Cons.prems step show ?case by auto
qed simp

lemma drop_stale_flags [simp]:
  "reachStore (drop_stale iter related value es) = reachStore es"
  "reachBranch (drop_stale iter related value es) = reachBranch es"
  "prev_inst (drop_stale iter related value es) = prev_inst es"
  by (simp_all add: drop_stale_def split: option.splits)

lemma erase_first_length: "length (erase_first P xs) \<le> length xs"
  by (induction xs) auto

lemma drop_stale_length: "length (branchInfos (drop_stale iter related value es)) \<le> length (branchInfos es)"
  by (simp add: drop_stale_def erase_first_length split: option.splits)

text \<open>How often a store is noted, in any world with consistent lists.\<close>

lemma store_handler_hits:
  assumes lists: "lists_ok x" and q: "quiet (h c)"
  shows "\<exists>x' h'. store_handler iter si v c x h = Some (x', h') \<and>
     newBranchNumFromStore x' = newBranchNumFromStore x + store_hits x (IStore si v) \<and>
     length (branchInfos (h' c)) \<le> length (branchInfos (h c)) + store_hits x (IStore si v) \<and>
     (reachStore (h' c) \<longleftrightarrow> store_hits x (IStore si v) \<noteq> 0) \<and> \<not> reachBranch (h' c)"
proof (cases "SI2ID x si = 0 \<or> v = None")
  case True
  with q show ?thesis by (cases v) (auto simp: store_handler_def Let_def quiet_def)
next
  case False
  then obtain v64 where v: "v = Some v64" by auto
  define es1 where "es1 = (case storesWithSameVar x (SI2ID x si) of
      None \<Rightarrow> h c | Some related \<Rightarrow> drop_stale iter related (ucast v64) (h c))"
  define es2 where "es2 = es1\<lparr>storeValues := (storeValues es1)(SI2ID x si \<mapsto> ucast v64)\<rparr>"
  have es2: "quiet es2" "length (branchInfos es2) \<le> length (branchInfos (h c))"
    using q by (auto simp: es2_def es1_def quiet_def drop_stale_length split: option.splits)
  have "set (targetBranches x) \<subseteq> dom (BDDeps x)" using lists by (simp add: lists_ok_def)
  from store_targets_hits [OF this, of "SI2ID x si" "ucast v64" es2] obtain x' es' where
    "foldM (store_target (SI2ID x si) (ucast v64)) (targetBranches x) (x, es2) = Some (x', es')"
    "newBranchNumFromStore x' = newBranchNumFromStore x + store_hits x (IStore si v)"
    "length (branchInfos es') = length (branchInfos es2) + store_hits x (IStore si v)"
    "reachStore es' \<longleftrightarrow> reachStore es2 \<or> store_hits x (IStore si v) \<noteq> 0" "\<not> reachBranch es'"
    using False v es2(1) by (auto simp: quiet_def)
  moreover from this(1) have "store_handler iter si v c x h =
      (if targetBranches x = [] then Some (x, h(c := es2)) else Some (x', h(c := es')))"
    using False v by (simp add: store_handler_def Let_def es1_def es2_def)
  ultimately show ?thesis using es2 by (cases "targetBranches x = []") (auto simp: quiet_def v)
qed

lemma store_handler_ok:
  assumes ok: "exec_ok M fl x" and q: "quiet (h c)" and n: "newBranchNumFromStore x = 0"
  shows "\<exists>x' h'. store_handler iter si v c x h = Some (x', h') \<and> exec_ok M fl x' \<and> marks_ok M c x' h' \<and>
           (\<forall>r. r \<noteq> c \<longrightarrow> h' r = h r)"
proof (cases "SI2ID x si = 0 \<or> v = None")
  case True
  with ok q n show ?thesis by (auto simp: store_handler_def Let_def marks_quiet split: option.splits)
next
  case False
  then obtain v64 where v: "v = Some v64" by auto
  define es1 where "es1 = (case storesWithSameVar x (SI2ID x si) of
      None \<Rightarrow> h c | Some related \<Rightarrow> drop_stale iter related (ucast v64) (h c))"
  define es2 where "es2 = es1\<lparr>storeValues := (storeValues es1)(SI2ID x si \<mapsto> ucast v64)\<rparr>"
  have q2: "quiet es2" using q by (simp add: es2_def es1_def quiet_def split: option.splits)
  have tb: "set (targetBranches x) \<subseteq> dom (BDDeps x)"
    using exec_okD(1) [OF ok] by (simp add: lists_ok_def)
  have start: "store_loop_ok x es2 (targetBranches x) (x, es2)"
    using tb n q2 by (simp add: store_loop_ok_def quiet_def)
  obtain st where st: "foldM (store_target (SI2ID x si) (ucast v64)) (targetBranches x) (x, es2) = Some st"
      "store_loop_ok x es2 [] st"
    using foldM_invariant [of "store_loop_ok x es2" _ _ "store_target (SI2ID x si) (ucast v64)",
        OF start store_target_ok] by blast
  obtain x' es' where "st = (x', es')" by (cases st)
  with st have fold: "foldM (store_target (SI2ID x si) (ucast v64)) (targetBranches x) (x, es2) = Some (x', es')"
    and inv: "store_loop_ok x es2 [] (x', es')" by simp_all
  have core: "x_core x' = x_core x" using inv by (simp add: store_loop_ok_def)
  have "marks_ok M c x' (h(c := es'))"
    using inv q2 x_coreD(3) [OF core] by (auto simp: store_loop_ok_def marks_ok_def quiet_def)
  moreover have "exec_ok M fl x'" using ok exec_ok_core [OF core] by simp
  moreover have "marks_ok M c x (h(c := es2))" using q2 n by (simp add: marks_quiet)
  moreover have "store_handler iter si v c x h =
      (if targetBranches x = [] then Some (x, h(c := es2)) else Some (x', h(c := es')))"
    using False v fold by (simp add: store_handler_def Let_def es1_def es2_def)
  ultimately show ?thesis using ok by (cases "targetBranches x = []") auto
qed

lemma exec_instr_ok:
  assumes full: "isFullyCovered tc st = (\<lambda>i. Some (fl i))"
    and ok: "exec_ok M fl (cgs_x w)" and q: "quiet (heap w c)" and n: "newBranchNumFromStore (cgs_x w) = 0"
    and valid: "valid_instr M c ci" and prev: "prev_inst (heap w c) = cgs_inst ci"
  shows "\<exists>w'. exec_instr M iter tc st c ci w = Some w' \<and> exec_ok M fl (cgs_x w') \<and> marks_ok M c (cgs_x w') (heap w') \<and>
           (\<forall>r. r \<noteq> c \<longrightarrow> heap w' r = heap w r) \<and> states w' = states w \<and> branch_states w' = branch_states w \<and>
           newBranchNumFromStore (cgs_x w') = store_hits (cgs_x w) ci"
proof (cases ci)
  case (IBr inp)
  with br_handler_ok [of M fl "cgs_x w" "heap w" c inp] assms show ?thesis by (auto simp: exec_instr_def)
next
  case (ISwitch inp)
  with switch_handler_ok [of M fl "cgs_x w" "heap w" c inp] assms show ?thesis by (auto simp: exec_instr_def)
next
  case (IStore si v)
  with store_handler_ok [of M fl "cgs_x w" "heap w" c iter si v]
    store_handler_hits [of "cgs_x w" "heap w" c iter si v] exec_okD(1) [OF ok] assms show ?thesis by (auto simp: exec_instr_def)
next
  case (IOther i)
  with assms show ?thesis by (simp add: exec_instr_def marks_quiet)
qed

end
