(* ===== verification/CGS_Safety.thy ===== *)
theory CGS_Safety
  imports CGS_Round
begin

section \<open>The CGS searcher never gets stuck\<close>

text \<open>
  Every operation of \<open>CGSSearcher::update\<close> returns and keeps the invariant, given what the handlers
  leave (\<open>marks_ok\<close>); with it the loop of \<open>Executor::run\<close> goes on as long as there are states.
\<close>

subsection \<open>Operations that keep the marks\<close>

text \<open>\<open>calm\<close>: the tables stay, no state is newly marked. \<open>still\<close>: the marks themselves stay.\<close>

definition calm :: "cgs_world \<Rightarrow> cgs_world \<Rightarrow> bool" where
  "calm w w' \<longleftrightarrow> x_core (cgs_x w') = x_core (cgs_x w) \<and>
     newBranchNumFromStore (cgs_x w') = newBranchNumFromStore (cgs_x w) \<and>
     (\<forall>p. quiet (heap w p) \<longrightarrow> quiet (heap w' p))"

definition still :: "cgs_world \<Rightarrow> cgs_world \<Rightarrow> bool" where
  "still w w' \<longleftrightarrow> x_core (cgs_x w') = x_core (cgs_x w) \<and>
     newBranchNumFromStore (cgs_x w') = newBranchNumFromStore (cgs_x w) \<and>
     (\<forall>p. reachStore (heap w' p) = reachStore (heap w p) \<and> reachBranch (heap w' p) = reachBranch (heap w p))"

lemma still_calm: "still w w' \<Longrightarrow> calm w w'"
  by (simp add: still_def calm_def quiet_def)

lemma calm_refl [simp]: "calm w w" and still_refl [simp]: "still w w"
  by (simp_all add: calm_def still_def)

lemma calm_trans: "calm w w' \<Longrightarrow> calm w' w'' \<Longrightarrow> calm w w''"
  by (auto simp: calm_def)

lemma still_trans: "still w w' \<Longrightarrow> still w' w'' \<Longrightarrow> still w w''"
  by (auto simp: still_def)

lemma calm_dom: "calm w w' \<Longrightarrow> BDDeps (cgs_x w') = BDDeps (cgs_x w)"
  unfolding calm_def by (rule x_coreD(3)) simp

lemma calm_ok: "calm w w' \<Longrightarrow> exec_ok M fl (cgs_x w') = exec_ok M fl (cgs_x w)"
  unfolding calm_def by (rule exec_ok_core) simp

lemma isNewStoreValue_still:
  assumes "bid \<in> dom (BDDeps (cgs_x w))"
  shows "\<exists>r w'. isNewStoreValue p bid sid w = Some (r, w') \<and> still w w' \<and>
           (\<forall>q. branchInfos (heap w' q) = branchInfos (heap w q))"
proof -
  obtain v0 sv where m: "map_at 0 sid (storeValues (heap w p)) = (v0, sv)" by fastforce
  obtain bd where bd: "BDDeps (cgs_x w) bid = Some bd" using assms by blast
  obtain r v where dv: "decide_value bd v0 = (r, v)" by fastforce
  have still: "still w (w\<lparr>heap := (heap w)(p := (heap w p)\<lparr>storeValues := sv\<rparr>),
      cgs_x := (cgs_x w)\<lparr>invalidStoreValues := i\<rparr>, validStoreValues := vv\<rparr>)" for i vv
    by (simp add: still_def x_core_def)
  then have "still w (upd_x (\<lambda>x. x\<lparr>invalidStoreValues := f x\<rparr>) (upd_state p (\<lambda>es. es\<lparr>storeValues := sv\<rparr>) w))"
    "still w ((upd_state p (\<lambda>es. es\<lparr>storeValues := sv\<rparr>) w)\<lparr>validStoreValues := vv\<rparr>)" for f vv
    by (simp_all add: upd_x_def upd_state_def still_def x_core_def)
  moreover have "branchInfos (heap (upd_state p (\<lambda>es. es\<lparr>storeValues := sv\<rparr>) w) q) = branchInfos (heap w q)" for q
    by (cases "q = p") simp_all
  ultimately show ?thesis
    using bd dv by (auto simp: isNewStoreValue_def m Let_def split: option.splits)
qed

lemma partly_current_still:
  assumes "bid \<in> dom (BDDeps (cgs_x w))"
  shows "\<exists>w'. partly_current (Some c) bid sid w = Some w' \<and> still w w'"
proof -
  obtain w1 where w1: "(if sid \<in> dom (storeValues (heap w c))
      then map_option snd (isNewStoreValue c bid sid w) else Some w) = Some w1" "still w w1"
    using isNewStoreValue_still [OF assms, of c sid] by (cases "sid \<in> dom (storeValues (heap w c))") auto
  have "still w1 (upd_state c (push_info sid bid) w1)"
    by (auto simp: still_def upd_state_def push_info_def)
  with w1 still_trans show ?thesis by (auto simp: partly_current_def)
qed

lemma foldM_keeps:
  assumes step: "\<And>s w. P (R w) \<Longrightarrow> \<exists>w'. f s w = Some w' \<and> K w w' \<and> R w' = R w"
    and trans: "\<And>a b c. K a b \<Longrightarrow> K b c \<Longrightarrow> K a c" and refl: "\<And>a. K a a" and "P (R w)"
  shows "\<exists>w'. foldM f xs w = Some w' \<and> K w w'"
  using \<open>P (R w)\<close>
proof (induction xs arbitrary: w)
  case (Cons x xs)
  from step [OF Cons.prems, of x] obtain w1 where w1: "f x w = Some w1" "K w w1" "R w1 = R w" by blast
  with Cons.IH [of w1] Cons.prems obtain w2 where "foldM f xs w1 = Some w2" "K w1 w2" by auto
  with w1 trans show ?case by auto
qed (simp add: refl)

lemma scan_states_calm:
  assumes "bid \<in> dom (BDDeps (cgs_x w))"
  shows "\<exists>w'. scan_states current bid sid ps kept w = Some w' \<and> calm w w'"
  using assms
proof (induction ps arbitrary: kept w)
  case Nil
  then show ?case by (simp add: calm_def)
next
  case (Cons p ps)
  show ?case
  proof (cases "current = Some p \<or> sid \<notin> dom (storeValues (heap w p))")
    case True
    with Cons show ?thesis by simp
  next
    case False
    obtain r w1 where w1: "isNewStoreValue p bid sid w = Some (r, w1)" "still w w1"
      using isNewStoreValue_still [OF Cons.prems, of p sid] by blast
    let ?w2 = "upd_state p (\<lambda>es. push_info sid bid (es\<lparr>reachBranch := False, reachStore := False\<rparr>)) w1"
    let ?w3 = "?w2\<lparr>branch_states := branch_states ?w2 @ [p]\<rparr>"
    have c1: "calm w w1" using w1(2) by (rule still_calm)
    have c3: "calm w1 ?w3" by (auto simp: calm_def upd_state_def push_info_def quiet_def)
    have d1: "bid \<in> dom (BDDeps (cgs_x w1))" "bid \<in> dom (BDDeps (cgs_x ?w3))"
      using Cons.prems calm_dom [OF c1] by simp_all
    obtain wt where wt: "scan_states current bid sid ps kept ?w3 = Some wt" "calm ?w3 wt"
      using Cons.IH [OF d1(2)] by blast
    obtain wf where wf: "scan_states current bid sid ps (kept @ [p]) w1 = Some wf" "calm w1 wf"
      using Cons.IH [OF d1(1)] by blast
    have "calm w wt" "calm w wf"
      using calm_trans [OF c1 calm_trans [OF c3 wt(2)]] calm_trans [OF c1 wf(2)] by auto
    with False w1(1) wt(1) wf(1) show ?thesis by (cases r) (simp_all add: Let_def)
  qed
qed

lemma to_branch_states_still [simp]: "still w (to_branch_states c w)"
  by (simp add: still_def to_branch_states_def)

lemma handlePartly_calm:
  assumes bid: "bid \<in> dom (BDDeps (cgs_x w))"
  shows "\<exists>w'. handlePartlyCoveredBranch (Some c) bid w = Some w' \<and> calm w w'"
proof -
  obtain bd where bd: "BDDeps (cgs_x w) bid = Some bd" using bid by blast
  have "\<exists>w1. foldM (partly_current (Some c) bid) (bd_stores bd) w = Some w1 \<and> calm w w1"
    using bid partly_current_still [of bid _ c] still_calm calm_dom
    by (intro foldM_keeps [where R = "\<lambda>w. BDDeps (cgs_x w)" and P = "\<lambda>m. bid \<in> dom m"])
      (blast intro: calm_trans | simp)+
  then obtain w1 where w1: "foldM (partly_current (Some c) bid) (bd_stores bd) w = Some w1" "calm w w1"
    by blast
  let ?w2 = "to_branch_states c w1"
  have c2: "calm w ?w2" using w1(2) calm_trans still_calm to_branch_states_still by blast
  then have "bid \<in> dom (BDDeps (cgs_x ?w2))" using bid calm_dom by metis
  then have "\<exists>w3. foldM (\<lambda>sid w. scan_states (Some c) bid sid (states w) [] w) (bd_stores bd) ?w2 = Some w3 \<and>
      calm ?w2 w3"
    using scan_states_calm [of bid _ "Some c"] calm_dom
    by (intro foldM_keeps [where R = "\<lambda>w. BDDeps (cgs_x w)" and P = "\<lambda>m. bid \<in> dom m"])
      (blast intro: calm_trans | simp)+
  with bd w1(1) c2 show ?thesis by (auto simp: handlePartlyCoveredBranch_def Let_def intro: calm_trans)
qed

lemma release_store_core:
  "x_core (fst (release_store bid F sid st)) = x_core (fst st) \<and>
   newBranchNumFromStore (fst (release_store bid F sid st)) = newBranchNumFromStore (fst st)"
  by (auto simp: release_store_def Let_def x_core_def split: prod.splits option.splits)

lemma release_stores_core:
  "x_core (fst (fold (release_store bid F) sids st)) = x_core (fst st) \<and>
   newBranchNumFromStore (fst (fold (release_store bid F) sids st)) = newBranchNumFromStore (fst st)"
  by (induction sids arbitrary: st) (simp_all add: release_store_core)

lemma fully_loop_still: "still w (fully_loop c bid rm ps kept w)"
proof (induction c bid rm ps kept w rule: fully_loop.induct)
  case (1 c bid rm kept w)
  then show ?case by (simp add: still_def)
next
  case (2 c bid rm p ps kept w)
  let ?w1 = "upd_state p (forget_branch bid rm) w"
  have s: "still w ?w1" "still w (?w1\<lparr>states := states ?w1 @ [p]\<rparr>)"
    by (auto simp: still_def upd_state_def forget_branch_def)
  show ?case
  proof (cases "p \<noteq> c \<and> branchInfos (heap ?w1 p) = []")
    case True
    with 2(1) [OF refl] s(2) show ?thesis by (simp add: Let_def still_trans)
  next
    case False
    with 2(2) [OF refl] s(1) show ?thesis by (auto simp: Let_def still_trans)
  qed
qed

lemma handleFully_still:
  assumes ok: "exec_ok M fl (cgs_x w)" and bid: "bid \<in> set (fullyCoveredBranches (cgs_x w))"
  shows "\<exists>w'. handleFullyCoveredBranch M c bid w = Some w' \<and> still w w'"
proof -
  have dom: "bid \<in> dom (BDDeps (cgs_x w))"
    using exec_okD(1) [OF ok] bid by (auto simp: lists_ok_def)
  then obtain bd where bd: "BDDeps (cgs_x w) bid = Some bd" by blast
  obtain I ins where I: "ID2BI (cgs_x w) bid = Some I" "inst_at M I = Some ins"
    using exec_okD(2) [OF ok] dom unfolding tables_ok_def by blast
  obtain x1 rm where rs: "fold (release_store bid (i_function ins)) (bd_stores bd) (cgs_x w, {}) = (x1, rm)"
    by fastforce
  have "still w (w\<lparr>cgs_x := x1\<rparr>)"
    using release_stores_core [of bid "i_function ins" "bd_stores bd" "(cgs_x w, {})"] rs by (simp add: still_def)
  then have "still w (fully_loop c bid rm (branch_states w) [] (w\<lparr>cgs_x := x1\<rparr>))"
    using fully_loop_still still_trans by blast
  with bd I rs show ?thesis by (simp add: handleFullyCoveredBranch_def)
qed

subsection \<open>The parts of update\<close>

lemma to_states_still [simp]: "still w (to_states_front c w)" "still w (to_states_back c w)"
  by (simp_all add: still_def to_states_front_def to_states_back_def)

lemma newFully_reset_ok: "exec_ok M fl x \<Longrightarrow> exec_ok M fl (x\<lparr>newFullyCoveredBranch := False\<rparr>)"
  by (simp add: exec_ok_def lists_ok_def tables_ok_def switches_done_def brs_done_def) blast

text \<open>What the part after a reached branch leaves: only the mark \<open>reachBranch\<close> of the current state is gone.\<close>

definition branch_done :: "ir_module \<Rightarrow> (inst_ptr \<Rightarrow> bool) \<Rightarrow> state_ptr \<Rightarrow> cgs_world \<Rightarrow> cgs_world \<Rightarrow> bool" where
  "branch_done M fl c w w' \<longleftrightarrow> exec_ok M fl (cgs_x w') \<and>
     newBranchNumFromStore (cgs_x w') = newBranchNumFromStore (cgs_x w) \<and> \<not> reachBranch (heap w' c) \<and>
     reachStore (heap w' c) = reachStore (heap w c) \<and> (\<forall>p. quiet (heap w p) \<longrightarrow> quiet (heap w' p))"

lemma upd_fully_ok:
  assumes ok: "exec_ok M fl (cgs_x w)" and new: "newFullyCoveredBranch (cgs_x w)"
  shows "\<exists>w'. upd_fully M c w = Some w' \<and> exec_ok M fl (cgs_x w') \<and>
           newBranchNumFromStore (cgs_x w') = newBranchNumFromStore (cgs_x w) \<and>
           (\<forall>p. reachStore (heap w' p) = reachStore (heap w p) \<and> reachBranch (heap w' p) = reachBranch (heap w p))"
proof -
  have ne: "fullyCoveredBranches (cgs_x w) \<noteq> []" using exec_okD(4) [OF ok new] .
  then obtain w1 where w1: "handleFullyCoveredBranch M c (last (fullyCoveredBranches (cgs_x w))) w = Some w1"
      "still w w1"
    using handleFully_still [OF ok, of "last (fullyCoveredBranches (cgs_x w))" c] by auto
  let ?w2 = "if branchInfos (heap w1 c) = [] then to_states_front c w1 else w1"
  have "still w ?w2" using still_trans [OF w1(2) to_states_still(1)] w1(2) by simp
  then have "exec_ok M fl (cgs_x ?w2)" using ok calm_ok still_calm by blast
  with ne w1(1) \<open>still w ?w2\<close> show ?thesis
    by (auto simp: upd_fully_def Let_def still_def newFully_reset_ok)
qed

lemma upd_missed_ok:
  assumes ok: "exec_ok M fl (cgs_x w)"
    and known: "\<And>i. past_branch M (prev_inst (heap w c)) = Some i \<Longrightarrow> Some i \<in> dom (BI2ID (cgs_x w))"
  shows "exec_ok M fl (cgs_x (upd_missed M c w)) \<and>
         newBranchNumFromStore (cgs_x (upd_missed M c w)) = newBranchNumFromStore (cgs_x w) \<and>
         (\<forall>p. reachStore (heap (upd_missed M c w) p) = reachStore (heap w p) \<and>
              reachBranch (heap (upd_missed M c w) p) = reachBranch (heap w p))"
proof -
  obtain b m where m: "map_at 0 (past_branch M (prev_inst (heap w c))) (BI2ID (cgs_x w)) = (b, m)" by fastforce
  have same: "m (Some i) = BI2ID (cgs_x w) (Some i)" for i
    using m known [of i] by (cases "past_branch M (prev_inst (heap w c)) = Some i")
      (auto simp: map_at_def split: option.splits if_splits)
  let ?w1 = "upd_x (\<lambda>x. x\<lparr>BI2ID := m\<rparr>) w"
  let ?w2 = "upd_state c (\<lambda>es. es\<lparr>branchInfos := erase_first (\<lambda>b'. targetBranchID b' = b) (branchInfos es)\<rparr>) ?w1"
  have ok1: "exec_ok M fl (cgs_x ?w1)"
    using ok same by (simp add: exec_ok_def lists_ok_def tables_ok_def switches_done_def brs_done_def) blast
  have "still ?w1 ?w2" by (auto simp: still_def upd_state_def)
  then have s: "still ?w1 (upd_missed M c w)"
    using still_trans [OF _ to_states_still(2)] by (simp add: upd_missed_def m Let_def)
  then have "exec_ok M fl (cgs_x (upd_missed M c w))" using ok1 calm_ok still_calm by blast
  with s show ?thesis by (simp add: still_def)
qed

lemma upd_reachBranch_ok:
  assumes ok: "exec_ok M fl (cgs_x w)" and marks: "marks_ok M c (cgs_x w) (heap w)"
  shows "\<exists>w'. upd_reachBranch M c w = Some w' \<and> branch_done M fl c w w' \<and> (\<not> reachBranch (heap w c) \<longrightarrow> w' = w)"
proof (cases "reachBranch (heap w c)")
  case False
  with ok show ?thesis by (simp add: upd_reachBranch_def branch_done_def)
next
  case True
  have "\<exists>w1. (if newFullyCoveredBranch (cgs_x w) then upd_fully M c w else Some (upd_missed M c w)) = Some w1 \<and>
      exec_ok M fl (cgs_x w1) \<and> newBranchNumFromStore (cgs_x w1) = newBranchNumFromStore (cgs_x w) \<and>
      (\<forall>p. reachStore (heap w1 p) = reachStore (heap w p) \<and> reachBranch (heap w1 p) = reachBranch (heap w p))"
    using upd_fully_ok [OF ok] upd_missed_ok [OF ok, of c] marks True
    by (cases "newFullyCoveredBranch (cgs_x w)") (simp_all add: marks_ok_def)
  then obtain w1 where w1: "(if newFullyCoveredBranch (cgs_x w) then upd_fully M c w else Some (upd_missed M c w)) = Some w1"
      "exec_ok M fl (cgs_x w1)" "newBranchNumFromStore (cgs_x w1) = newBranchNumFromStore (cgs_x w)"
      "\<And>p. reachStore (heap w1 p) = reachStore (heap w p) \<and> reachBranch (heap w1 p) = reachBranch (heap w p)"
    by blast
  have "branch_done M fl c w (upd_state c (\<lambda>es. es\<lparr>reachBranch := False\<rparr>) w1)"
    using w1(2-4) by (auto simp: branch_done_def upd_state_def quiet_def)
  with True w1(1) show ?thesis by (simp add: upd_reachBranch_def)
qed

lemma new_info_loop_ok:
  assumes "\<forall>b\<in>set bs. targetBranchID b \<in> dom (BDDeps (cgs_x w))"
  shows "\<exists>w'. new_info_loop c bs kept w = Some w' \<and> still w w'"
  using assms
proof (induction bs arbitrary: kept w)
  case Nil
  then show ?case by (auto simp: still_def upd_state_def)
next
  case (Cons b bs)
  obtain r w1 where w1: "isNewStoreValue c (targetBranchID b) (reachStoreID b) w = Some (r, w1)" "still w w1"
    using isNewStoreValue_still [of "targetBranchID b" w c "reachStoreID b"] Cons.prems by auto
  let ?w2 = "to_branch_states c w1"
  have s2: "still w ?w2" using w1(2) still_trans to_branch_states_still by blast
  have dom: "BDDeps (cgs_x w1) = BDDeps (cgs_x w)" "BDDeps (cgs_x ?w2) = BDDeps (cgs_x w)"
    using calm_dom still_calm w1(2) s2 by blast+
  obtain wt where wt: "new_info_loop c bs (kept @ [b]) ?w2 = Some wt" "still ?w2 wt"
    using Cons.IH [of ?w2] Cons.prems dom(2) by auto
  obtain wf where wf: "new_info_loop c bs kept w1 = Some wf" "still w1 wf"
    using Cons.IH [of w1] Cons.prems dom(1) by auto
  have "still w wt" "still w wf" using still_trans s2 w1(2) wt(2) wf(2) by blast+
  with w1(1) wt(1) wf(1) show ?case by (cases r) simp_all
qed

lemma upd_reachStore_ok:
  assumes ok: "exec_ok M fl (cgs_x w)"
    and n: "newBranchNumFromStore (cgs_x w) \<noteq> 0 \<Longrightarrow> reachStore (heap w c)"
    and infos: "reachStore (heap w c) \<Longrightarrow> newBranchNumFromStore (cgs_x w) \<le> length (branchInfos (heap w c)) \<and>
      (\<forall>b\<in>set (drop (length (branchInfos (heap w c)) - newBranchNumFromStore (cgs_x w)) (branchInfos (heap w c))).
         targetBranchID b \<in> dom (BDDeps (cgs_x w)))"
    and "\<not> reachBranch (heap w c)"
  shows "\<exists>w'. upd_reachStore c w = Some w' \<and> exec_ok M fl (cgs_x w') \<and> newBranchNumFromStore (cgs_x w') = 0 \<and>
           quiet (heap w' c) \<and> (\<forall>p. quiet (heap w p) \<longrightarrow> quiet (heap w' p))"
proof (cases "reachStore (heap w c)")
  case False
  with assms show ?thesis by (auto simp: upd_reachStore_def quiet_def)
next
  case True
  let ?l = "length (branchInfos (heap w c)) - newBranchNumFromStore (cgs_x w)"
  obtain w1 where w1: "new_info_loop c (drop ?l (branchInfos (heap w c))) (take ?l (branchInfos (heap w c))) w = Some w1"
      "still w w1"
    using new_info_loop_ok [of "drop ?l (branchInfos (heap w c))" w c] infos True by auto
  let ?w2 = "upd_state c (\<lambda>es. es\<lparr>reachStore := False\<rparr>) (upd_x (\<lambda>x. x\<lparr>newBranchNumFromStore := 0\<rparr>) w1)"
  have "x_core (cgs_x ?w2) = x_core (cgs_x w1)" by (simp add: x_core_def)
  then have "exec_ok M fl (cgs_x ?w2)"
    using ok exec_ok_core calm_ok [OF still_calm [OF w1(2)]] by blast
  with True infos w1 assms(4) show ?thesis
    by (auto simp: upd_reachStore_def Let_def still_def quiet_def upd_state_def)
qed

lemma upd_newPartly_ok:
  assumes ok: "exec_ok M fl (cgs_x w)"
  shows "\<exists>w'. upd_newPartly c w = Some w' \<and> calm w w'"
proof (cases "targetBranches (cgs_x w) \<noteq> [] \<and> newPartlyCoveredBranch (cgs_x w)")
  case True
  have "set (targetBranches (cgs_x w)) \<subseteq> dom (BDDeps (cgs_x w))"
    using exec_okD(1) [OF ok] by (simp add: lists_ok_def)
  then have "last (targetBranches (cgs_x w)) \<in> dom (BDDeps (cgs_x w))"
    using True last_in_set by blast
  from handlePartly_calm [OF this] obtain w1 where
    w1: "handlePartlyCoveredBranch (Some c) (last (targetBranches (cgs_x w))) w = Some w1" "calm w w1" by blast
  have "calm w1 (upd_x (\<lambda>x. x\<lparr>newPartlyCoveredBranch := False\<rparr>) w1)"
    by (simp add: calm_def x_core_def)
  with True w1 show ?thesis by (auto simp: upd_newPartly_def intro: calm_trans)
qed (auto simp: upd_newPartly_def)

text \<open>Where \<open>update\<close> expects the current state.\<close>

definition in_front_vector :: "state_ptr \<Rightarrow> cgs_world \<Rightarrow> bool" where
  "in_front_vector c w \<longleftrightarrow> (if branch_states w = [] then c \<in> set (states w) else c \<in> set (branch_states w))"

lemma upd_rotate_ok:
  "in_front_vector c w \<Longrightarrow> \<exists>w'. upd_rotate c w = Some w' \<and> cgs_x w' = cgs_x w \<and> heap w' = heap w"
  by (auto simp: upd_rotate_def in_front_vector_def find_erase_def)

lemma upd_current_ok:
  assumes ok: "exec_ok M fl (cgs_x w)" and marks: "marks_ok M c (cgs_x w) (heap w)" and "in_front_vector c w"
  shows "\<exists>w'. upd_current M c added w = Some w' \<and> exec_ok M fl (cgs_x w') \<and>
           newBranchNumFromStore (cgs_x w') = 0 \<and> quiet (heap w' c) \<and> (\<forall>p. quiet (heap w p) \<longrightarrow> quiet (heap w' p))"
proof -
  obtain w1 where w1: "(if added \<noteq> [] then upd_rotate c w else Some w) = Some w1" "cgs_x w1 = cgs_x w" "heap w1 = heap w"
    using upd_rotate_ok [OF assms(3)] by (cases "added = []") auto
  obtain w2 where w2: "upd_reachBranch M c w1 = Some w2" "branch_done M fl c w1 w2" "\<not> reachBranch (heap w1 c) \<longrightarrow> w2 = w1"
    using upd_reachBranch_ok [of M fl w1 c] ok marks w1(2,3) by auto
  have "\<exists>w3. upd_reachStore c w2 = Some w3 \<and> exec_ok M fl (cgs_x w3) \<and> newBranchNumFromStore (cgs_x w3) = 0 \<and>
      quiet (heap w3 c) \<and> (\<forall>p. quiet (heap w2 p) \<longrightarrow> quiet (heap w3 p))"
  proof (rule upd_reachStore_ok)
    show "exec_ok M fl (cgs_x w2)" "\<not> reachBranch (heap w2 c)" using w2(2) by (auto simp: branch_done_def)
    show "reachStore (heap w2 c)" if "newBranchNumFromStore (cgs_x w2) \<noteq> 0"
      using that w2(2) marks w1(2,3) by (simp add: branch_done_def marks_ok_def)
    assume "reachStore (heap w2 c)"
    then have rs: "reachStore (heap w c)" using w2(2) w1(3) by (simp add: branch_done_def)
    then have "w2 = w1" using marks w1(3) w2(3) by (simp add: marks_ok_def)
    then show "newBranchNumFromStore (cgs_x w2) \<le> length (branchInfos (heap w2 c)) \<and>
      (\<forall>b\<in>set (drop (length (branchInfos (heap w2 c)) - newBranchNumFromStore (cgs_x w2)) (branchInfos (heap w2 c))).
         targetBranchID b \<in> dom (BDDeps (cgs_x w2)))"
      using marks rs w1(2,3) by (simp add: marks_ok_def)
  qed
  then obtain w3 where w3: "upd_reachStore c w2 = Some w3" "exec_ok M fl (cgs_x w3)"
      "newBranchNumFromStore (cgs_x w3) = 0" "quiet (heap w3 c)" "\<forall>p. quiet (heap w2 p) \<longrightarrow> quiet (heap w3 p)"
    by blast
  obtain w4 where w4: "upd_newPartly c w3 = Some w4" "calm w3 w4" using upd_newPartly_ok [OF w3(2)] by blast
  have "exec_ok M fl (cgs_x w4)" using calm_ok [OF w4(2)] w3(2) by simp
  with w1 w2 w3 w4 show ?thesis
    by (auto simp: upd_current_def calm_def branch_done_def)
qed

subsection \<open>Renewing the targets, adding and removing\<close>

lemma clear_loop_still: "still w (clear_loop ps kept w)"
proof (induction ps kept w rule: clear_loop.induct)
  case (1 kept w)
  then show ?case by (simp add: still_def)
next
  case (2 p ps kept w)
  let ?w1 = "upd_state p (\<lambda>es. es\<lparr>branchInfos := []\<rparr>) w"
  have s: "still w ?w1" "still w (?w1\<lparr>states := states ?w1 @ [p]\<rparr>)"
    by (auto simp: still_def upd_state_def)
  show ?case
  proof (cases "coveredNew (heap ?w1 p)")
    case True
    with 2(2) [OF refl] s(1) show ?thesis by (auto simp: Let_def still_trans)
  next
    case False
    with 2(1) [OF refl] s(2) show ?thesis by (simp add: Let_def still_trans)
  qed
qed

lemma take_target_ok:
  assumes ok: "exec_ok M fl x" and room: "length (targetBranches x) < targetBranchNum x"
    and ne: "partlyCoveredBranches x \<noteq> []"
  shows "exec_ok M fl (x\<lparr>partlyCoveredBranches := butlast (partlyCoveredBranches x),
           targetBranches := targetBranches x @ [last (partlyCoveredBranches x)]\<rparr>)"
proof -
  obtain ps b where "partlyCoveredBranches x = ps @ [b]" using butlast_last_cases [OF ne] by blast
  then have "lists_ok (x\<lparr>partlyCoveredBranches := butlast (partlyCoveredBranches x),
           targetBranches := targetBranches x @ [last (partlyCoveredBranches x)]\<rparr>)"
    using exec_okD(1) [OF ok] room by (auto simp: lists_ok_def)
  then show ?thesis using exec_okD(2-5) [OF ok] by (simp add: exec_ok_def tables_ok_def switches_done_def brs_done_def)
qed

text \<open>The part of the world the renewal of the targets keeps.\<close>

definition targets_renewed :: "ir_module \<Rightarrow> (inst_ptr \<Rightarrow> bool) \<Rightarrow> cgs_world \<Rightarrow> cgs_world \<Rightarrow> bool" where
  "targets_renewed M fl w w' \<longleftrightarrow> exec_ok M fl (cgs_x w') \<and>
     newBranchNumFromStore (cgs_x w') = newBranchNumFromStore (cgs_x w) \<and>
     (\<forall>p. quiet (heap w p) \<longrightarrow> quiet (heap w' p))"

lemma refill_targets_ok:
  assumes "exec_ok M fl (cgs_x w)" "length (targetBranches (cgs_x w)) + n \<le> targetBranchNum (cgs_x w)"
  shows "\<exists>w'. refill_targets (Some c) n w = Some w' \<and> targets_renewed M fl w w'"
  using assms
proof (induction n arbitrary: w)
  case 0
  then show ?case by (simp add: targets_renewed_def)
next
  case (Suc n)
  show ?case
  proof (cases "partlyCoveredBranches (cgs_x w) = []")
    case True
    with Suc.prems show ?thesis by (simp add: targets_renewed_def)
  next
    case False
    let ?bid = "last (partlyCoveredBranches (cgs_x w))"
    let ?w1 = "upd_x (\<lambda>x. x\<lparr>partlyCoveredBranches := butlast (partlyCoveredBranches x),
        targetBranches := targetBranches x @ [?bid]\<rparr>) w"
    have ok1: "exec_ok M fl (cgs_x ?w1)"
      using take_target_ok [OF Suc.prems(1) _ False] Suc.prems(2) by simp
    then have "?bid \<in> dom (BDDeps (cgs_x ?w1))"
      using exec_okD(1) [OF ok1] by (auto simp: lists_ok_def)
    from handlePartly_calm [OF this] obtain w2 where
      w2: "handlePartlyCoveredBranch (Some c) ?bid ?w1 = Some w2" "calm ?w1 w2" by blast
    have "targetBranches (cgs_x w2) = targetBranches (cgs_x ?w1)" "targetBranchNum (cgs_x w2) = targetBranchNum (cgs_x ?w1)"
      using w2(2) unfolding calm_def by (blast dest: x_coreD)+
    with Suc.prems(2) have "length (targetBranches (cgs_x w2)) + n \<le> targetBranchNum (cgs_x w2)" by simp
    moreover have "exec_ok M fl (cgs_x w2)" using calm_ok [OF w2(2)] ok1 by simp
    ultimately obtain w3 where "refill_targets (Some c) n w2 = Some w3" "targets_renewed M fl w2 w3"
      using Suc.IH by blast
    with False w2 show ?thesis by (auto simp: Let_def targets_renewed_def calm_def)
  qed
qed

lemma clear_targets_ok: "exec_ok M fl x \<Longrightarrow> exec_ok M fl (x\<lparr>targetBranches := []\<rparr>)"
  by (simp add: exec_ok_def lists_ok_def tables_ok_def switches_done_def brs_done_def) blast

lemma upd_targets_ok:
  assumes "exec_ok M fl (cgs_x w)"
  shows "\<exists>w'. upd_targets (Some c) w = Some w' \<and> targets_renewed M fl w w' \<and> \<not> updateTargetBranch (cgs_x w')"
proof (cases "updateTargetBranch (cgs_x w)")
  case False
  with assms show ?thesis by (simp add: upd_targets_def targets_renewed_def)
next
  case True
  let ?w1 = "clear_loop (branch_states w) [] w"
  let ?w2 = "upd_x (\<lambda>x. x\<lparr>targetBranches := []\<rparr>) ?w1"
  have s: "still w ?w1" by (rule clear_loop_still)
  have "exec_ok M fl (cgs_x ?w2)" using calm_ok [OF still_calm [OF s]] assms clear_targets_ok by simp
  then obtain w3 where w3: "refill_targets (Some c) (targetBranchNum (cgs_x ?w2)) ?w2 = Some w3"
      "targets_renewed M fl ?w2 w3"
    using refill_targets_ok [of M fl ?w2 "targetBranchNum (cgs_x ?w2)"] by auto
  have "x_core (cgs_x (upd_x (\<lambda>x. x\<lparr>updateTargetBranch := False\<rparr>) w3)) = x_core (cgs_x w3)"
    by (simp add: x_core_def)
  from exec_ok_core [OF this, of M fl] True w3 s show ?thesis
    by (auto simp: upd_targets_def Let_def targets_renewed_def still_def quiet_def)
qed

lemma add_state_frame: "cgs_x (add_state M F p w) = cgs_x w" "heap (add_state M F p w) = heap w"
  by (simp_all add: add_state_def)

lemma upd_add_frame: "cgs_x (upd_add M cur added w) = cgs_x w \<and> heap (upd_add M cur added w) = heap w"
proof -
  have "cgs_x (fold (add_state M F) added w) = cgs_x w \<and> heap (fold (add_state M F) added w) = heap w" for F
    by (induction added arbitrary: w) (simp_all add: add_state_frame)
  then show ?thesis by (simp add: upd_add_def split: option.splits)
qed

lemma remove_states_frame:
  "cgs_x (fold remove_state ps w) = cgs_x w \<and> heap (fold remove_state ps w) = heap w"
  by (induction ps arbitrary: w) (simp_all add: remove_state_def)

subsection \<open>update\<close>

lemma cgs_update_ok:
  assumes ok: "exec_ok M fl (cgs_x w)" and marks: "marks_ok M c (cgs_x w) (heap w)" and "in_front_vector c w"
  shows "\<exists>w'. cgs_update M (Some c) added removed w = Some w' \<and> exec_ok M fl (cgs_x w') \<and>
           newBranchNumFromStore (cgs_x w') = (if c \<in> set removed then newBranchNumFromStore (cgs_x w) else 0) \<and>
           \<not> updateTargetBranch (cgs_x w') \<and>
           (\<forall>p. quiet (heap w p) \<longrightarrow> quiet (heap w' p)) \<and> (c \<notin> set removed \<longrightarrow> quiet (heap w' c))"
proof -
  obtain w1 where w1: "(if c \<in> set removed then Some w else upd_current M c added w) = Some w1"
      "exec_ok M fl (cgs_x w1)" "c \<notin> set removed \<longrightarrow> quiet (heap w1 c)" "\<forall>p. quiet (heap w p) \<longrightarrow> quiet (heap w1 p)"
      "newBranchNumFromStore (cgs_x w1) = (if c \<in> set removed then newBranchNumFromStore (cgs_x w) else 0)"
    using upd_current_ok [OF assms(1-3), of added] ok by (cases "c \<in> set removed") auto
  obtain w2 where w2: "upd_targets (Some c) w1 = Some w2" "targets_renewed M fl w1 w2" "\<not> updateTargetBranch (cgs_x w2)"
    using upd_targets_ok [OF w1(2)] by blast
  let ?w3 = "fold remove_state removed (upd_add M (Some c) added w2)"
  have "cgs_x ?w3 = cgs_x w2" "heap ?w3 = heap w2"
    using upd_add_frame remove_states_frame by simp_all
  with w1 w2 show ?thesis by (auto simp: cgs_update_def targets_renewed_def)
qed

lemma cgs_update_no_current:
  assumes "\<not> updateTargetBranch (cgs_x w)"
  shows "\<exists>w'. cgs_update M None added removed w = Some w' \<and> cgs_x w' = cgs_x w \<and> heap w' = heap w"
  using assms upd_add_frame remove_states_frame by (simp add: cgs_update_def upd_targets_def)

subsection \<open>The loop\<close>

text \<open>What the statistics say of a branch, and the invariant of the loop.\<close>

definition full_br :: "tracker_config \<Rightarrow> branch_stats \<Rightarrow> inst_ptr \<Rightarrow> bool" where
  "full_br tc st i \<longleftrightarrow> isFullyCovered tc st i = Some True"

definition loop_inv :: "ir_module \<Rightarrow> tracker_config \<Rightarrow> cgs_world \<times> branch_stats \<Rightarrow> bool" where
  "loop_inv M tc ws \<longleftrightarrow>
     (case ws of (w, st) \<Rightarrow> cgs_distinct w \<and> exec_ok M (full_br tc st) (cgs_x w) \<and> (\<forall>p\<in>cgs_managed w. quiet (heap w p)))"

definition loop_ok :: "ir_module \<Rightarrow> tracker_config \<Rightarrow> cgs_world \<times> branch_stats \<Rightarrow> bool" where
  "loop_ok M tc ws \<longleftrightarrow> loop_inv M tc ws \<and> newBranchNumFromStore (cgs_x (fst ws)) = 0"

lemma isFullyCovered_eq: "useStatistics tc \<Longrightarrow> isFullyCovered tc st = (\<lambda>i. Some (full_br tc st i))"
  by (simp add: full_br_def isFullyCovered_def fun_eq_iff)

lemma full_br_mono:
  "(\<And>i. st_fullBranches st i \<noteq> 0 \<Longrightarrow> st_fullBranches st' i \<noteq> 0) \<Longrightarrow> full_br tc st i \<Longrightarrow> full_br tc st' i"
  by (auto simp: full_br_def isFullyCovered_def split: if_splits)

lemma fork_states_frame:
  "cgs_x (fold (fork_state c) added w) = cgs_x w \<and> states (fold (fork_state c) added w) = states w \<and>
   branch_states (fold (fork_state c) added w) = branch_states w"
  by (induction added arbitrary: w) (auto simp: fork_state_def split: prod.splits)

lemma fork_state_heap:
  "heap (fork_state c (q, bb, F) w) = (heap w)(q := (heap w c)\<lparr>coveredNew := False, pc_bb := bb, pc_func := F\<rparr>)"
  by (simp add: fork_state_def upd_state_def)

lemma fork_states_current:
  "c \<notin> set (map fst added) \<Longrightarrow> heap (fold (fork_state c) added w) c = heap w c"
proof (induction added arbitrary: w)
  case (Cons a added)
  then show ?case using Cons.IH [of "fork_state c a w"] by (cases a) (auto simp: fork_state_heap)
qed simp

lemma fork_states_quiet:
  "c \<notin> set (map fst added) \<Longrightarrow> quiet (heap w c) \<Longrightarrow> quiet (heap w p) \<or> p \<in> set (map fst added) \<Longrightarrow>
   quiet (heap (fold (fork_state c) added w) p)"
proof (induction added arbitrary: w)
  case (Cons a added)
  obtain q bb F where a: "a = (q, bb, F)" by (cases a)
  have "quiet (heap (fork_state c a w) c)"
    using Cons.prems(2) by (auto simp: a fork_state_heap quiet_def)
  moreover have "quiet (heap (fork_state c a w) p) \<or> p \<in> set (map fst added)"
    using Cons.prems(2,3) by (cases "p = q") (auto simp: a fork_state_heap quiet_def)
  ultimately show ?case using Cons.IH [of "fork_state c a w"] Cons.prems(1) by simp
qed simp

lemma select_in_front: "cgs_selectState w = Some (c, w') \<Longrightarrow> w' = w \<and> in_front_vector c w \<and> c \<in> cgs_managed w"
  by (auto simp: cgs_selectState_def in_front_vector_def cgs_managed_def split: if_splits)

lemma tick_ok: "exec_ok M fl (x\<lparr>updateTargetBranch := b\<rparr>) = exec_ok M fl x"
  by (rule exec_ok_core) (simp add: x_core_def)

lemma cgs_managed_cong: "states w' = states w \<Longrightarrow> branch_states w' = branch_states w \<Longrightarrow>
  cgs_managed w' = cgs_managed w \<and> cgs_distinct w' = cgs_distinct w"
  by (simp add: cgs_managed_def cgs_distinct_def)

lemma mark_branch_frame:
  assumes "mark_branch tc ci (w, st) = (w', st')"
  shows "cgs_x w' = cgs_x w \<and> states w' = states w \<and> branch_states w' = branch_states w \<and>
      (\<forall>p. branchInfos (heap w' p) = branchInfos (heap w p) \<and> reachStore (heap w' p) = reachStore (heap w p) \<and>
         reachBranch (heap w' p) = reachBranch (heap w p) \<and> prev_inst (heap w' p) = prev_inst (heap w p)) \<and>
      (\<forall>i. st_fullBranches st i \<noteq> 0 \<longrightarrow> st_fullBranches st' i \<noteq> 0)"
proof (cases ci)
  case (IBr inp)
  obtain st1 h1 where m: "markBranchVisited (tc_OutputIStats tc) (br_i inp) (br_first inp) (br_second inp) st (heap w)
      = (st1, h1)" by fastforce
  from markBranchVisited_frame [OF m]
    markBranchVisited_full_mono [of st _ "tc_OutputIStats tc" "br_i inp" "br_first inp" "br_second inp" "heap w"]
  show ?thesis using assms m by (auto simp: IBr mark_branch_def)
qed (use assms in \<open>simp_all add: mark_branch_def\<close>)

text \<open>
  The instruction begins: the statistics are counted, states are forked. Only marks of coverage and the
  program counters change on the states that were there.
\<close>

lemma begin_instr_ok:
  assumes new: "c \<notin> set (map fst (r_added ri))" and q: "quiet (heap w c)"
    and b: "begin_instr tc c ri (w, st) = (w0, st0)"
  shows "cgs_x w0 = cgs_x w \<and> states w0 = states w \<and> branch_states w0 = branch_states w \<and>
     prev_inst (heap w0 c) = cgs_inst (r_instr ri) \<and> branchInfos (heap w0 c) = branchInfos (heap w c) \<and>
     (\<forall>p. quiet (heap w p) \<or> p \<in> set (map fst (r_added ri)) \<longrightarrow> quiet (heap w0 p)) \<and>
     (\<forall>i. full_br tc st i \<longrightarrow> full_br tc st0 i)"
proof -
  obtain st1 es where t: "tracker_stepInstruction tc (cgs_inst (r_instr ri)) st (heap w c) = (st1, es)" by fastforce
  note tf = tracker_stepInstruction_frame [OF t]
  define w1 where "w1 = upd_state c (\<lambda>_. es\<lparr>prev_inst := cgs_inst (r_instr ri), pc_bb := fst (r_pos ri),
    pc_func := snd (r_pos ri)\<rparr>) w"
  let ?w2 = "fold (fork_state c) (r_added ri) w1"
  have q1: "quiet (heap w1 p)" if "quiet (heap w p)" for p
    using that q tf by (cases "p = c") (auto simp: w1_def quiet_def)
  have fr: "cgs_x ?w2 = cgs_x w" "states ?w2 = states w" "branch_states ?w2 = branch_states w"
    using fork_states_frame [of c "r_added ri" w1] by (simp_all add: w1_def)
  have c2: "heap ?w2 c = heap w1 c" by (rule fork_states_current [OF new])
  have q2: "quiet (heap ?w2 p)" if "quiet (heap w p) \<or> p \<in> set (map fst (r_added ri))" for p
    using that q1 q by (intro fork_states_quiet [OF new]) auto
  have "mark_branch tc (r_instr ri) (?w2, st1) = (w0, st0)"
    using b by (simp add: begin_instr_def step_state_def t w1_def)
  note mark = mark_branch_frame [OF this]
  have "full_br tc st i \<longrightarrow> full_br tc st0 i" for i
    using mark tf full_br_mono [of st st0 tc i] by auto
  moreover have "prev_inst (heap w1 c) = cgs_inst (r_instr ri)" "branchInfos (heap w1 c) = branchInfos (heap w c)"
    using tf by (simp_all add: w1_def)
  moreover have "quiet (heap w0 p)" if "quiet (heap ?w2 p)" for p
    using that mark by (simp add: quiet_def)
  ultimately show ?thesis using mark fr q2 by (simp add: c2)
qed

text \<open>The first half of a round: the instruction and the call of \<open>update\<close> after it.\<close>

lemma round_first_half:
  assumes inv: "loop_ok M tc (w, st)" and stats: "useStatistics tc" and sel: "cgs_selectState w = Some (c, w)"
    and valid: "valid_instr M c (r_instr ri)"
    and upd: "valid_update (cgs_managed w) (map fst (r_added ri)) (r_removed ri)"
    and b: "begin_instr tc c ri (w, st) = (w0, st0)"
  shows "\<exists>w1 w2. exec_instr M iter tc st0 c (r_instr ri) w0 = Some w1 \<and>
    cgs_update M (Some c) (map fst (r_added ri)) (r_removed ri) w1 = Some w2 \<and> loop_inv M tc (w2, st0) \<and>
    \<not> updateTargetBranch (cgs_x w2) \<and>
    newBranchNumFromStore (cgs_x w2) = (if c \<in> set (r_removed ri) then store_hits (cgs_x w) (r_instr ri) else 0) \<and>
    cgs_managed w2 = cgs_managed w \<union> set (map fst (r_added ri)) - set (r_removed ri)"
proof -
  note front = select_in_front [OF sel]
  have new: "c \<notin> set (map fst (r_added ri))" using upd front by (auto simp: valid_update_def)
  have qc: "quiet (heap w c)" using inv front by (simp add: loop_ok_def loop_inv_def)
  note begin_ok = begin_instr_ok [OF new qc b]
  have quiet0: "quiet (heap w0 p)" if "p \<in> cgs_managed w \<union> set (map fst (r_added ri))" for p
    using that inv begin_ok by (auto simp: loop_ok_def loop_inv_def)
  have ok: "exec_ok M (full_br tc st0) (cgs_x w0)" "newBranchNumFromStore (cgs_x w0) = 0"
    using inv begin_ok by (auto simp: loop_ok_def loop_inv_def intro: exec_ok_mono)
  have c0: "quiet (heap w0 c)" "prev_inst (heap w0 c) = cgs_inst (r_instr ri)"
    using quiet0 [of c] front begin_ok by simp_all
  obtain w1 where w1: "exec_instr M iter tc st0 c (r_instr ri) w0 = Some w1" "exec_ok M (full_br tc st0) (cgs_x w1)"
      "marks_ok M c (cgs_x w1) (heap w1)" "\<forall>r. r \<noteq> c \<longrightarrow> heap w1 r = heap w0 r"
      "states w1 = states w0" "branch_states w1 = branch_states w0"
      "newBranchNumFromStore (cgs_x w1) = store_hits (cgs_x w0) (r_instr ri)"
    using exec_instr_ok [OF isFullyCovered_eq [OF stats] ok(1) c0(1) ok(2) valid c0(2), of iter] by blast
  have same: "cgs_managed w1 = cgs_managed w" "cgs_distinct w1 = cgs_distinct w"
    using cgs_managed_cong [of w1 w] w1(5,6) begin_ok by simp_all
  have fv: "in_front_vector c w1" using front w1(5,6) begin_ok by (simp add: in_front_vector_def)
  obtain w2 where w2: "cgs_update M (Some c) (map fst (r_added ri)) (r_removed ri) w1 = Some w2"
      "exec_ok M (full_br tc st0) (cgs_x w2)" "\<not> updateTargetBranch (cgs_x w2)"
      "newBranchNumFromStore (cgs_x w2) = (if c \<in> set (r_removed ri) then newBranchNumFromStore (cgs_x w1) else 0)"
      "\<forall>p. quiet (heap w1 p) \<longrightarrow> quiet (heap w2 p)" "c \<notin> set (r_removed ri) \<longrightarrow> quiet (heap w2 c)"
    using cgs_update_ok [OF w1(2,3) fv] by blast
  have "cgs_distinct w1" using inv same(2) by (simp add: loop_ok_def loop_inv_def)
  from cgs_update_managed [OF this _ w2(1)] upd same(1) have
    m2: "cgs_distinct w2" "cgs_managed w2 = cgs_managed w \<union> set (map fst (r_added ri)) - set (r_removed ri)"
    by simp_all
  have "quiet (heap w2 p)" if p: "p \<in> cgs_managed w2" for p
  proof (cases "p = c")
    case True
    with p m2(2) w2(6) show ?thesis by simp
  next
    case False
    with p m2(2) quiet0 [of p] w1(4) w2(5) show ?thesis by simp
  qed
  with w1(1,7) w2 m2 begin_ok show ?thesis by (simp add: loop_inv_def)
qed

text \<open>A whole round returns; what it leaves of \<open>newBranchNumFromStore\<close> is what a terminating store noted.\<close>

lemma cgs_round_returns:
  assumes inv: "loop_ok M tc (w, st)" and stats: "useStatistics tc" and valid: "valid_round M w ri"
    and sel: "cgs_selectState w = Some (c, w)"
  shows "\<exists>w' st'. cgs_round M iter tc ri (w, st) = Some (w', st') \<and> loop_inv M tc (w', st') \<and>
    newBranchNumFromStore (cgs_x w') = (if c \<in> set (r_removed ri) then store_hits (cgs_x w) (r_instr ri) else 0)"
proof -
  obtain w0 st0 where b: "begin_instr tc c ri (w, st) = (w0, st0)" by fastforce
  let ?n = "if c \<in> set (r_removed ri) then store_hits (cgs_x w) (r_instr ri) else 0"
  from round_first_half [OF inv stats sel _ _ b, of iter] valid sel obtain w1 w2 where
    w1: "exec_instr M iter tc st0 c (r_instr ri) w0 = Some w1" and
    w2: "cgs_update M (Some c) (map fst (r_added ri)) (r_removed ri) w1 = Some w2" "loop_inv M tc (w2, st0)"
      "\<not> updateTargetBranch (cgs_x w2)" "newBranchNumFromStore (cgs_x w2) = ?n"
      "cgs_managed w2 = cgs_managed w \<union> set (map fst (r_added ri)) - set (r_removed ri)"
    by (auto simp: valid_round_def)
  obtain w3 where w3: "(case r_memory ri of None \<Rightarrow> Some w2 | Some ps \<Rightarrow> cgs_update M None [] ps w2) = Some w3"
      "loop_inv M tc (w3, st0)" "newBranchNumFromStore (cgs_x w3) = ?n"
  proof (cases "r_memory ri")
    case None
    with w2(2,4) that show thesis by simp
  next
    case (Some ps)
    obtain w3 where u: "cgs_update M None [] ps w2 = Some w3" "cgs_x w3 = cgs_x w2" "heap w3 = heap w2"
      using cgs_update_no_current [OF w2(3)] by blast
    have "cgs_distinct w3 \<and> cgs_managed w3 = cgs_managed w2 \<union> set [] - set ps"
      using valid sel Some w2(2,5) by (intro cgs_update_managed [OF _ _ u(1)]) (auto simp: valid_round_def loop_inv_def)
    with u w2(2,4) Some that show thesis by (auto simp: loop_inv_def)
  qed
  let ?w4 = "if r_tick ri then upd_x (\<lambda>x. x\<lparr>updateTargetBranch := True\<rparr>) w3 else w3"
  have "cgs_round M iter tc ri (w, st) = Some (?w4, st0)"
    using sel b w1 w2(1) w3(1) by (simp add: cgs_round_def end_round_def)
  moreover have "loop_inv M tc (?w4, st0)"
    using w3(2) cgs_managed_cong [of "upd_x (\<lambda>x. x\<lparr>updateTargetBranch := True\<rparr>) w3" w3]
    by (auto simp: loop_inv_def tick_ok)
  ultimately show ?thesis using w3(3) by auto
qed

lemma valid_selects:
  assumes "valid_round M w ri"
  obtains c where "cgs_selectState w = Some (c, w)"
  using assms select_in_front by (auto simp: valid_round_def split: option.splits)

lemma round_ok:
  assumes inv: "loop_ok M tc ws" and "useStatistics tc" and valid: "valid_round M (fst ws) ri"
    and keep: "round_keeps_store (fst ws) ri"
  shows "\<exists>ws'. cgs_round M iter tc ri ws = Some ws' \<and> loop_ok M tc ws'"
proof -
  obtain w st where ws: "ws = (w, st)" by (cases ws)
  from valid obtain c where sel: "cgs_selectState w = Some (c, w)" unfolding ws by (auto elim: valid_selects)
  from cgs_round_returns [OF _ assms(2) _ sel, of M st ri iter] inv valid keep sel show ?thesis
    by (auto simp: ws loop_ok_def round_keeps_store_def split: if_splits)
qed

lemma loaded_exec_ok: "loaded M x \<Longrightarrow> exec_ok M fl x"
  by (simp add: loaded_def exec_ok_def lists_ok_def switches_done_def brs_done_def)

lemma reach_loop_ok:
  assumes "cgs_reach M iter tc x0 ws" and "loaded M x0" and "useStatistics tc"
  shows "loop_ok M tc ws"
  using assms
proof (induction rule: cgs_reach.induct)
  case (start ps w)
  then have "\<not> updateTargetBranch (cgs_x (init_world x0))" by (simp add: loaded_def init_world_def)
  from cgs_update_no_current [OF this, of M ps "[]"] start(2) have
    w: "cgs_x w = x0" "heap w = (\<lambda>_. new_state)" by (auto simp: init_world_def)
  have "cgs_distinct w \<and> cgs_managed w = cgs_managed (init_world x0) \<union> set ps - set []"
    using start(1) by (intro cgs_update_managed [OF _ _ start(2)])
      (auto simp: cgs_distinct_def init_world_def valid_update_def cgs_managed_def)
  with w start(3) loaded_exec_ok show ?case
    by (simp add: loop_ok_def loop_inv_def loaded_def quiet_def new_state_def)
next
  case (round ws ri ws')
  with round_ok [of M tc ws ri iter] show ?case by simp
qed

text \<open>
  What a terminating store leaves: \<open>newBranchNumFromStore\<close> counts entries of a state that is gone, and a
  state with fewer entries makes the loop of \<open>update\<close> over the new entries start before the first one.
\<close>

lemma noted_store_stuck:
  assumes inv: "loop_inv M tc (w, st)" and sel: "cgs_selectState w = Some (c, w)"
    and upd: "valid_update (cgs_managed w) (map fst (r_added ri)) (r_removed ri)"
    and stays: "c \<notin> set (r_removed ri)" and hits: "store_hits (cgs_x w) (r_instr ri) > 0"
    and few: "length (branchInfos (heap w c)) < newBranchNumFromStore (cgs_x w)"
  shows "cgs_round M iter tc ri (w, st) = None"
proof -
  note front = select_in_front [OF sel]
  have new: "c \<notin> set (map fst (r_added ri))" using upd front by (auto simp: valid_update_def)
  have qc: "quiet (heap w c)" using inv front by (simp add: loop_inv_def)
  obtain w0 st0 where b: "begin_instr tc c ri (w, st) = (w0, st0)" by fastforce
  note begin_ok = begin_instr_ok [OF new qc b]
  obtain si v where ci: "r_instr ri = IStore si v" using hits by (cases "r_instr ri") simp_all
  have "lists_ok (cgs_x w0)" "quiet (heap w0 c)"
    using inv begin_ok qc by (auto simp: loop_inv_def exec_ok_def)
  from store_handler_hits [of "cgs_x w0" "heap w0" c iter si v, OF this] obtain x' h' where
    sh: "store_handler iter si v c (cgs_x w0) (heap w0) = Some (x', h')"
      "newBranchNumFromStore x' = newBranchNumFromStore (cgs_x w0) + store_hits (cgs_x w0) (IStore si v)"
      "length (branchInfos (h' c)) \<le> length (branchInfos (heap w0 c)) + store_hits (cgs_x w0) (IStore si v)"
      "reachStore (h' c)" "\<not> reachBranch (h' c)"
    using hits begin_ok ci by auto
  let ?w1 = "w0\<lparr>cgs_x := x', heap := h'\<rparr>"
  have "in_front_vector c ?w1" using front begin_ok by (simp add: in_front_vector_def)
  from upd_rotate_ok [OF this] obtain w2 where
    w2: "(if map fst (r_added ri) \<noteq> [] then upd_rotate c ?w1 else Some ?w1) = Some w2" "cgs_x w2 = x'" "heap w2 = h'"
    by (cases "map fst (r_added ri) = []") auto
  have "length (branchInfos (h' c)) < newBranchNumFromStore x'" using sh(2,3) few begin_ok by simp
  then have "upd_reachStore c w2 = None" using sh(4) w2(2,3) by (simp add: upd_reachStore_def Let_def)
  moreover have "upd_reachBranch M c w2 = Some w2" using sh(5) w2(3) by (simp add: upd_reachBranch_def)
  ultimately have "cgs_update M (Some c) (map fst (r_added ri)) (r_removed ri) ?w1 = None"
    using stays w2(1) by (simp add: cgs_update_def upd_current_def)
  then show ?thesis using sel b ci sh(1) by (simp add: cgs_round_def exec_instr_def end_round_def)
qed

subsection \<open>An example module\<close>

text \<open>
  One store (instruction 0) of the variable that the branch (instruction 2) compares with 5, all in
  block 0 of function 0; the tables as they are loaded for it. Every statistic is on.
\<close>

definition ex_module :: ir_module where
  "ex_module =
     [\<lparr>i_op = OpStore, i_operands = [], i_type = TVoid, i_parent = 0, i_function = 0\<rparr>,
      \<lparr>i_op = OpICmp ICMP_EQ, i_operands = [VOther 0 (TInteger 32), VConstantInt 32 5], i_type = TInteger 1,
       i_parent = 0, i_function = 0\<rparr>,
      \<lparr>i_op = OpBr True, i_operands = [VInst 1], i_type = TVoid, i_parent = 0, i_function = 0\<rparr>]"

definition ex_tables :: cgs_exec where
  "ex_tables = (init_exec 10 64)\<lparr>ID2BI := [1 \<mapsto> 2], BI2ID := [Some 2 \<mapsto> 1], ID2SI := [7 \<mapsto> 0],
     SI2ID := (\<lambda>i. if i = 0 then 7 else 0), storetTobranches := (\<lambda>_. {})(7 := {1}),
     BDDeps := [1 \<mapsto> new_BDDep\<lparr>bd_id := 1, bd_inst := 2, bd_stores := [7], bd_pred := ICMP_EQ\<rparr>],
     funcStores := (\<lambda>_. [])(0 := [0])\<rparr>"

definition all_stats :: tracker_config where
  "all_stats = \<lparr>tc_OutputStats = True, tc_OutputIStats = True, tc_unreachable = (\<lambda>_. False),
     tc_previous = (\<lambda>_. None), tc_calls_noreturn = (\<lambda>_. False)\<rparr>"

definition ex_br :: "bool \<Rightarrow> round_input" where
  "ex_br tick = \<lparr>r_instr = IBr \<lparr>br_i = 2, br_cond_constant = True, br_first = None, br_second = Some 0,
       br_v1 = Some 3, br_v2 = Some 5\<rparr>,
     r_pos = (1, 0), r_added = [], r_removed = [], r_memory = None, r_tick = tick\<rparr>"

definition ex_store :: "u64 \<Rightarrow> state_ptr list \<Rightarrow> round_input" where
  "ex_store v removed = \<lparr>r_instr = IStore 0 (Some v), r_pos = (0, 0), r_added = [], r_removed = removed,
     r_memory = None, r_tick = False\<rparr>"

definition ex_start_world :: "cgs_world \<times> branch_stats" where
  "ex_start_world = ((init_world ex_tables)\<lparr>states := [0, 1]\<rparr>, init_stats all_stats)"

text \<open>The world after the first round: state 0 took the side of the branch that 3 takes.\<close>

definition ex_world :: "bool \<Rightarrow> cgs_world \<times> branch_stats" where
  "ex_world tick = the (cgs_round ex_module (\<lambda>_. []) all_stats (ex_br tick) ex_start_world)"

lemmas ex_eval = ex_module_def ex_tables_def ex_br_def ex_store_def init_world_def init_exec_def new_state_def
  new_BDDep_def cgs_round_def cgs_selectState_def begin_instr_def step_state_def mark_branch_def exec_instr_def
  end_round_def br_handler_def br_concrete_def all_stats_def init_stats_def isFullyCovered_def useStatistics_def
  tracker_stepInstruction_def instructionIsCoverable_def cover_instruction_def markBranchVisited_def mark_new_def
  visit_false_def count_side_def ex_start_world_def
  reach_target_def br_partly_def count_visit_def record_branch_def inst_at_def enlist_def record_var_left_def
  is_ConstantInt_def arith_scan.simps operand_insts_def store_handler_def store_target_def
  cgs_update_def upd_current_def upd_reachBranch_def upd_reachStore_def upd_newPartly_def
  handlePartlyCoveredBranch_def partly_current_def push_info_def to_branch_states_def upd_targets_def upd_add_def
  remove_state_def upd_state_def upd_x_def Let_def isNewStoreValue_def

lemma ex_loaded: "loaded ex_module ex_tables" and ex_stats: "useStatistics all_stats"
  by (auto simp: loaded_def tables_ok_def ex_module_def ex_tables_def init_exec_def inst_at_def marked_br_def
      icmp_one_constant_def is_ConstantInt_def useStatistics_def all_stats_def split: if_splits)

lemma ex_start: "cgs_update ex_module None [0, 1] [] (init_world ex_tables) =
    Some ((init_world ex_tables)\<lparr>states := [0, 1]\<rparr>)"
  by (simp add: cgs_update_def upd_targets_def upd_add_def init_world_def ex_tables_def init_exec_def)

lemma ex_reach_start: "cgs_reach ex_module iter all_stats ex_tables ex_start_world"
  unfolding ex_start_world_def using cgs_reach.start [OF _ ex_start] by simp

lemma ex_valid_br: "valid_round ex_module (fst ex_start_world) (ex_br tick)"
  by (simp add: valid_round_def cgs_selectState_def init_world_def ex_br_def is_br_def ex_module_def
      inst_at_def ex_tables_def init_exec_def valid_update_def ex_start_world_def)

lemma ex_round: "cgs_round ex_module (\<lambda>_. []) all_stats (ex_br tick) ex_start_world = Some (ex_world tick)"
  unfolding ex_world_def by (simp add: ex_eval)

lemma ex_world_lists:
  "states (fst (ex_world tick)) = [1]" "branch_states (fst (ex_world tick)) = [0]"
  "coveredNew (heap (fst (ex_world tick)) 0)" "updateTargetBranch (cgs_x (fst (ex_world tick))) = tick"
  "targetBranches (cgs_x (fst (ex_world tick))) = [1]"
  unfolding ex_world_def by (simp_all add: ex_eval)

lemma ex_reach: "cgs_reach ex_module (\<lambda>_. []) all_stats ex_tables (ex_world tick)"
  by (rule cgs_reach.round [OF ex_reach_start ex_valid_br _ ex_round])
    (simp add: round_keeps_store_def cgs_selectState_def ex_br_def ex_start_world_def init_world_def)

lemma ex_select: "cgs_selectState (fst (ex_world tick)) = Some (0, fst (ex_world tick))"
  by (simp add: cgs_selectState_def ex_world_lists)

lemma ex_valid_store:
  "set removed \<subseteq> {0, 1} \<Longrightarrow> distinct removed \<Longrightarrow> valid_round ex_module (fst (ex_world tick)) (ex_store v removed)"
  by (auto simp: valid_round_def ex_select valid_update_def cgs_managed_def ex_world_lists ex_store_def)

text \<open>
  C2. The interpreter loop with the CGS searcher never gets stuck: in every world the loop reaches, with
  at least one state left, whatever the next instruction is, whichever states it forks and terminates,
  and whatever \<open>checkMemoryUsage\<close> terminates, the round returns: no null dereference, no
  \<open>erase(end())\<close>, no iterator out of range, no failed assertion of the handlers. The conditions are that
  statistics are in use (the array the executor reads is a null pointer otherwise), and that no store that
  a target branch takes note of terminates the state that executes it, in the rounds before and in this one.
\<close>

theorem cgs_loop_never_stuck:
  assumes "cgs_reach M iter tc x0 ws" and "loaded M x0" and "useStatistics tc"
    and "valid_round M (fst ws) ri" and "round_keeps_store (fst ws) ri"
  shows "\<exists>ws'. cgs_round M iter tc ri ws = Some ws'"
  using round_ok [OF reach_loop_ok [OF assms(1-3)] assms(3-5)] by blast

text \<open>
  At the world after one round, with state 0 among the branch states and marked as covering new code, and a
  second round that renews the targets.
\<close>

theorem cgs_loop_never_stuck_witness:
  "branch_states (fst (ex_world True)) = [0] \<and> coveredNew (heap (fst (ex_world True)) 0) \<and>
   updateTargetBranch (cgs_x (fst (ex_world True))) \<and>
   (\<exists>ws'. cgs_round ex_module (\<lambda>_. []) all_stats (ex_store 3 []) (ex_world True) = Some ws')"
proof -
  have "round_keeps_store (fst (ex_world True)) (ex_store 3 [])"
    by (simp add: round_keeps_store_def ex_select ex_store_def)
  from cgs_loop_never_stuck [OF ex_reach ex_loaded ex_stats ex_valid_store this] show ?thesis
    by (simp add: ex_world_lists)
qed

text \<open>
  C3. In every world that the loop reaches (from loaded tables, with statistics in use, by rounds in which no
  store that a target branch takes note of terminates the state that executes it) no state is held twice,
  the lists of target, partly and fully covered branches are disjoint and without duplicates (so a covered
  branch is never a target again), there are at most \<open>targetBranchNum\<close> targets, no state the searcher holds
  carries a mark that \<open>update\<close> has not dealt with, and a listed fully covered \<open>br\<close> is one whose statistic
  \<open>fullBranches\<close> is set.
\<close>

theorem cgs_loop_invariant:
  assumes "cgs_reach M iter tc x0 (w, st)" and "loaded M x0" and "useStatistics tc"
  shows "distinct (states w @ branch_states w) \<and>
         distinct (targetBranches (cgs_x w) @ partlyCoveredBranches (cgs_x w) @ fullyCoveredBranches (cgs_x w)) \<and>
         length (targetBranches (cgs_x w)) \<le> targetBranchNum (cgs_x w) \<and>
         newBranchNumFromStore (cgs_x w) = 0 \<and>
         (\<forall>p\<in>set (states w) \<union> set (branch_states w). \<not> reachStore (heap w p) \<and> \<not> reachBranch (heap w p)) \<and>
         (\<forall>bid\<in>set (fullyCoveredBranches (cgs_x w)). \<forall>i. ID2BI (cgs_x w) bid = Some i \<and> is_br M i \<longrightarrow>
            isFullyCovered tc st i = Some True)"
proof -
  have "loop_ok M tc (w, st)" using reach_loop_ok [OF assms] .
  then have "cgs_distinct w" "lists_ok (cgs_x w)" "newBranchNumFromStore (cgs_x w) = 0"
    "\<forall>p\<in>cgs_managed w. quiet (heap w p)" "brs_done M (full_br tc st) (cgs_x w)"
    by (auto simp: loop_ok_def loop_inv_def exec_ok_def)
  then show ?thesis
    by (auto simp: cgs_distinct_def lists_ok_def cgs_managed_def quiet_def brs_done_def full_br_def)
qed

theorem cgs_loop_invariant_witness:
  "let (w, st) = ex_world True in
   branch_states w = [0] \<and> targetBranches (cgs_x w) = [1] \<and> coveredNew (heap w 0) \<and>
   distinct (states w @ branch_states w) \<and>
   distinct (targetBranches (cgs_x w) @ partlyCoveredBranches (cgs_x w) @ fullyCoveredBranches (cgs_x w)) \<and>
   length (targetBranches (cgs_x w)) \<le> targetBranchNum (cgs_x w) \<and> newBranchNumFromStore (cgs_x w) = 0 \<and>
   (\<forall>p\<in>set (states w) \<union> set (branch_states w). \<not> reachStore (heap w p) \<and> \<not> reachBranch (heap w p))"
proof -
  obtain w st where ws: "ex_world True = (w, st)" by fastforce
  from cgs_loop_invariant [OF ex_reach [of True, unfolded ws] ex_loaded ex_stats] ex_world_lists [of True] show ?thesis
    by (simp add: ws)
qed

text \<open>
  C36. What happens when a store that target branches take note of terminates the state that executes it (an
  out-of-bounds store): the round itself returns, but \<open>newBranchNumFromStore\<close> keeps the number of branches that took
  note; and the next store that a target branch takes note of, executed by a surviving state with fewer branch
  entries than that number, makes \<open>update\<close> start its loop before the beginning of \<open>branchInfos\<close>.
\<close>

theorem terminating_store_breaks_update:
  assumes "cgs_reach M iter tc x0 (w, st)" and "loaded M x0" and "useStatistics tc" and "valid_round M w ri"
    and "cgs_selectState w = Some (c, w)" and "c \<in> set (r_removed ri)"
    and n: "n = store_hits (cgs_x w) (r_instr ri)" "0 < n"
  shows "\<exists>w1 st1. cgs_round M iter tc ri (w, st) = Some (w1, st1) \<and> newBranchNumFromStore (cgs_x w1) = n \<and>
    (\<forall>ri' c'. valid_round M w1 ri' \<and> cgs_selectState w1 = Some (c', w1) \<and> c' \<notin> set (r_removed ri') \<and>
       0 < store_hits (cgs_x w1) (r_instr ri') \<and> length (branchInfos (heap w1 c')) < n \<longrightarrow>
       cgs_round M iter tc ri' (w1, st1) = None)"
proof -
  from cgs_round_returns [OF reach_loop_ok [OF assms(1-3)] assms(3-5), of iter] assms(6) n(1) obtain w1 st1 where
    1: "cgs_round M iter tc ri (w, st) = Some (w1, st1)" "loop_inv M tc (w1, st1)" "newBranchNumFromStore (cgs_x w1) = n"
    by auto
  moreover have "cgs_round M iter tc ri' (w1, st1) = None"
    if "valid_round M w1 ri'" "cgs_selectState w1 = Some (c', w1)" "c' \<notin> set (r_removed ri')"
      "0 < store_hits (cgs_x w1) (r_instr ri')" "length (branchInfos (heap w1 c')) < n" for ri' c'
    using that 1(3) by (intro noted_store_stuck [OF 1(2), of c']) (auto simp: valid_round_def)
  ultimately show ?thesis by blast
qed

text \<open>State 0 executes the store and is terminated by it, then state 1 executes the store.\<close>

lemma ex_hits: "store_hits (cgs_x (fst (ex_world False))) (r_instr (ex_store v removed)) = 1"
  unfolding ex_world_def by (simp add: ex_eval store_hit_def)

lemma ex_after_store:
  "cgs_round ex_module (\<lambda>_. []) all_stats (ex_store 3 [0]) (ex_world False) = Some (w1, st1) \<Longrightarrow>
   valid_round ex_module w1 (ex_store 4 []) \<and> cgs_selectState w1 = Some (1, w1) \<and> branchInfos (heap w1 1) = [] \<and>
   store_hits (cgs_x w1) (r_instr (ex_store 4 [])) = 1"
  unfolding ex_world_def
  by (auto simp: ex_eval store_hit_def valid_round_def valid_update_def cgs_managed_def)

theorem terminating_store_breaks_update_witness:
  "\<exists>ws1. cgs_round ex_module (\<lambda>_. []) all_stats (ex_store 3 [0]) (ex_world False) = Some ws1 \<and>
     newBranchNumFromStore (cgs_x (fst ws1)) = 1 \<and>
     cgs_round ex_module (\<lambda>_. []) all_stats (ex_store 4 []) ws1 = None"
proof -
  obtain w st where ws: "ex_world False = (w, st)" by fastforce
  have "valid_round ex_module w (ex_store 3 [0])" "cgs_selectState w = Some (0, w)"
    "1 = store_hits (cgs_x w) (r_instr (ex_store 3 [0]))" "0 \<in> set (r_removed (ex_store 3 [0]))"
    using ex_valid_store [of "[0]" False 3] ex_select [of False] ex_hits [of 3 "[0]"] by (simp_all add: ws ex_store_def)
  from terminating_store_breaks_update [OF ex_reach [of False, unfolded ws] ex_loaded ex_stats this(1,2,4,3)]
    ex_after_store [unfolded ws]
  show ?thesis unfolding ws by (fastforce simp: ex_store_def)
qed

end
