(* ===== verification/CallGraph.thy ===== *)
theory CallGraph
  imports LLVM_IR
begin

section \<open>The call graph\<close>

text \<open>
  \<open>IDA/src/CallGraph.cpp\<close>: nodes are functions, edges are call instructions; every edge is stored
  twice, as an out-edge of the caller and as an in-edge of the callee. A node is known by its function,
  as \<open>getNode\<close> searches the set \<open>_CG\<close> for it; the list of nodes is in creation order. Shown: after
  \<open>runOnModule\<close> the out-edges are exactly the direct calls of the module and the in-edges mirror them,
  and \<open>isReachable\<close> returns and decides reachability over the chosen edges.
\<close>

subsection \<open>Functions of a module\<close>

record func =
  fn_isDeclaration :: bool
  fn_empty :: bool
  fn_isIntrinsic :: bool
  fn_isVarArg :: bool
  fn_ReturnType :: ty
  fn_args :: "ty list"

text \<open>The functions of a module, in order; a function is known by its position.\<close>

type_synonym func_table = "func list"

definition fn_at :: "func_table \<Rightarrow> func_ptr \<Rightarrow> func" where
  "fn_at fs F = (if F < length fs then fs ! F
     else \<lparr>fn_isDeclaration = True, fn_empty = True, fn_isIntrinsic = False, fn_isVarArg = False,
           fn_ReturnType = TVoid, fn_args = []\<rparr>)"

definition insts_of :: "ir_module \<Rightarrow> func_ptr \<Rightarrow> inst_ptr list" where
  "insts_of M F = filter (\<lambda>i. i_function (M ! i) = F) [0..<length M]"

text \<open>A call's operands are its arguments and, last, the callee.\<close>

definition getCalledFunction :: "instr \<Rightarrow> func_ptr option" where
  "getCalledFunction ci =
     (if i_operands ci = [] then None else case last (i_operands ci) of VFunction f \<Rightarrow> Some f | _ \<Rightarrow> None)"

subsection \<open>Nodes and edges\<close>

datatype node_type = INTERNAL | EXTERNAL
datatype edge_type = DIRECT | INDIRECT

record edge =
  e_type :: edge_type
  e_inst :: inst_ptr
  e_src :: func_ptr
  e_dst :: func_ptr

record node =
  n_type :: node_type
  n_func :: func_ptr
  in_edges :: "edge list"
  out_edges :: "edge list"

type_synonym cg = "node list"

definition find_node :: "func_ptr \<Rightarrow> cg \<Rightarrow> node option" where
  "find_node F g = find (\<lambda>n. n_func n = F) g"

definition new_node :: "func_table \<Rightarrow> func_ptr \<Rightarrow> node" where
  "new_node fs F =
     \<lparr>n_type = (if fn_isDeclaration (fn_at fs F) \<or> fn_empty (fn_at fs F) then EXTERNAL else INTERNAL),
      n_func = F, in_edges = [], out_edges = []\<rparr>"

text \<open>\<open>getNode\<close> of a function that is not null.\<close>

definition getNode :: "func_table \<Rightarrow> func_ptr \<Rightarrow> cg \<Rightarrow> node \<times> cg" where
  "getNode fs F g = (case find_node F g of Some n \<Rightarrow> (n, g) | None \<Rightarrow> (new_node fs F, g @ [new_node fs F]))"

definition addInEdge :: "func_ptr \<Rightarrow> func_ptr \<Rightarrow> inst_ptr \<Rightarrow> edge_type \<Rightarrow> cg \<Rightarrow> cg" where
  "addInEdge cur other inst t g =
     map (\<lambda>n. if n_func n = cur
              then n\<lparr>in_edges := in_edges n @ [\<lparr>e_type = t, e_inst = inst, e_src = other, e_dst = cur\<rparr>]\<rparr> else n) g"

definition addOutEdge :: "func_ptr \<Rightarrow> func_ptr \<Rightarrow> inst_ptr \<Rightarrow> edge_type \<Rightarrow> cg \<Rightarrow> cg" where
  "addOutEdge cur other inst t g =
     map (\<lambda>n. if n_func n = cur
              then n\<lparr>out_edges := out_edges n @ [\<lparr>e_type = t, e_inst = inst, e_src = cur, e_dst = other\<rparr>]\<rparr> else n) g"

subsection \<open>Indirect calls\<close>

definition isTypeEqual :: "ty \<Rightarrow> ty \<Rightarrow> bool" where
  "isTypeEqual t1 t2 \<longleftrightarrow> t1 = t2 \<or>
     (case (t1, t2) of
        (TPointer (TStruct n1 _), TPointer (TStruct n2 _)) \<Rightarrow> n1 = n2
      | _ \<Rightarrow> False)"

definition isFuncSignatureMatch :: "ir_module \<Rightarrow> instr \<Rightarrow> func \<Rightarrow> bool" where
  "isFuncSignatureMatch M ci f \<longleftrightarrow>
     \<not> fn_isVarArg f \<and> length (fn_args f) = length (i_operands ci) - 1 \<and>
     isTypeEqual (fn_ReturnType f) (i_type ci) \<and>
     (\<forall>i<length (i_operands ci) - 1. isTypeEqual (val_type M (i_operands ci ! i)) (fn_args f ! i))"

fun getIndirectCallCandidates :: "ir_module \<Rightarrow> func_table \<Rightarrow> instr \<Rightarrow> func_ptr list \<Rightarrow> cg \<Rightarrow> func_ptr list \<times> cg" where
  "getIndirectCallCandidates M fs ci [] g = ([], g)"
| "getIndirectCallCandidates M fs ci (F # Fs) g =
     (if fn_isDeclaration (fn_at fs F) \<or> fn_empty (fn_at fs F) then getIndirectCallCandidates M fs ci Fs g
      else if isFuncSignatureMatch M ci (fn_at fs F)
      then (case getNode fs F g of (_, g1) \<Rightarrow>
             (case getIndirectCallCandidates M fs ci Fs g1 of (cands, g2) \<Rightarrow> (F # cands, g2)))
      else getIndirectCallCandidates M fs ci Fs g)"

subsection \<open>runOnModule\<close>

text \<open>The constant that switches indirect calls off.\<close>

definition INDIRECT_CALL :: bool where "INDIRECT_CALL = False"

definition add_call :: "func_ptr \<Rightarrow> func_ptr \<Rightarrow> inst_ptr \<Rightarrow> edge_type \<Rightarrow> cg \<Rightarrow> cg" where
  "add_call caller callee i t g = addOutEdge caller callee i t (addInEdge callee caller i t g)"

definition handle_call :: "ir_module \<Rightarrow> func_table \<Rightarrow> func_ptr \<Rightarrow> inst_ptr \<Rightarrow> cg \<Rightarrow> cg" where
  "handle_call M fs caller i g =
     (case getCalledFunction (M ! i) of
        Some f \<Rightarrow>
          if fn_isIntrinsic (fn_at fs f) then g
          else (case getNode fs f g of (_, g1) \<Rightarrow> add_call caller f i DIRECT g1)
      | None \<Rightarrow>
          if INDIRECT_CALL
          then (case getIndirectCallCandidates M fs (M ! i) [0..<length fs] g of
                  (cands, g1) \<Rightarrow> fold (\<lambda>f. add_call caller f i INDIRECT) cands g1)
          else g)"

definition skip_function :: "func \<Rightarrow> bool" where
  "skip_function f \<longleftrightarrow> fn_isDeclaration f \<or> fn_empty f \<or> fn_isIntrinsic f"

definition handle_function :: "ir_module \<Rightarrow> func_table \<Rightarrow> func_ptr \<Rightarrow> cg \<Rightarrow> cg" where
  "handle_function M fs F g =
     (if skip_function (fn_at fs F) then g
      else (case getNode fs F g of (_, g1) \<Rightarrow>
              fold (handle_call M fs F) (filter (\<lambda>i. i_op (M ! i) = OpCall) (insts_of M F)) g1))"

definition cg_runOnModule :: "ir_module \<Rightarrow> func_table \<Rightarrow> cg" where
  "cg_runOnModule M fs = fold (handle_function M fs) [0..<length fs] []"

subsection \<open>isReachable\<close>

text \<open>
  The loop: the queue \<open>to_trace_nodes\<close> and the set \<open>traced_nodes\<close>, as functions. It may create a node
  through \<open>getNode\<close>, so the graph is threaded through.
\<close>

definition push_successors :: "func_table \<Rightarrow> bool \<Rightarrow> func_ptr set \<Rightarrow> edge \<Rightarrow> func_ptr list \<times> cg \<Rightarrow> func_ptr list \<times> cg" where
  "push_successors fs indirect traced e st =
     (case st of (q, g) \<Rightarrow>
        if \<not> indirect \<and> e_type e = INDIRECT then (q, g)
        else (case getNode fs (e_dst e) g of (n, g1) \<Rightarrow>
                if n_type n = INTERNAL \<and> n_func n \<notin> traced then (q @ [n_func n], g1) else (q, g1)))"

partial_function (option) reach_loop ::
  "func_table \<Rightarrow> func_ptr \<Rightarrow> bool \<Rightarrow> func_ptr list \<Rightarrow> func_ptr set \<Rightarrow> cg \<Rightarrow> (bool \<times> cg) option" where
  "reach_loop fs dst indirect q traced g =
     (case q of
        [] \<Rightarrow> Some (False, g)
      | N # q' \<Rightarrow>
          if N = dst then Some (True, g)
          else (case fold (push_successors fs indirect (insert N traced))
                      (case find_node N g of Some n \<Rightarrow> out_edges n | None \<Rightarrow> []) (q', g) of
                  (q1, g1) \<Rightarrow> reach_loop fs dst indirect q1 (insert N traced) g1))"

definition isReachable :: "func_table \<Rightarrow> func_ptr \<Rightarrow> func_ptr \<Rightarrow> bool \<Rightarrow> cg \<Rightarrow> (bool \<times> cg) option" where
  "isReachable fs src dst indirect g = reach_loop fs dst indirect [src] {} g"

subsection \<open>Edges\<close>

definition out_of :: "cg \<Rightarrow> func_ptr \<Rightarrow> edge list" where
  "out_of g F = (case find_node F g of Some n \<Rightarrow> out_edges n | None \<Rightarrow> [])"

definition in_of :: "cg \<Rightarrow> func_ptr \<Rightarrow> edge list" where
  "in_of g F = (case find_node F g of Some n \<Rightarrow> in_edges n | None \<Rightarrow> [])"

definition funcs :: "cg \<Rightarrow> func_ptr set" where
  "funcs g = n_func ` set g"

lemma find_node_None: "find_node F g = None \<longleftrightarrow> F \<notin> funcs g"
  by (auto simp: find_node_def find_None_iff funcs_def)

lemma find_node_Some: "find_node F g = Some n \<Longrightarrow> n_func n = F \<and> n \<in> set g"
  by (auto simp: find_node_def find_Some_iff)

lemma find_node_map:
  assumes "\<And>n. n_func (h n) = n_func n"
  shows "find_node F (map h g) = map_option h (find_node F g)"
  by (induction g) (simp_all add: find_node_def assms)

lemma funcs_map:
  assumes "\<And>n. n_func (h n) = n_func n"
  shows "funcs (map h g) = funcs g"
  by (simp add: funcs_def image_image assms)

lemma find_node_append:
  "find_node F (g @ [n]) = (case find_node F g of Some m \<Rightarrow> Some m | None \<Rightarrow> if n_func n = F then Some n else None)"
  by (induction g) (simp_all add: find_node_def)

lemma getNode_edges [simp]:
  "out_of (snd (getNode fs F g)) = out_of g" "in_of (snd (getNode fs F g)) = in_of g"
  "funcs (snd (getNode fs F g)) = insert F (funcs g)"
  by (auto simp: fun_eq_iff out_of_def in_of_def getNode_def find_node_append new_node_def find_node_None
      funcs_def dest: find_node_Some split: option.splits)

lemma find_node_in: "F \<in> funcs g \<Longrightarrow> \<exists>n. find_node F g = Some n \<and> n_func n = F"
  using find_node_None [of F g] find_node_Some [of F g] by (cases "find_node F g") auto

lemma addInEdge_edges:
  "out_of (addInEdge cur other i t g) = out_of g" "funcs (addInEdge cur other i t g) = funcs g"
  "cur \<in> funcs g \<Longrightarrow> in_of (addInEdge cur other i t g) F = in_of g F @
     (if F = cur then [\<lparr>e_type = t, e_inst = i, e_src = other, e_dst = cur\<rparr>] else [])"
proof -
  have node: "find_node G (addInEdge cur other i t g) = map_option (\<lambda>n. if n_func n = cur
      then n\<lparr>in_edges := in_edges n @ [\<lparr>e_type = t, e_inst = i, e_src = other, e_dst = cur\<rparr>]\<rparr> else n) (find_node G g)" for G
    by (simp add: addInEdge_def find_node_map)
  show "out_of (addInEdge cur other i t g) = out_of g"
  proof
    show "out_of (addInEdge cur other i t g) G = out_of g G" for G
      unfolding out_of_def node by (cases "find_node G g") simp_all
  qed
  show "funcs (addInEdge cur other i t g) = funcs g"
    by (simp add: addInEdge_def funcs_map)
  show "cur \<in> funcs g \<Longrightarrow> in_of (addInEdge cur other i t g) F = in_of g F @
     (if F = cur then [\<lparr>e_type = t, e_inst = i, e_src = other, e_dst = cur\<rparr>] else [])"
    unfolding in_of_def node by (cases "find_node F g") (auto dest: find_node_in find_node_Some)
qed

lemma addOutEdge_edges:
  "in_of (addOutEdge cur other i t g) = in_of g" "funcs (addOutEdge cur other i t g) = funcs g"
  "cur \<in> funcs g \<Longrightarrow> out_of (addOutEdge cur other i t g) F = out_of g F @
     (if F = cur then [\<lparr>e_type = t, e_inst = i, e_src = cur, e_dst = other\<rparr>] else [])"
proof -
  have node: "find_node G (addOutEdge cur other i t g) = map_option (\<lambda>n. if n_func n = cur
      then n\<lparr>out_edges := out_edges n @ [\<lparr>e_type = t, e_inst = i, e_src = cur, e_dst = other\<rparr>]\<rparr> else n) (find_node G g)" for G
    by (simp add: addOutEdge_def find_node_map)
  show "in_of (addOutEdge cur other i t g) = in_of g"
  proof
    show "in_of (addOutEdge cur other i t g) G = in_of g G" for G
      unfolding in_of_def node by (cases "find_node G g") simp_all
  qed
  show "funcs (addOutEdge cur other i t g) = funcs g"
    by (simp add: addOutEdge_def funcs_map)
  show "cur \<in> funcs g \<Longrightarrow> out_of (addOutEdge cur other i t g) F = out_of g F @
     (if F = cur then [\<lparr>e_type = t, e_inst = i, e_src = cur, e_dst = other\<rparr>] else [])"
    unfolding out_of_def node by (cases "find_node F g") (auto dest: find_node_in find_node_Some)
qed

lemma add_call_edges:
  assumes "caller \<in> funcs g" "callee \<in> funcs g"
  shows "set (out_of (add_call caller callee i t g) F) = set (out_of g F) \<union>
      (if F = caller then {\<lparr>e_type = t, e_inst = i, e_src = caller, e_dst = callee\<rparr>} else {})"
    and "set (in_of (add_call caller callee i t g) F) = set (in_of g F) \<union>
      (if F = callee then {\<lparr>e_type = t, e_inst = i, e_src = caller, e_dst = callee\<rparr>} else {})"
    and "funcs (add_call caller callee i t g) = funcs g"
  using assms by (simp_all add: add_call_def addInEdge_edges addOutEdge_edges)

subsection \<open>The edges are the direct calls\<close>

text \<open>The direct calls a function makes, as edges.\<close>

definition call_edge :: "ir_module \<Rightarrow> func_table \<Rightarrow> func_ptr \<Rightarrow> inst_ptr \<Rightarrow> edge set" where
  "call_edge M fs F i =
     (case getCalledFunction (M ! i) of
        Some f \<Rightarrow> if fn_isIntrinsic (fn_at fs f) then {}
                  else {\<lparr>e_type = DIRECT, e_inst = i, e_src = F, e_dst = f\<rparr>}
      | None \<Rightarrow> {})"

definition direct_calls :: "ir_module \<Rightarrow> func_table \<Rightarrow> func_ptr \<Rightarrow> edge set" where
  "direct_calls M fs F =
     (if skip_function (fn_at fs F) then {}
      else \<Union>i\<in>{i. i < length M \<and> i_function (M ! i) = F \<and> i_op (M ! i) = OpCall}. call_edge M fs F i)"

text \<open>A graph with exactly the out-edges \<open>E\<close>, mirrored by its in-edges.\<close>

definition graph_of :: "(func_ptr \<Rightarrow> edge set) \<Rightarrow> cg \<Rightarrow> bool" where
  "graph_of E g \<longleftrightarrow> (\<forall>F. set (out_of g F) = E F) \<and> (\<forall>F e. e \<in> E F \<longrightarrow> e_src e = F \<and> e_dst e \<in> funcs g) \<and>
     (\<forall>F e. e \<in> set (in_of g F) \<longleftrightarrow> e \<in> E (e_src e) \<and> e_dst e = F)"

lemma getNode_graph: "graph_of E g \<Longrightarrow> graph_of E (snd (getNode fs F g))"
  by (simp add: graph_of_def)

lemma add_call_graph:
  assumes "graph_of E g" "caller \<in> funcs g" "callee \<in> funcs g"
  shows "graph_of (E(caller := insert \<lparr>e_type = t, e_inst = i, e_src = caller, e_dst = callee\<rparr> (E caller)))
           (add_call caller callee i t g)"
proof -
  define e0 where "e0 = \<lparr>e_type = t, e_inst = i, e_src = caller, e_dst = callee\<rparr>"
  have e0: "e_src e0 = caller" "e_dst e0 = callee" by (simp_all add: e0_def)
  note edges = add_call_edges [OF assms(2,3), of i t, folded e0_def]
  show ?thesis
    using assms edges e0 unfolding graph_of_def e0_def [symmetric]
    by (auto split: if_splits)
qed

lemma handle_call_graph:
  assumes "graph_of E g" "F \<in> funcs g"
  shows "graph_of (E(F := E F \<union> call_edge M fs F i)) (handle_call M fs F i g) \<and> F \<in> funcs (handle_call M fs F i g)"
proof (cases "getCalledFunction (M ! i)")
  case (Some f)
  obtain n g1 where n: "getNode fs f g = (n, g1)" by fastforce
  then have "graph_of E g1" "F \<in> funcs g1" "f \<in> funcs g1"
    using getNode_graph [OF assms(1), of fs f] getNode_edges(3) [of fs f g] assms(2) by simp_all
  from add_call_graph [OF this, of DIRECT i] add_call_edges(3) [OF this(2,3), of i DIRECT] this(2) n Some assms
  show ?thesis by (simp add: handle_call_def call_edge_def Un_commute)
qed (use assms in \<open>simp add: handle_call_def call_edge_def INDIRECT_CALL_def\<close>)

lemma handle_calls_graph:
  "graph_of E g \<Longrightarrow> F \<in> funcs g \<Longrightarrow>
   graph_of (E(F := E F \<union> (\<Union>i\<in>set js. call_edge M fs F i))) (fold (handle_call M fs F) js g)"
proof (induction js arbitrary: E g)
  case (Cons i js)
  from handle_call_graph [OF Cons.prems, of M fs i]
  have "graph_of (E(F := E F \<union> call_edge M fs F i)) (handle_call M fs F i g)"
    "F \<in> funcs (handle_call M fs F i g)" by simp_all
  from Cons.IH [OF this] show ?case by (simp add: Un_assoc cong: if_cong)
qed simp

lemma handle_function_graph:
  assumes "graph_of E g" "E F = {}"
  shows "graph_of (E(F := direct_calls M fs F)) (handle_function M fs F g)"
proof (cases "skip_function (fn_at fs F)")
  case True
  with assms show ?thesis by (simp add: handle_function_def direct_calls_def fun_upd_idem)
next
  case False
  obtain n g1 where n: "getNode fs F g = (n, g1)" by fastforce
  then have "graph_of E g1" "F \<in> funcs g1"
    using getNode_graph [OF assms(1), of fs F] getNode_edges(3) [of fs F g] by simp_all
  from handle_calls_graph [OF this, where js = "filter (\<lambda>i. i_op (M ! i) = OpCall) (insts_of M F)" and M = M and fs = fs]
    n False assms(2)
  show ?thesis
    by (simp add: handle_function_def direct_calls_def insts_of_def conj_ac)
qed

lemma handle_functions_graph:
  "graph_of E g \<Longrightarrow> (\<And>F. F \<in> set Fs \<Longrightarrow> E F = {}) \<Longrightarrow> distinct Fs \<Longrightarrow>
   graph_of (\<lambda>F. if F \<in> set Fs then direct_calls M fs F else E F) (fold (handle_function M fs) Fs g)"
proof (induction Fs arbitrary: E g)
  case (Cons F Fs)
  have "graph_of (E(F := direct_calls M fs F)) (handle_function M fs F g)"
    using Cons.prems by (intro handle_function_graph) auto
  then have "graph_of (\<lambda>G. if G \<in> set Fs then direct_calls M fs G else (E(F := direct_calls M fs F)) G)
      (fold (handle_function M fs) Fs (handle_function M fs F g))"
    using Cons.prems by (intro Cons.IH) (auto simp: fun_upd_def)
  moreover have "(\<lambda>G. if G \<in> set Fs then direct_calls M fs G else (E(F := direct_calls M fs F)) G) =
      (\<lambda>G. if G \<in> set (F # Fs) then direct_calls M fs G else E G)"
    by (auto simp: fun_eq_iff)
  ultimately show ?case by simp
qed simp

lemma cg_graph: "graph_of (\<lambda>F. if F < length fs then direct_calls M fs F else {}) (cg_runOnModule M fs)"
proof -
  have "graph_of (\<lambda>_. {}) []" by (simp add: graph_of_def out_of_def in_of_def find_node_def)
  from handle_functions_graph [OF this, of "[0..<length fs]" M fs] show ?thesis
    by (simp add: cg_runOnModule_def atLeast0LessThan)
qed

subsection \<open>Reachability\<close>

definition internal :: "func_table \<Rightarrow> func_ptr \<Rightarrow> bool" where
  "internal fs F \<longleftrightarrow> \<not> (fn_isDeclaration (fn_at fs F) \<or> fn_empty (fn_at fs F))"

definition well_typed :: "func_table \<Rightarrow> cg \<Rightarrow> bool" where
  "well_typed fs g \<longleftrightarrow> (\<forall>n\<in>set g. n_type n = (if internal fs (n_func n) then INTERNAL else EXTERNAL))"

text \<open>The edges \<open>isReachable\<close> follows.\<close>

definition cg_step :: "func_table \<Rightarrow> bool \<Rightarrow> cg \<Rightarrow> (func_ptr \<times> func_ptr) set" where
  "cg_step fs indirect g =
     {(a, b). internal fs b \<and> (\<exists>e\<in>set (out_of g a). e_dst e = b \<and> (indirect \<or> e_type e = DIRECT))}"

definition closed_graph :: "func_table \<Rightarrow> cg \<Rightarrow> bool" where
  "closed_graph fs g \<longleftrightarrow> well_typed fs g \<and> (\<forall>F. \<forall>e\<in>set (out_of g F). e_dst e \<in> funcs g)"

definition succs :: "func_table \<Rightarrow> bool \<Rightarrow> func_ptr set \<Rightarrow> cg \<Rightarrow> edge list \<Rightarrow> func_ptr list" where
  "succs fs indirect traced g es =
     map e_dst (filter (\<lambda>e. (indirect \<or> e_type e = DIRECT) \<and> internal fs (e_dst e) \<and> e_dst e \<notin> traced) es)"

lemma getNode_known:
  assumes "well_typed fs g" "F \<in> funcs g"
  shows "\<exists>n. getNode fs F g = (n, g) \<and> n_func n = F \<and> (n_type n = INTERNAL \<longleftrightarrow> internal fs F)"
proof -
  obtain n where n: "find_node F g = Some n" "n_func n = F" using find_node_in [OF assms(2)] by blast
  then have "n \<in> set g" using find_node_Some by blast
  with n assms(1) show ?thesis by (auto simp: getNode_def well_typed_def)
qed

lemma push_successors_closed:
  assumes "well_typed fs g" "\<forall>e\<in>set es. e_dst e \<in> funcs g"
  shows "fold (push_successors fs indirect traced) es (q, g) = (q @ succs fs indirect traced g es, g)"
  using assms(2)
proof (induction es arbitrary: q)
  case (Cons e es)
  obtain n where "getNode fs (e_dst e) g = (n, g)" "n_func n = e_dst e" "n_type n = INTERNAL \<longleftrightarrow> internal fs (e_dst e)"
    using getNode_known [OF assms(1), of "e_dst e"] Cons.prems by auto
  then have "push_successors fs indirect traced e (q, g) =
      (q @ (if (indirect \<or> e_type e = DIRECT) \<and> internal fs (e_dst e) \<and> e_dst e \<notin> traced then [e_dst e] else []), g)"
    by (cases "e_type e") (auto simp: push_successors_def)
  with Cons show ?case by (simp add: succs_def)
qed (simp add: succs_def)

lemma reach_loop_closed:
  assumes "closed_graph fs g"
  shows "reach_loop fs dst indirect (N # q) traced g =
    (if N = dst then Some (True, g)
     else reach_loop fs dst indirect (q @ succs fs indirect (insert N traced) g (out_of g N)) (insert N traced) g)"
proof -
  have "fold (push_successors fs indirect (insert N traced))
      (case find_node N g of Some n \<Rightarrow> out_edges n | None \<Rightarrow> []) (q, g) =
      (q @ succs fs indirect (insert N traced) g (out_of g N), g)"
    using assms push_successors_closed [of fs g "out_of g N"] by (simp add: closed_graph_def out_of_def)
  then show ?thesis by (subst reach_loop.simps) simp
qed

lemma set_succs: "set (succs fs indirect traced g (out_of g N)) = {b. (N, b) \<in> cg_step fs indirect g} - traced"
  by (auto simp: succs_def cg_step_def)

definition reach_measure :: "(func_ptr set \<times> func_ptr list \<times> func_ptr set) \<Rightarrow> nat list" where
  "reach_measure s = (case s of (U, q, traced) \<Rightarrow>
     [card (U - traced), if set q \<subseteq> traced then 1 else 0, length (takeWhile (\<lambda>x. x \<in> traced) q)])"

definition reach_less :: "((func_ptr set \<times> func_ptr list \<times> func_ptr set) \<times> (func_ptr set \<times> func_ptr list \<times> func_ptr set)) set" where
  "reach_less = measures [\<lambda>s. reach_measure s ! 0, \<lambda>s. reach_measure s ! 1, \<lambda>s. reach_measure s ! 2]"

text \<open>Every turn of the loop gets closer to the end.\<close>

lemma reach_turn:
  assumes "finite U" "N \<in> U" "set new \<inter> insert N traced = {}"
  shows "((U, q @ new, insert N traced), (U, N # q, traced)) \<in> reach_less"
proof (cases "N \<in> traced")
  case False
  then have "card (U - insert N traced) < card (U - traced)"
    using assms(1,2) by (intro psubset_card_mono) auto
  then show ?thesis by (simp add: reach_less_def reach_measure_def)
next
  case True
  then have same: "insert N traced = traced" by auto
  show ?thesis
  proof (cases "set q \<subseteq> traced")
    case all: True
    have tw: "takeWhile (\<lambda>x. x \<in> traced) q = q" using all by (simp add: subset_iff)
    show ?thesis
      using all True assms(3) tw unfolding same
      by (cases new) (auto simp: reach_less_def reach_measure_def)
  next
    case some: False
    then obtain x where "x \<in> set q" "x \<notin> traced" by auto
    then have "takeWhile (\<lambda>x. x \<in> traced) (q @ new) = takeWhile (\<lambda>x. x \<in> traced) q"
      by (intro takeWhile_append1) auto
    with some True show ?thesis unfolding same by (auto simp: reach_less_def reach_measure_def)
  qed
qed

lemma wf_reach_less: "wf reach_less"
  by (simp add: reach_less_def)

lemma reach_loop_correct:
  assumes closed: "closed_graph fs g" and fin: "finite U" and U: "set q \<subseteq> U" "funcs g \<subseteq> U"
    and src: "src \<in> traced \<union> set q" and only: "traced \<union> set q \<subseteq> (cg_step fs indirect g)\<^sup>* `` {src}"
    and dst: "dst \<notin> traced"
    and front: "\<And>a b. a \<in> traced \<Longrightarrow> (a, b) \<in> cg_step fs indirect g \<Longrightarrow> b \<in> traced \<union> set q"
  shows "reach_loop fs dst indirect q traced g = Some ((src, dst) \<in> (cg_step fs indirect g)\<^sup>*, g)"
  using U(1) src only dst front
proof (induction "(U, q, traced)" arbitrary: q traced rule: wf_induct_rule [OF wf_reach_less])
  case (1 q traced)
  let ?R = "cg_step fs indirect g"
  show ?case
  proof (cases q)
    case Nil
    have "(cg_step fs indirect g)\<^sup>* `` {src} \<subseteq> traced"
    proof
      fix b assume "b \<in> ?R\<^sup>* `` {src}"
      then have "(src, b) \<in> ?R\<^sup>*" by simp
      then show "b \<in> traced"
        by (induction rule: rtrancl_induct) (use 1(3,6) Nil in auto)
    qed
    with 1(5) Nil show ?thesis by (subst reach_loop.simps) auto
  next
    case (Cons N q')
    show ?thesis
    proof (cases "N = dst")
      case True
      with 1(4) Cons show ?thesis by (auto simp: reach_loop_closed [OF closed])
    next
      case False
      let ?new = "succs fs indirect (insert N traced) g (out_of g N)"
      have new: "set ?new = {b. (N, b) \<in> ?R} - insert N traced" by (rule set_succs)
      have inU: "set ?new \<subseteq> U"
        using closed U(2) unfolding new by (auto simp: cg_step_def closed_graph_def)
      have reachN: "(src, N) \<in> ?R\<^sup>*" using 1(4) Cons by auto
      have "reach_loop fs dst indirect (q' @ ?new) (insert N traced) g = Some ((src, dst) \<in> ?R\<^sup>*, g)"
      proof (rule 1(1))
        show "((U, q' @ ?new, insert N traced), (U, q, traced)) \<in> reach_less"
          unfolding Cons using 1(2) Cons new by (intro reach_turn [OF fin]) auto
        show "set (q' @ ?new) \<subseteq> U" using 1(2) Cons inU by auto
        show "src \<in> insert N traced \<union> set (q' @ ?new)" using 1(3) Cons by auto
        show "insert N traced \<union> set (q' @ ?new) \<subseteq> ?R\<^sup>* `` {src}"
          using 1(4) Cons reachN new by (auto intro: rtrancl_into_rtrancl)
        show "dst \<notin> insert N traced" using 1(5) False by auto
        show "b \<in> insert N traced \<union> set (q' @ ?new)" if "a \<in> insert N traced" "(a, b) \<in> ?R" for a b
          using that 1(6) [of a b] Cons new by auto
      qed
      with False Cons show ?thesis by (simp add: reach_loop_closed [OF closed])
    qed
  qed
qed

lemma isReachable_correct:
  assumes "closed_graph fs g"
  shows "isReachable fs src dst indirect g = Some ((src, dst) \<in> (cg_step fs indirect g)\<^sup>*, g)"
  unfolding isReachable_def
proof (rule reach_loop_correct [OF assms])
  show "finite (insert src (funcs g))" by (simp add: funcs_def)
qed auto

text \<open>The graph of a module is closed and its node types are right.\<close>

lemma well_typed_getNode: "well_typed fs g \<Longrightarrow> well_typed fs (snd (getNode fs F g))"
  by (auto simp: well_typed_def getNode_def new_node_def internal_def split: option.splits)

lemma well_typed_add_call: "well_typed fs g \<Longrightarrow> well_typed fs (add_call a b i t g)"
  by (auto simp: well_typed_def add_call_def addInEdge_def addOutEdge_def)

lemma well_typed_handle_call: "well_typed fs g \<Longrightarrow> well_typed fs (handle_call M fs F i g)"
  using well_typed_getNode [of fs g]
  by (auto simp: handle_call_def INDIRECT_CALL_def well_typed_add_call split: option.splits prod.splits)
    (metis snd_conv well_typed_add_call)

lemma well_typed_fold:
  assumes "\<And>x g. well_typed fs g \<Longrightarrow> well_typed fs (f x g)" "well_typed fs g"
  shows "well_typed fs (fold f xs g)"
  using assms(2) by (induction xs arbitrary: g) (simp_all add: assms(1))

lemma well_typed_handle_function: "well_typed fs g \<Longrightarrow> well_typed fs (handle_function M fs F g)"
proof (cases "skip_function (fn_at fs F)")
  case False
  assume "well_typed fs g"
  then have "well_typed fs (snd (getNode fs F g))" by (rule well_typed_getNode)
  then have "well_typed fs (fold (handle_call M fs F) is (snd (getNode fs F g)))" for "is"
    by (rule well_typed_fold [rotated]) (rule well_typed_handle_call)
  with False show ?thesis by (simp add: handle_function_def case_prod_beta)
qed (simp add: handle_function_def)

lemma cg_closed: "closed_graph fs (cg_runOnModule M fs)"
proof -
  have "well_typed fs (cg_runOnModule M fs)"
    unfolding cg_runOnModule_def
    by (rule well_typed_fold) (simp_all add: well_typed_handle_function well_typed_def [of _ "[]"])
  with cg_graph [of fs M] show ?thesis by (simp add: closed_graph_def graph_of_def)
qed

text \<open>
  The call graph of a module is exact: the out-edges of a function are its direct calls of
  functions that are not intrinsics, nothing else, and every edge is an in-edge of its callee and of
  no other function.
\<close>

theorem call_graph_exact:
  "set (out_of (cg_runOnModule M fs) F) = (if F < length fs then direct_calls M fs F else {}) \<and>
   (\<forall>e. e \<in> set (in_of (cg_runOnModule M fs) F) \<longleftrightarrow>
        e_src e < length fs \<and> e \<in> direct_calls M fs (e_src e) \<and> e_dst e = F)"
  using cg_graph [of fs M] by (auto simp: graph_of_def split: if_splits)

text \<open>
  \<open>isReachable\<close> on the call graph of a module returns and leaves the graph alone; its answer is
  reachability over the edges it follows, to functions with a body (indirect calls only when asked for).
\<close>

theorem isReachable_decides:
  "isReachable fs src dst indirect (cg_runOnModule M fs) =
     Some ((src, dst) \<in> (cg_step fs indirect (cg_runOnModule M fs))\<^sup>*, cg_runOnModule M fs)"
  by (rule isReachable_correct [OF cg_closed])

end
