(* ===== verification/BranchDependency.thy ===== *)
theory BranchDependency
  imports CallGraph
begin

section \<open>Branch dependency analysis\<close>

text \<open>
  \<open>IDA/src/BranchDependencyAnalysis.cpp\<close>: which source variable decides a branch. \<open>extractDataDependency\<close>
  walks back along def-use chains from the condition of a branch (or the address of a store) to global
  variables, local variables, parameters and fields of structs reached through a parameter.
  \<open>runOnModule\<close> applies it to the conditional branches and switches of a module and filters the result.

  What LLVM computes is a parameter: \<open>le_users\<close> is the order of \<open>AI->users()\<close>, \<open>le_reach\<close> is
  \<open>isPotentiallyReachable\<close> (from, to, excluded blocks), \<open>le_bbname\<close> is what \<open>printAsOperand\<close> prints for
  a block. A set of \<open>DataDep\<close> pointers is the list of the records in insertion order.
\<close>

record llvm_env =
  le_users :: "inst_ptr \<Rightarrow> inst_ptr list"
  le_reach :: "inst_ptr \<Rightarrow> inst_ptr \<Rightarrow> bb_ptr set \<Rightarrow> bool"
  le_bbname :: "bb_ptr \<Rightarrow> string"

subsection \<open>Data\<close>

datatype root_type = rn_null | rn_localVariable | rn_globalVariable | rn_nonPointerParam
  | rn_structPointerParam | rn_otherParam

record struct_pointer =
  sp_type :: ty
  sp_offset :: u32

record data_dep =
  dd_type :: root_type
  dd_local :: "inst_ptr option"
  dd_global :: "val option"
  dd_sp :: "struct_pointer list"
  dd_param :: nat

definition new_DataDep :: data_dep where
  "new_DataDep = \<lparr>dd_type = rn_null, dd_local = None, dd_global = None, dd_sp = [], dd_param = 0\<rparr>"

definition isEqualStructPointerList :: "struct_pointer list \<Rightarrow> struct_pointer list \<Rightarrow> bool" where
  "isEqualStructPointerList l1 l2 \<longleftrightarrow> length l1 = length l2 \<and> (\<forall>(a, b)\<in>set (zip l1 l2). a = b)"

subsection \<open>Labels of basic blocks\<close>

text \<open>\<open>atoi\<close> without leading blanks, which \<open>printAsOperand\<close> does not print.\<close>

fun atoi_digits :: "nat \<Rightarrow> string \<Rightarrow> nat" where
  "atoi_digits acc [] = acc"
| "atoi_digits acc (c # cs) =
     (let d = of_char c :: nat in if 48 \<le> d \<and> d \<le> 57 then atoi_digits (acc * 10 + (d - 48)) cs else acc)"

fun atoi :: "string \<Rightarrow> int" where
  "atoi [] = 0"
| "atoi (c # cs) =
     (if c = CHR ''-'' then - int (atoi_digits 0 cs)
      else if c = CHR ''+'' then int (atoi_digits 0 cs)
      else int (atoi_digits 0 (c # cs)))"

definition getBBLabel :: "llvm_env \<Rightarrow> bb_ptr \<Rightarrow> int" where
  "getBBLabel P bb = atoi (tl (le_bbname P bb))"

subsection \<open>selectStoreInst\<close>

definition BB_THRESHOLD :: nat where "BB_THRESHOLD = 32"

definition block_of :: "ir_module \<Rightarrow> inst_ptr \<Rightarrow> bb_ptr" where
  "block_of M i = i_parent (M ! i)"

text \<open>The blocks of the last \<open>bb_threshold\<close> stores.\<close>

definition exclusion :: "ir_module \<Rightarrow> nat \<Rightarrow> inst_ptr list \<Rightarrow> bb_ptr set" where
  "exclusion M n froms = block_of M ` set (take (max 1 n) (rev froms))"

fun reach_stores :: "ir_module \<Rightarrow> llvm_env \<Rightarrow> inst_ptr \<Rightarrow> inst_ptr list \<Rightarrow> bb_ptr set \<Rightarrow> inst_ptr list" where
  "reach_stores M P To [] ex = []"
| "reach_stores M P To (From # Froms) ex =
     (let rest = reach_stores M P To Froms (insert (block_of M From) ex)
      in if le_reach P From To (ex - {block_of M From}) then From # rest else rest)"

definition bb_dist :: "ir_module \<Rightarrow> llvm_env \<Rightarrow> inst_ptr \<Rightarrow> inst_ptr \<Rightarrow> nat" where
  "bb_dist M P From To = nat \<bar>getBBLabel P (block_of M From) - getBBLabel P (block_of M To)\<bar>"

text \<open>The variable \<open>result\<close> is not initialised: \<open>best\<close> is \<open>None\<close> until a store is nearer than \<open>0xffff\<close>.\<close>

fun nearest :: "ir_module \<Rightarrow> llvm_env \<Rightarrow> inst_ptr \<Rightarrow> inst_ptr list \<Rightarrow> nat \<Rightarrow> inst_ptr option \<Rightarrow> inst_ptr option" where
  "nearest M P To [] min_dist best = best"
| "nearest M P To (From # Froms) min_dist best =
     (let dist = bb_dist M P From To
      in if dist < min_dist then nearest M P To Froms dist (Some From) else nearest M P To Froms min_dist best)"

text \<open>\<open>Some None\<close> is the null pointer, \<open>None\<close> the read of an uninitialised variable.\<close>

definition selectStoreInst :: "ir_module \<Rightarrow> llvm_env \<Rightarrow> inst_ptr list \<Rightarrow> inst_ptr \<Rightarrow> inst_ptr option option" where
  "selectStoreInst M P froms To =
     (let n = min (length froms) BB_THRESHOLD;
          rs = reach_stores M P To (take n froms) (exclusion M n froms)
      in if length rs = 0 then Some None
         else if length rs = 1 then Some (Some (last rs))
         else map_option Some (nearest M P To rs 0xffff None))"

subsection \<open>extractDataDependency\<close>

record ex_state =
  deps :: "data_dep list"
  sp_list :: "struct_pointer list"
  last_AI :: "inst_ptr option"
  instCount :: "inst_ptr \<Rightarrow> nat"
  to_trace :: "inst_ptr list"
  traced :: "inst_ptr set"

text \<open>The back of the list \<open>to_trace_insts\<close> is the head of \<open>to_trace\<close>.\<close>

definition push_inst :: "ir_module \<Rightarrow> inst_ptr \<Rightarrow> ex_state \<Rightarrow> ex_state" where
  "push_inst M i st = (if i < length M then st\<lparr>to_trace := i # to_trace st\<rparr> else st)"

definition push_untraced :: "ir_module \<Rightarrow> val \<Rightarrow> ex_state \<Rightarrow> ex_state" where
  "push_untraced M v st =
     (case v of VInst i \<Rightarrow> if i \<notin> traced st then push_inst M i st else st | _ \<Rightarrow> st)"

definition is_local :: "inst_ptr \<Rightarrow> data_dep \<Rightarrow> bool" where
  "is_local AI d \<longleftrightarrow> dd_type d = rn_localVariable \<and> dd_local d = Some AI"

definition remove_last_AI :: "ex_state \<Rightarrow> ex_state" where
  "remove_last_AI st =
     (case last_AI st of
        None \<Rightarrow> st
      | Some a \<Rightarrow>
          if \<exists>d\<in>set (deps st). is_local a d
          then st\<lparr>deps := (case List.extract (is_local a) (deps st) of None \<Rightarrow> deps st | Some (xs, _, ys) \<Rightarrow> xs @ ys),
                  last_AI := None\<rparr>
          else st)"

definition save_local :: "inst_ptr \<Rightarrow> ex_state \<Rightarrow> ex_state" where
  "save_local AI st =
     (if \<exists>d\<in>set (deps st). is_local AI d then st
      else st\<lparr>last_AI := Some AI,
              deps := deps st @ [new_DataDep\<lparr>dd_type := rn_localVariable, dd_local := Some AI\<rparr>]\<rparr>)"

text \<open>A store of an argument to the local variable \<open>AI\<close>: the trace ends at the parameter.\<close>

definition add_param :: "nat \<Rightarrow> inst_ptr \<Rightarrow> nat \<Rightarrow> ty \<Rightarrow> ex_state \<Rightarrow> ex_state" where
  "add_param arg_size AI n t st =
     (if \<not> is_PointerTy t
      then (let arg_index = (if n < arg_size then n else 0xff)
            in if arg_index \<noteq> 0xff \<and> \<not> (\<exists>d\<in>set (deps st). dd_type d = rn_nonPointerParam \<and> dd_param d = arg_index)
               then st\<lparr>deps := deps st @ [new_DataDep\<lparr>dd_type := rn_nonPointerParam, dd_local := Some AI,
                         dd_param := arg_index\<rparr>]\<rparr>
               else st)
      else if (case t of TPointer (TStruct _ _) \<Rightarrow> True | _ \<Rightarrow> False) \<and> sp_list st \<noteq> []
      then (if \<exists>d\<in>set (deps st). dd_type d = rn_structPointerParam \<and> isEqualStructPointerList (dd_sp d) (sp_list st)
            then st
            else st\<lparr>deps := deps st @ [new_DataDep\<lparr>dd_type := rn_structPointerParam, dd_local := Some AI,
                      dd_sp := sp_list st\<rparr>]\<rparr>)
      else st)"

definition end_at_param :: "nat \<Rightarrow> inst_ptr \<Rightarrow> nat \<Rightarrow> ty \<Rightarrow> ex_state \<Rightarrow> ex_state" where
  "end_at_param arg_size AI n t st = (add_param arg_size AI n t (remove_last_AI st))\<lparr>sp_list := [], traced := {}\<rparr>"

text \<open>The loop over the users of a local variable: the stores to go on with.\<close>

fun user_loop :: "ir_module \<Rightarrow> llvm_env \<Rightarrow> nat \<Rightarrow> inst_ptr \<Rightarrow> inst_ptr \<Rightarrow> inst_ptr list \<Rightarrow> inst_ptr list \<Rightarrow>
    ex_state \<Rightarrow> inst_ptr list \<times> ex_state" where
  "user_loop M P arg_size inst0 AI [] store_insts st = (store_insts, st)"
| "user_loop M P arg_size inst0 AI (u # us) store_insts st =
     (case inst_at M u of
        None \<Rightarrow> user_loop M P arg_size inst0 AI us store_insts st
      | Some SI \<Rightarrow>
          if i_op SI \<noteq> OpStore then user_loop M P arg_size inst0 AI us store_insts st
          else case i_operands SI of
            [] \<Rightarrow> user_loop M P arg_size inst0 AI us store_insts st
          | VArgument n t # _ \<Rightarrow> ([], end_at_param arg_size AI n t st)
          | data # _ \<Rightarrow>
              if \<not> is_ConstantInt data \<and>
                 (of_int (getBBLabel P (i_parent SI)) :: u32) \<le> of_int (getBBLabel P (block_of M inst0))
              then user_loop M P arg_size inst0 AI us (store_insts @ [u]) st
              else user_loop M P arg_size inst0 AI us store_insts st)"

text \<open>Which store to go on with; \<open>None\<close> when \<open>selectStoreInst\<close> reads its uninitialised result.\<close>

definition choose_next :: "ir_module \<Rightarrow> llvm_env \<Rightarrow> inst_ptr \<Rightarrow> inst_ptr list \<Rightarrow> ex_state \<Rightarrow> ex_state option" where
  "choose_next M P cur store_insts st =
     (if store_insts = [] then Some st
      else
        (let st1 = remove_last_AI st
         in if length store_insts = 1
            then (let SI = last store_insts
                  in Some (if SI \<notin> traced st1 \<and> le_reach P SI cur {} then push_inst M SI st1 else st1))
            else (case selectStoreInst M P store_insts cur of
                    None \<Rightarrow> None
                  | Some None \<Rightarrow> Some st1
                  | Some (Some SI) \<Rightarrow> Some (if SI \<notin> traced st1 then push_inst M SI st1 else st1))))"

definition handle_local :: "ir_module \<Rightarrow> llvm_env \<Rightarrow> nat \<Rightarrow> inst_ptr \<Rightarrow> inst_ptr \<Rightarrow> inst_ptr \<Rightarrow> ex_state \<Rightarrow> ex_state option" where
  "handle_local M P arg_size inst0 cur AI st =
     (case user_loop M P arg_size inst0 AI (le_users P AI) [] (save_local AI st) of
        (store_insts, st1) \<Rightarrow> choose_next M P cur store_insts st1)"

definition is_alloca :: "ir_module \<Rightarrow> inst_ptr \<Rightarrow> bool" where
  "is_alloca M i = (case inst_at M i of
     Some ins \<Rightarrow> (case i_op ins of OpAlloca _ \<Rightarrow> True | _ \<Rightarrow> False) | None \<Rightarrow> False)"

fun operand_loop :: "ir_module \<Rightarrow> llvm_env \<Rightarrow> nat \<Rightarrow> inst_ptr \<Rightarrow> inst_ptr \<Rightarrow> val list \<Rightarrow> ex_state \<Rightarrow> ex_state option" where
  "operand_loop M P arg_size inst0 cur [] st = Some st"
| "operand_loop M P arg_size inst0 cur (v # vs) st =
     (case v of
        VGlobal g t \<Rightarrow>
          Some (st\<lparr>deps := deps st @ [new_DataDep\<lparr>dd_type := rn_globalVariable, dd_global := Some v\<rparr>],
                   sp_list := [], traced := {}\<rparr>)
      | VInst i \<Rightarrow>
          if is_alloca M i
          then (case handle_local M P arg_size inst0 cur i st of
                  None \<Rightarrow> None | Some st1 \<Rightarrow> operand_loop M P arg_size inst0 cur vs st1)
          else operand_loop M P arg_size inst0 cur vs (push_untraced M v st)
      | _ \<Rightarrow> operand_loop M P arg_size inst0 cur vs st)"

definition gep_pointer :: "ir_module \<Rightarrow> instr \<Rightarrow> struct_pointer" where
  "gep_pointer M ins =
     \<lparr>sp_type = val_type M (i_operands ins ! 0),
      sp_offset = (if is_ConstantInt (i_operands ins ! 2) then of_nat (ConstantInt_zext (i_operands ins ! 2)) else - 1)\<rparr>"

definition maxInstCount :: nat where "maxInstCount = 10"

definition stops_trace :: "inst_ptr \<Rightarrow> inst_ptr \<Rightarrow> opcode \<Rightarrow> bool" where
  "stops_trace inst0 cur op =
     (case op of OpCall \<Rightarrow> True | OpSwitch _ \<Rightarrow> True | OpICmp _ \<Rightarrow> cur \<noteq> inst0 | _ \<Rightarrow> False)"

text \<open>
  One turn of the loop for the instruction at the back of the list, after it was counted; the flag says
  whether the turn ended with \<open>continue\<close> (which skips the test at the end of the loop).
\<close>

definition trace_inst :: "ir_module \<Rightarrow> llvm_env \<Rightarrow> nat \<Rightarrow> inst_ptr \<Rightarrow> inst_ptr \<Rightarrow> instr \<Rightarrow> ex_state \<Rightarrow> (bool \<times> ex_state) option" where
  "trace_inst M P arg_size inst0 cur ins st =
     (if i_op ins = OpGetElementPtr \<and> length (i_operands ins) \<noteq> 3
      then Some (True, case i_operands ins of VInst i # _ \<Rightarrow> push_inst M i st | _ \<Rightarrow> st)
      else
        (let st1 = (if i_op ins = OpGetElementPtr then st\<lparr>sp_list := sp_list st @ [gep_pointer M ins]\<rparr> else st)
         in map_option (\<lambda>st2. (False, st2))
              (if i_op ins = OpStore
               then Some (case i_operands ins of v # _ \<Rightarrow> push_untraced M v st1 | [] \<Rightarrow> st1)
               else operand_loop M P arg_size inst0 cur (i_operands ins) st1)))"

text \<open>The parts of a turn leave the counters alone.\<close>

lemma push_count [simp]:
  "instCount (push_inst M i st) = instCount st" "instCount (push_untraced M v st) = instCount st"
  by (auto simp: push_inst_def push_untraced_def split: val.splits)

lemma local_count [simp]:
  "instCount (remove_last_AI st) = instCount st" "instCount (save_local AI st) = instCount st"
  "instCount (add_param n AI k t st) = instCount st" "instCount (end_at_param n AI k t st) = instCount st"
  by (auto simp: remove_last_AI_def save_local_def add_param_def end_at_param_def Let_def split: option.splits)

text \<open>The loop over the users changes the state only where it ends at a parameter.\<close>

lemma user_loop_cases:
  "snd (user_loop M P n inst0 AI us sis st) = st \<or>
   (\<exists>k t. snd (user_loop M P n inst0 AI us sis st) = end_at_param n AI k t st)"
proof (induction us arbitrary: sis)
  case (Cons u us)
  show ?case
  proof (cases "inst_at M u")
    case (Some SI)
    show ?thesis
    proof (cases "i_operands SI")
      case ops: (Cons v vs)
      show ?thesis
      proof (cases v)
        case (VArgument k t)
        with Some ops Cons.IH show ?thesis by (cases "i_op SI = OpStore") auto
      qed (use Some ops Cons.IH in \<open>simp_all split: if_splits\<close>)
    qed (use Some Cons.IH in simp)
  qed (use Cons.IH in simp)
qed simp

lemma user_loop_count: "user_loop M P n inst0 AI us sis st = (sis', st') \<Longrightarrow> instCount st' = instCount st"
  using user_loop_cases [of M P n inst0 AI us sis st] by auto

lemma choose_next_count: "choose_next M P cur sis st = Some st' \<Longrightarrow> instCount st' = instCount st"
  by (auto simp: choose_next_def Let_def split: if_splits option.splits)

lemma handle_local_count: "handle_local M P n inst0 cur AI st = Some st' \<Longrightarrow> instCount st' = instCount st"
  by (auto simp: handle_local_def dest!: choose_next_count user_loop_count split: prod.splits)

lemma operand_loop_count: "operand_loop M P n inst0 cur vs st = Some st' \<Longrightarrow> instCount st' = instCount st"
  by (induction M P n inst0 cur vs st rule: operand_loop.induct)
    (auto dest: handle_local_count split: val.splits if_splits option.splits)

lemma trace_inst_count: "trace_inst M P n inst0 cur ins st = Some (c, st') \<Longrightarrow> instCount st' = instCount st"
  by (auto simp: trace_inst_def Let_def dest!: operand_loop_count split: if_splits list.splits val.splits)

function extract_loop :: "ir_module \<Rightarrow> llvm_env \<Rightarrow> nat \<Rightarrow> inst_ptr \<Rightarrow> bool \<Rightarrow> ex_state \<Rightarrow> data_dep list option" where
  "extract_loop M P arg_size inst0 isStoreInst st =
     (case to_trace st of
        [] \<Rightarrow> Some (deps st)
      | cur # rest \<Rightarrow>
          (case inst_at M cur of
             None \<Rightarrow> Some (deps st)
           | Some ins \<Rightarrow>
               if instCount st cur + 1 > maxInstCount \<or> stops_trace inst0 cur (i_op ins) then Some (deps st)
               else
                 (case trace_inst M P arg_size inst0 cur ins
                         (st\<lparr>instCount := (instCount st)(cur := instCount st cur + 1),
                             to_trace := rest, traced := insert cur (traced st)\<rparr>) of
                    None \<Rightarrow> None
                  | Some (continued, st1) \<Rightarrow>
                      if \<not> continued \<and> isStoreInst \<and> length (deps st1) = 1 then Some (deps st1)
                      else extract_loop M P arg_size inst0 isStoreInst st1)))"
  by pat_completeness auto
termination
proof (relation "measure (\<lambda>(M, P, n, inst0, s, st). \<Sum>i<length M. maxInstCount - instCount st i)", goal_cases)
  case (2 M P n inst0 s st cur rest ins cst continued st1)
  then have "cur < length M" by (auto simp: inst_at_def split: if_splits)
  moreover have "instCount st1 = (instCount st)(cur := instCount st cur + 1)"
    using trace_inst_count 2(4,5) by fastforce
  moreover have "instCount st cur < maxInstCount" using 2(3) by simp
  ultimately show ?case by (auto intro!: sum_strict_mono_ex1)
qed simp

declare extract_loop.simps [simp del]

definition extractDataDependency :: "ir_module \<Rightarrow> llvm_env \<Rightarrow> nat \<Rightarrow> inst_ptr \<Rightarrow> bool \<Rightarrow> data_dep list option" where
  "extractDataDependency M P arg_size inst0 isStoreInst =
     extract_loop M P arg_size inst0 isStoreInst
       \<lparr>deps = [], sp_list = [], last_AI = None, instCount = (\<lambda>_. 0), to_trace = [inst0], traced = {}\<rparr>"

subsection \<open>runOnModule\<close>

text \<open>The condition instruction of a branch the analysis takes up.\<close>

definition bda_condition :: "ir_module \<Rightarrow> instr \<Rightarrow> inst_ptr option" where
  "bda_condition M I =
     (case i_op I of
        OpBr True \<Rightarrow>
          (case i_operands I of
             VInst c # _ \<Rightarrow>
               (case inst_at M c of
                  None \<Rightarrow> None
                | Some cond \<Rightarrow>
                    (case (i_op cond, i_operands cond) of
                       (OpICmp _, var1 # var2 # _) \<Rightarrow>
                         if is_IntegerTy (val_type M var1) \<and> is_IntegerTy (val_type M var2) \<and>
                            is_ConstantInt var1 \<noteq> is_ConstantInt var2
                         then Some c else None
                     | _ \<Rightarrow> None))
           | _ \<Rightarrow> None)
      | OpSwitch _ \<Rightarrow> (case i_operands I of VInst c # _ \<Rightarrow> Some c | _ \<Rightarrow> None)
      | _ \<Rightarrow> None)"

definition non_local :: "data_dep list \<Rightarrow> nat" where
  "non_local ds = length (filter (\<lambda>d. dd_type d \<in> {rn_globalVariable, rn_structPointerParam, rn_nonPointerParam}) ds)"

text \<open>
  What rule 2 does with one dependency: keep it, erase it, leave the iterator where it is, or read the
  front of an empty list or a missing element type.
\<close>

datatype verdict = Keep | Erase | Spin | Crash

definition keep_if :: "bool \<Rightarrow> verdict" where
  "keep_if b = (if b then Keep else Erase)"

fun pointee :: "ty \<Rightarrow> ty option" where
  "pointee (TPointer t) = Some t"
| "pointee _ = None"

definition rule2_struct :: "struct_pointer \<Rightarrow> verdict" where
  "rule2_struct sp =
     (case pointee (sp_type sp) of
        None \<Rightarrow> Crash
      | Some (TStruct _ ts) \<Rightarrow>
          if unat (sp_offset sp) < length ts then keep_if (is_IntegerTy (ts ! unat (sp_offset sp))) else Crash
      | Some (TArray _ t) \<Rightarrow> keep_if (is_IntegerTy t)
      | Some _ \<Rightarrow> Spin)"

definition rule2_verdict :: "ir_module \<Rightarrow> data_dep \<Rightarrow> verdict" where
  "rule2_verdict M d =
     (case dd_type d of
        rn_globalVariable \<Rightarrow>
          (case dd_global d of
             None \<Rightarrow> Crash
           | Some v \<Rightarrow> (case pointee (val_type M v) of None \<Rightarrow> Crash | Some t \<Rightarrow> keep_if (is_IntegerTy t)))
      | rn_localVariable \<Rightarrow>
          (case dd_local d of
             None \<Rightarrow> Crash
           | Some a \<Rightarrow> (case inst_at M a of
                          None \<Rightarrow> Crash
                        | Some ins \<Rightarrow> (case i_op ins of OpAlloca t \<Rightarrow> keep_if (is_IntegerTy t) | _ \<Rightarrow> Crash)))
      | rn_structPointerParam \<Rightarrow> (case dd_sp d of [] \<Rightarrow> Crash | sp # _ \<Rightarrow> rule2_struct sp)
      | _ \<Rightarrow> Keep)"

partial_function (option) rule2_loop :: "ir_module \<Rightarrow> data_dep list \<Rightarrow> data_dep list \<Rightarrow> data_dep list option" where
  "rule2_loop M kept rest =
     (case rest of
        [] \<Rightarrow> Some kept
      | d # ds \<Rightarrow>
          (case rule2_verdict M d of
             Keep \<Rightarrow> rule2_loop M (kept @ [d]) ds
           | Erase \<Rightarrow> rule2_loop M kept ds
           | Spin \<Rightarrow> rule2_loop M kept (d # ds)
           | Crash \<Rightarrow> None))"

record branch_dep =
  bdep_inst :: inst_ptr
  bdep_func :: func_ptr
  bdep_deps :: "data_dep list"

text \<open>One instruction of the module: the branch dependency to record for it, if any.\<close>

definition bda_inst :: "ir_module \<Rightarrow> llvm_env \<Rightarrow> func_table \<Rightarrow> func_ptr \<Rightarrow> inst_ptr \<Rightarrow> branch_dep list option" where
  "bda_inst M P fs F i =
     (case bda_condition M (M ! i) of
        None \<Rightarrow> Some []
      | Some cond \<Rightarrow>
          (case extractDataDependency M P (length (fn_args (fn_at fs F))) cond False of
             None \<Rightarrow> None
           | Some ds \<Rightarrow>
               if non_local ds > 1 then Some []
               else (case rule2_loop M [] ds of
                       None \<Rightarrow> None
                     | Some ds' \<Rightarrow>
                         Some (if ds' \<noteq> [] then [\<lparr>bdep_inst = i, bdep_func = F, bdep_deps = ds'\<rparr>] else []))))"

definition collect :: "('a \<Rightarrow> 'b list option) \<Rightarrow> 'a list \<Rightarrow> 'b list option" where
  "collect f xs = foldM (\<lambda>x acc. map_option (\<lambda>ys. acc @ ys) (f x)) xs []"

lemma collect_one [simp]: "collect f [x] = f x"
  by (simp add: collect_def option.map_ident split: option.splits)

text \<open>\<open>Pf F\<close> is LLVM's part with the dominator tree and the loops of the function \<open>F\<close>.\<close>

definition bda_runOnModule :: "ir_module \<Rightarrow> (func_ptr \<Rightarrow> llvm_env) \<Rightarrow> func_table \<Rightarrow> branch_dep list option" where
  "bda_runOnModule M Pf fs =
     collect (\<lambda>F. collect (bda_inst M (Pf F) fs F) (insts_of M F))
       (filter (\<lambda>F. \<not> (fn_isDeclaration (fn_at fs F) \<or> fn_empty (fn_at fs F))) [0..<length fs])"

subsection \<open>selectStoreInst takes the nearest store that reaches\<close>

lemma reach_stores_subset: "set (reach_stores M P To froms ex) \<subseteq> set froms"
  by (induction M P To froms ex rule: reach_stores.induct) (auto simp: Let_def)

lemma nearest_spec:
  "nearest M P To rs m best = Some r \<Longrightarrow>
   (r \<in> set rs \<and> bb_dist M P r To < m \<and> (\<forall>s\<in>set rs. bb_dist M P r To \<le> bb_dist M P s To)) \<or>
   (best = Some r \<and> (\<forall>s\<in>set rs. m \<le> bb_dist M P s To))"
proof (induction rs arbitrary: m best)
  case (Cons s rs)
  show ?case
  proof (cases "bb_dist M P s To < m")
    case True
    with Cons.prems Cons.IH [of "bb_dist M P s To" "Some s"] show ?thesis by (fastforce simp: Let_def)
  next
    case False
    with Cons.prems Cons.IH [of m best] show ?thesis by (fastforce simp: Let_def)
  qed
qed simp

lemma nearest_None: "nearest M P To rs m None = None \<longleftrightarrow> (\<forall>s\<in>set rs. m \<le> bb_dist M P s To)"
proof -
  have "nearest M P To rs m (Some b) \<noteq> None" for rs m b
    by (induction rs arbitrary: m b) (simp_all add: Let_def)
  then show ?thesis by (induction rs arbitrary: m) (auto simp: Let_def not_less)
qed

subsection \<open>What extractDataDependency returns\<close>

definition wf_dep :: "ir_module \<Rightarrow> nat \<Rightarrow> data_dep \<Rightarrow> bool" where
  "wf_dep M arg_size d \<longleftrightarrow>
     (case dd_type d of
        rn_localVariable \<Rightarrow> (\<exists>a. dd_local d = Some a \<and> is_alloca M a) \<and> dd_sp d = []
      | rn_globalVariable \<Rightarrow> (\<exists>g t. dd_global d = Some (VGlobal g t)) \<and> dd_sp d = []
      | rn_nonPointerParam \<Rightarrow> dd_param d < arg_size \<and> dd_param d \<noteq> 255
      | rn_structPointerParam \<Rightarrow> dd_sp d \<noteq> []
      | _ \<Rightarrow> False)"

definition wf_deps :: "ir_module \<Rightarrow> nat \<Rightarrow> ex_state \<Rightarrow> bool" where
  "wf_deps M n st \<longleftrightarrow> (\<forall>d\<in>set (deps st). wf_dep M n d)"

lemma push_deps [simp]: "deps (push_inst M i st) = deps st" "deps (push_untraced M v st) = deps st"
  by (auto simp: push_inst_def push_untraced_def split: val.splits)

lemma wf_deps_push [simp]:
  "wf_deps M n (push_inst M' i st) = wf_deps M n st" "wf_deps M n (push_untraced M' v st) = wf_deps M n st"
  "wf_deps M n (st\<lparr>sp_list := sl\<rparr>) = wf_deps M n st" "wf_deps M n (st\<lparr>traced := tr\<rparr>) = wf_deps M n st"
  "wf_deps M n (st\<lparr>to_trace := tt\<rparr>) = wf_deps M n st" "wf_deps M n (st\<lparr>instCount := ic\<rparr>) = wf_deps M n st"
  by (simp_all add: wf_deps_def)

lemma extract_subset: "List.extract P xs = Some (ys, x, zs) \<Longrightarrow> set (ys @ zs) \<subseteq> set xs"
  by (auto simp: extract_Some_iff)

lemma remove_last_AI_wf: "wf_deps M n st \<Longrightarrow> wf_deps M n (remove_last_AI st)"
  unfolding wf_deps_def remove_last_AI_def
  by (auto dest!: extract_subset split: option.splits)

lemma save_local_wf: "wf_deps M n st \<Longrightarrow> is_alloca M AI \<Longrightarrow> wf_deps M n (save_local AI st)"
  by (auto simp: wf_deps_def save_local_def wf_dep_def new_DataDep_def)

lemma add_param_wf: "wf_deps M n st \<Longrightarrow> wf_deps M n (add_param n AI k t st)"
  by (auto simp: wf_deps_def add_param_def wf_dep_def new_DataDep_def Let_def)

lemma end_at_param_wf: "wf_deps M n st \<Longrightarrow> wf_deps M n (end_at_param n AI k t st)"
  using add_param_wf [OF remove_last_AI_wf] by (simp add: end_at_param_def wf_deps_def)

lemma user_loop_wf:
  "user_loop M P n inst0 AI us sis st = (sis', st') \<Longrightarrow> wf_deps M n st \<Longrightarrow> wf_deps M n st'"
  using user_loop_cases [of M P n inst0 AI us sis st] by (auto simp: end_at_param_wf)

lemma choose_next_wf: "choose_next M P cur sis st = Some st' \<Longrightarrow> wf_deps M n st \<Longrightarrow> wf_deps M n st'"
  using remove_last_AI_wf [of M n st]
  by (auto simp: choose_next_def Let_def wf_deps_def split: if_splits option.splits)

lemma handle_local_wf:
  "handle_local M P n inst0 cur AI st = Some st' \<Longrightarrow> is_alloca M AI \<Longrightarrow> wf_deps M n st \<Longrightarrow> wf_deps M n st'"
  by (auto simp: handle_local_def dest: choose_next_wf user_loop_wf save_local_wf split: prod.splits)

lemma operand_loop_wf:
  "operand_loop M P n inst0 cur vs st = Some st' \<Longrightarrow> wf_deps M n st \<Longrightarrow> wf_deps M n st'"
proof (induction vs arbitrary: st)
  case (Cons v vs)
  show ?case
  proof (cases v)
    case (VInst i)
    show ?thesis
    proof (cases "is_alloca M i")
      case True
      with Cons.prems(1) VInst obtain st1 where "handle_local M P n inst0 cur i st = Some st1"
          "operand_loop M P n inst0 cur vs st1 = Some st'"
        by (simp split: option.splits)
      with True Cons.prems(2) show ?thesis by (intro Cons.IH [of st1]) (auto dest: handle_local_wf)
    next
      case False
      with Cons.prems VInst show ?thesis by (intro Cons.IH [of "push_untraced M v st"]) simp_all
    qed
  next
    case (VGlobal g t)
    with Cons.prems show ?thesis by (auto simp: wf_deps_def wf_dep_def new_DataDep_def)
  qed (use Cons.prems in \<open>auto intro: Cons.IH\<close>)
qed simp

lemma trace_inst_wf:
  assumes "trace_inst M P n inst0 cur ins st = Some (c, st')" "wf_deps M n st"
  shows "wf_deps M n st'"
proof (cases "i_op ins = OpGetElementPtr \<and> length (i_operands ins) \<noteq> 3")
  case True
  with assms show ?thesis by (auto simp: trace_inst_def split: list.splits val.splits)
next
  case False
  let ?st1 = "if i_op ins = OpGetElementPtr then st\<lparr>sp_list := sp_list st @ [gep_pointer M ins]\<rparr> else st"
  have "wf_deps M n ?st1" using assms(2) by simp
  with assms(1) False operand_loop_wf [of M P n inst0 cur "i_operands ins" ?st1] show ?thesis
    by (cases "i_op ins = OpStore") (auto simp: trace_inst_def Let_def split: list.splits)
qed

lemma extract_loop_wf:
  "extract_loop M P n inst0 s st = Some ds \<Longrightarrow> wf_deps M n st \<Longrightarrow> d \<in> set ds \<Longrightarrow> wf_dep M n d"
proof (induction M P n inst0 s st rule: extract_loop.induct)
  case (1 M P n inst0 s st)
  note step = extract_loop.simps [of M P n inst0 s st]
  show ?case
  proof (cases "to_trace st")
    case Nil
    with 1(2-4) show ?thesis by (simp add: step wf_deps_def)
  next
    case (Cons cur rest)
    show ?thesis
    proof (cases "inst_at M cur")
      case None
      with Cons 1(2-4) show ?thesis by (simp add: step wf_deps_def)
    next
      case (Some ins)
      show ?thesis
      proof (cases "instCount st cur + 1 > maxInstCount \<or> stops_trace inst0 cur (i_op ins)")
        case True
        with Cons Some 1(2-4) show ?thesis by (auto simp: step wf_deps_def)
      next
        case go: False
        let ?st0 = "st\<lparr>instCount := (instCount st)(cur := instCount st cur + 1), to_trace := rest, traced := insert cur (traced st)\<rparr>"
        from 1(2) Cons Some go obtain c st1 where t: "trace_inst M P n inst0 cur ins ?st0 = Some (c, st1)"
          by (auto simp: step split: option.splits)
        have wf1: "wf_deps M n st1" using trace_inst_wf [OF t] 1(3) by simp
        show ?thesis
        proof (cases "\<not> c \<and> s \<and> length (deps st1) = 1")
          case True
          then have "ds = deps st1" using 1(2) Cons Some go t unfolding step by auto
          with wf1 1(4) show ?thesis by (simp add: wf_deps_def)
        next
          case False
          then have "extract_loop M P n inst0 s st1 = Some ds" using 1(2) Cons Some go t unfolding step by auto
          with 1(1) [OF Cons Some _ t refl] go False wf1 1(4) show ?thesis by blast
        qed
      qed
    qed
  qed
qed

lemma extractDataDependency_wf:
  "extractDataDependency M P arg_size inst0 isStoreInst = Some ds \<Longrightarrow> \<forall>d\<in>set ds. wf_dep M arg_size d"
  using extract_loop_wf [of M P arg_size inst0 isStoreInst _ ds]
  by (simp add: extractDataDependency_def wf_deps_def)

text \<open>
  Every dependency \<open>extractDataDependency\<close> returns is well formed: a local variable is an alloca
  and carries no struct-pointer chain, a global is a global variable, a parameter index is in range, and
  the chain of a struct-pointer parameter is not empty (so \<open>sp_list.front()\<close> is defined).
\<close>

theorem extractDataDependency_well_formed:
  assumes "extractDataDependency M P arg_size inst0 isStoreInst = Some ds" and "d \<in> set ds"
  shows "wf_dep M arg_size d"
  using extractDataDependency_wf [OF assms(1)] assms(2) by blast

subsection \<open>Rule 2\<close>

lemma rule2_loop_filter:
  assumes "\<forall>d\<in>set ds. rule2_verdict M d \<in> {Keep, Erase}"
  shows "rule2_loop M kept ds = Some (kept @ filter (\<lambda>d. rule2_verdict M d = Keep) ds)"
  using assms
proof (induction ds arbitrary: kept)
  case Nil
  show ?case by (subst rule2_loop.simps) simp
next
  case (Cons d ds)
  then show ?case by (subst rule2_loop.simps) auto
qed

lemma rule2_loop_returns:
  assumes "rule2_loop M kept ds = Some r"
  shows "\<forall>d\<in>set ds. rule2_verdict M d \<in> {Keep, Erase}"
proof (rule rule2_loop.raw_induct [of "\<lambda>M kept ds r. \<forall>d\<in>set ds. rule2_verdict M d \<in> {Keep, Erase}", OF _ assms])
  fix f :: "ir_module \<Rightarrow> data_dep list \<Rightarrow> data_dep list \<Rightarrow> data_dep list option" and M kept rest r
  assume IH: "\<And>M kept ds r. f M kept ds = Some r \<Longrightarrow> \<forall>d\<in>set ds. rule2_verdict M d \<in> {Keep, Erase}"
    and step: "(case rest of [] \<Rightarrow> Some kept
      | d # ds \<Rightarrow> (case rule2_verdict M d of Keep \<Rightarrow> f M (kept @ [d]) ds | Erase \<Rightarrow> f M kept ds
          | Spin \<Rightarrow> f M kept (d # ds) | Crash \<Rightarrow> None)) = Some r"
  show "\<forall>d\<in>set rest. rule2_verdict M d \<in> {Keep, Erase}"
  proof (cases rest)
    case (Cons d ds)
    with step IH show ?thesis by (cases "rule2_verdict M d") fastforce+
  qed simp
qed

lemma rule2_loop_value:
  "rule2_loop M [] ds =
     (if list_all (\<lambda>d. rule2_verdict M d = Keep \<or> rule2_verdict M d = Erase) ds
      then Some (filter (\<lambda>d. rule2_verdict M d = Keep) ds) else None)"
proof (cases "list_all (\<lambda>d. rule2_verdict M d = Keep \<or> rule2_verdict M d = Erase) ds")
  case True
  then show ?thesis using rule2_loop_filter [of ds M "[]"] by (simp add: list_all_iff)
next
  case False
  then have "rule2_loop M [] ds \<noteq> Some r" for r
    using rule2_loop_returns [of M "[]" ds r] by (auto simp: list_all_iff)
  with False show ?thesis by (cases "rule2_loop M [] ds") auto
qed

text \<open>
  Rule 2 of \<open>runOnModule\<close> returns exactly when it can decide every dependency, and then it keeps the
  ones with an integer source, in order. It never returns when a struct-pointer parameter is reached
  through a pointer to something that is neither a struct nor an array (the iterator is not advanced).
\<close>

theorem rule2_decides:
  "rule2_loop M [] ds =
     (if list_all (\<lambda>d. rule2_verdict M d = Keep \<or> rule2_verdict M d = Erase) ds
      then Some (filter (\<lambda>d. rule2_verdict M d = Keep) ds) else None)"
  by (rule rule2_loop_value)

text \<open>
  A function \<open>f(struct s *p)\<close> that casts its parameter to a pointer to a vector, reads element 1 and
  compares it with 5.
\<close>

definition vector_module :: ir_module where
  "vector_module =
     [\<lparr>i_op = OpAlloca (TPointer (TStruct ''s'' [TInteger 32])), i_operands = [],
       i_type = TPointer (TPointer (TStruct ''s'' [TInteger 32])), i_parent = 0, i_function = 0\<rparr>,
      \<lparr>i_op = OpStore, i_operands = [VArgument 0 (TPointer (TStruct ''s'' [TInteger 32])), VInst 0],
       i_type = TVoid, i_parent = 0, i_function = 0\<rparr>,
      \<lparr>i_op = OpLoad, i_operands = [VInst 0], i_type = TPointer (TStruct ''s'' [TInteger 32]), i_parent = 0, i_function = 0\<rparr>,
      \<lparr>i_op = OpOther 0, i_operands = [VInst 2], i_type = TPointer (TOtherTy 4), i_parent = 0, i_function = 0\<rparr>,
      \<lparr>i_op = OpGetElementPtr, i_operands = [VInst 3, VConstantInt 64 0, VConstantInt 64 1],
       i_type = TPointer (TInteger 32), i_parent = 0, i_function = 0\<rparr>,
      \<lparr>i_op = OpLoad, i_operands = [VInst 4], i_type = TInteger 32, i_parent = 0, i_function = 0\<rparr>,
      \<lparr>i_op = OpICmp ICMP_EQ, i_operands = [VInst 5, VConstantInt 32 5], i_type = TInteger 1, i_parent = 0, i_function = 0\<rparr>,
      \<lparr>i_op = OpBr True, i_operands = [VInst 6], i_type = TVoid, i_parent = 0, i_function = 0\<rparr>]"

definition one_function :: func_table where
  "one_function = [\<lparr>fn_isDeclaration = False, fn_empty = False, fn_isIntrinsic = False, fn_isVarArg = False,
     fn_ReturnType = TVoid, fn_args = [TPointer (TStruct ''s'' [TInteger 32])]\<rparr>]"

definition vector_env :: llvm_env where
  "vector_env = \<lparr>le_users = (\<lambda>i. if i = 0 then [2, 1] else []), le_reach = (\<lambda>_ _ _. True), le_bbname = (\<lambda>_. ''%0'')\<rparr>"

text \<open>A function with two integer locals: \<open>b = 7; if (b + a == 5)\<close>.\<close>

definition sum_module :: ir_module where
  "sum_module =
     [\<lparr>i_op = OpAlloca (TInteger 32), i_operands = [], i_type = TPointer (TInteger 32), i_parent = 0, i_function = 0\<rparr>,
      \<lparr>i_op = OpAlloca (TInteger 32), i_operands = [], i_type = TPointer (TInteger 32), i_parent = 0, i_function = 0\<rparr>,
      \<lparr>i_op = OpStore, i_operands = [VConstantInt 32 7, VInst 1], i_type = TVoid, i_parent = 0, i_function = 0\<rparr>,
      \<lparr>i_op = OpLoad, i_operands = [VInst 1], i_type = TInteger 32, i_parent = 0, i_function = 0\<rparr>,
      \<lparr>i_op = OpLoad, i_operands = [VInst 0], i_type = TInteger 32, i_parent = 0, i_function = 0\<rparr>,
      \<lparr>i_op = OpOther 1, i_operands = [VInst 3, VInst 4], i_type = TInteger 32, i_parent = 0, i_function = 0\<rparr>,
      \<lparr>i_op = OpICmp ICMP_EQ, i_operands = [VInst 5, VConstantInt 32 5], i_type = TInteger 1, i_parent = 0, i_function = 0\<rparr>,
      \<lparr>i_op = OpBr True, i_operands = [VInst 6], i_type = TVoid, i_parent = 0, i_function = 0\<rparr>]"

definition sum_env :: llvm_env where
  "sum_env = \<lparr>le_users = (\<lambda>i. if i = 0 then [4] else if i = 1 then [3, 2] else []), le_reach = (\<lambda>_ _ _. True),
     le_bbname = (\<lambda>_. ''%0'')\<rparr>"

lemmas extract_eval = extract_loop.simps inst_at_def maxInstCount_def stops_trace_def trace_inst_def push_untraced_def
  push_inst_def handle_local_def save_local_def is_local_def end_at_param_def add_param_def
  remove_last_AI_def List.extract_def choose_next_def is_alloca_def gep_pointer_def is_ConstantInt_def
  ConstantInt_zext_def is_PointerTy_def new_DataDep_def Let_def val_type_def

lemma vector_deps:
  "extractDataDependency vector_module vector_env 1 6 False =
     Some [new_DataDep\<lparr>dd_type := rn_structPointerParam, dd_local := Some 0,
             dd_sp := [\<lparr>sp_type = TPointer (TOtherTy 4), sp_offset = 1\<rparr>]\<rparr>]"
  by (simp add: extractDataDependency_def vector_module_def vector_env_def extract_eval)

text \<open>
  On this module the analysis never returns.
\<close>

theorem bda_loops_on_vector: "bda_runOnModule vector_module (\<lambda>_. vector_env) one_function = None"
proof -
  have cond: "bda_condition vector_module (vector_module ! 7) = Some 6"
    by (simp add: bda_condition_def vector_module_def inst_at_def val_type_def is_IntegerTy_def is_ConstantInt_def)
  have other: "i < 7 \<Longrightarrow> bda_condition vector_module (vector_module ! i) = None" for i
    by (auto simp: bda_condition_def vector_module_def less_Suc_eq numeral_eq_Suc nth_Cons')
  have none: "bda_inst vector_module vector_env one_function 0 7 = None"
    using cond vector_deps
    by (simp add: bda_inst_def fn_at_def one_function_def non_local_def new_DataDep_def rule2_loop_value
        rule2_verdict_def rule2_struct_def)
  have skip: "i < 7 \<Longrightarrow> bda_inst vector_module vector_env one_function 0 i = Some []" for i
    using other by (simp add: bda_inst_def)
  have insts: "insts_of vector_module 0 = [0, 1, 2, 3, 4, 5, 6, 7]"
    by (simp add: insts_of_def vector_module_def upt_rec)
  have "collect (bda_inst vector_module vector_env one_function 0) (insts_of vector_module 0) = None"
    unfolding insts using skip none by (simp add: collect_def)
  moreover have "filter (\<lambda>F. \<not> (fn_isDeclaration (fn_at one_function F) \<or> fn_empty (fn_at one_function F)))
      [0..<length one_function] = [0]"
    by (simp add: one_function_def fn_at_def)
  ultimately show ?thesis by (simp add: bda_runOnModule_def collect_one)
qed

subsection \<open>The store a trace goes on with\<close>

text \<open>With at most 32 candidates the excluded blocks are those of all candidates.\<close>

lemma reach_stores_filter:
  "block_of M ` set froms \<subseteq> ex \<Longrightarrow>
   reach_stores M P To froms ex = filter (\<lambda>f. le_reach P f To (ex - {block_of M f})) froms"
proof (induction froms)
  case (Cons f froms)
  then have "insert (block_of M f) ex = ex" by auto
  with Cons show ?case by (simp add: Let_def)
qed simp

text \<open>
  Of at most 32 candidate stores \<open>selectStoreInst\<close> returns one from which the instruction can be
  reached without entering the block of another candidate, and no such store is nearer by block label;
  it returns null exactly when there is none.
\<close>

theorem selectStoreInst_nearest:
  assumes "0 < length froms" and "length froms \<le> BB_THRESHOLD" and "selectStoreInst M P froms To = Some r"
  shows "let good = filter (\<lambda>f. le_reach P f To (block_of M ` set froms - {block_of M f})) froms
         in (case r of
               None \<Rightarrow> good = []
             | Some s \<Rightarrow> s \<in> set good \<and> (\<forall>f\<in>set good. bb_dist M P s To \<le> bb_dist M P f To))"
proof -
  have ex: "min (length froms) BB_THRESHOLD = length froms" "exclusion M (length froms) froms = block_of M ` set froms"
    using assms(1,2) by (simp_all add: exclusion_def max_def)
  define good where "good = filter (\<lambda>f. le_reach P f To (block_of M ` set froms - {block_of M f})) froms"
  have "reach_stores M P To (take (min (length froms) BB_THRESHOLD) froms)
      (exclusion M (min (length froms) BB_THRESHOLD) froms) = good"
    unfolding ex by (simp add: reach_stores_filter good_def)
  with assms(3) have r: "(if length good = 0 then Some None else if length good = 1 then Some (Some (last good))
      else map_option Some (nearest M P To good 0xffff None)) = Some r"
    by (simp add: selectStoreInst_def)
  show ?thesis
    unfolding good_def [symmetric]
  proof (cases "length good \<le> 1")
    case True
    then consider "good = []" | x where "good = [x]" by (cases good) auto
    then show "let good = good in case r of None \<Rightarrow> good = []
        | Some s \<Rightarrow> s \<in> set good \<and> (\<forall>f\<in>set good. bb_dist M P s To \<le> bb_dist M P f To)"
      using r by cases auto
  next
    case False
    then have "good \<noteq> []" "length good \<noteq> 1" by auto
    with r obtain s where s: "r = Some s" "nearest M P To good 0xffff None = Some s" by auto
    from s(1) nearest_spec [OF s(2)] show "let good = good in case r of None \<Rightarrow> good = []
        | Some s \<Rightarrow> s \<in> set good \<and> (\<forall>f\<in>set good. bb_dist M P s To \<le> bb_dist M P f To)" by auto
  qed
qed

theorem selectStoreInst_nearest_witness:
  "let P = \<lparr>le_users = (\<lambda>_. []), le_reach = (\<lambda>_ _ _. True), le_bbname = (\<lambda>bb. if bb = 0 then ''%3'' else ''%9'')\<rparr>;
       M = vector_module[0 := (vector_module ! 0)\<lparr>i_parent := 1\<rparr>]
   in bb_dist M P 1 6 \<le> bb_dist M P 0 6"
proof -
  let ?P = "\<lparr>le_users = (\<lambda>_. []), le_reach = (\<lambda>_ _ _. True), le_bbname = (\<lambda>bb. if bb = 0 then ''%3'' else ''%9'')\<rparr>"
  let ?M = "vector_module[0 := (vector_module ! 0)\<lparr>i_parent := 1\<rparr>]"
  have "selectStoreInst ?M ?P [0, 1] 6 = Some (Some 1)"
    by (simp add: selectStoreInst_def exclusion_def BB_THRESHOLD_def Let_def bb_dist_def block_of_def
        vector_module_def getBBLabel_def)
  from selectStoreInst_nearest [OF _ _ this] show ?thesis by (simp add: BB_THRESHOLD_def Let_def)
qed

theorem extractDataDependency_well_formed_witness:
  "wf_dep vector_module 1 (new_DataDep\<lparr>dd_type := rn_structPointerParam, dd_local := Some 0,
     dd_sp := [\<lparr>sp_type = TPointer (TOtherTy 4), sp_offset = 1\<rparr>]\<rparr>)"
  by (rule extractDataDependency_well_formed [OF vector_deps]) simp

subsection \<open>An example: two local variables\<close>

definition local_dep :: "inst_ptr \<Rightarrow> data_dep" where
  "local_dep a = new_DataDep\<lparr>dd_type := rn_localVariable, dd_local := Some a\<rparr>"

lemma sum_deps:
  "extractDataDependency sum_module sum_env 1 6 False = Some [local_dep 0, local_dep 1]"
  by (simp add: extractDataDependency_def sum_module_def sum_env_def extract_eval local_dep_def)

lemma sum_insts: "insts_of sum_module 0 = [0, 1, 2, 3, 4, 5, 6, 7]"
  by (simp add: insts_of_def sum_module_def upt_rec)

lemma sum_bda: "bda_runOnModule sum_module (\<lambda>_. sum_env) one_function =
    Some [\<lparr>bdep_inst = 7, bdep_func = 0, bdep_deps = [local_dep 0, local_dep 1]\<rparr>]"
proof -
  have other: "i < 7 \<Longrightarrow> bda_condition sum_module (sum_module ! i) = None" for i
    by (auto simp: bda_condition_def sum_module_def less_Suc_eq numeral_eq_Suc nth_Cons')
  then have skip: "i < 7 \<Longrightarrow> bda_inst sum_module sum_env one_function 0 i = Some []" for i
    by (simp add: bda_inst_def)
  have cond: "bda_condition sum_module (sum_module ! 7) = Some 6"
    by (simp add: bda_condition_def sum_module_def inst_at_def val_type_def is_IntegerTy_def is_ConstantInt_def)
  have "rule2_verdict sum_module (local_dep i) = Keep" if "i < 2" for i
    using that by (auto simp: rule2_verdict_def local_dep_def new_DataDep_def sum_module_def inst_at_def keep_if_def is_IntegerTy_def less_2_cases_iff)
  then have "bda_inst sum_module sum_env one_function 0 7 = Some [\<lparr>bdep_inst = 7, bdep_func = 0, bdep_deps = [local_dep 0, local_dep 1]\<rparr>]"
    using cond sum_deps
    by (simp add: bda_inst_def fn_at_def one_function_def non_local_def rule2_loop_value) (simp add: local_dep_def new_DataDep_def)
  then show ?thesis using skip sum_insts
    by (simp add: bda_runOnModule_def collect_def one_function_def fn_at_def)
qed

end
