(* ===== verification/Interprocedural.thy ===== *)
theory Interprocedural
  imports BranchDependency "HOL-Library.Sublist"
begin

section \<open>Interprocedural dependency analysis\<close>

text \<open>
  \<open>IDA/src/InterproceduralDependencyAnalysis.cpp\<close>: which stores write the source variable of a branch.
  Stores get their dependency in \<open>findStoreDependencyFromSI\<close> (address of the store), branches are matched
  with stores by kind of source: the same local variable in the same function, the same global, or a
  struct field with a matching chain of struct pointers; a branch on a non-pointer parameter is followed
  to the callers (\<open>findStoresForBranchOnCG\<close>). \<open>_SDMap\<close> is a function from functions to lists; its iteration
  order is the order of the functions. \<open>None\<close> is a failed assertion, an operand out of range or the
  uninitialised result of \<open>selectStoreInst\<close>.
\<close>

record store_dep =
  sdep_inst :: inst_ptr
  sdep_func :: func_ptr
  sdep_dep :: data_dep

type_synonym sd_map = "func_ptr \<Rightarrow> store_dep list"

subsection \<open>Candidate stores and returns\<close>

definition store_candidate :: "ir_module \<Rightarrow> inst_ptr \<Rightarrow> bool" where
  "store_candidate M i \<longleftrightarrow>
     i_op (M ! i) = OpStore \<and>
     (case i_operands (M ! i) of
        [] \<Rightarrow> False
      | VArgument _ _ # _ \<Rightarrow> False
      | data # _ \<Rightarrow> is_IntegerTy (val_type M data))"

definition returns_struct_pointer :: "ir_module \<Rightarrow> inst_ptr \<Rightarrow> bool" where
  "returns_struct_pointer M i \<longleftrightarrow>
     i_op (M ! i) = OpRet \<and>
     (case i_operands (M ! i) of
        [] \<Rightarrow> False
      | ret # _ \<Rightarrow> (case val_type M ret of TPointer (TStruct _ _) \<Rightarrow> True | _ \<Rightarrow> False))"

definition StoreInsts :: "ir_module \<Rightarrow> func_ptr \<Rightarrow> inst_ptr list" where
  "StoreInsts M F = filter (store_candidate M) (insts_of M F)"

definition RetFuncs :: "ir_module \<Rightarrow> func_ptr \<Rightarrow> bool" where
  "RetFuncs M F \<longleftrightarrow> (\<exists>i\<in>set (insts_of M F). returns_struct_pointer M i)"

subsection \<open>The source of a store\<close>

definition store_deps_of :: "ir_module \<Rightarrow> llvm_env \<Rightarrow> func_table \<Rightarrow> func_ptr \<Rightarrow> inst_ptr \<Rightarrow> data_dep list option" where
  "store_deps_of M P fs F i =
     (case i_operands (M ! i) of
        _ # v # _ \<Rightarrow>
          (case v of
             VInst addr \<Rightarrow>
               if is_alloca M addr
               then Some [new_DataDep\<lparr>dd_type := rn_localVariable, dd_local := Some addr\<rparr>]
               else extractDataDependency M P (length (fn_args (fn_at fs F))) addr True
           | _ \<Rightarrow> Some [new_DataDep\<lparr>dd_type := rn_globalVariable, dd_global := Some v\<rparr>])
      | _ \<Rightarrow> None)"

definition store_dep_from :: "ir_module \<Rightarrow> llvm_env \<Rightarrow> func_table \<Rightarrow> func_ptr \<Rightarrow> inst_ptr \<Rightarrow> store_dep list option" where
  "store_dep_from M P fs F i =
     (case store_deps_of M P fs F i of
        None \<Rightarrow> None
      | Some [] \<Rightarrow> Some []
      | Some [d] \<Rightarrow> Some [\<lparr>sdep_inst = i, sdep_func = F, sdep_dep = d\<rparr>]
      | Some _ \<Rightarrow> None)"

definition findStoreDependencyFromSI :: "ir_module \<Rightarrow> llvm_env \<Rightarrow> func_table \<Rightarrow> func_ptr \<Rightarrow> store_dep list option" where
  "findStoreDependencyFromSI M P fs F = collect (store_dep_from M P fs F) (StoreInsts M F)"

definition ret_vars :: "ir_module \<Rightarrow> func_table \<Rightarrow> func_ptr \<Rightarrow> inst_ptr list" where
  "ret_vars M fs F = filter (\<lambda>i. i_op (M ! i) = OpAlloca (fn_ReturnType (fn_at fs F))) (insts_of M F)"

definition from_ret :: "inst_ptr list \<Rightarrow> data_dep \<Rightarrow> data_dep" where
  "from_ret rvs d =
     (if dd_type d = rn_localVariable \<and> (\<exists>a\<in>set rvs. dd_local d = Some a \<and> dd_sp d \<noteq> [])
      then d\<lparr>dd_type := rn_structPointerParam\<rparr> else d)"

definition findStoreDependencyFromRI :: "ir_module \<Rightarrow> func_table \<Rightarrow> func_ptr \<Rightarrow> store_dep list \<Rightarrow> store_dep list" where
  "findStoreDependencyFromRI M fs F sds =
     map (\<lambda>sd. sd\<lparr>sdep_dep := from_ret (ret_vars M fs F) (sdep_dep sd)\<rparr>) sds"

text \<open>The first half of \<open>runOnModule\<close>: the table \<open>_SDMap\<close>.\<close>

definition sd_of_function :: "ir_module \<Rightarrow> (func_ptr \<Rightarrow> llvm_env) \<Rightarrow> func_table \<Rightarrow> func_ptr \<Rightarrow> store_dep list option" where
  "sd_of_function M Pf fs F =
     (if fn_isDeclaration (fn_at fs F) \<or> fn_empty (fn_at fs F) then Some []
      else map_option (\<lambda>sds. if RetFuncs M F then findStoreDependencyFromRI M fs F sds else sds)
             (findStoreDependencyFromSI M (Pf F) fs F))"

fun build_sd_map :: "ir_module \<Rightarrow> (func_ptr \<Rightarrow> llvm_env) \<Rightarrow> func_table \<Rightarrow> func_ptr list \<Rightarrow> sd_map \<Rightarrow> sd_map option" where
  "build_sd_map M Pf fs [] m = Some m"
| "build_sd_map M Pf fs (F # Fs) m =
     (case sd_of_function M Pf fs F of None \<Rightarrow> None | Some sds \<Rightarrow> build_sd_map M Pf fs Fs (m(F := sds)))"

subsection \<open>Stores of a branch variable\<close>

text \<open>\<open>storeDeps.insert(SD)\<close> for each element: a set of pointers holds each store once.\<close>

definition insert_all :: "'a list \<Rightarrow> 'a list \<Rightarrow> 'a list" where
  "insert_all found new = fold (\<lambda>x acc. if x \<in> set acc then acc else acc @ [x]) new found"

definition isContainStructPointerList :: "struct_pointer list \<Rightarrow> struct_pointer list \<Rightarrow> bool" where
  "isContainStructPointerList l1 l2 \<longleftrightarrow>
     length l2 \<le> length l1 \<and> (\<forall>(a, b)\<in>set (zip (rev l1) (rev l2)). a = b)"

definition all_stores :: "func_table \<Rightarrow> sd_map \<Rightarrow> store_dep list" where
  "all_stores fs sdm = concat (map sdm [0..<length fs])"

definition findStoresForBranch ::
  "func_table \<Rightarrow> llvm_env \<Rightarrow> sd_map \<Rightarrow> inst_ptr \<Rightarrow> func_ptr \<Rightarrow> data_dep \<Rightarrow> store_dep list \<Rightarrow> store_dep list" where
  "findStoresForBranch fs P sdm br F d found =
     (case dd_type d of
        rn_localVariable \<Rightarrow>
          insert_all found (filter (\<lambda>sd. dd_type (sdep_dep sd) = rn_localVariable \<and> dd_local d = dd_local (sdep_dep sd) \<and>
                               le_reach P (sdep_inst sd) br {}) (sdm F))
      | rn_globalVariable \<Rightarrow>
          insert_all found (filter (\<lambda>sd. dd_type (sdep_dep sd) = rn_globalVariable \<and> dd_global d = dd_global (sdep_dep sd))
                    (all_stores fs sdm))
      | rn_structPointerParam \<Rightarrow>
          insert_all found (filter (\<lambda>sd. dd_type (sdep_dep sd) = rn_structPointerParam \<and>
                               isContainStructPointerList (dd_sp (sdep_dep sd)) (dd_sp d)) (all_stores fs sdm))
      | _ \<Rightarrow> found)"

subsection \<open>Following a parameter to the callers\<close>

text \<open>
  The state of the loop: the calls still to trace (back first), the functions traced, the parameter each
  call passes on, the stores found and the source found last.
\<close>

record cg_search =
  cs_calls :: "inst_ptr list"
  cs_funcs :: "func_ptr set"
  cs_index :: "inst_ptr \<Rightarrow> nat"
  cs_stores :: "store_dep list"
  cs_dep :: "data_dep option"

definition push_caller :: "nat \<Rightarrow> edge \<Rightarrow> cg_search \<Rightarrow> cg_search" where
  "push_caller k e st =
     (if e_src e \<in> cs_funcs st then st
      else st\<lparr>cs_calls := e_inst e # cs_calls st, cs_funcs := insert (e_src e) (cs_funcs st),
              cs_index := (cs_index st)(e_inst e := k)\<rparr>)"

text \<open>\<open>getNode(F)->in_edges\<close> is \<open>in_of\<close>: a node that is created here has no edges.\<close>

definition push_callers :: "cg \<Rightarrow> func_ptr \<Rightarrow> nat \<Rightarrow> cg_search \<Rightarrow> cg_search" where
  "push_callers g F k st = fold (push_caller k) (in_of g F) st"

definition found_source ::
  "ir_module \<Rightarrow> func_table \<Rightarrow> llvm_env \<Rightarrow> sd_map \<Rightarrow> inst_ptr \<Rightarrow> func_ptr \<Rightarrow> func_ptr \<Rightarrow> data_dep \<Rightarrow> cg_search \<Rightarrow> cg_search" where
  "found_source M fs P sdm br F cur_func d st =
     st\<lparr>cs_funcs := cs_funcs st - {cur_func},
        cs_stores := (if dd_type d = rn_localVariable
          then insert_all (cs_stores st)
                 (filter (\<lambda>sd. dd_type (sdep_dep sd) = rn_localVariable \<and> dd_local d = dd_local (sdep_dep sd)) (sdm cur_func))
          else findStoresForBranch fs P sdm br F d (cs_stores st)),
        cs_dep := Some d\<rparr>"

definition trace_call ::
  "ir_module \<Rightarrow> func_table \<Rightarrow> (func_ptr \<Rightarrow> llvm_env) \<Rightarrow> cg \<Rightarrow> sd_map \<Rightarrow> inst_ptr \<Rightarrow> func_ptr \<Rightarrow> inst_ptr \<Rightarrow> cg_search \<Rightarrow> cg_search option" where
  "trace_call M fs Pf g sdm br F c st =
     (let cur_func = i_function (M ! c); k = cs_index st c
      in if k \<ge> length (i_operands (M ! c)) then None
         else case i_operands (M ! c) ! k of
           VInst call_op \<Rightarrow>
             (case extractDataDependency M (Pf F) (length (fn_args (fn_at fs cur_func))) call_op True of
                None \<Rightarrow> None
              | Some [] \<Rightarrow> Some st
              | Some (d # _) \<Rightarrow>
                  Some (if dd_type d = rn_nonPointerParam then push_callers g cur_func (dd_param d) st
                        else found_source M fs (Pf F) sdm br F cur_func d st))
         | _ \<Rightarrow> Some st)"

text \<open>The outer \<open>None\<close> would be a loop that never ends, the inner one a crash.\<close>

partial_function (option) cg_loop ::
  "ir_module \<Rightarrow> func_table \<Rightarrow> (func_ptr \<Rightarrow> llvm_env) \<Rightarrow> cg \<Rightarrow> sd_map \<Rightarrow> inst_ptr \<Rightarrow> func_ptr \<Rightarrow> cg_search \<Rightarrow>
   cg_search option option" where
  "cg_loop M fs Pf g sdm br F st =
     (case cs_calls st of
        [] \<Rightarrow> Some (Some st)
      | c # cs \<Rightarrow>
          (case trace_call M fs Pf g sdm br F c (st\<lparr>cs_calls := cs\<rparr>) of
             None \<Rightarrow> Some None
           | Some st1 \<Rightarrow> cg_loop M fs Pf g sdm br F st1))"

definition cg_start :: "cg \<Rightarrow> func_ptr \<Rightarrow> data_dep \<Rightarrow> cg_search" where
  "cg_start g F d =
     push_callers g F (dd_param d)
       \<lparr>cs_calls = [], cs_funcs = {F}, cs_index = (\<lambda>_. 0), cs_stores = [], cs_dep = None\<rparr>"

definition findStoresForBranchOnCG ::
  "ir_module \<Rightarrow> func_table \<Rightarrow> (func_ptr \<Rightarrow> llvm_env) \<Rightarrow> cg \<Rightarrow> sd_map \<Rightarrow> inst_ptr \<Rightarrow> func_ptr \<Rightarrow> data_dep \<Rightarrow>
   (data_dep option \<times> store_dep list) option" where
  "findStoresForBranchOnCG M fs Pf g sdm br F d =
     (case cg_loop M fs Pf g sdm br F (cg_start g F d) of
        Some (Some st) \<Rightarrow> Some (cs_dep st, cs_stores st)
      | _ \<Rightarrow> None)"

subsection \<open>Matching branches and stores\<close>

record var_dep =
  vd_id :: nat
  vd_dep :: "data_dep option"
  vd_stores :: "store_dep list"

record bv_dep =
  bv_inst :: inst_ptr
  bv_func :: func_ptr
  bv_id :: nat
  bv_store_num :: nat
  bv_vars :: "var_dep list"

text \<open>The loop over the sources of one branch; \<open>idx\<close> is \<open>BD_var_idx\<close>, a parameter's variable has id 0.\<close>

fun match_vars ::
  "ir_module \<Rightarrow> func_table \<Rightarrow> (func_ptr \<Rightarrow> llvm_env) \<Rightarrow> cg \<Rightarrow> sd_map \<Rightarrow> inst_ptr \<Rightarrow> func_ptr \<Rightarrow> nat \<Rightarrow> data_dep list \<Rightarrow>
   var_dep list option" where
  "match_vars M fs Pf g sdm br F idx [] = Some []"
| "match_vars M fs Pf g sdm br F idx (d # ds) =
     (if dd_type d \<noteq> rn_nonPointerParam
      then map_option (\<lambda>vs. \<lparr>vd_id = idx, vd_dep = Some d, vd_stores = findStoresForBranch fs (Pf F) sdm br F d []\<rparr> # vs)
             (match_vars M fs Pf g sdm br F (Suc idx) ds)
      else case findStoresForBranchOnCG M fs Pf g sdm br F d of
        None \<Rightarrow> None
      | Some (dep, stores) \<Rightarrow>
          map_option (\<lambda>vs. if stores = [] then vs else \<lparr>vd_id = 0, vd_dep = dep, vd_stores = stores\<rparr> # vs)
            (match_vars M fs Pf g sdm br F idx ds))"

fun match_branches ::
  "ir_module \<Rightarrow> func_table \<Rightarrow> (func_ptr \<Rightarrow> llvm_env) \<Rightarrow> cg \<Rightarrow> sd_map \<Rightarrow> nat \<Rightarrow> branch_dep list \<Rightarrow> bv_dep list option" where
  "match_branches M fs Pf g sdm n [] = Some []"
| "match_branches M fs Pf g sdm n (bd # bds) =
     (case match_vars M fs Pf g sdm (bdep_inst bd) (bdep_func bd) 0 (bdep_deps bd) of
        None \<Rightarrow> None
      | Some vs \<Rightarrow>
          map_option (\<lambda>bvs. \<lparr>bv_inst = bdep_inst bd, bv_func = bdep_func bd, bv_id = Suc n,
                             bv_store_num = sum_list (map (\<lambda>v. length (vd_stores v)) vs), bv_vars = vs\<rparr> # bvs)
            (match_branches M fs Pf g sdm (Suc n) bds))"

subsection \<open>Metadata\<close>

text \<open>The metadata of an instruction: a map from labels to strings.\<close>

type_synonym md = "inst_ptr \<Rightarrow> string \<Rightarrow> string option"

fun to_string :: "nat \<Rightarrow> string" where
  "to_string n = (if n < 10 then [char_of (48 + n)] else to_string (n div 10) @ [char_of (48 + n mod 10)])"

declare to_string.simps [simp del]

definition stoi :: "string \<Rightarrow> nat" where
  "stoi s = atoi_digits 0 s"

definition label_t :: "nat \<Rightarrow> string" where
  "label_t vid = ''v_'' @ to_string vid @ ''_t''"

definition label_s_n :: "nat \<Rightarrow> string" where
  "label_s_n vid = ''v_'' @ to_string vid @ ''_s_num''"

definition label_id :: "nat \<Rightarrow> nat \<Rightarrow> string" where
  "label_id vid idx = ''s_'' @ to_string vid @ ''_'' @ to_string idx"

definition set_md :: "inst_ptr \<Rightarrow> string \<Rightarrow> string \<Rightarrow> md \<Rightarrow> md" where
  "set_md i l v m = m(i := (m i)(l \<mapsto> v))"

fun number_stores :: "nat \<Rightarrow> store_dep list \<Rightarrow> md \<times> (inst_ptr \<Rightarrow> nat) \<Rightarrow> md \<times> (inst_ptr \<Rightarrow> nat)" where
  "number_stores n [] st = st"
| "number_stores n (sd # sds) (m, ids) =
     number_stores (Suc n) sds (set_md (sdep_inst sd) ''sid'' (to_string (Suc n)) m, ids(sdep_inst sd := Suc n))"

definition var_type :: "var_dep \<Rightarrow> nat option" where
  "var_type v =
     (case vd_dep v of
        None \<Rightarrow> None
      | Some d \<Rightarrow> (case dd_type d of rn_globalVariable \<Rightarrow> Some 1 | rn_localVariable \<Rightarrow> Some 2
                   | rn_structPointerParam \<Rightarrow> Some 3 | _ \<Rightarrow> None))"

text \<open>The labels of one branch. \<open>n\<close> counts the variables, down for each one without stores.\<close>

fun write_stores :: "nat \<Rightarrow> nat \<Rightarrow> nat list \<Rightarrow> (string \<rightharpoonup> string) \<Rightarrow> string \<rightharpoonup> string" where
  "write_stores vid idx [] m = m"
| "write_stores vid idx (sid # sids) m = write_stores vid (Suc idx) sids (m(label_id vid idx \<mapsto> to_string sid))"

fun write_vars :: "(inst_ptr \<Rightarrow> nat) \<Rightarrow> var_dep list \<Rightarrow> nat \<times> (string \<rightharpoonup> string) \<Rightarrow> (nat \<times> (string \<rightharpoonup> string)) option" where
  "write_vars ids [] st = Some st"
| "write_vars ids (v # vs) (n, m) =
     (if vd_stores v = [] then write_vars ids vs (n - 1, m)
      else case var_type v of
        None \<Rightarrow> None
      | Some t \<Rightarrow>
          write_vars ids vs
            (n, write_stores (vd_id v) 0 (map (\<lambda>sd. ids (sdep_inst sd)) (vd_stores v))
                  (m(label_t (vd_id v) \<mapsto> to_string t, label_s_n (vd_id v) \<mapsto> to_string (length (vd_stores v))))))"

definition write_branch :: "(inst_ptr \<Rightarrow> nat) \<Rightarrow> bv_dep \<Rightarrow> (string \<rightharpoonup> string) \<Rightarrow> (string \<rightharpoonup> string) option" where
  "write_branch ids bv m =
     map_option (\<lambda>(n, m1). m1(''v_num'' \<mapsto> to_string n)) (write_vars ids (bv_vars bv) (length (bv_vars bv), m))"

fun write_branches :: "(inst_ptr \<Rightarrow> nat) \<Rightarrow> bv_dep list \<Rightarrow> md \<Rightarrow> md option" where
  "write_branches ids [] m = Some m"
| "write_branches ids (bv # bvs) m =
     (if bv_store_num bv = 0 then write_branches ids bvs m
      else case write_branch ids bv (m (bv_inst bv)) of
        None \<Rightarrow> None
      | Some l \<Rightarrow> write_branches ids bvs (m(bv_inst bv := l)))"

definition setInstMetaData :: "func_table \<Rightarrow> sd_map \<Rightarrow> bv_dep list \<Rightarrow> md \<Rightarrow> md option" where
  "setInstMetaData fs sdm bvs m =
     (let m1 = fold (\<lambda>bv m. if bv_store_num bv = 0 then m else set_md (bv_inst bv) ''bid'' (to_string (bv_id bv)) m) bvs m;
          (m2, ids) = number_stores 0 (all_stores fs sdm) (m1, \<lambda>_. 0)
      in write_branches ids bvs m2)"

definition ida_runOnModule :: "ir_module \<Rightarrow> (func_ptr \<Rightarrow> llvm_env) \<Rightarrow> func_table \<Rightarrow> md option" where
  "ida_runOnModule M Pf fs =
     (case bda_runOnModule M Pf fs of
        None \<Rightarrow> None
      | Some fbd \<Rightarrow>
      (case build_sd_map M Pf fs [0..<length fs] (\<lambda>_. []) of
        None \<Rightarrow> None
      | Some sdm \<Rightarrow>
      (case match_branches M fs Pf (cg_runOnModule M fs) sdm 0 fbd of
        None \<Rightarrow> None
      | Some bvs \<Rightarrow> setInstMetaData fs sdm bvs (\<lambda>_. Map.empty))))"

subsection \<open>Matching of struct-pointer chains\<close>

lemma zip_equal_prefix:
  "length ys \<le> length xs \<Longrightarrow> (\<forall>(a, b)\<in>set (zip xs ys). a = b) \<longleftrightarrow> prefix ys xs"
proof (induction xs arbitrary: ys)
  case (Cons x xs)
  then show ?case by (cases ys) auto
qed simp

lemma isEqualStructPointerList_iff: "isEqualStructPointerList l1 l2 \<longleftrightarrow> l1 = l2"
proof (cases "length l1 = length l2")
  case True
  then have "(\<forall>(a, b)\<in>set (zip l1 l2). a = b) \<longleftrightarrow> l1 = l2"
    by (induction l1 l2 rule: list_induct2) auto
  with True show ?thesis by (simp add: isEqualStructPointerList_def)
qed (auto simp: isEqualStructPointerList_def)

text \<open>
  \<open>isContainStructPointerList\<close> is the suffix order: the chain of the store has the chain of the branch
  at its end, where the outermost struct is.
\<close>

theorem isContain_suffix: "isContainStructPointerList l1 l2 \<longleftrightarrow> suffix l2 l1"
proof (cases "length l2 \<le> length l1")
  case True
  then show ?thesis
    using zip_equal_prefix [of "rev l2" "rev l1"] by (simp add: isContainStructPointerList_def suffix_to_prefix)
next
  case False
  then show ?thesis using suffix_length_le [of l2 l1] by (auto simp: isContainStructPointerList_def)
qed

subsection \<open>Local variables that are returned\<close>

lemma collect_elems:
  assumes "collect f xs = Some ys" "y \<in> set ys"
  shows "\<exists>x\<in>set xs. \<exists>zs. f x = Some zs \<and> y \<in> set zs"
proof -
  have "\<exists>x\<in>set xs. \<exists>zs. f x = Some zs \<and> y \<in> set zs"
    if "foldM (\<lambda>x acc. map_option (\<lambda>ys. acc @ ys) (f x)) xs acc = Some ys" "y \<in> set ys" "y \<notin> set acc" for acc
    using that
  proof (induction xs arbitrary: acc)
    case (Cons x xs)
    then obtain zs where zs: "f x = Some zs"
        "foldM (\<lambda>x acc. map_option (\<lambda>ys. acc @ ys) (f x)) xs (acc @ zs) = Some ys"
      by (auto split: option.splits)
    show ?case
    proof (cases "y \<in> set zs")
      case False
      with Cons.IH [OF zs(2) Cons.prems(2)] Cons.prems(3) show ?thesis by auto
    qed (use zs(1) in auto)
  qed simp
  with assms show ?thesis by (simp add: collect_def)
qed

lemma store_dep_local_no_chain:
  assumes "store_dep_from M P fs F i = Some sds" "sd \<in> set sds" "dd_type (sdep_dep sd) = rn_localVariable"
  shows "dd_sp (sdep_dep sd) = []"
proof -
  obtain d where d: "store_deps_of M P fs F i = Some [d]" "sdep_dep sd = d"
    using assms(1,2) by (auto simp: store_dep_from_def split: option.splits list.splits)
  then obtain v0 v vs where ops: "i_operands (M ! i) = v0 # v # vs"
    by (auto simp: store_deps_of_def split: list.splits)
  show ?thesis
  proof (cases "\<exists>a. v = VInst a \<and> \<not> is_alloca M a")
    case True
    then obtain a where "v = VInst a" "\<not> is_alloca M a" by blast
    with d(1) ops have "wf_dep M (length (fn_args (fn_at fs F))) d"
      by (auto simp: store_deps_of_def dest!: extractDataDependency_wf)
    with assms(3) d(2) show ?thesis by (simp add: wf_dep_def)
  next
    case False
    with d(1) ops have "dd_sp d = []"
      by (cases v) (auto simp: store_deps_of_def new_DataDep_def)
    with d(2) show ?thesis by simp
  qed
qed

lemma sum_store_dep: "findStoreDependencyFromSI sum_module sum_env one_function 0 =
    Some [\<lparr>sdep_inst = 2, sdep_func = 0, sdep_dep = local_dep 1\<rparr>]"
proof -
  have "StoreInsts sum_module 0 = [2]"
    unfolding StoreInsts_def sum_insts by (simp add: store_candidate_def sum_module_def is_IntegerTy_def val_type_def)
  moreover have "store_dep_from sum_module sum_env one_function 0 2 = Some [\<lparr>sdep_inst = 2, sdep_func = 0, sdep_dep = local_dep 1\<rparr>]"
    by (simp add: store_dep_from_def store_deps_of_def sum_module_def is_alloca_def inst_at_def local_dep_def)
  ultimately show ?thesis by (simp add: findStoreDependencyFromSI_def)
qed

lemma sum_stores: "build_sd_map sum_module (\<lambda>_. sum_env) one_function [0..<length one_function] (\<lambda>_. []) =
    Some ((\<lambda>_. [])(0 := [\<lparr>sdep_inst = 2, sdep_func = 0, sdep_dep = local_dep 1\<rparr>]))"
proof -
  have "\<not> RetFuncs sum_module 0"
    unfolding RetFuncs_def sum_insts by (simp add: returns_struct_pointer_def sum_module_def)
  then have "sd_of_function sum_module (\<lambda>_. sum_env) one_function 0 = Some [\<lparr>sdep_inst = 2, sdep_func = 0, sdep_dep = local_dep 1\<rparr>]"
    using sum_store_dep by (simp add: sd_of_function_def one_function_def fn_at_def)
  then show ?thesis by (simp add: one_function_def)
qed

text \<open>
  \<open>findStoreDependencyFromRI\<close> has no effect: it would turn a local variable that is returned into a
  struct-pointer source if its chain of struct pointers were not empty, but no dependency of a local
  variable carries a chain.
\<close>

theorem findStoreDependencyFromRI_no_effect:
  assumes "findStoreDependencyFromSI M P fs F = Some sds"
  shows "findStoreDependencyFromRI M fs F sds = sds"
proof -
  have "from_ret (ret_vars M fs F) (sdep_dep sd) = sdep_dep sd" if "sd \<in> set sds" for sd
    using collect_elems [of "store_dep_from M P fs F" "StoreInsts M F" sds sd] assms that
      store_dep_local_no_chain [of M P fs F _ _ sd]
    by (auto simp: findStoreDependencyFromSI_def from_ret_def)
  then show ?thesis by (simp add: findStoreDependencyFromRI_def map_idI)
qed

theorem findStoreDependencyFromRI_no_effect_witness:
  "findStoreDependencyFromRI sum_module one_function 0 [\<lparr>sdep_inst = 2, sdep_func = 0, sdep_dep = local_dep 1\<rparr>] =
     [\<lparr>sdep_inst = 2, sdep_func = 0, sdep_dep = local_dep 1\<rparr>]"
  by (rule findStoreDependencyFromRI_no_effect [OF sum_store_dep])

subsection \<open>The search over the callers ends\<close>

definition pending :: "ir_module \<Rightarrow> cg_search \<Rightarrow> func_ptr list" where
  "pending M st = map (\<lambda>c. i_function (M ! c)) (cs_calls st)"

text \<open>Every function has at most one call waiting, and a waiting function is traced.\<close>

definition search_ok :: "ir_module \<Rightarrow> func_ptr set \<Rightarrow> cg_search \<Rightarrow> bool" where
  "search_ok M U st \<longleftrightarrow> distinct (pending M st) \<and> set (pending M st) \<subseteq> cs_funcs st \<and> cs_funcs st \<subseteq> U"

text \<open>The functions that are done with for good.\<close>

definition finished :: "ir_module \<Rightarrow> cg_search \<Rightarrow> func_ptr set" where
  "finished M st = cs_funcs st - set (pending M st)"

definition callers_in :: "ir_module \<Rightarrow> cg \<Rightarrow> func_ptr set \<Rightarrow> bool" where
  "callers_in M g U \<longleftrightarrow> (\<forall>F. \<forall>e\<in>set (in_of g F). i_function (M ! e_inst e) = e_src e \<and> e_src e \<in> U)"

lemma push_caller_ok:
  assumes "search_ok M U st" "i_function (M ! e_inst e) = e_src e" "e_src e \<in> U"
  shows "search_ok M U (push_caller k e st) \<and> finished M (push_caller k e st) = finished M st"
  using assms by (auto simp: search_ok_def finished_def pending_def push_caller_def)

lemma push_callers_ok:
  assumes "search_ok M U st" "callers_in M g U"
  shows "search_ok M U (push_callers g F k st) \<and> finished M (push_callers g F k st) = finished M st"
proof -
  have "search_ok M U (fold (push_caller k) es st) \<and> finished M (fold (push_caller k) es st) = finished M st"
    if "\<forall>e\<in>set es. i_function (M ! e_inst e) = e_src e \<and> e_src e \<in> U" for es
    using that assms(1)
  proof (induction es arbitrary: st)
    case (Cons e es)
    with push_caller_ok [of M U st e k] show ?case by simp
  qed simp
  with assms(2) show ?thesis by (simp add: push_callers_def callers_in_def)
qed

text \<open>Either the function of the call is finished now, or it is forgotten and one call less waits.\<close>

lemma trace_call_ok:
  assumes st: "search_ok M U st" and c: "cs_calls st = c # cs" and callers: "callers_in M g U"
    and t: "trace_call M fs Pf g sdm br F c (st\<lparr>cs_calls := cs\<rparr>) = Some st1"
  shows "search_ok M U st1 \<and>
    (finished M st1 = insert (i_function (M ! c)) (finished M st) \<or>
     finished M st1 = finished M st \<and> length (cs_calls st1) < length (cs_calls st))"
proof -
  let ?F = "i_function (M ! c)" and ?st0 = "st\<lparr>cs_calls := cs\<rparr>"
  have st0: "search_ok M U ?st0" "finished M ?st0 = insert ?F (finished M st)"
    using st c by (auto simp: search_ok_def finished_def pending_def)
  have notin: "?F \<notin> set (pending M ?st0)" using st c by (simp add: search_ok_def pending_def)
  consider "st1 = ?st0" | k where "st1 = push_callers g ?F k ?st0"
    | d where "st1 = found_source M fs (Pf F) sdm br F ?F d ?st0"
    using t by (auto simp: trace_call_def Let_def split: if_splits val.splits option.splits list.splits)
  then show ?thesis
  proof cases
    case 1
    with st0 show ?thesis by simp
  next
    case (2 k)
    with push_callers_ok [OF st0(1) callers, of ?F k] st0(2) show ?thesis by simp
  next
    case (3 d)
    then have st1: "pending M st1 = pending M ?st0" "cs_funcs st1 = cs_funcs st - {?F}" "cs_calls st1 = cs"
      by (simp_all add: found_source_def pending_def)
    have "search_ok M U st1" using st0(1) notin unfolding search_ok_def st1(1,2) by auto
    moreover have "pending M st = ?F # pending M ?st0" using c by (simp add: pending_def)
    then have "finished M st1 = finished M st" unfolding finished_def st1(1,2) by auto
    ultimately show ?thesis using st1(3) c by simp
  qed
qed

lemma cg_loop_ends:
  assumes "finite U" "callers_in M g U" "search_ok M U st"
  shows "\<exists>r. cg_loop M fs Pf g sdm br F st = Some r"
  using assms(3)
proof (induction st rule: wf_induct_rule
    [OF wf_measures [of "[\<lambda>st. card (U - finished M st), \<lambda>st. length (cs_calls st)]"]])
  case (1 st)
  show ?case
  proof (cases "cs_calls st")
    case Nil
    then show ?thesis by (subst cg_loop.simps) simp
  next
    case (Cons c cs)
    show ?thesis
    proof (cases "trace_call M fs Pf g sdm br F c (st\<lparr>cs_calls := cs\<rparr>)")
      case None
      with Cons show ?thesis by (subst cg_loop.simps) simp
    next
      case (Some st1)
      note ok = trace_call_ok [OF 1(2) Cons assms(2) Some]
      let ?F = "i_function (M ! c)"
      have F: "?F \<in> U" "?F \<notin> finished M st"
        using 1(2) Cons by (auto simp: search_ok_def finished_def pending_def)
      have "card (U - insert ?F (finished M st)) < card (U - finished M st)"
        using F assms(1) by (intro psubset_card_mono) auto
      with ok have "(st1, st) \<in> measures [\<lambda>st. card (U - finished M st), \<lambda>st. length (cs_calls st)]" by auto
      with 1(1) ok obtain r where "cg_loop M fs Pf g sdm br F st1 = Some r" by blast
      with Cons Some show ?thesis by (subst cg_loop.simps) simp
    qed
  qed
qed

lemma direct_call_site: "e \<in> direct_calls M fs F \<Longrightarrow> e_inst e < length M \<and> i_function (M ! e_inst e) = F"
  by (auto simp: direct_calls_def call_edge_def split: if_splits option.splits)

lemma callers_in_module: "callers_in M (cg_runOnModule M fs) {F. F < length fs}"
proof -
  have "e_inst e < length M \<and> i_function (M ! e_inst e) = e_src e \<and> e_src e < length fs"
    if "e \<in> set (in_of (cg_runOnModule M fs) F)" for F e
  proof -
    have "e \<in> (if e_src e < length fs then direct_calls M fs (e_src e) else {})"
      using cg_graph [of fs M, unfolded graph_of_def, THEN conjunct2, THEN conjunct2, rule_format, of e F] that by blast
    then show ?thesis using direct_call_site [of e M fs "e_src e"] by (simp split: if_splits)
  qed
  then show ?thesis by (auto simp: callers_in_def)
qed

text \<open>
  C27. The search over the callers of a branch on a parameter always ends, although a function may be
  traced again after it was erased from \<open>traced_funcs\<close>.
\<close>

theorem cg_search_terminates:
  assumes "F < length fs"
  shows "\<exists>r. cg_loop M fs Pf (cg_runOnModule M fs) sdm br F (cg_start (cg_runOnModule M fs) F d) = Some r"
proof (rule cg_loop_ends [OF _ callers_in_module])
  let ?st = "\<lparr>cs_calls = [], cs_funcs = {F}, cs_index = (\<lambda>_. 0 :: nat), cs_stores = [], cs_dep = None\<rparr>"
  have "search_ok M {F. F < length fs} ?st" using assms by (simp add: search_ok_def pending_def)
  then show "search_ok M {F. F < length fs} (cg_start (cg_runOnModule M fs) F d)"
    using push_callers_ok [OF _ callers_in_module] by (simp add: cg_start_def)
qed simp

theorem cg_search_terminates_witness:
  "\<exists>r. cg_loop vector_module one_function (\<lambda>_. vector_env) (cg_runOnModule vector_module one_function) (\<lambda>_. []) 7 0
     (cg_start (cg_runOnModule vector_module one_function) 0 new_DataDep) = Some r"
  by (rule cg_search_terminates) (simp add: one_function_def)

subsection \<open>A store through a select\<close>

text \<open>\<open>*(c ? &a : &b) = 7\<close> with two integer locals.\<close>

definition select_module :: ir_module where
  "select_module =
     [\<lparr>i_op = OpAlloca (TInteger 32), i_operands = [], i_type = TPointer (TInteger 32), i_parent = 0, i_function = 0\<rparr>,
      \<lparr>i_op = OpAlloca (TInteger 32), i_operands = [], i_type = TPointer (TInteger 32), i_parent = 0, i_function = 0\<rparr>,
      \<lparr>i_op = OpOther 2, i_operands = [VArgument 0 (TInteger 1), VInst 0, VInst 1], i_type = TPointer (TInteger 32),
       i_parent = 0, i_function = 0\<rparr>,
      \<lparr>i_op = OpStore, i_operands = [VConstantInt 32 7, VInst 2], i_type = TVoid, i_parent = 0, i_function = 0\<rparr>]"

definition select_env :: llvm_env where
  "select_env = \<lparr>le_users = (\<lambda>i. if i < 2 then [2] else []), le_reach = (\<lambda>_ _ _. True), le_bbname = (\<lambda>_. ''%0'')\<rparr>"

text \<open>
  A store whose address may be one of two local variables has two sources: the analysis fails its
  assertion that a store has one source, and the whole module gets no metadata.
\<close>

theorem store_through_select_asserts:
  "extractDataDependency select_module select_env 1 2 True = Some [local_dep 0, local_dep 1] \<and>
   findStoreDependencyFromSI select_module select_env one_function 0 = None"
proof -
  have deps: "extractDataDependency select_module select_env 1 2 True = Some [local_dep 0, local_dep 1]"
    by (simp add: extractDataDependency_def select_module_def select_env_def extract_eval local_dep_def)
  have insts: "insts_of select_module 0 = [0, 1, 2, 3]"
    by (simp add: insts_of_def select_module_def upt_rec)
  have "StoreInsts select_module 0 = [3]"
    unfolding StoreInsts_def insts by (simp add: store_candidate_def select_module_def is_IntegerTy_def val_type_def)
  moreover have "store_deps_of select_module select_env one_function 0 3 = Some [local_dep 0, local_dep 1]"
    unfolding deps [symmetric] by (simp add: store_deps_of_def is_alloca_def inst_at_def select_module_def one_function_def fn_at_def)
  ultimately show ?thesis using deps by (simp add: findStoreDependencyFromSI_def store_dep_from_def)
qed

end
