(* ===== verification/Metadata.thy ===== *)
theory Metadata
  imports Interprocedural CGS_Round
begin

section \<open>Loading the metadata\<close>

text \<open>
  \<open>Executor::setModule\<close> (\<open>klee/lib/Core/Executor.cpp\<close>) reads what \<open>setInstMetaData\<close> of the analysis
  wrote: the id of every store, then for every branch with an id its record, its stores, and the tables
  that relate stores, branches and functions. \<open>None\<close> is the dereference of a label that is missing.
  LLVM's \<open>getUnsignedPredicate\<close> is the parameter \<open>upred\<close>.
\<close>

subsection \<open>Stores\<close>

definition load_store :: "ir_module \<Rightarrow> md \<Rightarrow> inst_ptr \<Rightarrow> cgs_exec \<Rightarrow> cgs_exec" where
  "load_store M m i x =
     (if i_op (M ! i) = OpStore
      then (case m i ''sid'' of
              None \<Rightarrow> x
            | Some s \<Rightarrow> x\<lparr>ID2SI := (ID2SI x)(stoi s \<mapsto> i), SI2ID := (SI2ID x)(i := stoi s)\<rparr>)
      else x)"

definition module_insts :: "ir_module \<Rightarrow> func_table \<Rightarrow> inst_ptr list" where
  "module_insts M fs = concat (map (insts_of M) [0..<length fs])"

subsection \<open>Branches\<close>

text \<open>The record of a branch before its stores are read; \<open>None\<close> for a \<open>br\<close> on something else than an \<open>icmp\<close>.\<close>

definition load_condition :: "(predicate \<Rightarrow> predicate) \<Rightarrow> ir_module \<Rightarrow> instr \<Rightarrow> bddep option" where
  "load_condition upred M I =
     (case i_op I of
        OpBr _ \<Rightarrow>
          (case i_operands I of
             VInst c # _ \<Rightarrow>
               (case inst_at M c of
                  Some cond \<Rightarrow> (case i_op cond of OpICmp p \<Rightarrow> Some (new_BDDep\<lparr>bd_pred := upred p\<rparr>) | _ \<Rightarrow> None)
                | None \<Rightarrow> None)
           | _ \<Rightarrow> None)
      | OpSwitch cases \<Rightarrow> Some (new_BDDep\<lparr>bd_switch := True, bd_unCoveredValues := of_int ` set cases\<rparr>)
      | _ \<Rightarrow> None)"

text \<open>The stores of one variable: \<open>n\<close> of them from index \<open>idx\<close> on.\<close>

fun load_sids :: "(string \<rightharpoonup> string) \<Rightarrow> nat \<Rightarrow> nat \<Rightarrow> nat \<Rightarrow> nat list option" where
  "load_sids l vid idx 0 = Some []"
| "load_sids l vid idx (Suc n) =
     (case l (label_id vid idx) of
        None \<Rightarrow> None
      | Some s \<Rightarrow> map_option (\<lambda>sids. stoi s # sids) (load_sids l vid (Suc idx) n))"

text \<open>One store id: only ids of stores of the module count.\<close>

definition load_sid :: "func_ptr \<Rightarrow> nat \<Rightarrow> nat \<Rightarrow> cgs_exec \<times> bddep \<Rightarrow> cgs_exec \<times> bddep" where
  "load_sid F bid sid st =
     (case st of (x, bd) \<Rightarrow>
        (case ID2SI x sid of
           None \<Rightarrow> (x, bd)
         | Some SI \<Rightarrow>
             (x\<lparr>storetTobranches := (storetTobranches x)(sid := insert bid (storetTobranches x sid)),
                funcStores := (funcStores x)(F := insert_all (funcStores x F) [SI])\<rparr>,
              bd\<lparr>bd_stores := insert_all (bd_stores bd) [sid]\<rparr>)))"

definition share_stores :: "cgs_exec \<times> bddep \<Rightarrow> cgs_exec \<times> bddep" where
  "share_stores st =
     (case st of (x, bd) \<Rightarrow>
        if length (bd_stores bd) > 1
        then (x\<lparr>storesWithSameVar := fold (\<lambda>sid m. m(sid \<mapsto> bd_stores bd)) (bd_stores bd) (storesWithSameVar x)\<rparr>, bd)
        else (x, bd))"

fun load_vars :: "(string \<rightharpoonup> string) \<Rightarrow> func_ptr \<Rightarrow> nat \<Rightarrow> nat list \<Rightarrow> cgs_exec \<times> bddep \<Rightarrow> (cgs_exec \<times> bddep) option" where
  "load_vars l F bid [] st = Some st"
| "load_vars l F bid (vid # vids) st =
     (case l (label_s_n vid) of
        None \<Rightarrow> load_vars l F bid vids st
      | Some s \<Rightarrow>
          (case load_sids l vid 0 (stoi s) of
             None \<Rightarrow> None
           | Some sids \<Rightarrow> load_vars l F bid vids (share_stores (fold (load_sid F bid) sids st))))"

definition load_branch :: "(predicate \<Rightarrow> predicate) \<Rightarrow> ir_module \<Rightarrow> md \<Rightarrow> inst_ptr \<Rightarrow> cgs_exec \<Rightarrow> cgs_exec option" where
  "load_branch upred M m i x =
     (case m i ''bid'' of
        None \<Rightarrow> Some x
      | Some s \<Rightarrow>
      (case load_condition upred M (M ! i) of
        None \<Rightarrow> Some x
      | Some bd0 \<Rightarrow>
      (case m i ''v_num'' of
        None \<Rightarrow> None
      | Some n \<Rightarrow>
          (let bid = stoi s;
               x1 = x\<lparr>ID2BI := (ID2BI x)(bid \<mapsto> i), BI2ID := (BI2ID x)(Some i \<mapsto> bid)\<rparr>;
               bd1 = bd0\<lparr>bd_inst := i, bd_id := bid, bd_var_num := stoi n\<rparr>
           in map_option (\<lambda>(x2, bd2). x2\<lparr>BDDeps := (BDDeps x2)(bid \<mapsto> bd2)\<rparr>)
                (load_vars (m i) (i_function (M ! i)) bid [0..<stoi n] (x1, bd1))))))"

definition is_branch_inst :: "instr \<Rightarrow> bool" where
  "is_branch_inst I = (case i_op I of OpBr _ \<Rightarrow> True | OpSwitch _ \<Rightarrow> True | _ \<Rightarrow> False)"

definition load_metadata ::
  "(predicate \<Rightarrow> predicate) \<Rightarrow> ir_module \<Rightarrow> func_table \<Rightarrow> nat \<Rightarrow> nat \<Rightarrow> md \<Rightarrow> cgs_exec option" where
  "load_metadata upred M fs num maxc m =
     foldM (load_branch upred M m) (filter (\<lambda>i. is_branch_inst (M ! i)) (module_insts M fs))
       (fold (load_store M m) (module_insts M fs) (init_exec num maxc))"

subsection \<open>Decimal numbers and labels\<close>

definition is_digit :: "char \<Rightarrow> bool" where
  "is_digit c \<longleftrightarrow> 48 \<le> (of_char c :: nat) \<and> (of_char c :: nat) \<le> 57"

lemma digit_char [simp]: "d < 10 \<Longrightarrow> of_char (char_of (48 + d) :: char) = 48 + (d :: nat)"
  by (simp add: of_char_of)

lemma is_digit_char [simp]: "d < 10 \<Longrightarrow> is_digit (char_of (48 + d :: nat))"
  by (simp add: is_digit_def)

lemma to_string_is_digits: "list_all is_digit (to_string n) \<and> to_string n \<noteq> []"
  by (induction n rule: to_string.induct) (subst (1 2) to_string.simps, simp)

lemma atoi_digits_append: "list_all is_digit s \<Longrightarrow> atoi_digits a (s @ t) = atoi_digits (atoi_digits a s) t"
  by (induction s arbitrary: a) (simp_all add: is_digit_def Let_def)

lemma stoi_to_string [simp]: "stoi (to_string n) = n"
proof (induction n rule: to_string.induct)
  case (1 n)
  show ?case
  proof (cases "n < 10")
    case True
    then show ?thesis by (simp add: stoi_def to_string.simps [of n])
  next
    case False
    then have "atoi_digits 0 (to_string (n div 10)) = n div 10" using 1 by (simp add: stoi_def)
    with False show ?thesis
      using to_string_is_digits [of "n div 10"]
      by (simp add: stoi_def to_string.simps [of n] atoi_digits_append)
  qed
qed

lemma to_string_inject [simp]: "to_string m = to_string n \<longleftrightarrow> m = n"
  using stoi_to_string by metis

text \<open>A label is cut at its first underscore after the number.\<close>

lemma digits_cut: "list_all is_digit s \<Longrightarrow> takeWhile is_digit (s @ CHR ''_'' # t) = s"
  by (induction s) (simp_all add: is_digit_def)

lemma to_string_cut [simp]:
  "to_string m @ CHR ''_'' # s = to_string n @ CHR ''_'' # t \<longleftrightarrow> m = n \<and> s = t"
proof
  assume *: "to_string m @ CHR ''_'' # s = to_string n @ CHR ''_'' # t"
  then have "to_string m = to_string n"
    using digits_cut to_string_is_digits by metis
  with * show "m = n \<and> s = t" by simp
qed simp

lemma to_string_head [simp]: "to_string n @ s \<noteq> CHR ''n'' # t"
proof -
  obtain c cs where "to_string n = c # cs" "is_digit c"
    using to_string_is_digits [of n] by (metis list.exhaust list.pred_inject(2))
  then show ?thesis by (auto simp: is_digit_def)
qed

lemma label_inject [simp]:
  "label_s_n v = label_s_n v' \<longleftrightarrow> v = v'"
  "label_id v k = label_id v' k' \<longleftrightarrow> v = v' \<and> k = k'"
  "label_t v \<noteq> label_s_n v'" "label_s_n v' \<noteq> label_t v" "label_t v \<noteq> label_id v' k" "label_id v' k \<noteq> label_t v"
  "label_s_n v \<noteq> label_id v' k" "label_id v' k \<noteq> label_s_n v"
  by (simp_all add: label_s_n_def label_t_def label_id_def)

definition fixed_labels :: "string set" where
  "fixed_labels = {''bid'', ''sid'', ''v_num''}"

lemma label_fixed [simp]: "label_s_n v \<notin> fixed_labels" "label_t v \<notin> fixed_labels" "label_id v k \<notin> fixed_labels"
  by (simp_all add: fixed_labels_def label_s_n_def label_t_def label_id_def)

subsection \<open>What the analysis writes\<close>

lemma write_stores_label:
  "k < length sids \<Longrightarrow> write_stores vid idx sids m (label_id vid (idx + k)) = Some (to_string (sids ! k))"
proof -
  have old: "k < idx \<Longrightarrow> write_stores vid idx sids m (label_id vid k) = m (label_id vid k)" for k idx sids m
    by (induction vid idx sids m rule: write_stores.induct) simp_all
  show "k < length sids \<Longrightarrow> ?thesis"
  proof (induction sids arbitrary: k idx m)
    case (Cons sid sids)
    show ?case
    proof (cases k)
      case 0
      then show ?thesis using old [of idx "Suc idx" sids "m(label_id vid idx \<mapsto> to_string sid)"] by simp
    next
      case (Suc k')
      have "write_stores vid (Suc idx) sids (m(label_id vid idx \<mapsto> to_string sid)) (label_id vid (Suc idx + k')) =
          Some (to_string (sids ! k'))"
        using Suc Cons.prems by (intro Cons.IH) simp
      with Suc show ?thesis by simp
    qed
  qed simp
qed

lemma write_stores_other: "(\<And>k. l \<noteq> label_id vid k) \<Longrightarrow> write_stores vid idx sids m l = m l"
  by (induction vid idx sids m rule: write_stores.induct) simp_all

lemma write_stores_dom: "m l \<noteq> None \<Longrightarrow> write_stores vid idx sids m l \<noteq> None"
  by (induction vid idx sids m rule: write_stores.induct) simp_all

text \<open>Every store that a variable announces has its label.\<close>

definition labels_ok :: "(string \<rightharpoonup> string) \<Rightarrow> bool" where
  "labels_ok l \<longleftrightarrow> (\<forall>vid s. l (label_s_n vid) = Some s \<longrightarrow> (\<forall>idx < stoi s. l (label_id vid idx) \<noteq> None))"

text \<open>The labels one variable adds.\<close>

definition var_labels :: "nat \<Rightarrow> nat \<Rightarrow> nat list \<Rightarrow> (string \<rightharpoonup> string) \<Rightarrow> string \<rightharpoonup> string" where
  "var_labels vid t sids m =
     write_stores vid 0 sids (m(label_t vid \<mapsto> to_string t, label_s_n vid \<mapsto> to_string (length sids)))"

lemma var_labels_s_n: "var_labels vid t sids m (label_s_n v) = (if v = vid then Some (to_string (length sids)) else m (label_s_n v))"
  by (simp add: var_labels_def write_stores_other)

lemma var_labels_id: "k < length sids \<Longrightarrow> var_labels vid t sids m (label_id vid k) = Some (to_string (sids ! k))"
  unfolding var_labels_def using write_stores_label [of k sids vid 0] by simp

lemma var_labels_other_id: "v \<noteq> vid \<Longrightarrow> var_labels vid t sids m (label_id v k) = m (label_id v k)"
  by (simp add: var_labels_def write_stores_other)

lemma var_labels_fixed: "l \<in> fixed_labels \<Longrightarrow> var_labels vid t sids m l = m l"
proof -
  assume "l \<in> fixed_labels"
  then have "l \<noteq> label_t vid" "l \<noteq> label_s_n vid" "l \<noteq> label_id vid k" for k
    using label_fixed by metis+
  then show ?thesis by (simp add: var_labels_def write_stores_other)
qed

lemma var_labels_dom: "m l \<noteq> None \<Longrightarrow> var_labels vid t sids m l \<noteq> None"
  unfolding var_labels_def by (rule write_stores_dom) simp

lemma var_labels_ok: "labels_ok m \<Longrightarrow> labels_ok (var_labels vid t sids m)"
  unfolding labels_ok_def
proof (intro allI impI)
  fix v s idx
  assume ok: "\<forall>v s. m (label_s_n v) = Some s \<longrightarrow> (\<forall>idx < stoi s. m (label_id v idx) \<noteq> None)"
    and s: "var_labels vid t sids m (label_s_n v) = Some s" "idx < stoi s"
  show "var_labels vid t sids m (label_id v idx) \<noteq> None"
  proof (cases "v = vid")
    case True
    with s show ?thesis by (auto simp: var_labels_s_n var_labels_id)
  next
    case False
    with s ok show ?thesis by (simp add: var_labels_s_n var_labels_other_id)
  qed
qed

lemma write_vars_Cons:
  "write_vars ids (v # vs) (n, m) =
     (if vd_stores v = [] then write_vars ids vs (n - 1, m)
      else case var_type v of None \<Rightarrow> None
      | Some t \<Rightarrow> write_vars ids vs (n, var_labels (vd_id v) t (map (\<lambda>sd. ids (sdep_inst sd)) (vd_stores v)) m))"
  by (simp add: var_labels_def cong: option.case_cong)

text \<open>An invariant that every variable's labels keep is kept by all of them.\<close>

lemma write_vars_keeps:
  assumes "write_vars ids vs (n, m) = Some (n', m')" and "Q m"
    and "\<And>vid t sids m. Q m \<Longrightarrow> Q (var_labels vid t sids m)"
  shows "Q m'"
  using assms(1,2)
proof (induction vs arbitrary: n m)
  case (Cons v vs)
  from Cons.prems(1) show ?case
    unfolding write_vars_Cons
    by (auto split: if_splits option.splits intro: Cons.IH [OF _ Cons.prems(2)] Cons.IH [OF _ assms(3) [OF Cons.prems(2)]])
qed simp

lemma write_branch_ok:
  assumes "write_branch ids bv m = Some l" "labels_ok m"
  shows "labels_ok l" "l ''bid'' = m ''bid''" "l ''v_num'' \<noteq> None"
proof -
  obtain n m1 where w: "write_vars ids (bv_vars bv) (length (bv_vars bv), m) = Some (n, m1)"
    and l: "l = m1(''v_num'' \<mapsto> to_string n)"
    using assms(1) by (auto simp: write_branch_def)
  have keep: "Q m1" if "Q m" "\<And>vid t sids m. Q m \<Longrightarrow> Q (var_labels vid t sids m)" for Q
    using write_vars_keeps [OF w] that by blast
  have "labels_ok m1" using keep [of labels_ok] assms(2) var_labels_ok by blast
  then show "labels_ok l"
    unfolding labels_ok_def l by (simp add: label_s_n_def label_id_def)
  show "l ''bid'' = m ''bid''"
    using keep [of "\<lambda>m'. m' ''bid'' = m ''bid''"] var_labels_fixed [of "''bid''"] by (simp add: l fixed_labels_def)
  show "l ''v_num'' \<noteq> None" by (simp add: l)
qed

text \<open>
  The metadata of a module whose branches are \<open>bvs\<close>: a branch id is the id of an entry for that
  instruction, and goes with the number of its variables.
\<close>

definition md_ok :: "bv_dep list \<Rightarrow> md \<Rightarrow> bool" where
  "md_ok bvs m \<longleftrightarrow> (\<forall>i. labels_ok (m i)) \<and>
     (\<forall>i s. m i ''bid'' = Some s \<longrightarrow>
        m i ''v_num'' \<noteq> None \<and> (\<exists>bv\<in>set bvs. bv_inst bv = i \<and> s = to_string (bv_id bv)))"

definition write_bid :: "bv_dep \<Rightarrow> md \<Rightarrow> md" where
  "write_bid bv m = (if bv_store_num bv = 0 then m else set_md (bv_inst bv) ''bid'' (to_string (bv_id bv)) m)"

lemma write_bids:
  "fold write_bid bvs m i l = s \<Longrightarrow>
   s = m i l \<or> (l = ''bid'' \<and> (\<exists>bv\<in>set bvs. bv_inst bv = i \<and> bv_store_num bv \<noteq> 0 \<and> s = Some (to_string (bv_id bv))))"
proof (induction bvs arbitrary: m)
  case (Cons bv bvs)
  then consider "s = write_bid bv m i l" | "l = ''bid''" "\<exists>bv\<in>set bvs. bv_inst bv = i \<and> bv_store_num bv \<noteq> 0 \<and> s = Some (to_string (bv_id bv))"
    by fastforce
  then show ?case
  proof cases
    case 1
    then show ?thesis by (auto simp: write_bid_def set_md_def split: if_splits)
  qed auto
qed simp

lemma number_stores_other: "l \<noteq> ''sid'' \<Longrightarrow> fst (number_stores n sds (m, ids)) i l = m i l"
  by (induction n sds "(m, ids)" arbitrary: m ids rule: number_stores.induct) (simp_all add: set_md_def)

lemma write_branches_ok:
  assumes "write_branches ids bvs m = Some m'" "\<forall>i. labels_ok (m i)"
  shows "(\<forall>i. labels_ok (m' i)) \<and> (\<forall>i. m' i ''bid'' = m i ''bid'') \<and>
    (\<forall>i. m i ''v_num'' \<noteq> None \<longrightarrow> m' i ''v_num'' \<noteq> None) \<and>
    (\<forall>bv\<in>set bvs. bv_store_num bv \<noteq> 0 \<longrightarrow> m' (bv_inst bv) ''v_num'' \<noteq> None)"
  using assms
proof (induction bvs arbitrary: m)
  case (Cons bv bvs)
  show ?case
  proof (cases "bv_store_num bv = 0")
    case False
    with Cons.prems(1) obtain l where l: "write_branch ids bv (m (bv_inst bv)) = Some l"
        "write_branches ids bvs (m(bv_inst bv := l)) = Some m'"
      by (auto split: option.splits)
    note new = write_branch_ok [OF l(1)] and IH = Cons.IH [OF l(2)]
    from new Cons.prems(2) have "\<forall>i. labels_ok ((m(bv_inst bv := l)) i)" by simp
    from IH [OF this] new Cons.prems(2) show ?thesis by (auto split: if_splits)
  qed (use Cons in simp)
qed simp

lemma setInstMetaData_ok:
  assumes "setInstMetaData fs sdm bvs (\<lambda>_. Map.empty) = Some m"
  shows "md_ok bvs m"
proof -
  let ?m1 = "fold write_bid bvs (\<lambda>_. Map.empty)"
  obtain m2 ids where n: "number_stores 0 (all_stores fs sdm) (?m1, \<lambda>_. 0) = (m2, ids)" by fastforce
  have w: "write_branches ids bvs m2 = Some m"
    using assms n by (simp add: setInstMetaData_def write_bid_def [abs_def])
  have m2: "m2 i l = ?m1 i l" if "l \<noteq> ''sid''" for i l
    using number_stores_other [OF that, of 0 "all_stores fs sdm" ?m1 "\<lambda>_. 0" i] n by simp
  have none: "m2 i l = None" if "l \<noteq> ''sid''" "l \<noteq> ''bid''" for i l
    using m2 [OF that(1)] write_bids [of bvs "\<lambda>_. Map.empty" i l "?m1 i l"] that by simp
  have "label_s_n v \<noteq> ''sid''" "label_s_n v \<noteq> ''bid''" for v using label_fixed(1) [of v] by (auto simp: fixed_labels_def)
  then have "\<forall>i. labels_ok (m2 i)" by (simp add: labels_ok_def none)
  note ok = write_branches_ok [OF w this]
  show ?thesis
    unfolding md_ok_def
  proof (intro conjI allI impI)
    fix i s
    assume "m i ''bid'' = Some s"
    then have "?m1 i ''bid'' = Some s" using ok m2 by simp
    then obtain bv where "bv \<in> set bvs" "bv_inst bv = i" "bv_store_num bv \<noteq> 0" "s = to_string (bv_id bv)"
      using write_bids [of bvs "\<lambda>_. Map.empty" i "''bid''" "Some s"] by auto
    then show "m i ''v_num'' \<noteq> None" "\<exists>bv\<in>set bvs. bv_inst bv = i \<and> s = to_string (bv_id bv)"
      using ok by blast+
  qed (use ok in blast)
qed

text \<open>The entries: numbered from 1, one for each branch the branch analysis recorded.\<close>

lemma match_branches_entries:
  "match_branches M fs Pf g sdm n bds = Some bvs \<Longrightarrow>
   map bv_id bvs = [Suc n..<Suc n + length bvs] \<and> map bv_inst bvs = map bdep_inst bds"
proof (induction bds arbitrary: n bvs)
  case (Cons bd bds)
  obtain vs where vs: "match_vars M fs Pf g sdm (bdep_inst bd) (bdep_func bd) 0 (bdep_deps bd) = Some vs"
    using Cons.prems by (cases "match_vars M fs Pf g sdm (bdep_inst bd) (bdep_func bd) 0 (bdep_deps bd)") simp_all
  obtain bvs' where bvs': "match_branches M fs Pf g sdm (Suc n) bds = Some bvs'"
    using Cons.prems vs by (cases "match_branches M fs Pf g sdm (Suc n) bds") simp_all
  have "[Suc n..<Suc n + Suc (length bvs')] = Suc n # [Suc (Suc n)..<Suc (Suc n) + length bvs']"
    by (subst upt_conv_Cons) (simp_all del: upt_Suc)
  moreover have "bvs = \<lparr>bv_inst = bdep_inst bd, bv_func = bdep_func bd, bv_id = Suc n,
      bv_store_num = sum_list (map (\<lambda>v. length (vd_stores v)) vs), bv_vars = vs\<rparr> # bvs'"
    using Cons.prems vs bvs' by simp
  ultimately show ?case using Cons.IH [OF bvs'] by (simp del: upt_Suc)
qed simp

lemma bda_branch:
  assumes "bda_runOnModule M Pf fs = Some bds" "bd \<in> set bds"
  shows "bdep_inst bd < length M \<and> bda_condition M (M ! bdep_inst bd) \<noteq> None"
proof -
  obtain F xs where F: "collect (bda_inst M (Pf F) fs F) (insts_of M F) = Some xs" "bd \<in> set xs"
    using collect_elems [OF assms [unfolded bda_runOnModule_def]] by blast
  obtain i ys where i: "i \<in> set (insts_of M F)" "bda_inst M (Pf F) fs F i = Some ys" "bd \<in> set ys"
    using collect_elems [OF F] by blast
  then have "bdep_inst bd = i" "bda_condition M (M ! i) \<noteq> None"
    by (auto simp: bda_inst_def split: option.splits if_splits)
  with i(1) show ?thesis by (simp add: insts_of_def)
qed

subsection \<open>What the loader reads\<close>

lemma load_sids_total: "\<forall>k<n. l (label_id vid (idx + k)) \<noteq> None \<Longrightarrow> \<exists>sids. load_sids l vid idx n = Some sids"
proof (induction n arbitrary: idx)
  case (Suc n)
  from Suc.prems have "\<forall>k<n. l (label_id vid (Suc idx + k)) \<noteq> None" by (metis Suc_less_eq add_Suc_shift)
  from Suc.IH [OF this] obtain sids where "load_sids l vid (Suc idx) n = Some sids" by blast
  moreover obtain s where "l (label_id vid idx) = Some s" using Suc.prems by (metis add_0_right not_None_eq zero_less_Suc)
  ultimately show ?case by simp
qed simp

lemma load_vars_total: "labels_ok l \<Longrightarrow> \<exists>r. load_vars l F bid vids st = Some r"
proof (induction vids arbitrary: st)
  case (Cons vid vids)
  show ?case
  proof (cases "l (label_s_n vid)")
    case (Some s)
    with Cons.prems have "\<forall>k < stoi s. l (label_id vid (0 + k)) \<noteq> None" by (auto simp: labels_ok_def)
    from load_sids_total [OF this] obtain sids where "load_sids l vid 0 (stoi s) = Some sids" by blast
    with Some Cons.IH [OF Cons.prems, of "share_stores (fold (load_sid F bid) sids st)"] show ?thesis by simp
  qed (use Cons in simp)
qed simp

text \<open>Reading the stores of a branch touches three tables only.\<close>

definition rest_of :: "cgs_exec \<Rightarrow> cgs_exec" where
  "rest_of x = x\<lparr>storetTobranches := (\<lambda>_. {}), storesWithSameVar := Map.empty, funcStores := (\<lambda>_. [])\<rparr>"

definition same_tables :: "cgs_exec \<Rightarrow> cgs_exec \<Rightarrow> bool" where
  "same_tables x y \<longleftrightarrow> rest_of x = rest_of y"

lemma same_tables_refl: "same_tables x x"
  by (simp add: same_tables_def)

lemma same_tables_trans: "same_tables x y \<Longrightarrow> same_tables y z \<Longrightarrow> same_tables x z"
  by (simp add: same_tables_def)

lemma rest_of_fields:
  "ID2BI (rest_of x) = ID2BI x" "BI2ID (rest_of x) = BI2ID x" "BDDeps (rest_of x) = BDDeps x"
  "ID2SI (rest_of x) = ID2SI x" "targetBranches (rest_of x) = targetBranches x"
  "partlyCoveredBranches (rest_of x) = partlyCoveredBranches x"
  "fullyCoveredBranches (rest_of x) = fullyCoveredBranches x"
  "newFullyCoveredBranch (rest_of x) = newFullyCoveredBranch x"
  "updateTargetBranch (rest_of x) = updateTargetBranch x"
  "newBranchNumFromStore (rest_of x) = newBranchNumFromStore x"
  by (simp_all add: rest_of_def)

lemma same_tables_fields:
  assumes "same_tables x y"
  shows "ID2BI y = ID2BI x" "BI2ID y = BI2ID x" "BDDeps y = BDDeps x" "ID2SI y = ID2SI x"
    "targetBranches y = targetBranches x" "partlyCoveredBranches y = partlyCoveredBranches x"
    "fullyCoveredBranches y = fullyCoveredBranches x" "newFullyCoveredBranch y = newFullyCoveredBranch x"
    "updateTargetBranch y = updateTargetBranch x" "newBranchNumFromStore y = newBranchNumFromStore x"
  using assms rest_of_fields [of x] rest_of_fields [of y] by (simp_all add: same_tables_def)

lemma load_sid_tables: "same_tables x (fst (load_sid F bid sid (x, bd)))"
  by (simp add: load_sid_def same_tables_def rest_of_def split: option.split)

lemma load_sids_tables: "same_tables (fst st) (fst (fold (load_sid F bid) sids st))"
proof (induction sids arbitrary: st)
  case (Cons sid sids)
  show ?case
    using same_tables_trans [OF load_sid_tables [of "fst st" F bid sid "snd st"]] Cons.IH [of "load_sid F bid sid st"] by simp
qed (simp add: same_tables_refl)

lemma share_stores_tables: "same_tables (fst st) (fst (share_stores st))"
  by (simp add: share_stores_def same_tables_def rest_of_def split: prod.split)

lemma load_vars_tables: "load_vars l F bid vids st = Some st' \<Longrightarrow> same_tables (fst st) (fst st')"
proof (induction vids arbitrary: st)
  case (Cons vid vids)
  show ?case
  proof (cases "l (label_s_n vid)")
    case (Some s)
    with Cons.prems obtain sids where sids: "load_sids l vid 0 (stoi s) = Some sids"
        "load_vars l F bid vids (share_stores (fold (load_sid F bid) sids st)) = Some st'"
      by (auto split: option.splits)
    show ?thesis
      using same_tables_trans [OF same_tables_trans [OF load_sids_tables share_stores_tables] Cons.IH [OF sids(2)]] .
  qed (use Cons in simp)
qed (simp add: same_tables_refl)

text \<open>
  The tables while branches are read: a branch with an id has its record and its id is the one in the
  metadata; nothing is covered and nothing is a target yet.
\<close>

definition loading :: "md \<Rightarrow> cgs_exec \<Rightarrow> bool" where
  "loading m x \<longleftrightarrow>
     (\<forall>i bid. BI2ID x (Some i) = Some bid \<longrightarrow>
        ID2BI x bid = Some i \<and> bid \<in> dom (BDDeps x) \<and> m i ''bid'' \<noteq> None) \<and>
     (\<forall>bid\<in>dom (BDDeps x). \<exists>i. ID2BI x bid = Some i \<and> m i ''bid'' \<noteq> None) \<and>
     (\<forall>i bid. ID2BI x bid = Some i \<longrightarrow> (\<exists>s. m i ''bid'' = Some s \<and> stoi s = bid))"

definition nothing_covered :: "cgs_exec \<Rightarrow> bool" where
  "nothing_covered x \<longleftrightarrow> targetBranches x = [] \<and> partlyCoveredBranches x = [] \<and>
     fullyCoveredBranches x = [] \<and> newFullyCoveredBranch x = False \<and> updateTargetBranch x = False \<and>
     newBranchNumFromStore x = 0"

lemma load_branch_ok:
  assumes labels: "\<And>i. labels_ok (m i)" "\<And>i. m i ''bid'' \<noteq> None \<Longrightarrow> m i ''v_num'' \<noteq> None"
    and inj: "\<And>i j s t. m i ''bid'' = Some s \<Longrightarrow> m j ''bid'' = Some t \<Longrightarrow> stoi s = stoi t \<Longrightarrow> i = j"
    and ok: "loading m x" "nothing_covered x"
  shows "\<exists>x'. load_branch upred M m i x = Some x' \<and> loading m x' \<and> nothing_covered x'"
proof (cases "m i ''bid'' = None \<or> load_condition upred M (M ! i) = None")
  case True
  then have "load_branch upred M m i x = Some x" by (auto simp: load_branch_def split: option.splits)
  with ok show ?thesis by blast
next
  case False
  then obtain s bd0 n where s: "m i ''bid'' = Some s" "load_condition upred M (M ! i) = Some bd0" "m i ''v_num'' = Some n"
    using labels(2) [of i] by auto
  define x1 where "x1 = x\<lparr>ID2BI := (ID2BI x)(stoi s \<mapsto> i), BI2ID := (BI2ID x)(Some i \<mapsto> stoi s)\<rparr>"
  define bd1 where "bd1 = bd0\<lparr>bd_inst := i, bd_id := stoi s, bd_var_num := stoi n\<rparr>"
  obtain x2 bd2 where v: "load_vars (m i) (i_function (M ! i)) (stoi s) [0..<stoi n] (x1, bd1) = Some (x2, bd2)"
    using load_vars_total [OF labels(1) [of i]] by fastforce
  let ?x = "x2\<lparr>BDDeps := (BDDeps x2)(stoi s \<mapsto> bd2)\<rparr>"
  have load: "load_branch upred M m i x = Some ?x"
    using s v by (simp add: load_branch_def x1_def [symmetric] bd1_def [symmetric])
  have same: "same_tables x1 x2" using load_vars_tables [OF v] by simp
  note f = same_tables_fields [OF same]
  have "BI2ID x (Some j) \<noteq> Some (stoi s)" if "j \<noteq> i" for j
    using ok(1) inj [OF s(1)] that unfolding loading_def by metis
  then have "loading m ?x"
    using ok(1) s(1) by (auto simp: f x1_def loading_def)
  moreover have "nothing_covered ?x" using ok(2) by (simp add: nothing_covered_def f x1_def)
  ultimately show ?thesis using load by blast
qed

subsection \<open>The tables are well-formed\<close>

text \<open>LLVM's verifier: an instruction operand is defined in the same function.\<close>

definition ops_local :: "ir_module \<Rightarrow> bool" where
  "ops_local M \<longleftrightarrow> (\<forall>i<length M. \<forall>j<length M. VInst j \<in> set (i_operands (M ! i)) \<longrightarrow> i_function (M ! j) = i_function (M ! i))"

lemma bda_condition_marked:
  assumes "i < length M" "bda_condition M (M ! i) \<noteq> None" "is_br M i" "ops_local M"
  shows "marked_br M i"
proof -
  obtain b where "i_op (M ! i) = OpBr b"
    using assms(1,3) by (auto simp: is_br_def inst_at_def split: opcode.splits)
  with assms(2) obtain c rest p v1 v2 vs where c: "i_operands (M ! i) = VInst c # rest" "c < length M"
      "i_op (M ! c) = OpICmp p" "i_operands (M ! c) = v1 # v2 # vs" "is_ConstantInt v1 \<noteq> is_ConstantInt v2"
    by (auto simp: bda_condition_def inst_at_def split: bool.splits list.splits val.splits if_splits opcode.splits)
  then have "i_function (M ! c) = i_function (M ! i)" using assms(1,4) by (auto simp: ops_local_def)
  with c assms(1) show ?thesis by (simp add: marked_br_def inst_at_def icmp_one_constant_def)
qed

lemma load_store_ok: "loading m x \<Longrightarrow> nothing_covered x \<Longrightarrow> loading m (load_store M m i x) \<and> nothing_covered (load_store M m i x)"
  by (simp add: load_store_def loading_def nothing_covered_def split: option.split)

lemma load_stores_ok:
  "loading m x \<Longrightarrow> nothing_covered x \<Longrightarrow> loading m (fold (load_store M m) js x) \<and> nothing_covered (fold (load_store M m) js x)"
  by (induction js arbitrary: x) (simp_all add: load_store_ok)

lemma ida_metadata:
  assumes "ida_runOnModule M Pf fs = Some m"
  obtains bvs where "md_ok bvs m" "distinct (map bv_id bvs)"
    "\<And>bv. bv \<in> set bvs \<Longrightarrow> bv_inst bv < length M \<and> bda_condition M (M ! bv_inst bv) \<noteq> None"
proof -
  obtain bds sdm bvs where r: "bda_runOnModule M Pf fs = Some bds"
      "match_branches M fs Pf (cg_runOnModule M fs) sdm 0 bds = Some bvs"
      "setInstMetaData fs sdm bvs (\<lambda>_. Map.empty) = Some m"
    using assms unfolding ida_runOnModule_def by (auto split: option.splits)
  note e = match_branches_entries [OF r(2)]
  have "bv_inst bv < length M \<and> bda_condition M (M ! bv_inst bv) \<noteq> None" if "bv \<in> set bvs" for bv
  proof -
    have "bv_inst bv \<in> set (map bdep_inst bds)" using e that by (metis image_eqI list.set_map)
    then show ?thesis using bda_branch [OF r(1)] by auto
  qed
  then show thesis using that [of bvs] setInstMetaData_ok [OF r(3)] e by simp
qed

lemma ida_loads:
  assumes "ida_runOnModule M Pf fs = Some m" "ops_local M"
  shows "\<exists>x. load_metadata upred M fs num maxc m = Some x \<and> loaded M x"
proof -
  obtain bvs where bvs: "md_ok bvs m" "distinct (map bv_id bvs)"
    "\<And>bv. bv \<in> set bvs \<Longrightarrow> bv_inst bv < length M \<and> bda_condition M (M ! bv_inst bv) \<noteq> None"
    using ida_metadata [OF assms(1)] by blast
  have bid: "\<exists>bv\<in>set bvs. bv_inst bv = i \<and> s = to_string (bv_id bv)" if "m i ''bid'' = Some s" for i s
    using bvs(1) that by (auto simp: md_ok_def)
  have inj: "i = j" if ij: "m i ''bid'' = Some s" "m j ''bid'' = Some t" "stoi s = stoi t" for i j s t
  proof -
    obtain b c where "b \<in> set bvs" "bv_inst b = i" "s = to_string (bv_id b)" "c \<in> set bvs" "bv_inst c = j" "t = to_string (bv_id c)"
      using bid [OF ij(1)] bid [OF ij(2)] by blast
    with ij(3) bvs(2) show ?thesis by (simp add: distinct_map inj_on_def) metis
  qed
  let ?P = "\<lambda>_ x. loading m x \<and> nothing_covered x"
  have "?P js (fold (load_store M m) (module_insts M fs) (init_exec num maxc))" for js :: "inst_ptr list"
    by (rule load_stores_ok) (simp_all add: loading_def nothing_covered_def init_exec_def)
  moreover have "\<exists>s'. load_branch upred M m j s = Some s' \<and> ?P js s'" if "?P (j # js) s" for j s and js :: "inst_ptr list"
    by (rule load_branch_ok) (use that bvs(1) in \<open>auto simp: md_ok_def intro: inj\<close>)
  ultimately obtain x where x: "load_metadata upred M fs num maxc m = Some x" "loading m x" "nothing_covered x"
    using foldM_invariant [of ?P _ _ "load_branch upred M m"] unfolding load_metadata_def by blast
  have at: "i < length M \<and> (is_br M i \<longrightarrow> marked_br M i)" if marked: "m i ''bid'' \<noteq> None" for i
  proof -
    obtain bv where "bv \<in> set bvs" "bv_inst bv = i" using bid marked by blast
    with bvs(3) have "i < length M" "bda_condition M (M ! i) \<noteq> None" by blast+
    then show ?thesis using bda_condition_marked assms(2) by blast
  qed
  have "tables_ok M x"
    using x(2) at unfolding tables_ok_def loading_def by (metis inst_at_def)
  with x show ?thesis by (auto simp: loaded_def nothing_covered_def)
qed

subsection \<open>The stores of a branch survive the round trip\<close>

definition sids_of :: "(inst_ptr \<Rightarrow> nat) \<Rightarrow> var_dep \<Rightarrow> nat list" where
  "sids_of ids v = map (\<lambda>sd. ids (sdep_inst sd)) (vd_stores v)"

text \<open>The labels of the variable \<open>v\<close> as written.\<close>

definition has_var :: "(inst_ptr \<Rightarrow> nat) \<Rightarrow> var_dep \<Rightarrow> (string \<rightharpoonup> string) \<Rightarrow> bool" where
  "has_var ids v l \<longleftrightarrow> l (label_s_n (vd_id v)) = Some (to_string (length (sids_of ids v))) \<and>
     (\<forall>k<length (sids_of ids v). l (label_id (vd_id v) k) = Some (to_string (sids_of ids v ! k)))"

lemma has_var_new: "has_var ids v (var_labels (vd_id v) t (sids_of ids v) m)"
  by (simp add: has_var_def var_labels_s_n var_labels_id)

lemma has_var_other: "has_var ids v m \<Longrightarrow> vd_id v \<noteq> vid \<Longrightarrow> has_var ids v (var_labels vid t sids m)"
  by (simp add: has_var_def var_labels_s_n var_labels_other_id)

lemma write_vars_exact:
  assumes "write_vars ids vs (n, m) = Some (n', m')" "distinct (map vd_id vs)" "\<forall>v\<in>set vs. vd_stores v \<noteq> []"
    "\<forall>v\<in>set us. has_var ids v m \<and> vd_id v \<notin> vd_id ` set vs"
  shows "n' = n \<and> (\<forall>v\<in>set (us @ vs). has_var ids v m')"
  using assms
proof (induction vs arbitrary: m us)
  case (Cons v vs)
  obtain t where w: "write_vars ids vs (n, var_labels (vd_id v) t (sids_of ids v) m) = Some (n', m')"
    using Cons.prems(1,3) unfolding write_vars_Cons sids_of_def by (auto split: option.splits)
  have "\<forall>u\<in>set (us @ [v]). has_var ids u (var_labels (vd_id v) t (sids_of ids v) m) \<and> vd_id u \<notin> vd_id ` set vs"
    using Cons.prems(2,4) has_var_new has_var_other by auto
  from Cons.IH [OF w _ _ this] Cons.prems(2,3) show ?case by auto
qed simp

lemma load_sids_exact:
  "(\<forall>k<length sids. l (label_id vid (idx + k)) = Some (to_string (sids ! k))) \<Longrightarrow>
   load_sids l vid idx (length sids) = Some sids"
proof (induction sids arbitrary: idx)
  case (Cons sid sids)
  have "l (label_id vid (Suc idx + k)) = Some (to_string (sids ! k))" if "k < length sids" for k
    using Cons.prems [rule_format, of "Suc k"] that by simp
  then have "load_sids l vid (Suc idx) (length sids) = Some sids" using Cons.IH by blast
  moreover have "l (label_id vid idx) = Some (to_string sid)" using Cons.prems [rule_format, of 0] by simp
  ultimately show ?case by simp
qed simp

lemma set_insert_all_one [simp]: "set (insert_all xs [y]) = insert y (set xs)"
  by (auto simp: insert_all_def)

text \<open>What reading the stores \<open>S\<close> into the tables \<open>x\<close> and the record \<open>bd\<close> makes of them.\<close>

definition stores_read :: "nat \<Rightarrow> nat set \<Rightarrow> cgs_exec \<times> bddep \<Rightarrow> cgs_exec \<times> bddep \<Rightarrow> bool" where
  "stores_read bid S st st' \<longleftrightarrow>
     set (bd_stores (snd st')) = set (bd_stores (snd st)) \<union> S \<and> ID2SI (fst st') = ID2SI (fst st) \<and>
     (\<forall>sid. storetTobranches (fst st') sid = storetTobranches (fst st) sid \<union> (if sid \<in> S then {bid} else {}))"

lemma stores_read_trans: "stores_read bid S st st1 \<Longrightarrow> stores_read bid T st1 st2 \<Longrightarrow> stores_read bid (S \<union> T) st st2"
  by (auto simp: stores_read_def)

lemma load_sid_read: "sid \<in> dom (ID2SI (fst st)) \<Longrightarrow> stores_read bid {sid} st (load_sid F bid sid st)"
  by (cases st) (auto simp: load_sid_def stores_read_def split: option.split)

lemma load_sids_read:
  "set sids \<subseteq> dom (ID2SI (fst st)) \<Longrightarrow> stores_read bid (set sids) st (fold (load_sid F bid) sids st)"
proof (induction sids arbitrary: st)
  case (Cons sid sids)
  then have one: "stores_read bid {sid} st (load_sid F bid sid st)" by (simp add: load_sid_read)
  then have "ID2SI (fst (load_sid F bid sid st)) = ID2SI (fst st)" by (simp add: stores_read_def)
  with Cons show ?case using stores_read_trans [OF one Cons.IH] by simp
qed (simp add: stores_read_def)

lemma share_stores_read: "stores_read bid {} st (share_stores st)"
  by (cases st) (simp add: share_stores_def stores_read_def)

lemma load_vars_exact:
  "\<forall>v\<in>set vs. has_var ids v l \<and> set (sids_of ids v) \<subseteq> dom (ID2SI (fst st)) \<Longrightarrow>
   \<exists>st'. load_vars l F bid (map vd_id vs) st = Some st' \<and> stores_read bid (\<Union>v\<in>set vs. set (sids_of ids v)) st st'"
proof (induction vs arbitrary: st)
  case (Cons v vs)
  define st1 where "st1 = share_stores (fold (load_sid F bid) (sids_of ids v) st)"
  have "load_sids l (vd_id v) 0 (length (sids_of ids v)) = Some (sids_of ids v)"
    using Cons.prems by (intro load_sids_exact) (simp add: has_var_def)
  moreover have "l (label_s_n (vd_id v)) = Some (to_string (length (sids_of ids v)))"
    using Cons.prems by (simp add: has_var_def)
  ultimately have l: "load_vars l F bid (map vd_id (v # vs)) st = load_vars l F bid (map vd_id vs) st1"
    by (simp add: st1_def)
  have one: "stores_read bid (set (sids_of ids v)) st st1"
    using stores_read_trans [OF load_sids_read share_stores_read] Cons.prems by (simp add: st1_def)
  then have "ID2SI (fst st1) = ID2SI (fst st)" by (simp add: stores_read_def)
  with Cons.prems have "\<forall>v\<in>set vs. has_var ids v l \<and> set (sids_of ids v) \<subseteq> dom (ID2SI (fst st1))" by simp
  from Cons.IH [OF this] show ?case using stores_read_trans [OF one] l by auto
qed (simp add: stores_read_def)

definition store_ids :: "(inst_ptr \<Rightarrow> nat) \<Rightarrow> bv_dep \<Rightarrow> nat set" where
  "store_ids ids bv = (\<Union>v\<in>set (bv_vars bv). set (sids_of ids v))"

text \<open>
  C10. When the variables of a branch are numbered from 0 and each has a store, the loader reads back exactly
  the stores that the analysis wrote: they are the stores of the branch's record, and each of them (and no
  other store) leads to the branch.
\<close>

theorem branch_stores_roundtrip:
  assumes "write_branch ids bv l0 = Some (m i)" and "m i ''bid'' = Some (to_string bid)"
    and "load_condition upred M (M ! i) = Some bd0"
    and "map vd_id (bv_vars bv) = [0..<length (bv_vars bv)]" and "\<forall>v\<in>set (bv_vars bv). vd_stores v \<noteq> []"
    and "store_ids ids bv \<subseteq> dom (ID2SI x)"
  shows "\<exists>x' bd. load_branch upred M m i x = Some x' \<and> BDDeps x' bid = Some bd \<and>
    set (bd_stores bd) = store_ids ids bv \<and>
    (\<forall>sid. storetTobranches x' sid = storetTobranches x sid \<union> (if sid \<in> store_ids ids bv then {bid} else {}))"
proof -
  obtain n m1 where w: "write_vars ids (bv_vars bv) (length (bv_vars bv), l0) = Some (n, m1)"
    and l: "m i = m1(''v_num'' \<mapsto> to_string n)"
    using assms(1) by (auto simp: write_branch_def)
  have ex: "n = length (bv_vars bv)" "\<forall>v\<in>set (bv_vars bv). has_var ids v m1"
    using write_vars_exact [OF w, of "[]"] assms(4,5) by (simp_all add: distinct_upt)
  have vars: "\<forall>v\<in>set (bv_vars bv). has_var ids v (m i)"
    using ex(2) unfolding l has_var_def by (simp add: label_s_n_def label_id_def)
  define x1 where "x1 = x\<lparr>ID2BI := (ID2BI x)(bid \<mapsto> i), BI2ID := (BI2ID x)(Some i \<mapsto> bid)\<rparr>"
  define bd1 where "bd1 = bd0\<lparr>bd_inst := i, bd_id := bid, bd_var_num := length (bv_vars bv)\<rparr>"
  have bd1: "bd_stores bd1 = []"
    using assms(3) by (auto simp: bd1_def load_condition_def new_BDDep_def split: opcode.splits list.splits val.splits option.splits)
  have "\<forall>v\<in>set (bv_vars bv). has_var ids v (m i) \<and> set (sids_of ids v) \<subseteq> dom (ID2SI (fst (x1, bd1)))"
    using vars assms(6) by (simp add: store_ids_def x1_def UN_subset_iff)
  then obtain x2 bd2 where st: "load_vars (m i) (i_function (M ! i)) bid (map vd_id (bv_vars bv)) (x1, bd1) = Some (x2, bd2)"
      "stores_read bid (store_ids ids bv) (x1, bd1) (x2, bd2)"
    using load_vars_exact [of "bv_vars bv" ids "m i" "(x1, bd1)" "i_function (M ! i)" bid]
    unfolding store_ids_def by force
  have "load_branch upred M m i x = Some (x2\<lparr>BDDeps := (BDDeps x2)(bid \<mapsto> bd2)\<rparr>)"
    using assms(2,3) st(1) assms(4) fun_cong [OF l, of "''v_num''"] ex(1)
    by (simp add: load_branch_def x1_def [symmetric] bd1_def [symmetric] del: upt_Suc)
  with st(2) bd1 show ?thesis by (simp add: stores_read_def x1_def)
qed

definition one_var_branch :: bv_dep where
  "one_var_branch = \<lparr>bv_inst = 7, bv_func = 0, bv_id = 1, bv_store_num = 1, bv_vars =
     [\<lparr>vd_id = 0, vd_dep = Some (local_dep 1), vd_stores = [\<lparr>sdep_inst = 2, sdep_func = 0, sdep_dep = local_dep 1\<rparr>]\<rparr>]\<rparr>"

theorem branch_stores_roundtrip_witness:
  "\<exists>l x' bd. load_branch id sum_module (\<lambda>_. l) 7 ((init_exec 10 64)\<lparr>ID2SI := [3 \<mapsto> 2]\<rparr>) = Some x' \<and> BDDeps x' 9 = Some bd \<and>
    set (bd_stores bd) = {3} \<and> (\<forall>sid. storetTobranches x' sid = {} \<union> (if sid \<in> {3} then {9} else {}))"
proof -
  have ids: "store_ids (\<lambda>_. 3) one_var_branch = {3}" by (simp add: store_ids_def sids_of_def one_var_branch_def)
  obtain l where l: "write_branch (\<lambda>_. 3) one_var_branch [''bid'' \<mapsto> to_string 9] = Some l" "l ''bid'' = Some (to_string 9)"
    by (simp add: write_branch_def one_var_branch_def var_type_def local_dep_def new_DataDep_def label_id_def label_s_n_def label_t_def)
  have cond: "load_condition id sum_module (sum_module ! 7) = Some (new_BDDep\<lparr>bd_pred := ICMP_EQ\<rparr>)"
    by (simp add: load_condition_def sum_module_def inst_at_def)
  have "\<exists>x' bd. load_branch id sum_module (\<lambda>_. l) 7 ((init_exec 10 64)\<lparr>ID2SI := [3 \<mapsto> 2]\<rparr>) = Some x' \<and> BDDeps x' 9 = Some bd \<and>
      set (bd_stores bd) = {3} \<and> (\<forall>sid. storetTobranches x' sid = {} \<union> (if sid \<in> {3} then {9} else {}))"
    using branch_stores_roundtrip [of "\<lambda>_. 3" one_var_branch _ "\<lambda>_. l" 7 9 id sum_module, OF l cond,
        of "(init_exec 10 64)\<lparr>ID2SI := [3 \<mapsto> 2]\<rparr>", unfolded ids]
    by (simp add: one_var_branch_def init_exec_def)
  then show ?thesis by (rule exI [of _ l])
qed

subsection \<open>An example: from the module to the tables\<close>

text \<open>The metadata of \<open>b = 7; if (b + a == 5)\<close>: \<open>a\<close> is variable 0 and has no store, \<open>b\<close> is variable 1.\<close>

definition sum_md :: md where
  "sum_md = (\<lambda>_. Map.empty)(7 := [''bid'' \<mapsto> ''1'', label_t 1 \<mapsto> ''2'', label_s_n 1 \<mapsto> ''1'', label_id 1 0 \<mapsto> ''1'', ''v_num'' \<mapsto> ''1''],
     2 := [''sid'' \<mapsto> ''1''])"

lemma one_string: "to_string 1 = ''1''" "to_string (Suc 0) = ''1''" "to_string 2 = ''2''" "to_string 0 = ''0''" 
  by (simp_all add: to_string.simps char_of_def bit_0)

lemma sum_match: "match_branches sum_module one_function (\<lambda>_. sum_env) g ((\<lambda>_. [])(0 := [\<lparr>sdep_inst = 2, sdep_func = 0, sdep_dep = local_dep 1\<rparr>])) 0
   [\<lparr>bdep_inst = 7, bdep_func = 0, bdep_deps = [local_dep 0, local_dep 1]\<rparr>] =
  Some [\<lparr>bv_inst = 7, bv_func = 0, bv_id = 1, bv_store_num = 1, bv_vars = 
    [\<lparr>vd_id = 0, vd_dep = Some (local_dep 0), vd_stores = []\<rparr>,
     \<lparr>vd_id = 1, vd_dep = Some (local_dep 1), vd_stores = [\<lparr>sdep_inst = 2, sdep_func = 0, sdep_dep = local_dep 1\<rparr>]\<rparr>]\<rparr>]"
  by (simp add: local_dep_def new_DataDep_def findStoresForBranch_def insert_all_def sum_env_def)

lemma sum_ida: "ida_runOnModule sum_module (\<lambda>_. sum_env) one_function = Some sum_md"
  unfolding ida_runOnModule_def sum_bda sum_stores option.case sum_match
  by (simp add: setInstMetaData_def all_stores_def one_function_def set_md_def write_branch_def var_type_def local_dep_def new_DataDep_def sum_md_def one_string fun_eq_iff)

lemma stoi_one: "stoi ''1'' = 1" 
  using one_string(1) stoi_to_string by metis

lemma sum_module_insts: "module_insts sum_module one_function = [0, 1, 2, 3, 4, 5, 6, 7]"
  by (simp add: module_insts_def one_function_def sum_insts)

lemma sum_load: "load_metadata upred sum_module one_function 10 64 sum_md =
   Some ((init_exec 10 64)\<lparr>ID2SI := [1 \<mapsto> 2], SI2ID := (\<lambda>_. 0)(2 := 1), ID2BI := [1 \<mapsto> 7], BI2ID := [Some 7 \<mapsto> 1],
      BDDeps := [1 \<mapsto> new_BDDep\<lparr>bd_pred := upred ICMP_EQ, bd_inst := 7, bd_id := 1, bd_var_num := 1\<rparr>]\<rparr>)"
  unfolding load_metadata_def sum_module_insts
  by (simp add: is_branch_inst_def sum_module_def load_branch_def load_store_def sum_md_def stoi_one load_condition_def inst_at_def label_s_n_def label_id_def label_t_def one_string
      init_exec_def)

text \<open>
  A variable without stores lowers the number of variables in the metadata but not the numbers of the
  later variables, so the loader stops before the last one: the analysis finds that the branch depends on
  store 1, and the loaded record of the branch has no store.
\<close>

theorem metadata_loses_stores:
  "ida_runOnModule sum_module (\<lambda>_. sum_env) one_function = Some sum_md \<and>
   sum_md 2 ''sid'' = Some ''1'' \<and> sum_md 7 (label_id 1 0) = Some ''1'' \<and>
   (\<exists>x bd. load_metadata upred sum_module one_function 10 64 sum_md = Some x \<and> BDDeps x 1 = Some bd \<and>
      bd_stores bd = [] \<and> storetTobranches x 1 = {})"
  unfolding sum_load using sum_ida
  by (simp add: sum_md_def label_id_def init_exec_def new_BDDep_def)

text \<open>
  C9. The metadata of the analysis can always be loaded: the loader finds every label it reads, and the
  tables it builds are well-formed (each branch with an id has its record, and each such \<open>br\<close> compares with
  one constant), provided the module is one LLVM's verifier accepts.
\<close>

theorem analysis_metadata_loads:
  assumes "ida_runOnModule M Pf fs = Some m" and "ops_local M"
  shows "\<exists>x. load_metadata upred M fs num maxc m = Some x \<and> loaded M x"
  by (rule ida_loads [OF assms])

lemma sum_ops_local: "ops_local sum_module"
  by (auto simp: ops_local_def sum_module_def less_Suc_eq numeral_eq_Suc nth_Cons')

theorem analysis_metadata_loads_witness:
  "\<exists>x. load_metadata id sum_module one_function 10 64 sum_md = Some x \<and> loaded sum_module x"
  by (rule analysis_metadata_loads [OF sum_ida sum_ops_local])

end
