(* ===== verification/Combinators.thy ===== *)
theory Combinators
  imports Searchers
begin

section \<open>Searchers over searchers\<close>

text \<open>
  \<open>BatchingSearcher\<close>, \<open>IterativeDeepeningTimeSearcher\<close> and \<open>InterleavedSearcher\<close>
  (\<open>klee/lib/Core/Searcher.cpp\<close>) hold other searchers and call them through the virtual methods, here the
  record \<open>searcher_vt\<close> of the searcher below. Shown: each of them keeps the contract of Searchers when the
  searcher below does, so the interpreter loop cannot tell them from a plain searcher; interleaving asks
  the searchers in turn; and how the instruction budget of a batch is counted.

  Times are nanoseconds (\<open>std::chrono::steady_clock\<close>); what the clock and the instruction counter show when
  they are read is an input. \<open>t *= 1.1\<close> rounds in floating point and is the parameter \<open>times11\<close>.
\<close>

subsection \<open>BatchingSearcher\<close>

record 's batching =
  bt_base :: 's
  bt_timeBudget :: int
  bt_instructionBudget :: u32
  bt_lastState :: "state_ptr option"
  bt_lastStartTime :: int
  bt_lastStartInstructions :: u32

record clock =
  ck_test :: int
  ck_delta :: int
  ck_start :: int
  ck_instructions :: u64

definition batch_expired :: "clock \<Rightarrow> 's batching \<Rightarrow> bool" where
  "batch_expired ck s \<longleftrightarrow>
     bt_timeBudget s > 0 \<and> ck_test ck - bt_lastStartTime s > bt_timeBudget s \<or>
     bt_instructionBudget s > 0 \<and>
       ck_instructions ck - ucast (bt_lastStartInstructions s) > ucast (bt_instructionBudget s)"

definition extend_budget :: "(int \<Rightarrow> int) \<Rightarrow> clock \<Rightarrow> 's batching \<Rightarrow> 's batching" where
  "extend_budget times11 ck s =
     (let delta = ck_delta ck - bt_lastStartTime s
      in if bt_lastState s \<noteq> None \<and> delta > times11 (bt_timeBudget s) then s\<lparr>bt_timeBudget := delta\<rparr> else s)"

definition batch_selectState ::
  "'s searcher_vt \<Rightarrow> (int \<Rightarrow> int) \<Rightarrow> clock \<Rightarrow> 's batching \<Rightarrow> (state_ptr \<times> 's batching) option" where
  "batch_selectState vt times11 ck s =
     (if bt_lastState s = None \<or> batch_expired ck s
      then (case vt_selectState vt (bt_base s) of
              None \<Rightarrow> None
            | Some (x, b) \<Rightarrow>
                Some (x, (extend_budget times11 ck s)\<lparr>bt_base := b, bt_lastState := Some x,
                           bt_lastStartTime := ck_start ck,
                           bt_lastStartInstructions := ucast (ck_instructions ck)\<rparr>))
      else Some (the (bt_lastState s), s))"

definition batch_update ::
  "'s searcher_vt \<Rightarrow> state_ptr option \<Rightarrow> state_ptr list \<Rightarrow> state_ptr list \<Rightarrow> 's batching \<Rightarrow> 's batching option" where
  "batch_update vt current added removed s =
     (let s1 = (if \<exists>x\<in>set removed. bt_lastState s = Some x then s\<lparr>bt_lastState := None\<rparr> else s)
      in map_option (\<lambda>b. s1\<lparr>bt_base := b\<rparr>) (vt_update vt current added removed (bt_base s1)))"

definition batch_empty :: "'s searcher_vt \<Rightarrow> 's batching \<Rightarrow> bool" where
  "batch_empty vt s = vt_empty vt (bt_base s)"

subsection \<open>IterativeDeepeningTimeSearcher\<close>

text \<open>\<open>std::set\<close> of pointers: its order is the order of the addresses.\<close>

record 's deepening =
  dt_base :: 's
  dt_startTime :: int
  dt_time :: int
  dt_paused :: "state_ptr set"

definition deepen_selectState ::
  "'s searcher_vt \<Rightarrow> int \<Rightarrow> 's deepening \<Rightarrow> (state_ptr \<times> 's deepening) option" where
  "deepen_selectState vt now s =
     (case vt_selectState vt (dt_base s) of
        None \<Rightarrow> None
      | Some (x, b) \<Rightarrow> Some (x, s\<lparr>dt_base := b, dt_startTime := now\<rparr>))"

text \<open>The removed states the searcher below knows, and the states that stay paused.\<close>

definition drop_paused :: "state_ptr list \<Rightarrow> state_ptr set \<Rightarrow> state_ptr set \<times> state_ptr list" where
  "drop_paused removed paused =
     fold (\<lambda>x (ps, alt). if x \<in> ps then (ps - {x}, filter (\<lambda>y. y \<noteq> x) alt) else (ps, alt)) removed (paused, removed)"

definition deepen_below ::
  "'s searcher_vt \<Rightarrow> state_ptr option \<Rightarrow> state_ptr list \<Rightarrow> state_ptr list \<Rightarrow> 's deepening \<Rightarrow> 's deepening option" where
  "deepen_below vt current added removed s =
     (if removed \<noteq> []
      then (case drop_paused removed (dt_paused s) of
              (ps, alt) \<Rightarrow> map_option (\<lambda>b. s\<lparr>dt_base := b, dt_paused := ps\<rparr>) (vt_update vt current added alt (dt_base s)))
      else map_option (\<lambda>b. s\<lparr>dt_base := b\<rparr>) (vt_update vt current added removed (dt_base s)))"

definition deepen_pause ::
  "'s searcher_vt \<Rightarrow> int \<Rightarrow> state_ptr option \<Rightarrow> state_ptr list \<Rightarrow> 's deepening \<Rightarrow> 's deepening option" where
  "deepen_pause vt elapsed current removed s =
     (case current of
        None \<Rightarrow> Some s
      | Some c \<Rightarrow>
          if c \<notin> set removed \<and> elapsed > dt_time s
          then map_option (\<lambda>b. s\<lparr>dt_base := b, dt_paused := insert c (dt_paused s)\<rparr>)
                 (vt_update vt None [] [c] (dt_base s))
          else Some s)"

definition deepen_revive :: "'s searcher_vt \<Rightarrow> 's deepening \<Rightarrow> 's deepening option" where
  "deepen_revive vt s =
     (if vt_empty vt (dt_base s)
      then map_option (\<lambda>b. s\<lparr>dt_base := b, dt_time := dt_time s * 2, dt_paused := {}\<rparr>)
             (vt_update vt None (sorted_list_of_set (dt_paused s)) [] (dt_base s))
      else Some s)"

definition deepen_update ::
  "'s searcher_vt \<Rightarrow> int \<Rightarrow> state_ptr option \<Rightarrow> state_ptr list \<Rightarrow> state_ptr list \<Rightarrow> 's deepening \<Rightarrow> 's deepening option" where
  "deepen_update vt now current added removed s =
     (case deepen_below vt current added removed s of
        None \<Rightarrow> None
      | Some s1 \<Rightarrow>
          (case deepen_pause vt (now - dt_startTime s) current removed s1 of
             None \<Rightarrow> None
           | Some s2 \<Rightarrow> deepen_revive vt s2))"

definition deepen_empty :: "'s searcher_vt \<Rightarrow> 's deepening \<Rightarrow> bool" where
  "deepen_empty vt s \<longleftrightarrow> vt_empty vt (dt_base s) \<and> dt_paused s = {}"

subsection \<open>InterleavedSearcher\<close>

record 's interleaved =
  il_searchers :: "'s list"
  il_index :: nat

text \<open>The searcher to ask, and the index afterwards.\<close>

definition il_turn :: "nat \<Rightarrow> nat \<Rightarrow> nat \<times> nat" where
  "il_turn n index = (let i = index - 1 in (i, if i = 0 then n else i))"

definition interleaved_selectState ::
  "'s searcher_vt \<Rightarrow> 's interleaved \<Rightarrow> (state_ptr \<times> 's interleaved) option" where
  "interleaved_selectState vt s =
     (if il_index s = 0 \<or> il_index s > length (il_searchers s) then None
      else (case il_turn (length (il_searchers s)) (il_index s) of
              (i, j) \<Rightarrow>
                (case vt_selectState vt (il_searchers s ! i) of
                   None \<Rightarrow> None
                 | Some (x, b) \<Rightarrow> Some (x, s\<lparr>il_searchers := (il_searchers s)[i := b], il_index := j\<rparr>))))"

fun update_each ::
  "'s searcher_vt \<Rightarrow> state_ptr option \<Rightarrow> state_ptr list \<Rightarrow> state_ptr list \<Rightarrow> 's list \<Rightarrow> 's list option" where
  "update_each vt current added removed [] = Some []"
| "update_each vt current added removed (b # bs) =
     (case vt_update vt current added removed b of
        None \<Rightarrow> None
      | Some b' \<Rightarrow> map_option (\<lambda>bs'. b' # bs') (update_each vt current added removed bs))"

definition interleaved_update ::
  "'s searcher_vt \<Rightarrow> state_ptr option \<Rightarrow> state_ptr list \<Rightarrow> state_ptr list \<Rightarrow> 's interleaved \<Rightarrow> 's interleaved option" where
  "interleaved_update vt current added removed s =
     map_option (\<lambda>bs. s\<lparr>il_searchers := bs\<rparr>) (update_each vt current added removed (il_searchers s))"

definition interleaved_empty :: "'s searcher_vt \<Rightarrow> 's interleaved \<Rightarrow> bool" where
  "interleaved_empty vt s = (case il_searchers s of [] \<Rightarrow> False | b # _ \<Rightarrow> vt_empty vt b)"

subsection \<open>Virtual dispatch\<close>

text \<open>A searcher that is not built over another one, and the calls of its virtual methods.\<close>

datatype plain_searcher = DFS "state_ptr list" | BFS "state_ptr list" | RandomState random_searcher

fun plain_selectState :: "plain_searcher \<Rightarrow> (state_ptr \<times> plain_searcher) option" where
  "plain_selectState (DFS s) = map_option (map_prod id DFS) (dfs_selectState s)"
| "plain_selectState (BFS s) = map_option (map_prod id BFS) (bfs_selectState s)"
| "plain_selectState (RandomState s) = map_option (map_prod id RandomState) (random_selectState s)"

fun plain_update ::
  "state_ptr option \<Rightarrow> state_ptr list \<Rightarrow> state_ptr list \<Rightarrow> plain_searcher \<Rightarrow> plain_searcher option" where
  "plain_update current added removed (DFS s) = map_option DFS (dfs_update current added removed s)"
| "plain_update current added removed (BFS s) = map_option BFS (bfs_update current added removed s)"
| "plain_update current added removed (RandomState s) = map_option RandomState (random_update current added removed s)"

fun plain_empty :: "plain_searcher \<Rightarrow> bool" where
  "plain_empty (DFS s) = dfs_empty s"
| "plain_empty (BFS s) = bfs_empty s"
| "plain_empty (RandomState s) = random_empty s"

definition plain_vt :: "plain_searcher searcher_vt" where
  "plain_vt = \<lparr>vt_selectState = plain_selectState, vt_update = plain_update, vt_empty = plain_empty\<rparr>"

definition interleaved_vt :: "'s searcher_vt \<Rightarrow> 's interleaved searcher_vt" where
  "interleaved_vt vt = \<lparr>vt_selectState = interleaved_selectState vt, vt_update = interleaved_update vt,
     vt_empty = interleaved_empty vt\<rparr>"

definition batch_vt :: "(int \<Rightarrow> int) \<Rightarrow> clock \<Rightarrow> 's searcher_vt \<Rightarrow> 's batching searcher_vt" where
  "batch_vt times11 ck vt = \<lparr>vt_selectState = batch_selectState vt times11 ck, vt_update = batch_update vt,
     vt_empty = batch_empty vt\<rparr>"

definition deepen_vt :: "int \<Rightarrow> int \<Rightarrow> 's searcher_vt \<Rightarrow> 's deepening searcher_vt" where
  "deepen_vt t0 now vt = \<lparr>vt_selectState = deepen_selectState vt t0, vt_update = deepen_update vt now,
     vt_empty = deepen_empty vt\<rparr>"

subsection \<open>The contract over the contract\<close>

context searcher
begin

lemma drop_paused_eq:
  "drop_paused removed paused = (paused - set removed, filter (\<lambda>x. x \<notin> paused) removed)"
proof -
  have "fold (\<lambda>x (ps, alt). if x \<in> ps then (ps - {x}, filter (\<lambda>y. y \<noteq> x) alt) else (ps, alt)) xs (ps, alt) =
      (ps - set xs, filter (\<lambda>x. \<not> (x \<in> ps \<and> x \<in> set xs)) alt)" for xs ps and alt :: "state_ptr list"
  proof (induction xs arbitrary: ps alt)
    case (Cons x xs)
    then show ?case by (auto intro!: filter_cong)
  qed simp
  then show ?thesis by (auto simp: drop_paused_def intro!: filter_cong)
qed

definition deepen_ok :: "'a deepening \<Rightarrow> bool" where
  "deepen_ok s \<longleftrightarrow> invar (dt_base s) \<and> finite (dt_paused s) \<and> dt_paused s \<inter> managed (dt_base s) = {} \<and>
     (managed (dt_base s) = {} \<longrightarrow> dt_paused s = {})"

text \<open>The same without its last part, which \<open>deepen_revive\<close> restores.\<close>

definition deepen_pre :: "'a deepening \<Rightarrow> bool" where
  "deepen_pre s \<longleftrightarrow> invar (dt_base s) \<and> finite (dt_paused s) \<and> dt_paused s \<inter> managed (dt_base s) = {}"

definition deepen_managed :: "'a deepening \<Rightarrow> state_ptr set" where
  "deepen_managed s = managed (dt_base s) \<union> dt_paused s"

lemma vt_methods [simp]: "vt_selectState vt = selectState" "vt_update vt = update" "vt_empty vt = is_empty"
  by (simp_all add: vt_def)

lemma update_good:
  assumes "invar s" "valid_update (managed s) added removed" "\<And>c. current = Some c \<Longrightarrow> c \<in> managed s \<and> current_ok s c"
  shows "\<exists>s'. update current added removed s = Some s' \<and> invar s' \<and> managed s' = managed s \<union> set added - set removed"
  using update_returns [OF assms] update_conserves [OF assms] by blast

lemma deepen_below_ok:
  assumes ok: "deepen_pre s" and valid: "valid_update (deepen_managed s) added removed"
    and cur: "\<And>c. current = Some c \<Longrightarrow> c \<in> managed (dt_base s) \<and> current_ok (dt_base s) c"
  shows "\<exists>s1. deepen_below vt current added removed s = Some s1 \<and> deepen_pre s1 \<and>
    deepen_managed s1 = deepen_managed s \<union> set added - set removed \<and> dt_paused s1 \<subseteq> dt_paused s \<and>
    dt_time s1 = dt_time s"
proof -
  let ?alt = "filter (\<lambda>x. x \<notin> dt_paused s) removed"
  have "valid_update (managed (dt_base s)) added ?alt"
    using valid ok by (auto simp: valid_update_def deepen_managed_def deepen_pre_def)
  then obtain b where b: "update current added ?alt (dt_base s) = Some b" "invar b"
      "managed b = managed (dt_base s) \<union> set added - set ?alt"
    using update_good [of "dt_base s" added ?alt current] ok cur unfolding deepen_pre_def by blast
  let ?s1 = "s\<lparr>dt_base := b, dt_paused := dt_paused s - set removed\<rparr>"
  have "deepen_below vt current added removed s = Some ?s1"
    using b(1) by (auto simp: deepen_below_def drop_paused_eq)
  moreover have "deepen_pre ?s1"
    using b(2,3) ok valid by (auto simp: deepen_pre_def valid_update_def deepen_managed_def)
  moreover have "deepen_managed ?s1 = deepen_managed s \<union> set added - set removed"
    using b(3) ok valid by (auto simp: deepen_managed_def deepen_pre_def valid_update_def)
  ultimately show ?thesis by auto
qed

lemma deepen_pause_ok:
  assumes ok: "deepen_pre s" and cur: "\<And>c. current = Some c \<Longrightarrow> c \<notin> set removed \<Longrightarrow> c \<in> managed (dt_base s)"
  shows "\<exists>s1. deepen_pause vt e current removed s = Some s1 \<and> deepen_pre s1 \<and> deepen_managed s1 = deepen_managed s"
proof (cases "\<exists>c. current = Some c \<and> c \<notin> set removed \<and> e > dt_time s")
  case True
  then obtain c where c: "current = Some c" "c \<notin> set removed" "e > dt_time s" by blast
  then have m: "c \<in> managed (dt_base s)" using cur by blast
  then obtain b where b: "update None [] [c] (dt_base s) = Some b" "invar b" "managed b = managed (dt_base s) - {c}"
    using update_good [of "dt_base s" "[]" "[c]" None] ok by (auto simp: deepen_pre_def valid_update_def)
  then show ?thesis
    using c m ok by (auto simp: deepen_pause_def deepen_pre_def deepen_managed_def)
qed (use ok in \<open>auto simp: deepen_pause_def split: option.splits\<close>)

lemma deepen_revive_ok:
  assumes ok: "deepen_pre s"
  shows "\<exists>s1. deepen_revive vt s = Some s1 \<and> deepen_ok s1 \<and> deepen_managed s1 = deepen_managed s"
proof (cases "is_empty (dt_base s)")
  case True
  then have e: "managed (dt_base s) = {}" using ok empty_managed by (simp add: deepen_pre_def)
  then obtain b where b: "update None (sorted_list_of_set (dt_paused s)) [] (dt_base s) = Some b" "invar b"
      "managed b = dt_paused s"
    using update_good [of "dt_base s" "sorted_list_of_set (dt_paused s)" "[]" None] ok
    by (auto simp: deepen_pre_def valid_update_def)
  with True e show ?thesis by (auto simp: deepen_revive_def deepen_ok_def deepen_managed_def)
next
  case False
  then show ?thesis using ok empty_managed by (auto simp: deepen_revive_def deepen_ok_def deepen_pre_def)
qed

lemma deepen_update_ok:
  assumes ok: "deepen_ok s" and valid: "valid_update (deepen_managed s) added removed"
    and cur: "\<And>c. current = Some c \<Longrightarrow> c \<in> managed (dt_base s) \<and> current_ok (dt_base s) c"
  shows "\<exists>s'. deepen_update vt now current added removed s = Some s' \<and> deepen_ok s' \<and>
    deepen_managed s' = deepen_managed s \<union> set added - set removed"
proof -
  have pre: "deepen_pre s" using ok by (simp add: deepen_ok_def deepen_pre_def)
  obtain s1 where s1: "deepen_below vt current added removed s = Some s1" "deepen_pre s1"
      "deepen_managed s1 = deepen_managed s \<union> set added - set removed" "dt_paused s1 \<subseteq> dt_paused s"
    using deepen_below_ok [OF pre valid cur] by blast
  have "c \<in> managed (dt_base s1)" if "current = Some c" "c \<notin> set removed" for c
    using cur [OF that(1)] that(2) s1(3,4) pre by (auto simp: deepen_managed_def deepen_pre_def)
  from deepen_pause_ok [OF s1(2) this] obtain s2 where s2: "deepen_pause vt (now - dt_startTime s) current removed s1 = Some s2"
      "deepen_pre s2" "deepen_managed s2 = deepen_managed s1"
    by blast
  from deepen_revive_ok [OF s2(2)] s1 s2 show ?thesis by (auto simp: deepen_update_def)
qed

lemma deepening_searcher:
  "searcher (deepen_selectState vt t0) (deepen_update vt now) (deepen_empty vt) deepen_managed deepen_ok
     (\<lambda>s c. c \<in> managed (dt_base s) \<and> current_ok (dt_base s) c)"
proof (unfold_locales, goal_cases)
  case (1 s)
  then show ?case using empty_managed by (auto simp: deepen_empty_def deepen_managed_def deepen_ok_def)
next
  case (2 s)
  then have "managed (dt_base s) \<noteq> {}" by (auto simp: deepen_managed_def deepen_ok_def)
  then obtain x b where "selectState (dt_base s) = Some (x, b)"
    using select_returns [of "dt_base s"] 2 by (auto simp: deepen_ok_def)
  then show ?case by (simp add: deepen_selectState_def)
next
  case (3 s x s')
  then obtain b where b: "selectState (dt_base s) = Some (x, b)" "s' = s\<lparr>dt_base := b, dt_startTime := t0\<rparr>"
    by (auto simp: deepen_selectState_def split: option.splits)
  have "invar (dt_base s)" using 3 by (simp add: deepen_ok_def)
  from select_managed [OF this b(1)] b(2) 3 show ?case by (auto simp: deepen_managed_def deepen_ok_def)
next
  case (4 s added removed current s')
  then show ?case using deepen_update_ok [of s added removed current now] by auto
next
  case (5 s added removed current)
  then show ?case using deepen_update_ok [of s added removed current now] by auto
qed

end

context robust_searcher
begin

definition batch_ok :: "'a batching \<Rightarrow> bool" where
  "batch_ok s \<longleftrightarrow> invar (bt_base s) \<and> (\<forall>x. bt_lastState s = Some x \<longrightarrow> x \<in> managed (bt_base s))"

lemma update_works:
  assumes "invar s" "valid_update (managed s) added removed" "\<And>c. current = Some c \<Longrightarrow> c \<in> managed s"
  shows "\<exists>s'. update current added removed s = Some s' \<and> invar s' \<and> managed s' = managed s \<union> set added - set removed"
proof -
  have cur: "c \<in> managed s \<and> current_ok s c" if "current = Some c" for c
    using assms(1,3) any_current that by blast
  obtain s' where "update current added removed s = Some s'" using update_returns [OF assms(1,2) cur] by blast
  with update_conserves [OF assms(1,2) cur] show ?thesis by blast
qed

lemma batch_select:
  assumes "batch_ok s" "batch_selectState vt t ck s = Some (x, s')"
  shows "x \<in> managed (bt_base s) \<and> managed (bt_base s') = managed (bt_base s) \<and> batch_ok s'"
proof (cases "bt_lastState s = None \<or> batch_expired ck s")
  case True
  then obtain b where b: "selectState (bt_base s) = Some (x, b)" "bt_base s' = b" "bt_lastState s' = Some x"
    using assms(2) by (auto simp: batch_selectState_def split: option.splits)
  have "invar (bt_base s)" using assms(1) by (simp add: batch_ok_def)
  from select_managed [OF this b(1)] b show ?thesis by (simp add: batch_ok_def)
next
  case False
  with assms show ?thesis by (auto simp: batch_selectState_def batch_ok_def)
qed

lemma batch_update_works:
  assumes "batch_ok s" "valid_update (managed (bt_base s)) added removed"
    "\<And>c. current = Some c \<Longrightarrow> c \<in> managed (bt_base s)"
  shows "\<exists>s'. batch_update vt current added removed s = Some s' \<and> batch_ok s' \<and>
           managed (bt_base s') = managed (bt_base s) \<union> set added - set removed"
proof -
  obtain b where "update current added removed (bt_base s) = Some b" "invar b"
      "managed b = managed (bt_base s) \<union> set added - set removed"
    using update_works [of "bt_base s" added removed current] assms unfolding batch_ok_def by blast
  then show ?thesis using assms(1) by (auto simp: batch_update_def batch_ok_def)
qed

lemma batching_robust:
  "robust_searcher (batch_selectState vt t ck) (batch_update vt) (batch_empty vt) (\<lambda>s. managed (bt_base s)) batch_ok
     (\<lambda>s c. c \<in> managed (bt_base s))"
proof (unfold_locales, goal_cases)
  case (2 s)
  then obtain x b where "selectState (bt_base s) = Some (x, b)"
    using select_returns [of "bt_base s"] by (auto simp: batch_ok_def)
  then show ?case by (simp add: batch_selectState_def)
next
  case (3 s x s')
  then show ?case using batch_select [of s t ck x s'] by auto
next
  case (4 s added removed current s')
  then show ?case using batch_update_works [of s added removed current] by auto
next
  case (5 s added removed current)
  then show ?case using batch_update_works [of s added removed current] by auto
qed (auto simp: batch_empty_def batch_ok_def empty_managed)

text \<open>Interleaving: all searchers manage the same states.\<close>

definition interleaved_ok :: "'a interleaved \<Rightarrow> bool" where
  "interleaved_ok s \<longleftrightarrow> 0 < il_index s \<and> il_index s \<le> length (il_searchers s) \<and>
     (\<forall>b\<in>set (il_searchers s). invar b \<and> managed b = managed (hd (il_searchers s)))"

definition interleaved_managed :: "'a interleaved \<Rightarrow> state_ptr set" where
  "interleaved_managed s = managed (hd (il_searchers s))"

lemma interleaved_okI:
  assumes "bs \<noteq> []" "\<forall>b\<in>set bs. invar b \<and> managed b = S" "0 < j" "j \<le> length bs"
  shows "interleaved_ok (s\<lparr>il_searchers := bs, il_index := j\<rparr>) \<and>
    interleaved_managed (s\<lparr>il_searchers := bs, il_index := j\<rparr>) = S"
  using assms by (auto simp: interleaved_ok_def interleaved_managed_def)

lemma interleaved_all: "interleaved_ok s \<Longrightarrow> b \<in> set (il_searchers s) \<Longrightarrow> invar b \<and> managed b = interleaved_managed s"
  by (simp add: interleaved_ok_def interleaved_managed_def)

lemma interleaved_turn:
  assumes "interleaved_ok s" "il_turn (length (il_searchers s)) (il_index s) = (i, j)"
  shows "i < length (il_searchers s) \<and> 0 < j \<and> j \<le> length (il_searchers s)"
  using assms by (auto simp: interleaved_ok_def il_turn_def Let_def split: if_splits)

lemma interleaved_select_ok:
  assumes ok: "interleaved_ok s" and sel: "interleaved_selectState vt s = Some (x, s')"
  shows "x \<in> interleaved_managed s \<and> interleaved_managed s' = interleaved_managed s \<and> interleaved_ok s'"
proof -
  obtain i j b where t: "il_turn (length (il_searchers s)) (il_index s) = (i, j)"
      "selectState (il_searchers s ! i) = Some (x, b)" "s' = s\<lparr>il_searchers := (il_searchers s)[i := b], il_index := j\<rparr>"
    using sel by (auto simp: interleaved_selectState_def split: if_splits prod.splits option.splits)
  note i = interleaved_turn [OF ok t(1)]
  then have bi: "invar (il_searchers s ! i)" "managed (il_searchers s ! i) = interleaved_managed s"
    using interleaved_all [OF ok, of "il_searchers s ! i"] by simp_all
  note m = select_managed [OF bi(1) t(2)]
  have "\<forall>c\<in>set ((il_searchers s)[i := b]). invar c \<and> managed c = interleaved_managed s"
    using m bi(2) interleaved_all [OF ok] set_update_subset_insert [of "il_searchers s" i b] by auto
  then show ?thesis using interleaved_okI [of "(il_searchers s)[i := b]" _ j s] i m bi(2) t(3) by fastforce
qed

lemma update_each_ok:
  assumes "\<forall>b\<in>set bs. invar b \<and> managed b = S" "valid_update S added removed" "\<And>c. current = Some c \<Longrightarrow> c \<in> S"
  shows "\<exists>bs'. update_each vt current added removed bs = Some bs' \<and> length bs' = length bs \<and>
    (\<forall>b\<in>set bs'. invar b \<and> managed b = S \<union> set added - set removed)"
  using assms(1)
proof (induction bs)
  case (Cons b bs)
  then obtain b' where "update current added removed b = Some b'" "invar b'" "managed b' = S \<union> set added - set removed"
    using update_works [of b added removed current] assms(2,3) by auto
  with Cons show ?case by auto
qed simp

lemma interleaved_update_ok:
  assumes "interleaved_ok s" "valid_update (interleaved_managed s) added removed"
    "\<And>c. current = Some c \<Longrightarrow> c \<in> interleaved_managed s"
  shows "\<exists>s'. interleaved_update vt current added removed s = Some s' \<and> interleaved_ok s' \<and>
    interleaved_managed s' = interleaved_managed s \<union> set added - set removed"
proof -
  obtain bs where bs: "update_each vt current added removed (il_searchers s) = Some bs" "length bs = length (il_searchers s)"
      "\<forall>b\<in>set bs. invar b \<and> managed b = interleaved_managed s \<union> set added - set removed"
    using update_each_ok [OF _ assms(2,3)] interleaved_all [OF assms(1)] by blast
  have "bs \<noteq> []" "0 < il_index s" "il_index s \<le> length bs" using assms(1) bs(2) by (auto simp: interleaved_ok_def)
  then show ?thesis
    using interleaved_okI [OF _ bs(3), of "il_index s" s] bs(1) by (auto simp: interleaved_update_def)
qed

lemma interleaving_robust:
  "robust_searcher (interleaved_selectState vt) (interleaved_update vt) (interleaved_empty vt) interleaved_managed
     interleaved_ok (\<lambda>s c. c \<in> interleaved_managed s)"
proof (unfold_locales, goal_cases)
  case (1 s)
  then obtain b bs where "il_searchers s = b # bs" by (cases "il_searchers s") (auto simp: interleaved_ok_def)
  with 1 show ?case using empty_managed [of b] by (auto simp: interleaved_empty_def interleaved_ok_def interleaved_managed_def)
next
  case (2 s)
  obtain i j where t: "il_turn (length (il_searchers s)) (il_index s) = (i, j)" by fastforce
  then have "il_searchers s ! i \<in> set (il_searchers s)" using interleaved_turn [OF 2(1) t] by simp
  then obtain x b where "selectState (il_searchers s ! i) = Some (x, b)"
    using interleaved_all [OF 2(1)] select_returns 2(2) by metis
  with 2 t show ?case by (auto simp: interleaved_selectState_def interleaved_ok_def)
next
  case (3 s x s')
  then show ?case using interleaved_select_ok [of s x s'] by auto
next
  case (4 s added removed current s')
  then show ?case using interleaved_update_ok [of s added removed current] by auto
next
  case (5 s added removed current)
  then show ?case using interleaved_update_ok [of s added removed current] by auto
qed simp

end

subsection \<open>The searchers the user can build\<close>

fun plain_managed :: "plain_searcher \<Rightarrow> state_ptr set" where
  "plain_managed (DFS s) = set s"
| "plain_managed (BFS s) = set s"
| "plain_managed (RandomState s) = set (rs_states s)"

fun plain_ok :: "plain_searcher \<Rightarrow> bool" where
  "plain_ok (DFS s) = distinct s"
| "plain_ok (BFS s) = distinct s"
| "plain_ok (RandomState s) = (distinct (rs_states s) \<and> rng_ok (rs_theRNG s))"

interpretation plain: robust_searcher plain_selectState plain_update plain_empty plain_managed plain_ok
  "\<lambda>s c. c \<in> plain_managed s"
proof (unfold_locales, goal_cases)
  case (1 s)
  then show ?case using dfs.empty_managed bfs.empty_managed random.empty_managed by (cases s) auto
next
  case (2 s)
  show ?case
  proof (cases s)
    case (DFS d)
    with 2 dfs.select_returns [of d] show ?thesis by auto
  next
    case (BFS d)
    with 2 bfs.select_returns [of d] show ?thesis by auto
  next
    case (RandomState d)
    with 2 random.select_returns [of d] show ?thesis by auto
  qed
next
  case (3 s x s')
  show ?case
  proof (cases s)
    case (DFS d)
    with 3 dfs.select_managed [of d x] show ?thesis by auto
  next
    case (BFS d)
    with 3 bfs.select_managed [of d x] show ?thesis by auto
  next
    case (RandomState d)
    with 3 obtain d' where "random_selectState d = Some (x, d')" "s' = RandomState d'" by auto
    with 3 RandomState random.select_managed [of d x d'] show ?thesis by simp
  qed
next
  case (4 s added removed current s')
  show ?case
  proof (cases s)
    case (DFS d)
    with 4 dfs_update_spec [of d added removed current] show ?thesis by auto
  next
    case (BFS d)
    with 4 bfs_update_spec [of d added removed current] show ?thesis by auto
  next
    case (RandomState d)
    with 4 random_update_spec [of d added removed current] show ?thesis by auto
  qed
next
  case (5 s added removed current)
  show ?case
  proof (cases s)
    case (DFS d)
    with 5 dfs_update_spec [of d added removed current] show ?thesis by auto
  next
    case (BFS d)
    with 5 bfs_update_spec [of d added removed current] show ?thesis by auto
  next
    case (RandomState d)
    with 5 random_update_spec [of d added removed current] show ?thesis by auto
  qed
qed simp

lemma plain_vt_eq: "plain.vt = plain_vt"
  by (simp add: plain.vt_def plain_vt_def)

interpretation mixed: robust_searcher "interleaved_selectState plain_vt" "interleaved_update plain_vt"
  "interleaved_empty plain_vt" plain.interleaved_managed plain.interleaved_ok
  "\<lambda>s c. c \<in> plain.interleaved_managed s"
  using plain.interleaving_robust unfolding plain_vt_eq .

lemma mixed_vt_eq: "mixed.vt = interleaved_vt plain_vt"
  by (simp add: mixed.vt_def interleaved_vt_def)

interpretation batched: robust_searcher "batch_selectState (interleaved_vt plain_vt) t ck"
  "batch_update (interleaved_vt plain_vt)" "batch_empty (interleaved_vt plain_vt)"
  "\<lambda>s. plain.interleaved_managed (bt_base s)" mixed.batch_ok "\<lambda>s c. c \<in> plain.interleaved_managed (bt_base s)" for t ck
  using mixed.batching_robust unfolding mixed_vt_eq .

lemma batched_vt_eq: "batched.vt t ck = batch_vt t ck (interleaved_vt plain_vt)"
  by (simp add: batched.vt_def batch_vt_def)

interpretation deepened: searcher "deepen_selectState (batch_vt t ck (interleaved_vt plain_vt)) t0"
  "deepen_update (batch_vt t ck (interleaved_vt plain_vt)) now" "deepen_empty (batch_vt t ck (interleaved_vt plain_vt))"
  batched.deepen_managed batched.deepen_ok
  "\<lambda>s c. c \<in> plain.interleaved_managed (bt_base (dt_base s)) \<and> c \<in> plain.interleaved_managed (bt_base (dt_base s))"
  for t ck t0 now
  using batched.deepening_searcher [of t ck t0 now] unfolding batched_vt_eq .

lemma deepened_vt_eq: "deepened.vt t ck t0 now = deepen_vt t0 now (batch_vt t ck (interleaved_vt plain_vt))"
  by (simp add: deepened.vt_def deepen_vt_def)

text \<open>
  The states the three layers hold between them, and the invariant: the interleaved searchers manage the
  same states, the state of the current batch is one of them, a paused state is not, and there is no paused
  state when they have none.
\<close>

definition stack_managed :: "plain_searcher interleaved batching deepening \<Rightarrow> state_ptr set" where
  "stack_managed s = plain_managed (hd (il_searchers (bt_base (dt_base s)))) \<union> dt_paused s"

definition stack_ok :: "plain_searcher interleaved batching deepening \<Rightarrow> bool" where
  "stack_ok s \<longleftrightarrow>
     (let il = bt_base (dt_base s); S = plain_managed (hd (il_searchers il))
      in 0 < il_index il \<and> il_index il \<le> length (il_searchers il) \<and>
         (\<forall>b\<in>set (il_searchers il). plain_ok b \<and> plain_managed b = S) \<and>
         (\<forall>x. bt_lastState (dt_base s) = Some x \<longrightarrow> x \<in> S) \<and>
         finite (dt_paused s) \<and> dt_paused s \<inter> S = {} \<and> (S = {} \<longrightarrow> dt_paused s = {}))"

definition stack_in_step :: "plain_searcher interleaved batching deepening exec_states \<Rightarrow> bool" where
  "stack_in_step ex \<longleftrightarrow> (\<exists>s. ex_searcher ex = Some s \<and> stack_ok s \<and> stack_managed s = ex_states ex)"

lemma stack_in_step_eq: "deepened.in_step ex \<longleftrightarrow> stack_in_step ex"
proof -
  have "batched.deepen_managed s = stack_managed s" for s
    unfolding batched.deepen_managed_def unfolding stack_managed_def plain.interleaved_managed_def ..
  moreover have "batched.deepen_ok s \<longleftrightarrow> stack_ok s" for s
    unfolding batched.deepen_ok_def unfolding mixed.batch_ok_def unfolding plain.interleaved_ok_def
    unfolding plain.interleaved_managed_def stack_ok_def Let_def by blast
  ultimately show ?thesis by (simp add: deepened.in_step_def stack_in_step_def)
qed

text \<open>
  C33. The interpreter loop runs with iterative deepening over batching over interleaved DFS, BFS and random
  searchers: while there are states, every round selects a state that the executor knows and returns (no
  \<open>erase\<close> of a state that is not there, no empty searcher asked), and afterwards the layers again hold
  exactly the executor's states, whatever the clock shows and whichever states the instruction adds and
  removes.
\<close>

theorem searcher_stack_round:
  assumes "stack_in_step ex" and "ex_states ex \<noteq> {}" and "valid_update (ex_states ex) added removed"
  shows "\<exists>x ex'. run_round (deepen_vt t0 now (batch_vt t ck (interleaved_vt plain_vt))) (\<lambda>_ s. Some s) (added, removed) ex = Some (x, ex') \<and>
    x \<in> ex_states ex \<and> stack_in_step ex' \<and> ex_states ex' = ex_states ex \<union> set added - set removed"
proof -
  obtain x ex' where r: "run_round (deepened.vt t ck t0 now) (\<lambda>_ s. Some s) (added, removed) ex = Some (x, ex')"
    using deepened.round_returns [of ex "(added, removed)" "\<lambda>_ s. Some s" t ck t0 now] assms by (auto simp: stack_in_step_eq)
  from deepened.round_in_step [OF _ _ r] assms r show ?thesis
    by (auto simp: stack_in_step_eq deepened_vt_eq)
qed

definition small_stack :: "plain_searcher interleaved batching deepening exec_states" where
  "small_stack = \<lparr>ex_states = {1, 2}, ex_added = [], ex_removed = [], ex_searcher =
     Some \<lparr>dt_base = \<lparr>bt_base = \<lparr>il_searchers = [DFS [1], BFS [1]], il_index = 1\<rparr>, bt_timeBudget = 0,
             bt_instructionBudget = 10, bt_lastState = None, bt_lastStartTime = 0, bt_lastStartInstructions = 0\<rparr>,
           dt_startTime = 0, dt_time = 1000000000, dt_paused = {2}\<rparr>\<rparr>"

lemma small_stack_ok: "stack_in_step small_stack"
  by (auto simp: stack_in_step_def small_stack_def stack_ok_def stack_managed_def)

theorem searcher_stack_round_witness:
  "\<exists>x ex'. run_round (deepen_vt 0 5 (batch_vt id \<lparr>ck_test = 1, ck_delta = 2, ck_start = 3, ck_instructions = 7\<rparr>
       (interleaved_vt plain_vt))) (\<lambda>_ s. Some s) ([3], [1, 2]) small_stack = Some (x, ex') \<and>
    x \<in> {1, 2} \<and> stack_in_step ex' \<and> ex_states ex' = {3}"
proof -
  have "valid_update (ex_states small_stack) [3] [1, 2]" by (simp add: valid_update_def small_stack_def)
  from searcher_stack_round [OF small_stack_ok _ this] show ?thesis by (fastforce simp: small_stack_def)
qed

subsection \<open>Round robin\<close>

fun il_turns :: "nat \<Rightarrow> nat \<Rightarrow> nat \<Rightarrow> nat list" where
  "il_turns n 0 index = []"
| "il_turns n (Suc k) index = (case il_turn n index of (i, j) \<Rightarrow> i # il_turns n k j)"

lemma il_turns_down:
  "k \<le> index \<Longrightarrow> il_turns n (k + m) index = rev [index - k..<index] @ il_turns n m (if k = index \<and> 0 < k then n else index - k)"
proof (induction k arbitrary: index)
  case (Suc k)
  then obtain i where i: "index = Suc i" "k \<le> i" by (cases index) auto
  show ?case
  proof (cases "i = 0")
    case False
    then have "il_turns n (Suc k + m) index = i # il_turns n (k + m) i" using i by (simp add: il_turn_def)
    then show ?thesis using Suc.IH [OF i(2)] False i by (auto simp: upt_Suc)
  qed (use i in \<open>simp add: il_turn_def\<close>)
qed simp

text \<open>
  \<open>InterleavedSearcher\<close> is fair: in as many selections as there are searchers, wherever it starts, every
  searcher is asked exactly once.
\<close>

theorem interleaved_round_robin:
  assumes "0 < index" and "index \<le> n"
  shows "mset (il_turns n n index) = mset [0..<n]"
proof -
  have "il_turns n n index = rev [0..<index] @ il_turns n (n - index) n"
    using il_turns_down [of index index n "n - index"] assms by simp
  also have "il_turns n (n - index) n = rev [index..<n]"
    using il_turns_down [of "n - index" n n 0] assms by simp
  finally have "mset (il_turns n n index) = mset [0..<index] + mset [index..<n]" by simp
  also have "\<dots> = mset ([0..<index] @ [index..<n])" by simp
  also have "[0..<index] @ [index..<n] = [0..<n]" using upt_add_eq_append [of 0 index "n - index"] assms by simp
  finally show ?thesis .
qed

theorem interleaved_round_robin_witness: "mset (il_turns 3 3 1) = mset [0..<3]"
  by (rule interleaved_round_robin) simp_all

subsection \<open>The instruction budget of a batch\<close>

lemma ucast_low: "unat (ucast (ucast (n :: u64) :: u32) :: u64) = unat n mod 2 ^ 32"
  by (simp only: unsigned_ucast_eq take_bit_take_bit) (simp add: take_bit_eq_mod unat_mod)

text \<open>
  Once more than \<open>2 ^ 32\<close> instructions have been executed a batch never lasts: \<open>lastStartInstructions\<close> is
  \<open>unsigned\<close> and \<open>stats::instructions\<close> is 64 bits wide, so the batch is over in the very same instruction it
  was started in, whatever the budget.
\<close>

theorem batch_budget_wraps:
  assumes "bt_instructionBudget s > 0" and "bt_lastStartInstructions s = ucast n" and "2 ^ 32 \<le> unat n"
    and "ck_instructions ck = n"
  shows "batch_expired ck s"
proof -
  let ?l = "ucast (ucast n :: u32) :: u64"
  have l: "unat ?l = unat n mod 2 ^ 32" by (rule ucast_low)
  then have le: "?l \<le> n" by (simp add: word_le_nat_alt)
  have "unat (n - ?l) = unat n - unat n mod 2 ^ 32" using unat_sub [OF le] l by simp
  also have "\<dots> = unat n div 2 ^ 32 * 2 ^ 32" by (metis minus_mod_eq_div_mult)
  also have "\<dots> \<ge> 2 ^ 32" using assms(3) by (simp add: div_greater_zero_iff Suc_le_eq)
  finally have "2 ^ 32 \<le> unat (n - ?l)" .
  moreover have "unat (ucast (bt_instructionBudget s) :: u64) < 2 ^ 32"
    using unsigned_less [of "bt_instructionBudget s", where 'a = nat] le_less_trans [OF take_bit_nat_less_eq_self]
    by (simp add: unsigned_ucast_eq)
  ultimately have "(ucast (bt_instructionBudget s) :: u64) < n - ?l" by (simp add: word_less_nat_alt)
  then show ?thesis using assms by (simp add: batch_expired_def)
qed

theorem batch_budget_wraps_witness:
  "batch_expired \<lparr>ck_test = 0, ck_delta = 0, ck_start = 0, ck_instructions = 4294967296\<rparr>
     \<lparr>bt_base = (), bt_timeBudget = 0, bt_instructionBudget = 10000, bt_lastState = Some 1, bt_lastStartTime = 0,
      bt_lastStartInstructions = 0\<rparr>"
  by (rule batch_budget_wraps [of _ 4294967296]) simp_all

end
