(* ===== verification/UserSearcher.thy ===== *)
theory UserSearcher
  imports Main
begin

section \<open>The searcher the user asks for\<close>

text \<open>
  \<open>klee/lib/Core/UserSearcher.cpp\<close>: the command line's list of searchers (\<open>CoreSearch\<close>) becomes a searcher
  over searchers. The result is the tree of the objects that are built; \<open>NullSearcher\<close> is a null pointer.
  \<open>constructUserSearcher\<close> prints the name of what it built: the result is \<open>None\<close> when \<open>CoreSearch\<close> is empty
  or printing reaches a null pointer.
\<close>

datatype core_search = CS_DFS | CS_BFS | CS_RandomState | CS_RandomPath | CS_NURS_CovNew | CS_NURS_MD2U
  | CS_NURS_Depth | CS_NURS_RP | CS_NURS_ICnt | CS_NURS_CPICnt | CS_NURS_QC | CS_CGS

datatype weight_type = W_Depth | W_RP | W_QueryCost | W_InstCount | W_CPInstCount | W_MinDistToUncovered | W_CoveringNew

datatype searcher_tree = NullSearcher | DFSSearcher | BFSSearcher | RandomSearcher | RandomPathSearcher
  | WeightedRandomSearcher weight_type | CGSSearcher | InterleavedSearcher "searcher_tree list"
  | BatchingSearcher searcher_tree | IterativeDeepeningTimeSearcher searcher_tree | MergingSearcher searcher_tree

definition initializeSearchOptions :: "bool \<Rightarrow> core_search list \<Rightarrow> core_search list" where
  "initializeSearchOptions UseMerge CoreSearch =
     (if CoreSearch = [] then (if UseMerge then [CS_NURS_CovNew] else [CS_RandomPath, CS_NURS_CovNew]) else CoreSearch)"

definition userSearcherRequiresCGS :: "core_search list \<Rightarrow> bool" where
  "userSearcherRequiresCGS CoreSearch \<longleftrightarrow> CS_CGS \<in> set CoreSearch"

definition userSearcherRequiresMD2U :: "core_search list \<Rightarrow> bool" where
  "userSearcherRequiresMD2U CoreSearch \<longleftrightarrow>
     CS_NURS_MD2U \<in> set CoreSearch \<or> CS_NURS_CovNew \<in> set CoreSearch \<or> CS_NURS_ICnt \<in> set CoreSearch \<or>
     CS_NURS_CPICnt \<in> set CoreSearch \<or> CS_NURS_QC \<in> set CoreSearch"

fun getNewSearcher :: "core_search \<Rightarrow> searcher_tree" where
  "getNewSearcher CS_DFS = DFSSearcher"
| "getNewSearcher CS_BFS = BFSSearcher"
| "getNewSearcher CS_RandomState = RandomSearcher"
| "getNewSearcher CS_RandomPath = RandomPathSearcher"
| "getNewSearcher CS_NURS_CovNew = WeightedRandomSearcher W_CoveringNew"
| "getNewSearcher CS_NURS_MD2U = WeightedRandomSearcher W_MinDistToUncovered"
| "getNewSearcher CS_NURS_Depth = WeightedRandomSearcher W_Depth"
| "getNewSearcher CS_NURS_RP = WeightedRandomSearcher W_RP"
| "getNewSearcher CS_NURS_ICnt = WeightedRandomSearcher W_InstCount"
| "getNewSearcher CS_NURS_CPICnt = WeightedRandomSearcher W_CPInstCount"
| "getNewSearcher CS_NURS_QC = WeightedRandomSearcher W_QueryCost"
| "getNewSearcher CS_CGS = NullSearcher"

text \<open>\<open>printName\<close> goes down through interleaving and batching only.\<close>

fun printName_returns :: "searcher_tree \<Rightarrow> bool" where
  "printName_returns NullSearcher = False"
| "printName_returns (InterleavedSearcher ss) = (\<forall>s\<in>set ss. printName_returns s)"
| "printName_returns (BatchingSearcher s) = printName_returns s"
| "printName_returns _ = True"

definition core_searcher :: "core_search list \<Rightarrow> searcher_tree" where
  "core_searcher CoreSearch =
     (let first = (if hd CoreSearch \<noteq> CS_CGS then getNewSearcher (hd CoreSearch) else CGSSearcher)
      in if length CoreSearch > 1 then InterleavedSearcher (first # map getNewSearcher (tl CoreSearch)) else first)"

definition constructUserSearcher :: "bool \<Rightarrow> bool \<Rightarrow> bool \<Rightarrow> core_search list \<Rightarrow> searcher_tree option" where
  "constructUserSearcher UseBatchingSearch UseIterativeDeepening UseMerge CoreSearch =
     (if CoreSearch = [] then None
      else (let s1 = core_searcher CoreSearch;
                s2 = (if UseBatchingSearch then BatchingSearcher s1 else s1);
                s3 = (if UseIterativeDeepening then IterativeDeepeningTimeSearcher s2 else s2);
                s4 = (if UseMerge then MergingSearcher s3 else s3)
            in if printName_returns s4 then Some s4 else None))"

subsection \<open>When the searcher is usable\<close>

fun has_null :: "searcher_tree \<Rightarrow> bool" where
  "has_null NullSearcher = True"
| "has_null (InterleavedSearcher ss) = (\<exists>s\<in>set ss. has_null s)"
| "has_null (BatchingSearcher s) = has_null s"
| "has_null (IterativeDeepeningTimeSearcher s) = has_null s"
| "has_null (MergingSearcher s) = has_null s"
| "has_null _ = False"

lemma getNewSearcher_null: "has_null (getNewSearcher t) \<longleftrightarrow> t = CS_CGS" "printName_returns (getNewSearcher t) \<longleftrightarrow> t \<noteq> CS_CGS"
  by (cases t; simp)+

lemma core_searcher_null:
  "cs \<noteq> [] \<Longrightarrow> (has_null (core_searcher cs) \<longleftrightarrow> CS_CGS \<in> set (tl cs)) \<and>
     (printName_returns (core_searcher cs) \<longleftrightarrow> CS_CGS \<notin> set (tl cs))"
  by (cases cs) (auto simp: core_searcher_def Let_def getNewSearcher_null)

text \<open>
  The search of this repository works only as the first of the searchers on the command line: when \<open>CGS\<close>
  comes later, a null pointer is interleaved, and either printing the searcher's name dereferences it or
  (below iterative deepening or merging) the searcher is returned with the null pointer in it. In every
  other case a searcher without a null pointer is built.
\<close>

theorem constructUserSearcher_cgs_first:
  "constructUserSearcher b d m (c # cs) =
     (if CS_CGS \<in> set cs \<and> \<not> d \<and> \<not> m then None
      else Some (let s = core_searcher (c # cs); s = (if b then BatchingSearcher s else s);
                     s = (if d then IterativeDeepeningTimeSearcher s else s) in if m then MergingSearcher s else s)) \<and>
   (\<forall>s. constructUserSearcher b d m (c # cs) = Some s \<longrightarrow> has_null s = (CS_CGS \<in> set cs))"
  using core_searcher_null [of "c # cs"] by (auto simp: constructUserSearcher_def Let_def)

theorem constructUserSearcher_cgs_first_witness:
  "constructUserSearcher True False False [CS_DFS, CS_CGS] = None \<and>
   constructUserSearcher True False False [CS_CGS, CS_DFS] = Some (BatchingSearcher (InterleavedSearcher [CGSSearcher, DFSSearcher]))"
  using constructUserSearcher_cgs_first [of True False False CS_DFS "[CS_CGS]"]
    constructUserSearcher_cgs_first [of True False False CS_CGS "[CS_DFS]"]
  by (simp add: core_searcher_def)

end
