(* ===== verification/PTree.thy ===== *)
theory PTree
  imports Prelude "HOL-Library.Word" "HOL-Library.Monad_Syntax"
begin

unbundle bit_operations_syntax

section \<open>The process tree\<close>

text \<open>
  \<open>klee/lib/Core/PTree.h\<close> and \<open>PTree.cpp\<close>: the binary tree of all forks. Its leaves are the states,
  nodes have parent pointers, and every pointer to a child carries a bit mask (\<open>PTreeNodePtr\<close>): which
  of the random-path searchers own a state below. The nodes live in a heap; \<open>ptreeNode\<close> is the
  pointer of a state to its leaf. The addresses that \<open>new\<close> returns are arguments of the operations.
  \<open>dump\<close> only prints.

  First the code, then the shape of a well-formed tree (\<open>tree_shape\<close>, \<open>tree_ok\<close>) and what it means
  that the masks are right (\<open>owned_ok\<close>), and that \<open>attach\<close> and \<open>remove\<close> keep both.
\<close>

subsection \<open>Nodes and pointers\<close>

type_synonym node_ptr = nat
type_synonym u8 = "8 word"

record PTreeNodePtr =
  getPointer :: "node_ptr option"
  getInt :: u8

record PTreeNode =
  pn_parent :: "node_ptr option"
  pn_left :: PTreeNodePtr
  pn_right :: PTreeNodePtr
  pn_state :: "state_ptr option"

record ptree =
  registeredIds :: nat
  pt_root :: PTreeNodePtr
  nodes :: "node_ptr \<Rightarrow> PTreeNode option"
  ptreeNode :: "state_ptr \<Rightarrow> node_ptr option"

definition PtrBitCount :: nat where "PtrBitCount = 3"

definition null_ptr :: PTreeNodePtr where
  "null_ptr = \<lparr>getPointer = None, getInt = 0\<rparr>"

definition to_node :: "node_ptr \<Rightarrow> u8 \<Rightarrow> PTreeNodePtr" where
  "to_node n i = \<lparr>getPointer = Some n, getInt = i\<rparr>"

text \<open>The constructor of a node at the address \<open>a\<close>, which also points the state to it.\<close>

definition new_ptree_node :: "node_ptr \<Rightarrow> node_ptr option \<Rightarrow> state_ptr \<Rightarrow> ptree \<Rightarrow> ptree" where
  "new_ptree_node a p s t =
     t\<lparr>nodes := (nodes t)(a \<mapsto> \<lparr>pn_parent = p, pn_left = null_ptr, pn_right = null_ptr, pn_state = Some s\<rparr>),
       ptreeNode := (ptreeNode t)(s \<mapsto> a)\<rparr>"

definition ptree_init :: "node_ptr \<Rightarrow> state_ptr \<Rightarrow> ptree" where
  "ptree_init a s =
     new_ptree_node a None s \<lparr>registeredIds = 0, pt_root = to_node a 0, nodes = Map.empty, ptreeNode = Map.empty\<rparr>"

text \<open>\<open>None\<close>: \<open>klee_error\<close>, which exits.\<close>

definition getNextId :: "ptree \<Rightarrow> (u8 \<times> ptree) option" where
  "getNextId t =
     (let i = push_bit (registeredIds t) 1; t' = t\<lparr>registeredIds := Suc (registeredIds t)\<rparr>
      in if PtrBitCount < registeredIds t' then None else Some (i, t'))"

definition set_node :: "node_ptr \<Rightarrow> (PTreeNode \<Rightarrow> PTreeNode) \<Rightarrow> ptree \<Rightarrow> ptree" where
  "set_node n f t = t\<lparr>nodes := (nodes t)(n := map_option f (nodes t n))\<rparr>"

text \<open>The places that hold a pointer to a node.\<close>

datatype slot = Root | LeftOf node_ptr | RightOf node_ptr

fun load_slot :: "slot \<Rightarrow> ptree \<Rightarrow> PTreeNodePtr option" where
  "load_slot Root t = Some (pt_root t)"
| "load_slot (LeftOf p) t = map_option pn_left (nodes t p)"
| "load_slot (RightOf p) t = map_option pn_right (nodes t p)"

fun store_slot :: "slot \<Rightarrow> PTreeNodePtr \<Rightarrow> ptree \<Rightarrow> ptree" where
  "store_slot Root q t = t\<lparr>pt_root := q\<rparr>"
| "store_slot (LeftOf p) q t = set_node p (\<lambda>nd. nd\<lparr>pn_left := q\<rparr>) t"
| "store_slot (RightOf p) q t = set_node p (\<lambda>nd. nd\<lparr>pn_right := q\<rparr>) t"

text \<open>\<open>parent ? (parent->left.getPointer() == n ? &parent->left : &parent->right) : &root\<close>.\<close>

definition child_slot :: "node_ptr option \<Rightarrow> node_ptr option \<Rightarrow> ptree \<Rightarrow> slot option" where
  "child_slot parent n t =
     (case parent of
        None \<Rightarrow> Some Root
      | Some p \<Rightarrow> map_option (\<lambda>pd. if getPointer (pn_left pd) = n then LeftOf p else RightOf p) (nodes t p))"

subsection \<open>Attaching and removing\<close>

definition attach :: "node_ptr \<Rightarrow> node_ptr \<Rightarrow> node_ptr option \<Rightarrow> state_ptr \<Rightarrow> state_ptr \<Rightarrow> ptree \<Rightarrow> ptree option" where
  "attach a b node leftState rightState t = do {
     n \<leftarrow> node;
     nd \<leftarrow> nodes t n;
     if getPointer (pn_left nd) \<noteq> None \<or> getPointer (pn_right nd) \<noteq> None \<or> ptreeNode t rightState \<noteq> Some n
     then None
     else do {
       let t1 = set_node n (\<lambda>nd. nd\<lparr>pn_state := None\<rparr>) t;
       let t2 = set_node n (\<lambda>nd. nd\<lparr>pn_left := to_node a 0\<rparr>) (new_ptree_node a (Some n) leftState t1);
       sl \<leftarrow> child_slot (pn_parent nd) (Some n) t2;
       q \<leftarrow> load_slot sl t2;
       Some (set_node n (\<lambda>nd. nd\<lparr>pn_right := to_node b (getInt q)\<rparr>) (new_ptree_node b (Some n) rightState t2)) } }"

text \<open>
  The pointer of a parent \<open>p\<close> to its child \<open>n\<close> is overwritten; the assertion is that \<open>n\<close> is one of the
  two children.
\<close>

definition replace_child :: "node_ptr \<Rightarrow> node_ptr \<Rightarrow> PTreeNodePtr \<Rightarrow> ptree \<Rightarrow> ptree option" where
  "replace_child p n q t = do {
     pd \<leftarrow> nodes t p;
     if getPointer (pn_left pd) = Some n then Some (set_node p (\<lambda>nd. nd\<lparr>pn_left := q\<rparr>) t)
     else if getPointer (pn_right pd) = Some n then Some (set_node p (\<lambda>nd. nd\<lparr>pn_right := q\<rparr>) t)
     else None }"

definition unlink :: "node_ptr \<Rightarrow> node_ptr option \<Rightarrow> ptree \<Rightarrow> ptree option" where
  "unlink n parent t = (case parent of None \<Rightarrow> Some t | Some p \<Rightarrow> replace_child p n null_ptr t)"

definition delete_node :: "node_ptr \<Rightarrow> ptree \<Rightarrow> ptree" where
  "delete_node n t = t\<lparr>nodes := (nodes t)(n := None)\<rparr>"

text \<open>The loop of \<open>remove\<close>: the node at which it stops, if any.\<close>

partial_function (option) remove_up :: "node_ptr \<Rightarrow> ptree \<Rightarrow> (node_ptr option \<times> ptree) option" where
  "remove_up n t = do {
     nd \<leftarrow> nodes t n;
     t1 \<leftarrow> unlink n (pn_parent nd) t;
     let t2 = delete_node n t1;
     case pn_parent nd of
       None \<Rightarrow> Some (None, t2)
     | Some p \<Rightarrow> do {
         pd \<leftarrow> nodes t2 p;
         if getPointer (pn_left pd) = None \<and> getPointer (pn_right pd) = None then remove_up p t2
         else Some (Some p, t2) } }"

declare remove_up.simps [code]

text \<open>\<open>-compress-process-tree\<close>: a node with one child is replaced by the child.\<close>

definition compress_node :: "node_ptr \<Rightarrow> ptree \<Rightarrow> ptree option" where
  "compress_node n t = do {
     nd \<leftarrow> nodes t n;
     let child = (if getPointer (pn_left nd) \<noteq> None then pn_left nd else pn_right nd);
     c \<leftarrow> getPointer child;
     _ \<leftarrow> nodes t c;
     let t1 = set_node c (\<lambda>cd. cd\<lparr>pn_parent := pn_parent nd\<rparr>) t;
     t2 \<leftarrow> (case pn_parent nd of
               None \<Rightarrow> Some (t1\<lparr>pt_root := child\<rparr>)
             | Some p \<Rightarrow> replace_child p n child t1);
     Some (delete_node n t2) }"

definition ptree_remove :: "bool \<Rightarrow> node_ptr option \<Rightarrow> ptree \<Rightarrow> ptree option" where
  "ptree_remove CompressProcessTree node t = do {
     n \<leftarrow> node;
     nd \<leftarrow> nodes t n;
     if getPointer (pn_left nd) \<noteq> None \<or> getPointer (pn_right nd) \<noteq> None then None
     else do {
       (stop, t') \<leftarrow> remove_up n t;
       case stop of
         Some m \<Rightarrow> if CompressProcessTree then compress_node m t' else Some t'
       | None \<Rightarrow> Some t' } }"

subsection \<open>The shape of a tree\<close>

text \<open>The links of the heap without the masks; \<open>None\<close> for an address that is not in use.\<close>

definition up :: "ptree \<Rightarrow> node_ptr \<Rightarrow> node_ptr option" where
  "up t n = Option.bind (nodes t n) pn_parent"

definition lc :: "ptree \<Rightarrow> node_ptr \<Rightarrow> node_ptr option" where
  "lc t n = Option.bind (nodes t n) (\<lambda>nd. getPointer (pn_left nd))"

definition rc :: "ptree \<Rightarrow> node_ptr \<Rightarrow> node_ptr option" where
  "rc t n = Option.bind (nodes t n) (\<lambda>nd. getPointer (pn_right nd))"

definition st :: "ptree \<Rightarrow> node_ptr \<Rightarrow> state_ptr option" where
  "st t n = Option.bind (nodes t n) pn_state"

definition kid :: "ptree \<Rightarrow> node_ptr \<Rightarrow> node_ptr \<Rightarrow> bool" where
  "kid t p c \<longleftrightarrow> lc t p = Some c \<or> rc t p = Some c"

definition live :: "ptree \<Rightarrow> state_ptr set" where
  "live t = {s. \<exists>n. st t n = Some s}"

text \<open>
  The links are those of a binary tree: parents and children point to each other, there is one node
  without a parent, some numbering grows from parents to children, and a node that holds a state is
  a leaf and the state points back to it.
\<close>

definition tree_shape :: "ptree \<Rightarrow> bool" where
  "tree_shape t \<longleftrightarrow>
     (\<exists>r. getPointer (pt_root t) = Some r \<and> r \<in> dom (nodes t) \<and> (\<forall>n\<in>dom (nodes t). up t n = None \<longleftrightarrow> n = r)) \<and>
     finite (dom (nodes t)) \<and>
     (\<forall>n p. up t n = Some p \<longrightarrow> kid t p n) \<and>
     (\<forall>p c. kid t p c \<longrightarrow> c \<in> dom (nodes t) \<and> up t c = Some p) \<and>
     (\<forall>p c. lc t p = Some c \<longrightarrow> rc t p \<noteq> Some c) \<and>
     (\<exists>depth :: node_ptr \<Rightarrow> nat. \<forall>n p. up t n = Some p \<longrightarrow> depth p < depth n) \<and>
     (\<forall>n s. st t n = Some s \<longrightarrow> ptreeNode t s = Some n \<and> lc t n = None \<and> rc t n = None)"

text \<open>Every leaf holds a state, but for the nodes in \<open>X\<close>.\<close>

definition leaves_ok :: "node_ptr set \<Rightarrow> ptree \<Rightarrow> bool" where
  "leaves_ok X t \<longleftrightarrow> (\<forall>n\<in>dom (nodes t) - X. st t n = None \<longrightarrow> (\<exists>c. kid t n c))"

definition tree_ok :: "ptree \<Rightarrow> bool" where
  "tree_ok t \<longleftrightarrow> nodes t = Map.empty \<or> tree_shape t \<and> leaves_ok {} t"

subsection \<open>Ownership\<close>

text \<open>The mask of the pointer that leads to a node, and whether it has a bit of \<open>m\<close>.\<close>

definition tag_at :: "ptree \<Rightarrow> node_ptr \<Rightarrow> u8" where
  "tag_at t n =
     (case up t n of
        None \<Rightarrow> getInt (pt_root t)
      | Some p \<Rightarrow>
          (case nodes t p of
             None \<Rightarrow> 0
           | Some pd \<Rightarrow> getInt (if getPointer (pn_left pd) = Some n then pn_left pd else pn_right pd)))"

definition owns :: "u8 \<Rightarrow> ptree \<Rightarrow> node_ptr \<Rightarrow> bool" where
  "owns m t n \<longleftrightarrow> tag_at t n AND m \<noteq> 0"

definition demand :: "u8 \<Rightarrow> state_ptr set \<Rightarrow> ptree \<Rightarrow> node_ptr \<Rightarrow> bool" where
  "demand m S t n \<longleftrightarrow> (case st t n of Some s \<Rightarrow> s \<in> S | None \<Rightarrow> \<exists>c. kid t n c \<and> owns m t c)"

text \<open>
  The masks are right for the searcher with the bit \<open>m\<close> that manages the states \<open>S\<close>: it owns a leaf
  when it manages its state and an inner node when it owns a child.
\<close>

definition owned_but :: "node_ptr set \<Rightarrow> u8 \<Rightarrow> state_ptr set \<Rightarrow> ptree \<Rightarrow> bool" where
  "owned_but X m S t \<longleftrightarrow> (\<forall>n\<in>dom (nodes t) - X. owns m t n \<longleftrightarrow> demand m S t n)"

definition owned_ok :: "u8 \<Rightarrow> state_ptr set \<Rightarrow> ptree \<Rightarrow> bool" where
  "owned_ok m S t \<longleftrightarrow> owned_but {} m S t \<and> (nodes t = Map.empty \<longrightarrow> getInt (pt_root t) AND m = 0) \<and> S \<subseteq> live t"

subsection \<open>Lemmas on shapes\<close>

lemma link_dom:
  "up t n = Some p \<Longrightarrow> n \<in> dom (nodes t)" "kid t p c \<Longrightarrow> p \<in> dom (nodes t)" "st t n = Some s \<Longrightarrow> n \<in> dom (nodes t)"
  by (auto simp: up_def kid_def lc_def rc_def st_def bind_eq_Some_conv)

lemma tree_shapeD:
  assumes "tree_shape t"
  shows "up t n = Some p \<Longrightarrow> kid t p n"
    and "kid t p c \<Longrightarrow> up t c = Some p"
    and "kid t p c \<Longrightarrow> c \<in> dom (nodes t)"
    and "lc t p = Some c \<Longrightarrow> rc t p \<noteq> Some c"
    and "st t n = Some s \<Longrightarrow> ptreeNode t s = Some n"
    and "st t n = Some s \<Longrightarrow> \<not> kid t n c"
    and "finite (dom (nodes t))"
    and "st t n = Some s \<Longrightarrow> lc t n = None"
    and "st t n = Some s \<Longrightarrow> rc t n = None"
  using assms by (auto simp: tree_shape_def kid_def)

lemma tree_shape_depth:
  assumes "tree_shape t"
  shows "\<exists>depth :: node_ptr \<Rightarrow> nat. \<forall>n p. up t n = Some p \<longrightarrow> depth p < depth n"
  using assms unfolding tree_shape_def by (elim conjE)

lemma tree_shape_root:
  assumes "tree_shape t"
  shows "\<exists>r. getPointer (pt_root t) = Some r \<and> r \<in> dom (nodes t) \<and> (\<forall>n\<in>dom (nodes t). up t n = None \<longleftrightarrow> n = r)"
  using assms unfolding tree_shape_def by (elim conjE)

lemma tag_at_left: "tree_shape t \<Longrightarrow> nodes t p = Some pd \<Longrightarrow> getPointer (pn_left pd) = Some c \<Longrightarrow>
    tag_at t c = getInt (pn_left pd)"
  using tree_shapeD(2) [of t p c] by (simp add: tag_at_def kid_def lc_def)

lemma tag_at_right:
  assumes "tree_shape t" "nodes t p = Some pd" "getPointer (pn_right pd) = Some c"
  shows "tag_at t c = getInt (pn_right pd)"
proof -
  have "getPointer (pn_left pd) \<noteq> Some c"
    using assms tree_shapeD(4) [OF assms(1), of p c] by (auto simp: lc_def rc_def)
  then show ?thesis using assms tree_shapeD(2) [OF assms(1), of p c] by (simp add: tag_at_def kid_def rc_def)
qed

lemma tag_at_root: "tree_shape t \<Longrightarrow> getPointer (pt_root t) = Some r \<Longrightarrow> tag_at t r = getInt (pt_root t)"
proof -
  assume "tree_shape t" "getPointer (pt_root t) = Some r"
  then have "up t r = None" using tree_shape_root [of t] by auto
  then show ?thesis by (simp add: tag_at_def)
qed

text \<open>Every node but the root is below the root.\<close>

lemma lone_root:
  assumes "tree_shape t" "n \<in> dom (nodes t)" "up t n = None" "\<And>c. \<not> kid t n c"
  shows "dom (nodes t) = {n}"
proof (rule ccontr)
  obtain depth :: "node_ptr \<Rightarrow> nat" where depth: "\<And>n p. up t n = Some p \<Longrightarrow> depth p < depth n"
    using tree_shape_depth [OF assms(1)] by blast
  assume "dom (nodes t) \<noteq> {n}"
  then obtain q0 where "q0 \<in> dom (nodes t) \<and> q0 \<noteq> n" using assms(2) by blast
  then obtain q where q: "q \<in> dom (nodes t) \<and> q \<noteq> n" "\<forall>x. x \<in> dom (nodes t) \<and> x \<noteq> n \<longrightarrow> depth q \<le> depth x"
    using ex_has_least_nat [of "\<lambda>x. x \<in> dom (nodes t) \<and> x \<noteq> n" q0 depth] by blast
  then obtain p where p: "up t q = Some p"
    using tree_shape_root [OF assms(1)] assms(2,3) by (metis not_None_eq)
  have k: "kid t p q" using tree_shapeD(1) [OF assms(1) p] .
  then have "p = n" using q(2) depth [OF p] link_dom(2) [OF k] by (meson leD)
  then show False using assms(4) k by simp
qed

subsection \<open>Attaching keeps the tree\<close>

text \<open>What \<open>attach\<close> changes: the leaf \<open>n\<close> of the state \<open>r\<close> gets the new leaves \<open>a\<close> of \<open>l\<close> and \<open>b\<close> of \<open>r\<close>.\<close>

definition attached :: "node_ptr \<Rightarrow> node_ptr \<Rightarrow> node_ptr \<Rightarrow> state_ptr \<Rightarrow> state_ptr \<Rightarrow> ptree \<Rightarrow> ptree \<Rightarrow> bool" where
  "attached a b n l r t t' \<longleftrightarrow>
     dom (nodes t') = insert a (insert b (dom (nodes t))) \<and>
     up t' = (up t)(a := Some n, b := Some n) \<and>
     lc t' = (lc t)(n := Some a) \<and> rc t' = (rc t)(n := Some b) \<and>
     st t' = (st t)(n := None, a := Some l, b := Some r) \<and>
     ptreeNode t' = (ptreeNode t)(l := Some a, r := Some b) \<and>
     pt_root t' = pt_root t \<and> registeredIds t' = registeredIds t \<and>
     (\<forall>q\<in>dom (nodes t). tag_at t' q = tag_at t q) \<and> tag_at t' a = 0 \<and> tag_at t' b = tag_at t n"

lemma attach_attached:
  assumes "nodes t n = Some nd" "pn_state nd = Some r" "ptreeNode t r = Some n"
    and "getPointer (pn_left nd) = None" "getPointer (pn_right nd) = None"
    and "a \<notin> dom (nodes t)" "b \<notin> dom (nodes t)" "a \<noteq> b" "l \<noteq> r"
    and nokid: "\<And>q p. up t q = Some p \<Longrightarrow> p \<in> dom (nodes t) \<and> p \<noteq> n"
  shows "\<exists>t'. attach a b (Some n) l r t = Some t' \<and> attached a b n l r t t'"
proof -
  have an: "a \<noteq> n" "b \<noteq> n" using assms(1,6,7) by auto
  have p: "p \<noteq> n" "p \<noteq> a" "p \<noteq> b" "\<exists>pd. nodes t p = Some pd" if "pn_parent nd = Some p" for p
    using assms(1,6,7) nokid [of n p] that by (auto simp: up_def)
  define t' where "t' = t\<lparr>ptreeNode := (ptreeNode t)(l := Some a, r := Some b), nodes := (nodes t)
        (n \<mapsto> nd\<lparr>pn_state := None, pn_left := to_node a 0, pn_right := to_node b (tag_at t n)\<rparr>,
         a \<mapsto> \<lparr>pn_parent = Some n, pn_left = null_ptr, pn_right = null_ptr, pn_state = Some l\<rparr>,
         b \<mapsto> \<lparr>pn_parent = Some n, pn_left = null_ptr, pn_right = null_ptr, pn_state = Some r\<rparr>)\<rparr>"
  have "attach a b (Some n) l r t = Some t'"
    using assms(1-9) an p unfolding attach_def t'_def
    by (cases "pn_parent nd")
       (auto simp: set_node_def new_ptree_node_def child_slot_def Let_def tag_at_def up_def fun_upd_twist split: if_splits)
  moreover have "tag_at t' q = tag_at t q" if q: "q \<in> dom (nodes t)" for q
  proof -
    have "q \<noteq> a" "q \<noteq> b" using q assms(6,7) by auto
    moreover have "up t' q = up t q" using calculation assms(1) an by (simp add: t'_def up_def)
    moreover have "nodes t' p = nodes t p" if "up t q = Some p" for p
      using nokid [OF that] assms(6,7) by (auto simp: t'_def)
    ultimately show ?thesis
      by (cases "up t q") (auto simp: tag_at_def t'_def)
  qed
  moreover have "tag_at t' a = 0" "tag_at t' b = tag_at t n"
    using an assms(8) by (simp_all add: tag_at_def up_def t'_def to_node_def)
  moreover have "up t' = (up t)(a := Some n, b := Some n)" "lc t' = (lc t)(n := Some a)" "rc t' = (rc t)(n := Some b)"
      "st t' = (st t)(n := None, a := Some l, b := Some r)"
    using assms(1-9) an by (auto simp: t'_def up_def lc_def rc_def st_def to_node_def null_ptr_def fun_eq_iff)
  moreover have "dom (nodes t') = insert a (insert b (dom (nodes t)))" "pt_root t' = pt_root t"
      "registeredIds t' = registeredIds t" "ptreeNode t' = (ptreeNode t)(l := Some a, r := Some b)"
    using assms(1) by (auto simp: t'_def)
  ultimately show ?thesis unfolding attached_def by blast
qed

lemma attached_kid:
  assumes "attached a b n l r t t'" "\<And>c. \<not> kid t n c"
  shows "kid t' p c \<longleftrightarrow> kid t p c \<or> p = n \<and> (c = a \<or> c = b)"
  using assms by (auto simp: kid_def attached_def)

lemma fresh_links:
  assumes "a \<notin> dom (nodes t)"
  shows "up t a = None" "lc t a = None" "rc t a = None" "st t a = None"
  using assms by (auto simp: up_def lc_def rc_def st_def domIff)

lemma attached_depth:
  assumes "tree_shape t" "st t n = Some r" "a \<notin> dom (nodes t)" "b \<notin> dom (nodes t)" and t': "attached a b n l r t t'"
  shows "\<exists>depth :: node_ptr \<Rightarrow> nat. \<forall>q p. up t' q = Some p \<longrightarrow> depth p < depth q"
proof -
  obtain depth :: "node_ptr \<Rightarrow> nat" where d: "\<And>q p. up t q = Some p \<Longrightarrow> depth p < depth q"
    using tree_shape_depth [OF assms(1)] by blast
  let ?d = "depth(a := Suc (depth n), b := Suc (depth n))"
  have "?d p < ?d q" if q: "up t' q = Some p" for q p
  proof (cases "q = a \<or> q = b")
    case True
    then have "p = n" using q t' by (auto simp: attached_def split: if_splits)
    moreover have "n \<noteq> a" "n \<noteq> b" using assms(3,4) link_dom(3) [OF assms(2)] by auto
    ultimately show ?thesis using True by auto
  next
    case False
    then have p: "up t q = Some p" using q t' by (auto simp: attached_def split: if_splits)
    then have "p \<in> dom (nodes t)" using tree_shapeD(1) [OF assms(1)] link_dom(2) by blast
    then show ?thesis using False d [OF p] assms(3,4) by auto
  qed
  then show ?thesis by blast
qed

lemma attached_states:
  assumes "tree_shape t" "st t n = Some r" "l \<notin> live t" "a \<notin> dom (nodes t)" "b \<notin> dom (nodes t)" "a \<noteq> b"
    and t': "attached a b n l r t t'" and q: "st t' q = Some s"
  shows "ptreeNode t' s = Some q \<and> lc t' q = None \<and> rc t' q = None"
proof (cases "q = a \<or> q = b")
  case True
  have "l \<noteq> r" "n \<noteq> a" "n \<noteq> b" using assms(2-5) link_dom(3) [OF assms(2)] by (auto simp: live_def)
  then show ?thesis
    using True q t' assms(6) fresh_links [OF assms(4)] fresh_links [OF assms(5)] by (auto simp: attached_def)
next
  case False
  then have q': "q \<noteq> n" "st t q = Some s" using q t' by (auto simp: attached_def split: if_splits)
  note D = tree_shapeD [OF assms(1)]
  have "s \<noteq> r" "s \<noteq> l" using q' D(5) [OF assms(2)] D(5) [of q] assms(3) by (auto simp: live_def)
  then show ?thesis using D(5,8,9) [OF q'(2)] q'(1) t' by (simp add: attached_def)
qed

lemma attached_shape:
  assumes shape: "tree_shape t" and n: "st t n = Some r" and l: "l \<notin> live t"
    and ab: "a \<notin> dom (nodes t)" "b \<notin> dom (nodes t)" "a \<noteq> b" and t': "attached a b n l r t t'"
  shows "tree_shape t'"
proof -
  note D = tree_shapeD [OF shape]
  note t'' = t' [unfolded attached_def]
  note kid' = attached_kid [OF t' D(6) [OF n]]
  have n': "n \<in> dom (nodes t)" using link_dom(3) [OF n] .
  have "\<exists>x. getPointer (pt_root t') = Some x \<and> x \<in> dom (nodes t') \<and> (\<forall>q\<in>dom (nodes t'). up t' q = None \<longleftrightarrow> q = x)"
    using tree_shape_root [OF shape] ab t'' by (metis fun_upd_apply insert_iff option.distinct(1))
  moreover have "\<forall>q p. up t' q = Some p \<longrightarrow> kid t' p q"
    using D(1) t'' by (auto simp: kid')
  moreover have "c \<in> dom (nodes t') \<and> up t' c = Some p" if "kid t' p c" for p c
  proof (cases "kid t p c")
    case True
    then show ?thesis using D(2,3) [OF True] ab(1,2) t'' by auto
  next
    case False
    then show ?thesis using that t'' by (auto simp: kid')
  qed
  moreover have "\<forall>p c. lc t' p = Some c \<longrightarrow> rc t' p \<noteq> Some c"
    using D(4) ab(3) t'' by auto
  moreover have "finite (dom (nodes t'))" using D(7) t'' by simp
  ultimately show ?thesis
    unfolding tree_shape_def using attached_depth [OF shape n ab(1,2) t'] attached_states [OF shape n l ab t']
    by (intro conjI; blast)
qed

lemma attached_owned:
  assumes shape: "tree_shape t" and n: "st t n = Some r" and l: "l \<notin> live t"
    and ab: "a \<notin> dom (nodes t)" "b \<notin> dom (nodes t)" "a \<noteq> b" and t': "attached a b n l r t t'"
    and S: "S \<subseteq> live t" and m: "owned_but {} m S t"
  shows "owned_but {} m S t'"
proof -
  note D = tree_shapeD [OF shape]
  note t'' = t' [unfolded attached_def]
  note kid' = attached_kid [OF t' D(6) [OF n]]
  have n': "n \<in> dom (nodes t)" "n \<noteq> a" "n \<noteq> b" using link_dom(3) [OF n] ab by auto
  have st': "st t' a = Some l" "st t' b = Some r" "st t' n = None" using t'' ab(3) n' by auto
  have old: "owns m t' x = owns m t x" if "x \<in> dom (nodes t)" for x using that t'' by (simp add: owns_def)
  have new: "\<not> owns m t' a" "owns m t' b = owns m t n" using t'' by (auto simp: owns_def)
  have was: "owns m t x = demand m S t x" if "x \<in> dom (nodes t)" for x using m that by (simp add: owned_but_def)
  have "owns m t' q \<longleftrightarrow> demand m S t' q" if q: "q \<in> dom (nodes t')" for q
  proof -
    consider "q = a" | "q = b" | "q = n" | "q \<in> dom (nodes t)" "q \<noteq> n" "q \<noteq> a" "q \<noteq> b" using q t'' by auto
    then show ?thesis
    proof cases
      case 1
      then show ?thesis using new(1) S l st' by (auto simp: demand_def)
    next
      case 2
      then show ?thesis using new(2) was [OF n'(1)] n st' by (simp add: demand_def)
    next
      case 3
      then show ?thesis using old [OF n'(1)] new st' D(6) [OF n] by (auto simp: demand_def kid')
    next
      case 4
      then have "demand m S t' q = demand m S t q"
        using D(3) old t'' by (auto simp: demand_def kid' split: option.splits)
      then show ?thesis using old [OF 4(1)] was [OF 4(1)] by simp
    qed
  qed
  then show ?thesis by (simp add: owned_but_def)
qed

lemma attach_ok:
  assumes ok: "tree_ok t" and n: "st t n = Some r" and l: "l \<notin> live t"
    and ab: "a \<notin> dom (nodes t)" "b \<notin> dom (nodes t)" "a \<noteq> b"
  obtains t' where "attach a b (Some n) l r t = Some t'" "tree_ok t'" "live t' = insert l (live t)"
    "\<And>m S. owned_ok m S t \<Longrightarrow> owned_ok m S t'" "dom (nodes t') = insert a (insert b (dom (nodes t)))"
proof -
  have shape: "tree_shape t" and leaves: "leaves_ok {} t"
    using ok link_dom(3) [OF n] by (auto simp: tree_ok_def)
  note D = tree_shapeD [OF shape]
  from n obtain nd where nd: "nodes t n = Some nd" "pn_state nd = Some r" by (auto simp: st_def bind_eq_Some_conv)
  have none: "getPointer (pn_left nd) = None" "getPointer (pn_right nd) = None"
    using D(8,9) [OF n] nd(1) by (auto simp: lc_def rc_def)
  have lr: "l \<noteq> r" using n l by (auto simp: live_def)
  have up: "p \<in> dom (nodes t) \<and> p \<noteq> n" if "up t q = Some p" for q p
    using D(1) [OF that] link_dom(2) D(6) [OF n] by blast
  obtain t' where t': "attach a b (Some n) l r t = Some t'" "attached a b n l r t t'"
    using attach_attached [OF nd D(5) [OF n] none ab lr] up by blast
  note t'' = t'(2) [unfolded attached_def]
  have "leaves_ok {} t'"
    using leaves t'' by (auto simp: leaves_ok_def attached_kid [OF t'(2) D(6) [OF n]])
  then have ok': "tree_ok t'" using attached_shape [OF shape n l ab t'(2)] by (simp add: tree_ok_def)
  have "st t' x = Some s \<longleftrightarrow> st t x = Some s \<and> x \<noteq> n \<or> x = a \<and> s = l \<or> x = b \<and> s = r" for x s
    using t'' fresh_links(4) [OF ab(1)] fresh_links(4) [OF ab(2)] ab(3) by auto
  then have "s \<in> live t' \<longleftrightarrow> (\<exists>x. st t x = Some s \<and> x \<noteq> n) \<or> s = l \<or> s = r" for s by (auto simp: live_def)
  then have live': "live t' = insert l (live t)" using n by (auto simp: live_def)
  have "owned_ok m S t'" if "owned_ok m S t" for m S
    using attached_owned [OF shape n l ab t'(2), of S m] that live' t'' by (auto simp: owned_ok_def)
  then show thesis using that [OF t'(1) ok' live'] t'' by simp
qed

subsection \<open>Removing keeps the tree\<close>

text \<open>A childless node taken out of its parent and deleted.\<close>

definition detached :: "node_ptr \<Rightarrow> ptree \<Rightarrow> ptree \<Rightarrow> bool" where
  "detached n t t' \<longleftrightarrow>
     dom (nodes t') = dom (nodes t) - {n} \<and> up t' = (up t)(n := None) \<and>
     lc t' = (\<lambda>p. if p = n \<or> lc t p = Some n then None else lc t p) \<and>
     rc t' = (\<lambda>p. if p = n \<or> rc t p = Some n then None else rc t p) \<and>
     st t' = (st t)(n := None) \<and> ptreeNode t' = ptreeNode t \<and> pt_root t' = pt_root t \<and>
     registeredIds t' = registeredIds t \<and> (\<forall>q\<in>dom (nodes t) - {n}. tag_at t' q = tag_at t q)"

text \<open>The node of the parent afterwards.\<close>

definition with_child :: "node_ptr \<Rightarrow> PTreeNodePtr \<Rightarrow> PTreeNode \<Rightarrow> PTreeNode" where
  "with_child n q pd = (if getPointer (pn_left pd) = Some n then pd\<lparr>pn_left := q\<rparr> else pd\<lparr>pn_right := q\<rparr>)"

lemma replace_child_eq:
  assumes "nodes t p = Some pd" "kid t p n"
  shows "replace_child p n q t = Some (t\<lparr>nodes := (nodes t)(p \<mapsto> with_child n q pd)\<rparr>)"
  using assms by (auto simp: replace_child_def with_child_def set_node_def kid_def lc_def rc_def)

lemma unlink_detached:
  assumes shape: "tree_shape t" and n: "nodes t n = Some nd" and kids: "\<And>c. \<not> kid t n c"
  shows "\<exists>t1. unlink n (pn_parent nd) t = Some t1 \<and> detached n t (delete_node n t1)"
proof -
  note D = tree_shapeD [OF shape]
  have upn: "up t n = pn_parent nd" using n by (simp add: up_def)
  have below: "up t q \<noteq> Some n" for q using kids D(1) by blast
  have far: "lc t q \<noteq> Some n" "rc t q \<noteq> Some n" if "up t n \<noteq> Some q" for q
    using D(2) [of q n] that by (auto simp: kid_def)
  show ?thesis
  proof (cases "pn_parent nd")
    case None
    have "tag_at (delete_node n t) q = tag_at t q" if "q \<in> dom (nodes t) - {n}" for q
      using below [of q] that by (auto simp: tag_at_def up_def delete_node_def split: option.splits)
    then have "detached n t (delete_node n t)"
      using far None upn by (auto simp: detached_def fun_eq_iff up_def lc_def rc_def st_def delete_node_def)
    then show ?thesis using None by (simp add: unlink_def)
  next
    case (Some p)
    have k: "kid t p n" using D(1) Some upn by simp
    then obtain pd where pd: "nodes t p = Some pd" using link_dom(2) by blast
    have pn: "p \<noteq> n" using k kids by blast
    have near: "kid t p q" if "up t q = Some p" for q using D(1) [OF that] .
    let ?t = "delete_node n (t\<lparr>nodes := (nodes t)(p \<mapsto> with_child n null_ptr pd)\<rparr>)"
    have "tag_at ?t q = tag_at t q" if "q \<in> dom (nodes t) - {n}" for q
      using that k pd pn below [of q] near [of q]
      by (auto simp: tag_at_def up_def kid_def lc_def rc_def delete_node_def with_child_def null_ptr_def split: option.splits)
    then have "detached n t ?t"
      using far Some upn pn pd k D(4) [of p n]
      by (auto simp: detached_def fun_eq_iff up_def kid_def lc_def rc_def st_def delete_node_def with_child_def null_ptr_def)
    then show ?thesis using replace_child_eq [OF pd k] Some by (simp add: unlink_def)
  qed
qed

lemma detached_kid: "detached n t t' \<Longrightarrow> (\<And>c. \<not> kid t n c) \<Longrightarrow> kid t' p c \<longleftrightarrow> kid t p c \<and> c \<noteq> n"
  by (auto simp: detached_def kid_def)

lemma detached_live:
  assumes "tree_shape t" "detached n t t'"
  shows "live t' = live t - set_option (st t n)"
proof -
  have "s \<in> live t' \<longleftrightarrow> s \<in> live t \<and> st t n \<noteq> Some s" for s
    using assms(2) tree_shapeD(5) [OF assms(1)] unfolding live_def detached_def
    by (smt (verit) fun_upd_apply mem_Collect_eq option.distinct(1) option.inject)
  then show ?thesis by auto
qed

lemma detached_shape:
  assumes shape: "tree_shape t" and kids: "\<And>c. \<not> kid t n c" and p: "up t n = Some p" and t': "detached n t t'"
  shows "tree_shape t'"
proof -
  note D = tree_shapeD [OF shape]
  note t'' = t' [unfolded detached_def]
  note kid' = detached_kid [OF t' kids]
  obtain x where x: "getPointer (pt_root t) = Some x" "x \<in> dom (nodes t)" "\<forall>n\<in>dom (nodes t). up t n = None \<longleftrightarrow> n = x"
    using tree_shape_root [OF shape] by blast
  then have "x \<noteq> n" using p by force
  then have "\<exists>x. getPointer (pt_root t') = Some x \<and> x \<in> dom (nodes t') \<and> (\<forall>n\<in>dom (nodes t'). up t' n = None \<longleftrightarrow> n = x)"
    using x t'' p by (intro exI [of _ x]) auto
  moreover have "\<forall>q p. up t' q = Some p \<longrightarrow> kid t' p q" using D(1) t'' by (auto simp: kid')
  moreover have "\<forall>p c. kid t' p c \<longrightarrow> c \<in> dom (nodes t') \<and> up t' c = Some p"
    using t'' by (auto simp: kid' D(2) dest: D(3))
  moreover have "\<forall>p c. lc t' p = Some c \<longrightarrow> rc t' p \<noteq> Some c" using D(4) t'' by auto
  moreover have "\<exists>depth :: node_ptr \<Rightarrow> nat. \<forall>q p. up t' q = Some p \<longrightarrow> depth p < depth q"
    using tree_shape_depth [OF shape] t'' by auto
  moreover have "\<forall>q s. st t' q = Some s \<longrightarrow> ptreeNode t' s = Some q \<and> lc t' q = None \<and> rc t' q = None"
    using D(5,8,9) t'' by auto
  moreover have "finite (dom (nodes t'))" using D(7) t'' by simp
  ultimately show ?thesis unfolding tree_shape_def by (intro conjI; blast)
qed

lemma detached_owned:
  assumes shape: "tree_shape t" and kids: "\<And>c. \<not> kid t n c" and t': "detached n t t'"
    and m: "owned_but {n} m S t" "\<not> owns m t n"
  shows "owned_but {} m S t'"
proof -
  note t'' = t' [unfolded detached_def]
  note kid' = detached_kid [OF t' kids]
  have old: "owns m t' x = owns m t x" if "x \<in> dom (nodes t) - {n}" for x using that t'' by (simp add: owns_def)
  have "demand m S t' q = demand m S t q" if q: "q \<in> dom (nodes t) - {n}" for q
  proof -
    have "kid t' q c \<and> owns m t' c \<longleftrightarrow> kid t q c \<and> owns m t c" for c
      using old [of c] m(2) tree_shapeD(3) [OF shape, of q c] by (auto simp: kid')
    moreover have "st t' q = st t q" using q t'' by simp
    ultimately show ?thesis unfolding demand_def by (auto split: option.split)
  qed
  then show ?thesis using m(1) old t'' by (auto simp: owned_but_def)
qed

text \<open>
  The loop of \<open>remove\<close> from a childless node \<open>n\<close> that no searcher with right masks owns: it returns a
  tree without the state of \<open>n\<close>, and the node it stops at has one child.
\<close>

definition removed_ok :: "node_ptr \<Rightarrow> ptree \<Rightarrow> node_ptr option \<Rightarrow> ptree \<Rightarrow> bool" where
  "removed_ok n t stop t' \<longleftrightarrow>
     tree_ok t' \<and> live t' = live t - set_option (st t n) \<and> registeredIds t' = registeredIds t \<and>
     (\<forall>m S. owned_but {n} m S t \<longrightarrow> \<not> owns m t n \<longrightarrow>
        owned_but {} m S t' \<and> (nodes t' = Map.empty \<longrightarrow> getInt (pt_root t') AND m = 0)) \<and>
     (\<forall>q. stop = Some q \<longrightarrow> q \<in> dom (nodes t') \<and> st t' q = None \<and> (\<exists>!c. kid t' q c))"

lemma no_kid: "(\<forall>c. \<not> kid t p c) \<longleftrightarrow> lc t p = None \<and> rc t p = None"
  unfolding kid_def by (metis not_None_eq)

lemma detached_leaves:
  assumes shape: "tree_shape t" and leaves: "leaves_ok {n} t" and kids: "\<And>c. \<not> kid t n c" and p: "up t n = Some p"
    and t': "detached n t t'"
  shows "leaves_ok {p} t'"
proof -
  have "\<exists>c. kid t' q c" if "q \<in> dom (nodes t') - {p}" "st t' q = None" for q
  proof -
    have "q \<in> dom (nodes t) - {n}" "st t q = None" using that t' by (auto simp: detached_def)
    then obtain d where d: "kid t q d" using leaves by (auto simp: leaves_ok_def)
    then have "d \<noteq> n" using tree_shapeD(2) [OF shape d] p that(1) by auto
    then show ?thesis using d detached_kid [OF t' kids] by blast
  qed
  then show ?thesis by (simp add: leaves_ok_def)
qed

lemma detached_last:
  assumes shape: "tree_shape t" and kids: "\<And>c. \<not> kid t n c" and n: "n \<in> dom (nodes t)" "up t n = None"
    and t': "detached n t t'"
  shows "removed_ok n t None t'"
proof -
  have "dom (nodes t') = {}" using lone_root [OF shape n kids] t' by (simp add: detached_def)
  then have e: "nodes t' = Map.empty" by simp
  moreover have "getInt (pt_root t') = tag_at t n" using n t' by (simp add: tag_at_def detached_def)
  ultimately show ?thesis
    using detached_live [OF shape t'] t' by (auto simp: removed_ok_def tree_ok_def owned_but_def owns_def detached_def)
qed

lemma detached_stop:
  assumes shape: "tree_shape t" and leaves: "leaves_ok {n} t" and kids: "\<And>c. \<not> kid t n c" and p: "up t n = Some p"
    and t': "detached n t t'" and c: "kid t' p c"
  shows "removed_ok n t (Some p) t'"
proof -
  note D = tree_shapeD [OF shape]
  note kid' = detached_kid [OF t' kids]
  have pk: "kid t p n" "p \<in> dom (nodes t)" "p \<noteq> n" "st t p = None"
    using D(1) [OF p] link_dom(2) kids D(6) by (blast, blast, blast, metis not_None_eq)
  have "leaves_ok {} t'" using detached_leaves [OF shape leaves kids p t'] c by (auto simp: leaves_ok_def)
  then have "tree_ok t'" using detached_shape [OF shape kids p t'] by (simp add: tree_ok_def)
  moreover have "p \<in> dom (nodes t')" "st t' p = None" using pk t' by (auto simp: detached_def)
  moreover have "\<exists>!c. kid t' p c" using c pk(1) D(4) [of p] unfolding kid' unfolding kid_def by auto
  ultimately show ?thesis
    using detached_live [OF shape t'] detached_owned [OF shape kids t'] t' by (auto simp: removed_ok_def detached_def)
qed

lemma removed_ok_step:
  assumes shape: "tree_shape t" and kids: "\<And>c. \<not> kid t n c" and t1: "detached n t t1"
    and p: "p \<in> dom (nodes t) - {n}" "st t p = None" "\<And>c. \<not> kid t1 p c" and rest: "removed_ok p t1 stop t'"
  shows "removed_ok n t stop t'"
proof -
  have p1: "p \<in> dom (nodes t1)" "st t1 p = None" using p(1,2) t1 by (auto simp: detached_def)
  have "owned_but {} m S t' \<and> (nodes t' = Map.empty \<longrightarrow> getInt (pt_root t') AND m = 0)"
    if "owned_but {n} m S t" "\<not> owns m t n" for m S
  proof -
    have "owned_but {} m S t1" using detached_owned [OF shape kids t1 that] .
    then have "owned_but {p} m S t1" "\<not> owns m t1 p" using p1 p(3) by (auto simp: owned_but_def demand_def)
    then show ?thesis using rest by (simp add: removed_ok_def)
  qed
  moreover have "live t' = live t - set_option (st t n)" "registeredIds t' = registeredIds t"
    using rest p1(2) detached_live [OF shape t1] t1 by (auto simp: removed_ok_def detached_def)
  ultimately show ?thesis using rest by (simp add: removed_ok_def)
qed

lemma remove_up_ok:
  assumes "tree_shape t" "leaves_ok {n} t" "n \<in> dom (nodes t)" "\<And>c. \<not> kid t n c"
  shows "\<exists>stop t'. remove_up n t = Some (stop, t') \<and> removed_ok n t stop t'"
proof -
  obtain depth :: "node_ptr \<Rightarrow> nat" where d: "\<And>q p. up t q = Some p \<Longrightarrow> depth p < depth q"
    using tree_shape_depth [OF assms(1)] by blast
  show ?thesis using assms d
  proof (induction "depth n" arbitrary: n t rule: less_induct)
    case (less n t)
    note shape = less.prems(1) and kids = less.prems(4)
    from less.prems(3) obtain nd where nd: "nodes t n = Some nd" by blast
    obtain t1 where t1: "unlink n (pn_parent nd) t = Some t1" "detached n t (delete_node n t1)"
      using unlink_detached [OF shape nd kids] by blast
    let ?t = "delete_node n t1"
    note t'' = t1(2) [unfolded detached_def]
    have upn: "up t n = pn_parent nd" using nd by (simp add: up_def)
    show ?case
    proof (cases "pn_parent nd")
      case None
      then show ?thesis
        using detached_last [OF shape kids less.prems(3) _ t1(2)] upn nd t1(1) by (simp add: remove_up.simps [of n t])
    next
      case (Some p)
      have p: "up t n = Some p" using Some upn by simp
      have pk: "kid t p n" using tree_shapeD(1) [OF shape p] .
      then have pd: "p \<in> dom (nodes t)" "p \<noteq> n" using link_dom(2) kids by blast+
      have stp: "st t p = None" using pk tree_shapeD(6) [OF shape] by (metis not_None_eq)
      from pd obtain pd' where pd': "nodes ?t p = Some pd'" using t'' by blast
      show ?thesis
      proof (cases "\<exists>c. kid ?t p c")
        case True
        then have "\<not> (getPointer (pn_left pd') = None \<and> getPointer (pn_right pd') = None)"
          using pd' by (auto simp: kid_def lc_def rc_def)
        then show ?thesis
          using True detached_stop [OF shape less.prems(2) kids p t1(2)] nd t1(1) Some pd'
          by (auto simp: remove_up.simps [of n t])
      next
        case False
        then have none: "getPointer (pn_left pd') = None" "getPointer (pn_right pd') = None"
          using pd' no_kid [of ?t p] by (auto simp: lc_def rc_def)
        have lt: "depth p < depth n" using less.prems(5) [OF p] .
        have "depth y < depth x" if "up ?t x = Some y" for x y
          using less.prems(5) [of x y] that t'' by (simp split: if_splits)
        then obtain stop t' where t': "remove_up p ?t = Some (stop, t')" "removed_ok p ?t stop t'"
          using less.hyps [OF lt detached_shape [OF shape kids p t1(2)] detached_leaves [OF shape less.prems(2) kids p t1(2)]]
            False pd' by blast
        have "removed_ok n t stop t'"
          using removed_ok_step [OF shape kids t1(2) _ _ _ t'(2)] False stp pd by blast
        then show ?thesis using t'(1) none pd' nd t1(1) Some by (simp add: remove_up.simps [of n t])
      qed
    qed
  qed
qed

subsection \<open>Compressing keeps the tree\<close>

definition compressed :: "node_ptr \<Rightarrow> node_ptr \<Rightarrow> ptree \<Rightarrow> ptree \<Rightarrow> bool" where
  "compressed n c t t' \<longleftrightarrow>
     dom (nodes t') = dom (nodes t) - {n} \<and> up t' = (up t)(n := None, c := up t n) \<and>
     lc t' = (\<lambda>p. if p = n then None else if lc t p = Some n then Some c else lc t p) \<and>
     rc t' = (\<lambda>p. if p = n then None else if rc t p = Some n then Some c else rc t p) \<and>
     st t' = st t \<and> ptreeNode t' = ptreeNode t \<and> registeredIds t' = registeredIds t \<and>
     getPointer (pt_root t') = (if up t n = None then Some c else getPointer (pt_root t)) \<and>
     (\<forall>q\<in>dom (nodes t) - {n}. tag_at t' q = tag_at t q)"

lemma compress_child:
  assumes shape: "tree_shape t" and nd: "nodes t n = Some nd" and c: "kid t n c" "\<And>d. kid t n d \<Longrightarrow> d = c"
    and child: "child = (if getPointer (pn_left nd) \<noteq> None then pn_left nd else pn_right nd)"
  shows "getPointer child = Some c \<and> getInt child = tag_at t c"
proof (cases "getPointer (pn_left nd)")
  case None
  then show ?thesis using c(1) nd tag_at_right [OF shape nd] by (simp add: child kid_def lc_def rc_def)
next
  case (Some x)
  then have "kid t n x" using nd by (simp add: kid_def lc_def)
  then show ?thesis using Some c(2) [of x] tag_at_left [OF shape nd Some] by (simp add: child)
qed

lemma compress_root:
  assumes shape: "tree_shape t" and n: "nodes t n = Some nd" "st t n = None" "pn_parent nd = None"
    and c: "nodes t c = Some cd" "kid t n c" "\<And>d. kid t n d \<Longrightarrow> d = c"
    and child: "getPointer child = Some c \<and> getInt child = tag_at t c"
  shows "compressed n c t (delete_node n ((set_node c (\<lambda>cd. cd\<lparr>pn_parent := None\<rparr>) t)\<lparr>pt_root := child\<rparr>))"
    (is "compressed n c t ?t")
proof -
  note D = tree_shapeD [OF shape]
  have upn: "up t n = None" and upc: "up t c = Some n" using n(1,3) D(2) [OF c(2)] by (auto simp: up_def)
  then have cn: "c \<noteq> n" by auto
  have far: "lc t q \<noteq> Some n" "rc t q \<noteq> Some n" for q using D(2) [of q n] upn by (auto simp: kid_def)
  have "tag_at ?t q = tag_at t q" if q: "q \<in> dom (nodes t) - {n}" for q
  proof (cases "q = c")
    case True
    have "tag_at ?t c = getInt child" using c(1) cn by (simp add: tag_at_def up_def delete_node_def set_node_def)
    then show ?thesis using True child by simp
  next
    case False
    have "up t q \<noteq> Some n" using D(1) c(3) False by blast
    moreover obtain p' where "up t q = Some p'"
      using tree_shape_root [OF shape] q upn n(1) by (metis DiffE domI not_None_eq singletonI)
    ultimately show ?thesis using False q
      by (auto simp: tag_at_def up_def delete_node_def set_node_def split: option.splits)
  qed
  then show ?thesis
    using far n c(1) cn child upn
    by (auto simp: compressed_def fun_eq_iff up_def lc_def rc_def st_def delete_node_def set_node_def)
qed

lemma compress_inner:
  assumes shape: "tree_shape t" and n: "nodes t n = Some nd" "st t n = None" "pn_parent nd = Some p"
    and c: "nodes t c = Some cd" "kid t n c" "\<And>d. kid t n d \<Longrightarrow> d = c"
    and child: "getPointer child = Some c \<and> getInt child = tag_at t c" and pd: "nodes t p = Some pd"
  shows "compressed n c t (delete_node n ((set_node c (\<lambda>cd. cd\<lparr>pn_parent := Some p\<rparr>) t)
           \<lparr>nodes := (nodes t)(c \<mapsto> cd\<lparr>pn_parent := Some p\<rparr>, p \<mapsto> with_child n child pd)\<rparr>))"
    (is "compressed n c t ?t")
proof -
  note D = tree_shapeD [OF shape]
  have upn: "up t n = Some p" and upc: "up t c = Some n" using n(1,3) D(2) [OF c(2)] by (auto simp: up_def)
  obtain depth :: "node_ptr \<Rightarrow> nat" where d: "\<And>q p. up t q = Some p \<Longrightarrow> depth p < depth q"
    using tree_shape_depth [OF shape] by blast
  have ne: "c \<noteq> n" "p \<noteq> n" "p \<noteq> c" using d [OF upn] d [OF upc] by auto
  have k: "kid t p n" using D(1) [OF upn] .
  have far: "lc t q \<noteq> Some n" "rc t q \<noteq> Some n" if "q \<noteq> p" for q
    using D(2) [of q n] that upn by (auto simp: kid_def)
  have pc: "getPointer (pn_left pd) \<noteq> Some c" using D(2) [of p c] upc ne pd by (auto simp: kid_def lc_def)
  have c': "tag_at ?t c = getInt child"
    using ne child pc pd by (auto simp: tag_at_def up_def delete_node_def set_node_def with_child_def)
  have "tag_at ?t q = tag_at t q" if q: "q \<in> dom (nodes t) - {n}" "q \<noteq> c" for q
  proof -
    have "up t q \<noteq> Some n" "up t q = Some p \<Longrightarrow> kid t p q" using D(1) c(3) q(2) by blast+
    moreover have "up ?t q = up t q" using q pd ne by (auto simp: up_def delete_node_def set_node_def with_child_def)
    moreover have "getInt (if getPointer (pn_left (with_child n child pd)) = Some q then pn_left (with_child n child pd)
        else pn_right (with_child n child pd)) = getInt (if getPointer (pn_left pd) = Some q then pn_left pd else pn_right pd)"
      if "kid t p q"
      using that q k pd child by (auto simp: with_child_def kid_def lc_def rc_def)
    ultimately show ?thesis
      using q pd ne c(1) by (auto simp: tag_at_def delete_node_def set_node_def split: option.splits)
  qed
  then have "\<forall>q\<in>dom (nodes t) - {n}. tag_at ?t q = tag_at t q" using c' child by auto
  moreover have "dom (nodes ?t) = dom (nodes t) - {n}" "st ?t = st t" "up ?t = (up t)(n := None, c := up t n)"
    using n c(1) ne pd by (auto simp: delete_node_def set_node_def with_child_def st_def up_def fun_eq_iff)
  moreover have "lc ?t = (\<lambda>p. if p = n then None else if lc t p = Some n then Some c else lc t p)"
      "rc ?t = (\<lambda>p. if p = n then None else if rc t p = Some n then Some c else rc t p)"
    using far c(1) ne pd k D(4) [of p n] child
    by (auto simp: delete_node_def set_node_def with_child_def kid_def lc_def rc_def fun_eq_iff)
  ultimately show ?thesis using upn by (simp add: compressed_def delete_node_def set_node_def)
qed

lemma compress_node_compressed:
  assumes shape: "tree_shape t" and n: "n \<in> dom (nodes t)" "st t n = None" and c: "kid t n c" "\<And>d. kid t n d \<Longrightarrow> d = c"
  shows "\<exists>t'. compress_node n t = Some t' \<and> compressed n c t t'"
proof -
  note D = tree_shapeD [OF shape]
  from n obtain nd where nd: "nodes t n = Some nd" by blast
  from D(3) [OF c(1)] obtain cd where cd: "nodes t c = Some cd" by blast
  note child = compress_child [OF shape nd c refl]
  show ?thesis
  proof (cases "pn_parent nd")
    case None
    then show ?thesis using compress_root [OF shape nd n(2) None cd c child] nd cd child
      by (simp add: compress_node_def Let_def)
  next
    case (Some p)
    have k: "kid t p n" using D(1) Some nd by (simp add: up_def)
    then obtain pd where pd: "nodes t p = Some pd" using link_dom(2) by blast
    have "p \<noteq> c" using D(2) [OF k] D(2) [OF c(1)] tree_shape_depth [OF shape] by (metis less_asym)
    let ?t1 = "set_node c (\<lambda>cd. cd\<lparr>pn_parent := pn_parent nd\<rparr>) t"
    have "nodes ?t1 p = Some pd" "kid ?t1 p n"
      using pd k \<open>p \<noteq> c\<close> cd by (auto simp: set_node_def kid_def lc_def rc_def)
    note replace_child_eq [OF this]
    then show ?thesis using compress_inner [OF shape nd n(2) Some cd c child pd] nd cd child Some
      by (simp add: compress_node_def Let_def set_node_def)
  qed
qed

lemma compressed_kid:
  assumes "compressed n c t t'" "tree_shape t"
  shows "kid t' p x \<longleftrightarrow> p \<noteq> n \<and> (kid t p x \<and> x \<noteq> n \<or> kid t p n \<and> x = c)"
  using assms(1) tree_shapeD(4) [OF assms(2), of p n]
  by (cases "p = n"; cases "lc t p = Some n"; cases "rc t p = Some n") (auto simp: compressed_def kid_def)

lemma compressed_root:
  assumes shape: "tree_shape t" and c: "kid t n c" and t': "compressed n c t t'"
  shows "\<exists>x. getPointer (pt_root t') = Some x \<and> x \<in> dom (nodes t') \<and> (\<forall>n\<in>dom (nodes t'). up t' n = None \<longleftrightarrow> n = x)"
proof -
  note t'' = t' [unfolded compressed_def]
  obtain x where x: "getPointer (pt_root t) = Some x" "x \<in> dom (nodes t)" "\<forall>n\<in>dom (nodes t). up t n = None \<longleftrightarrow> n = x"
    using tree_shape_root [OF shape] by blast
  have nd: "n \<in> dom (nodes t)" "c \<in> dom (nodes t)" "up t c = Some n"
    using link_dom(2) [OF c] tree_shapeD(3,2) [OF shape c] .
  have cn: "c \<noteq> n" using nd(3) tree_shape_depth [OF shape] by auto
  show ?thesis
  proof (cases "up t n")
    case None
    then have "x = n" using x(3) nd(1) by metis
    then show ?thesis using None x(3) t'' nd cn by (intro exI [of _ c]) auto
  next
    case (Some p)
    then have "x \<noteq> n" "x \<noteq> c" using x(2,3) nd by force+
    then show ?thesis using Some x t'' by (intro exI [of _ x]) auto
  qed
qed

lemma compressed_shape:
  assumes shape: "tree_shape t" and n: "st t n = None" and c: "kid t n c" "\<And>d. kid t n d \<Longrightarrow> d = c"
    and t': "compressed n c t t'"
  shows "tree_shape t'"
proof -
  note D = tree_shapeD [OF shape]
  note t'' = t' [unfolded compressed_def]
  note kid' = compressed_kid [OF t' shape]
  obtain depth :: "node_ptr \<Rightarrow> nat" where d: "\<And>q p. up t q = Some p \<Longrightarrow> depth p < depth q"
    using tree_shape_depth [OF shape] by blast
  have upc: "up t c = Some n" using D(2) [OF c(1)] .
  have cn: "c \<noteq> n" using d [OF upc] by auto
  have nd: "n \<in> dom (nodes t)" "c \<in> dom (nodes t)" using link_dom(2) [OF c(1)] D(3) [OF c(1)] .
  have "\<forall>q p. up t' q = Some p \<longrightarrow> kid t' p q"
  proof (intro allI impI)
    fix q p assume q: "up t' q = Some p"
    show "kid t' p q"
    proof (cases "q = c")
      case True
      then have "up t n = Some p" using q t'' by simp
      then show ?thesis using True D(1) d [of n p] by (auto simp: kid')
    next
      case False
      then have "q \<noteq> n" "up t q = Some p" using q t'' by (auto split: if_splits)
      then show ?thesis using D(1) [of q p] c(2) [of q] False by (auto simp: kid')
    qed
  qed
  moreover have "\<forall>p x. kid t' p x \<longrightarrow> x \<in> dom (nodes t') \<and> up t' x = Some p"
  proof (intro allI impI)
    fix p x assume "kid t' p x"
    then consider "p \<noteq> n" "kid t p x" "x \<noteq> n" | "p \<noteq> n" "kid t p n" "x = c" by (auto simp: kid')
    then show "x \<in> dom (nodes t') \<and> up t' x = Some p"
    proof cases
      case 1
      then have "x \<noteq> c" using D(2) [OF 1(2)] upc by auto
      then show ?thesis using 1 D(2,3) [OF 1(2)] t'' by simp
    next
      case 2
      then show ?thesis using D(2) [OF 2(2)] nd(2) cn t'' by simp
    qed
  qed
  moreover have "\<forall>p x. lc t' p = Some x \<longrightarrow> rc t' p \<noteq> Some x"
    using D(4) t'' D(2) [of _ c] upc by (auto simp: kid_def split: if_splits)
  moreover have "\<exists>depth :: node_ptr \<Rightarrow> nat. \<forall>q p. up t' q = Some p \<longrightarrow> depth p < depth q"
    using d d [OF upc] t'' by (intro exI [of _ depth]) (auto split: if_splits dest: less_trans)
  moreover have "\<forall>q s. st t' q = Some s \<longrightarrow> ptreeNode t' s = Some q \<and> lc t' q = None \<and> rc t' q = None"
    using D(5,8,9) t'' by auto
  moreover have "finite (dom (nodes t'))" using D(7) t'' by simp
  ultimately show ?thesis unfolding tree_shape_def using compressed_root [OF shape c(1) t'] by (intro conjI; blast)
qed

lemma compressed_owned:
  assumes shape: "tree_shape t" and n: "st t n = None" and c: "kid t n c" "\<And>d. kid t n d \<Longrightarrow> d = c"
    and t': "compressed n c t t'" and m: "owned_but {} m S t"
  shows "owned_but {} m S t'"
proof -
  note t'' = t' [unfolded compressed_def]
  note kid' = compressed_kid [OF t' shape]
  have old: "owns m t' x = owns m t x" if "x \<in> dom (nodes t) - {n}" for x using that t'' by (simp add: owns_def)
  have nd: "n \<in> dom (nodes t)" "c \<in> dom (nodes t)" "c \<noteq> n"
    using link_dom(2) [OF c(1)] tree_shapeD(2,3) [OF shape c(1)] tree_shape_depth [OF shape] by auto
  have "(\<exists>x. kid t n x \<and> owns m t x) \<longleftrightarrow> owns m t c" using c by blast
  then have nc: "owns m t n \<longleftrightarrow> owns m t c" using m nd(1) n by (simp add: owned_but_def demand_def)
  have "demand m S t' q = demand m S t q" if q: "q \<in> dom (nodes t) - {n}" for q
  proof -
    have "kid t' q x \<and> owns m t' x \<longleftrightarrow>
        kid t q x \<and> x \<noteq> n \<and> owns m t x \<or> kid t q n \<and> x = c \<and> owns m t c" for x
      using old [of x] old [of c] nd q tree_shapeD(3) [OF shape, of q x] by (auto simp: kid')
    then have "(\<exists>x. kid t' q x \<and> owns m t' x) \<longleftrightarrow> (\<exists>x. kid t q x \<and> owns m t x)"
      using nc by (metis (no_types))
    then show ?thesis using t'' unfolding demand_def by (auto split: option.split)
  qed
  then show ?thesis using m old t'' by (auto simp: owned_but_def)
qed

lemma compress_node_ok:
  assumes shape: "tree_shape t" and leaves: "leaves_ok {} t" and n: "n \<in> dom (nodes t)" "st t n = None"
    and c: "\<exists>!c. kid t n c"
  obtains t' where "compress_node n t = Some t'" "tree_ok t'" "live t' = live t" "registeredIds t' = registeredIds t"
    "nodes t' \<noteq> Map.empty" "\<And>m S. owned_but {} m S t \<Longrightarrow> owned_but {} m S t'"
proof -
  from c obtain c where c: "kid t n c" "\<And>d. kid t n d \<Longrightarrow> d = c" by blast
  obtain t' where t': "compress_node n t = Some t'" "compressed n c t t'"
    using compress_node_compressed [OF shape n c] by blast
  note t'' = t'(2) [unfolded compressed_def]
  note kid' = compressed_kid [OF t'(2) shape]
  have "\<exists>d. kid t' q d" if "q \<in> dom (nodes t')" "st t' q = None" for q
  proof -
    have "q \<in> dom (nodes t)" "q \<noteq> n" "st t q = None" using that t'' by auto
    moreover then obtain d where "kid t q d" using leaves by (auto simp: leaves_ok_def)
    ultimately show ?thesis unfolding kid' by blast
  qed
  then have "leaves_ok {} t'" by (simp add: leaves_ok_def)
  then have "tree_ok t'" using compressed_shape [OF shape n(2) c t'(2)] by (simp add: tree_ok_def)
  moreover have "nodes t' \<noteq> Map.empty"
    using tree_shapeD(2,3) [OF shape c(1)] tree_shape_depth [OF shape] t'' by fastforce
  moreover have "live t' = live t" using t'' by (simp add: live_def)
  ultimately show thesis using that [OF t'(1)] compressed_owned [OF shape n(2) c t'(2)] t'' by blast
qed

lemma ptree_remove_ok:
  assumes ok: "tree_ok t" and n: "st t n = Some s"
  obtains t' where "ptree_remove compress (Some n) t = Some t'" "tree_ok t'" "live t' = live t - {s}"
    "registeredIds t' = registeredIds t" "\<And>m S. owned_ok m S t \<Longrightarrow> s \<notin> S \<Longrightarrow> owned_ok m S t'"
proof -
  have dn: "n \<in> dom (nodes t)" using link_dom(3) [OF n] .
  then have shape: "tree_shape t" and leaves: "leaves_ok {} t" using ok by (auto simp: tree_ok_def)
  note D = tree_shapeD [OF shape]
  obtain nd where nd: "nodes t n = Some nd" using dn by blast
  have none: "getPointer (pn_left nd) = None" "getPointer (pn_right nd) = None"
    using D(8,9) [OF n] nd by (auto simp: lc_def rc_def)
  have "leaves_ok {n} t" using leaves by (auto simp: leaves_ok_def)
  then obtain stop t1 where t1: "remove_up n t = Some (stop, t1)" "removed_ok n t stop t1"
    using remove_up_ok [OF shape _ dn D(6) [OF n]] by blast
  have own1: "owned_but {} m S t1 \<and> (nodes t1 = Map.empty \<longrightarrow> getInt (pt_root t1) AND m = 0)"
    if m: "owned_ok m S t" "s \<notin> S" for m S
  proof -
    have "owned_but {n} m S t" "\<not> owns m t n" using m n dn by (auto simp: owned_ok_def owned_but_def demand_def)
    then show ?thesis using t1(2) by (simp add: removed_ok_def)
  qed
  show thesis
  proof (cases "stop \<noteq> None \<and> compress")
    case False
    then have "ptree_remove compress (Some n) t = Some t1"
      using nd none t1(1) by (auto simp: ptree_remove_def split: option.splits)
    moreover have "owned_ok m S t1" if "owned_ok m S t" "s \<notin> S" for m S
      using own1 [OF that] that t1(2) n by (auto simp: removed_ok_def owned_ok_def)
    ultimately show thesis using that [of t1] t1(2) n by (auto simp: removed_ok_def)
  next
    case True
    then obtain q where q: "stop = Some q" by blast
    then have q': "q \<in> dom (nodes t1)" "st t1 q = None" "\<exists>!c. kid t1 q c" "tree_ok t1" using t1(2) by (auto simp: removed_ok_def)
    then have s1: "tree_shape t1" "leaves_ok {} t1" by (auto simp: tree_ok_def)
    obtain t' where t': "compress_node q t1 = Some t'" "tree_ok t'" "live t' = live t1" "registeredIds t' = registeredIds t1"
        "nodes t' \<noteq> Map.empty" "\<And>m S. owned_but {} m S t1 \<Longrightarrow> owned_but {} m S t'"
      using compress_node_ok [OF s1 q'(1-3)] by blast
    have "ptree_remove compress (Some n) t = Some t'"
      using nd none t1(1) q True t'(1) by (simp add: ptree_remove_def)
    moreover have "owned_ok m S t'" if "owned_ok m S t" "s \<notin> S" for m S
      using own1 [OF that] that t1(2) n t' by (auto simp: removed_ok_def owned_ok_def)
    ultimately show thesis using that [of t'] t1(2) n t' by (auto simp: removed_ok_def)
  qed
qed

end
