(* ===== verification/RandomPath.thy ===== *)
theory RandomPath
  imports PTree Searchers
begin

unbundle bit_operations_syntax

section \<open>The random-path searcher and the executor's process tree\<close>

text \<open>
  \<open>RandomPathSearcher\<close> of \<open>klee/lib/Core/Searcher.cpp\<close> walks from the root of the process tree to a
  leaf, at every node to a child whose pointer carries its bit, and \<open>update\<close> moves the bits. With it
  the three places of \<open>Executor.cpp\<close> that change the tree: \<open>branch\<close> and \<open>fork\<close> attach new states,
  \<open>terminateState\<close> and \<open>updateStates\<close> remove states.

  The lemmas show that \<open>update\<close> keeps the masks right and touches no other searcher's bit, that the
  walk ends at a state of the searcher, and, over the steps of the executor, that no assertion of
  the tree or the searchers can fail.
\<close>

subsection \<open>The searcher\<close>

definition IS_OUR_NODE_VALID :: "u8 \<Rightarrow> PTreeNodePtr \<Rightarrow> bool" where
  "IS_OUR_NODE_VALID idBitMask q \<longleftrightarrow> getPointer q \<noteq> None \<and> getInt q AND idBitMask \<noteq> 0"

text \<open>
  The loop of \<open>selectState\<close>: \<open>draw\<close> is \<open>theRNG.getInt32\<close>; \<open>flips\<close> holds the random bits and \<open>bits\<close>
  how many of them are left. \<open>None\<close>: an assertion fails or a null pointer is followed.
\<close>

partial_function (option) rp_walk ::
  "('g \<Rightarrow> (u32 \<times> 'g) option) \<Rightarrow> u8 \<Rightarrow> ptree \<Rightarrow> node_ptr \<Rightarrow> u32 \<Rightarrow> nat \<Rightarrow> 'g \<Rightarrow> (state_ptr \<times> 'g) option" where
  "rp_walk draw m t n flips bits g = do {
     nd \<leftarrow> nodes t n;
     case pn_state nd of
       Some s \<Rightarrow> Some (s, g)
     | None \<Rightarrow>
         if \<not> IS_OUR_NODE_VALID m (pn_left nd) then
           if \<not> IS_OUR_NODE_VALID m (pn_right nd) \<or> getPointer (pn_right nd) = Some n then None
           else do { c \<leftarrow> getPointer (pn_right nd); rp_walk draw m t c flips bits g }
         else if \<not> IS_OUR_NODE_VALID m (pn_right nd) then
           if getPointer (pn_left nd) = Some n then None
           else do { c \<leftarrow> getPointer (pn_left nd); rp_walk draw m t c flips bits g }
         else do {
           (flips, bits, g) \<leftarrow> (if bits = 0 then map_option (\<lambda>(y, g'). (y, 32, g')) (draw g) else Some (flips, bits, g));
           c \<leftarrow> getPointer (if bit flips (bits - 1) then pn_left nd else pn_right nd);
           rp_walk draw m t c flips (bits - 1) g } }"

definition rp_select :: "('g \<Rightarrow> (u32 \<times> 'g) option) \<Rightarrow> u8 \<Rightarrow> ptree \<Rightarrow> 'g \<Rightarrow> (state_ptr \<times> 'g) option" where
  "rp_select draw m t g =
     (if getInt (pt_root t) AND m = 0 then None
      else do { n \<leftarrow> getPointer (pt_root t); rp_walk draw m t n 0 0 g })"

definition rp_selectState :: "u8 \<Rightarrow> ptree \<Rightarrow> rng \<Rightarrow> (state_ptr \<times> rng) option" where
  "rp_selectState = rp_select getInt32"

text \<open>The loop that hands the nodes above an added state to the searcher.\<close>

partial_function (option) own_up :: "u8 \<Rightarrow> node_ptr option \<Rightarrow> node_ptr option \<Rightarrow> slot \<Rightarrow> ptree \<Rightarrow> ptree option" where
  "own_up m pnode parent childPtr t = do {
     q \<leftarrow> load_slot childPtr t;
     if pnode = None \<or> IS_OUR_NODE_VALID m q then Some t
     else do {
       let t' = store_slot childPtr (q\<lparr>getInt := getInt q OR m\<rparr>) t;
       parent' \<leftarrow> (case parent of None \<Rightarrow> Some parent | Some p \<Rightarrow> map_option pn_parent (nodes t' p));
       childPtr' \<leftarrow> child_slot parent' parent t';
       own_up m parent parent' childPtr' t' } }"

definition rp_add :: "u8 \<Rightarrow> state_ptr \<Rightarrow> ptree \<Rightarrow> ptree option" where
  "rp_add m es t = do {
     pnode \<leftarrow> ptreeNode t es;
     nd \<leftarrow> nodes t pnode;
     childPtr \<leftarrow> child_slot (pn_parent nd) (Some pnode) t;
     own_up m (Some pnode) (pn_parent nd) childPtr t }"

text \<open>The loop that takes back the nodes that lead to no state of the searcher any more.\<close>

partial_function (option) disown_up :: "u8 \<Rightarrow> node_ptr option \<Rightarrow> node_ptr option \<Rightarrow> ptree \<Rightarrow> ptree option" where
  "disown_up m pnode parent t =
     (case pnode of
        None \<Rightarrow> Some t
      | Some n \<Rightarrow> do {
          nd \<leftarrow> nodes t n;
          if IS_OUR_NODE_VALID m (pn_left nd) \<or> IS_OUR_NODE_VALID m (pn_right nd) then Some t
          else do {
            childPtr \<leftarrow> child_slot parent pnode t;
            q \<leftarrow> load_slot childPtr t;
            if \<not> IS_OUR_NODE_VALID m q then None
            else do {
              let t' = store_slot childPtr (q\<lparr>getInt := getInt q AND NOT m\<rparr>) t;
              parent' \<leftarrow> (case parent of None \<Rightarrow> Some parent | Some p \<Rightarrow> map_option pn_parent (nodes t' p));
              disown_up m parent parent' t' } } })"

definition rp_remove :: "u8 \<Rightarrow> state_ptr \<Rightarrow> ptree \<Rightarrow> ptree option" where
  "rp_remove m es t = do {
     pnode \<leftarrow> ptreeNode t es;
     nd \<leftarrow> nodes t pnode;
     disown_up m (Some pnode) (pn_parent nd) t }"

definition rp_update :: "u8 \<Rightarrow> state_ptr option \<Rightarrow> state_ptr list \<Rightarrow> state_ptr list \<Rightarrow> ptree \<Rightarrow> ptree option" where
  "rp_update m current addedStates removedStates t = do {
     t' \<leftarrow> foldM (rp_add m) addedStates t;
     foldM (rp_remove m) removedStates t' }"

definition rp_empty :: "u8 \<Rightarrow> ptree \<Rightarrow> bool" where
  "rp_empty m t \<longleftrightarrow> \<not> IS_OUR_NODE_VALID m (pt_root t)"

declare rp_walk.simps [code] own_up.simps [code] disown_up.simps [code]

subsection \<open>Changing bits\<close>

text \<open>Two trees that differ in bits of \<open>m\<close> only.\<close>

definition retagged :: "u8 \<Rightarrow> ptree \<Rightarrow> ptree \<Rightarrow> bool" where
  "retagged m t t' \<longleftrightarrow>
     dom (nodes t') = dom (nodes t) \<and> up t' = up t \<and> lc t' = lc t \<and> rc t' = rc t \<and> st t' = st t \<and>
     ptreeNode t' = ptreeNode t \<and> registeredIds t' = registeredIds t \<and> getPointer (pt_root t') = getPointer (pt_root t) \<and>
     getInt (pt_root t') AND NOT m = getInt (pt_root t) AND NOT m \<and>
     (\<forall>q\<in>dom (nodes t). tag_at t' q AND NOT m = tag_at t q AND NOT m)"

lemma retagged_refl [simp]: "retagged m t t"
  by (simp add: retagged_def)

lemma retagged_trans: "retagged m t t1 \<Longrightarrow> retagged m t1 t2 \<Longrightarrow> retagged m t t2"
  by (simp add: retagged_def)

lemma retagged_kid: "retagged m t t' \<Longrightarrow> kid t' = kid t"
  by (simp add: retagged_def kid_def fun_eq_iff)

lemma retagged_shape: "retagged m t t' \<Longrightarrow> tree_shape t' = tree_shape t"
  using retagged_kid [of m t t'] by (simp add: retagged_def tree_shape_def)

lemma retagged_leaves: "retagged m t t' \<Longrightarrow> leaves_ok X t' = leaves_ok X t"
  using retagged_kid [of m t t'] by (simp add: retagged_def leaves_ok_def)

lemma retagged_live: "retagged m t t' \<Longrightarrow> live t' = live t"
  by (simp add: retagged_def live_def)

lemma and_not_disjoint:
  fixes x y m m' :: u8
  assumes "x AND NOT m = y AND NOT m" "m' AND m = 0"
  shows "x AND m' = y AND m'"
proof -
  have "z AND m' = (z AND NOT m) AND m'" for z :: u8
    using assms(2) by (intro bit_word_eqI) (metis bit_0_eq bit_and_iff bit_not_iff bot_apply bot_bool_def impossible_bit)
  then show ?thesis using assms(1) by metis
qed

lemma retagged_owns:
  assumes "retagged m t t'" "m' AND m = 0" "n \<in> dom (nodes t)"
  shows "owns m' t' n = owns m' t n"
proof -
  have "tag_at t' n AND NOT m = tag_at t n AND NOT m" using assms(1,3) by (simp add: retagged_def)
  from and_not_disjoint [OF this assms(2)] show ?thesis by (simp add: owns_def)
qed

lemma retagged_owned_but:
  assumes "retagged m t t'" "m' AND m = 0" "tree_shape t"
  shows "owned_but X m' S t' = owned_but X m' S t"
proof -
  have "kid t' n c \<and> owns m' t' c \<longleftrightarrow> kid t n c \<and> owns m' t c" for n c
    using retagged_owns [OF assms(1,2), of c] tree_shapeD(3) [OF assms(3), of n c] retagged_kid [OF assms(1)] by auto
  moreover have "st t' = st t" using assms(1) by (simp add: retagged_def)
  ultimately have "demand m' S t' n = demand m' S t n" for n unfolding demand_def by (auto split: option.split)
  then show ?thesis using retagged_owns [OF assms(1,2)] assms(1) by (auto simp: owned_but_def retagged_def)
qed

text \<open>The pointer that leads to a node, and what writing its mask does.\<close>

lemma slot_of:
  assumes shape: "tree_shape t" and n: "n \<in> dom (nodes t)"
  shows "\<exists>sl q. child_slot (up t n) (Some n) t = Some sl \<and> load_slot sl t = Some q \<and>
           getPointer q = Some n \<and> getInt q = tag_at t n"
proof (cases "up t n")
  case None
  then have "getPointer (pt_root t) = Some n" using tree_shape_root [OF shape] n by metis
  then show ?thesis using None by (simp add: child_slot_def tag_at_def)
next
  case (Some p)
  then have k: "kid t p n" using tree_shapeD(1) [OF shape] by blast
  then obtain pd where "nodes t p = Some pd" using link_dom(2) by blast
  then show ?thesis using k Some by (auto simp: child_slot_def tag_at_def kid_def lc_def rc_def)
qed

lemma store_links:
  assumes "load_slot sl t = Some q"
  shows "dom (nodes (store_slot sl (q\<lparr>getInt := v\<rparr>) t)) = dom (nodes t)" "up (store_slot sl (q\<lparr>getInt := v\<rparr>) t) = up t"
    "lc (store_slot sl (q\<lparr>getInt := v\<rparr>) t) = lc t" "rc (store_slot sl (q\<lparr>getInt := v\<rparr>) t) = rc t"
    "st (store_slot sl (q\<lparr>getInt := v\<rparr>) t) = st t" "ptreeNode (store_slot sl (q\<lparr>getInt := v\<rparr>) t) = ptreeNode t"
    "registeredIds (store_slot sl (q\<lparr>getInt := v\<rparr>) t) = registeredIds t"
    "getPointer (pt_root (store_slot sl (q\<lparr>getInt := v\<rparr>) t)) = getPointer (pt_root t)"
  using assms by (cases sl; auto simp: set_node_def up_def lc_def rc_def st_def fun_eq_iff split: if_splits)+

lemma store_tag:
  assumes shape: "tree_shape t" and n: "n \<in> dom (nodes t)"
    and sl: "child_slot (up t n) (Some n) t = Some sl" "load_slot sl t = Some q" and x: "x \<in> dom (nodes t)"
  shows "tag_at (store_slot sl (q\<lparr>getInt := v\<rparr>) t) x = (if x = n then v else tag_at t x)" (is "tag_at ?t x = _")
proof -
  note links = store_links [OF sl(2), of v]
  show ?thesis
  proof (cases "up t n")
    case None
    then have "sl = Root" using sl(1) by (simp add: child_slot_def)
    moreover have "up t x = None \<longleftrightarrow> x = n" using tree_shape_root [OF shape] x n None by metis
    ultimately show ?thesis using sl(2) links(2) by (auto simp: tag_at_def split: option.split)
  next
    case (Some p)
    have k: "kid t p n" using tree_shapeD(1) [OF shape Some] .
    then obtain pd where pd: "nodes t p = Some pd" using link_dom(2) by blast
    have near: "kid t p x" if "up t x = Some p" using tree_shapeD(1) [OF shape that] .
    have only: "up t x = up t n" if "x = n" using that by simp
    have sl': "sl = (if getPointer (pn_left pd) = Some n then LeftOf p else RightOf p)"
      using sl(1) Some pd by (simp add: child_slot_def)
    have "nodes ?t p = Some (if getPointer (pn_left pd) = Some n then pd\<lparr>pn_left := q\<lparr>getInt := v\<rparr>\<rparr>
        else pd\<lparr>pn_right := q\<lparr>getInt := v\<rparr>\<rparr>)" "\<And>r. r \<noteq> p \<Longrightarrow> nodes ?t r = nodes t r" "pt_root ?t = pt_root t"
      using sl' pd by (auto simp: set_node_def)
    note nodes' = this
    show ?thesis
    proof (cases "up t x = Some p")
      case True
      then have "kid t p x" using near by blast
      then show ?thesis
        using True nodes'(1) sl(2) sl' pd k links(2) by (auto simp: tag_at_def kid_def lc_def rc_def split: if_splits)
    next
      case False
      then show ?thesis using nodes' links(2) Some by (auto simp: tag_at_def split: option.split)
    qed
  qed
qed

lemma store_retagged:
  assumes shape: "tree_shape t" and n: "n \<in> dom (nodes t)"
    and sl: "child_slot (up t n) (Some n) t = Some sl" "load_slot sl t = Some q"
    and v: "v AND NOT m = tag_at t n AND NOT m"
  shows "retagged m t (store_slot sl (q\<lparr>getInt := v\<rparr>) t)"
proof -
  have "getInt (pt_root (store_slot sl (q\<lparr>getInt := v\<rparr>) t)) AND NOT m = getInt (pt_root t) AND NOT m"
    using sl v by (cases sl) (auto simp: set_node_def tag_at_def child_slot_def split: option.splits if_splits)
  then show ?thesis using store_links [OF sl(2), of v] store_tag [OF shape n sl] v by (simp add: retagged_def)
qed

text \<open>Writing the mask of \<open>n\<close> so that it is right leaves the masks above to be put right.\<close>

lemma store_owned:
  assumes shape: "tree_shape t" and n: "n \<in> dom (nodes t)"
    and sl: "child_slot (up t n) (Some n) t = Some sl" "load_slot sl t = Some q"
    and v: "v AND m \<noteq> 0 \<longleftrightarrow> demand m S t n" and own: "owned_but {n} m S t"
  shows "owned_but (set_option (up t n)) m S (store_slot sl (q\<lparr>getInt := v\<rparr>) t)" (is "owned_but _ m S ?t")
proof -
  note links = store_links [OF sl(2), of v]
  have kid': "kid ?t = kid t" using links by (simp add: kid_def fun_eq_iff)
  have owns': "owns m ?t x = (if x = n then v AND m \<noteq> 0 else owns m t x)" if "x \<in> dom (nodes t)" for x
    using store_tag [OF shape n sl that] by (simp add: owns_def)
  have "demand m S ?t x = demand m S t x" if "up t n \<noteq> Some x" for x
  proof -
    have "kid t x c \<and> owns m ?t c \<longleftrightarrow> kid t x c \<and> owns m t c" for c
      using owns' [of c] that tree_shapeD(2,3) [OF shape, of x c] by (cases "c = n") auto
    then show ?thesis using links(5) unfolding demand_def kid' by (auto split: option.split)
  qed
  moreover have "up t n \<noteq> Some n" using tree_shape_depth [OF shape] by auto
  ultimately show ?thesis using own v owns' links(1) by (auto simp: owned_but_def)
qed

lemma demand_kid: "tree_shape t \<Longrightarrow> kid t p n \<Longrightarrow> owns m t n \<Longrightarrow> demand m S t p"
  using tree_shapeD(6) [of t p] by (auto simp: demand_def split: option.split)

lemma or_own: "(x OR m) AND m = (m :: u8)" "(x OR m) AND NOT m = x AND NOT m"
    "(x AND NOT m) AND m = 0" "(x AND NOT m) AND NOT m = x AND NOT m"
  by (auto intro!: bit_word_eqI simp: bit_and_iff bit_or_iff bit_not_iff)

lemma own_up_ok:
  assumes "tree_shape t" "n \<in> dom (nodes t)" "owned_but {n} m S t" "demand m S t n" "m \<noteq> 0"
    and "child_slot (up t n) (Some n) t = Some sl"
  shows "\<exists>t'. own_up m (Some n) (up t n) sl t = Some t' \<and> owned_but {} m S t' \<and> retagged m t t'"
proof -
  obtain depth :: "node_ptr \<Rightarrow> nat" where d: "\<And>q p. up t q = Some p \<Longrightarrow> depth p < depth q"
    using tree_shape_depth [OF assms(1)] by blast
  show ?thesis using assms d
  proof (induction "depth n" arbitrary: n t sl rule: less_induct)
    case (less n t sl)
    note shape = less.prems(1) and n = less.prems(2) and sl = less.prems(6)
    from slot_of [OF shape n] sl obtain q where q: "load_slot sl t = Some q" "getPointer q = Some n" "getInt q = tag_at t n"
      by auto
    show ?case
    proof (cases "owns m t n")
      case True
      then have "own_up m (Some n) (up t n) sl t = Some t"
        using q by (subst own_up.simps) (simp add: IS_OUR_NODE_VALID_def owns_def)
      moreover have "owned_but {} m S t" using True less.prems(3,4) by (auto simp: owned_but_def)
      ultimately show ?thesis by auto
    next
      case False
      let ?t = "store_slot sl (q\<lparr>getInt := getInt q OR m\<rparr>) t"
      have own: "owned_but (set_option (up t n)) m S ?t"
        using store_owned [OF shape n sl q(1) _ less.prems(3)] less.prems(4,5) by (simp add: or_own)
      have re: "retagged m t ?t" using store_retagged [OF shape n sl q(1)] q(3) by (simp add: or_own)
      have step: "own_up m (Some n) (up t n) sl t = do {
          parent' \<leftarrow> (case up t n of None \<Rightarrow> Some None | Some p \<Rightarrow> map_option pn_parent (nodes ?t p));
          sl' \<leftarrow> child_slot parent' (up t n) ?t;
          own_up m (up t n) parent' sl' ?t }"
        using q False by (subst own_up.simps) (simp add: IS_OUR_NODE_VALID_def owns_def Let_def split: option.split)
      show ?thesis
      proof (cases "up t n")
        case None
        have "own_up m None None Root ?t = Some ?t" by (subst own_up.simps) simp
        then show ?thesis using step None own re by (simp add: child_slot_def)
      next
        case (Some p)
        have k: "kid t p n" using tree_shapeD(1) [OF shape Some] .
        have shape': "tree_shape ?t" using retagged_shape [OF re] shape by simp
        have p: "p \<in> dom (nodes ?t)" using link_dom(2) [OF k] re by (simp add: retagged_def)
        then obtain pd where pd: "nodes ?t p = Some pd" by blast
        then have upp: "pn_parent pd = up ?t p" by (simp add: up_def)
        obtain sl' where sl': "child_slot (up ?t p) (Some p) ?t = Some sl'" using slot_of [OF shape' p] by blast
        have "owns m ?t n" using store_tag [OF shape n sl q(1) n] less.prems(5) by (simp add: owns_def or_own)
        then have dem: "demand m S ?t p" using demand_kid [OF shape'] k retagged_kid [OF re] by simp
        have "depth y < depth x" if "up ?t x = Some y" for x y using less.prems(7) [of x y] that re by (simp add: retagged_def)
        then have "\<exists>t'. own_up m (Some p) (up ?t p) sl' ?t = Some t' \<and> owned_but {} m S t' \<and> retagged m ?t t'"
          using less.hyps [OF less.prems(7) [OF Some] shape' p _ dem less.prems(5) sl'] own Some by simp
        then show ?thesis using step Some pd upp sl' retagged_trans [OF re] by auto
      qed
    qed
  qed
qed

lemma valid_kid:
  assumes "tree_shape t" "nodes t n = Some nd"
  shows "IS_OUR_NODE_VALID m (pn_left nd) \<or> IS_OUR_NODE_VALID m (pn_right nd) \<longleftrightarrow> (\<exists>c. kid t n c \<and> owns m t c)"
  using tag_at_left [OF assms] tag_at_right [OF assms] assms(2)
  by (auto simp: IS_OUR_NODE_VALID_def kid_def lc_def rc_def owns_def)

lemma disown_up_ok:
  assumes "tree_shape t" "n \<in> dom (nodes t)" "owned_but {n} m S t" "owns m t n" "\<And>s. st t n = Some s \<Longrightarrow> s \<notin> S"
  shows "\<exists>t'. disown_up m (Some n) (up t n) t = Some t' \<and> owned_but {} m S t' \<and> retagged m t t'"
proof -
  obtain depth :: "node_ptr \<Rightarrow> nat" where d: "\<And>q p. up t q = Some p \<Longrightarrow> depth p < depth q"
    using tree_shape_depth [OF assms(1)] by blast
  show ?thesis using assms d
  proof (induction "depth n" arbitrary: n t rule: less_induct)
    case (less n t)
    note shape = less.prems(1) and n = less.prems(2)
    from n obtain nd where nd: "nodes t n = Some nd" by blast
    have dem: "demand m S t n \<longleftrightarrow> (\<exists>c. kid t n c \<and> owns m t c)"
      using less.prems(5) tree_shapeD(6) [OF shape, of n] by (auto simp: demand_def split: option.split)
    note valid = valid_kid [OF shape nd, of m]
    show ?case
    proof (cases "demand m S t n")
      case True
      then have "disown_up m (Some n) (up t n) t = Some t" using nd dem valid by (subst disown_up.simps) simp
      moreover have "owned_but {} m S t" using True less.prems(3,4) by (auto simp: owned_but_def)
      ultimately show ?thesis by auto
    next
      case False
      from slot_of [OF shape n] obtain sl q where q: "child_slot (up t n) (Some n) t = Some sl" "load_slot sl t = Some q"
          "getPointer q = Some n" "getInt q = tag_at t n" by auto
      let ?t = "store_slot sl (q\<lparr>getInt := getInt q AND NOT m\<rparr>) t"
      have own: "owned_but (set_option (up t n)) m S ?t"
        using store_owned [OF shape n q(1,2) _ less.prems(3)] False by (simp add: or_own)
      have re: "retagged m t ?t" using store_retagged [OF shape n q(1,2)] q(4) by (simp add: or_own)
      have nv: "\<not> (IS_OUR_NODE_VALID m (pn_left nd) \<or> IS_OUR_NODE_VALID m (pn_right nd))" using valid dem False by blast
      have vq: "IS_OUR_NODE_VALID m q" using q(3,4) less.prems(4) by (simp add: IS_OUR_NODE_VALID_def owns_def)
      have step: "disown_up m (Some n) (up t n) t = do {
          parent' \<leftarrow> (case up t n of None \<Rightarrow> Some None | Some p \<Rightarrow> map_option pn_parent (nodes ?t p));
          disown_up m (up t n) parent' ?t }"
        using q(1,2) nv vq nd by (subst disown_up.simps) (simp add: Let_def split: option.split)
      show ?thesis
      proof (cases "up t n")
        case None
        have "disown_up m None None ?t = Some ?t" by (subst disown_up.simps) simp
        then show ?thesis using step None own re by simp
      next
        case (Some p)
        have k: "kid t p n" using tree_shapeD(1) [OF shape Some] .
        have shape': "tree_shape ?t" using retagged_shape [OF re] shape by simp
        have p: "p \<in> dom (nodes ?t)" "p \<in> dom (nodes t)" "p \<noteq> n"
          using link_dom(2) [OF k] re less.prems(6) [OF Some] by (auto simp: retagged_def)
        then obtain pd where pd: "nodes ?t p = Some pd" by blast
        then have upp: "pn_parent pd = up ?t p" by (simp add: up_def)
        have "owns m t p" using demand_kid [OF shape k less.prems(4)] less.prems(3) p(2,3) by (auto simp: owned_but_def)
        then have ownp: "owns m ?t p" using store_tag [OF shape n q(1,2) p(2)] p(3) by (simp add: owns_def)
        have stp: "s \<notin> S" if "st ?t p = Some s" for s
          using that k tree_shapeD(6) [OF shape, of p s n] re by (simp add: retagged_def)
        have "depth y < depth x" if "up ?t x = Some y" for x y using less.prems(6) [of x y] that re by (simp add: retagged_def)
        then have "\<exists>t'. disown_up m (Some p) (up ?t p) ?t = Some t' \<and> owned_but {} m S t' \<and> retagged m ?t t'"
          using less.hyps [OF less.prems(6) [OF Some] shape' p(1) _ ownp stp] own Some by simp
        then show ?thesis using step Some pd upp retagged_trans [OF re] by auto
      qed
    qed
  qed
qed

subsection \<open>\<open>update\<close>\<close>

lemma tree_ok_retagged:
  assumes "tree_ok t" "retagged m t t'"
  shows "tree_ok t'"
proof -
  have "nodes t' = Map.empty \<longleftrightarrow> nodes t = Map.empty" using assms(2) by (metis dom_eq_empty_conv retagged_def)
  then show ?thesis
    using assms retagged_shape [OF assms(2)] retagged_leaves [OF assms(2)] by (simp add: tree_ok_def)
qed

lemma state_node:
  assumes "tree_ok t" "s \<in> live t"
  obtains n nd where "st t n = Some s" "ptreeNode t s = Some n" "nodes t n = Some nd" "tree_shape t"
    "\<And>q. st t q = Some s \<Longrightarrow> q = n" "pn_parent nd = up t n"
proof -
  from assms(2) obtain n where n: "st t n = Some s" by (auto simp: live_def)
  then have "n \<in> dom (nodes t)" using link_dom(3) by blast
  then obtain nd where nd: "nodes t n = Some nd" and shape: "tree_shape t" using assms(1) by (auto simp: tree_ok_def)
  have "q = n" if "st t q = Some s" for q using tree_shapeD(5) [OF shape that] tree_shapeD(5) [OF shape n] by simp
  then show thesis using that [OF n tree_shapeD(5) [OF shape n] nd shape] nd by (simp add: up_def)
qed

lemma rp_add_ok:
  assumes ok: "tree_ok t" and own: "owned_but {} m S t" and s: "s \<in> live t" and m: "m \<noteq> 0"
  obtains t' where "rp_add m s t = Some t'" "owned_but {} m (insert s S) t'" "retagged m t t'"
proof -
  obtain n nd where n: "st t n = Some s" "ptreeNode t s = Some n" "nodes t n = Some nd" "tree_shape t"
      "\<And>q. st t q = Some s \<Longrightarrow> q = n" "pn_parent nd = up t n"
    using state_node [OF ok s] by metis
  have dn: "n \<in> dom (nodes t)" using n(3) by blast
  have "owned_but {n} m (insert s S) t"
    using own n(5) by (auto simp: owned_but_def demand_def split: option.split)
  moreover have "demand m (insert s S) t n" using n(1) by (simp add: demand_def)
  moreover obtain sl where sl: "child_slot (up t n) (Some n) t = Some sl" using slot_of [OF n(4) dn] by blast
  ultimately show thesis using own_up_ok [OF n(4) dn _ _ m sl] n(2,3,6) that by (auto simp: rp_add_def)
qed

lemma rp_remove_ok:
  assumes ok: "tree_ok t" and own: "owned_but {} m S t" and s: "s \<in> live t" "s \<in> S"
  obtains t' where "rp_remove m s t = Some t'" "owned_but {} m (S - {s}) t'" "retagged m t t'"
proof -
  obtain n nd where n: "st t n = Some s" "ptreeNode t s = Some n" "nodes t n = Some nd" "tree_shape t"
      "\<And>q. st t q = Some s \<Longrightarrow> q = n" "pn_parent nd = up t n"
    using state_node [OF ok s(1)] by metis
  have dn: "n \<in> dom (nodes t)" using n(3) by blast
  have "owned_but {n} m (S - {s}) t"
    using own n(5) by (auto simp: owned_but_def demand_def split: option.split)
  moreover have "owns m t n" using own dn n(1) s(2) by (auto simp: owned_but_def demand_def)
  ultimately show thesis using disown_up_ok [OF n(4) dn] n(1,2,3,6) that by (auto simp: rp_remove_def)
qed

lemma owned_ok_alt: "tree_ok t \<Longrightarrow> s \<in> live t \<Longrightarrow> owned_ok m S t \<longleftrightarrow> owned_but {} m S t \<and> S \<subseteq> live t"
  by (auto simp: owned_ok_def live_def st_def)

text \<open>
  \<open>update\<close> returns when the added states are in the tree and the removed ones are managed, and the
  searcher then manages what it should.
\<close>

lemma rp_adds_ok:
  assumes "tree_ok t" "owned_ok m S t" "set added \<subseteq> live t" "m \<noteq> 0"
  shows "\<exists>t'. foldM (rp_add m) added t = Some t' \<and> owned_ok m (S \<union> set added) t' \<and> retagged m t t'"
  using assms
proof (induction added arbitrary: S t)
  case (Cons s added)
  have s: "s \<in> live t" using Cons.prems(3) by simp
  obtain t1 where t1: "rp_add m s t = Some t1" "owned_but {} m (insert s S) t1" "retagged m t t1"
    using rp_add_ok [OF Cons.prems(1) _ s Cons.prems(4)] Cons.prems(2) by (auto simp: owned_ok_def)
  note ok1 = tree_ok_retagged [OF Cons.prems(1) t1(3)] and live1 = retagged_live [OF t1(3)]
  have "owned_ok m (insert s S) t1"
    using owned_ok_alt [OF ok1, of s] t1(2) live1 s Cons.prems(2) by (auto simp: owned_ok_def)
  moreover have "set added \<subseteq> live t1" using live1 Cons.prems(3) by simp
  ultimately obtain t2 where "foldM (rp_add m) added t1 = Some t2" "owned_ok m (insert s S \<union> set added) t2" "retagged m t1 t2"
    using Cons.IH [OF ok1] Cons.prems(4) by blast
  then show ?case using t1(1) retagged_trans [OF t1(3)] by auto
qed auto

lemma rp_removes_ok:
  assumes "tree_ok t" "owned_ok m S t" "set removed \<subseteq> S" "distinct removed"
  shows "\<exists>t'. foldM (rp_remove m) removed t = Some t' \<and> owned_ok m (S - set removed) t' \<and> retagged m t t'"
  using assms
proof (induction removed arbitrary: S t)
  case (Cons s removed)
  have s: "s \<in> live t" "s \<in> S" using Cons.prems(2,3) by (auto simp: owned_ok_def)
  obtain t1 where t1: "rp_remove m s t = Some t1" "owned_but {} m (S - {s}) t1" "retagged m t t1"
    using rp_remove_ok [OF Cons.prems(1) _ s] Cons.prems(2) by (auto simp: owned_ok_def)
  note ok1 = tree_ok_retagged [OF Cons.prems(1) t1(3)] and live1 = retagged_live [OF t1(3)]
  have "owned_ok m (S - {s}) t1"
    using owned_ok_alt [OF ok1, of s] t1(2) live1 s Cons.prems(2) by (auto simp: owned_ok_def)
  moreover have "set removed \<subseteq> S - {s}" "distinct removed" using Cons.prems(3,4) by auto
  ultimately obtain t2 where "foldM (rp_remove m) removed t1 = Some t2" "owned_ok m (S - {s} - set removed) t2" "retagged m t1 t2"
    using Cons.IH [OF ok1] by blast
  then show ?case using t1(1) retagged_trans [OF t1(3)] by (auto simp: Diff_insert2 [symmetric])
qed auto

lemma retagged_owned_ok:
  assumes "tree_ok t" "retagged m t t'" "m' AND m = 0" "owned_ok m' S t"
  shows "owned_ok m' S t'"
proof (cases "nodes t = Map.empty")
  case True
  have "getInt (pt_root t') AND NOT m = getInt (pt_root t) AND NOT m" and d: "dom (nodes t') = dom (nodes t)"
    using assms(2) by (auto simp: retagged_def)
  from and_not_disjoint [OF this(1) assms(3)] have "getInt (pt_root t') AND m' = 0"
    using assms(4) True by (simp add: owned_ok_def)
  then show ?thesis using retagged_live [OF assms(2)] True d assms(4) by (simp add: owned_ok_def owned_but_def)
next
  case False
  moreover have "dom (nodes t') = dom (nodes t)" using assms(2) by (simp add: retagged_def)
  ultimately have "tree_shape t" "nodes t' \<noteq> Map.empty" using assms(1) by (simp add: tree_ok_def, metis dom_empty dom_eq_empty_conv)
  then show ?thesis
    using retagged_owned_but [OF assms(2,3)] retagged_live [OF assms(2)] assms(4) by (simp add: owned_ok_def)
qed

lemma rp_update_ok:
  assumes ok: "tree_ok t" and own: "owned_ok m S t" and m: "m \<noteq> 0"
    and added: "set added \<subseteq> live t" and removed: "set removed \<subseteq> S \<union> set added" "distinct removed"
  obtains t' where "rp_update m current added removed t = Some t'" "tree_ok t'" "retagged m t t'"
    "owned_ok m (S \<union> set added - set removed) t'"
proof -
  obtain t1 where t1: "foldM (rp_add m) added t = Some t1" "owned_ok m (S \<union> set added) t1" "retagged m t t1"
    using rp_adds_ok [OF ok own added m] by blast
  note ok1 = tree_ok_retagged [OF ok t1(3)]
  obtain t2 where t2: "foldM (rp_remove m) removed t1 = Some t2" "owned_ok m (S \<union> set added - set removed) t2" "retagged m t1 t2"
    using rp_removes_ok [OF ok1 t1(2) removed] by blast
  show thesis
    using that t1(1) t2 tree_ok_retagged [OF ok1 t2(3)] retagged_trans [OF t1(3) t2(3)] by (simp add: rp_update_def)
qed

subsection \<open>The walk\<close>

text \<open>Numbers that grow towards the root: the walk ends.\<close>

lemma tree_height:
  assumes "tree_shape t"
  shows "\<exists>height :: node_ptr \<Rightarrow> nat. \<forall>p c. kid t p c \<longrightarrow> height c < height p"
proof -
  obtain depth :: "node_ptr \<Rightarrow> nat" where d: "\<And>q p. up t q = Some p \<Longrightarrow> depth p < depth q"
    using tree_shape_depth [OF assms] by blast
  define B where "B = Max (depth ` dom (nodes t))"
  have "B - depth c < B - depth p" if "kid t p c" for p c
  proof -
    have "depth c \<le> B" using tree_shapeD(3,7) [OF assms] that by (simp add: B_def)
    then show ?thesis using d [OF tree_shapeD(2) [OF assms that]] by simp
  qed
  then show ?thesis by (intro exI [of _ "\<lambda>n. B - depth n"]) simp
qed

lemma walk_leaf: "st t n = Some s \<Longrightarrow> rp_walk draw m t n flips bits g = Some (s, g)"
  by (subst rp_walk.simps) (auto simp: st_def bind_eq_Some_conv)

lemma walk_one:
  assumes shape: "tree_shape t" and n: "st t n = None" and c: "kid t n c" "owns m t c"
    and other: "\<And>d. kid t n d \<Longrightarrow> owns m t d \<Longrightarrow> d = c"
  shows "rp_walk draw m t n flips bits g = rp_walk draw m t c flips bits g"
proof -
  obtain nd where nd: "nodes t n = Some nd" using link_dom(2) [OF c(1)] by blast
  have cn: "c \<noteq> n" using tree_height [OF shape] c(1) by auto
  have st: "pn_state nd = None" using n nd by (simp add: st_def)
  show ?thesis
  proof (cases "getPointer (pn_left nd) = Some c")
    case True
    have "IS_OUR_NODE_VALID m (pn_left nd)" using True c(2) tag_at_left [OF shape nd True] by (simp add: IS_OUR_NODE_VALID_def owns_def)
    moreover have "\<not> IS_OUR_NODE_VALID m (pn_right nd)"
    proof
      assume v: "IS_OUR_NODE_VALID m (pn_right nd)"
      then obtain d where d: "getPointer (pn_right nd) = Some d" by (auto simp: IS_OUR_NODE_VALID_def)
      then have "kid t n d" "owns m t d" using v nd tag_at_right [OF shape nd d]
        by (auto simp: kid_def rc_def IS_OUR_NODE_VALID_def owns_def)
      then show False using other tree_shapeD(4) [OF shape, of n c] True d nd by (auto simp: lc_def rc_def)
    qed
    ultimately show ?thesis using nd st True cn by (subst rp_walk.simps) simp
  next
    case False
    then have r: "getPointer (pn_right nd) = Some c" using c(1) nd by (auto simp: kid_def lc_def rc_def)
    have "IS_OUR_NODE_VALID m (pn_right nd)" using r c(2) tag_at_right [OF shape nd r] by (simp add: IS_OUR_NODE_VALID_def owns_def)
    moreover have "\<not> IS_OUR_NODE_VALID m (pn_left nd)"
    proof
      assume v: "IS_OUR_NODE_VALID m (pn_left nd)"
      then obtain d where d: "getPointer (pn_left nd) = Some d" by (auto simp: IS_OUR_NODE_VALID_def)
      then have "kid t n d" "owns m t d" using v nd tag_at_left [OF shape nd d]
        by (auto simp: kid_def lc_def IS_OUR_NODE_VALID_def owns_def)
      then show False using other False d by auto
    qed
    ultimately show ?thesis using nd st r cn by (subst rp_walk.simps) simp
  qed
qed

lemma walk_two:
  assumes shape: "tree_shape t" and n: "st t n = None" and c: "lc t n = Some c" "owns m t c" and d: "rc t n = Some d" "owns m t d"
  shows "rp_walk draw m t n flips bits g = do {
     (flips, bits, g) \<leftarrow> (if bits = 0 then map_option (\<lambda>(y, g'). (y, 32, g')) (draw g) else Some (flips, bits, g));
     rp_walk draw m t (if bit flips (bits - 1) then c else d) flips (bits - 1) g }"
proof -
  obtain nd where nd: "nodes t n = Some nd" "getPointer (pn_left nd) = Some c" "getPointer (pn_right nd) = Some d" "pn_state nd = None"
    using c(1) d(1) n by (auto simp: lc_def rc_def st_def bind_eq_Some_conv)
  then have "IS_OUR_NODE_VALID m (pn_left nd)" "IS_OUR_NODE_VALID m (pn_right nd)"
    using c(2) d(2) tag_at_left [OF shape nd(1,2)] tag_at_right [OF shape nd(1,3)] by (auto simp: IS_OUR_NODE_VALID_def owns_def)
  then show ?thesis using nd by (subst rp_walk.simps) (cases "bits = 0"; cases "draw g"; auto)
qed

text \<open>The children of an owned inner node: one of them is owned or both.\<close>

lemma owned_kids:
  assumes "tree_shape t" "owned_but {} m S t" "n \<in> dom (nodes t)" "owns m t n" "st t n = None"
  obtains (one) c where "kid t n c" "owns m t c" "\<And>d. kid t n d \<Longrightarrow> owns m t d \<Longrightarrow> d = c"
    | (two) c d where "lc t n = Some c" "owns m t c" "rc t n = Some d" "owns m t d"
proof -
  obtain c where c: "kid t n c" "owns m t c" using assms(2-5) by (auto simp: owned_but_def demand_def)
  show thesis
  proof (cases "\<forall>d. kid t n d \<longrightarrow> owns m t d \<longrightarrow> d = c")
    case True
    then show thesis using one c by blast
  next
    case False
    then show thesis using two c by (auto simp: kid_def)
  qed
qed

lemma walk_ok:
  assumes shape: "tree_shape t" and own: "owned_but {} m S t"
    and draw: "\<And>g. P g \<Longrightarrow> \<exists>y g'. draw g = Some (y, g') \<and> P g'"
    and "n \<in> dom (nodes t)" "owns m t n" "P g"
  shows "\<exists>s g'. rp_walk draw m t n flips bits g = Some (s, g') \<and> s \<in> S \<and> P g'"
proof -
  obtain height :: "node_ptr \<Rightarrow> nat" where h: "\<And>p c. kid t p c \<Longrightarrow> height c < height p"
    using tree_height [OF shape] by blast
  show ?thesis using assms(4-6)
  proof (induction "height n" arbitrary: n flips bits g rule: less_induct)
    case less
    have IH: "\<exists>s g'. rp_walk draw m t c f b g = Some (s, g') \<and> s \<in> S \<and> P g'" if "kid t n c" "owns m t c" "P g" for c f b g
      using less.hyps [OF h [OF that(1)] tree_shapeD(3) [OF shape that(1)] that(2,3)] .
    show ?case
    proof (cases "st t n")
      case (Some s)
      moreover have "s \<in> S" using Some own less.prems by (auto simp: owned_but_def demand_def)
      ultimately show ?thesis using walk_leaf [OF Some, of draw m flips bits g] less.prems(3) by blast
    next
      case None
      show ?thesis using shape own less.prems(1,2) None
      proof (cases rule: owned_kids)
        case (one c)
        have "rp_walk draw m t n flips bits g = rp_walk draw m t c flips bits g"
          using one(3) by (rule walk_one [OF shape None one(1,2)])
        then show ?thesis using IH [OF one(1,2) less.prems(3)] by simp
      next
        case (two c d)
        have k: "kid t n c" "kid t n d" using two by (auto simp: kid_def)
        show ?thesis
        proof (cases "bits = 0")
          case True
          obtain y g' where "draw g = Some (y, g')" "P g'" using draw [OF less.prems(3)] by blast
          then show ?thesis using True walk_two [OF shape None two, of draw flips bits g] IH [OF k(1) two(2)] IH [OF k(2) two(4)] by simp
        next
          case False
          then show ?thesis using walk_two [OF shape None two, of draw flips bits g] IH [OF k(1) two(2)] IH [OF k(2) two(4)] less.prems(3) by simp
        qed
      qed
    qed
  qed
qed

lemma root_reaches:
  assumes shape: "tree_shape t" and r: "getPointer (pt_root t) = Some r" and n: "n \<in> dom (nodes t)"
  shows "(kid t)\<^sup>*\<^sup>* r n"
proof -
  obtain depth :: "node_ptr \<Rightarrow> nat" where d: "\<And>q p. up t q = Some p \<Longrightarrow> depth p < depth q"
    using tree_shape_depth [OF shape] by blast
  show ?thesis using n
  proof (induction "depth n" arbitrary: n rule: less_induct)
    case less
    show ?case
    proof (cases "up t n")
      case None
      then have "n = r" using tree_shape_root [OF shape] r less.prems by (metis option.inject)
      then show ?thesis by simp
    next
      case (Some p)
      have k: "kid t p n" using tree_shapeD(1) [OF shape Some] .
      then have "(kid t)\<^sup>*\<^sup>* r p" using less.hyps [OF d [OF Some]] link_dom(2) by blast
      then show ?thesis using k by (rule rtranclp.rtrancl_into_rtrancl)
    qed
  qed
qed

lemma owns_above:
  assumes shape: "tree_shape t" and own: "owned_but {} m S t" and x: "owns m t x" "x \<in> dom (nodes t)"
    and path: "(kid t)\<^sup>*\<^sup>* n x"
  shows "owns m t n"
  using path
proof (induction rule: converse_rtranclp_induct)
  case (step p c)
  then show ?case using demand_kid [OF shape step(1)] own link_dom(2) [OF step(1)] by (simp add: owned_but_def)
qed (use x in simp)

text \<open>The root is owned when the searcher manages a state.\<close>

lemma owned_root:
  assumes ok: "tree_ok t" and own: "owned_ok m S t"
  shows "IS_OUR_NODE_VALID m (pt_root t) \<longleftrightarrow> S \<noteq> {}" and "getInt (pt_root t) AND m \<noteq> 0 \<longleftrightarrow> S \<noteq> {}"
proof -
  have "IS_OUR_NODE_VALID m (pt_root t) = (S \<noteq> {}) \<and> (getInt (pt_root t) AND m \<noteq> 0) = (S \<noteq> {})"
  proof (cases "nodes t = Map.empty")
    case True
    then have "live t = {}" by (simp add: live_def st_def)
    then show ?thesis using True own by (simp add: owned_ok_def IS_OUR_NODE_VALID_def)
  next
    case False
    then have shape: "tree_shape t" using ok by (simp add: tree_ok_def)
    obtain r where r: "getPointer (pt_root t) = Some r" "r \<in> dom (nodes t)" using tree_shape_root [OF shape] by blast
    have b: "owned_but {} m S t" using own by (simp add: owned_ok_def)
    have "owns m t r \<Longrightarrow> S \<noteq> {}"
      using walk_ok [OF shape b, of "\<lambda>_. True" "\<lambda>_. Some (0, ())" r "()"] r(2) by auto
    moreover have "owns m t r" if s: "s \<in> S" for s
    proof -
      obtain x where x: "st t x = Some s" using own s by (auto simp: owned_ok_def live_def)
      then have "owns m t x" "x \<in> dom (nodes t)" using b s link_dom(3) [OF x] by (auto simp: owned_but_def demand_def)
      then show ?thesis using owns_above [OF shape b] root_reaches [OF shape r(1)] by blast
    qed
    ultimately show ?thesis using r(1) tag_at_root [OF shape r(1)] by (auto simp: owns_def IS_OUR_NODE_VALID_def)
  qed
  then show "IS_OUR_NODE_VALID m (pt_root t) \<longleftrightarrow> S \<noteq> {}" "getInt (pt_root t) AND m \<noteq> 0 \<longleftrightarrow> S \<noteq> {}" by auto
qed

lemma rp_selectState_ok:
  assumes ok: "tree_ok t" and own: "owned_ok m S t" and S: "S \<noteq> {}" and g: "rng_ok g"
  shows "\<exists>s g'. rp_selectState m t g = Some (s, g') \<and> s \<in> S \<and> rng_ok g'"
proof -
  have "live t \<noteq> {}" using own S by (auto simp: owned_ok_def)
  then have shape: "tree_shape t" using ok by (auto simp: tree_ok_def live_def st_def)
  obtain r where r: "getPointer (pt_root t) = Some r" "r \<in> dom (nodes t)" using tree_shape_root [OF shape] by blast
  have "owns m t r" "getInt (pt_root t) AND m \<noteq> 0"
    using owned_root(2) [OF ok own] S tag_at_root [OF shape r(1)] by (auto simp: owns_def)
  then show ?thesis
    using walk_ok [of t m S rng_ok getInt32 r g 0 0] getInt32_ok shape own r g
    by (auto simp: rp_selectState_def rp_select_def owned_ok_def)
qed

text \<open>
  Every managed state is the result of the walk for some draws. The draws are a list here, and the
  random bits left over only matter up to the number of them that is left.
\<close>

fun next_draw :: "u32 list \<Rightarrow> (u32 \<times> u32 list) option" where
  "next_draw [] = None"
| "next_draw (y # ys) = Some (y, ys)"

lemma with_bit:
  assumes "k < 32"
  shows "\<exists>y :: u32. take_bit k y = take_bit k f \<and> bit y k = b"
  by (intro exI [of _ "if b then set_bit k f else unset_bit k f"] conjI bit_word_eqI)
     (use assms in \<open>auto simp: bit_simps\<close>)

lemma walk_reaches:
  assumes shape: "tree_shape t" and own: "owned_but {} m S t" and x: "st t x = Some s" "s \<in> S"
    and path: "(kid t)\<^sup>*\<^sup>* n x" and "bits \<le> 32"
  shows "\<exists>f ds. \<forall>f' :: u32. take_bit bits f' = take_bit bits f \<longrightarrow> rp_walk next_draw m t n f' bits ds = Some (s, [])"
  using path \<open>bits \<le> 32\<close>
proof (induction arbitrary: bits rule: converse_rtranclp_induct)
  case base
  then show ?case using walk_leaf [OF x(1), of next_draw m _ bits "[]"] by (intro exI [of _ 0] exI [of _ "[]"]) simp
next
  case (step n c)
  have ownx: "owns m t x" "x \<in> dom (nodes t)" using own x link_dom(3) [OF x(1)] by (auto simp: owned_but_def demand_def)
  have ownc: "owns m t c" and ownn: "owns m t n"
    using owns_above [OF shape own ownx] step.hyps by (auto intro: converse_rtranclp_into_rtranclp)
  have stn: "st t n = None" using tree_shapeD(6) [OF shape] step.hyps(1) by (metis not_None_eq)
  show ?case using shape own link_dom(2) [OF step.hyps(1)] ownn stn
  proof (cases rule: owned_kids)
    case (one c')
    then have "c' = c" using step.hyps(1) ownc by blast
    moreover have "rp_walk next_draw m t n f bits g = rp_walk next_draw m t c' f bits g" for f g
      using one(3) by (rule walk_one [OF shape stn one(1,2)])
    ultimately show ?thesis using step.IH [OF step.prems] by simp
  next
    case (two l r)
    define k where "k = (if bits = 0 then 31 else bits - 1)"
    have k: "k < 32" "k \<le> 32" using step.prems by (auto simp: k_def)
    obtain f ds where f: "\<And>f'. take_bit k f' = take_bit k f \<Longrightarrow> rp_walk next_draw m t c f' k ds = Some (s, [])"
      using step.IH [OF k(2)] by blast
    obtain y :: u32 where y: "take_bit k y = take_bit k f" "bit y k = (lc t n = Some c)" using with_bit [OF k(1)] by blast
    have c: "c = (if bit y k then l else r)" using y(2) two step.hyps(1) by (auto simp: kid_def)
    show ?thesis
    proof (cases "bits = 0")
      case True
      have "rp_walk next_draw m t n f' bits (y # ds) = Some (s, [])" for f'
        using walk_two [OF shape stn two, of next_draw f' bits "y # ds"] True f [OF y(1)] c by (simp add: k_def)
      then show ?thesis by blast
    next
      case False
      then have bits: "bits = Suc k" by (simp add: k_def)
      have "rp_walk next_draw m t n f' bits ds = Some (s, [])" if "take_bit bits f' = take_bit bits y" for f'
      proof -
        have "bit f' k = bit y k" "take_bit k f' = take_bit k f"
          using that y(1) bits by (metis bit_take_bit_iff lessI, metis le_SucI le_refl min.absorb1 take_bit_take_bit)
        then show ?thesis using walk_two [OF shape stn two, of next_draw f' bits ds] bits f c by simp
      qed
      then show ?thesis by blast
    qed
  qed
qed

lemma rp_select_reaches:
  assumes ok: "tree_ok t" and own: "owned_ok m S t" and s: "s \<in> S"
  shows "\<exists>ds. rp_select next_draw m t ds = Some (s, [])"
proof -
  obtain x where x: "st t x = Some s" using own s by (auto simp: owned_ok_def live_def)
  then have shape: "tree_shape t" using ok link_dom(3) [OF x] by (auto simp: tree_ok_def)
  obtain r where r: "getPointer (pt_root t) = Some r" "r \<in> dom (nodes t)" using tree_shape_root [OF shape] by blast
  have "getInt (pt_root t) AND m \<noteq> 0" using owned_root(2) [OF ok own] s by auto
  then show ?thesis
    using walk_reaches [OF shape _ x s root_reaches [OF shape r(1) link_dom(3) [OF x]], of m 0] own r(1)
    by (auto simp: rp_select_def owned_ok_def)
qed

subsection \<open>The executor\<close>

text \<open>
  The executor's sets of states around the process tree, and the masks of the random-path searchers
  it was started with. The addresses \<open>a\<close> and \<open>b\<close> of new nodes and the new state \<open>ns\<close> are what
  \<open>new\<close> returned.
\<close>

record pt_world =
  pw_tree :: ptree
  pw_ids :: "u8 list"
  pw_states :: "state_ptr set"
  pw_added :: "state_ptr list"
  pw_removed :: "state_ptr list"

fun register_searchers :: "nat \<Rightarrow> ptree \<Rightarrow> (u8 list \<times> ptree) option" where
  "register_searchers 0 t = Some ([], t)"
| "register_searchers (Suc k) t = do {
     (i, t1) \<leftarrow> getNextId t;
     (ids, t2) \<leftarrow> register_searchers k t1;
     Some (i # ids, t2) }"

definition pt_start :: "nat \<Rightarrow> node_ptr \<Rightarrow> state_ptr \<Rightarrow> pt_world option" where
  "pt_start k a s0 = do {
     (ids, t) \<leftarrow> register_searchers k (ptree_init a s0);
     t' \<leftarrow> foldM (\<lambda>m. rp_update m None [s0] []) ids t;
     Some \<lparr>pw_tree = t', pw_ids = ids, pw_states = {s0}, pw_added = [], pw_removed = []\<rparr> }"

text \<open>A fork: in \<open>Executor::fork\<close>, and in the loop of \<open>Executor::branch\<close> for a state it picks at random.\<close>

definition pt_fork :: "node_ptr \<Rightarrow> node_ptr \<Rightarrow> state_ptr \<Rightarrow> state_ptr \<Rightarrow> pt_world \<Rightarrow> pt_world option" where
  "pt_fork a b es ns w = do {
     t \<leftarrow> attach a b (ptreeNode (pw_tree w) es) ns es (pw_tree w);
     Some (w\<lparr>pw_tree := t, pw_added := pw_added w @ [ns]\<rparr>) }"

fun branch_loop ::
  "(node_ptr \<times> node_ptr \<times> state_ptr) list \<Rightarrow> state_ptr list \<Rightarrow> rng \<Rightarrow> pt_world \<Rightarrow>
   (state_ptr list \<times> rng \<times> pt_world) option" where
  "branch_loop [] result g w = Some (result, g, w)"
| "branch_loop ((a, b, ns) # news) result g w = do {
     (y, g') \<leftarrow> getInt32 g;
     w' \<leftarrow> pt_fork a b (result ! (unat y mod length result)) ns w;
     branch_loop news (result @ [ns]) g' w' }"

definition pt_terminate :: "bool \<Rightarrow> state_ptr \<Rightarrow> pt_world \<Rightarrow> pt_world option" where
  "pt_terminate compress s w =
     (if s \<in> set (pw_added w) then do {
        t \<leftarrow> ptree_remove compress (ptreeNode (pw_tree w) s) (pw_tree w);
        Some (w\<lparr>pw_tree := t, pw_added := remove1 s (pw_added w)\<rparr>) }
      else Some (w\<lparr>pw_removed := pw_removed w @ [s]\<rparr>))"

definition pt_drop :: "bool \<Rightarrow> state_ptr \<Rightarrow> state_ptr set \<times> ptree \<Rightarrow> (state_ptr set \<times> ptree) option" where
  "pt_drop compress es = (\<lambda>(S, t).
     if es \<in> S then map_option (Pair (S - {es})) (ptree_remove compress (ptreeNode t es) t) else None)"

definition pt_update :: "bool \<Rightarrow> state_ptr option \<Rightarrow> pt_world \<Rightarrow> pt_world option" where
  "pt_update compress current w = do {
     t1 \<leftarrow> foldM (\<lambda>m. rp_update m current (pw_added w) (pw_removed w)) (pw_ids w) (pw_tree w);
     (S, t2) \<leftarrow> foldM (pt_drop compress) (pw_removed w) (pw_states w \<union> set (pw_added w), t1);
     Some (w\<lparr>pw_tree := t2, pw_states := S, pw_added := [], pw_removed := []\<rparr>) }"

text \<open>What the executor may do: it forks and terminates states that are not already terminated.\<close>

definition may_fork :: "pt_world \<Rightarrow> node_ptr \<Rightarrow> node_ptr \<Rightarrow> state_ptr \<Rightarrow> state_ptr \<Rightarrow> bool" where
  "may_fork w a b es ns \<longleftrightarrow>
     es \<in> pw_states w \<union> set (pw_added w) - set (pw_removed w) \<and> ns \<notin> pw_states w \<union> set (pw_added w) \<and>
     nodes (pw_tree w) a = None \<and> nodes (pw_tree w) b = None \<and> a \<noteq> b"

definition may_terminate :: "pt_world \<Rightarrow> state_ptr \<Rightarrow> bool" where
  "may_terminate w s \<longleftrightarrow> s \<in> pw_states w \<union> set (pw_added w) - set (pw_removed w)"

inductive pt_reach :: "bool \<Rightarrow> nat \<Rightarrow> pt_world \<Rightarrow> bool" for compress k where
  start: "pt_start k a s0 = Some w \<Longrightarrow> pt_reach compress k w"
| fork: "pt_reach compress k w \<Longrightarrow> may_fork w a b es ns \<Longrightarrow> pt_fork a b es ns w = Some w' \<Longrightarrow> pt_reach compress k w'"
| terminate: "pt_reach compress k w \<Longrightarrow> may_terminate w s \<Longrightarrow> pt_terminate compress s w = Some w' \<Longrightarrow>
    pt_reach compress k w'"
| update: "pt_reach compress k w \<Longrightarrow> pt_update compress current w = Some w' \<Longrightarrow> pt_reach compress k w'"

definition masks_ok :: "u8 list \<Rightarrow> bool" where
  "masks_ok ids \<longleftrightarrow> 0 \<notin> set ids \<and> distinct ids \<and> (\<forall>m\<in>set ids. \<forall>m'\<in>set ids. m \<noteq> m' \<longrightarrow> m AND m' = 0)"

definition pt_inv :: "pt_world \<Rightarrow> bool" where
  "pt_inv w \<longleftrightarrow>
     tree_ok (pw_tree w) \<and> live (pw_tree w) = pw_states w \<union> set (pw_added w) \<and> masks_ok (pw_ids w) \<and>
     valid_update (pw_states w) (pw_added w) (pw_removed w) \<and> set (pw_removed w) \<subseteq> pw_states w \<and>
     (\<forall>m\<in>set (pw_ids w). owned_ok m (pw_states w) (pw_tree w))"

lemma rp_updates_ok:
  assumes "tree_ok t" "masks_ok ids" "\<forall>m\<in>set ids. owned_ok m S t"
    and "set added \<subseteq> live t" "set removed \<subseteq> S \<union> set added" "distinct removed"
  shows "\<exists>t'. foldM (\<lambda>m. rp_update m current added removed) ids t = Some t' \<and> tree_ok t' \<and> live t' = live t \<and>
           (\<forall>m\<in>set ids. owned_ok m (S \<union> set added - set removed) t') \<and>
           (\<forall>m R. (\<forall>m'\<in>set ids. m AND m' = 0) \<longrightarrow> owned_ok m R t \<longrightarrow> owned_ok m R t')"
  using assms(1-4)
proof (induction ids arbitrary: t)
  case (Cons m ids)
  have m: "m \<noteq> 0" "masks_ok ids" "\<forall>m'\<in>set ids. m' AND m = 0 \<and> m AND m' = 0"
    using Cons.prems(2) by (auto simp: masks_ok_def)
  obtain t1 where t1: "rp_update m current added removed t = Some t1" "tree_ok t1" "retagged m t t1"
      "owned_ok m (S \<union> set added - set removed) t1"
    using rp_update_ok [OF Cons.prems(1) _ m(1) Cons.prems(4) assms(5,6)] Cons.prems(3) by auto
  note other = retagged_owned_ok [OF Cons.prems(1) t1(3)] and live1 = retagged_live [OF t1(3)]
  obtain t2 where t2: "foldM (\<lambda>m. rp_update m current added removed) ids t1 = Some t2" "tree_ok t2" "live t2 = live t1"
      "\<forall>m\<in>set ids. owned_ok m (S \<union> set added - set removed) t2"
      "\<forall>m R. (\<forall>m'\<in>set ids. m AND m' = 0) \<longrightarrow> owned_ok m R t1 \<longrightarrow> owned_ok m R t2"
    using Cons.IH [OF t1(2) m(2)] Cons.prems(3,4) other m(3) live1 by (metis list.set_intros(2))
  then show ?case using t1(1,4) m(3) other live1 by auto
qed auto

lemma register_searchers_eq:
  "registeredIds t + k \<le> 3 \<Longrightarrow> register_searchers k t =
     Some (map (\<lambda>i. push_bit (registeredIds t + i) 1) [0..<k], t\<lparr>registeredIds := registeredIds t + k\<rparr>)"
proof (induction k arbitrary: t)
  case (Suc k)
  have "[0..<Suc k] = 0 # map Suc [0..<k]" by (simp add: map_Suc_upt upt_conv_Cons del: upt_Suc)
  then show ?case using Suc.prems Suc.IH [of "t\<lparr>registeredIds := Suc (registeredIds t)\<rparr>"]
    by (simp add: getNextId_def PtrBitCount_def Let_def del: upt_Suc)
qed simp

lemma register_too_many: "registeredIds t \<le> 3 \<Longrightarrow> 3 < registeredIds t + k \<Longrightarrow> register_searchers k t = None"
proof (induction k arbitrary: t)
  case (Suc k)
  then show ?case
    using Suc.IH [of "t\<lparr>registeredIds := Suc (registeredIds t)\<rparr>"] by (simp add: getNextId_def PtrBitCount_def Let_def)
qed simp

lemma masks_ok_ids:
  assumes "k \<le> 3"
  shows "masks_ok (map (\<lambda>i. push_bit i 1) [0..<k])"
proof -
  have bit: "bit (push_bit i (1 :: u8)) j \<longleftrightarrow> i = j" if "i < 3" for i j
    using that by (auto simp: bit_push_bit_iff bit_1_iff simp del: push_bit_of_1)
  have "0 \<notin> set (map (\<lambda>i. push_bit i (1 :: u8)) [0..<k])"
  proof
    assume "0 \<in> set (map (\<lambda>i. push_bit i (1 :: u8)) [0..<k])"
    then obtain i where "i < k" "push_bit i (1 :: u8) = 0" by (auto simp del: push_bit_of_1)
    then have "i < 3" "push_bit i (1 :: u8) = 0" using assms by (simp_all del: push_bit_of_1)
    then show False using bit [of i i] by simp
  qed
  moreover have "m AND m' = 0" if mm: "m \<in> set (map (\<lambda>i. push_bit i 1) [0..<k])" "m' \<in> set (map (\<lambda>i. push_bit i 1) [0..<k])"
      "m \<noteq> m'" for m m' :: u8
  proof -
    obtain i j where "i < k" "j < k" and m: "m = push_bit i 1" "m' = push_bit j 1"
      using mm(1,2) by (auto simp del: push_bit_of_1)
    then have ij: "i < 3" "j < 3" "i \<noteq> j" using assms mm(3) by auto
    show ?thesis unfolding m(1,2)
      by (intro bit_word_eqI) (use ij(3) in \<open>auto simp: bit_and_iff bit [OF ij(1)] bit [OF ij(2)] simp del: push_bit_of_1\<close>)
  qed
  moreover have "inj_on (\<lambda>i. push_bit i (1 :: u8)) {0..<k}"
    using bit assms by (intro inj_onI) (metis atLeastLessThan_iff less_le_trans)
  ultimately show ?thesis unfolding masks_ok_def by (intro conjI ballI impI) (simp_all add: distinct_map del: push_bit_of_1)
qed

lemma ptree_init_ok:
  "tree_ok (ptree_init a s0)" "live (ptree_init a s0) = {s0}" "owned_ok m {} (ptree_init a s0)" "registeredIds (ptree_init a s0) = 0"
proof -
  have *: "nodes (ptree_init a s0) = [a \<mapsto> \<lparr>pn_parent = None, pn_left = null_ptr, pn_right = null_ptr, pn_state = Some s0\<rparr>]"
      "ptreeNode (ptree_init a s0) = [s0 \<mapsto> a]" "pt_root (ptree_init a s0) = to_node a 0"
    by (auto simp: ptree_init_def new_ptree_node_def)
  have links: "up (ptree_init a s0) = (\<lambda>_. None)" "lc (ptree_init a s0) = (\<lambda>_. None)" "rc (ptree_init a s0) = (\<lambda>_. None)"
      "st (ptree_init a s0) = [a \<mapsto> s0]" "kid (ptree_init a s0) = (\<lambda>_ _. False)"
    by (auto simp: up_def lc_def rc_def st_def kid_def * null_ptr_def fun_eq_iff)
  show "tree_ok (ptree_init a s0)" by (auto simp: tree_ok_def tree_shape_def leaves_ok_def links * to_node_def)
  show "live (ptree_init a s0) = {s0}" by (auto simp: live_def links)
  show "owned_ok m {} (ptree_init a s0)"
    by (auto simp: owned_ok_def owned_but_def owns_def demand_def tag_at_def links * to_node_def)
  show "registeredIds (ptree_init a s0) = 0" by (simp add: ptree_init_def new_ptree_node_def)
qed

lemma registered_frame:
  "tree_ok (t\<lparr>registeredIds := r\<rparr>) = tree_ok t" "live (t\<lparr>registeredIds := r\<rparr>) = live t"
  "owned_ok m S (t\<lparr>registeredIds := r\<rparr>) = owned_ok m S t"
proof -
  have links: "up (t\<lparr>registeredIds := r\<rparr>) = up t" "lc (t\<lparr>registeredIds := r\<rparr>) = lc t" "rc (t\<lparr>registeredIds := r\<rparr>) = rc t"
      "st (t\<lparr>registeredIds := r\<rparr>) = st t" "kid (t\<lparr>registeredIds := r\<rparr>) = kid t"
      "tag_at (t\<lparr>registeredIds := r\<rparr>) = tag_at t"
    by (auto simp: up_def lc_def rc_def st_def kid_def tag_at_def fun_eq_iff split: option.split)
  have "demand m S (t\<lparr>registeredIds := r\<rparr>) = demand m S t" "owns m (t\<lparr>registeredIds := r\<rparr>) = owns m t"
    by (auto simp: demand_def owns_def links fun_eq_iff split: option.split)
  then show "live (t\<lparr>registeredIds := r\<rparr>) = live t" "tree_ok (t\<lparr>registeredIds := r\<rparr>) = tree_ok t"
      "owned_ok m S (t\<lparr>registeredIds := r\<rparr>) = owned_ok m S t"
    by (simp_all add: tree_ok_def tree_shape_def leaves_ok_def owned_ok_def owned_but_def live_def links)
qed

lemma pt_start_ok:
  "k \<le> 3 \<Longrightarrow> \<exists>w. pt_start k a s0 = Some w \<and> pt_inv w \<and> length (pw_ids w) = k"
proof -
  assume k: "k \<le> 3"
  let ?t = "(ptree_init a s0)\<lparr>registeredIds := k\<rparr>" and ?ids = "map (\<lambda>i. push_bit i 1) [0..<k] :: u8 list"
  have "register_searchers k (ptree_init a s0) = Some (?ids, ?t)"
    using register_searchers_eq [of "ptree_init a s0" k] k ptree_init_ok(4) by simp
  moreover obtain t' where "foldM (\<lambda>m. rp_update m None [s0] []) ?ids ?t = Some t'" "tree_ok t'" "live t' = {s0}"
      "\<forall>m\<in>set ?ids. owned_ok m {s0} t'"
    using rp_updates_ok [of ?t ?ids "{}" "[s0]" "[]" None] masks_ok_ids [OF k] ptree_init_ok by (auto simp: registered_frame)
  ultimately show ?thesis using masks_ok_ids [OF k] by (auto simp: pt_start_def pt_inv_def valid_update_def)
qed

lemma pt_fork_ok:
  assumes inv: "pt_inv w" and may: "may_fork w a b es ns"
  shows "\<exists>w'. pt_fork a b es ns w = Some w' \<and> pt_inv w' \<and> pw_states w' = pw_states w \<and>
           pw_removed w' = pw_removed w \<and> pw_added w' = pw_added w @ [ns] \<and>
           dom (nodes (pw_tree w')) = insert a (insert b (dom (nodes (pw_tree w))))"
proof -
  let ?t = "pw_tree w"
  have ok: "tree_ok ?t" and es: "es \<in> live ?t" and ns: "ns \<notin> live ?t" "a \<notin> dom (nodes ?t)" "b \<notin> dom (nodes ?t)" "a \<noteq> b"
    using inv may by (auto simp: pt_inv_def may_fork_def)
  obtain n where n: "st ?t n = Some es" "ptreeNode ?t es = Some n" using state_node [OF ok es] by metis
  obtain t' where t': "attach a b (Some n) ns es ?t = Some t'" "tree_ok t'" "live t' = insert ns (live ?t)"
      "\<And>m S. owned_ok m S ?t \<Longrightarrow> owned_ok m S t'" "dom (nodes t') = insert a (insert b (dom (nodes ?t)))"
    using attach_ok [OF ok n(1) ns] by metis
  have "pt_inv (w\<lparr>pw_tree := t', pw_added := pw_added w @ [ns]\<rparr>)"
    using t'(2-4) inv may by (auto simp: pt_inv_def may_fork_def valid_update_def)
  then show ?thesis using t'(1,5) n(2) by (simp add: pt_fork_def)
qed

text \<open>The new states and addresses of a branch, and that \<open>branch\<close> returns with all of them.\<close>

fun all_fresh :: "node_ptr set \<Rightarrow> state_ptr set \<Rightarrow> (node_ptr \<times> node_ptr \<times> state_ptr) list \<Rightarrow> bool" where
  "all_fresh N S [] \<longleftrightarrow> True"
| "all_fresh N S ((a, b, ns) # news) \<longleftrightarrow>
     a \<notin> N \<and> b \<notin> N \<and> a \<noteq> b \<and> ns \<notin> S \<and> all_fresh (insert a (insert b N)) (insert ns S) news"

definition may_branch :: "pt_world \<Rightarrow> (node_ptr \<times> node_ptr \<times> state_ptr) list \<Rightarrow> bool" where
  "may_branch w news \<longleftrightarrow> all_fresh (dom (nodes (pw_tree w))) (pw_states w \<union> set (pw_added w)) news"

lemma branch_loop_ok:
  assumes "pt_inv w" "may_branch w news" "result \<noteq> []" "rng_ok g"
    and "set result \<subseteq> pw_states w \<union> set (pw_added w) - set (pw_removed w)"
  shows "\<exists>g' w'. branch_loop news result g w = Some (result @ map (\<lambda>(a, b, ns). ns) news, g', w') \<and> pt_inv w' \<and> rng_ok g' \<and>
           pw_added w' = pw_added w @ map (\<lambda>(a, b, ns). ns) news"
  using assms
proof (induction news arbitrary: result g w)
  case (Cons new news)
  obtain a b ns where new: "new = (a, b, ns)" by (cases new)
  obtain y g' where y: "getInt32 g = Some (y, g')" "rng_ok g'" using getInt32_ok [OF Cons.prems(4)] by blast
  let ?es = "result ! (unat y mod length result)"
  have "?es \<in> set result" using Cons.prems(3) by simp
  then have may: "may_fork w a b ?es ns" using Cons.prems(2,5) new by (auto simp: may_fork_def may_branch_def)
  obtain w' where w': "pt_fork a b ?es ns w = Some w'" "pt_inv w'" "pw_states w' = pw_states w" "pw_removed w' = pw_removed w"
      "pw_added w' = pw_added w @ [ns]" "dom (nodes (pw_tree w')) = insert a (insert b (dom (nodes (pw_tree w))))"
    using pt_fork_ok [OF Cons.prems(1) may] by blast
  have b': "may_branch w' news" using Cons.prems(2) new w'(3,5,6) by (simp add: may_branch_def)
  have "ns \<notin> set (pw_removed w)" using Cons.prems(1,2) new by (auto simp: pt_inv_def may_branch_def)
  then have r': "set (result @ [ns]) \<subseteq> pw_states w' \<union> set (pw_added w') - set (pw_removed w')"
    using Cons.prems(5) w'(3-5) by auto
  show ?case using Cons.IH [OF w'(2) b' _ y(2) r'] y(1) w'(1,5) new by auto
qed auto

lemma pt_remove_ok:
  assumes ok: "tree_ok t" and s: "s \<in> live t"
  obtains t' where "ptree_remove compress (ptreeNode t s) t = Some t'" "tree_ok t'" "live t' = live t - {s}"
    "\<And>m S. owned_ok m S t \<Longrightarrow> s \<notin> S \<Longrightarrow> owned_ok m S t'"
proof -
  obtain n where n: "st t n = Some s" "ptreeNode t s = Some n" using state_node [OF ok s] by metis
  show thesis using ptree_remove_ok [OF ok n(1)] that n(2) by metis
qed

lemma pt_terminate_ok:
  assumes inv: "pt_inv w" and may: "may_terminate w s"
  shows "\<exists>w'. pt_terminate compress s w = Some w' \<and> pt_inv w'"
proof (cases "s \<in> set (pw_added w)")
  case True
  then have s: "s \<in> live (pw_tree w)" "s \<notin> pw_states w" and ok: "tree_ok (pw_tree w)"
    using inv by (auto simp: pt_inv_def valid_update_def)
  obtain t' where "ptree_remove compress (ptreeNode (pw_tree w) s) (pw_tree w) = Some t'" "tree_ok t'"
      "live t' = live (pw_tree w) - {s}" "\<And>m S. owned_ok m S (pw_tree w) \<Longrightarrow> s \<notin> S \<Longrightarrow> owned_ok m S t'"
    using pt_remove_ok [OF ok s(1)] by metis
  then show ?thesis using True inv s(2) by (auto simp: pt_terminate_def pt_inv_def valid_update_def)
next
  case False
  then show ?thesis using inv may by (auto simp: pt_terminate_def pt_inv_def valid_update_def may_terminate_def)
qed

lemma pt_drops_ok:
  assumes "tree_ok t" "live t = S" "set removed \<subseteq> S" "distinct removed" "\<forall>m\<in>M. owned_ok m (S - set removed) t"
  shows "\<exists>t'. foldM (pt_drop compress) removed (S, t) = Some (S - set removed, t') \<and> tree_ok t' \<and> live t' = S - set removed \<and>
           (\<forall>m\<in>M. owned_ok m (S - set removed) t')"
  using assms
proof (induction removed arbitrary: S t)
  case (Cons s removed)
  have s: "s \<in> live t" using Cons.prems by simp
  obtain t1 where t1: "ptree_remove compress (ptreeNode t s) t = Some t1" "tree_ok t1" "live t1 = live t - {s}"
      "\<And>m S. owned_ok m S t \<Longrightarrow> s \<notin> S \<Longrightarrow> owned_ok m S t1"
    using pt_remove_ok [OF Cons.prems(1) s] by metis
  have eq: "S - set (s # removed) = S - {s} - set removed" by auto
  have "\<forall>m\<in>M. owned_ok m (S - {s} - set removed) t1" using Cons.prems(5) t1(4) eq by auto
  then show ?case
    using Cons.IH [OF t1(2), of "S - {s}"] t1(1,3) Cons.prems(2-4) s unfolding eq by (auto simp: pt_drop_def)
qed auto

lemma pt_update_ok:
  assumes inv: "pt_inv w"
  shows "\<exists>w'. pt_update compress current w = Some w' \<and> pt_inv w'"
proof -
  let ?S = "pw_states w \<union> set (pw_added w)"
  have w: "tree_ok (pw_tree w)" "live (pw_tree w) = ?S" "masks_ok (pw_ids w)" "set (pw_removed w) \<subseteq> ?S" "distinct (pw_removed w)"
      "\<forall>m\<in>set (pw_ids w). owned_ok m (pw_states w) (pw_tree w)"
    using inv by (auto simp: pt_inv_def valid_update_def)
  obtain t1 where t1: "foldM (\<lambda>m. rp_update m current (pw_added w) (pw_removed w)) (pw_ids w) (pw_tree w) = Some t1"
      "tree_ok t1" "live t1 = ?S" "\<forall>m\<in>set (pw_ids w). owned_ok m (?S - set (pw_removed w)) t1"
    using rp_updates_ok [OF w(1,3,6) _ w(4,5), of current] w(2) by auto
  obtain t2 where "foldM (pt_drop compress) (pw_removed w) (?S, t1) = Some (?S - set (pw_removed w), t2)" "tree_ok t2"
      "live t2 = ?S - set (pw_removed w)" "\<forall>m\<in>set (pw_ids w). owned_ok m (?S - set (pw_removed w)) t2"
    using pt_drops_ok [OF t1(2,3) w(4,5) t1(4)] by blast
  then show ?thesis using t1(1) w(3) by (auto simp: pt_update_def pt_inv_def valid_update_def)
qed

lemma pt_reach_inv: "pt_reach compress k w \<Longrightarrow> pt_inv w"
proof (induction rule: pt_reach.induct)
  case (start a s0 w)
  show ?case
  proof (cases "k \<le> 3")
    case True
    then show ?thesis using pt_start_ok [OF True, of a s0] start by auto
  next
    case False
    then show ?thesis using register_too_many [of "ptree_init a s0" k] start by (simp add: pt_start_def ptree_init_ok)
  qed
next
  case (fork w a b es ns w')
  then show ?case using pt_fork_ok [of w a b es ns] by auto
next
  case (terminate w s w')
  then show ?case using pt_terminate_ok [of w s compress] by auto
next
  case (update w current w')
  then show ?case using pt_update_ok [of w compress current] by auto
qed

subsection \<open>An executor with two searchers and one fork\<close>

definition sample_start :: pt_world where
  "sample_start = the (pt_start 2 0 7)"

definition sample_fork :: pt_world where
  "sample_fork = the (pt_fork 1 2 7 8 sample_start)"

definition sample_world :: pt_world where
  "sample_world = the (pt_update False (Some 7) sample_fork)"

lemma sample_reach: "pt_reach False 2 sample_world"
proof -
  have "pt_start 2 0 7 \<noteq> None" by code_simp
  then have "pt_start 2 0 7 = Some sample_start" by (simp add: sample_start_def)
  then have start: "pt_reach False 2 sample_start" by (rule pt_reach.start)
  have "pt_fork 1 2 7 8 sample_start \<noteq> None" by code_simp
  then have fork: "pt_fork 1 2 7 8 sample_start = Some sample_fork" by (simp add: sample_fork_def)
  have may: "may_fork sample_start 1 2 7 8" by code_simp
  have "pt_update False (Some 7) sample_fork \<noteq> None" by code_simp
  then have upd: "pt_update False (Some 7) sample_fork = Some sample_world" by (simp add: sample_world_def)
  show ?thesis by (rule pt_reach.update [OF pt_reach.fork [OF start may fork] upd])
qed

subsection \<open>The properties\<close>

text \<open>
  C11. With at most three random-path searchers (a fourth is refused), from the start of the executor
  on and with or without compression of the tree: forks, branches, terminations and updates of the
  states always return, so no assertion of the process tree or of a searcher fails and no null
  pointer is followed; the leaves of the tree are the states of the executor; and a searcher is
  empty only when there are no states.
\<close>

theorem process_tree_never_stuck:
  assumes "pt_reach compress k w"
  shows "k \<le> 3 \<and>
    (may_fork w a b es ns \<longrightarrow> pt_fork a b es ns w \<noteq> None) \<and>
    (may_branch w news \<and> es \<in> pw_states w - set (pw_removed w) \<and> rng_ok g \<longrightarrow> branch_loop news [es] g w \<noteq> None) \<and>
    (may_terminate w s \<longrightarrow> pt_terminate compress s w \<noteq> None) \<and>
    pt_update compress current w \<noteq> None \<and>
    live (pw_tree w) = pw_states w \<union> set (pw_added w) \<and>
    (\<forall>m\<in>set (pw_ids w). rp_empty m (pw_tree w) \<longleftrightarrow> pw_states w = {})"
proof -
  have inv: "pt_inv w" using pt_reach_inv [OF assms] .
  have k: "k \<le> 3" using assms
  proof (induction rule: pt_reach.induct)
    case (start a s0 w)
    then show ?case using register_too_many [of "ptree_init a s0" k] by (fastforce simp: pt_start_def ptree_init_ok)
  qed auto
  have "rp_empty m (pw_tree w) \<longleftrightarrow> pw_states w = {}" if "m \<in> set (pw_ids w)" for m
    using owned_root(1) [of "pw_tree w" m "pw_states w"] inv that by (auto simp: pt_inv_def rp_empty_def)
  then show ?thesis
    using k inv pt_fork_ok [OF inv, of a b es ns] pt_terminate_ok [OF inv, of s compress] pt_update_ok [OF inv, of compress current]
      branch_loop_ok [OF inv, of news "[es]" g] by (auto simp: pt_inv_def)
qed

theorem process_tree_never_stuck_witness:
  "pt_reach False 2 sample_world \<and> may_fork sample_world 3 4 8 9 \<and> pt_fork 3 4 8 9 sample_world \<noteq> None \<and>
   may_branch sample_world [(3, 4, 9), (5, 6, 10)] \<and> branch_loop [(3, 4, 9), (5, 6, 10)] [8] (rng_seed 5489) sample_world \<noteq> None \<and>
   may_terminate sample_world 7 \<and> pt_terminate False 7 sample_world \<noteq> None \<and> pt_update False None sample_world \<noteq> None"
proof -
  have *: "may_fork sample_world 3 4 8 9" "may_terminate sample_world 7" "8 \<in> pw_states sample_world - set (pw_removed sample_world)"
    by code_simp+
  have nodes: "nodes (pw_tree sample_world) 3 = None" "nodes (pw_tree sample_world) 4 = None" "nodes (pw_tree sample_world) 5 = None"
      "nodes (pw_tree sample_world) 6 = None" "9 \<notin> pw_states sample_world \<union> set (pw_added sample_world)"
      "10 \<notin> pw_states sample_world \<union> set (pw_added sample_world)"
    by code_simp+
  then have b: "may_branch sample_world [(3, 4, 9), (5, 6, 10)]" by (simp add: may_branch_def domIff)
  show ?thesis
    using process_tree_never_stuck [OF sample_reach, of 3 4 8 9 "[(3, 4, 9), (5, 6, 10)]" "rng_seed 5489" 7 None]
      sample_reach * b rng_ok_seed by blast
qed

text \<open>
  C12. In every reachable state of the executor every random-path searcher selects: the walk ends
  and returns a state of the executor, whatever the random numbers are; and every state of the
  executor is selected for some random numbers.
\<close>

theorem random_path_selects:
  assumes "pt_reach compress k w" and "m \<in> set (pw_ids w)" and "s \<in> pw_states w" and "rng_ok g"
  shows "(\<exists>s' g'. rp_selectState m (pw_tree w) g = Some (s', g') \<and> s' \<in> pw_states w \<and> rng_ok g') \<and>
         (\<exists>ds. rp_select next_draw m (pw_tree w) ds = Some (s, []))"
proof -
  have "tree_ok (pw_tree w)" "owned_ok m (pw_states w) (pw_tree w)"
    using pt_reach_inv [OF assms(1)] assms(2) by (auto simp: pt_inv_def)
  then show ?thesis using rp_selectState_ok [of _ m _ g] rp_select_reaches [of _ m _ s] assms(3,4) by blast
qed

theorem random_path_selects_witness:
  "pt_reach False 2 sample_world \<and> 1 \<in> set (pw_ids sample_world) \<and> 8 \<in> pw_states sample_world \<and>
   (\<exists>s' g'. rp_selectState 1 (pw_tree sample_world) (rng_seed 5489) = Some (s', g') \<and> s' \<in> pw_states sample_world) \<and>
   (\<exists>ds. rp_select next_draw 1 (pw_tree sample_world) ds = Some (8, []))"
proof -
  have "1 \<in> set (pw_ids sample_world)" "8 \<in> pw_states sample_world" by code_simp+
  then show ?thesis using random_path_selects [OF sample_reach _ _ rng_ok_seed, of 1 8 5489] sample_reach by blast
qed

end
