(* ===== verification/Bits_Arith.thy ===== *)
theory Bits_Arith
  imports RNG "HOL-Library.Signed_Division"
begin

unbundle bit_operations_syntax

section \<open>Bit tricks and arithmetic on narrow integers\<close>

text \<open>
  \<open>klee/include/klee/ADT/Bits.h\<close> (namespace \<open>bits64\<close>, and \<open>bits32\<close> where it differs) and
  \<open>klee/include/klee/Support/IntEvaluation.h\<close> (namespace \<open>ints\<close>): integers of a width of at most 64 bits
  kept in a \<open>uint64_t\<close> whose upper bits are 0. \<open>None\<close> is a failed assertion or undefined behaviour of C++
  (a shift by 64 or more, a division by zero, \<open>INT64_MIN / -1\<close>). Shown: every operation computes the
  operation of its width.
\<close>

subsection \<open>Bits.h\<close>

definition maxValueOfNBits :: "nat \<Rightarrow> u64 option" where
  "maxValueOfNBits N = (if N \<le> 64 then Some (if N = 0 then 0 else drop_bit (64 - N) (- 1)) else None)"

definition truncateToNBits :: "u64 \<Rightarrow> nat \<Rightarrow> u64 option" where
  "truncateToNBits x N = (if 0 < N \<and> N \<le> 64 then Some (x AND drop_bit (64 - N) (- 1)) else None)"

definition withoutRightmostBit :: "u64 \<Rightarrow> u64" where
  "withoutRightmostBit x = x AND (x - 1)"

definition isolateRightmostBit :: "u64 \<Rightarrow> u64" where
  "isolateRightmostBit x = x AND - x"

definition isPowerOfTwo :: "u64 \<Rightarrow> bool" where
  "isPowerOfTwo x = (if x = 0 then False else x AND (x - 1) = 0)"

definition indexOfSingleBit32 :: "u32 \<Rightarrow> nat option" where
  "indexOfSingleBit32 x =
     (if x AND (x - 1) \<noteq> 0 then None
      else
        (let res = (if x AND 0xFFFF0000 \<noteq> 0 then 16 else 0) + (if x AND 0xFF00FF00 \<noteq> 0 then 8 else 0) +
                   (if x AND 0xF0F0F0F0 \<noteq> 0 then 4 else 0) + (if x AND 0xCCCCCCCC \<noteq> 0 then 2 else 0) +
                   (if x AND 0xAAAAAAAA \<noteq> 0 then 1 else 0)
         in if res < 32 \<and> push_bit res 1 = x then Some res else None))"

definition indexOfSingleBit :: "u64 \<Rightarrow> nat option" where
  "indexOfSingleBit x =
     (if x AND (x - 1) \<noteq> 0 then None
      else case indexOfSingleBit32 (ucast (x OR drop_bit 32 x)) of
        None \<Rightarrow> None
      | Some r \<Rightarrow>
          (let res = (if x AND push_bit 32 0xFFFFFFFF \<noteq> 0 then r + 32 else r)
           in if res < 64 \<and> push_bit res 1 = x then Some res else None))"

definition indexOfRightmostBit :: "u64 \<Rightarrow> nat option" where
  "indexOfRightmostBit x = indexOfSingleBit (isolateRightmostBit x)"

subsection \<open>IntEvaluation.h\<close>

definition ints_add :: "u64 \<Rightarrow> u64 \<Rightarrow> nat \<Rightarrow> u64 option" where
  "ints_add l r w = truncateToNBits (l + r) w"

definition ints_sub :: "u64 \<Rightarrow> u64 \<Rightarrow> nat \<Rightarrow> u64 option" where
  "ints_sub l r w = truncateToNBits (l - r) w"

definition ints_mul :: "u64 \<Rightarrow> u64 \<Rightarrow> nat \<Rightarrow> u64 option" where
  "ints_mul l r w = truncateToNBits (l * r) w"

definition ints_trunc :: "u64 \<Rightarrow> nat \<Rightarrow> nat \<Rightarrow> u64 option" where
  "ints_trunc l outWidth inWidth = truncateToNBits l outWidth"

definition ints_zext :: "u64 \<Rightarrow> nat \<Rightarrow> nat \<Rightarrow> u64 option" where
  "ints_zext l outWidth inWidth = Some l"

definition ints_sext :: "u64 \<Rightarrow> nat \<Rightarrow> nat \<Rightarrow> u64 option" where
  "ints_sext l outWidth inWidth =
     (if 0 < inWidth \<and> inWidth \<le> 64
      then truncateToNBits (signed_drop_bit (64 - inWidth) (push_bit (64 - inWidth) l)) outWidth else None)"

definition ints_udiv :: "u64 \<Rightarrow> u64 \<Rightarrow> nat \<Rightarrow> u64 option" where
  "ints_udiv l r w = (if r = 0 then None else truncateToNBits (l div r) w)"

definition ints_urem :: "u64 \<Rightarrow> u64 \<Rightarrow> nat \<Rightarrow> u64 option" where
  "ints_urem l r w = (if r = 0 then None else truncateToNBits (l mod r) w)"

text \<open>\<open>int64_t\<close> operands: what both signed operations check.\<close>

definition signed_pair :: "u64 \<Rightarrow> u64 \<Rightarrow> nat \<Rightarrow> (int \<times> int) option" where
  "signed_pair l r w =
     (case (ints_sext l 64 w, ints_sext r 64 w) of
        (Some sl, Some sr) \<Rightarrow> Some (sint sl, sint sr)
      | _ \<Rightarrow> None)"

definition signed_divides :: "int \<Rightarrow> int \<Rightarrow> bool" where
  "signed_divides a b \<longleftrightarrow> b \<noteq> 0 \<and> \<not> (a = - (2 ^ 63) \<and> b = - 1)"

definition ints_sdiv :: "u64 \<Rightarrow> u64 \<Rightarrow> nat \<Rightarrow> u64 option" where
  "ints_sdiv l r w =
     (case signed_pair l r w of
        None \<Rightarrow> None
      | Some (a, b) \<Rightarrow> if signed_divides a b then truncateToNBits (of_int (a sdiv b)) w else None)"

definition ints_srem :: "u64 \<Rightarrow> u64 \<Rightarrow> nat \<Rightarrow> u64 option" where
  "ints_srem l r w =
     (case signed_pair l r w of
        None \<Rightarrow> None
      | Some (a, b) \<Rightarrow> if signed_divides a b then truncateToNBits (of_int (a smod b)) w else None)"

definition ints_ashr :: "u64 \<Rightarrow> u64 \<Rightarrow> nat \<Rightarrow> u64 option" where
  "ints_ashr l shift w =
     (case ints_sext l 64 w of
        None \<Rightarrow> None
      | Some sl \<Rightarrow> if unat shift < 64 then truncateToNBits (signed_drop_bit (unat shift) sl) w else None)"

definition ints_lshr :: "u64 \<Rightarrow> u64 \<Rightarrow> nat \<Rightarrow> u64 option" where
  "ints_lshr l shift w = (if unat shift < 64 then Some (drop_bit (unat shift) l) else None)"

definition ints_shl :: "u64 \<Rightarrow> u64 \<Rightarrow> nat \<Rightarrow> u64 option" where
  "ints_shl l shift w = (if unat shift < 64 then truncateToNBits (push_bit (unat shift) l) w else None)"

definition ints_land :: "u64 \<Rightarrow> u64 \<Rightarrow> nat \<Rightarrow> u64" where "ints_land l r w = l AND r"
definition ints_lor :: "u64 \<Rightarrow> u64 \<Rightarrow> nat \<Rightarrow> u64" where "ints_lor l r w = l OR r"
definition ints_lxor :: "u64 \<Rightarrow> u64 \<Rightarrow> nat \<Rightarrow> u64" where "ints_lxor l r w = l XOR r"

definition ints_eq :: "u64 \<Rightarrow> u64 \<Rightarrow> nat \<Rightarrow> u64" where "ints_eq l r w = of_bool (l = r)"
definition ints_ne :: "u64 \<Rightarrow> u64 \<Rightarrow> nat \<Rightarrow> u64" where "ints_ne l r w = of_bool (l \<noteq> r)"
definition ints_ult :: "u64 \<Rightarrow> u64 \<Rightarrow> nat \<Rightarrow> u64" where "ints_ult l r w = of_bool (l < r)"
definition ints_ule :: "u64 \<Rightarrow> u64 \<Rightarrow> nat \<Rightarrow> u64" where "ints_ule l r w = of_bool (l \<le> r)"
definition ints_ugt :: "u64 \<Rightarrow> u64 \<Rightarrow> nat \<Rightarrow> u64" where "ints_ugt l r w = of_bool (l > r)"
definition ints_uge :: "u64 \<Rightarrow> u64 \<Rightarrow> nat \<Rightarrow> u64" where "ints_uge l r w = of_bool (l \<ge> r)"

definition ints_slt :: "u64 \<Rightarrow> u64 \<Rightarrow> nat \<Rightarrow> u64 option" where
  "ints_slt l r w = map_option (\<lambda>(a, b). of_bool (a < b)) (signed_pair l r w)"
definition ints_sle :: "u64 \<Rightarrow> u64 \<Rightarrow> nat \<Rightarrow> u64 option" where
  "ints_sle l r w = map_option (\<lambda>(a, b). of_bool (a \<le> b)) (signed_pair l r w)"
definition ints_sgt :: "u64 \<Rightarrow> u64 \<Rightarrow> nat \<Rightarrow> u64 option" where
  "ints_sgt l r w = map_option (\<lambda>(a, b). of_bool (a > b)) (signed_pair l r w)"
definition ints_sge :: "u64 \<Rightarrow> u64 \<Rightarrow> nat \<Rightarrow> u64 option" where
  "ints_sge l r w = map_option (\<lambda>(a, b). of_bool (a \<ge> b)) (signed_pair l r w)"

subsection \<open>The rightmost bit\<close>

text \<open>A non-zero word splits at its rightmost bit.\<close>

lemma lowest_bit:
  fixes x :: u64
  assumes "x \<noteq> 0"
  obtains i k where "i < 64" "x = push_bit i 1 OR push_bit (Suc i) k" "\<And>n. n < i \<Longrightarrow> \<not> bit x n"
proof -
  have ex: "\<exists>i. bit x i" using assms by (auto simp: bit_eq_iff)
  define i where "i = (LEAST i. bit x i)"
  have i: "bit x i" unfolding i_def using ex by (rule LeastI_ex)
  have low: "\<not> bit x n" if "n < i" for n using not_less_Least [of n "bit x"] that by (simp add: i_def)
  have "i < 64" using bit_imp_le_length [OF i] by simp
  moreover have "x = push_bit i 1 OR push_bit (Suc i) (drop_bit (Suc i) x)"
  proof (rule bit_word_eqI)
    fix n :: nat
    assume "n < LENGTH(64)"
    then show "bit x n = bit (push_bit i 1 OR push_bit (Suc i) (drop_bit (Suc i) x)) n"
      using i low [of n] by (cases n i rule: linorder_cases) (auto simp: bit_simps simp del: push_bit_Suc)
  qed
  ultimately show thesis using low that by blast
qed

lemma decrement_lowest:
  fixes k :: u64
  assumes "i < 64"
  shows "(push_bit i 1 OR push_bit (Suc i) k) - 1 = mask i OR push_bit (Suc i) k"
proof -
  have "push_bit i 1 OR push_bit (Suc i) k = push_bit i 1 + push_bit (Suc i) k"
    by (rule disjunctive_add_eq_or [symmetric]) (rule bit_word_eqI, auto simp: bit_simps simp del: push_bit_Suc)
  moreover have "mask i OR push_bit (Suc i) k = mask i + push_bit (Suc i) k"
    by (rule disjunctive_add_eq_or [symmetric]) (rule bit_word_eqI, auto simp: bit_simps simp del: push_bit_Suc)
  ultimately show ?thesis by (simp add: mask_eq_exp_minus_1 push_bit_eq_mult)
qed

lemma isolate_lowest:
  fixes k :: u64
  assumes "i < 64"
  shows "isolateRightmostBit (push_bit i 1 OR push_bit (Suc i) k) = push_bit i 1"
    "withoutRightmostBit (push_bit i 1 OR push_bit (Suc i) k) = push_bit (Suc i) k"
proof -
  let ?x = "push_bit i 1 OR push_bit (Suc i) k"
  have "- ?x = NOT (mask i OR push_bit (Suc i) k)"
    using decrement_lowest [OF assms] by (simp add: minus_eq_not_minus_1)
  then show "isolateRightmostBit ?x = push_bit i 1"
    unfolding isolateRightmostBit_def by (intro bit_word_eqI) (use assms in \<open>auto simp: bit_simps simp del: push_bit_Suc\<close>)
  show "withoutRightmostBit ?x = push_bit (Suc i) k"
    unfolding withoutRightmostBit_def decrement_lowest [OF assms] by (intro bit_word_eqI) (auto simp: bit_simps simp del: push_bit_Suc)
qed

lemma exp_and:
  fixes m :: "'a::len word"
  assumes "i < LENGTH('a)"
  shows "push_bit i 1 AND m \<noteq> 0 \<longleftrightarrow> bit m i"
proof
  assume "push_bit i 1 AND m \<noteq> 0"
  moreover have "push_bit i 1 AND m = 0" if "\<not> bit m i" using that by (intro bit_word_eqI) (auto simp: bit_simps)
  ultimately show "bit m i" by blast
next
  assume "bit m i"
  then have "bit (push_bit i 1 AND m) i" using assms by (simp add: bit_simps)
  then show "push_bit i 1 AND m \<noteq> 0" by auto
qed

lemma single_bit: "i < LENGTH('a) \<Longrightarrow> push_bit i 1 AND (push_bit i 1 - 1 :: 'a::len word) = 0"
proof -
  have "push_bit i 1 - 1 = (mask i :: 'a word)" by (simp add: mask_eq_exp_minus_1)
  show ?thesis unfolding \<open>push_bit i 1 - 1 = mask i\<close> by (rule bit_word_eqI) (auto simp: bit_simps)
qed

lemma binary_digits:
  fixes i :: nat
  assumes "i < 32"
  shows "(if bit (0xFFFF0000 :: u32) i then 16 else 0) + (if bit (0xFF00FF00 :: u32) i then 8 else 0) +
    (if bit (0xF0F0F0F0 :: u32) i then 4 else 0) + (if bit (0xCCCCCCCC :: u32) i then 2 else 0) +
    (if bit (0xAAAAAAAA :: u32) i then 1 else 0) = i"
proof -
  let ?P = "\<lambda>i :: nat. (if bit (0xFFFF0000 :: u32) i then 16 else 0) + (if bit (0xFF00FF00 :: u32) i then 8 else 0) +
    (if bit (0xF0F0F0F0 :: u32) i then 4 else 0) + (if bit (0xCCCCCCCC :: u32) i then 2 else 0) +
    (if bit (0xAAAAAAAA :: u32) i then 1 else 0) = i"
  have "list_all ?P [0..<32]" by code_simp
  then show ?thesis using assms by (simp add: list_all_iff)
qed

lemma indexOfSingleBit32_exp: "i < 32 \<Longrightarrow> indexOfSingleBit32 (push_bit i 1) = Some i"
proof -
  assume i: "i < 32"
  then have e: "push_bit i 1 AND m \<noteq> 0 \<longleftrightarrow> bit m i" "push_bit i 1 AND (push_bit i 1 - 1 :: u32) = 0" for m :: u32
    using exp_and [of i m] single_bit [where 'a = 32, of i] by simp_all
  show ?thesis unfolding indexOfSingleBit32_def e Let_def binary_digits [OF i] using i e(2) by simp
qed

lemma indexOfSingleBit_exp: "i < 64 \<Longrightarrow> indexOfSingleBit (push_bit i 1) = Some i"
proof -
  assume i: "i < 64"
  then have e: "push_bit i 1 AND m \<noteq> 0 \<longleftrightarrow> bit m i" "push_bit i 1 AND (push_bit i 1 - 1 :: u64) = 0" for m :: u64
    using exp_and [of i m] single_bit [where 'a = 64, of i] by simp_all
  have half: "ucast (push_bit i 1 OR drop_bit 32 (push_bit i 1 :: u64)) = (push_bit (if i < 32 then i else i - 32) 1 :: u32)"
    using i by (intro bit_word_eqI) (auto simp: bit_simps)
  have top: "bit (push_bit 32 0xFFFFFFFF :: u64) i \<longleftrightarrow> 32 \<le> i"
  proof -
    have ones: "(0xFFFFFFFF :: u64) = mask 32" by (simp add: mask_eq_exp_minus_1)
    show ?thesis unfolding ones using i by (auto simp: bit_simps)
  qed
  show ?thesis
    unfolding indexOfSingleBit_def e half top Let_def using i e(2) indexOfSingleBit32_exp [of "if i < 32 then i else i - 32"]
    by (cases "i < 32") auto
qed

lemma indexOfRightmostBit_eq: "indexOfRightmostBit x = (if x = 0 then None else Some (LEAST i. bit x i))"
proof (cases "x = 0")
  case True
  have "indexOfRightmostBit 0 = None" by code_simp
  with True show ?thesis by simp
next
  case False
  then obtain i k where i: "i < 64" and x: "x = push_bit i 1 OR push_bit (Suc i) k" and low: "\<And>n. n < i \<Longrightarrow> \<not> bit x n"
    by (rule lowest_bit) blast
  have "bit x i" using i by (simp add: x bit_simps)
  then have "(LEAST i. bit x i) = i" using low by (intro Least_equality) (auto simp: not_less [symmetric])
  moreover have "indexOfRightmostBit x = Some i"
    unfolding indexOfRightmostBit_def x isolate_lowest [OF i] by (rule indexOfSingleBit_exp [OF i])
  ultimately show ?thesis using False by simp
qed

subsection \<open>Masks and widths\<close>

lemma drop_ones: "N \<le> 64 \<Longrightarrow> drop_bit (64 - N) (- 1 :: u64) = mask N"
  by (rule bit_word_eqI) (auto simp: bit_simps)

lemma truncateToNBits_eq: "0 < N \<Longrightarrow> N \<le> 64 \<Longrightarrow> truncateToNBits x N = Some (take_bit N x)"
  by (simp add: truncateToNBits_def drop_ones take_bit_eq_mask)

lemma maxValueOfNBits_eq: "N \<le> 64 \<Longrightarrow> maxValueOfNBits N = Some (mask N)"
  by (simp add: maxValueOfNBits_def drop_ones)

text \<open>A value of width \<open>w\<close> read as unsigned and as signed.\<close>

definition sval :: "nat \<Rightarrow> u64 \<Rightarrow> int" where
  "sval w x = signed_take_bit (w - 1) (uint x)"

lemma sint_sext: "0 < w \<Longrightarrow> w \<le> 64 \<Longrightarrow> ints_sext l 64 w = Some (of_int (sval w l))"
proof -
  assume w: "0 < w" "w \<le> 64"
  have "signed_drop_bit (64 - w) (push_bit (64 - w) l) = of_int (sval w l)"
  proof (rule bit_word_eqI)
    fix n :: nat
    assume "n < LENGTH(64)"
    then show "bit (signed_drop_bit (64 - w) (push_bit (64 - w) l)) n = bit (of_int (sval w l) :: u64) n"
      using w by (cases "n = w - 1") (auto simp: sval_def bit_simps min_def)
  qed
  with w show ?thesis by (simp add: ints_sext_def truncateToNBits_eq take_bit_word_eq_self)
qed

lemma sval_range: "0 < w \<Longrightarrow> w \<le> 64 \<Longrightarrow> - (2 ^ 63) \<le> sval w x \<and> sval w x < 2 ^ 63"
proof -
  assume w: "0 < w" "w \<le> 64"
  have "- (2 ^ (w - 1)) \<le> sval w x" "sval w x < 2 ^ (w - 1)"
    unfolding sval_def by (simp_all add: signed_take_bit_int_greater_eq_minus_exp signed_take_bit_int_less_exp)
  moreover have "(2 :: int) ^ (w - 1) \<le> 2 ^ 63" using w by (intro power_increasing) auto
  ultimately show ?thesis by linarith
qed

lemma sint_of_sval: "0 < w \<Longrightarrow> w \<le> 64 \<Longrightarrow> sint (of_int (sval w x) :: u64) = sval w x"
  using sval_range [of w x] by (simp add: sint_sbintrunc' signed_take_bit_int_eq_self)

lemma signed_pair_eq: "0 < w \<Longrightarrow> w \<le> 64 \<Longrightarrow> signed_pair l r w = Some (sval w l, sval w r)"
  by (simp add: signed_pair_def sint_sext sint_of_sval)

text \<open>The result of width \<open>w\<close> for an integer.\<close>

definition of_width :: "nat \<Rightarrow> int \<Rightarrow> u64" where
  "of_width w k = of_int (k mod 2 ^ w)"

lemma truncate_of_int: "0 < w \<Longrightarrow> w \<le> 64 \<Longrightarrow> truncateToNBits (of_int k) w = Some (of_width w k)"
proof -
  assume w: "0 < w" "w \<le> 64"
  have "take_bit w (of_int k :: u64) = of_int (take_bit w k)"
    by (rule bit_word_eqI) (auto simp: bit_simps)
  with w show ?thesis by (simp add: truncateToNBits_eq of_width_def take_bit_eq_mod)
qed

lemma truncate_word: "0 < w \<Longrightarrow> w \<le> 64 \<Longrightarrow> truncateToNBits x w = Some (of_width w (uint x))"
  using truncate_of_int [of w "uint x"] by simp

text \<open>Undefined in C++: a zero divisor, and the one quotient that is not an \<open>int64_t\<close>.\<close>

definition undefined_division :: "int \<Rightarrow> int \<Rightarrow> bool" where
  "undefined_division a b \<longleftrightarrow> b = 0 \<or> a = - (2 ^ 63) \<and> b = - 1"

lemma ints_modular:
  assumes "0 < w" "w \<le> 64"
  shows "ints_add l r w = Some (of_width w (uint l + uint r))"
    "ints_sub l r w = Some (of_width w (uint l - uint r))"
    "ints_mul l r w = Some (of_width w (uint l * uint r))"
    "ints_udiv l r w = (if r = 0 then None else Some (of_width w (uint l div uint r)))"
    "ints_urem l r w = (if r = 0 then None else Some (of_width w (uint l mod uint r)))"
  using truncate_of_int [OF assms, of "uint l + uint r"] truncate_of_int [OF assms, of "uint l - uint r"]
    truncate_of_int [OF assms, of "uint l * uint r"] truncate_word [OF assms, of "l div r"]
    truncate_word [OF assms, of "l mod r"]
  by (simp_all add: ints_add_def ints_sub_def ints_mul_def ints_udiv_def ints_urem_def uint_div uint_mod)

lemma ints_sext_eq:
  assumes "0 < w" "w \<le> 64"
  shows "ints_sext l v w = (if 0 < v \<and> v \<le> 64 then Some (of_width v (sval w l)) else None)"
proof -
  have "signed_drop_bit (64 - w) (push_bit (64 - w) l) = of_int (sval w l)"
    using sint_sext [OF assms, of l] assms by (simp add: ints_sext_def truncateToNBits_eq take_bit_word_eq_self)
  then show ?thesis
    using assms truncate_of_int [of v "sval w l"] by (auto simp: ints_sext_def truncateToNBits_def)
qed

lemma ints_signed:
  assumes "0 < w" "w \<le> 64"
  shows "ints_sdiv l r w = (if undefined_division (sval w l) (sval w r) then None else Some (of_width w (sval w l sdiv sval w r)))"
    "ints_srem l r w = (if undefined_division (sval w l) (sval w r) then None else Some (of_width w (sval w l smod sval w r)))"
    "ints_slt l r w = Some (of_bool (sval w l < sval w r))"
    "ints_sle l r w = Some (of_bool (sval w l \<le> sval w r))"
  using truncate_of_int [OF assms]
  by (auto simp: ints_sdiv_def ints_srem_def ints_slt_def ints_sle_def signed_pair_eq [OF assms] signed_divides_def
      undefined_division_def)

lemma ints_shifts:
  assumes "0 < w" "w \<le> 64"
  shows "ints_shl l r w = (if unat r < 64 then Some (of_width w (uint l * 2 ^ unat r)) else None)"
    "ints_ashr l r w = (if unat r < 64 then Some (of_width w (sval w l div 2 ^ unat r)) else None)"
proof -
  have "push_bit (unat r) l = of_int (uint l * 2 ^ unat r)" by (simp add: push_bit_eq_mult)
  then show "ints_shl l r w = (if unat r < 64 then Some (of_width w (uint l * 2 ^ unat r)) else None)"
    using truncate_of_int [OF assms, of "uint l * 2 ^ unat r"] by (simp add: ints_shl_def)
  have "signed_drop_bit (unat r) (of_int (sval w l) :: u64) = of_int (sval w l div 2 ^ unat r)"
  proof -
    define W :: u64 where "W = signed_drop_bit (unat r) (of_int (sval w l))"
    have "sint W = sval w l div 2 ^ unat r"
      by (simp add: W_def sint_signed_drop_bit_eq sint_of_sval [OF assms] drop_bit_eq_div)
    then have "W = of_int (sval w l div 2 ^ unat r)" by (metis of_int_sint scast_id)
    then show ?thesis by (simp add: W_def)
  qed
  then show "ints_ashr l r w = (if unat r < 64 then Some (of_width w (sval w l div 2 ^ unat r)) else None)"
    using truncate_of_int [OF assms, of "sval w l div 2 ^ unat r"] by (simp add: ints_ashr_def sint_sext [OF assms])
qed

text \<open>
  C32. The operations on integers of a width of 1 to 64 bits compute the operation of that width: results are
  the mathematical ones modulo \<open>2 ^ w\<close> on the unsigned or (for the signed operations) the two's complement
  reading of the operands, division truncates towards zero, and the only inputs without a result are the
  ones C++ leaves undefined.
\<close>

theorem ints_operations_correct:
  assumes "0 < w" and "w \<le> 64"
  shows "ints_add l r w = Some (of_width w (uint l + uint r)) \<and>
    ints_sub l r w = Some (of_width w (uint l - uint r)) \<and>
    ints_mul l r w = Some (of_width w (uint l * uint r)) \<and>
    ints_udiv l r w = (if r = 0 then None else Some (of_width w (uint l div uint r))) \<and>
    ints_urem l r w = (if r = 0 then None else Some (of_width w (uint l mod uint r))) \<and>
    ints_sext l v w = (if 0 < v \<and> v \<le> 64 then Some (of_width v (sval w l)) else None) \<and>
    ints_sdiv l r w = (if undefined_division (sval w l) (sval w r) then None else Some (of_width w (sval w l sdiv sval w r))) \<and>
    ints_srem l r w = (if undefined_division (sval w l) (sval w r) then None else Some (of_width w (sval w l smod sval w r))) \<and>
    ints_shl l r w = (if unat r < 64 then Some (of_width w (uint l * 2 ^ unat r)) else None) \<and>
    ints_ashr l r w = (if unat r < 64 then Some (of_width w (sval w l div 2 ^ unat r)) else None) \<and>
    ints_slt l r w = Some (of_bool (sval w l < sval w r)) \<and>
    ints_sle l r w = Some (of_bool (sval w l \<le> sval w r))"
  by (intro conjI ints_modular ints_sext_eq ints_signed ints_shifts assms)

theorem ints_operations_correct_witness: "ints_sdiv 0xF9 2 8 = Some 0xFD"
proof -
  have "sval 8 0xF9 = - 7" "sval 8 2 = 2" by (simp_all add: sval_def signed_take_bit_eq_if_negative mask_eq_exp_minus_1)
  then show ?thesis
    using ints_operations_correct [of 8 "0xF9" 2 8] by (simp add: undefined_division_def of_width_def signed_divide_int_def)
qed

end
