(* ===== verification/ConstDivision.thy ===== *)
theory ConstDivision
  imports Bits_Arith
begin

unbundle bit_operations_syntax

section \<open>Multiplication and division by constants\<close>

text \<open>
  \<open>klee/lib/Solver/ConstantDivision.cpp\<close>: the constants with which the STP builder replaces a product by
  shifts, additions and subtractions, and a 32-bit quotient by a 64-bit product. The loop of
  \<open>ComputeMultConstants64\<close> is a recursive function whose argument shrinks; \<open>None\<close> is a failed assertion
  or a division by zero. Shown: the constants of a product recombine to the factor and never overlap, and
  the quotients computed with the constants are exact for every divisor but 0.
\<close>

subsection \<open>Counting bits\<close>

definition ones :: "u32 \<Rightarrow> u32" where
  "ones x0 =
     (let x1 = x0 - (drop_bit 1 x0 AND 0x55555555);
          x2 = (drop_bit 2 x1 AND 0x33333333) + (x1 AND 0x33333333);
          x3 = (drop_bit 4 x2 + x2) AND 0x0f0f0f0f;
          x4 = x3 + drop_bit 8 x3;
          x5 = x4 + drop_bit 16 x4
      in x5 AND 0x3f)"

definition smear :: "u32 \<Rightarrow> u32" where
  "smear x0 =
     (let x1 = x0 OR drop_bit 1 x0; x2 = x1 OR drop_bit 2 x1; x3 = x2 OR drop_bit 4 x2; x4 = x3 OR drop_bit 8 x3
      in x4 OR drop_bit 16 x4)"

definition ldz :: "u32 \<Rightarrow> u32" where
  "ldz x = 32 - ones (smear x)"

text \<open>
  \<open>x << n\<close> for \<open>n\<close> outside 0 to 31 is undefined in C++ but \<open>x\<close> is 0 there; the shift of the hardware, which
  takes \<open>n\<close> modulo 32, gives 0 too.
\<close>

definition exp_base_2 :: "u32 \<Rightarrow> u32" where
  "exp_base_2 n = (let x = drop_bit 31 (NOT n AND (n - 32)) in push_bit (unat n mod 32) x)"

definition log2_ceil :: "u32 \<Rightarrow> u32" where
  "log2_ceil x = 32 - ldz (x - 1)"

subsection \<open>Constants of a product\<close>

text \<open>One turn of the loop: the rightmost run of ones of \<open>x\<close>.\<close>

definition mult_step :: "u64 \<Rightarrow> u64 \<Rightarrow> u64 \<Rightarrow> (u64 \<times> u64 \<times> u64) option" where
  "mult_step x add sub =
     (case indexOfRightmostBit x of
        None \<Rightarrow> None
      | Some low \<Rightarrow>
          (let lowbit = push_bit low 1; p = x + lowbit; q = isolateRightmostBit p
           in case (if q \<noteq> 0 then indexOfSingleBit q else Some 64) of
                None \<Rightarrow> None
              | Some high \<Rightarrow>
                  (let (add', sub') =
                     (if high = low + 1 then (add OR lowbit, sub)
                      else
                        (let (a, s) =
                           (if low \<noteq> 0 \<and> add AND drop_bit 1 lowbit \<noteq> 0
                            then (add XOR drop_bit 1 lowbit, sub XOR drop_bit 1 lowbit)
                            else (add, sub OR lowbit))
                         in (if high \<noteq> 64 then a OR push_bit high 1 else a, s)))
                   in Some (p XOR q, add', sub'))))"

lemma push_mask: "l \<le> h \<Longrightarrow> push_bit l (mask (h - l)) = (push_bit h 1 - push_bit l 1 :: 'a::len word)"
proof -
  assume "l \<le> h"
  then have "(2 :: 'a word) ^ h = 2 ^ (h - l) * 2 ^ l" by (simp flip: power_add)
  then show ?thesis by (simp add: push_bit_eq_mult mask_eq_exp_minus_1 algebra_simps)
qed

lemma run_of_ones:
  fixes x :: u64
  assumes "x \<noteq> 0"
  obtains low high k where "low < high" "high \<le> 64" "x = push_bit low (mask (high - low)) OR push_bit (Suc high) k"
    "indexOfRightmostBit x = Some low"
proof -
  obtain low r where low: "low < 64" and x: "x = push_bit low 1 OR push_bit (Suc low) r"
    and below: "\<And>n. n < low \<Longrightarrow> \<not> bit x n" using assms by (rule lowest_bit) blast
  have bl: "bit x low" using low by (simp add: x bit_simps del: push_bit_Suc)
  define high where "high = (LEAST n. low < n \<and> \<not> bit x n)"
  have ex: "low < 64 \<and> \<not> bit x 64" using low by (simp add: bit_word.rep_eq)
  have high: "low < high \<and> \<not> bit x high" unfolding high_def using ex by (rule LeastI)
  have "high \<le> 64" unfolding high_def using ex by (rule Least_le)
  have run: "bit x n" if "low \<le> n" "n < high" for n
    using not_less_Least [of n "\<lambda>n. low < n \<and> \<not> bit x n"] that bl by (cases "n = low") (auto simp: high_def)
  have "x = push_bit low (mask (high - low)) OR push_bit (Suc high) (drop_bit (Suc high) x)"
  proof (rule bit_word_eqI)
    fix n :: nat
    assume "n < LENGTH(64)"
    then show "bit x n = bit (push_bit low (mask (high - low)) OR push_bit (Suc high) (drop_bit (Suc high) x)) n"
      using below [of n] run [of n] high by (cases n high rule: linorder_cases) (auto simp: bit_simps simp del: push_bit_Suc intro: leI)
  qed
  moreover have "indexOfRightmostBit x = Some low"
    unfolding indexOfRightmostBit_def x isolate_lowest [OF low] by (rule indexOfSingleBit_exp [OF low])
  ultimately show thesis using high \<open>high \<le> 64\<close> that by blast
qed

text \<open>What a turn leaves of \<open>x\<close>, and the constants it makes.\<close>

lemma mult_step_run:
  fixes k :: u64
  assumes "low < high" "high \<le> 64" "indexOfRightmostBit (push_bit low (mask (high - low)) OR push_bit (Suc high) k) = Some low"
  shows "mult_step (push_bit low (mask (high - low)) OR push_bit (Suc high) k) add sub =
    Some (push_bit (Suc high) k,
      if high = low + 1 then (add OR push_bit low 1, sub)
      else if low \<noteq> 0 \<and> bit add (low - 1)
      then ((add XOR push_bit (low - 1) 1) OR push_bit high 1, sub XOR push_bit (low - 1) 1)
      else (add OR push_bit high 1, sub OR push_bit low 1))"
proof -
  let ?x = "push_bit low (mask (high - low)) OR push_bit (Suc high) k"
  have "?x = push_bit low (mask (high - low)) + push_bit (Suc high) k"
    by (rule disjunctive_add_eq_or [symmetric]) (rule bit_word_eqI, auto simp: bit_simps simp del: push_bit_Suc)
  then have "?x + push_bit low 1 = push_bit high 1 + push_bit (Suc high) k"
    unfolding push_mask [OF less_imp_le [OF assms(1)]] by (simp del: push_bit_Suc)
  also have "\<dots> = push_bit high 1 OR push_bit (Suc high) k"
    by (rule disjunctive_add_eq_or) (rule bit_word_eqI, auto simp: bit_simps simp del: push_bit_Suc)
  finally have p: "?x + push_bit low 1 = push_bit high 1 OR push_bit (Suc high) k" .
  have q: "isolateRightmostBit (push_bit high 1 OR push_bit (Suc high) k) = push_bit high 1"
    using isolate_lowest [of high k] assms(2) by (cases "high < 64") (auto simp: isolateRightmostBit_def)
  have h: "(if push_bit high 1 \<noteq> (0 :: u64) then indexOfSingleBit (push_bit high 1) else Some 64) = Some high"
  proof (cases "high < 64")
    case True
    then have "bit (push_bit high 1 :: u64) high" by (simp add: bit_simps)
    then have "push_bit high 1 \<noteq> (0 :: u64)" by (metis bit_0_eq bot_apply bot_bool_def)
    with True show ?thesis by (simp add: indexOfSingleBit_exp del: push_bit_of_1)
  next
    case False
    with assms(2) have "high = 64" by simp
    then show ?thesis by simp
  qed
  have x': "(push_bit high 1 OR push_bit (Suc high) k) XOR push_bit high 1 = push_bit (Suc high) k"
    by (rule bit_word_eqI) (auto simp: bit_simps simp del: push_bit_Suc)
  have lb: "drop_bit 1 (push_bit low 1 :: u64) = push_bit (low - 1) 1" if "low \<noteq> 0"
    using that assms by (intro bit_word_eqI) (auto simp: bit_simps)
  have ab: "add AND push_bit (low - 1) 1 \<noteq> 0 \<longleftrightarrow> bit add (low - 1)"
    using exp_and [of "low - 1" add] assms by (simp add: and.commute)
  have top: "push_bit 64 1 = (0 :: u64)" by simp
  show ?thesis
    unfolding mult_step_def assms(3) option.case Let_def p q h x'
    using lb ab top by (auto simp del: push_bit_Suc push_bit_of_1)
qed
lemma mult_step_less:
  assumes "x \<noteq> 0" "mult_step x add sub = Some (x', add', sub')"
  shows "unat x' < unat x"
proof -
  obtain low high k where r: "low < high" "high \<le> 64" and x: "x = push_bit low (mask (high - low)) OR push_bit (Suc high) k"
    and i: "indexOfRightmostBit x = Some low" using assms(1) by (rule run_of_ones) blast
  have x': "x' = push_bit (Suc high) k" using assms(2) mult_step_run [OF r i [unfolded x]] x by simp
  have "x' \<le> x" using le_word_or2 [of x' "push_bit low (mask (high - low))"] by (simp add: x x' or.commute)
  moreover have "bit x low" using r by (simp add: x bit_simps del: push_bit_Suc)
  moreover have "\<not> bit x' low" using r by (simp add: x' bit_simps del: push_bit_Suc)
  ultimately have "x' < x" by (metis order_le_less)
  then show ?thesis by (simp add: word_less_nat_alt)
qed

function mult_loop :: "u64 \<Rightarrow> u64 \<Rightarrow> u64 \<Rightarrow> (u64 \<times> u64) option" where
  "mult_loop x add sub =
     (if x = 0 then Some (add, sub)
      else case mult_step x add sub of
        None \<Rightarrow> None
      | Some (x', add', sub') \<Rightarrow> mult_loop x' add' sub')"
  by pat_completeness auto
termination
  by (relation "measure (\<lambda>(x, _, _). unat x)") (auto simp: mult_step_less)

declare mult_loop.simps [simp del]

definition ComputeMultConstants64 :: "u64 \<Rightarrow> (u64 \<times> u64) option" where
  "ComputeMultConstants64 multiplicand =
     (case mult_loop multiplicand 0 0 of
        None \<Rightarrow> None
      | Some (add, sub) \<Rightarrow> if multiplicand = add - sub then Some (add, sub) else None)"

text \<open>The invariant of the loop: what is done and what is left add up, and what is done lies below.\<close>

definition mult_inv :: "u64 \<Rightarrow> u64 \<Rightarrow> u64 \<Rightarrow> u64 \<Rightarrow> bool" where
  "mult_inv m x add sub \<longleftrightarrow> add - sub + x = m \<and> (\<forall>i. \<not> (bit add i \<and> bit sub i)) \<and>
     (\<forall>i j. bit x j \<longrightarrow> bit add i \<or> bit sub i \<longrightarrow> i < j)"

lemma or_new_bit: "\<not> bit a n \<Longrightarrow> a OR push_bit n 1 = a + push_bit n 1" for a :: "'a::len word"
  by (rule disjunctive_add_eq_or [symmetric]) (rule bit_word_eqI, auto simp: bit_simps simp del: push_bit_of_1)

lemma xor_old_bit: "bit a n \<Longrightarrow> a XOR push_bit n 1 = a - push_bit n 1" for a :: "'a::len word"
proof -
  assume a: "bit a n"
  have "\<not> bit (a XOR push_bit n 1) n" using a bit_imp_le_length [OF a] by (simp add: bit_simps)
  then have "(a XOR push_bit n 1) OR push_bit n 1 = (a XOR push_bit n 1) + push_bit n 1" by (rule or_new_bit)
  moreover have "(a XOR push_bit n 1) OR push_bit n 1 = a"
    using a by (intro bit_word_eqI) (auto simp: bit_simps simp del: push_bit_of_1)
  ultimately show ?thesis by (simp add: eq_diff_eq)
qed

lemma xor_new_bit: "\<not> bit a n \<Longrightarrow> a XOR push_bit n 1 = a + push_bit n 1" for a :: "'a::len word"
proof -
  assume a: "\<not> bit a n"
  have "a XOR push_bit n 1 = a OR push_bit n 1"
    using a by (intro bit_word_eqI) (auto simp: bit_simps simp del: push_bit_of_1)
  then show ?thesis using or_new_bit [OF a] by simp
qed

lemma mult_inv_step:
  assumes inv: "mult_inv m x add sub" and "x \<noteq> 0"
  shows "\<exists>x' add' sub'. mult_step x add sub = Some (x', add', sub') \<and> mult_inv m x' add' sub'"
proof -
  obtain low high k where r: "low < high" "high \<le> 64" and x: "x = push_bit low (mask (high - low)) OR push_bit (Suc high) k"
    and i: "indexOfRightmostBit x = Some low" using assms(2) by (rule run_of_ones) blast
  have "bit x low" using r by (simp add: x bit_simps del: push_bit_Suc)
  then have below: "bit add i \<Longrightarrow> i < low" "bit sub i \<Longrightarrow> i < low" for i using inv by (auto simp: mult_inv_def)
  have le: "bit add i \<Longrightarrow> i \<le> high" "bit sub i \<Longrightarrow> i \<le> high" for i using below [of i] r by auto
  have no: "\<not> bit add low" "\<not> bit sub low" "\<not> bit add high" "\<not> bit sub high"
    using below [of low] below [of high] r by auto
  have dis: "\<not> (bit add i \<and> bit sub i)" for i using inv by (auto simp: mult_inv_def)
  have "x = push_bit low (mask (high - low)) + push_bit (Suc high) k"
    unfolding x by (rule disjunctive_add_eq_or [symmetric]) (rule bit_word_eqI, auto simp: bit_simps simp del: push_bit_Suc)
  then have "x = push_bit high 1 - push_bit low 1 + push_bit (Suc high) k"
    using r by (simp add: push_mask del: push_bit_Suc)
  then have m: "m = add - sub + (push_bit high 1 - push_bit low 1) + push_bit (Suc high) k"
    using inv by (auto simp: mult_inv_def add.assoc simp del: push_bit_Suc)
  let ?ok = "\<lambda>add' sub'. mult_inv m (push_bit (Suc high) k) add' sub'"
  have ok: "?ok add' sub'"
    if "add' - sub' = add - sub + (push_bit high 1 - push_bit low 1)" "\<And>i. \<not> (bit add' i \<and> bit sub' i)"
      "\<And>i. bit add' i \<or> bit sub' i \<Longrightarrow> i \<le> high" for add' sub'
    using that m by (auto simp: mult_inv_def bit_simps less_Suc_eq_le Suc_le_eq simp del: push_bit_Suc dest: le_less_trans)
  have single: "?ok (add OR push_bit low 1) sub" if "high = low + 1"
  proof (rule ok)
    show "(add OR push_bit low 1) - sub = add - sub + (push_bit high 1 - push_bit low 1)"
      using that no(1) by (simp add: or_new_bit [unfolded push_bit_of_1] algebra_simps)
  qed (use that le no dis in \<open>auto simp: bit_simps simp del: push_bit_of_1\<close>)
  have new: "?ok (add OR push_bit high 1) (sub OR push_bit low 1)" if "high \<noteq> low + 1"
  proof (rule ok)
    show "(add OR push_bit high 1) - (sub OR push_bit low 1) = add - sub + (push_bit high 1 - push_bit low 1)"
      using no by (simp add: or_new_bit algebra_simps del: push_bit_of_1)
  qed (use that r le no dis in \<open>auto simp: bit_simps simp del: push_bit_of_1\<close>)
  have turn: "?ok ((add XOR push_bit l 1) OR push_bit high 1) (sub XOR push_bit l 1)"
    if l: "low = Suc l" "bit add l" for l
  proof (rule ok)
    have e1: "(add XOR push_bit l 1) OR push_bit high 1 = (add XOR push_bit l 1) + push_bit high 1"
      using no r l by (intro or_new_bit) (auto simp: bit_simps)
    have e2: "sub XOR push_bit l 1 = sub + push_bit l 1" using dis [of l] l by (intro xor_new_bit) auto
    have e3: "add XOR push_bit l 1 = add - push_bit l 1" using l(2) by (rule xor_old_bit)
    have e4: "(push_bit low 1 :: u64) = push_bit l 1 + push_bit l 1" using l by simp
    show "((add XOR push_bit l 1) OR push_bit high 1) - (sub XOR push_bit l 1) =
        add - sub + (push_bit high 1 - push_bit low 1)"
      unfolding e1 unfolding e2 e3 e4 by (simp add: algebra_simps del: push_bit_of_1)
  qed (use l r le no dis in \<open>auto simp: bit_simps simp del: push_bit_of_1\<close>)
  show ?thesis
    using mult_step_run [OF r i [unfolded x], of add sub] single new turn unfolding x [symmetric] by (cases low) auto
qed

lemma mult_loop_inv:
  "mult_inv m x add sub \<Longrightarrow> \<exists>a s. mult_loop x add sub = Some (a, s) \<and> mult_inv m 0 a s"
proof (induction x add sub rule: mult_loop.induct)
  case (1 x add sub)
  show ?case
  proof (cases "x = 0")
    case True
    with 1 show ?thesis by (simp add: mult_loop.simps)
  next
    case False
    obtain x' add' sub' where s: "mult_step x add sub = Some (x', add', sub')" "mult_inv m x' add' sub'"
      using mult_inv_step [OF 1(2) False] by blast
    with 1(1) [OF False s(1) refl refl] False show ?thesis by (simp add: mult_loop.simps)
  qed
qed

lemma ComputeMultConstants64_ok:
  obtains add sub where "ComputeMultConstants64 m = Some (add, sub)" "m = add - sub" "\<And>i. \<not> (bit add i \<and> bit sub i)"
proof -
  have "mult_inv m m 0 0" by (simp add: mult_inv_def)
  then obtain a s where "mult_loop m 0 0 = Some (a, s)" "mult_inv m 0 a s" using mult_loop_inv by blast
  then show thesis by (intro that [of a s]) (auto simp: ComputeMultConstants64_def mult_inv_def)
qed

subsection \<open>Leading zeroes and powers\<close>

lemma smear_double:
  fixes x y :: u32
  assumes "\<And>i. bit y i \<longleftrightarrow> (\<exists>d<n. bit x (i + d))"
  shows "bit (y OR drop_bit n y) i \<longleftrightarrow> (\<exists>d<2 * n. bit x (i + d))"
proof -
  have "(\<exists>d<2 * n. P d) \<longleftrightarrow> (\<exists>d<n. P d) \<or> (\<exists>d<n. P (n + d))" for P :: "nat \<Rightarrow> bool"
  proof
    assume "\<exists>d<2 * n. P d"
    then obtain d where "d < 2 * n" "P d" by blast
    then show "(\<exists>d<n. P d) \<or> (\<exists>d<n. P (n + d))" by (cases "d < n") (auto intro: exI [of _ "d - n"])
  next
    assume "(\<exists>d<n. P d) \<or> (\<exists>d<n. P (n + d))"
    then show "\<exists>d<2 * n. P d" by (metis add_less_cancel_left mult_2 trans_less_add1)
  qed
  then show ?thesis by (simp add: bit_simps assms ac_simps)
qed

lemma bit_smear: "bit (smear x) i \<longleftrightarrow> (\<exists>j\<ge>i. bit x j)"
proof -
  have "bit (smear x) i \<longleftrightarrow> (\<exists>d<32. bit x (i + d))"
    using smear_double [OF smear_double [OF smear_double [OF smear_double [OF smear_double [of x 1 x]]]], of i]
    by (simp add: smear_def Let_def)
  also have "\<dots> \<longleftrightarrow> (\<exists>j\<ge>i. bit x j)"
  proof
    assume "\<exists>j\<ge>i. bit x j"
    then obtain j where "i \<le> j" "bit x j" by blast
    then show "\<exists>d<32. bit x (i + d)" using bit_imp_le_length [of x j] by (intro exI [of _ "j - i"]) auto
  qed (auto intro: le_add1)
  finally show ?thesis .
qed

lemma smear_mask:
  obtains L where "L \<le> 32" "smear x = mask L" "unat x < 2 ^ L" "0 < L \<Longrightarrow> 2 ^ (L - 1) \<le> unat x"
proof -
  define L where "L = (LEAST L. \<forall>j\<ge>L. \<not> bit x j)"
  have ex: "\<forall>j\<ge>32. \<not> bit x j" by (auto dest: bit_imp_le_length)
  have L: "\<forall>j\<ge>L. \<not> bit x j" unfolding L_def by (rule LeastI [of _ 32]) (rule ex)
  have le: "L \<le> 32" unfolding L_def by (rule Least_le) (rule ex)
  have top: "bit x (L - 1)" if "0 < L"
  proof (rule ccontr)
    assume "\<not> bit x (L - 1)"
    with L that have "\<forall>j\<ge>L - 1. \<not> bit x j" by (metis One_nat_def Suc_pred le_eq_less_or_eq less_eq_Suc_le)
    then have "L \<le> L - 1" unfolding L_def by (rule Least_le)
    with that show False by simp
  qed
  have "take_bit L x = x" using L by (intro bit_word_eqI) (auto simp: bit_simps intro: leI)
  then have "unat x < 2 ^ L" by (metis take_bit_nat_less_exp unsigned_take_bit_eq)
  moreover have "2 ^ (L - 1) \<le> unat x" if "0 < L"
  proof -
    have "odd (unat x div 2 ^ (L - 1))" using top [OF that] by (simp add: bit_iff_odd [symmetric] bit_simps)
    then show ?thesis by (metis div_less even_zero leI)
  qed
  moreover have "smear x = mask L"
  proof (rule bit_word_eqI)
    fix i :: nat
    assume "i < LENGTH(32)"
    moreover have "(\<exists>j\<ge>i. bit x j) \<longleftrightarrow> i < L"
    proof
      assume "i < L"
      then show "\<exists>j\<ge>i. bit x j" using top by (intro exI [of _ "L - 1"]) auto
    next
      assume "\<exists>j\<ge>i. bit x j"
      then show "i < L" using L by (meson leI order_trans)
    qed
    ultimately show "bit (smear x) i = bit (mask L :: u32) i" by (simp add: bit_smear bit_simps)
  qed
  ultimately show thesis using le that by blast
qed

lemma ones_mask: "L \<le> 32 \<Longrightarrow> ones (mask L) = of_nat L"
proof -
  assume "L \<le> 32"
  moreover have "list_all (\<lambda>L. ones (mask L) = of_nat L) [0..<33]" by code_simp
  ultimately show ?thesis by (simp add: list_all_iff)
qed

lemma exp_base_2_eq: "L \<le> 32 \<Longrightarrow> exp_base_2 (of_nat L) = 2 ^ L"
proof -
  assume "L \<le> 32"
  moreover have "list_all (\<lambda>L. exp_base_2 (of_nat L) = 2 ^ L) [0..<33]" by code_simp
  ultimately show ?thesis by (simp add: list_all_iff)
qed

lemma log2_ceil_bounds:
  assumes "x \<noteq> 0"
  obtains L where "L \<le> 32" "log2_ceil x = of_nat L" "unat x \<le> 2 ^ L" "0 < L \<Longrightarrow> 2 ^ (L - 1) < unat x"
proof -
  obtain L where L: "L \<le> 32" "smear (x - 1) = mask L" "unat (x - 1) < 2 ^ L" "0 < L \<Longrightarrow> 2 ^ (L - 1) \<le> unat (x - 1)"
    by (rule smear_mask) blast
  have "unat x = Suc (unat (x - 1))" using assms by (simp add: unat_minus_one word_gt_0 unat_gt_0)
  moreover have "log2_ceil x = of_nat L" using L by (simp add: log2_ceil_def ldz_def ones_mask)
  ultimately show thesis using L by (intro that [of L]) auto
qed

lemma unat_zext: "unat (ucast x :: u64) = unat x" for x :: u32
proof (rule of_nat_inverse)
  have "unat x < 2 ^ LENGTH(32)" by (rule unsigned_less)
  then show "unat x < 2 ^ LENGTH(64)" by simp
qed simp

subsection \<open>Constants of an unsigned quotient\<close>

definition ComputeUDivConstants32 :: "u32 \<Rightarrow> (u32 \<times> u32 \<times> u32) option" where
  "ComputeUDivConstants32 d =
     (let l = log2_ceil d; mid = exp_base_2 l - d
      in if d = 0 then None
         else Some (ucast ((push_bit 32 1 * ucast mid) div ucast d + 1 :: u64),
                    of_int (min (sint l) 1), of_int (max (sint l - 1) 0)))"

text \<open>The number-theoretic core: with \<open>M\<close> the rounded-up reciprocal of \<open>d\<close>, the product's upper part is the quotient.\<close>

lemma reciprocal:
  fixes n d :: nat
  assumes "0 < d" "d \<le> 2 ^ l" "n < 2 ^ N"
  shows "n * (2 ^ (N + l) div d + 1) div 2 ^ (N + l) = n div d"
proof -
  define K :: nat where "K = 2 ^ (N + l)"
  define M q where "M = K div d + 1" and "q = n div d"
  have M: "K < d * M" "d * M \<le> K + d"
    using assms(1) by (simp_all add: M_def dividend_less_times_div distrib_left)
  have q: "d * q \<le> n" "n + 1 \<le> d * Suc q" using assms(1) dividend_less_times_div [of d n] by (auto simp: q_def)
  have "d * (K * q) \<le> K * n" using mult_le_mono2 [OF q(1), of K] by (simp add: ac_simps)
  also have "\<dots> \<le> d * (n * M)" using mult_le_mono1 [OF less_imp_le [OF M(1)], of n] by (simp add: ac_simps)
  finally have lower: "K * q \<le> n * M" using assms(1) by simp
  have "n * d \<le> n * 2 ^ l" using assms(2) by simp
  also have "\<dots> < 2 ^ N * 2 ^ l" using assms(3) by simp
  finally have "n * d < K" by (simp add: K_def power_add)
  then have "d * (n * M) < (n + 1) * K" using mult_le_mono2 [OF M(2), of n] by (simp add: algebra_simps)
  also have "\<dots> \<le> d * (K * Suc q)" using mult_le_mono1 [OF q(2), of K] by (simp add: algebra_simps)
  finally have "n * M < K * Suc q" using assms(1) by simp
  with lower have "n * M div K = q" by (rule div_nat_eqI)
  then show ?thesis by (simp add: K_def M_def q_def)
qed

lemma UDivConstants:
  assumes "d \<noteq> 0"
  obtains L m where "ComputeUDivConstants32 d = Some (of_nat m, of_nat (min L 1), of_nat (L - 1))" "L \<le> 32"
    "m < 2 ^ 32" "m + 2 ^ 32 = 2 ^ (32 + L) div unat d + 1" "unat d \<le> 2 ^ L"
proof -
  obtain L where L: "L \<le> 32" "log2_ceil d = of_nat L" "unat d \<le> 2 ^ L" "0 < L \<Longrightarrow> 2 ^ (L - 1) < unat d"
    using assms by (rule log2_ceil_bounds) blast
  have d: "0 < unat d" "unat d < 2 ^ 32" using assms unsigned_less [of d] by (simp_all add: unat_gt_0)
  let ?mid = "2 ^ L - unat d"
  have mid: "unat (exp_base_2 (of_nat L) - d) = ?mid"
  proof (cases "L = 32")
    case True
    then have "exp_base_2 (of_nat L) = 0" using exp_base_2_eq [of 32] by simp
    with True d show ?thesis using unat_sub_if' [of 0 d] by simp
  next
    case False
    then have "(2 :: nat) ^ L < 2 ^ 32" using L(1) by (intro power_strict_increasing) auto
    then have "unat (2 ^ L :: u32) = 2 ^ L" by (intro of_nat_inverse) simp_all
    moreover from this have "d \<le> 2 ^ L" using L(3) by (simp add: word_le_nat_alt)
    ultimately show ?thesis using L(1) by (simp add: exp_base_2_eq unat_sub)
  qed
  have "?mid < unat d" using L(3,4) d by (cases L) auto
  define m where "m = 2 ^ 32 * ?mid div unat d + 1"
  have "m < 2 ^ 32"
  proof -
    have "2 ^ 32 * ?mid + unat d \<le> 2 ^ 32 * (unat d - 1) + unat d" using \<open>?mid < unat d\<close> by simp
    also have "\<dots> < 2 ^ 32 * unat d" using d by (simp add: diff_mult_distrib2)
    finally have "(2 ^ 32 * ?mid + unat d) div unat d < 2 ^ 32" using d by (simp add: less_mult_imp_div_less)
    then show ?thesis using d by (simp add: m_def)
  qed
  moreover have "m + 2 ^ 32 = 2 ^ (32 + L) div unat d + 1"
  proof -
    have "(2 :: nat) ^ (32 + L) = 2 ^ 32 * ?mid + 2 ^ 32 * unat d" using L(3) by (simp add: power_add diff_mult_distrib2)
    then show ?thesis using d by (simp add: m_def)
  qed
  moreover have "ucast ((push_bit 32 1 * ucast (exp_base_2 (of_nat L) - d)) div ucast d + 1 :: u64) = (of_nat m :: u32)"
  proof -
    define w where "w = (push_bit 32 1 * ucast (exp_base_2 (of_nat L) - d) :: u64)"
    have "w = of_nat (2 ^ 32 * ?mid)" using arg_cong [OF mid, of "of_nat :: nat \<Rightarrow> u64"] by (simp add: w_def)
    moreover have "2 ^ 32 * ?mid < 2 ^ 64" using \<open>?mid < unat d\<close> d by simp
    ultimately have w: "unat w = 2 ^ 32 * ?mid" by (intro of_nat_inverse) simp_all
    have "unat (w div ucast d + 1) = m mod 2 ^ 64"
      by (simp add: unat_word_ariths unat_div unat_zext w m_def mod_Suc_eq)
    then have "ucast (w div ucast d + 1) = (of_nat (m mod 2 ^ 64) :: u32)" by (metis of_nat_unat ucast_eq unsigned_of_nat)
    then show ?thesis using \<open>m < 2 ^ 32\<close> by (simp add: w_def)
  qed
  moreover have "sint (of_nat L :: u32) = int L" using L(1) by (simp add: signed_of_nat signed_take_bit_int_eq_self)
  moreover have "min (int L) 1 = int (min L 1)" "max (int L - 1) 0 = int (L - 1)" by auto
  ultimately show thesis
    using L assms by (intro that [of m L]) (auto simp: ComputeUDivConstants32_def Let_def)
qed

subsection \<open>Constants of a signed quotient\<close>

definition ComputeSDivConstants32 :: "u32 \<Rightarrow> (u32 \<times> u32 \<times> u32) option" where
  "ComputeSDivConstants32 d =
     (let abs_d = of_int (if sint d > 0 then sint d else - sint d) :: u64;
          l0 = max 1 (log2_ceil (ucast abs_d));
          l = (if abs_d = push_bit 31 1 then 31 else l0);
          mid = exp_base_2 (l - 1)
      in if abs_d = 0 then None
         else Some (ucast ((push_bit 32 1 * ucast mid) div abs_d + 1 - push_bit 32 1 :: u64),
                    signed_drop_bit 31 d, l - 1))"

lemma SDivConstants:
  assumes "sint d \<noteq> 0"
  obtains L m where "ComputeSDivConstants32 d = Some (of_int (int m - 2 ^ 32), signed_drop_bit 31 d, of_nat L)"
    "L \<le> 30" "m = 2 ^ (32 + L) div nat \<bar>sint d\<bar> + 1" "nat \<bar>sint d\<bar> \<le> 2 ^ Suc L"
    "2 ^ 31 \<le> m" "m \<le> 2 ^ 32 + 1" "L \<noteq> 0 \<Longrightarrow> m \<le> 2 ^ 32"
proof -
  define A where "A = nat \<bar>sint d\<bar>"
  have A: "0 < A" "A \<le> 2 ^ 31" using assms sint_greater_eq [of d] sint_less [of d] by (auto simp: A_def)
  define a :: u64 where "a = of_int (if sint d > 0 then sint d else - sint d)"
  have a: "a = of_nat A" by (auto simp: a_def A_def of_nat_nat)
  have ua: "unat a = A" using a A by (intro of_nat_inverse) auto
  have ca: "(ucast a :: u32) = of_nat A" by (simp only: ua [symmetric] of_nat_unat)
  have uca: "unat (ucast a :: u32) = A" using ca A by (intro of_nat_inverse) auto
  obtain K where K: "K \<le> 32" "log2_ceil (ucast a) = of_nat K" "A \<le> 2 ^ K" "0 < K \<Longrightarrow> 2 ^ (K - 1) < A"
    using log2_ceil_bounds [of "ucast a"] A uca by (metis unat_0 less_numeral_extra(3))
  have "K \<le> 31"
  proof (rule ccontr)
    assume "\<not> K \<le> 31"
    with K(1) have "K = 32" by simp
    with K(4) A show False by simp
  qed
  define L where "L = max 1 K - 1"
  have "unat (of_nat K :: u32) = K" using \<open>K \<le> 31\<close> by (intro of_nat_inverse) auto
  then have "max 1 (of_nat K :: u32) = of_nat (max 1 K)"
    by (cases K) (auto simp: max_def word_le_nat_alt)
  moreover have "K = 31" if "A = 2 ^ 31"
    using that K(3) \<open>K \<le> 31\<close> power_increasing_iff [of "2 :: nat" 31 K] by simp
  moreover have "a = push_bit 31 1 \<longleftrightarrow> A = 2 ^ 31"
    using ua by (auto simp: word_unat_eq_iff)
  ultimately have l: "(if a = push_bit 31 1 then 31 else max 1 (log2_ceil (ucast a))) - 1 = of_nat L"
    by (auto simp: K(2) L_def)
  have L: "L \<le> 30" "A \<le> 2 ^ Suc L" "L \<noteq> 0 \<Longrightarrow> 2 ^ L < A"
    using K \<open>K \<le> 31\<close> by (cases K; auto simp: L_def max_def)+
  define m where "m = 2 ^ (32 + L) div A + 1"
  have mid: "exp_base_2 (of_nat L) = 2 ^ L" using L(1) by (intro exp_base_2_eq) simp
  have "(2 :: nat) ^ 31 \<le> 2 ^ (32 + L) div A"
  proof -
    have "(2 :: nat) ^ 31 = 2 ^ (31 + Suc L) div 2 ^ Suc L" by (subst power_add) simp
    also have "\<dots> \<le> 2 ^ (32 + L) div A" using L(2) A by (simp add: div_le_mono2)
    finally show ?thesis .
  qed
  then have "2 ^ 31 \<le> m" by (simp add: m_def)
  moreover have m2: "m \<le> 2 ^ 32" if "L \<noteq> 0"
  proof -
    have "(2 :: nat) ^ (32 + L) < 2 ^ 32 * A" using L(3) [OF that] by (simp add: power_add)
    then show ?thesis using less_mult_imp_div_less by (fastforce simp: m_def)
  qed
  moreover have "m \<le> 2 ^ 32 + 1"
  proof (cases "L = 0")
    case True
    then show ?thesis using div_le_dividend [of "2 ^ 32" A] by (simp add: m_def)
  qed (use m2 in simp)
  moreover have "ucast ((push_bit 32 1 * ucast (exp_base_2 (of_nat L))) div a + 1 - push_bit 32 1 :: u64) =
      (of_int (int m - 2 ^ 32) :: u32)"
  proof -
    define w where "w = (push_bit 32 1 * ucast (exp_base_2 (of_nat L)) :: u64)"
    have "(2 :: nat) ^ L \<le> 2 ^ 30" using L(1) by (intro power_increasing) auto
    moreover have "w = of_nat (2 ^ (32 + L))"
    proof -
      have "ucast (2 ^ L :: u32) = (2 ^ L :: u64)" using L(1) by (intro bit_word_eqI) (auto simp: bit_simps)
      then show ?thesis by (simp add: w_def mid power_add)
    qed
    ultimately have "unat w = 2 ^ (32 + L)" by (intro of_nat_inverse) (auto simp: power_add)
    then have "w div a = of_nat (2 ^ (32 + L) div A)"
      using ua by (metis unat_div of_nat_unat unsigned_word_eqI word_unat_eq_iff ucast_id)
    then have "w div a + 1 - push_bit 32 1 = of_int (int m - 2 ^ 32)" by (simp add: m_def)
    moreover have "ucast (of_int k :: u64) = (of_int k :: u32)" for k
      by (rule bit_word_eqI) (auto simp: bit_simps)
    ultimately show ?thesis by (simp only: w_def)
  qed
  moreover have "a \<noteq> 0" using ua A by auto
  ultimately show thesis
    using L l A by (intro that [of m L])
      (simp_all add: ComputeSDivConstants32_def Let_def m_def flip: a_def A_def)
qed

subsection \<open>Quotients by constants\<close>

text \<open>The 32-bit quotient computed from the constants, step by step as the comments of the source give it.\<close>

definition udiv_by_const :: "u32 \<Rightarrow> u32 \<times> u32 \<times> u32 \<Rightarrow> u32" where
  "udiv_by_const n c =
     (let (mprime, sh1, sh2) = c; t1 = ucast (drop_bit 32 (ucast n * ucast mprime :: u64))
      in drop_bit (unat sh2) (drop_bit (unat sh1) (n - t1) + t1))"

definition sdiv_by_const :: "u32 \<Rightarrow> u32 \<times> u32 \<times> u32 \<Rightarrow> u32" where
  "sdiv_by_const n c =
     (let (mprime, dsign, shpost) = c;
          q = n + ucast (drop_bit 32 (scast n * scast mprime :: u64));
          q0 = ucast (drop_bit (unat shpost) (scast q :: u64)) - (if bit n 31 then - 1 else 0)
      in (q0 XOR dsign) - dsign)"

lemma unat_u32: "unat x < 4294967296" for x :: u32
proof -
  have "unat x < 2 ^ LENGTH(32)" by (rule unsigned_less)
  then show ?thesis by simp
qed

lemma unat_drop: "unat (drop_bit k w) = unat w div 2 ^ k" for w :: "'a::len word"
  using unsigned_drop_bit_eq [of k w, where 'a = nat] by (simp add: drop_bit_eq_div take_bit_nat_eq_self)

lemma unat_hi: "unat (ucast (drop_bit 32 w) :: u32) = unat w div 2 ^ 32" for w :: u64
proof (rule of_nat_inverse)
  show "word_of_nat (unat w div 2 ^ 32) = (ucast (drop_bit 32 w) :: u32)"
    by (metis unat_drop of_nat_unat)
  have "unat w < 2 ^ LENGTH(64)" by (rule unsigned_less)
  then show "unat w div 2 ^ 32 < 2 ^ LENGTH(32)" by (intro less_mult_imp_div_less) simp
qed

lemma udiv_by_const_eq:
  assumes "d \<noteq> 0"
  shows "\<exists>c. ComputeUDivConstants32 d = Some c \<and> udiv_by_const n c = n div d"
proof -
  obtain L m where c: "ComputeUDivConstants32 d = Some (of_nat m, of_nat (min L 1), of_nat (L - 1))" "L \<le> 32"
    "m < 2 ^ 32" "m + 2 ^ 32 = 2 ^ (32 + L) div unat d + 1" "unat d \<le> 2 ^ L" using assms by (rule UDivConstants) blast
  define t where "t = unat n * m div 2 ^ 32"
  have "unat n * m \<le> unat n * 2 ^ 32" using c(3) by simp
  then have tn: "t \<le> unat n" unfolding t_def using div_le_mono [of "unat n * m" "unat n * 2 ^ 32" "2 ^ 32"] by simp
  have um: "unat (of_nat m :: u32) = m" using c(3) by (intro of_nat_inverse) auto
  define t1 :: u32 where "t1 = ucast (drop_bit 32 (ucast n * ucast (of_nat m :: u32) :: u64))"
  have "unat n * m < 2 ^ 32 * 2 ^ 32" using c(3) unat_u32 [of n] by (intro mult_strict_mono) auto
  then have "unat (ucast n * ucast (of_nat m :: u32) :: u64) = unat n * m"
    by (simp add: unat_word_ariths unat_zext um)
  then have t1: "unat t1 = t" by (simp add: t1_def unat_hi t_def)
  have "unat n * (m + 2 ^ 32) div 2 ^ (32 + L) = (unat n + t) div 2 ^ L"
    by (simp add: t_def distrib_left power_add div_mult2_eq)
  then have q: "(unat n + t) div 2 ^ L = unat n div unat d"
    unfolding c(4) using reciprocal [of "unat d" L "unat n" 32] c(5) unat_u32 [of n] assms by (simp add: unat_gt_0)
  have s: "unat (of_nat (min L 1) :: u32) = min L 1" "unat (of_nat (L - 1) :: u32) = L - 1"
    using c(2) by (intro of_nat_inverse; auto)+
  have sub: "unat (n - t1) = unat n - t" using tn t1 by (simp add: unat_sub word_le_nat_alt)
  have "unat (drop_bit (min L 1) (n - t1) + t1) = (if L = 0 then unat n else (unat n + t) div 2)"
  proof (cases "L = 0")
    case False
    have "(unat n - t) div 2 + t = (unat n - t + t * 2) div 2" by simp
    also have "\<dots> = (unat n + t) div 2" using tn by simp
    finally show ?thesis
      using False tn unat_u32 [of n] by (simp add: unat_word_ariths unat_drop sub t1 min_absorb2 Suc_le_eq)
  qed simp
  then have "unat (udiv_by_const n (of_nat m, of_nat (min L 1), of_nat (L - 1))) = (if L = 0 then unat n else (unat n + t) div 2) div 2 ^ (L - 1)"
    unfolding udiv_by_const_def Let_def prod.case t1_def [symmetric] s unat_drop by simp
  also have "\<dots> = unat n div unat d"
    using q c(5) assms by (cases L) (auto simp: div_mult2_eq unat_gt_0 le_Suc_eq)
  finally show ?thesis using c(1) by (auto simp: word_unat_eq_iff unat_div)
qed

lemma word_slice: "k \<le> 32 \<Longrightarrow> ucast (drop_bit k (of_int X :: u64)) = (of_int (X div 2 ^ k) :: u32)"
proof -
  assume "k \<le> 32"
  then have "ucast (drop_bit k (of_int X :: u64)) = (of_int (drop_bit k X) :: u32)"
    by (intro bit_word_eqI) (auto simp: bit_simps)
  then show ?thesis by (simp add: drop_bit_eq_div)
qed

lemma scast_of_int: "scast (of_int F :: u32) = (of_int (signed_take_bit 31 F) :: u64)"
  by (simp add: scast_eq sint_sbintrunc')

lemma sign_word: "signed_drop_bit 31 d = (if sint d < 0 then - 1 else 0)" "bit n 31 \<longleftrightarrow> sint n < 0" for d n :: u32
proof -
  show b: "bit n 31 \<longleftrightarrow> sint n < 0" for n :: u32 using bit_last_iff [of n] by simp
  show "signed_drop_bit 31 d = (if sint d < 0 then - 1 else 0)"
    by (rule bit_word_eqI) (auto simp: bit_simps min_def b Suc_le_eq)
qed

text \<open>The signed core: rounding towards minus infinity, corrected for a negative dividend.\<close>

lemma reciprocal_signed:
  fixes N :: int and A :: nat
  assumes "0 < A" "A \<le> 2 ^ Suc L" "\<bar>N\<bar> \<le> 2 ^ 31" "N < 2 ^ 31"
  shows "N * int (2 ^ (32 + L) div A + 1) div 2 ^ (32 + L) + (if N < 0 then 1 else 0) = sgn N * (\<bar>N\<bar> div int A)"
proof (cases "N < 0")
  case False
  then obtain n where n: "N = int n" by (metis nonneg_int_cases not_less)
  define K M where "K = (2 :: nat) ^ (32 + L)" and "M = K div A + 1"
  have "n * (2 ^ (31 + Suc L) div A + 1) div 2 ^ (31 + Suc L) = n div A"
    using assms n by (intro reciprocal) auto
  then have "n * M div K = n div A" by (simp add: K_def M_def)
  then have "int n * int M div int K = int n div int A" by (metis of_nat_mult zdiv_int)
  then show ?thesis using n by (cases "n = 0") (auto simp: K_def M_def)
next
  case True
  then obtain n where n: "N = - int n" "0 < n" by (metis zero_less_imp_eq_int neg_0_less_iff_less minus_minus of_nat_0_less_iff)
  define K M q where "K = (2 :: nat) ^ (32 + L)" and "M = K div A + 1" and "q = n div A"
  have M: "K < A * M" "A * M \<le> K + A" using assms(1) by (simp_all add: M_def dividend_less_times_div distrib_left)
  have q: "A * q \<le> n" "n + 1 \<le> A * (q + 1)" using assms(1) dividend_less_times_div [of A n] by (auto simp: q_def)
  have "A * (K * q) \<le> K * n" using mult_le_mono2 [OF q(1), of K] by (simp add: ac_simps)
  also have "\<dots> < A * (n * M)" using mult_strict_right_mono [OF M(1), of n] n(2) by (simp add: ac_simps)
  finally have lower: "K * q < n * M" using assms(1) by simp
  have "n * A \<le> 2 ^ 31 * 2 ^ Suc L" using assms n by (intro mult_le_mono) auto
  then have "n * A \<le> K" by (simp add: K_def power_add)
  then have "A * (n * M) \<le> (n + 1) * K" using mult_le_mono2 [OF M(2), of n] by (simp add: algebra_simps)
  also have "\<dots> \<le> A * (K * (q + 1))" using mult_le_mono1 [OF q(2), of K] by (simp add: algebra_simps)
  finally have "n * M \<le> K * (q + 1)" using assms(1) by simp
  then have "- int (n * M) div int K = - int (q + 1)"
    using lower by (intro int_div_pos_eq [where r = "int (K * (q + 1)) - int (n * M)"])
      (auto simp: algebra_simps simp flip: of_nat_mult)
  moreover have "N * int (2 ^ (32 + L) div A + 1) div 2 ^ (32 + L) = - int (n * M) div int K"
    by (simp add: n K_def M_def algebra_simps)
  ultimately show ?thesis using n True by (simp add: q_def zdiv_int)
qed

lemma sdiv_by_const_eq:
  assumes "sint d \<noteq> 0"
  shows "\<exists>c. ComputeSDivConstants32 d = Some c \<and> sdiv_by_const n c = of_int (sint n sdiv sint d)"
proof -
  obtain L m where c: "ComputeSDivConstants32 d = Some (of_int (int m - 2 ^ 32), signed_drop_bit 31 d, of_nat L)"
    and L: "L \<le> 30" and m: "m = 2 ^ (32 + L) div nat \<bar>sint d\<bar> + 1" "nat \<bar>sint d\<bar> \<le> 2 ^ Suc L"
      "2 ^ 31 \<le> m" "m \<le> 2 ^ 32 + 1" "L \<noteq> 0 \<Longrightarrow> m \<le> 2 ^ 32" using assms by (rule SDivConstants) blast
  define N where "N = sint n"
  have N: "- (2 ^ 31) \<le> N" "N < 2 ^ 31" using sint_greater_eq [of n] sint_less [of n] by (simp_all add: N_def)
  have n: "n = of_int N" by (simp add: N_def)
  define F where "F = N * int m div 2 ^ 32"
  have "signed_take_bit 31 (int m - 2 ^ 32) = int m - 2 ^ 32" using m(3,4) by (intro signed_take_bit_int_eq_self) auto
  then have mp: "scast (of_int (int m - 2 ^ 32) :: u32) = (of_int (int m - 2 ^ 32) :: u64)" unfolding scast_of_int by simp
  have e1: "N + N * (int m - 2 ^ 32) div 2 ^ 32 = F"
  proof -
    have "N * int m = N * (int m - 2 ^ 32) + N * 2 ^ 32" by (simp add: algebra_simps)
    then show ?thesis unfolding F_def by simp
  qed
  have e2: "scast n * scast (of_int (int m - 2 ^ 32) :: u32) = (of_int (N * (int m - 2 ^ 32)) :: u64)"
    unfolding mp unfolding scast_eq N_def [symmetric] of_int_mult by (rule refl)
  have q: "n + ucast (drop_bit 32 (scast n * scast (of_int (int m - 2 ^ 32) :: u32) :: u64)) = of_int F"
    unfolding e2 word_slice [OF order_refl] unfolding n of_int_add [symmetric] e1 ..
  have sh: "(of_int (signed_take_bit 31 F div 2 ^ L) :: u32) = of_int (F div 2 ^ L)"
  proof (cases "L = 0")
    case True
    have "(of_int (signed_take_bit 31 F) :: u32) = of_int F" by (simp add: word_of_int_eq_iff take_bit_signed_take_bit)
    with True show ?thesis by simp
  next
    case False
    have "int m \<le> 2 ^ 32" using m(5) [OF False] by simp
    then have "- (2 ^ 31) * 2 ^ 32 \<le> N * int m" "N * int m \<le> (2 ^ 31 - 1) * 2 ^ 32"
      using mult_mono [of "- N" "2 ^ 31" "int m" "2 ^ 32"] mult_mono [of N "2 ^ 31 - 1" "int m" "2 ^ 32"] N
        mult_nonneg_nonneg [of N "int m"] mult_nonneg_nonneg [of "- N" "int m"] by (cases "N < 0"; simp)+
    then have "- (2 ^ 31) \<le> F" "F < 2 ^ 31"
      using zdiv_mono1 [of "- (2 ^ 31) * 2 ^ 32" "N * int m" "2 ^ 32"] zdiv_mono1 [of "N * int m" "(2 ^ 31 - 1) * 2 ^ 32" "2 ^ 32"]
      by (simp_all add: F_def)
    then show ?thesis by (simp add: signed_take_bit_int_eq_self)
  qed
  have f: "F div 2 ^ L = N * int m div 2 ^ (32 + L)" by (simp add: F_def power_add zdiv_zmult2_eq)
  have g: "N * int m div 2 ^ (32 + L) + (if N < 0 then 1 else 0) = sgn N * (\<bar>N\<bar> div \<bar>sint d\<bar>)"
    using reciprocal_signed [of "nat \<bar>sint d\<bar>" L N] assms m(1,2) N by auto
  have b: "(if bit n 31 then - 1 else 0) = (- of_int (if N < 0 then 1 else 0) :: u32)" by (simp add: sign_word N_def)
  have q0: "of_int (F div 2 ^ L) - (if bit n 31 then - 1 else 0) = (of_int (sgn N * (\<bar>N\<bar> div \<bar>sint d\<bar>)) :: u32)"
    unfolding b diff_minus_eq_add of_int_add [symmetric] f g ..
  have uL: "unat (of_nat L :: u32) = L" using L by (intro of_nat_inverse) auto
  have ws: "ucast (drop_bit L (of_int (signed_take_bit 31 F) :: u64)) = (of_int (signed_take_bit 31 F div 2 ^ L) :: u32)"
    using L by (intro word_slice) simp
  have "sdiv_by_const n (of_int (int m - 2 ^ 32), signed_drop_bit 31 d, of_nat L) = of_int (sint n sdiv sint d)"
    unfolding sdiv_by_const_def Let_def prod.case
    unfolding q
    unfolding scast_of_int uL ws sh q0
    using assms by (auto simp: sign_word N_def signed_divide_int_def sgn_if not_eq_complement simp flip: of_int_minus)
  with c show ?thesis by blast
qed

text \<open>
  The constants of a product always exist: the loop of \<open>ComputeMultConstants64\<close> ends, its assertion
  \<open>multiplicand == add - sub\<close> holds for every factor, and no bit is both added and subtracted (the assertion
  of \<open>constructMulByConstant\<close>).
\<close>

theorem mult_constants_exact:
  "\<exists>add sub. ComputeMultConstants64 m = Some (add, sub) \<and> m = add - sub \<and> add AND sub = 0"
proof -
  obtain add sub where "ComputeMultConstants64 m = Some (add, sub)" "m = add - sub" "\<And>i. \<not> (bit add i \<and> bit sub i)"
    by (rule ComputeMultConstants64_ok) blast
  moreover from this have "add AND sub = 0" by (intro bit_word_eqI) (auto simp: bit_simps)
  ultimately show ?thesis by blast
qed

text \<open>
  C31. For every divisor but 0 the constants of the division exist, and the multiplication, additions and
  shifts the builder makes of them give the exact unsigned quotient and the exact quotient rounded towards
  zero, for every dividend, the divisors 1, -1 and \<open>INT_MIN\<close> included; for 0 the code divides by zero.
\<close>

theorem division_constants_exact:
  "ComputeUDivConstants32 0 = None \<and> ComputeSDivConstants32 0 = None \<and>
   (d \<noteq> 0 \<longrightarrow> (\<exists>c. ComputeUDivConstants32 d = Some c \<and> (\<forall>n. udiv_by_const n c = n div d)) \<and>
     (\<exists>c. ComputeSDivConstants32 d = Some c \<and> (\<forall>n. sdiv_by_const n c = of_int (sint n sdiv sint d))))"
proof -
  have "d \<noteq> 0 \<Longrightarrow> sint d \<noteq> 0" by (metis signed_0 signed_word_eqI)
  then show ?thesis
    using udiv_by_const_eq [of d] sdiv_by_const_eq [of d]
    by (auto simp: ComputeUDivConstants32_def ComputeSDivConstants32_def Let_def dest: option.inject [THEN iffD1]) metis+
qed

theorem division_constants_exact_witness:
  "\<exists>c. ComputeSDivConstants32 (- 7) = Some c \<and> sdiv_by_const 100 c = of_int (sint (100 :: u32) sdiv sint (- 7 :: u32))"
  using division_constants_exact [of "- 7"] by auto

end
