(* ===== verification/Expr.thy ===== *)
theory Expr
  imports Prelude "HOL-Library.Signed_Division" "HOL-Library.Monad_Syntax"
begin

unbundle bit_operations_syntax

section \<open>Expressions and their smart constructors\<close>

text \<open>
  \<open>klee/include/klee/Expr/Expr.h\<close> and \<open>klee/lib/Expr/Expr.cpp\<close>: symbolic expressions, the arithmetic of
  constants and the \<open>create\<close> functions that fold constants and rewrite to a canonical form. A constant is its
  width and its value, an \<open>APInt\<close>: an integer from 0 to \<open>2 ^ w - 1\<close>, with the reduction modulo \<open>2 ^ w\<close>
  written out. Equality of expressions is the structural equality of \<open>Expr::compare\<close>; an array is its
  address, so that two arrays of one name differ. \<open>None\<close> is a failed assertion (a type mismatch, a division
  of constants by zero). The command-line option \<open>ConstArrayOpt\<close> is an argument.
\<close>

subsection \<open>Data\<close>

type_synonym width = nat

record array =
  array_ptr :: nat
  array_name :: string
  array_size :: nat
  array_domain :: width
  array_range :: width
  constantValues :: "int list"

datatype binary_kind = Add | Sub | Mul | UDiv | SDiv | URem | SRem | And | Or | Xor | Shl | LShr | AShr
  | Eq | Ne | Ult | Ule | Ugt | Uge | Slt | Sle | Sgt | Sge

datatype expr = ConstantExpr width int
  | NotOptimizedExpr expr
  | ReadExpr array "(expr \<times> expr) list" expr
  | SelectExpr expr expr expr
  | ConcatExpr expr expr
  | ExtractExpr expr nat width
  | ZExtExpr expr width
  | SExtExpr expr width
  | NotExpr expr
  | BinaryExpr binary_kind expr expr

definition is_compare :: "binary_kind \<Rightarrow> bool" where
  "is_compare k \<longleftrightarrow> k \<in> {Eq, Ne, Ult, Ule, Ugt, Uge, Slt, Sle, Sgt, Sge}"

fun getWidth :: "expr \<Rightarrow> width" where
  "getWidth (ConstantExpr w v) = w"
| "getWidth (NotOptimizedExpr e) = getWidth e"
| "getWidth (ReadExpr a us i) = array_range a"
| "getWidth (SelectExpr c t f) = getWidth t"
| "getWidth (ConcatExpr l r) = getWidth l + getWidth r"
| "getWidth (ExtractExpr e off w) = w"
| "getWidth (ZExtExpr e w) = w"
| "getWidth (SExtExpr e w) = w"
| "getWidth (NotExpr e) = getWidth e"
| "getWidth (BinaryExpr k l r) = (if is_compare k then 1 else getWidth l)"

definition isSymbolicArray :: "array \<Rightarrow> bool" where
  "isSymbolicArray a \<longleftrightarrow> constantValues a = []"

fun isConstant :: "expr \<Rightarrow> bool" where
  "isConstant (ConstantExpr w v) = True"
| "isConstant e = False"

subsection \<open>Arithmetic of constants\<close>

text \<open>The value of width \<open>w\<close> read as two's complement.\<close>

definition signed_value :: "width \<Rightarrow> int \<Rightarrow> int" where
  "signed_value w v = signed_take_bit (w - 1) v"

text \<open>The binary operations of \<open>ConstantExpr\<close> on two values of width \<open>w\<close>.\<close>

definition constant_binary :: "binary_kind \<Rightarrow> width \<Rightarrow> int \<Rightarrow> int \<Rightarrow> int" where
  "constant_binary k w a b =
     (case k of
        Add \<Rightarrow> take_bit w (a + b)
      | Sub \<Rightarrow> take_bit w (a - b)
      | Mul \<Rightarrow> take_bit w (a * b)
      | UDiv \<Rightarrow> a div b
      | SDiv \<Rightarrow> take_bit w (signed_value w a sdiv signed_value w b)
      | URem \<Rightarrow> a mod b
      | SRem \<Rightarrow> take_bit w (signed_value w a smod signed_value w b)
      | And \<Rightarrow> a AND b
      | Or \<Rightarrow> a OR b
      | Xor \<Rightarrow> a XOR b
      | Shl \<Rightarrow> (if b < int w then take_bit w (push_bit (nat b) a) else 0)
      | LShr \<Rightarrow> (if b < int w then drop_bit (nat b) a else 0)
      | AShr \<Rightarrow> take_bit w (drop_bit (if b < int w then nat b else w) (signed_value w a))
      | Eq \<Rightarrow> of_bool (a = b)
      | Ne \<Rightarrow> of_bool (a \<noteq> b)
      | Ult \<Rightarrow> of_bool (a < b)
      | Ule \<Rightarrow> of_bool (a \<le> b)
      | Ugt \<Rightarrow> of_bool (a > b)
      | Uge \<Rightarrow> of_bool (a \<ge> b)
      | Slt \<Rightarrow> of_bool (signed_value w a < signed_value w b)
      | Sle \<Rightarrow> of_bool (signed_value w a \<le> signed_value w b)
      | Sgt \<Rightarrow> of_bool (signed_value w a > signed_value w b)
      | Sge \<Rightarrow> of_bool (signed_value w a \<ge> signed_value w b))"

text \<open>\<open>APInt\<close> asserts that a divisor is not 0.\<close>

definition ConstantExpr_binary :: "binary_kind \<Rightarrow> width \<Rightarrow> int \<Rightarrow> int \<Rightarrow> expr option" where
  "ConstantExpr_binary k w a b =
     (if k \<in> {UDiv, SDiv, URem, SRem} \<and> b = 0 then None
      else Some (ConstantExpr (if is_compare k then 1 else w) (constant_binary k w a b)))"

definition constant_concat :: "int \<Rightarrow> width \<Rightarrow> int \<Rightarrow> int" where
  "constant_concat a wr b = push_bit wr a OR b"

definition constant_extract :: "width \<Rightarrow> int \<Rightarrow> nat \<Rightarrow> width \<Rightarrow> int" where
  "constant_extract w v off w' = take_bit w' (take_bit w (drop_bit off (signed_value w v)))"

definition constant_zext :: "int \<Rightarrow> width \<Rightarrow> int" where
  "constant_zext v w' = take_bit w' v"

definition constant_sext :: "width \<Rightarrow> int \<Rightarrow> width \<Rightarrow> int" where
  "constant_sext w v w' = take_bit w' (signed_value w v)"

definition constant_not :: "width \<Rightarrow> int \<Rightarrow> int" where
  "constant_not w v = take_bit w (NOT v)"

definition isTrue :: "width \<Rightarrow> int \<Rightarrow> bool" where
  "isTrue w v \<longleftrightarrow> w = 1 \<and> v \<noteq> 0"

definition isAllOnes :: "width \<Rightarrow> int \<Rightarrow> bool" where
  "isAllOnes w v \<longleftrightarrow> v = mask w"

text \<open>\<open>dyn_cast<ConstantExpr>(e)\<close>, and \<open>e->getKind()==k && isa<ConstantExpr>(e->getKid(0))\<close>.\<close>

fun as_constant :: "expr \<Rightarrow> (width \<times> int) option" where
  "as_constant (ConstantExpr w v) = Some (w, v)"
| "as_constant e = None"

definition constant_left :: "binary_kind \<Rightarrow> expr \<Rightarrow> (width \<times> int \<times> expr) option" where
  "constant_left k e =
     (case e of
        BinaryExpr k' l r \<Rightarrow> if k' = k then map_option (\<lambda>(w, v). (w, v, r)) (as_constant l) else None
      | _ \<Rightarrow> None)"

lemma as_constant_Some [simp]: "as_constant e = Some (w, v) \<longleftrightarrow> e = ConstantExpr w v"
  by (cases e) auto

lemma as_constant_None [simp]: "as_constant e = None \<longleftrightarrow> \<not> isConstant e"
  by (cases e) auto

lemma as_constant_nonconstant [simp]: "\<not> isConstant e \<Longrightarrow> as_constant e = None"
  by simp

lemma constant_left_binary:
  "constant_left k (BinaryExpr k' l r) = (if k' = k then map_option (\<lambda>(w, v). (w, v, r)) (as_constant l) else None)"
  by (simp add: constant_left_def)

lemma constant_left_Some [simp]: "constant_left k e = Some (w, v, r) \<longleftrightarrow> e = BinaryExpr k (ConstantExpr w v) r"
  by (cases e) (auto simp: constant_left_def)

fun as_or :: "expr \<Rightarrow> (expr \<times> expr) option" where
  "as_or (BinaryExpr Or l r) = Some (l, r)"
| "as_or e = None"

lemma as_or_Some [simp]: "as_or e = Some (l, r) \<longleftrightarrow> e = BinaryExpr Or l r"
  by (cases e rule: as_or.cases) auto

subsection \<open>Constructors without recursion\<close>

text \<open>\<open>BCREATE_R\<close>: constants are folded, a constant on either side goes to a partial constructor.\<close>

definition bcreate :: "binary_kind \<Rightarrow> (width \<Rightarrow> int \<Rightarrow> expr \<Rightarrow> expr option) \<Rightarrow> (expr \<Rightarrow> width \<Rightarrow> int \<Rightarrow> expr option) \<Rightarrow>
    (expr \<Rightarrow> expr \<Rightarrow> expr option) \<Rightarrow> expr \<Rightarrow> expr \<Rightarrow> expr option" where
  "bcreate k partialR partialL create l r =
     (if getWidth l \<noteq> getWidth r then None
      else case (l, r) of
        (ConstantExpr w a, ConstantExpr w' b) \<Rightarrow> ConstantExpr_binary k w a b
      | (ConstantExpr w a, _) \<Rightarrow> partialR w a r
      | (_, ConstantExpr w b) \<Rightarrow> partialL l w b
      | _ \<Rightarrow> create l r)"

definition AndExpr_createPartial :: "expr \<Rightarrow> width \<Rightarrow> int \<Rightarrow> expr option" where
  "AndExpr_createPartial l w v =
     Some (if isAllOnes w v then l else if v = 0 then ConstantExpr w v else BinaryExpr And l (ConstantExpr w v))"

definition AndExpr_create :: "expr \<Rightarrow> expr \<Rightarrow> expr option" where
  "AndExpr_create =
     bcreate And (\<lambda>w v r. AndExpr_createPartial r w v) AndExpr_createPartial (\<lambda>l r. Some (BinaryExpr And l r))"

definition OrExpr_createPartial :: "expr \<Rightarrow> width \<Rightarrow> int \<Rightarrow> expr option" where
  "OrExpr_createPartial l w v =
     Some (if isAllOnes w v then ConstantExpr w v else if v = 0 then l else BinaryExpr Or l (ConstantExpr w v))"

definition OrExpr_create :: "expr \<Rightarrow> expr \<Rightarrow> expr option" where
  "OrExpr_create =
     bcreate Or (\<lambda>w v r. OrExpr_createPartial r w v) OrExpr_createPartial (\<lambda>l r. Some (BinaryExpr Or l r))"

definition MulExpr_createPartialR :: "width \<Rightarrow> int \<Rightarrow> expr \<Rightarrow> expr option" where
  "MulExpr_createPartialR w v r =
     (if w = 1 then AndExpr_createPartial r w v
      else Some (if v = 1 then r else if v = 0 then ConstantExpr w v else BinaryExpr Mul (ConstantExpr w v) r))"

definition MulExpr_create :: "expr \<Rightarrow> expr \<Rightarrow> expr option" where
  "MulExpr_create =
     bcreate Mul MulExpr_createPartialR (\<lambda>l w v. MulExpr_createPartialR w v l)
       (\<lambda>l r. Some (BinaryExpr (if getWidth l = 1 then And else Mul) l r))"

definition EqExpr_alloc :: "expr \<Rightarrow> expr \<Rightarrow> expr" where
  "EqExpr_alloc l r = (if l = r then ConstantExpr 1 1 else BinaryExpr Eq l r)"

subsection \<open>Equality\<close>

text \<open>What the recursion of the constructors consumes: the size with constants counted as 0.\<close>

fun weight :: "expr \<Rightarrow> nat" where
  "weight (ConstantExpr w v) = 0"
| "weight (NotOptimizedExpr e) = Suc (weight e)"
| "weight (ReadExpr a us i) = Suc (weight i)"
| "weight (SelectExpr c t f) = Suc (weight c + weight t + weight f)"
| "weight (ConcatExpr l r) = Suc (weight l + weight r)"
| "weight (ExtractExpr e off w) = Suc (weight e)"
| "weight (ZExtExpr e w) = Suc (weight e)"
| "weight (SExtExpr e w) = Suc (weight e)"
| "weight (NotExpr e) = Suc (weight e)"
| "weight (BinaryExpr k l r) = Suc (weight l + weight r)"

lemma weight_nonconstant: "\<not> isConstant e \<Longrightarrow> 0 < weight e"
  by (cases e) auto

text \<open>
  \<open>EqExpr::create\<close>, \<open>EqExpr_createPartialR\<close> and the loop of \<open>TryConstArrayOpt\<close> over the values \<open>cs\<close> from
  position \<open>i\<close> on. A call \<open>SubExpr::create\<close> of two constants is its folding.
\<close>

function (sequential) EqExpr_create :: "bool \<Rightarrow> expr \<Rightarrow> expr \<Rightarrow> expr option"
  and EqExpr_createPartialR :: "bool \<Rightarrow> width \<Rightarrow> int \<Rightarrow> expr \<Rightarrow> expr option"
  and const_array_loop :: "bool \<Rightarrow> width \<Rightarrow> int \<Rightarrow> expr \<Rightarrow> expr \<Rightarrow> int list \<Rightarrow> nat \<Rightarrow> nat \<Rightarrow> expr \<Rightarrow> expr option" where
  "EqExpr_create cao l r =
     (if getWidth l \<noteq> getWidth r then None
      else case as_constant l of
        Some (w, a) \<Rightarrow>
          (case as_constant r of
             Some (_, b) \<Rightarrow> ConstantExpr_binary Eq w a b
           | None \<Rightarrow> EqExpr_createPartialR cao w a r)
      | None \<Rightarrow>
          (case as_constant r of
             Some (w, b) \<Rightarrow> EqExpr_createPartialR cao w b l
           | None \<Rightarrow> Some (EqExpr_alloc l r)))"
| "EqExpr_createPartialR cao w v r =
     (if w = 1 then
        (if isTrue w v then Some r
         else case constant_left Eq r of
           Some (w', a, b) \<Rightarrow> Some (if w' = 1 \<and> \<not> isTrue w' a then b else EqExpr_alloc (ConstantExpr w v) r)
         | None \<Rightarrow>
             (case as_or r of
                Some (a, b) \<Rightarrow>
                  do { x \<leftarrow> EqExpr_create cao a (ConstantExpr (getWidth a) 0);
                       y \<leftarrow> EqExpr_create cao b (ConstantExpr (getWidth b) 0);
                       AndExpr_create x y }
              | None \<Rightarrow> Some (EqExpr_alloc (ConstantExpr w v) r)))
      else case r of
        SExtExpr e t \<Rightarrow>
          (let trunc = constant_zext v (getWidth e)
           in if v = constant_sext (getWidth e) trunc w
              then EqExpr_create cao e (ConstantExpr (getWidth e) trunc) else Some (ConstantExpr 1 0))
      | ZExtExpr e t \<Rightarrow>
          (let trunc = constant_zext v (getWidth e)
           in if v = constant_zext trunc w
              then EqExpr_create cao e (ConstantExpr (getWidth e) trunc) else Some (ConstantExpr 1 0))
      | BinaryExpr k x y \<Rightarrow>
          (case constant_left Add r of
             Some (w', c, b) \<Rightarrow>
               if w \<noteq> w' then None else EqExpr_createPartialR cao w (constant_binary Sub w v c) b
           | None \<Rightarrow>
               (case constant_left Sub r of
                  Some (w', c, b) \<Rightarrow>
                    if w \<noteq> w' then None else EqExpr_createPartialR cao w (constant_binary Sub w c v) b
                | None \<Rightarrow> Some (EqExpr_alloc (ConstantExpr w v) r)))
      | ReadExpr a us i \<Rightarrow>
          (if cao
           then if isSymbolicArray a \<or> us \<noteq> [] then Some (EqExpr_alloc (ConstantExpr w v) r)
             else const_array_loop cao w v r i (take (array_size a) (constantValues a)) 0 0 (ConstantExpr 1 0)
           else Some (EqExpr_alloc (ConstantExpr w v) r))
      | _ \<Rightarrow> Some (EqExpr_alloc (ConstantExpr w v) r))"
| "const_array_loop cao w v rd idx [] i numMatches res = Some res"
| "const_array_loop cao w v rd idx (c # cs) i numMatches res =
     (if v = c
      then if Suc numMatches > 100 then Some (EqExpr_alloc (ConstantExpr w v) rd)
        else do { mayBe \<leftarrow> EqExpr_create cao idx (ConstantExpr (getWidth idx) (take_bit (getWidth idx) (int i)));
                  res' \<leftarrow> OrExpr_create res mayBe;
                  const_array_loop cao w v rd idx cs (Suc i) (Suc numMatches) res' }
      else const_array_loop cao w v rd idx cs (Suc i) numMatches res)"
  by pat_completeness auto
termination
  by (relation "inv_image (less_than <*lex*> less_than) (\<lambda>x. case x of
        Inl (_, l, r) \<Rightarrow> (weight l + weight r, 1)
      | Inr (Inl (_, _, _, r)) \<Rightarrow> (weight r, 0)
      | Inr (Inr (_, _, _, _, idx, cs, _)) \<Rightarrow> (weight idx, 2 + length cs))") auto

declare EqExpr_create.simps [simp del] EqExpr_createPartialR.simps [simp del]

definition createIsZero :: "bool \<Rightarrow> expr \<Rightarrow> expr option" where
  "createIsZero cao e = EqExpr_create cao e (ConstantExpr (getWidth e) 0)"

subsection \<open>Sums and differences\<close>

definition XorExpr_createPartialR :: "bool \<Rightarrow> width \<Rightarrow> int \<Rightarrow> expr \<Rightarrow> expr option" where
  "XorExpr_createPartialR cao w v r =
     (if v = 0 then Some r
      else if w = 1 then EqExpr_createPartialR cao 1 0 r
      else Some (BinaryExpr Xor (ConstantExpr w v) r))"

definition XorExpr_create :: "bool \<Rightarrow> expr \<Rightarrow> expr \<Rightarrow> expr option" where
  "XorExpr_create cao =
     bcreate Xor (XorExpr_createPartialR cao) (\<lambda>l w v. XorExpr_createPartialR cao w v l) (\<lambda>l r. Some (BinaryExpr Xor l r))"

text \<open>
  \<open>AddExpr\<close> and \<open>SubExpr\<close> call each other; the result of an inner call is the argument of an outer one only
  when the outer one has a constant on the other side. A call on two constants is its folding.
\<close>

function (sequential) AddExpr_create :: "bool \<Rightarrow> expr \<Rightarrow> expr \<Rightarrow> expr option"
  and SubExpr_create :: "bool \<Rightarrow> expr \<Rightarrow> expr \<Rightarrow> expr option"
  and AddExpr_createPartialR :: "bool \<Rightarrow> width \<Rightarrow> int \<Rightarrow> expr \<Rightarrow> expr option"
  and SubExpr_createPartialR :: "bool \<Rightarrow> width \<Rightarrow> int \<Rightarrow> expr \<Rightarrow> expr option" where
  "AddExpr_create cao l r =
     (if getWidth l \<noteq> getWidth r then None
      else case as_constant l of
        Some (w, a) \<Rightarrow>
          (case as_constant r of
             Some (_, b) \<Rightarrow> ConstantExpr_binary Add w a b
           | None \<Rightarrow> AddExpr_createPartialR cao w a r)
      | None \<Rightarrow>
          (case as_constant r of
             Some (w, b) \<Rightarrow> AddExpr_createPartialR cao w b l
           | None \<Rightarrow>
               if getWidth l = 1 then Some (BinaryExpr Xor l r)
               else case constant_left Add l of
                 Some (w, k, a) \<Rightarrow> do { x \<leftarrow> AddExpr_create cao a r; AddExpr_create cao (ConstantExpr w k) x }
               | None \<Rightarrow>
                   (case constant_left Sub l of
                      Some (w, k, a) \<Rightarrow> do { x \<leftarrow> SubExpr_create cao r a; AddExpr_create cao (ConstantExpr w k) x }
                    | None \<Rightarrow>
                        (case constant_left Add r of
                           Some (w, k, b) \<Rightarrow> do { x \<leftarrow> AddExpr_create cao l b; AddExpr_create cao (ConstantExpr w k) x }
                         | None \<Rightarrow>
                             (case constant_left Sub r of
                                Some (w, k, b) \<Rightarrow> do { x \<leftarrow> SubExpr_create cao l b; AddExpr_create cao (ConstantExpr w k) x }
                              | None \<Rightarrow> Some (BinaryExpr Add l r))))))"
| "SubExpr_create cao l r =
     (if getWidth l \<noteq> getWidth r then None
      else case as_constant l of
        Some (w, a) \<Rightarrow>
          (case as_constant r of
             Some (_, b) \<Rightarrow> ConstantExpr_binary Sub w a b
           | None \<Rightarrow> SubExpr_createPartialR cao w a r)
      | None \<Rightarrow>
          (case as_constant r of
             Some (w, b) \<Rightarrow> AddExpr_createPartialR cao w (constant_binary Sub w 0 b) l
           | None \<Rightarrow>
               if getWidth l = 1 then Some (BinaryExpr Xor l r)
               else if l = r then Some (ConstantExpr (getWidth l) 0)
               else case constant_left Add l of
                 Some (w, k, a) \<Rightarrow> do { x \<leftarrow> SubExpr_create cao a r; AddExpr_create cao (ConstantExpr w k) x }
               | None \<Rightarrow>
                   (case constant_left Sub l of
                      Some (w, k, a) \<Rightarrow> do { x \<leftarrow> AddExpr_create cao a r; SubExpr_create cao (ConstantExpr w k) x }
                    | None \<Rightarrow>
                        (case constant_left Add r of
                           Some (w, k, b) \<Rightarrow> do { x \<leftarrow> SubExpr_create cao l b; SubExpr_create cao x (ConstantExpr w k) }
                         | None \<Rightarrow>
                             (case constant_left Sub r of
                                Some (w, k, b) \<Rightarrow> do { x \<leftarrow> AddExpr_create cao l b; SubExpr_create cao x (ConstantExpr w k) }
                              | None \<Rightarrow> Some (BinaryExpr Sub l r))))))"
| "AddExpr_createPartialR cao w v r =
     (if w = 1 then XorExpr_createPartialR cao w v r
      else if v = 0 then Some r
      else case constant_left Add r of
        Some (w', b, c) \<Rightarrow>
          if w \<noteq> w' then None else AddExpr_create cao (ConstantExpr w (constant_binary Add w v b)) c
      | None \<Rightarrow>
          (case constant_left Sub r of
             Some (w', b, c) \<Rightarrow>
               if w \<noteq> w' then None else SubExpr_create cao (ConstantExpr w (constant_binary Add w v b)) c
           | None \<Rightarrow> Some (BinaryExpr Add (ConstantExpr w v) r)))"
| "SubExpr_createPartialR cao w v r =
     (if w = 1 then XorExpr_createPartialR cao w v r
      else case constant_left Add r of
        Some (w', b, c) \<Rightarrow>
          if w \<noteq> w' then None else SubExpr_create cao (ConstantExpr w (constant_binary Sub w v b)) c
      | None \<Rightarrow>
          (case constant_left Sub r of
             Some (w', b, c) \<Rightarrow>
               if w \<noteq> w' then None else AddExpr_create cao (ConstantExpr w (constant_binary Sub w v b)) c
           | None \<Rightarrow> Some (BinaryExpr Sub (ConstantExpr w v) r)))"
  by pat_completeness auto
termination
  by (relation "inv_image (less_than <*lex*> less_than <*lex*> less_than) (\<lambda>x. case x of
        Inl (Inl (_, l, r)) \<Rightarrow> (of_bool (\<not> isConstant l \<and> \<not> isConstant r), weight l + weight r, 1)
      | Inl (Inr (_, l, r)) \<Rightarrow> (of_bool (\<not> isConstant l \<and> \<not> isConstant r), weight l + weight r, 1)
      | Inr (Inl (_, _, _, r)) \<Rightarrow> (0, weight r, 0)
      | Inr (Inr (_, _, _, r)) \<Rightarrow> (0 :: nat, weight r, 0 :: nat))") (auto simp: weight_nonconstant)

declare AddExpr_create.simps [simp del] SubExpr_create.simps [simp del] AddExpr_createPartialR.simps [simp del]
  SubExpr_createPartialR.simps [simp del]

subsection \<open>Concatenation and extraction\<close>

text \<open>\<open>dyn_cast\<close> to the two kinds.\<close>

fun as_extract :: "expr \<Rightarrow> (expr \<times> nat \<times> width) option" where
  "as_extract (ExtractExpr e off w) = Some (e, off, w)"
| "as_extract e = None"

fun as_concat :: "expr \<Rightarrow> (expr \<times> expr) option" where
  "as_concat (ConcatExpr l r) = Some (l, r)"
| "as_concat e = None"

lemma as_extract_Some [simp]: "as_extract e = Some (x, off, w) \<longleftrightarrow> e = ExtractExpr x off w"
  by (cases e) auto

lemma as_concat_Some [simp]: "as_concat e = Some (l, r) \<longleftrightarrow> e = ConcatExpr l r"
  by (cases e) auto

text \<open>Two extracts of one expression where the left one begins where the right one ends.\<close>

definition contiguous :: "expr \<Rightarrow> expr \<Rightarrow> (expr \<times> nat) option" where
  "contiguous l r =
     (case (as_extract l, as_extract r) of
        (Some (e, offl, wl), Some (e', offr, wr)) \<Rightarrow> if e = e' \<and> offr + wr = offl then Some (e, offr) else None
      | _ \<Rightarrow> None)"

lemma contiguous_Some:
  "contiguous l r = Some (e, off) \<longleftrightarrow> (\<exists>wl wr. l = ExtractExpr e (off + wr) wl \<and> r = ExtractExpr e off wr)"
  by (cases l; cases r) (auto simp: contiguous_def)

text \<open>The weight of what an extraction takes its bits from.\<close>

definition inner_weight :: "expr \<Rightarrow> nat" where
  "inner_weight e = (case as_extract e of Some (x, _) \<Rightarrow> weight x | None \<Rightarrow> 0)"

lemma inner_weight_simps [simp]:
  "inner_weight (ExtractExpr e off w) = weight e" "inner_weight (ConstantExpr w v) = 0"
  "inner_weight (ConcatExpr l r) = 0"
  by (simp_all add: inner_weight_def)

lemma inner_weight_le: "inner_weight e \<le> weight e"
  by (cases e) (auto simp: inner_weight_def)

text \<open>
  \<open>ConcatExpr::create\<close> and \<open>ExtractExpr::create\<close> call each other, and the arguments of a concatenation are
  the results of extractions.
\<close>

function ConcatExpr_create :: "expr \<Rightarrow> expr \<Rightarrow> expr option"
  and ExtractExpr_create :: "expr \<Rightarrow> nat \<Rightarrow> width \<Rightarrow> expr option" where
  "ConcatExpr_create l r =
     (case (as_constant l, as_constant r) of
        (Some (wl, a), Some (wr, b)) \<Rightarrow> Some (ConstantExpr (wl + wr) (constant_concat a wr b))
      | _ \<Rightarrow>
          (case contiguous l r of
             Some (e, off) \<Rightarrow> ExtractExpr_create e off (getWidth l + getWidth r)
           | None \<Rightarrow> Some (ConcatExpr l r)))"
| "ExtractExpr_create e off w =
     (if \<not> (0 < w \<and> off + w \<le> getWidth e) then None
      else if w = getWidth e then Some e
      else case as_constant e of
        Some (kw, v) \<Rightarrow> Some (ConstantExpr w (constant_extract kw v off w))
      | None \<Rightarrow>
          (case as_concat e of
             Some (l, r) \<Rightarrow>
               if getWidth r \<le> off then ExtractExpr_create l (off - getWidth r) w
               else if off + w \<le> getWidth r then ExtractExpr_create r off w
               else do { x \<leftarrow> ExtractExpr_create l 0 (w + off - getWidth r);
                         y \<leftarrow> ExtractExpr_create r off (getWidth r - off);
                         ConcatExpr_create x y }
           | None \<Rightarrow> Some (ExtractExpr e off w)))"
  by pat_completeness auto

termination
proof -
  txt \<open>On arguments where both return, an extraction never digs out a heavier expression.\<close>
  have weights:
    "ConcatExpr_create_ExtractExpr_create_dom (Inl (l, r)) \<Longrightarrow>
       \<forall>x. ConcatExpr_create l r = Some x \<longrightarrow> inner_weight x \<le> inner_weight l"
    "ConcatExpr_create_ExtractExpr_create_dom (Inr (e, off, w)) \<Longrightarrow>
       \<forall>x. ExtractExpr_create e off w = Some x \<longrightarrow> inner_weight x \<le> weight e" for l r e off w
  proof (induction l r and e off w rule: ConcatExpr_create_ExtractExpr_create.pinduct)
    case (1 l r)
    note eq = ConcatExpr_create.psimps [OF 1(1)]
    show ?case
    proof (cases "contiguous l r")
      case None
      then show ?thesis unfolding eq by (auto split: option.splits)
    next
      case (Some p)
      then obtain x o1 wl wr where p: "l = ExtractExpr x (o1 + wr) wl" "r = ExtractExpr x o1 wr" "p = (x, o1)"
        by (cases p) (auto simp: contiguous_Some)
      then show ?thesis using 1(2) [OF refl _ Some, of x o1] Some unfolding eq by simp
    qed
  next
    case (2 e off w)
    note eq = ExtractExpr_create.psimps [OF 2(1)]
    show ?case
    proof (cases "\<not> (0 < w \<and> off + w \<le> getWidth e) \<or> w = getWidth e \<or> as_concat e = None")
      case True
      then show ?thesis unfolding eq by (auto split: option.splits if_splits simp: inner_weight_le)
    next
      case False
      then obtain l r where e: "as_concat e = Some (l, r)" "e = ConcatExpr l r" by (cases e) auto
      have k: "as_constant e = None" using e by simp
      note ih = 2(2-6) [unfolded not_not, OF _ _ k e(1) refl]
      have w: "0 < w \<and> off + w \<le> getWidth e" "w \<noteq> getWidth e" using False by auto
      show ?thesis
        using ih(1) [OF w] ih(2) [OF w] ih(3) [OF w] ih(5) [OF w] w e(2) unfolding eq
        by (auto simp: bind_eq_Some_conv split: if_splits) fastforce+
    qed
  qed
  show ?thesis
    by (relation "measure (\<lambda>x. case x of
          Inl (l, r) \<Rightarrow> Suc (2 * inner_weight l)
        | Inr (e, _) \<Rightarrow> 2 * weight e)") (auto simp: contiguous_Some dest: weights)
qed

declare ConcatExpr_create.simps [simp del] ExtractExpr_create.simps [simp del]

definition NotExpr_create :: "expr \<Rightarrow> expr option" where
  "NotExpr_create e =
     Some (case as_constant e of Some (w, v) \<Rightarrow> ConstantExpr w (constant_not w v) | None \<Rightarrow> NotExpr e)"

definition ZExtExpr_create :: "expr \<Rightarrow> width \<Rightarrow> expr option" where
  "ZExtExpr_create e w =
     (if w = getWidth e then Some e
      else if w < getWidth e then ExtractExpr_create e 0 w
      else case as_constant e of
        Some (_, v) \<Rightarrow> Some (ConstantExpr w (constant_zext v w))
      | None \<Rightarrow> Some (ZExtExpr e w))"

definition SExtExpr_create :: "expr \<Rightarrow> width \<Rightarrow> expr option" where
  "SExtExpr_create e w =
     (if w = getWidth e then Some e
      else if w < getWidth e then ExtractExpr_create e 0 w
      else case as_constant e of
        Some (kw, v) \<Rightarrow> Some (ConstantExpr w (constant_sext kw v w))
      | None \<Rightarrow> Some (SExtExpr e w))"

subsection \<open>The other operations\<close>

text \<open>\<open>BCREATE\<close> and \<open>CMPCREATE\<close>: only constants are folded.\<close>

definition bcreate_fold :: "binary_kind \<Rightarrow> (expr \<Rightarrow> expr \<Rightarrow> expr option) \<Rightarrow> expr \<Rightarrow> expr \<Rightarrow> expr option" where
  "bcreate_fold k create l r =
     (if getWidth l \<noteq> getWidth r then None
      else case (as_constant l, as_constant r) of
        (Some (w, a), Some (_, b)) \<Rightarrow> ConstantExpr_binary k w a b
      | _ \<Rightarrow> create l r)"

definition division_create :: "binary_kind \<Rightarrow> expr \<Rightarrow> expr \<Rightarrow> expr option" where
  "division_create k = bcreate_fold k (\<lambda>l r. Some (if getWidth l = 1 then l else BinaryExpr k l r))"

definition remainder_create :: "binary_kind \<Rightarrow> expr \<Rightarrow> expr \<Rightarrow> expr option" where
  "remainder_create k = bcreate_fold k (\<lambda>l r. Some (if getWidth l = 1 then ConstantExpr 1 0 else BinaryExpr k l r))"

definition shift_create :: "bool \<Rightarrow> binary_kind \<Rightarrow> expr \<Rightarrow> expr \<Rightarrow> expr option" where
  "shift_create cao k = bcreate_fold k (\<lambda>l r.
     if getWidth l = 1 then do { z \<leftarrow> createIsZero cao r; AndExpr_create l z } else Some (BinaryExpr k l r))"

definition AShrExpr_create :: "expr \<Rightarrow> expr \<Rightarrow> expr option" where
  "AShrExpr_create = bcreate_fold AShr (\<lambda>l r. Some (if getWidth l = 1 then l else BinaryExpr AShr l r))"

definition UltExpr_create :: "bool \<Rightarrow> expr \<Rightarrow> expr \<Rightarrow> expr option" where
  "UltExpr_create cao = bcreate_fold Ult (\<lambda>l r.
     if getWidth l = 1 then do { z \<leftarrow> createIsZero cao l; AndExpr_create z r } else Some (BinaryExpr Ult l r))"

definition UleExpr_create :: "bool \<Rightarrow> expr \<Rightarrow> expr \<Rightarrow> expr option" where
  "UleExpr_create cao = bcreate_fold Ule (\<lambda>l r.
     if getWidth l = 1 then do { z \<leftarrow> createIsZero cao l; OrExpr_create z r } else Some (BinaryExpr Ule l r))"

definition SltExpr_create :: "bool \<Rightarrow> expr \<Rightarrow> expr \<Rightarrow> expr option" where
  "SltExpr_create cao = bcreate_fold Slt (\<lambda>l r.
     if getWidth l = 1 then do { z \<leftarrow> createIsZero cao r; AndExpr_create l z } else Some (BinaryExpr Slt l r))"

definition SleExpr_create :: "bool \<Rightarrow> expr \<Rightarrow> expr \<Rightarrow> expr option" where
  "SleExpr_create cao = bcreate_fold Sle (\<lambda>l r.
     if getWidth l = 1 then do { z \<leftarrow> createIsZero cao r; OrExpr_create l z } else Some (BinaryExpr Sle l r))"

definition NeExpr_create :: "bool \<Rightarrow> expr \<Rightarrow> expr \<Rightarrow> expr option" where
  "NeExpr_create cao l r = do { e \<leftarrow> EqExpr_create cao l r; EqExpr_create cao (ConstantExpr 1 0) e }"

definition SelectExpr_create :: "bool \<Rightarrow> expr \<Rightarrow> expr \<Rightarrow> expr \<Rightarrow> expr option" where
  "SelectExpr_create cao c t f =
     (if getWidth c \<noteq> 1 \<or> getWidth t \<noteq> getWidth f then None
      else case as_constant c of
        Some (w, v) \<Rightarrow> Some (if isTrue w v then t else f)
      | None \<Rightarrow>
          if t = f then Some t
          else case (if getWidth t = 1 then (as_constant t, as_constant f) else (None, None)) of
            (Some (w, v), _) \<Rightarrow>
              if isTrue w v then OrExpr_create c f else do { z \<leftarrow> createIsZero cao c; AndExpr_create z f }
          | (None, Some (w, v)) \<Rightarrow>
              if isTrue w v then do { z \<leftarrow> createIsZero cao c; OrExpr_create z t } else AndExpr_create c t
          | (None, None) \<Rightarrow> Some (SelectExpr c t f))"

definition createImplies :: "bool \<Rightarrow> expr \<Rightarrow> expr \<Rightarrow> expr option" where
  "createImplies cao hyp conc = do { z \<leftarrow> createIsZero cao hyp; OrExpr_create z conc }"

text \<open>\<open>Expr::createFromKind\<close> on two expressions: all binary kinds.\<close>

definition createFromKind :: "bool \<Rightarrow> binary_kind \<Rightarrow> expr \<Rightarrow> expr \<Rightarrow> expr option" where
  "createFromKind cao k l r =
     (case k of
        Add \<Rightarrow> AddExpr_create cao l r
      | Sub \<Rightarrow> SubExpr_create cao l r
      | Mul \<Rightarrow> MulExpr_create l r
      | UDiv \<Rightarrow> division_create UDiv l r
      | SDiv \<Rightarrow> division_create SDiv l r
      | URem \<Rightarrow> remainder_create URem l r
      | SRem \<Rightarrow> remainder_create SRem l r
      | And \<Rightarrow> AndExpr_create l r
      | Or \<Rightarrow> OrExpr_create l r
      | Xor \<Rightarrow> XorExpr_create cao l r
      | Shl \<Rightarrow> shift_create cao Shl l r
      | LShr \<Rightarrow> shift_create cao LShr l r
      | AShr \<Rightarrow> AShrExpr_create l r
      | Eq \<Rightarrow> EqExpr_create cao l r
      | Ne \<Rightarrow> NeExpr_create cao l r
      | Ult \<Rightarrow> UltExpr_create cao l r
      | Ule \<Rightarrow> UleExpr_create cao l r
      | Ugt \<Rightarrow> UltExpr_create cao r l
      | Uge \<Rightarrow> UleExpr_create cao r l
      | Slt \<Rightarrow> SltExpr_create cao l r
      | Sle \<Rightarrow> SleExpr_create cao l r
      | Sgt \<Rightarrow> SltExpr_create cao r l
      | Sge \<Rightarrow> SleExpr_create cao r l)"

subsection \<open>Reads\<close>

text \<open>
  The loop of \<open>ReadExpr::create\<close> over the updates, the most recent one first: a value found, or the rest of
  the list at the update whose index may or may not be the one read (\<open>True\<close>) or at its end (\<open>False\<close>).
\<close>

fun read_loop :: "bool \<Rightarrow> expr \<Rightarrow> (expr \<times> expr) list \<Rightarrow> (expr + (expr \<times> expr) list \<times> bool) option" where
  "read_loop cao index [] = Some (Inr ([], False))"
| "read_loop cao index ((i, v) # us) =
     (case EqExpr_create cao index i of
        None \<Rightarrow> None
      | Some cond \<Rightarrow>
          (case as_constant cond of
             Some (w, b) \<Rightarrow> if isTrue w b then Some (Inl v) else read_loop cao index us
           | None \<Rightarrow> Some (Inr ((i, v) # us, True))))"

definition ReadExpr_create :: "bool \<Rightarrow> array \<Rightarrow> (expr \<times> expr) list \<Rightarrow> expr \<Rightarrow> expr option" where
  "ReadExpr_create cao a us index =
     (case read_loop cao index us of
        None \<Rightarrow> None
      | Some (Inl v) \<Rightarrow> Some v
      | Some (Inr (rest, symbolic)) \<Rightarrow>
          (case as_constant index of
             Some (w, i) \<Rightarrow>
               if w > 64 then None
               else if \<not> isSymbolicArray a \<and> \<not> symbolic \<and> i < int (array_size a)
               then Some (ConstantExpr (array_range a) (constantValues a ! nat i))
               else if i < int (array_size a) then Some (ReadExpr a rest index)
               else Some (ReadExpr a us index)
           | None \<Rightarrow> Some (ReadExpr a us index)))"

end
