(* ===== verification/Expr_Sound.thy ===== *)
theory Expr_Sound
  imports Expr
begin

unbundle bit_operations_syntax

declare One_nat_def [simp del]

section \<open>Soundness of the constructors\<close>

text \<open>
  The value of an expression under an assignment of initial contents to the arrays (what
  \<open>klee/lib/Expr/ExprEvaluator.cpp\<close> computes for a complete assignment; a constant array reads 0 out of
  its bounds), well-typed expressions, and the
  theorem that every constructor of \<open>Expr\<close> returns a well-typed expression of the right width with the value
  of the operation on the values of its arguments.
\<close>

subsection \<open>Values\<close>

type_synonym assignment = "array \<Rightarrow> nat \<Rightarrow> int"

definition initial_value :: "assignment \<Rightarrow> array \<Rightarrow> int \<Rightarrow> int" where
  "initial_value env a i =
     (if isSymbolicArray a then take_bit (array_range a) (env a (nat i))
      else if i < int (array_size a) then constantValues a ! nat i
      else 0)"

fun read_value :: "(int \<times> int) list \<Rightarrow> int \<Rightarrow> int \<Rightarrow> int" where
  "read_value [] i d = d"
| "read_value ((j, v) # us) i d = (if i = j then v else read_value us i d)"

fun eval :: "assignment \<Rightarrow> expr \<Rightarrow> int" where
  "eval env (ConstantExpr w v) = v"
| "eval env (NotOptimizedExpr e) = eval env e"
| "eval env (ReadExpr a us i) =
     read_value (map (\<lambda>(x, y). (eval env x, eval env y)) us) (eval env i) (initial_value env a (eval env i))"
| "eval env (SelectExpr c t f) = (if eval env c \<noteq> 0 then eval env t else eval env f)"
| "eval env (ConcatExpr l r) = constant_concat (eval env l) (getWidth r) (eval env r)"
| "eval env (ExtractExpr e off w) = take_bit w (drop_bit off (eval env e))"
| "eval env (ZExtExpr e w) = eval env e"
| "eval env (SExtExpr e w) = constant_sext (getWidth e) (eval env e) w"
| "eval env (NotExpr e) = constant_not (getWidth e) (eval env e)"
| "eval env (BinaryExpr k l r) = constant_binary k (getWidth l) (eval env l) (eval env r)"

subsection \<open>Well-typed expressions\<close>

definition in_width :: "width \<Rightarrow> int \<Rightarrow> bool" where
  "in_width w v \<longleftrightarrow> 0 \<le> v \<and> v < 2 ^ w"

definition array_ok :: "array \<Rightarrow> bool" where
  "array_ok a \<longleftrightarrow> 0 < array_domain a \<and> array_domain a \<le> 32 \<and> 0 < array_range a \<and> array_size a \<le> 2 ^ array_domain a \<and>
     (constantValues a = [] \<or> length (constantValues a) = array_size a) \<and>
     list_all (in_width (array_range a)) (constantValues a)"

text \<open>
  With the optimisation of constant arrays (\<open>cao\<close>) a read of a constant array is expected within its bounds.
\<close>

fun well_typed :: "bool \<Rightarrow> assignment \<Rightarrow> expr \<Rightarrow> bool" where
  "well_typed cao env (ConstantExpr w v) \<longleftrightarrow> 0 < w \<and> in_width w v"
| "well_typed cao env (NotOptimizedExpr e) \<longleftrightarrow> well_typed cao env e"
| "well_typed cao env (ReadExpr a us i) \<longleftrightarrow> array_ok a \<and> well_typed cao env i \<and> getWidth i = array_domain a \<and>
     list_all (\<lambda>(x, y). well_typed cao env x \<and> getWidth x = array_domain a \<and>
       well_typed cao env y \<and> getWidth y = array_range a) us \<and>
     (cao \<and> \<not> isSymbolicArray a \<longrightarrow> eval env i < int (array_size a))"
| "well_typed cao env (SelectExpr c t f) \<longleftrightarrow> well_typed cao env c \<and> getWidth c = 1 \<and>
     well_typed cao env t \<and> well_typed cao env f \<and> getWidth t = getWidth f"
| "well_typed cao env (ConcatExpr l r) \<longleftrightarrow> well_typed cao env l \<and> well_typed cao env r"
| "well_typed cao env (ExtractExpr e off w) \<longleftrightarrow> well_typed cao env e \<and> 0 < w \<and> off + w \<le> getWidth e"
| "well_typed cao env (ZExtExpr e w) \<longleftrightarrow> well_typed cao env e \<and> getWidth e \<le> w"
| "well_typed cao env (SExtExpr e w) \<longleftrightarrow> well_typed cao env e \<and> getWidth e \<le> w"
| "well_typed cao env (NotExpr e) \<longleftrightarrow> well_typed cao env e"
| "well_typed cao env (BinaryExpr k l r) \<longleftrightarrow> well_typed cao env l \<and> well_typed cao env r \<and> getWidth l = getWidth r"

text \<open>A constructor's result: it returns, well-typed, of width \<open>w\<close> and value \<open>v\<close>.\<close>

definition gives :: "bool \<Rightarrow> assignment \<Rightarrow> width \<Rightarrow> int \<Rightarrow> expr option \<Rightarrow> bool" where
  "gives cao env w v r \<longleftrightarrow> (\<exists>e. r = Some e \<and> well_typed cao env e \<and> getWidth e = w \<and> eval env e = v)"

subsection \<open>Ranges\<close>

lemma in_width_take_bit [simp]: "in_width w (take_bit w v)"
  by (simp add: in_width_def)

lemma in_width_01 [simp]: "in_width w 0" "in_width w 1 \<longleftrightarrow> 0 < w"
  by (cases "w = 0"; simp add: in_width_def one_less_power)+

lemma in_width_iff: "in_width w v \<longleftrightarrow> take_bit w v = v"
  by (auto simp: in_width_def take_bit_int_eq_self_iff)

lemma in_width_of_bool [simp]: "in_width 1 (of_bool b)"
  by (simp add: in_width_def)

lemma in_width_mono: "in_width w v \<Longrightarrow> w \<le> w' \<Longrightarrow> in_width w' v"
  using power_increasing [of w w' "2 :: int"] by (auto simp: in_width_def intro: less_le_trans)

lemma in_width_1: "in_width 1 v \<longleftrightarrow> v = 0 \<or> v = 1"
  by (auto simp: in_width_def)

lemma in_width_logic:
  assumes "in_width w a" "in_width w b"
  shows "in_width w (a AND b)" "in_width w (a OR b)" "in_width w (a XOR b)"
  using assms by (simp_all add: in_width_iff)

lemma in_width_div:
  assumes "in_width w a" "0 \<le> b"
  shows "in_width w (a div b)" "in_width w (a mod b)"
proof -
  obtain n m where ab: "a = int n" "b = int m" using assms by (metis in_width_def nonneg_int_cases)
  have "int n div int m \<le> int n" "int n mod int m \<le> int n" by (simp_all flip: zdiv_int zmod_int)
  moreover have "0 \<le> int n div int m" "0 \<le> int n mod int m" by (simp_all flip: zdiv_int zmod_int)
  ultimately show "in_width w (a div b)" "in_width w (a mod b)" using assms(1) unfolding ab in_width_def by linarith+
qed

lemma in_width_binary:
  assumes "in_width w a" "in_width w b"
  shows "in_width (if is_compare k then 1 else w) (constant_binary k w a b)"
proof -
  have "0 \<le> b" using assms(2) by (simp add: in_width_def)
  moreover have "in_width w (drop_bit (nat b) a)" unfolding drop_bit_eq_div using assms(1) by (intro in_width_div) simp_all
  ultimately show ?thesis
    using in_width_logic [OF assms] in_width_div [OF assms(1), of b]
    by (cases k) (simp_all add: constant_binary_def is_compare_def)
qed

lemma in_width_read_value:
  "in_width w d \<Longrightarrow> list_all (\<lambda>(j, v). in_width w v) us \<Longrightarrow> in_width w (read_value us i d)"
  by (induction us i d rule: read_value.induct) auto

lemma in_width_initial: "array_ok a \<Longrightarrow> 0 \<le> i \<Longrightarrow> in_width (array_range a) (initial_value env a i)"
  by (auto simp: initial_value_def array_ok_def isSymbolicArray_def list_all_length)

lemma in_width_bit: "in_width w v \<Longrightarrow> bit v n \<Longrightarrow> n < w"
  by (metis bit_take_bit_iff in_width_iff)

lemma in_width_bitI: "(\<And>n. bit v n \<Longrightarrow> n < w) \<Longrightarrow> in_width w v"
  unfolding in_width_iff by (rule bit_eqI) (auto simp: bit_simps)

lemma in_width_concat:
  assumes "in_width wl a" "in_width wr b"
  shows "in_width (wl + wr) (constant_concat a wr b)"
proof (rule in_width_bitI)
  fix n :: nat
  assume "bit (constant_concat a wr b) n"
  then show "n < wl + wr"
    using in_width_bit [OF assms(1), of "n - wr"] in_width_bit [OF assms(2), of n]
    by (auto simp: constant_concat_def bit_simps)
qed

lemma eval_in_width: "well_typed cao env e \<Longrightarrow> 0 < getWidth e \<and> in_width (getWidth e) (eval env e)"
proof (induction cao env e rule: well_typed.induct)
  case (3 cao env a us i)
  have "in_width (array_range a) (initial_value env a (eval env i))"
    using 3 by (intro in_width_initial) (auto simp: in_width_def)
  moreover have "list_all (\<lambda>(j, v). in_width (array_range a) v) (map (\<lambda>(x, y). (eval env x, eval env y)) us)"
    using 3(3) 3(4) by (fastforce simp: list_all_iff)
  ultimately show ?case using 3(4) by (auto simp: array_ok_def intro: in_width_read_value)
next
  case (7 cao env e w)
  then show ?case by (auto intro: in_width_mono)
next
  case (10 cao env k l r)
  then show ?case using in_width_binary [of "getWidth l" "eval env l" "eval env r" k] by auto
qed (auto simp: in_width_concat constant_sext_def constant_not_def)

subsection \<open>Folding and the constructors without recursion\<close>

lemma gives_bind: "gives cao env w v r \<Longrightarrow> (\<And>e. well_typed cao env e \<Longrightarrow> getWidth e = w \<Longrightarrow> eval env e = v \<Longrightarrow>
    gives cao env w' v' (f e)) \<Longrightarrow> gives cao env w' v' (r \<bind> f)"
  by (auto simp: gives_def)

lemma gives_Some [simp]: "gives cao env w v (Some e) \<longleftrightarrow> well_typed cao env e \<and> getWidth e = w \<and> eval env e = v"
  by (auto simp: gives_def)

lemma gives_fold:
  assumes "in_width w a" "in_width w b" "0 < w" "k \<in> {UDiv, SDiv, URem, SRem} \<Longrightarrow> b \<noteq> 0"
  shows "gives cao env (if is_compare k then 1 else w) (constant_binary k w a b) (ConstantExpr_binary k w a b)"
  using assms in_width_binary [OF assms(1,2), of k] by (auto simp: ConstantExpr_binary_def)

text \<open>The width and the value that a binary operation is to give.\<close>

definition gives_binary :: "bool \<Rightarrow> assignment \<Rightarrow> binary_kind \<Rightarrow> expr \<Rightarrow> expr \<Rightarrow> expr option \<Rightarrow> bool" where
  "gives_binary cao env k l r res \<longleftrightarrow>
     gives cao env (if is_compare k then 1 else getWidth l) (constant_binary k (getWidth l) (eval env l) (eval env r)) res"

text \<open>Both operands are well-typed and of one width.\<close>

definition operands :: "bool \<Rightarrow> assignment \<Rightarrow> expr \<Rightarrow> expr \<Rightarrow> bool" where
  "operands cao env l r \<longleftrightarrow> well_typed cao env l \<and> well_typed cao env r \<and> getWidth l = getWidth r"

lemma alloc_binary: "operands cao env l r \<Longrightarrow> gives_binary cao env k l r (Some (BinaryExpr k l r))"
  by (simp add: gives_binary_def operands_def)

lemma bcreate_gives:
  assumes "operands cao env l r" "k \<in> {UDiv, SDiv, URem, SRem} \<Longrightarrow> eval env r \<noteq> 0"
    "\<And>w v. l = ConstantExpr w v \<Longrightarrow> gives_binary cao env k l r (partialR w v r)"
    "\<And>w v. r = ConstantExpr w v \<Longrightarrow> gives_binary cao env k l r (partialL l w v)"
    "gives_binary cao env k l r (create l r)"
  shows "gives_binary cao env k l r (bcreate k partialR partialL create l r)"
proof (cases "isConstant l \<and> isConstant r")
  case True
  then obtain w a w' b where "l = ConstantExpr w a" "r = ConstantExpr w' b" by (cases l; cases r) auto
  with assms(1,2) show ?thesis
    using gives_fold [of w a b k cao env] by (auto simp: bcreate_def gives_binary_def operands_def)
next
  case False
  then show ?thesis
    using assms by (cases l; cases r) (auto simp: bcreate_def operands_def)
qed

lemma binary_commute: "k \<in> {Add, Mul, And, Or, Xor, Eq} \<Longrightarrow> constant_binary k w a b = constant_binary k w b a"
  by (auto simp: constant_binary_def ac_simps)

lemma gives_commute:
  "k \<in> {Add, Mul, And, Or, Xor, Eq} \<Longrightarrow> getWidth l = getWidth r \<Longrightarrow> gives_binary cao env k l r = gives_binary cao env k r l"
  by (auto simp: gives_binary_def fun_eq_iff binary_commute [of k _ "eval env l"])

lemma mask_logic:
  assumes "in_width w a"
  shows "a AND mask w = a" "a OR mask w = mask w"
proof -
  show "a AND mask w = a" using assms by (simp add: in_width_iff take_bit_eq_mask)
  show "a OR mask w = mask w" by (rule bit_eqI) (auto simp: bit_simps in_width_bit [OF assms])
qed

lemma AndExpr_createPartial_gives:
  "operands cao env l (ConstantExpr w v) \<Longrightarrow> gives_binary cao env And l (ConstantExpr w v) (AndExpr_createPartial l w v)"
  using mask_logic(1) [of w "eval env l"] eval_in_width [of cao env l]
  by (auto simp: gives_binary_def operands_def AndExpr_createPartial_def isAllOnes_def constant_binary_def is_compare_def)

lemma AndExpr_create_gives: "operands cao env l r \<Longrightarrow> gives_binary cao env And l r (AndExpr_create l r)"
  unfolding AndExpr_create_def
  by (rule bcreate_gives)
    (auto simp: alloc_binary gives_commute [of And "ConstantExpr _ _"] operands_def intro!: AndExpr_createPartial_gives)

lemma OrExpr_createPartial_gives:
  "operands cao env l (ConstantExpr w v) \<Longrightarrow> gives_binary cao env Or l (ConstantExpr w v) (OrExpr_createPartial l w v)"
  using mask_logic(2) [of w "eval env l"] eval_in_width [of cao env l]
  by (auto simp: gives_binary_def operands_def OrExpr_createPartial_def isAllOnes_def constant_binary_def is_compare_def)

lemma OrExpr_create_gives: "operands cao env l r \<Longrightarrow> gives_binary cao env Or l r (OrExpr_create l r)"
  unfolding OrExpr_create_def
  by (rule bcreate_gives)
    (auto simp: alloc_binary gives_commute [of Or "ConstantExpr _ _"] operands_def intro!: OrExpr_createPartial_gives)

text \<open>On truth values a product is a conjunction, and a sum or a difference is an exclusive or.\<close>

lemma bool_arith:
  assumes "in_width 1 a" "in_width 1 b"
  shows "constant_binary Mul 1 a b = constant_binary And 1 a b" "constant_binary Add 1 a b = constant_binary Xor 1 a b"
    "constant_binary Sub 1 a b = constant_binary Xor 1 a b"
  using assms by (auto simp: in_width_1 constant_binary_def mask_eq_exp_minus_1)

lemma gives_bool:
  assumes "operands cao env l r" "getWidth l = 1"
  shows "gives_binary cao env Add l r = gives_binary cao env Xor l r" "gives_binary cao env Sub l r = gives_binary cao env Xor l r"
    "gives_binary cao env Mul l r = gives_binary cao env And l r"
  using assms bool_arith [of "eval env l" "eval env r"] eval_in_width [of cao env l] eval_in_width [of cao env r]
  by (auto simp: gives_binary_def operands_def is_compare_def fun_eq_iff)

lemma MulExpr_createPartialR_gives:
  assumes "operands cao env (ConstantExpr w v) r"
  shows "gives_binary cao env Mul (ConstantExpr w v) r (MulExpr_createPartialR w v r)"
proof (cases "w = 1")
  case True
  then have "gives_binary cao env And (ConstantExpr w v) r (AndExpr_createPartial r w v)"
    using assms AndExpr_createPartial_gives [of cao env r w v] by (simp add: operands_def gives_commute [of And "ConstantExpr _ _"])
  with True show ?thesis using gives_bool(3) [OF assms] by (simp add: MulExpr_createPartialR_def)
next
  case False
  then show ?thesis
    using assms eval_in_width [of cao env r]
    by (auto simp: MulExpr_createPartialR_def gives_binary_def operands_def constant_binary_def is_compare_def in_width_iff)
qed

lemma MulExpr_create_gives:
  assumes "operands cao env l r"
  shows "gives_binary cao env Mul l r (MulExpr_create l r)"
  unfolding MulExpr_create_def
proof (rule bcreate_gives [OF assms])
  show "gives_binary cao env Mul l r (Some (BinaryExpr (if getWidth l = 1 then And else Mul) l r))"
    using assms gives_bool(3) [OF assms] by (auto simp: alloc_binary)
qed (use assms in \<open>auto simp: operands_def gives_commute [of Mul _ "ConstantExpr _ _"] intro!: MulExpr_createPartialR_gives\<close>)

subsection \<open>Equality\<close>

lemma take_bit_sext: "in_width w0 a \<Longrightarrow> 0 < w0 \<Longrightarrow> w0 \<le> w \<Longrightarrow> take_bit w0 (constant_sext w0 a w) = a"
  by (simp add: constant_sext_def signed_value_def take_bit_signed_take_bit in_width_iff min_absorb1 Suc_pred)

lemma eq_sext:
  assumes "in_width w0 a" "0 < w0" "w0 \<le> w"
  shows "v = constant_sext w0 (take_bit w0 v) w \<Longrightarrow> (v = constant_sext w0 a w) = (a = take_bit w0 v)"
    "v \<noteq> constant_sext w0 (take_bit w0 v) w \<Longrightarrow> v \<noteq> constant_sext w0 a w"
  using take_bit_sext [OF assms] by auto

lemma eq_zext:
  assumes "in_width w0 a" "w0 \<le> w"
  shows "v = take_bit w (take_bit w0 v) \<Longrightarrow> (v = a) = (a = take_bit w0 v)"
    "v \<noteq> take_bit w (take_bit w0 v) \<Longrightarrow> v \<noteq> a"
  using assms by (auto simp: in_width_iff min_absorb2)

lemma eq_add:
  assumes "in_width w v" "in_width w b"
  shows "v = take_bit w (c + b) \<longleftrightarrow> take_bit w (v - c) = b" "v = take_bit w (c - b) \<longleftrightarrow> take_bit w (c - v) = b"
proof -
  have v: "v mod 2 ^ w = v" "b mod 2 ^ w = b" using assms by (simp_all add: in_width_iff take_bit_eq_mod)
  show "v = take_bit w (c + b) \<longleftrightarrow> take_bit w (v - c) = b"
    unfolding take_bit_eq_mod using v by (metis add_diff_cancel_left' diff_add_cancel mod_add_right_eq mod_diff_left_eq add.commute)
  show "v = take_bit w (c - b) \<longleftrightarrow> take_bit w (c - v) = b"
    unfolding take_bit_eq_mod using v by (metis add_diff_cancel_left' diff_add_cancel mod_diff_right_eq add.commute)
qed

lemma gives_eq: "gives_binary cao env Eq l r res \<longleftrightarrow> gives cao env 1 (of_bool (eval env l = eval env r)) res"
  by (simp add: gives_binary_def constant_binary_def is_compare_def)

lemma EqExpr_alloc_gives: "operands cao env l r \<Longrightarrow> gives_binary cao env Eq l r (Some (EqExpr_alloc l r))"
  by (auto simp: gives_eq EqExpr_alloc_def operands_def constant_binary_def is_compare_def)

text \<open>What \<open>TryConstArrayOpt\<close> keeps: \<open>res\<close> says whether the value is at one of the positions before \<open>i\<close>.\<close>

definition const_array_inv :: "bool \<Rightarrow> assignment \<Rightarrow> width \<Rightarrow> int \<Rightarrow> expr \<Rightarrow> expr \<Rightarrow> int list \<Rightarrow> int list \<Rightarrow> nat \<Rightarrow> expr \<Rightarrow> bool" where
  "const_array_inv cao env w v rd idx vals cs i res \<longleftrightarrow>
     operands cao env (ConstantExpr w v) rd \<and> well_typed cao env idx \<and> eval env idx < int (length vals) \<and>
     int (length vals) \<le> 2 ^ getWidth idx \<and> eval env rd = vals ! nat (eval env idx) \<and> cs = drop i vals \<and> i \<le> length vals \<and>
     well_typed cao env res \<and> getWidth res = 1 \<and>
     eval env res = of_bool (eval env idx < int i \<and> vals ! nat (eval env idx) = v)"

lemma const_array_inv_init:
  assumes "operands cao env (ConstantExpr w v) (ReadExpr a [] idx)" "cao" "\<not> isSymbolicArray a"
  shows "const_array_inv cao env w v (ReadExpr a [] idx) idx (constantValues a) (take (array_size a) (constantValues a)) 0 (ConstantExpr 1 0)"
  using assms eval_in_width [of cao env idx] by (auto simp: const_array_inv_def operands_def array_ok_def isSymbolicArray_def initial_value_def in_width_def)


lemma const_array_step:
  assumes "const_array_inv cao env w v rd idx vals (c # cs) i res" "v = c"
    "gives cao env 1 (of_bool (eval env idx = int i)) (Some m)"
  shows "\<exists>res'. OrExpr_create res m = Some res' \<and> const_array_inv cao env w v rd idx vals cs (Suc i) res'"
proof -
  have i: "i < length vals" "vals ! i = c" "drop (Suc i) vals = cs"
    using assms(1) by (auto simp: const_array_inv_def) (metis drop_all linorder_not_le list.distinct(1), metis Cons_nth_drop_Suc drop_all linorder_not_le list.distinct(1) list.inject, metis Cons_nth_drop_Suc drop_all linorder_not_le list.distinct(1) list.inject)
  have "operands cao env res m" using assms by (auto simp: const_array_inv_def operands_def)
  then have "gives_binary cao env Or res m (OrExpr_create res m)" by (rule OrExpr_create_gives)
  then obtain res' where "OrExpr_create res m = Some res'" "well_typed cao env res'" "getWidth res' = 1"
    "eval env res' = eval env res OR eval env m"
    using assms by (auto simp: gives_binary_def gives_def constant_binary_def is_compare_def const_array_inv_def)
  moreover have "eval env res OR eval env m = of_bool (eval env idx < int (Suc i) \<and> vals ! nat (eval env idx) = v)"
    using assms i by (auto simp: const_array_inv_def)
  ultimately show ?thesis using assms i by (auto simp: const_array_inv_def)
qed


lemma const_array_skip:
  "const_array_inv cao env w v rd idx vals (c # cs) i res \<Longrightarrow> v \<noteq> c \<Longrightarrow> const_array_inv cao env w v rd idx vals cs (Suc i) res"
proof -
  assume inv: "const_array_inv cao env w v rd idx vals (c # cs) i res" and "v \<noteq> c"
  then have i: "i < length vals" "vals ! i = c" "drop (Suc i) vals = cs"
    by (auto simp: const_array_inv_def) (metis drop_all linorder_not_le list.distinct(1), metis Cons_nth_drop_Suc drop_all linorder_not_le list.distinct(1) list.inject, metis Cons_nth_drop_Suc drop_all linorder_not_le list.distinct(1) list.inject)
  moreover have "eval env idx < int (Suc i) \<and> vals ! nat (eval env idx) = v \<longleftrightarrow> eval env idx < int i \<and> vals ! nat (eval env idx) = v"
    using i \<open>v \<noteq> c\<close> by (cases "eval env idx = int i") auto
  ultimately show ?thesis using inv by (auto simp: const_array_inv_def)
qed

lemma EqExpr_create_gives:
  "operands cao env l r \<Longrightarrow> gives_binary cao env Eq l r (EqExpr_create cao l r)"
  "operands cao env (ConstantExpr w v) r \<Longrightarrow> gives_binary cao env Eq (ConstantExpr w v) r (EqExpr_createPartialR cao w v r)"
  "const_array_inv cao env w v rd idx vals cs i res \<Longrightarrow>
     gives cao env 1 (of_bool (v = eval env rd)) (const_array_loop cao w v rd idx cs i n res)"
proof (induction cao l r and cao w v r and cao w v rd idx cs i n res
    arbitrary: and and vals rule: EqExpr_create_EqExpr_createPartialR_const_array_loop.induct)
  case (1 cao l r)
  then have w: "getWidth l = getWidth r" by (simp add: operands_def)
  consider w a w' b where "l = ConstantExpr w a" "r = ConstantExpr w' b"
    | w a where "l = ConstantExpr w a" "\<not> isConstant r" | w b where "r = ConstantExpr w b" "\<not> isConstant l"
    | "\<not> isConstant l" "\<not> isConstant r" by (cases l; cases r) auto
  then show ?case
  proof cases
    case (1 w a w' b)
    then show ?thesis
      using "1.prems" gives_fold [of w a b Eq cao env] by (auto simp: EqExpr_create.simps operands_def gives_binary_def)
  next
    case (2 w a)
    then show ?thesis using "1.IH"(2) [of "(w, a)" w a] "1.prems" w by (simp add: EqExpr_create.simps)
  next
    case (3 w b)
    then show ?thesis
      using "1.IH"(1) [of "(w, b)" w b] "1.prems" w
      by (simp add: EqExpr_create.simps operands_def gives_commute [of Eq l])
  next
    case 4
    then show ?thesis using EqExpr_alloc_gives [OF "1.prems"] w by (simp add: EqExpr_create.simps)
  qed
next
  case (2 cao w v r)
  have p: "well_typed cao env r" "getWidth r = w" "0 < w" "in_width w v" "in_width w (eval env r)"
    using "2.prems" eval_in_width [of cao env r] by (auto simp: operands_def)
  have alloc: "gives_binary cao env Eq (ConstantExpr w v) r (Some (EqExpr_alloc (ConstantExpr w v) r))"
    using "2.prems" by (rule EqExpr_alloc_gives)
  show ?case
  proof (cases "w = 1")
    case w: True
    then have v: "v = 0 \<or> v = 1" "eval env r = 0 \<or> eval env r = 1" using p by (simp_all add: in_width_1)
    consider "v = 1" | w' a b where "v = 0" "r = BinaryExpr Eq (ConstantExpr w' a) b"
      | a b where "v = 0" "constant_left Eq r = None" "r = BinaryExpr Or a b"
      | "v = 0" "constant_left Eq r = None" "as_or r = None" using v by (cases "constant_left Eq r"; cases "as_or r") auto
    then show ?thesis
    proof cases
      case 1
      then show ?thesis using w p v by (auto simp: EqExpr_createPartialR.simps isTrue_def gives_eq)
    next
      case (2 w' a b)
      then show ?thesis
        using w p alloc eval_in_width [of cao env b]
        by (auto simp: EqExpr_createPartialR.simps constant_left_binary isTrue_def gives_eq in_width_1 constant_binary_def)
    next
      case (3 a b)
      have t: "\<not> isTrue w v" using 3(1) by (simp add: isTrue_def)
      have o: "as_or r = Some (a, b)" using 3(3) by simp
      have ab: "operands cao env a (ConstantExpr (getWidth a) 0)" "operands cao env b (ConstantExpr (getWidth b) 0)"
        "getWidth a = 1" "getWidth b = 1" "operands cao env a b"
        using "2.prems" 3(3) w by (auto simp: operands_def is_compare_def)
      obtain x where x: "EqExpr_create cao a (ConstantExpr (getWidth a) 0) = Some x" "well_typed cao env x" "getWidth x = 1"
        "eval env x = of_bool (eval env a = 0)"
        using "2.IH"(1) [OF w t 3(2) o refl ab(1)] by (auto simp: gives_eq gives_def)
      obtain y where y: "EqExpr_create cao b (ConstantExpr (getWidth b) 0) = Some y" "well_typed cao env y" "getWidth y = 1"
        "eval env y = of_bool (eval env b = 0)"
        using "2.IH"(2) [OF w t 3(2) o refl x(1) ab(2)] by (auto simp: gives_eq gives_def)
      have "gives_binary cao env And x y (AndExpr_create x y)"
        using x y by (intro AndExpr_create_gives) (simp add: operands_def)
      moreover have "eval env r = (eval env a OR eval env b)" using 3(3) by (simp add: constant_binary_def)
      moreover have "eval env a = 0 \<or> eval env a = 1" "eval env b = 0 \<or> eval env b = 1"
        using eval_in_width [of cao env a] eval_in_width [of cao env b] ab by (auto simp: operands_def in_width_1)
      ultimately show ?thesis
        using w t 3(1,2) o x y
        by (auto simp: EqExpr_createPartialR.simps gives_eq gives_binary_def constant_binary_def is_compare_def)
    next
      case 4
      then show ?thesis using w alloc by (simp add: EqExpr_createPartialR.simps isTrue_def)
    qed
  next
    case w: False
    show ?thesis
    proof (cases r)
      case (SExtExpr e t)
      let ?t = "constant_zext v (getWidth e)"
      have e: "well_typed cao env e" "0 < getWidth e" "getWidth e \<le> w" "in_width (getWidth e) (eval env e)" "t = w"
        using p SExtExpr eval_in_width [of cao env e] by auto
      show ?thesis
      proof (cases "v = constant_sext (getWidth e) ?t w")
        case True
        have "operands cao env e (ConstantExpr (getWidth e) ?t)" using e by (simp add: operands_def constant_zext_def)
        from "2.IH"(5) [OF w SExtExpr refl True this] show ?thesis
          using eq_sext(1) [OF e(4,2,3), of v] True SExtExpr w e
          by (simp add: EqExpr_createPartialR.simps gives_eq constant_zext_def)
      next
        case False
        then show ?thesis
          using eq_sext(2) [OF e(4,2,3), of v] SExtExpr w e
          by (auto simp: EqExpr_createPartialR.simps gives_eq constant_zext_def)
      qed
    next
      case (ZExtExpr e t)
      let ?t = "constant_zext v (getWidth e)"
      have e: "well_typed cao env e" "0 < getWidth e" "getWidth e \<le> w" "in_width (getWidth e) (eval env e)" "t = w"
        using p ZExtExpr eval_in_width [of cao env e] by auto
      show ?thesis
      proof (cases "v = constant_zext ?t w")
        case True
        have "operands cao env e (ConstantExpr (getWidth e) ?t)" using e by (simp add: operands_def constant_zext_def)
        from "2.IH"(4) [OF w ZExtExpr refl True this] show ?thesis
          using eq_zext(1) [OF e(4,3), of v] True ZExtExpr w e p(4) [unfolded in_width_iff]
          by (simp add: EqExpr_createPartialR.simps gives_eq constant_zext_def)
      next
        case False
        then show ?thesis
          using eq_zext(2) [OF e(4,3), of v] ZExtExpr w e
          by (auto simp: EqExpr_createPartialR.simps gives_eq constant_zext_def)
      qed
    next
      case r: (BinaryExpr k x y)
      have y: "well_typed cao env y" "in_width (getWidth y) (eval env y)" "getWidth x = getWidth y" "k \<in> {Add, Sub} \<Longrightarrow> getWidth y = w"
        using p r eval_in_width [of cao env y] by (auto simp: is_compare_def split: if_splits)
      consider c where "k = Add" "x = ConstantExpr w c" | c where "k = Sub" "x = ConstantExpr w c"
        | "constant_left Add r = None" "constant_left Sub r = None"
        using r y(3,4) by (cases x; cases "k = Add"; cases "k = Sub") (auto simp: constant_left_binary)
      then show ?thesis
      proof cases
        case (1 c)
        then have "constant_left Add r = Some (w, c, y)" "operands cao env (ConstantExpr w (constant_binary Sub w v c)) y"
          using r y p by (auto simp: operands_def constant_binary_def)
        with "2.IH"(7) [OF w r this(1) refl refl _ this(2)] show ?thesis
          using 1 r w y eq_add(1) [OF p(4), of "eval env y" c]
          by (subst EqExpr_createPartialR.simps) (simp add: gives_eq constant_binary_def constant_left_binary)
      next
        case (2 c)
        then have "constant_left Add r = None" "constant_left Sub r = Some (w, c, y)"
          "operands cao env (ConstantExpr w (constant_binary Sub w c v)) y"
          using r y p by (auto simp: operands_def constant_binary_def constant_left_binary)
        with "2.IH"(6) [OF w r this(1,2) refl refl _ this(3)] show ?thesis
          using 2 r w y eq_add(2) [OF p(4), of "eval env y" c]
          by (subst EqExpr_createPartialR.simps) (simp add: gives_eq constant_binary_def constant_left_binary)
      next
        case 3
        then show ?thesis using w alloc r by (simp add: EqExpr_createPartialR.simps)
      qed
    next
      case (ReadExpr a us i)
      show ?thesis
      proof (cases "cao \<and> \<not> isSymbolicArray a \<and> us = []")
        case True
        then have "const_array_inv cao env w v r i (constantValues a) (take (array_size a) (constantValues a)) 0 (ConstantExpr 1 0)"
          using const_array_inv_init "2.prems" ReadExpr by blast
        from "2.IH"(3) [OF w ReadExpr _ _ this] show ?thesis
          using True w ReadExpr by (simp add: EqExpr_createPartialR.simps gives_eq)
      next
        case False
        then show ?thesis using w alloc ReadExpr by (auto simp: EqExpr_createPartialR.simps)
      qed
    qed (use w alloc in \<open>simp_all add: EqExpr_createPartialR.simps\<close>)
  qed
next
  case (3 cao w v rd idx i n res)
  then show ?case by (auto simp: const_array_inv_def)
next
  case (4 cao w v rd idx c cs i n res)
  show ?case
  proof (cases "v = c")
    case False
    then show ?thesis using "4.IH"(3) const_array_skip [OF "4.prems"] by simp
  next
    case True
    show ?thesis
    proof (cases "Suc n > 100")
      case True
      have "operands cao env (ConstantExpr w v) rd" using "4.prems" by (simp add: const_array_inv_def)
      from EqExpr_alloc_gives [OF this] True show ?thesis using \<open>v = c\<close> by (simp add: gives_eq)
    next
      case False
      have i: "int i < 2 ^ getWidth idx" "well_typed cao env idx"
        using "4.prems" by (auto simp: const_array_inv_def) (metis drop_all leI less_le_trans list.distinct(1) of_nat_less_iff)
      then have ti: "take_bit (getWidth idx) (int i) = int i" by (simp add: take_bit_int_eq_self)
      have "operands cao env idx (ConstantExpr (getWidth idx) (take_bit (getWidth idx) (int i)))"
        using i eval_in_width [of cao env idx] by (simp add: operands_def)
      then have "gives cao env 1 (of_bool (eval env idx = int i)) (EqExpr_create cao idx (ConstantExpr (getWidth idx) (take_bit (getWidth idx) (int i))))"
        using "4.IH"(1) [OF True False] by (simp add: gives_eq ti)
      then obtain m where m: "EqExpr_create cao idx (ConstantExpr (getWidth idx) (take_bit (getWidth idx) (int i))) = Some m"
        "gives cao env 1 (of_bool (eval env idx = int i)) (Some m)" by (auto simp: gives_def)
      from const_array_step [OF "4.prems" True m(2)] obtain res' where
        r: "OrExpr_create res m = Some res'" "const_array_inv cao env w v rd idx vals cs (Suc i) res'" by blast
      show ?thesis using "4.IH"(2) [OF True False m(1) r] True False m r by simp
    qed
  qed
qed

lemma createIsZero_gives: "well_typed cao env e \<Longrightarrow> gives cao env 1 (of_bool (eval env e = 0)) (createIsZero cao e)"
  using EqExpr_create_gives(1) [of cao env e "ConstantExpr (getWidth e) 0"] eval_in_width [of cao env e]
  by (simp add: createIsZero_def operands_def gives_eq)

subsection \<open>Sums and differences\<close>

lemma XorExpr_createPartialR_gives:
  assumes "operands cao env (ConstantExpr w v) r"
  shows "gives_binary cao env Xor (ConstantExpr w v) r (XorExpr_createPartialR cao w v r)"
proof (cases "v \<noteq> 0 \<and> w = 1")
  case True
  have "operands cao env (ConstantExpr 1 0) r" using assms True by (auto simp: operands_def)
  then have "gives cao env 1 (of_bool (0 = eval env r)) (EqExpr_createPartialR cao 1 0 r)"
    using EqExpr_create_gives(2) [of cao env 1 0 r] by (simp add: gives_eq)
  moreover have "v = 1" "eval env r = 0 \<or> eval env r = 1"
    using assms True eval_in_width [of cao env r] by (auto simp: operands_def in_width_1)
  ultimately show ?thesis
    using True by (auto simp: XorExpr_createPartialR_def gives_binary_def constant_binary_def is_compare_def)
next
  case False
  then show ?thesis
    using assms by (auto simp: XorExpr_createPartialR_def gives_binary_def operands_def constant_binary_def is_compare_def)
qed

lemma XorExpr_create_gives: "operands cao env l r \<Longrightarrow> gives_binary cao env Xor l r (XorExpr_create cao l r)"
  unfolding XorExpr_create_def
  by (rule bcreate_gives)
    (auto simp: alloc_binary operands_def gives_commute [of Xor _ "ConstantExpr _ _"] intro!: XorExpr_createPartialR_gives)

text \<open>The rewrites of sums and differences, modulo \<open>2 ^ w\<close>.\<close>

lemma add_rewrites:
  fixes w :: nat
  defines "add \<equiv> constant_binary Add w" and "sub \<equiv> constant_binary Sub w"
  shows "add (add k b) c = add k (add b c)" "sub (add k b) c = add k (sub b c)" "add k (add a b) = add a (add k b)"
    "add (sub k a) b = add k (sub b a)" "add a (sub k b) = add k (sub a b)" "sub (sub k a) b = sub k (add a b)"
    "sub a (add k b) = sub (sub a b) k" "sub a (sub k b) = sub (add a b) k" "sub (add a k) b = add a (sub k b)"
    "add a (sub 0 b) = sub a b" "sub (sub a k) b = sub a (add k b)" "add (sub a k) b = sub a (sub k b)"
  unfolding add_def sub_def
  by (simp_all add: constant_binary_def take_bit_eq_mod mod_simps algebra_simps)


lemma gives_arith: "k \<in> {Add, Sub} \<Longrightarrow>
    gives_binary cao env k l r res = gives cao env (getWidth l) (constant_binary k (getWidth l) (eval env l) (eval env r)) res"
  by (auto simp: gives_binary_def is_compare_def)

text \<open>An operation on the result of another one and a constant.\<close>

lemma gives_chain:
  assumes "gives_binary cao env k1 a b res" "k1 \<in> {Add, Sub}" "k2 \<in> {Add, Sub}" "getWidth a = w" "0 < w" "in_width w k"
  shows "(\<And>x. res = Some x \<Longrightarrow> operands cao env (ConstantExpr w k) x \<Longrightarrow> gives_binary cao env k2 (ConstantExpr w k) x (f x)) \<Longrightarrow>
      gives cao env w (constant_binary k2 w k (constant_binary k1 w (eval env a) (eval env b))) (res \<bind> f)"
    "(\<And>x. res = Some x \<Longrightarrow> operands cao env x (ConstantExpr w k) \<Longrightarrow> gives_binary cao env k2 x (ConstantExpr w k) (f x)) \<Longrightarrow>
      gives cao env w (constant_binary k2 w (constant_binary k1 w (eval env a) (eval env b)) k) (res \<bind> f)"
  using assms by (auto simp: gives_arith gives_def operands_def)

lemma constant_left_typed:
  assumes "constant_left k e = Some (w, c, b)" "k \<in> {Add, Sub}" "well_typed cao env e" "getWidth e = w"
  shows "well_typed cao env b" "getWidth b = w" "in_width w c" "0 < w"
    "eval env e = constant_binary k w c (eval env b)"
  using assms by (auto simp: is_compare_def)

lemma constant_left_cases:
  assumes "well_typed cao env e" "getWidth e = w"
  obtains c b where "constant_left Add e = Some (w, c, b)"
    | c b where "constant_left Add e = None" "constant_left Sub e = Some (w, c, b)"
    | "constant_left Add e = None" "constant_left Sub e = None"
proof -
  have c: "constant_left k e = None \<or> (\<exists>c b. constant_left k e = Some (w, c, b))" if "k \<in> {Add, Sub}" for k
    using that assms by (cases "constant_left k e") (auto simp: is_compare_def)
  show thesis using c [of Add] c [of Sub] that by fastforce
qed

lemma arith_in_width [simp]: "in_width w (constant_binary Add w a b)" "in_width w (constant_binary Sub w a b)"
  by (simp_all add: constant_binary_def)

text \<open>With a constant on one side the recursion runs down the other side; then the general case.\<close>

lemma constant_side:
  assumes "operands cao env (ConstantExpr w v) r"
    "\<not> isConstant r \<Longrightarrow> gives_binary cao env Add (ConstantExpr w v) r (AddExpr_createPartialR cao w v r)"
    "\<not> isConstant r \<Longrightarrow> gives_binary cao env Sub (ConstantExpr w v) r (SubExpr_createPartialR cao w v r)"
  shows "gives_binary cao env Add (ConstantExpr w v) r (AddExpr_create cao (ConstantExpr w v) r)"
    "gives_binary cao env Sub (ConstantExpr w v) r (SubExpr_create cao (ConstantExpr w v) r)"
  using assms gives_fold [of w v "eval env r" Add cao env] gives_fold [of w v "eval env r" Sub cao env]
  by (cases "isConstant r"; cases r; simp add: AddExpr_create.simps SubExpr_create.simps operands_def gives_arith is_compare_def)+

lemma constant_left_gives:
  "operands cao env (ConstantExpr w v) r \<Longrightarrow>
     gives_binary cao env Add (ConstantExpr w v) r (AddExpr_createPartialR cao w v r) \<and>
     gives_binary cao env Sub (ConstantExpr w v) r (SubExpr_createPartialR cao w v r)"
proof (induction r arbitrary: w v rule: measure_induct_rule [where f = weight])
  case (less r)
  have p: "well_typed cao env r" "getWidth r = w" "0 < w" "in_width w v" "in_width w (eval env r)"
    using less.prems eval_in_width [of cao env r] by (auto simp: operands_def)
  have rec: "gives_binary cao env Add (ConstantExpr w u) b (AddExpr_create cao (ConstantExpr w u) b)"
    "gives_binary cao env Sub (ConstantExpr w u) b (SubExpr_create cao (ConstantExpr w u) b)"
    if "constant_left k r = Some (w, c, b)" "k \<in> {Add, Sub}" "in_width w u" for k c b u
    using that p less.IH [of b w u] by (auto simp: operands_def is_compare_def intro!: constant_side)
  note t = constant_left_typed [OF _ _ p(1,2)]
  have z: "constant_binary Add w 0 (eval env r) = eval env r" using p(5) by (simp add: constant_binary_def in_width_iff)
  consider "w = 1" | c b where "w \<noteq> 1" "constant_left Add r = Some (w, c, b)"
    | c b where "w \<noteq> 1" "constant_left Add r = None" "constant_left Sub r = Some (w, c, b)"
    | "w \<noteq> 1" "constant_left Add r = None" "constant_left Sub r = None"
    using constant_left_cases [OF p(1,2)] by meson
  then show ?case
  proof cases
    case 1
    then show ?thesis
      using XorExpr_createPartialR_gives [OF less.prems] gives_bool [OF less.prems]
      by (simp add: AddExpr_createPartialR.simps SubExpr_createPartialR.simps)
  next
    case (2 c b)
    have "gives cao env w (constant_binary Add w v (eval env r)) (AddExpr_createPartialR cao w v r)"
      using 2 rec(1) [OF 2(2), of "constant_binary Add w v c"] t(5) [OF 2(2)] p z add_rewrites(1) [of w v c "eval env b"]
      by (subst AddExpr_createPartialR.simps) (simp add: gives_arith del: constant_left_Some)
    moreover have "gives cao env w (constant_binary Sub w v (eval env r)) (SubExpr_createPartialR cao w v r)"
      using 2 rec(2) [OF 2(2), of "constant_binary Sub w v c"] t(5) [OF 2(2)] p add_rewrites(11) [of w v c "eval env b"]
      by (subst SubExpr_createPartialR.simps) (simp add: gives_arith del: constant_left_Some)
    ultimately show ?thesis by (simp add: gives_arith)
  next
    case (3 c b)
    have "gives cao env w (constant_binary Add w v (eval env r)) (AddExpr_createPartialR cao w v r)"
      using 3 rec(2) [OF 3(3), of "constant_binary Add w v c"] t(5) [OF 3(3)] p z add_rewrites(2) [of w v c "eval env b"]
      by (subst AddExpr_createPartialR.simps) (simp add: gives_arith del: constant_left_Some)
    moreover have "gives cao env w (constant_binary Sub w v (eval env r)) (SubExpr_createPartialR cao w v r)"
      using 3 rec(1) [OF 3(3), of "constant_binary Sub w v c"] t(5) [OF 3(3)] p add_rewrites(12) [of w v c "eval env b"]
      by (subst SubExpr_createPartialR.simps) (simp add: gives_arith del: constant_left_Some)
    ultimately show ?thesis by (simp add: gives_arith)
  next
    case 4
    then show ?thesis
      using p alloc_binary [OF less.prems, of Add] alloc_binary [OF less.prems, of Sub]
      by (simp add: AddExpr_createPartialR.simps SubExpr_createPartialR.simps gives_arith constant_binary_def in_width_iff)
  qed
qed

lemma constant_operand_gives:
  assumes "operands cao env (ConstantExpr w v) r"
  shows "gives_binary cao env Add (ConstantExpr w v) r (AddExpr_create cao (ConstantExpr w v) r)"
    "gives_binary cao env Sub (ConstantExpr w v) r (SubExpr_create cao (ConstantExpr w v) r)"
    "gives_binary cao env Add r (ConstantExpr w v) (AddExpr_create cao r (ConstantExpr w v))"
    "gives_binary cao env Sub r (ConstantExpr w v) (SubExpr_create cao r (ConstantExpr w v))"
proof -
  note pr = constant_left_gives [OF assms]
  show c: "gives_binary cao env Add (ConstantExpr w v) r (AddExpr_create cao (ConstantExpr w v) r)"
    "gives_binary cao env Sub (ConstantExpr w v) r (SubExpr_create cao (ConstantExpr w v) r)"
    using constant_side [OF assms] pr by blast+
  have o: "operands cao env (ConstantExpr w (constant_binary Sub w 0 v)) r" "getWidth r = w" "0 < w"
    using assms by (auto simp: operands_def)
  have n: "constant_binary Add w (constant_binary Sub w 0 v) (eval env r) = constant_binary Sub w (eval env r) v"
    using add_rewrites(10) [of w "eval env r" v] by (simp add: binary_commute [of Add w "eval env r"])
  show "gives_binary cao env Add r (ConstantExpr w v) (AddExpr_create cao r (ConstantExpr w v))"
    using c(1) pr o by (cases "isConstant r"; cases r)
      (auto simp: AddExpr_create.simps gives_arith ConstantExpr_binary_def binary_commute [of Add])
  show "gives_binary cao env Sub r (ConstantExpr w v) (SubExpr_create cao r (ConstantExpr w v))"
  proof (cases "as_constant r")
    case (Some p)
    then obtain a where "r = ConstantExpr w a" using o by (cases p) auto
    then show ?thesis
      using assms gives_fold [of w a v Sub cao env] by (simp add: SubExpr_create.simps operands_def gives_arith is_compare_def)
  next
    case None
    then show ?thesis
      using constant_left_gives [OF o(1)] o(2) n by (simp add: SubExpr_create.simps gives_arith del: as_constant_None)
  qed
qed

lemma chain_gives:
  assumes "gives_binary cao env k1 a b res" "k1 \<in> {Add, Sub}" "getWidth a = w" "0 < w" "in_width w k"
  shows "gives cao env w (constant_binary Add w k (constant_binary k1 w (eval env a) (eval env b))) (res \<bind> AddExpr_create cao (ConstantExpr w k))"
    "gives cao env w (constant_binary Sub w k (constant_binary k1 w (eval env a) (eval env b))) (res \<bind> SubExpr_create cao (ConstantExpr w k))"
    "gives cao env w (constant_binary Sub w (constant_binary k1 w (eval env a) (eval env b)) k)
      (res \<bind> (\<lambda>x. SubExpr_create cao x (ConstantExpr w k)))"
proof -
  have o: "operands cao env (ConstantExpr w k) x" if "operands cao env x (ConstantExpr w k)" for x
    using that by (auto simp: operands_def)
  show "gives cao env w (constant_binary Add w k (constant_binary k1 w (eval env a) (eval env b))) (res \<bind> AddExpr_create cao (ConstantExpr w k))"
    using constant_operand_gives(1) by (intro gives_chain(1) [OF assms(1,2) _ assms(3-5)]) auto
  show "gives cao env w (constant_binary Sub w k (constant_binary k1 w (eval env a) (eval env b))) (res \<bind> SubExpr_create cao (ConstantExpr w k))"
    using constant_operand_gives(2) by (intro gives_chain(1) [OF assms(1,2) _ assms(3-5)]) auto
  show "gives cao env w (constant_binary Sub w (constant_binary k1 w (eval env a) (eval env b)) k)
      (res \<bind> (\<lambda>x. SubExpr_create cao x (ConstantExpr w k)))"
    using constant_operand_gives(4) o by (intro gives_chain(2) [OF assms(1,2) _ assms(3-5)]) auto
qed

lemma nonconstant_gives:
  assumes ops: "operands cao env l r" and n: "as_constant l = None" "as_constant r = None" and w: "getWidth l = w" "w \<noteq> 1"
    and IH: "\<And>a b. weight a + weight b < weight l + weight r \<Longrightarrow> operands cao env a b \<Longrightarrow>
      gives_binary cao env Add a b (AddExpr_create cao a b) \<and> gives_binary cao env Sub a b (SubExpr_create cao a b)"
  shows "gives cao env w (constant_binary Add w (eval env l) (eval env r)) (AddExpr_create cao l r)"
    "gives cao env w (constant_binary Sub w (eval env l) (eval env r)) (SubExpr_create cao l r)"
proof -
  have p: "well_typed cao env l" "well_typed cao env r" "getWidth r = w" using ops w by (auto simp: operands_def)
  note tl = constant_left_typed [OF _ _ p(1) w(1)] and tr = constant_left_typed [OF _ _ p(2,3)]
  have lt: "weight b < weight e" if "constant_left k e = Some (u, c, b)" for k e u c b using that by auto
  note defs = AddExpr_create.simps [of cao l r] SubExpr_create.simps [of cao l r]
  let ?A = "gives cao env w (constant_binary Add w (eval env l) (eval env r)) (AddExpr_create cao l r)"
  let ?S = "gives cao env w (constant_binary Sub w (eval env l) (eval env r)) (SubExpr_create cao l r)"
  have same: "?S" if "l = r"
    using that n w p eval_in_width [of cao env l] unfolding defs by (simp add: constant_binary_def del: as_constant_None)
  have "?A \<and> (l \<noteq> r \<longrightarrow> ?S)"
  proof (cases rule: constant_left_cases [OF p(1) w(1)])
    case l: (1 k a)
    have "operands cao env a r" using tl [OF l] p by (simp add: operands_def)
    with IH [of a r] lt [OF l] have "gives_binary cao env Add a r (AddExpr_create cao a r)" "gives_binary cao env Sub a r (SubExpr_create cao a r)"
      by auto
    from chain_gives(1) [OF this(1), of w k] chain_gives(1) [OF this(2), of w k] show ?thesis
      using tl [OF l] p n w l add_rewrites(1,2) [of w k "eval env a" "eval env r"] unfolding defs
      by (simp del: as_constant_None constant_left_Some)
  next
    case l: (2 k a)
    have "operands cao env a r" "operands cao env r a" using tl [OF l(2)] p by (simp_all add: operands_def)
    with IH [of a r] IH [of r a] lt [OF l(2)] have "gives_binary cao env Sub r a (SubExpr_create cao r a)"
      "gives_binary cao env Add a r (AddExpr_create cao a r)" by auto
    from chain_gives(1) [OF this(1), of w k] chain_gives(2) [OF this(2), of w k] show ?thesis
      using tl [OF l(2)] p n w l add_rewrites(4,6) [of w k "eval env a" "eval env r"] unfolding defs
      by (simp del: as_constant_None constant_left_Some)
  next
    case l: 3
    show ?thesis
    proof (cases rule: constant_left_cases [OF p(2,3)])
      case r: (1 k b)
      have "operands cao env l b" using tr [OF r] p w by (simp add: operands_def)
      with IH [of l b] lt [OF r] have "gives_binary cao env Add l b (AddExpr_create cao l b)" "gives_binary cao env Sub l b (SubExpr_create cao l b)"
        by auto
      from chain_gives(1) [OF this(1), of w k] chain_gives(3) [OF this(2), of w k] show ?thesis
        using tr [OF r] p n w l r add_rewrites(3) [of w "eval env l" k "eval env b"] add_rewrites(7) [of w "eval env l" k "eval env b"]
        unfolding defs by (simp del: as_constant_None constant_left_Some)
    next
      case r: (2 k b)
      have "operands cao env l b" using tr [OF r(2)] p w by (simp add: operands_def)
      with IH [of l b] lt [OF r(2)] have "gives_binary cao env Sub l b (SubExpr_create cao l b)" "gives_binary cao env Add l b (AddExpr_create cao l b)"
        by auto
      from chain_gives(1) [OF this(1), of w k] chain_gives(3) [OF this(2), of w k] show ?thesis
        using tr [OF r(2)] p n w l r add_rewrites(5,8) [of w "eval env l" k "eval env b"]
        unfolding defs by (simp del: as_constant_None constant_left_Some)
    next
      case 3
      then show ?thesis
        using p n w l alloc_binary [OF ops, of Add] alloc_binary [OF ops, of Sub] unfolding defs
        by (simp add: gives_arith del: as_constant_None)
    qed
  qed
  with same show ?A ?S by auto
qed

lemma AddExpr_create_gives:
  "operands cao env l r \<Longrightarrow> gives_binary cao env Add l r (AddExpr_create cao l r) \<and> gives_binary cao env Sub l r (SubExpr_create cao l r)"
proof (induction "weight l + weight r" arbitrary: l r rule: less_induct)
  case less
  have w: "getWidth r = getWidth l" using less.prems by (simp add: operands_def)
  show ?case
  proof (cases "isConstant l \<or> isConstant r")
    case True
    then show ?thesis
      using less.prems constant_operand_gives [of cao env _ _ r] constant_operand_gives [of cao env _ _ l]
      by (cases l; cases r) (auto simp: operands_def)
  next
    case n: False
    show ?thesis
    proof (cases "getWidth l = 1")
      case True
      then show ?thesis
        using n w gives_bool [OF less.prems] alloc_binary [OF less.prems, of Xor]
        by (simp add: AddExpr_create.simps SubExpr_create.simps)
    next
      case False
      then show ?thesis
        using n nonconstant_gives [OF less.prems _ _ refl False less.hyps] by (simp add: gives_arith)
    qed
  qed
qed

subsection \<open>Concatenation, extraction and casts\<close>

lemma constant_extract_eq:
  "off + w \<le> kw \<Longrightarrow> constant_extract kw v off w = take_bit w (drop_bit off v)"
proof (rule bit_eqI)
  fix n
  assume "off + w \<le> kw"
  then have "min (off + n) (kw - 1) = off + n" if "n < w" using that by simp
  then show "bit (constant_extract kw v off w) n = bit (take_bit w (drop_bit off v)) n"
    using \<open>off + w \<le> kw\<close> by (auto simp: constant_extract_def signed_value_def bit_simps min.commute)
qed

lemma concat_extracts:
  "constant_concat (take_bit wl (drop_bit (off + wr) x)) wr (take_bit wr (drop_bit off x)) = take_bit (wl + wr) (drop_bit off x)"
  by (rule bit_eqI) (auto simp: constant_concat_def bit_simps)

lemma extract_concat:
  assumes "in_width wr b"
  shows "wr \<le> off \<Longrightarrow> take_bit w (drop_bit off (constant_concat a wr b)) = take_bit w (drop_bit (off - wr) a)"
    "off + w \<le> wr \<Longrightarrow> take_bit w (drop_bit off (constant_concat a wr b)) = take_bit w (drop_bit off b)"
    "off < wr \<Longrightarrow> wr < off + w \<Longrightarrow> take_bit w (drop_bit off (constant_concat a wr b)) =
      constant_concat (take_bit (w + off - wr) a) (wr - off) (take_bit (wr - off) (drop_bit off b))"
  by (rule bit_eqI, auto simp: constant_concat_def bit_simps add.commute [of off] dest: in_width_bit [OF assms])+

lemma extract_whole: "in_width w v \<Longrightarrow> take_bit w v = v"
  by (simp add: in_width_iff)

lemma ExtractExpr_create_gives:
  "well_typed cao env l \<Longrightarrow> well_typed cao env r \<Longrightarrow>
     gives cao env (getWidth l + getWidth r) (constant_concat (eval env l) (getWidth r) (eval env r)) (ConcatExpr_create l r)"
  "well_typed cao env e \<Longrightarrow> 0 < w \<Longrightarrow> off + w \<le> getWidth e \<Longrightarrow>
     gives cao env w (take_bit w (drop_bit off (eval env e))) (ExtractExpr_create e off w)"
proof (induction l r and e off w rule: ConcatExpr_create_ExtractExpr_create.induct)
  case (1 l r)
  show ?case
  proof (cases "contiguous l r")
    case None
    then show ?thesis
      using "1.prems" by (auto simp: ConcatExpr_create.simps in_width_concat split: option.splits)
  next
    case (Some p)
    then obtain x off wl wr where p: "l = ExtractExpr x (off + wr) wl" "r = ExtractExpr x off wr" "p = (x, off)"
      by (cases p) (auto simp: contiguous_Some)
    then show ?thesis
      using "1.IH"(1) [OF refl _ Some, of x off] "1.prems" Some
      by (simp add: ConcatExpr_create.simps concat_extracts)
  qed
next
  case (2 e off w)
  note eq = ExtractExpr_create.simps [of e off w]
  show ?case
  proof (cases "w = getWidth e \<or> as_concat e = None")
    case True
    then show ?thesis
      using "2.prems" eval_in_width [of cao env e] unfolding eq
      by (cases "isConstant e"; cases e) (auto simp: constant_extract_eq extract_whole)
  next
    case False
    then obtain l r where e: "as_concat e = Some (l, r)" "e = ConcatExpr l r" by (cases e) auto
    have k: "as_constant e = None" using e by simp
    have w: "0 < w \<and> off + w \<le> getWidth e" "w \<noteq> getWidth e" using "2.prems" False by auto
    have lr: "well_typed cao env l" "well_typed cao env r" "in_width (getWidth r) (eval env r)" "0 < getWidth r"
      using "2.prems" e eval_in_width [of cao env r] by auto
    note ih = "2.IH" [unfolded not_not, OF w k e(1) refl]
    consider "getWidth r \<le> off" | "\<not> getWidth r \<le> off" "off + w \<le> getWidth r"
      | "\<not> getWidth r \<le> off" "\<not> off + w \<le> getWidth r" by blast
    then show ?thesis
    proof cases
      case 1
      then show ?thesis using ih(1) [OF 1 lr(1)] e w lr extract_concat(1) [OF lr(3), of off w] unfolding eq by auto
    next
      case 2
      then show ?thesis using ih(2) [OF 2 lr(2)] e w lr extract_concat(2) [OF lr(3), of off w] unfolding eq by auto
    next
      case 3
      obtain x where x: "ExtractExpr_create l 0 (w + off - getWidth r) = Some x" "well_typed cao env x"
        "getWidth x = w + off - getWidth r" "eval env x = take_bit (w + off - getWidth r) (eval env l)"
        using ih(3) [OF 3 lr(1)] 3 w(1) e(2) by (force simp: gives_def)
      obtain y where y: "ExtractExpr_create r off (getWidth r - off) = Some y" "well_typed cao env y"
        "getWidth y = getWidth r - off" "eval env y = take_bit (getWidth r - off) (drop_bit off (eval env r))"
        using ih(4) [OF 3 x(1) lr(2)] 3 by (auto simp: gives_def)
      have "w + off - getWidth r + (getWidth r - off) = w" using 3 w by auto
      then show ?thesis
        using ih(5) [OF 3 x(1) y(1) x(2) y(2)] x y 3 e w extract_concat(3) [OF lr(3), of off w "eval env l"] unfolding eq by auto
    qed
  qed
qed


lemma cast_create_gives:
  assumes "well_typed cao env e" "0 < w"
  shows "gives cao env w (if w < getWidth e then take_bit w (eval env e) else eval env e) (ZExtExpr_create e w)"
    "gives cao env w (if w < getWidth e then take_bit w (eval env e) else constant_sext (getWidth e) (eval env e) w) (SExtExpr_create e w)"
proof -
  have e: "in_width (getWidth e) (eval env e)" "0 < getWidth e" using eval_in_width [OF assms(1)] by auto
  have x: "w < getWidth e \<Longrightarrow> gives cao env w (take_bit w (eval env e)) (ExtractExpr_create e 0 w)"
    using ExtractExpr_create_gives(2) [OF assms(1,2), of 0] by simp
  have "constant_sext (getWidth e) (eval env e) (getWidth e) = eval env e"
    using take_bit_sext [OF e, of "getWidth e"] by (simp add: constant_sext_def)
  with e x assms show "gives cao env w (if w < getWidth e then take_bit w (eval env e) else eval env e) (ZExtExpr_create e w)"
    "gives cao env w (if w < getWidth e then take_bit w (eval env e) else constant_sext (getWidth e) (eval env e) w) (SExtExpr_create e w)"
    using in_width_mono [OF e(1), of w]
    by (auto simp: ZExtExpr_create_def SExtExpr_create_def constant_zext_def constant_sext_def in_width_iff not_less split: option.splits)
qed

lemma NotExpr_create_gives:
  "well_typed cao env e \<Longrightarrow> gives cao env (getWidth e) (constant_not (getWidth e) (eval env e)) (NotExpr_create e)"
  by (auto simp: NotExpr_create_def constant_not_def split: option.splits)

subsection \<open>The other operations\<close>

lemma bcreate_fold_gives:
  assumes "operands cao env l r" "k \<in> {UDiv, SDiv, URem, SRem} \<Longrightarrow> eval env r \<noteq> 0"
    "\<not> (isConstant l \<and> isConstant r) \<Longrightarrow> gives_binary cao env k l r (create l r)"
  shows "gives_binary cao env k l r (bcreate_fold k create l r)"
proof (cases "isConstant l \<and> isConstant r")
  case True
  then obtain w a w' b where "l = ConstantExpr w a" "r = ConstantExpr w' b" by (cases l; cases r) auto
  with assms(1,2) show ?thesis
    using gives_fold [of w a b k cao env] by (auto simp: bcreate_fold_def gives_binary_def operands_def)
next
  case False
  then show ?thesis using assms by (cases l; cases r) (auto simp: bcreate_fold_def operands_def)
qed

text \<open>On truth values.\<close>

lemma bool_operations:
  assumes "in_width 1 a" "in_width 1 b"
  shows "b \<noteq> 0 \<Longrightarrow> constant_binary UDiv 1 a b = a" "b \<noteq> 0 \<Longrightarrow> constant_binary SDiv 1 a b = a"
    "b \<noteq> 0 \<Longrightarrow> constant_binary URem 1 a b = 0" "b \<noteq> 0 \<Longrightarrow> constant_binary SRem 1 a b = 0"
    "constant_binary Shl 1 a b = a AND of_bool (b = 0)" "constant_binary LShr 1 a b = a AND of_bool (b = 0)"
    "constant_binary AShr 1 a b = a" "constant_binary Ult 1 a b = of_bool (a = 0) AND b"
    "constant_binary Ule 1 a b = of_bool (a = 0) OR b" "constant_binary Slt 1 a b = a AND of_bool (b = 0)"
    "constant_binary Sle 1 a b = a OR of_bool (b = 0)"
  using assms by (auto simp: in_width_1 constant_binary_def signed_value_def signed_divide_int_def signed_modulo_int_def mask_eq_exp_minus_1 simp flip: One_nat_def)


lemma bool_logic_gives:
  assumes "well_typed cao env l" "getWidth l = 1" "gives cao env 1 b res"
  shows "gives cao env 1 (eval env l AND b) (res \<bind> AndExpr_create l)"
    "gives cao env 1 (eval env l OR b) (res \<bind> OrExpr_create l)"
    "gives cao env 1 (b AND eval env l) (res \<bind> (\<lambda>z. AndExpr_create z l))"
    "gives cao env 1 (b OR eval env l) (res \<bind> (\<lambda>z. OrExpr_create z l))"
proof -
  obtain z where "res = Some z" "operands cao env l z" "operands cao env z l" "getWidth z = 1" "eval env z = b"
    using assms by (auto simp: gives_def operands_def)
  then show "gives cao env 1 (eval env l AND b) (res \<bind> AndExpr_create l)"
    "gives cao env 1 (eval env l OR b) (res \<bind> OrExpr_create l)"
    "gives cao env 1 (b AND eval env l) (res \<bind> (\<lambda>z. AndExpr_create z l))"
    "gives cao env 1 (b OR eval env l) (res \<bind> (\<lambda>z. OrExpr_create z l))"
    using AndExpr_create_gives [of cao env l z] AndExpr_create_gives [of cao env z l]
      OrExpr_create_gives [of cao env l z] OrExpr_create_gives [of cao env z l] assms(2)
    by (simp_all add: gives_binary_def is_compare_def constant_binary_def)
qed

lemma gives_bool_operation:
  assumes "operands cao env l r" "getWidth l = 1" "k \<in> {UDiv, SDiv, URem, SRem} \<Longrightarrow> eval env r \<noteq> 0"
    "gives cao env 1 (constant_binary k 1 (eval env l) (eval env r)) res"
  shows "gives_binary cao env k l r res"
  using assms by (auto simp: gives_binary_def)

lemma fold_operations_give:
  assumes o: "operands cao env l r"
  shows "k \<in> {UDiv, SDiv} \<Longrightarrow> eval env r \<noteq> 0 \<Longrightarrow> gives_binary cao env k l r (division_create k l r)"
    "k \<in> {URem, SRem} \<Longrightarrow> eval env r \<noteq> 0 \<Longrightarrow> gives_binary cao env k l r (remainder_create k l r)"
    "k \<in> {Shl, LShr} \<Longrightarrow> gives_binary cao env k l r (shift_create cao k l r)"
    "gives_binary cao env AShr l r (AShrExpr_create l r)"
    "gives_binary cao env Ult l r (UltExpr_create cao l r)" "gives_binary cao env Ule l r (UleExpr_create cao l r)"
    "gives_binary cao env Slt l r (SltExpr_create cao l r)" "gives_binary cao env Sle l r (SleExpr_create cao l r)"
proof -
  have t: "well_typed cao env l" "well_typed cao env r" "getWidth r = getWidth l" using o by (auto simp: operands_def)
  have b: "in_width 1 (eval env l)" "in_width 1 (eval env r)" if "getWidth l = 1"
    using that t eval_in_width [of cao env l] eval_in_width [of cao env r] by auto
  note rules = alloc_binary [OF o] bool_operations [OF b] bool_logic_gives createIsZero_gives t
  show "gives_binary cao env AShr l r (AShrExpr_create l r)"
    unfolding AShrExpr_create_def by (rule bcreate_fold_gives [OF o]) (auto simp: rules intro!: gives_bool_operation [OF o])
  show "gives_binary cao env k l r (division_create k l r)" if "k \<in> {UDiv, SDiv}" "eval env r \<noteq> 0"
    unfolding division_create_def using that by (intro bcreate_fold_gives [OF o]) (auto simp: rules intro!: gives_bool_operation [OF o])
  show "gives_binary cao env k l r (remainder_create k l r)" if "k \<in> {URem, SRem}" "eval env r \<noteq> 0"
    unfolding remainder_create_def using that by (intro bcreate_fold_gives [OF o]) (auto simp: rules intro!: gives_bool_operation [OF o])
  show "gives_binary cao env k l r (shift_create cao k l r)" if "k \<in> {Shl, LShr}"
    unfolding shift_create_def using that by (intro bcreate_fold_gives [OF o]) (auto simp: rules intro!: gives_bool_operation [OF o])
  show "gives_binary cao env Ult l r (UltExpr_create cao l r)"
    unfolding UltExpr_create_def by (rule bcreate_fold_gives [OF o]) (auto simp: rules intro!: gives_bool_operation [OF o])
  show "gives_binary cao env Ule l r (UleExpr_create cao l r)"
    unfolding UleExpr_create_def by (rule bcreate_fold_gives [OF o]) (auto simp: rules intro!: gives_bool_operation [OF o])
  show "gives_binary cao env Slt l r (SltExpr_create cao l r)"
    unfolding SltExpr_create_def by (rule bcreate_fold_gives [OF o]) (auto simp: rules intro!: gives_bool_operation [OF o])
  show "gives_binary cao env Sle l r (SleExpr_create cao l r)"
    unfolding SleExpr_create_def by (rule bcreate_fold_gives [OF o]) (auto simp: rules intro!: gives_bool_operation [OF o])
qed

lemma NeExpr_create_gives: "operands cao env l r \<Longrightarrow> gives_binary cao env Ne l r (NeExpr_create cao l r)"
proof -
  assume o: "operands cao env l r"
  obtain e where e: "EqExpr_create cao l r = Some e" "operands cao env (ConstantExpr 1 0) e" "eval env e = of_bool (eval env l = eval env r)"
    using EqExpr_create_gives(1) [OF o] by (auto simp: gives_eq gives_def operands_def)
  from EqExpr_create_gives(1) [OF e(2)] show ?thesis
    using e by (auto simp: NeExpr_create_def gives_eq gives_binary_def constant_binary_def is_compare_def)
qed


lemma SelectExpr_create_gives:
  assumes "well_typed cao env (SelectExpr c t f)"
  shows "gives cao env (getWidth t) (eval env (SelectExpr c t f)) (SelectExpr_create cao c t f)"
proof -
  have p: "well_typed cao env c" "getWidth c = 1" "well_typed cao env t" "well_typed cao env f" "getWidth f = getWidth t"
    using assms by auto
  have c: "eval env c = 0 \<or> eval env c = 1" using eval_in_width [OF p(1)] p(2) by (simp add: in_width_1)
  have b: "eval env t = 0 \<or> eval env t = 1" "eval env f = 0 \<or> eval env f = 1" if "getWidth t = 1"
    using that eval_in_width [OF p(3)] eval_in_width [OF p(4)] p(5) by (simp_all add: in_width_1)
  have z: "gives cao env 1 (of_bool (eval env c = 0)) (createIsZero cao c)" by (rule createIsZero_gives [OF p(1)])
  consider w v where "as_constant c = Some (w, v)" | "as_constant c = None" "t = f"
    | v where "as_constant c = None" "t \<noteq> f" "getWidth t = 1" "as_constant t = Some (1, v)"
    | v where "as_constant c = None" "t \<noteq> f" "getWidth t = 1" "as_constant t = None" "as_constant f = Some (1, v)"
    | "as_constant c = None" "t \<noteq> f" "getWidth t \<noteq> 1 \<or> as_constant t = None \<and> as_constant f = None"
    using p(5) by (cases "as_constant c"; cases "as_constant t"; cases "as_constant f") fastforce+
  then show ?thesis
  proof cases
    case 1
    then show ?thesis using p c by (auto simp: SelectExpr_create_def isTrue_def)
  next
    case 2
    then show ?thesis using p by (simp add: SelectExpr_create_def)
  next
    case 3
    have "operands cao env c f" using p 3 by (simp add: operands_def)
    then show ?thesis
      using 3 p c b bool_logic_gives(3) [OF p(4) _ z] OrExpr_create_gives [of cao env c f]
      by (auto simp: SelectExpr_create_def isTrue_def gives_binary_def is_compare_def constant_binary_def)
  next
    case 4
    have "operands cao env c t" using p 4 by (simp add: operands_def)
    then show ?thesis
      using 4 p c b bool_logic_gives(4) [OF p(3) _ z] AndExpr_create_gives [of cao env c t]
      by (auto simp: SelectExpr_create_def isTrue_def gives_binary_def is_compare_def constant_binary_def)
  next
    case 5
    then show ?thesis using assms p by (auto simp: SelectExpr_create_def split: if_splits)
  qed
qed

subsection \<open>Reads\<close>

abbreviation update_values :: "assignment \<Rightarrow> (expr \<times> expr) list \<Rightarrow> (int \<times> int) list" where
  "update_values env us \<equiv> map (\<lambda>(x, y). (eval env x, eval env y)) us"

lemma read_loop_gives:
  assumes "well_typed cao env i" "list_all (\<lambda>(x, y). well_typed cao env x \<and> getWidth x = getWidth i \<and>
      well_typed cao env y \<and> getWidth y = w) us"
  shows "case read_loop cao i us of
      None \<Rightarrow> False
    | Some (Inl v) \<Rightarrow> well_typed cao env v \<and> getWidth v = w \<and> eval env v = read_value (update_values env us) (eval env i) d
    | Some (Inr (rest, symbolic)) \<Rightarrow> set rest \<subseteq> set us \<and> (\<not> symbolic \<longrightarrow> rest = []) \<and>
        read_value (update_values env us) (eval env i) d = read_value (update_values env rest) (eval env i) d"
  using assms(2)
proof (induction us)
  case (Cons u us)
  obtain x y where u: "u = (x, y)" by (cases u)
  have "operands cao env i x" using Cons.prems assms(1) u by (simp add: operands_def)
  then obtain c where c: "EqExpr_create cao i x = Some c" "well_typed cao env c" "eval env c = of_bool (eval env i = eval env x)" "getWidth c = 1"
    using EqExpr_create_gives(1) [of cao env i x] by (auto simp: gives_eq gives_def)
  show ?case
  proof (cases "as_constant c")
    case None
    then show ?thesis using c u by simp
  next
    case (Some p)
    then show ?thesis
      using c u Cons by (cases p) (auto simp: isTrue_def split: option.splits sum.splits)
  qed
qed simp

lemma ReadExpr_create_gives:
  assumes "well_typed cao env (ReadExpr a us i)"
  shows "gives cao env (array_range a) (eval env (ReadExpr a us i)) (ReadExpr_create cao a us i)"
proof -
  have i: "well_typed cao env i" "getWidth i = array_domain a" "0 \<le> eval env i" "getWidth i \<le> 64"
    and a: "array_ok a" and us: "list_all (\<lambda>(x, y). well_typed cao env x \<and> getWidth x = getWidth i \<and>
      well_typed cao env y \<and> getWidth y = array_range a) us"
    using assms eval_in_width [of cao env i] by (auto simp: array_ok_def in_width_def)
  have rest: "well_typed cao env (ReadExpr a rest i)" if "set rest \<subseteq> set us" for rest
    using that assms by (auto simp: list_all_iff)
  show ?thesis
    using read_loop_gives [OF i(1) us, of "initial_value env a (eval env i)"] rest assms i in_width_initial [OF a, of "eval env i" env] a
    by (auto simp: ReadExpr_create_def initial_value_def isSymbolicArray_def array_ok_def split: option.splits sum.splits)
qed


subsection \<open>All constructors\<close>

lemma constant_concat_eq: "in_width w b \<Longrightarrow> constant_concat a w b = a * 2 ^ w + b"
proof -
  assume b: "in_width w b"
  have "push_bit w a AND b = 0" by (rule bit_eqI) (auto simp: bit_simps dest: in_width_bit [OF b])
  then show ?thesis by (simp add: constant_concat_def push_bit_eq_mult flip: disjunctive_add_eq_or)
qed

lemma constant_not_eq: "in_width w v \<Longrightarrow> constant_not w v = 2 ^ w - 1 - v"
  by (simp add: constant_not_def take_bit_not_eq_mask_diff in_width_iff mask_eq_exp_minus_1)

lemma createFromKind_gives:
  assumes "operands cao env l r" "k \<in> {UDiv, SDiv, URem, SRem} \<longrightarrow> eval env r \<noteq> 0"
  shows "gives_binary cao env k l r (createFromKind cao k l r)"
proof -
  have flip: "operands cao env r l" using assms(1) by (simp add: operands_def)
  have turn: "gives_binary cao env Ugt l r = gives_binary cao env Ult r l" "gives_binary cao env Uge l r = gives_binary cao env Ule r l"
    "gives_binary cao env Sgt l r = gives_binary cao env Slt r l" "gives_binary cao env Sge l r = gives_binary cao env Sle r l"
    using assms(1) by (auto simp: gives_binary_def is_compare_def constant_binary_def operands_def fun_eq_iff)
  show ?thesis
    using assms(2) AddExpr_create_gives [OF assms(1)]
    by (cases k) (simp_all add: createFromKind_def turn fold_operations_give [OF assms(1)] fold_operations_give [OF flip]
        MulExpr_create_gives [OF assms(1)] AndExpr_create_gives [OF assms(1)] OrExpr_create_gives [OF assms(1)]
        XorExpr_create_gives [OF assms(1)] EqExpr_create_gives(1) [OF assms(1)] NeExpr_create_gives [OF assms(1)])
qed

text \<open>
  C28. Every binary constructor is sound: on well-typed operands of one width (and a divisor that is not 0) it
  returns, no assertion fails, and the expression it returns is well-typed, has the width of the operation and
  under every assignment the value that the operation has on the values of the operands, whatever was folded
  or rewritten on the way.
\<close>

theorem createFromKind_sound:
  assumes "well_typed cao env l" and "well_typed cao env r" and "getWidth l = getWidth r"
    and "k \<in> {UDiv, SDiv, URem, SRem} \<longrightarrow> eval env r \<noteq> 0"
  shows "\<exists>e. createFromKind cao k l r = Some e \<and> well_typed cao env e \<and>
    getWidth e = (if is_compare k then 1 else getWidth l) \<and>
    eval env e = constant_binary k (getWidth l) (eval env l) (eval env r)"
  using createFromKind_gives [of cao env l r k] assms by (simp add: operands_def gives_binary_def gives_def)

definition sample_array :: array where
  "sample_array = \<lparr>array_ptr = 0, array_name = ''a'', array_size = 4, array_domain = 32, array_range = 8, constantValues = []\<rparr>"

definition sample_read :: expr where
  "sample_read = ReadExpr sample_array [] (ConstantExpr 32 1)"

theorem createFromKind_sound_witness:
  "\<exists>e. createFromKind False Eq (ConstantExpr 8 5) (BinaryExpr Add (ConstantExpr 8 250) sample_read) = Some e \<and>
    well_typed False (\<lambda>p i. 11) e \<and> getWidth e = 1 \<and> eval (\<lambda>p i. 11) e = 1"
  using createFromKind_sound [of False "\<lambda>p i. 11" "ConstantExpr 8 5" "BinaryExpr Add (ConstantExpr 8 250) sample_read" Eq]
  by (simp add: sample_read_def sample_array_def array_ok_def in_width_def is_compare_def initial_value_def isSymbolicArray_def
      constant_binary_def take_bit_eq_mod)

text \<open>
  C29. So are the constructors of selections, concatenations, extractions, casts, complements and reads: a read
  finds the most recent update of its index, reads a constant array directly when no symbolic update is in the
  way, and drops only updates that cannot concern it.
\<close>

theorem structural_constructors_sound:
  "(well_typed cao env (SelectExpr c t f) \<longrightarrow>
      (\<exists>e. SelectExpr_create cao c t f = Some e \<and> well_typed cao env e \<and> getWidth e = getWidth t \<and>
        eval env e = (if eval env c \<noteq> 0 then eval env t else eval env f))) \<and>
   (well_typed cao env (ConcatExpr l r) \<longrightarrow>
      (\<exists>e. ConcatExpr_create l r = Some e \<and> well_typed cao env e \<and> getWidth e = getWidth l + getWidth r \<and>
        eval env e = eval env l * 2 ^ getWidth r + eval env r)) \<and>
   (well_typed cao env (ExtractExpr x off w) \<longrightarrow>
      (\<exists>e. ExtractExpr_create x off w = Some e \<and> well_typed cao env e \<and> getWidth e = w \<and>
        eval env e = eval env x div 2 ^ off mod 2 ^ w)) \<and>
   (well_typed cao env (ZExtExpr x w) \<longrightarrow>
      (\<exists>e. ZExtExpr_create x w = Some e \<and> well_typed cao env e \<and> getWidth e = w \<and> eval env e = eval env x)) \<and>
   (well_typed cao env (SExtExpr x w) \<longrightarrow>
      (\<exists>e. SExtExpr_create x w = Some e \<and> well_typed cao env e \<and> getWidth e = w \<and>
        eval env e = signed_value (getWidth x) (eval env x) mod 2 ^ w)) \<and>
   (well_typed cao env (NotExpr x) \<longrightarrow>
      (\<exists>e. NotExpr_create x = Some e \<and> well_typed cao env e \<and> getWidth e = getWidth x \<and>
        eval env e = 2 ^ getWidth x - 1 - eval env x)) \<and>
   (well_typed cao env (ReadExpr a us i) \<longrightarrow>
      (\<exists>e. ReadExpr_create cao a us i = Some e \<and> well_typed cao env e \<and> getWidth e = array_range a \<and>
        eval env e = read_value (update_values env us) (eval env i) (initial_value env a (eval env i))))"
proof (intro conjI impI)
  assume s: "well_typed cao env (ConcatExpr l r)"
  then have "in_width (getWidth r) (eval env r)" using eval_in_width [of cao env r] by simp
  then have "constant_concat (eval env l) (getWidth r) (eval env r) = eval env l * 2 ^ getWidth r + eval env r" by (rule constant_concat_eq)
  with s show "\<exists>e. ConcatExpr_create l r = Some e \<and> well_typed cao env e \<and> getWidth e = getWidth l + getWidth r \<and>
        eval env e = eval env l * 2 ^ getWidth r + eval env r"
    using ExtractExpr_create_gives(1) [of cao env l r] by (simp add: gives_def)
next
  assume "well_typed cao env (SelectExpr c t f)"
  from SelectExpr_create_gives [OF this] show "\<exists>e. SelectExpr_create cao c t f = Some e \<and> well_typed cao env e \<and> getWidth e = getWidth t \<and>
        eval env e = (if eval env c \<noteq> 0 then eval env t else eval env f)" by (simp add: gives_def)
next
  assume "well_typed cao env (ExtractExpr x off w)"
  then show "\<exists>e. ExtractExpr_create x off w = Some e \<and> well_typed cao env e \<and> getWidth e = w \<and>
        eval env e = eval env x div 2 ^ off mod 2 ^ w"
    using ExtractExpr_create_gives(2) [of cao env x w off] by (simp add: gives_def take_bit_eq_mod drop_bit_eq_div)
next
  assume "well_typed cao env (ZExtExpr x w)"
  then show "\<exists>e. ZExtExpr_create x w = Some e \<and> well_typed cao env e \<and> getWidth e = w \<and> eval env e = eval env x"
    using cast_create_gives(1) [of cao env x w] eval_in_width [of cao env x] by (auto simp: gives_def)
next
  assume "well_typed cao env (SExtExpr x w)"
  then show "\<exists>e. SExtExpr_create x w = Some e \<and> well_typed cao env e \<and> getWidth e = w \<and>
        eval env e = signed_value (getWidth x) (eval env x) mod 2 ^ w"
    using cast_create_gives(2) [of cao env x w] eval_in_width [of cao env x] by (auto simp: gives_def constant_sext_def take_bit_eq_mod)
next
  assume "well_typed cao env (NotExpr x)"
  then show "\<exists>e. NotExpr_create x = Some e \<and> well_typed cao env e \<and> getWidth e = getWidth x \<and>
        eval env e = 2 ^ getWidth x - 1 - eval env x"
    using NotExpr_create_gives [of cao env x] eval_in_width [of cao env x] by (simp add: gives_def constant_not_eq)
next
  assume "well_typed cao env (ReadExpr a us i)"
  from ReadExpr_create_gives [OF this] show "\<exists>e. ReadExpr_create cao a us i = Some e \<and> well_typed cao env e \<and> getWidth e = array_range a \<and>
        eval env e = read_value (update_values env us) (eval env i) (initial_value env a (eval env i))" by (simp add: gives_def)
qed


theorem structural_constructors_sound_witness:
  "\<exists>e. ReadExpr_create False sample_array [(ConstantExpr 32 2, ConstantExpr 8 9), (ConstantExpr 32 1, ConstantExpr 8 7)] (ConstantExpr 32 1) = Some e \<and>
    getWidth e = 8 \<and> eval (\<lambda>p i. 0) e = 7"
  using structural_constructors_sound [of False "\<lambda>p i. 0" "ConstantExpr 1 1" "ConstantExpr 8 1" "ConstantExpr 8 2"
    "ConstantExpr 8 1" "ConstantExpr 8 2" "ConstantExpr 8 3" 2 4 sample_array
    "[(ConstantExpr 32 2, ConstantExpr 8 9), (ConstantExpr 32 1, ConstantExpr 8 7)]" "ConstantExpr 32 1"]
  by (auto simp: sample_array_def array_ok_def in_width_def)

end
