(* ===== verification/Solver.thy ===== *)
theory Solver
  imports Expr_Sound Bits_Arith
begin

unbundle bit_operations_syntax

declare One_nat_def [simp del]

section \<open>Solvers: the interface and its front end\<close>

text \<open>
  \<open>klee/include/klee/Solver/SolverImpl.h\<close> declares the class \<open>SolverImpl\<close> that the constraint solvers and the
  layers on top of them implement; \<open>Solver\<close> (\<open>klee/lib/Solver/Solver.cpp\<close>) is the front end the executor
  calls. Here: the class as a record of functions, what its documentation promises as the locale \<open>solver\<close>, the
  front end with the binary searches of \<open>getRange\<close>, and \<open>DummySolver\<close>.

  A call returns \<open>None\<close> when an assertion fails, \<open>Some (None, s)\<close> when it reports failure (\<open>return false\<close>, the
  result is not set) and \<open>Some (Some r, s)\<close> with a result; \<open>s\<close> is the state of the solver afterwards.
\<close>

subsection \<open>Queries\<close>

record query =
  q_constraints :: "expr list"
  q_expr :: expr

definition withExpr :: "query \<Rightarrow> expr \<Rightarrow> query" where
  "withExpr q e = q\<lparr>q_expr := e\<rparr>"

definition withFalse :: "query \<Rightarrow> query" where
  "withFalse q = q\<lparr>q_expr := ConstantExpr 1 0\<rparr>"

definition negateExpr :: "bool \<Rightarrow> query \<Rightarrow> query option" where
  "negateExpr cao q = map_option (withExpr q) (createIsZero cao (q_expr q))"

subsection \<open>The class\<close>

datatype validity = Validity_True | Validity_False | Validity_Unknown

type_synonym ('a, 's) answer = "('a option \<times> 's) option"

text \<open>The result of \<open>computeInitialValues\<close>: no solution, or the bytes of every object.\<close>

type_synonym solution = "int list list option"

record 's solver_impl =
  si_computeValidity :: "query \<Rightarrow> 's \<Rightarrow> (validity, 's) answer"
  si_computeTruth :: "query \<Rightarrow> 's \<Rightarrow> (bool, 's) answer"
  si_computeValue :: "query \<Rightarrow> 's \<Rightarrow> (expr, 's) answer"
  si_computeInitialValues :: "query \<Rightarrow> array list \<Rightarrow> 's \<Rightarrow> (solution, 's) answer"

text \<open>\<open>if (!call) return false;\<close>\<close>

definition ask :: "('a, 's) answer \<Rightarrow> ('a \<Rightarrow> 's \<Rightarrow> ('b, 's) answer) \<Rightarrow> ('b, 's) answer" where
  "ask call k =
     (case call of
        None \<Rightarrow> None
      | Some (None, s) \<Rightarrow> Some (None, s)
      | Some (Some x, s) \<Rightarrow> k x s)"

text \<open>The default implementation of \<open>computeValidity\<close>, from \<open>computeTruth\<close>.\<close>

definition default_computeValidity :: "bool \<Rightarrow> (query \<Rightarrow> 's \<Rightarrow> (bool, 's) answer) \<Rightarrow> query \<Rightarrow> 's \<Rightarrow> (validity, 's) answer" where
  "default_computeValidity cao computeTruth q s =
     ask (computeTruth q s) (\<lambda>isTrue s1.
       if isTrue then Some (Some Validity_True, s1)
       else do {
         n \<leftarrow> negateExpr cao q;
         ask (computeTruth n s1) (\<lambda>isFalse s2.
           Some (Some (if isFalse then Validity_False else Validity_Unknown), s2)) })"

subsection \<open>The front end\<close>

definition sv_evaluate :: "'s solver_impl \<Rightarrow> query \<Rightarrow> 's \<Rightarrow> (validity, 's) answer" where
  "sv_evaluate impl q s =
     (if getWidth (q_expr q) \<noteq> 1 then None
      else case as_constant (q_expr q) of
        Some (w, v) \<Rightarrow> Some (Some (if isTrue w v then Validity_True else Validity_False), s)
      | None \<Rightarrow> si_computeValidity impl q s)"

definition mustBeTrue :: "'s solver_impl \<Rightarrow> query \<Rightarrow> 's \<Rightarrow> (bool, 's) answer" where
  "mustBeTrue impl q s =
     (if getWidth (q_expr q) \<noteq> 1 then None
      else case as_constant (q_expr q) of
        Some (w, v) \<Rightarrow> Some (Some (isTrue w v), s)
      | None \<Rightarrow> si_computeTruth impl q s)"

definition mustBeFalse :: "bool \<Rightarrow> 's solver_impl \<Rightarrow> query \<Rightarrow> 's \<Rightarrow> (bool, 's) answer" where
  "mustBeFalse cao impl q s = do { n \<leftarrow> negateExpr cao q; mustBeTrue impl n s }"

definition mayBeTrue :: "bool \<Rightarrow> 's solver_impl \<Rightarrow> query \<Rightarrow> 's \<Rightarrow> (bool, 's) answer" where
  "mayBeTrue cao impl q s = ask (mustBeFalse cao impl q s) (\<lambda>res s'. Some (Some (\<not> res), s'))"

definition mayBeFalse :: "'s solver_impl \<Rightarrow> query \<Rightarrow> 's \<Rightarrow> (bool, 's) answer" where
  "mayBeFalse impl q s = ask (mustBeTrue impl q s) (\<lambda>res s'. Some (Some (\<not> res), s'))"

definition getValue :: "'s solver_impl \<Rightarrow> query \<Rightarrow> 's \<Rightarrow> (expr, 's) answer" where
  "getValue impl q s =
     (if isConstant (q_expr q) then Some (Some (q_expr q), s)
      else ask (si_computeValue impl q s) (\<lambda>tmp s'. if isConstant tmp then Some (Some tmp, s') else None))"

definition getInitialValues :: "'s solver_impl \<Rightarrow> query \<Rightarrow> array list \<Rightarrow> 's \<Rightarrow> (int list list, 's) answer" where
  "getInitialValues impl q objects s = ask (si_computeInitialValues impl q objects s) (\<lambda>sol s'. Some (sol, s'))"

subsection \<open>\<open>getRange\<close>\<close>

text \<open>\<open>ConstantExpr::create(v, w)\<close> asserts that the value fits the width.\<close>

definition constant_create :: "nat \<Rightarrow> width \<Rightarrow> expr option" where
  "constant_create v w = (if w \<le> 64 \<and> \<not> (0 < w \<and> v < 2 ^ w) then None else Some (ConstantExpr w (take_bit w (int v))))"

text \<open>\<open>assert(success)\<close>.\<close>

definition must_succeed :: "('a, 's) answer \<Rightarrow> ('a \<times> 's) option" where
  "must_succeed call = (case call of Some (Some x, s) \<Rightarrow> Some (x, s) | _ \<Rightarrow> None)"

text \<open>The loop of the three binary searches: the first value of a range for which the solver says yes.\<close>

function search :: "(nat \<Rightarrow> 's \<Rightarrow> (bool \<times> 's) option) \<Rightarrow> nat \<Rightarrow> nat \<Rightarrow> 's \<Rightarrow> (nat \<times> 's) option" where
  "search test lo hi s =
     (if lo < hi
      then let mid = lo + (hi - lo) div 2 in do {
        (res, s') \<leftarrow> test mid s;
        if res then search test lo mid s' else search test (mid + 1) hi s' }
      else Some (lo, s))"
  by pat_completeness auto

termination
  by (relation "measure (\<lambda>(test, lo, hi, s). hi - lo)") auto

declare search.simps [simp del]

definition test_bits :: "bool \<Rightarrow> 's solver_impl \<Rightarrow> query \<Rightarrow> nat \<Rightarrow> 's \<Rightarrow> (bool \<times> 's) option" where
  "test_bits cao impl q mid s = do {
     c \<leftarrow> constant_create mid (getWidth (q_expr q));
     z \<leftarrow> constant_create 0 (getWidth (q_expr q));
     l \<leftarrow> shift_create cao LShr (q_expr q) c;
     e \<leftarrow> EqExpr_create cao l z;
     must_succeed (mustBeTrue impl (withExpr q e) s) }"

definition test_min :: "bool \<Rightarrow> 's solver_impl \<Rightarrow> query \<Rightarrow> nat \<Rightarrow> 's \<Rightarrow> (bool \<times> 's) option" where
  "test_min cao impl q mid s = do {
     c \<leftarrow> constant_create mid (getWidth (q_expr q));
     e \<leftarrow> UleExpr_create cao (q_expr q) c;
     must_succeed (mayBeTrue cao impl (withExpr q e) s) }"

definition test_max :: "bool \<Rightarrow> 's solver_impl \<Rightarrow> query \<Rightarrow> nat \<Rightarrow> 's \<Rightarrow> (bool \<times> 's) option" where
  "test_max cao impl q mid s = do {
     c \<leftarrow> constant_create mid (getWidth (q_expr q));
     e \<leftarrow> UleExpr_create cao (q_expr q) c;
     must_succeed (mustBeTrue impl (withExpr q e) s) }"

definition range_bounds :: "bool \<Rightarrow> 's solver_impl \<Rightarrow> query \<Rightarrow> 's \<Rightarrow> ((nat \<times> nat) \<times> 's) option" where
  "range_bounds cao impl q s =
     (if getWidth (q_expr q) = 1 then do {
        (v, s') \<leftarrow> must_succeed (sv_evaluate impl q s);
        Some (case v of Validity_True \<Rightarrow> (1, 1) | Validity_False \<Rightarrow> (0, 0) | Validity_Unknown \<Rightarrow> (0, 1), s') }
      else case as_constant (q_expr q) of
        Some (w, v) \<Rightarrow> if w \<le> 64 then Some ((nat v, nat v), s) else None
      | None \<Rightarrow> do {
          (bits, s1) \<leftarrow> search (test_bits cao impl q) 0 (getWidth (q_expr q)) s;
          z \<leftarrow> constant_create 0 (getWidth (q_expr q));
          e \<leftarrow> EqExpr_create cao (q_expr q) z;
          (zero, s2) \<leftarrow> must_succeed (mayBeTrue cao impl (withExpr q e) s1);
          top \<leftarrow> maxValueOfNBits bits;
          (min, s3) \<leftarrow> (if zero then Some (0, s2) else search (test_min cao impl q) 0 (unat top) s2);
          (max, s4) \<leftarrow> search (test_max cao impl q) min (unat top) s3;
          Some ((min, max), s4) })"

definition getRange :: "bool \<Rightarrow> 's solver_impl \<Rightarrow> query \<Rightarrow> 's \<Rightarrow> ((expr \<times> expr) \<times> 's) option" where
  "getRange cao impl q s = do {
     ((min, max), s') \<leftarrow> range_bounds cao impl q s;
     lo \<leftarrow> constant_create min (getWidth (q_expr q));
     hi \<leftarrow> constant_create max (getWidth (q_expr q));
     Some ((lo, hi), s') }"

subsection \<open>DummySolver\<close>

definition dummy_solver :: "'s solver_impl" where
  "dummy_solver = \<lparr>si_computeValidity = \<lambda>q s. Some (None, s), si_computeTruth = \<lambda>q s. Some (None, s),
     si_computeValue = \<lambda>q s. Some (None, s), si_computeInitialValues = \<lambda>q objects s. Some (None, s)\<rparr>"

subsection \<open>What queries mean\<close>

definition models :: "assignment \<Rightarrow> expr list \<Rightarrow> bool" where
  "models env cs \<longleftrightarrow> (\<forall>c\<in>set cs. eval env c \<noteq> 0)"

text \<open>\<open>\<forall>X. constraints(X) \<longrightarrow> query(X)\<close>, and the constraints have a solution.\<close>

definition must :: "query \<Rightarrow> bool" where
  "must q \<longleftrightarrow> (\<forall>env. models env (q_constraints q) \<longrightarrow> eval env (q_expr q) \<noteq> 0)"

definition must_not :: "query \<Rightarrow> bool" where
  "must_not q \<longleftrightarrow> (\<forall>env. models env (q_constraints q) \<longrightarrow> eval env (q_expr q) = 0)"

definition consistent :: "query \<Rightarrow> bool" where
  "consistent q \<longleftrightarrow> (\<exists>env. models env (q_constraints q))"

definition validity_of :: "query \<Rightarrow> validity" where
  "validity_of q = (if must q then Validity_True else if must_not q then Validity_False else Validity_Unknown)"

text \<open>Expressions that are well-typed under every assignment.\<close>

definition typed :: "bool \<Rightarrow> expr \<Rightarrow> bool" where
  "typed cao e \<longleftrightarrow> (\<forall>env. well_typed cao env e)"

definition query_ok :: "bool \<Rightarrow> query \<Rightarrow> bool" where
  "query_ok cao q \<longleftrightarrow> (\<forall>c\<in>set (q_constraints q). typed cao c \<and> getWidth c = 1) \<and> typed cao (q_expr q)"

definition bool_query :: "bool \<Rightarrow> query \<Rightarrow> bool" where
  "bool_query cao q \<longleftrightarrow> query_ok cao q \<and> getWidth (q_expr q) = 1"

definition contents :: "assignment \<Rightarrow> array \<Rightarrow> int list" where
  "contents env a = map (\<lambda>j. take_bit (array_range a) (env a j)) [0..<array_size a]"

text \<open>
  What a solver promises: on queries that are well-typed, with constraints that have a solution, no
  assertion fails, and a result is right. Initial values are asked for without that condition; the
  expression is then not the constant true.
\<close>

definition right_value :: "query \<Rightarrow> expr \<Rightarrow> bool" where
  "right_value q e \<longleftrightarrow>
     (\<exists>env. models env (q_constraints q) \<and> e = ConstantExpr (getWidth (q_expr q)) (eval env (q_expr q)))"

definition right_solution :: "query \<Rightarrow> array list \<Rightarrow> solution \<Rightarrow> bool" where
  "right_solution q objects sol \<longleftrightarrow>
     (case sol of
        None \<Rightarrow> must q
      | Some values \<Rightarrow>
          (\<exists>env. models env (q_constraints q) \<and> eval env (q_expr q) = 0 \<and> values = map (contents env) objects))"

definition answers :: "('s \<Rightarrow> bool) \<Rightarrow> ('a \<Rightarrow> bool) \<Rightarrow> ('a, 's) answer \<Rightarrow> bool" where
  "answers good right call \<longleftrightarrow> (\<exists>r s. call = Some (r, s) \<and> good s \<and> (\<forall>x. r = Some x \<longrightarrow> right x))"

definition can_fail :: "query \<Rightarrow> bool" where
  "can_fail q \<longleftrightarrow> (\<forall>w v. q_expr q = ConstantExpr w v \<longrightarrow> v = 0)"

locale solver =
  fixes cao :: bool and impl :: "'s solver_impl" and good :: "'s \<Rightarrow> bool"
  assumes validity: "good s \<Longrightarrow> bool_query cao q \<Longrightarrow> consistent q \<Longrightarrow>
      answers good (\<lambda>v. v = validity_of q) (si_computeValidity impl q s)"
    and truth: "good s \<Longrightarrow> bool_query cao q \<Longrightarrow> consistent q \<Longrightarrow>
      answers good (\<lambda>b. b = must q) (si_computeTruth impl q s)"
    and computed_value: "good s \<Longrightarrow> query_ok cao q \<Longrightarrow> consistent q \<Longrightarrow>
      answers good (right_value q) (si_computeValue impl q s)"
    and initial: "good s \<Longrightarrow> bool_query cao q \<Longrightarrow> can_fail q \<Longrightarrow> list_all isSymbolicArray objects \<Longrightarrow>
      answers good (right_solution q objects) (si_computeInitialValues impl q objects s)"

text \<open>A solver that always finds the truth of a query.\<close>

locale deciding_solver = solver +
  assumes truth_found: "good s \<Longrightarrow> bool_query cao q \<Longrightarrow> consistent q \<Longrightarrow> \<exists>b s'. si_computeTruth impl q s = Some (Some b, s')"
    and validity_found: "good s \<Longrightarrow> bool_query cao q \<Longrightarrow> consistent q \<Longrightarrow> \<exists>v s'. si_computeValidity impl q s = Some (Some v, s')"

lemma answersI: "call = Some (r, s) \<Longrightarrow> good s \<Longrightarrow> (\<And>x. r = Some x \<Longrightarrow> right x) \<Longrightarrow> answers good right call"
  by (simp add: answers_def)

lemma answers_ask:
  assumes "answers good right call" "\<And>x s. good s \<Longrightarrow> right x \<Longrightarrow> answers good right' (k x s)"
  shows "answers good right' (ask call k)"
  using assms by (fastforce simp: answers_def ask_def split: option.splits)

lemma answers_weaken: "answers good right call \<Longrightarrow> (\<And>x. right x \<Longrightarrow> right' x) \<Longrightarrow> answers good right' call"
  by (auto simp: answers_def)

lemma answers_return [simp]: "answers good right (Some (Some x, s)) \<longleftrightarrow> good s \<and> right x"
  "answers good right (Some (None, s)) \<longleftrightarrow> good s"
  by (auto simp: answers_def)

interpretation dummy: solver cao dummy_solver "\<lambda>_. True" for cao
  by unfold_locales (auto simp: dummy_solver_def)

subsection \<open>Created expressions under all assignments\<close>

lemma gives_all:
  assumes "\<And>env. gives cao env w (v env) r"
  obtains e where "r = Some e" "typed cao e" "getWidth e = w" "\<And>env. eval env e = v env"
proof -
  obtain e where e: "r = Some e" using assms [of undefined] by (auto simp: gives_def)
  then show thesis using that assms by (simp add: typed_def)
qed

lemma typed_width: "typed cao e \<Longrightarrow> 0 < getWidth e \<and> in_width (getWidth e) (eval env e)"
  using eval_in_width [of cao env e] by (auto simp: typed_def)

lemma typed_bool: "typed cao e \<Longrightarrow> getWidth e = 1 \<Longrightarrow> eval env e = 0 \<or> eval env e = 1"
  using typed_width [of cao e env] by (simp add: in_width_1)

lemma negateExpr_ok:
  assumes "bool_query cao q"
  obtains n where "negateExpr cao q = Some n" "bool_query cao n" "q_constraints n = q_constraints q"
    "\<And>env. eval env (q_expr n) = of_bool (eval env (q_expr q) = 0)"
proof -
  have "gives cao env 1 (of_bool (eval env (q_expr q) = 0)) (createIsZero cao (q_expr q))" for env
    using assms createIsZero_gives by (simp add: bool_query_def query_ok_def typed_def)
  then obtain z where "createIsZero cao (q_expr q) = Some z" "typed cao z" "getWidth z = 1"
      "\<And>env. eval env z = of_bool (eval env (q_expr q) = 0)"
    using gives_all [of cao 1 "\<lambda>env. of_bool (eval env (q_expr q) = 0)"] by metis
  then show thesis using that [of "withExpr q z"] assms by (auto simp: negateExpr_def withExpr_def bool_query_def query_ok_def)
qed

lemma negated_meaning:
  assumes "q_constraints n = q_constraints q" "\<And>env. eval env (q_expr n) = of_bool (eval env (q_expr q) = 0)"
  shows "must n = must_not q" "must_not n = must q" "consistent n = consistent q"
  using assms by (auto simp: must_def must_not_def consistent_def)

lemma must_exclusive: "consistent q \<Longrightarrow> \<not> (must q \<and> must_not q)"
  by (auto simp: consistent_def must_def must_not_def)

text \<open>The default \<open>computeValidity\<close> is right when \<open>computeTruth\<close> is.\<close>

lemma default_validity_right:
  assumes "\<And>q s. good s \<Longrightarrow> bool_query cao q \<Longrightarrow> consistent q \<Longrightarrow> answers good (\<lambda>b. b = must q) (computeTruth q s)"
    and "good s" "bool_query cao q" "consistent q"
  shows "answers good (\<lambda>v. v = validity_of q) (default_computeValidity cao computeTruth q s)"
proof -
  obtain n where n: "negateExpr cao q = Some n" "bool_query cao n" "q_constraints n = q_constraints q"
      "\<And>env. eval env (q_expr n) = of_bool (eval env (q_expr q) = 0)"
    using negateExpr_ok [OF assms(3)] by blast
  note m = negated_meaning [OF n(3,4)]
  have neg: "answers good (\<lambda>v. v = validity_of q)
      (ask (computeTruth n s1) (\<lambda>isFalse s2. Some (Some (if isFalse then Validity_False else Validity_Unknown), s2)))"
    if "good s1" "\<not> must q" for s1
    using assms(1) [OF that(1) n(2)] that m assms(4) by (intro answers_ask) (auto simp: validity_of_def)
  show ?thesis unfolding default_computeValidity_def n(1)
    using neg by (intro answers_ask [OF assms(1) [OF assms(2-4)]]) (auto simp: validity_of_def)
qed

text \<open>The values that the expression of a query can take.\<close>

definition vals :: "query \<Rightarrow> int set" where
  "vals q = {eval env (q_expr q) |env. models env (q_constraints q)}"

lemma vals_ok:
  assumes "query_ok cao q" "v \<in> vals q"
  shows "0 \<le> v" "v < 2 ^ getWidth (q_expr q)"
  using assms typed_width [of cao "q_expr q"] by (auto simp: vals_def query_ok_def in_width_def)

lemma compare_query:
  assumes "query_ok cao q" and "\<And>env. gives cao env 1 (of_bool (P (eval env (q_expr q)))) r"
  obtains e where "r = Some e" "bool_query cao (withExpr q e)" "must (withExpr q e) \<longleftrightarrow> (\<forall>v\<in>vals q. P v)"
    "must_not (withExpr q e) \<longleftrightarrow> (\<forall>v\<in>vals q. \<not> P v)" "consistent (withExpr q e) = consistent q"
proof -
  obtain e where e: "r = Some e" "typed cao e" "getWidth e = 1" "\<And>env. eval env e = of_bool (P (eval env (q_expr q)))"
    using gives_all [OF assms(2)] by blast
  then show thesis using that [of e] assms(1)
    by (auto simp: bool_query_def query_ok_def withExpr_def must_def must_not_def consistent_def vals_def)
qed

lemma constant_create_small:
  assumes "0 < w" "n < 2 ^ w"
  shows "constant_create n w = Some (ConstantExpr w (int n))"
proof -
  have "int n < 2 ^ w" using assms(2) by (metis of_nat_less_numeral_power_cancel_iff of_nat_numeral of_nat_power of_nat_less_iff)
  then show ?thesis using assms by (simp add: constant_create_def take_bit_int_eq_self)
qed

lemma operands_constant:
  assumes "query_ok cao q" "n < 2 ^ getWidth (q_expr q)"
  shows "operands cao env (q_expr q) (ConstantExpr (getWidth (q_expr q)) (int n))"
proof -
  have "int n < 2 ^ getWidth (q_expr q)" using assms(2) by (metis of_nat_less_iff of_nat_numeral of_nat_power)
  then show ?thesis using assms(1) typed_width [of cao "q_expr q"] by (simp add: operands_def query_ok_def typed_def in_width_def)
qed

lemma maxValueOfNBits_nat:
  assumes "n \<le> 64"
  shows "\<exists>t. maxValueOfNBits n = Some t \<and> unat t = 2 ^ n - 1"
proof -
  have "uint (mask n :: u64) = int (mask n)" using assms by (simp add: uint_mask_eq of_nat_mask_eq)
  then have "unat (mask n :: u64) = mask n" unfolding unat_eq_nat_uint by (metis nat_int)
  then show ?thesis using maxValueOfNBits_eq [OF assms] by (metis mask_eq_exp_minus_1)
qed

lemma drop_bit_zero: "0 \<le> v \<Longrightarrow> drop_bit n v = 0 \<longleftrightarrow> v < 2 ^ n" for v :: int
  using zero_less_power [of "2 :: int" n] by (auto simp: drop_bit_eq_div zdiv_eq_0_iff simp del: zero_less_power)

subsection \<open>The front end decides\<close>

lemma search_finds:
  assumes "\<And>mid s. lo \<le> mid \<Longrightarrow> mid < hi \<Longrightarrow> good s \<Longrightarrow> \<exists>s'. test mid s = Some (P mid, s') \<and> good s'"
    and "\<And>a b. P a \<Longrightarrow> a \<le> b \<Longrightarrow> P b" and "lo \<le> hi" and "good s"
  shows "\<exists>r s'. search test lo hi s = Some (r, s') \<and> good s' \<and> lo \<le> r \<and> r \<le> hi \<and>
           (\<forall>n. lo \<le> n \<and> n < r \<longrightarrow> \<not> P n) \<and> (r < hi \<longrightarrow> P r)"
  using assms
proof (induction "hi - lo" arbitrary: lo hi s rule: less_induct)
  case less
  show ?case
  proof (cases "lo < hi")
    case False
    then show ?thesis using less.prems(3,4) by (auto simp: search.simps)
  next
    case True
    define mid where "mid = lo + (hi - lo) div 2"
    have mid: "lo \<le> mid" "mid < hi" using True by (auto simp: mid_def)
    obtain s1 where s1: "test mid s = Some (P mid, s1)" "good s1" using less.prems(1) mid less.prems(4) by blast
    have step: "search test lo hi s = (if P mid then search test lo mid s1 else search test (mid + 1) hi s1)"
      using True s1(1) by (subst search.simps) (simp add: mid_def Let_def)
    show ?thesis
    proof (cases "P mid")
      case P: True
      have "\<exists>r s'. search test lo mid s1 = Some (r, s') \<and> good s' \<and> lo \<le> r \<and> r \<le> mid \<and>
          (\<forall>n. lo \<le> n \<and> n < r \<longrightarrow> \<not> P n) \<and> (r < mid \<longrightarrow> P r)"
        using mid less.prems s1(2) by (intro less.hyps) auto
      then show ?thesis using P step mid le_neq_implies_less by (fastforce simp: le_less)
    next
      case P: False
      have "\<exists>r s'. search test (mid + 1) hi s1 = Some (r, s') \<and> good s' \<and> mid + 1 \<le> r \<and> r \<le> hi \<and>
          (\<forall>n. mid + 1 \<le> n \<and> n < r \<longrightarrow> \<not> P n) \<and> (r < hi \<longrightarrow> P r)"
        using mid less.prems s1(2) by (intro less.hyps) auto
      moreover have "\<not> P n" if "n \<le> mid" for n using less.prems(2) [OF _ that] P by blast
      ultimately show ?thesis using P step mid by (metis Suc_eq_plus1 Suc_leI le_SucI le_trans not_less_eq_eq)
    qed
  qed
qed

lemma search_least:
  assumes "\<forall>mid s. lo \<le> mid \<and> mid < hi \<and> good s \<longrightarrow> (\<exists>s'. test mid s = Some (P mid, s') \<and> good s')"
    and "\<forall>a b. P a \<and> a \<le> b \<longrightarrow> P b" and "lo \<le> hi" and "good s" and "P hi"
  obtains r s' where "search test lo hi s = Some (r, s')" "good s'" "lo \<le> r" "r \<le> hi" "P r"
    "\<And>n. lo \<le> n \<Longrightarrow> n < r \<Longrightarrow> \<not> P n"
proof -
  have "\<exists>r s'. search test lo hi s = Some (r, s') \<and> good s' \<and> lo \<le> r \<and> r \<le> hi \<and>
      (\<forall>n. lo \<le> n \<and> n < r \<longrightarrow> \<not> P n) \<and> (r < hi \<longrightarrow> P r)"
    by (rule search_finds) (use assms in auto)
  then show thesis using that assms(5) le_neq_implies_less by metis
qed

context deciding_solver
begin

lemma mustBeTrue_decides:
  assumes "good s" "bool_query cao q" "consistent q"
  shows "\<exists>s'. mustBeTrue impl q s = Some (Some (must q), s') \<and> good s'"
proof (cases "as_constant (q_expr q)")
  case None
  then show ?thesis
    using truth [OF assms] truth_found [OF assms] assms(2) by (auto simp: mustBeTrue_def answers_def bool_query_def)
next
  case (Some p)
  then obtain v where v: "q_expr q = ConstantExpr 1 v" using assms(2) by (cases p) (auto simp: bool_query_def)
  then show ?thesis using assms(1,3) by (auto simp: mustBeTrue_def isTrue_def must_def consistent_def)
qed

lemma evaluate_decides:
  assumes "good s" "bool_query cao q" "consistent q"
  shows "\<exists>s'. sv_evaluate impl q s = Some (Some (validity_of q), s') \<and> good s'"
proof (cases "as_constant (q_expr q)")
  case None
  then show ?thesis
    using validity [OF assms] validity_found [OF assms] assms(2) by (auto simp: sv_evaluate_def answers_def bool_query_def)
next
  case (Some p)
  then obtain v where v: "q_expr q = ConstantExpr 1 v" using assms(2) by (cases p) (auto simp: bool_query_def)
  then show ?thesis
    using assms(1,3) by (auto simp: sv_evaluate_def isTrue_def validity_of_def must_def must_not_def consistent_def)
qed

lemma mayBeTrue_decides:
  assumes "good s" "bool_query cao q" "consistent q"
  shows "\<exists>s'. mayBeTrue cao impl q s = Some (Some (\<not> must_not q), s') \<and> good s'"
proof -
  obtain n where n: "negateExpr cao q = Some n" "bool_query cao n" "q_constraints n = q_constraints q"
      "\<And>env. eval env (q_expr n) = of_bool (eval env (q_expr q) = 0)"
    using negateExpr_ok [OF assms(2)] by blast
  note m = negated_meaning [OF n(3,4)]
  show ?thesis using mustBeTrue_decides [OF assms(1) n(2)] m assms(3) n(1) by (auto simp: mayBeTrue_def mustBeFalse_def ask_def)
qed

text \<open>One step of each of the three searches.\<close>

lemma test_min_decides:
  assumes "good s" "query_ok cao q" "consistent q" "mid < 2 ^ getWidth (q_expr q)"
  shows "\<exists>s'. test_min cao impl q mid s = Some (\<exists>v\<in>vals q. v \<le> int mid, s') \<and> good s'"
proof -
  let ?w = "getWidth (q_expr q)"
  have "0 < ?w" using assms(2) typed_width [of cao "q_expr q"] by (simp add: query_ok_def)
  then have c: "constant_create mid ?w = Some (ConstantExpr ?w (int mid))" using assms(4) by (rule constant_create_small)
  have "gives cao env 1 (of_bool (eval env (q_expr q) \<le> int mid)) (UleExpr_create cao (q_expr q) (ConstantExpr ?w (int mid)))" for env
    using fold_operations_give(6) [OF operands_constant [OF assms(2,4)], of env]
    by (simp add: gives_binary_def constant_binary_def is_compare_def)
  then obtain e where e: "UleExpr_create cao (q_expr q) (ConstantExpr ?w (int mid)) = Some e" "bool_query cao (withExpr q e)"
      "must_not (withExpr q e) \<longleftrightarrow> (\<forall>v\<in>vals q. \<not> v \<le> int mid)" "consistent (withExpr q e)"
    using compare_query [OF assms(2), of "\<lambda>v. v \<le> int mid"] assms(3) by metis
  show ?thesis using mayBeTrue_decides [OF assms(1) e(2,4)] c e(1,3) by (auto simp: test_min_def must_succeed_def)
qed

lemma test_max_decides:
  assumes "good s" "query_ok cao q" "consistent q" "mid < 2 ^ getWidth (q_expr q)"
  shows "\<exists>s'. test_max cao impl q mid s = Some (\<forall>v\<in>vals q. v \<le> int mid, s') \<and> good s'"
proof -
  let ?w = "getWidth (q_expr q)"
  have "0 < ?w" using assms(2) typed_width [of cao "q_expr q"] by (simp add: query_ok_def)
  then have c: "constant_create mid ?w = Some (ConstantExpr ?w (int mid))" using assms(4) by (rule constant_create_small)
  have "gives cao env 1 (of_bool (eval env (q_expr q) \<le> int mid)) (UleExpr_create cao (q_expr q) (ConstantExpr ?w (int mid)))" for env
    using fold_operations_give(6) [OF operands_constant [OF assms(2,4)], of env]
    by (simp add: gives_binary_def constant_binary_def is_compare_def)
  then obtain e where e: "UleExpr_create cao (q_expr q) (ConstantExpr ?w (int mid)) = Some e" "bool_query cao (withExpr q e)"
      "must (withExpr q e) \<longleftrightarrow> (\<forall>v\<in>vals q. v \<le> int mid)" "consistent (withExpr q e)"
    using compare_query [OF assms(2), of "\<lambda>v. v \<le> int mid"] assms(3) by metis
  show ?thesis using mustBeTrue_decides [OF assms(1) e(2,4)] c e(1,3) by (auto simp: test_max_def must_succeed_def)
qed

lemma test_bits_decides:
  assumes "good s" "query_ok cao q" "consistent q" "mid < getWidth (q_expr q)"
  shows "\<exists>s'. test_bits cao impl q mid s = Some (\<forall>v\<in>vals q. v < 2 ^ mid, s') \<and> good s'"
proof -
  let ?w = "getWidth (q_expr q)"
  have w: "0 < ?w" "mid < 2 ^ ?w" using assms(4) by (auto intro: less_trans [OF _ less_exp])
  note c = constant_create_small [OF w] constant_create_small [of ?w 0, OF w(1)]
  have l: "gives cao env ?w (drop_bit mid (eval env (q_expr q))) (shift_create cao LShr (q_expr q) (ConstantExpr ?w (int mid)))" for env
    using fold_operations_give(3) [OF operands_constant [OF assms(2) w(2)], of LShr env] assms(4)
    by (simp add: gives_binary_def constant_binary_def is_compare_def)
  obtain l where l: "shift_create cao LShr (q_expr q) (ConstantExpr ?w (int mid)) = Some l" "typed cao l" "getWidth l = ?w"
      "\<And>env. eval env l = drop_bit mid (eval env (q_expr q))" by (rule gives_all [OF l]) blast
  have "gives cao env 1 (of_bool (eval env (q_expr q) < 2 ^ mid)) (EqExpr_create cao l (ConstantExpr ?w 0))" for env
  proof -
    have "operands cao env l (ConstantExpr ?w 0)" using l(2,3) w(1) by (simp add: operands_def typed_def)
    moreover have "drop_bit mid (eval env (q_expr q)) = 0 \<longleftrightarrow> eval env (q_expr q) < 2 ^ mid"
      using typed_width [of cao "q_expr q" env] assms(2) by (simp add: drop_bit_zero query_ok_def in_width_def)
    ultimately show ?thesis
      using EqExpr_create_gives(1) [of cao env l "ConstantExpr ?w 0"] l(3,4)
      by (simp add: gives_binary_def constant_binary_def is_compare_def)
  qed
  then obtain e where e: "EqExpr_create cao l (ConstantExpr ?w 0) = Some e" "bool_query cao (withExpr q e)"
      "must (withExpr q e) \<longleftrightarrow> (\<forall>v\<in>vals q. v < 2 ^ mid)" "consistent (withExpr q e)"
    using compare_query [OF assms(2), of "\<lambda>v. v < 2 ^ mid"] assms(3) by metis
  show ?thesis using mustBeTrue_decides [OF assms(1) e(2,4)] c l(1) e(1,3) by (auto simp: test_bits_def must_succeed_def)
qed

lemma minimum_found:
  assumes "good s" "query_ok cao q" "consistent q" "\<And>v. v \<in> vals q \<Longrightarrow> v \<le> int bound" "bound < 2 ^ getWidth (q_expr q)"
  shows "\<exists>lo s'. (if 0 \<in> vals q then Some (0, s) else search (test_min cao impl q) 0 bound s) = Some (lo, s') \<and> good s' \<and>
           int lo \<in> vals q \<and> (\<forall>v\<in>vals q. int lo \<le> v) \<and> lo \<le> bound"
proof (cases "0 \<in> vals q")
  case True
  then show ?thesis using assms(1) vals_ok(1) [OF assms(2)] by auto
next
  case False
  let ?P = "\<lambda>n. \<exists>v\<in>vals q. v \<le> int n"
  obtain v0 where v0: "v0 \<in> vals q" using assms(3) by (auto simp: vals_def consistent_def)
  have t: "\<forall>mid s. 0 \<le> mid \<and> mid < bound \<and> good s \<longrightarrow> (\<exists>s'. test_min cao impl q mid s = Some (?P mid, s') \<and> good s')"
    using test_min_decides [OF _ assms(2,3)] assms(5) less_trans by blast
  have up: "\<forall>a b. ?P a \<and> a \<le> b \<longrightarrow> ?P b" by (meson of_nat_mono order_trans)
  have pb: "?P bound" using v0 assms(4) by blast
  obtain lo s' where lo: "search (test_min cao impl q) 0 bound s = Some (lo, s')" "good s'" "lo \<le> bound" "?P lo"
      "\<And>n. 0 \<le> n \<Longrightarrow> n < lo \<Longrightarrow> \<not> ?P n"
    by (rule search_least [OF t up le0 assms(1) pb]) (rule that, assumption+)
  obtain v where v: "v \<in> vals q" "v \<le> int lo" using lo(4) by blast
  have least: "int lo \<le> u" if "u \<in> vals q" for u
    using lo(5) [of "nat u"] vals_ok(1) [OF assms(2) that] that by (cases "nat u < lo") auto
  then have "v = int lo" using v by force
  then show ?thesis using False lo(1,2,3) v(1) least by auto
qed

lemma maximum_found:
  assumes "good s" "query_ok cao q" "consistent q" "int lo \<in> vals q" "\<And>v. v \<in> vals q \<Longrightarrow> int lo \<le> v"
    "\<And>v. v \<in> vals q \<Longrightarrow> v \<le> int bound" "bound < 2 ^ getWidth (q_expr q)" "lo \<le> bound"
  shows "\<exists>hi s'. search (test_max cao impl q) lo bound s = Some (hi, s') \<and> good s' \<and>
           int hi \<in> vals q \<and> (\<forall>v\<in>vals q. v \<le> int hi)"
proof -
  let ?P = "\<lambda>n. \<forall>v\<in>vals q. v \<le> int n"
  have t: "\<forall>mid s. lo \<le> mid \<and> mid < bound \<and> good s \<longrightarrow> (\<exists>s'. test_max cao impl q mid s = Some (?P mid, s') \<and> good s')"
    using test_max_decides [OF _ assms(2,3)] assms(7) less_trans by blast
  have up: "\<forall>a b. ?P a \<and> a \<le> b \<longrightarrow> ?P b" by force
  have pb: "?P bound" using assms(6) by blast
  obtain hi s' where hi: "search (test_max cao impl q) lo bound s = Some (hi, s')" "good s'" "lo \<le> hi" "hi \<le> bound"
      "?P hi" "\<And>n. lo \<le> n \<Longrightarrow> n < hi \<Longrightarrow> \<not> ?P n"
    by (rule search_least [OF t up assms(8,1) pb]) (rule that, assumption+)
  have "int hi \<in> vals q"
  proof (cases "hi = lo")
    case True
    then show ?thesis using assms(4) by simp
  next
    case False
    then have "lo \<le> hi - 1" "hi - 1 < hi" "1 \<le> hi" using hi(3) by auto
    then obtain v where "v \<in> vals q" "int hi \<le> v" using hi(6) [of "hi - 1"] by (auto simp: of_nat_diff)
    then show ?thesis using hi(5) by force
  qed
  then show ?thesis using hi(1,2,5) by auto
qed

lemma range_bounds_symbolic:
  assumes "good s" "query_ok cao q" "consistent q" "getWidth (q_expr q) \<le> 64" "getWidth (q_expr q) \<noteq> 1"
    "\<not> isConstant (q_expr q)"
  shows "\<exists>lo hi s'. range_bounds cao impl q s = Some ((lo, hi), s') \<and> good s' \<and>
           int lo \<in> vals q \<and> int hi \<in> vals q \<and> vals q \<subseteq> {int lo..int hi}"
proof -
  let ?w = "getWidth (q_expr q)"
  have w: "0 < ?w" using assms(2) typed_width [of cao "q_expr q"] by (simp add: query_ok_def)
  obtain v0 where v0: "v0 \<in> vals q" using assms(3) by (auto simp: vals_def consistent_def)
  note ok = vals_ok [OF assms(2)]
  let ?B = "\<lambda>n. \<forall>v\<in>vals q. v < 2 ^ n"
  have tb: "\<forall>mid s. 0 \<le> mid \<and> mid < ?w \<and> good s \<longrightarrow> (\<exists>s'. test_bits cao impl q mid s = Some (?B mid, s') \<and> good s')"
    using test_bits_decides [OF _ assms(2,3)] by blast
  have up: "\<forall>a b. ?B a \<and> a \<le> b \<longrightarrow> ?B b" by (meson less_le_trans one_le_numeral power_increasing)
  have pb: "?B ?w" using ok(2) by blast
  obtain bits s1 where bits: "search (test_bits cao impl q) 0 ?w s = Some (bits, s1)" "good s1" "bits \<le> ?w" "?B bits"
    by (rule search_least [OF tb up le0 assms(1) pb]) (rule that, assumption+)
  define bound where "bound = (2 ^ bits - 1 :: nat)"
  have in_top: "v \<le> int bound" if "v \<in> vals q" for v
    using that bits(4) by (fastforce simp: bound_def of_nat_diff)
  have bound: "bound < 2 ^ ?w" using power_increasing [OF bits(3), of "2 :: nat"] by (simp add: bound_def less_eq_Suc_le Suc_diff_le)
  have mx: "\<exists>t. maxValueOfNBits bits = Some t \<and> unat t = bound"
    using maxValueOfNBits_nat [of bits] bits(3) assms(4) by (simp add: bound_def)
  have z: "constant_create 0 ?w = Some (ConstantExpr ?w 0)" using constant_create_small [of ?w 0] w by simp
  have "gives cao env 1 (of_bool (eval env (q_expr q) = 0)) (EqExpr_create cao (q_expr q) (ConstantExpr ?w 0))" for env
    using createIsZero_gives [of cao env "q_expr q"] assms(2) by (simp add: createIsZero_def query_ok_def typed_def)
  then obtain e where e: "EqExpr_create cao (q_expr q) (ConstantExpr ?w 0) = Some e" "bool_query cao (withExpr q e)"
      "must_not (withExpr q e) \<longleftrightarrow> (\<forall>v\<in>vals q. v \<noteq> 0)" "consistent (withExpr q e)"
    using compare_query [OF assms(2), of "\<lambda>v. v = 0"] assms(3) by metis
  obtain s2 where s2: "mayBeTrue cao impl (withExpr q e) s1 = Some (Some (0 \<in> vals q), s2)" "good s2"
    using mayBeTrue_decides [OF bits(2) e(2,4)] e(3) by auto
  obtain lo s3 where lo: "(if 0 \<in> vals q then Some (0, s2) else search (test_min cao impl q) 0 bound s2) = Some (lo, s3)"
      "good s3" "int lo \<in> vals q" "\<And>v. v \<in> vals q \<Longrightarrow> int lo \<le> v" "lo \<le> bound"
    using minimum_found [OF s2(2) assms(2,3) in_top bound] by blast
  obtain hi s4 where hi: "search (test_max cao impl q) lo bound s3 = Some (hi, s4)" "good s4" "int hi \<in> vals q"
      "\<And>v. v \<in> vals q \<Longrightarrow> v \<le> int hi"
    using maximum_found [OF lo(2) assms(2,3) lo(3,4) in_top bound lo(5)] by blast
  show ?thesis using assms(5,6) bits(1) z e(1) s2(1) mx lo hi by (auto simp: range_bounds_def must_succeed_def)
qed

lemma range_bounds_tight:
  assumes "good s" "query_ok cao q" "consistent q" "getWidth (q_expr q) \<le> 64"
  shows "\<exists>lo hi s'. range_bounds cao impl q s = Some ((lo, hi), s') \<and> good s' \<and>
           int lo \<in> vals q \<and> int hi \<in> vals q \<and> vals q \<subseteq> {int lo..int hi}"
proof (cases "getWidth (q_expr q) = 1")
  case True
  then have b: "bool_query cao q" using assms(2) by (simp add: bool_query_def)
  obtain s' where s': "sv_evaluate impl q s = Some (Some (validity_of q), s')" "good s'"
    using evaluate_decides [OF assms(1) b assms(3)] by blast
  have v: "v = 0 \<or> v = 1" if "v \<in> vals q" for v
    using that assms(2) True typed_bool by (auto simp: vals_def query_ok_def)
  obtain v0 where v0: "v0 \<in> vals q" using assms(3) by (auto simp: vals_def consistent_def)
  have m: "must q \<longleftrightarrow> 0 \<notin> vals q" "must_not q \<longleftrightarrow> 1 \<notin> vals q"
    using v by (fastforce simp: must_def must_not_def vals_def)+
  show ?thesis using s' True v v0 m by (fastforce simp: range_bounds_def must_succeed_def validity_of_def)
next
  case False
  show ?thesis
  proof (cases "as_constant (q_expr q)")
    case None
    then show ?thesis using range_bounds_symbolic [OF assms False] by simp
  next
    case (Some p)
    then obtain w v where wv: "as_constant (q_expr q) = Some (w, v)" by (cases p) auto
    then have e: "q_expr q = ConstantExpr w v" by simp
    have "vals q = {v}" using assms(3) e by (auto simp: vals_def consistent_def)
    moreover from this have "0 \<le> v" using vals_ok(1) [OF assms(2)] by simp
    ultimately show ?thesis using False e assms(1,4) by (simp add: range_bounds_def)
  qed
qed

end

subsection \<open>A solver that always decides\<close>

text \<open>The answers that the documentation asks for, given without searching for values.\<close>

definition ideal_solver :: "'s solver_impl" where
  "ideal_solver = \<lparr>si_computeValidity = \<lambda>q s. Some (Some (validity_of q), s), si_computeTruth = \<lambda>q s. Some (Some (must q), s),
     si_computeValue = \<lambda>q s. Some (None, s), si_computeInitialValues = \<lambda>q objects s. Some (None, s)\<rparr>"

interpretation ideal: deciding_solver cao ideal_solver "\<lambda>_. True" for cao
  by unfold_locales (auto simp: ideal_solver_def)

text \<open>
  C16. \<open>Solver::getRange\<close> returns the least and the greatest value that the expression can take under the
  constraints, for every solver that decides truth: both bounds are attained, every value lies between
  them, and none of its assertions fails.
\<close>

theorem getRange_tight:
  assumes "deciding_solver cao impl good" "good s" "query_ok cao q" "consistent q" "getWidth (q_expr q) \<le> 64"
  shows "\<exists>lo hi s'. getRange cao impl q s =
             Some ((ConstantExpr (getWidth (q_expr q)) lo, ConstantExpr (getWidth (q_expr q)) hi), s') \<and> good s' \<and>
           lo \<in> vals q \<and> hi \<in> vals q \<and> vals q \<subseteq> {lo..hi}"
proof -
  obtain lo hi s' where b: "range_bounds cao impl q s = Some ((lo, hi), s')" "good s'"
      "int lo \<in> vals q" "int hi \<in> vals q" "vals q \<subseteq> {int lo..int hi}"
    using deciding_solver.range_bounds_tight [OF assms] by blast
  have "0 < getWidth (q_expr q)" using assms(3) typed_width [of cao "q_expr q"] by (simp add: query_ok_def)
  moreover have "lo < 2 ^ getWidth (q_expr q)" "hi < 2 ^ getWidth (q_expr q)"
    using vals_ok(2) [OF assms(3)] b(3,4) by (metis of_nat_less_iff of_nat_numeral of_nat_power)+
  ultimately show ?thesis using b by (auto simp: getRange_def constant_create_small)
qed

definition byte_array :: "nat \<Rightarrow> array" where
  "byte_array p = \<lparr>array_ptr = p, array_name = ''x'', array_size = 1, array_domain = 32, array_range = 8, constantValues = []\<rparr>"

theorem getRange_tight_witness:
  "let q = \<lparr>q_constraints = [], q_expr = ReadExpr (byte_array 0) [] (ConstantExpr 32 0)\<rparr> in
   getRange False ideal_solver q () = Some ((ConstantExpr 8 0, ConstantExpr 8 255), ())"
proof -
  define q where "q = \<lparr>q_constraints = [], q_expr = ReadExpr (byte_array 0) [] (ConstantExpr 32 0)\<rparr>"
  have ok: "query_ok False q" "consistent q" "getWidth (q_expr q) = 8"
    by (simp_all add: q_def query_ok_def consistent_def models_def typed_def byte_array_def array_ok_def)
  have vals: "vals q = {v. in_width 8 v}"
  proof (intro set_eqI iffI)
    fix v assume "v \<in> vals q" then show "v \<in> {v. in_width 8 v}" using vals_ok [OF ok(1)] ok(3) by (simp add: in_width_def)
  next
    fix v :: int assume "v \<in> {v. in_width 8 v}"
    then have "eval (\<lambda>_ _. v) (q_expr q) = v"
      by (simp add: q_def byte_array_def initial_value_def isSymbolicArray_def in_width_iff)
    then have "\<exists>env. v = eval env (q_expr q) \<and> models env (q_constraints q)" by (metis empty_iff list.set(1) models_def q_def query.select_convs(1))
    then show "v \<in> vals q" by (simp add: vals_def)
  qed
  obtain lo hi where r: "getRange False ideal_solver q () = Some ((ConstantExpr 8 lo, ConstantExpr 8 hi), ())"
      "lo \<in> vals q" "hi \<in> vals q" "vals q \<subseteq> {lo..hi}"
    using getRange_tight [where cao = False and impl = ideal_solver and good = "\<lambda>_. True" and s = "()" and q = q]
      ideal.deciding_solver_axioms ok by auto
  have "0 \<in> vals q" "255 \<in> vals q" by (simp_all add: vals in_width_def)
  then have "lo = 0" "hi = 255" using r(2,3,4) vals_ok [OF ok(1)] ok(3) by (force simp: subset_iff)+
  then show ?thesis using r(1) by (simp add: q_def)
qed

end
