(* ===== verification/ExprCompare.thy ===== *)
theory ExprCompare
  imports Expr "HOL-Library.Word" "HOL-Library.Char_ord" "HOL-Library.List_Lexorder"
begin

unbundle bit_operations_syntax

section \<open>The order of expressions\<close>

text \<open>
  \<open>Expr::compare\<close>, on which equality of expressions, the sets and maps of expressions and the canonical form
  of cached queries rest, with the hash values it compares first (\<open>klee/lib/Expr/Expr.cpp\<close>,
  \<open>klee/lib/Expr/Updates.cpp\<close>). Hash values are 32 bits wide; the hash of an \<open>APInt\<close> of more than 64 bits
  (\<open>llvm::hash_value\<close>) is the argument \<open>wide\<close>. Two shortcuts, one for the same object and one for pairs
  found equal before, return what the comparison returns and are left out.
\<close>

subsection \<open>Hash values\<close>

type_synonym u32 = "32 word"

definition binary_kind_number :: "binary_kind \<Rightarrow> nat" where
  "binary_kind_number k =
     (case k of Add \<Rightarrow> 10 | Sub \<Rightarrow> 11 | Mul \<Rightarrow> 12 | UDiv \<Rightarrow> 13 | SDiv \<Rightarrow> 14 | URem \<Rightarrow> 15 | SRem \<Rightarrow> 16
      | And \<Rightarrow> 17 | Or \<Rightarrow> 18 | Xor \<Rightarrow> 19 | Shl \<Rightarrow> 20 | LShr \<Rightarrow> 21 | AShr \<Rightarrow> 22
      | Eq \<Rightarrow> 23 | Ne \<Rightarrow> 24 | Ult \<Rightarrow> 25 | Ule \<Rightarrow> 26 | Ugt \<Rightarrow> 27 | Uge \<Rightarrow> 28 | Slt \<Rightarrow> 29 | Sle \<Rightarrow> 30 | Sgt \<Rightarrow> 31 | Sge \<Rightarrow> 32)"

fun getKind :: "expr \<Rightarrow> nat" where
  "getKind (ConstantExpr w v) = 0"
| "getKind (NotOptimizedExpr e) = 1"
| "getKind (ReadExpr a us i) = 3"
| "getKind (SelectExpr c t f) = 4"
| "getKind (ConcatExpr l r) = 5"
| "getKind (ExtractExpr e off w) = 6"
| "getKind (ZExtExpr e w) = 7"
| "getKind (SExtExpr e w) = 8"
| "getKind (NotExpr e) = 9"
| "getKind (BinaryExpr k l r) = binary_kind_number k"

fun kids :: "expr \<Rightarrow> expr list" where
  "kids (ConstantExpr w v) = []"
| "kids (NotOptimizedExpr e) = [e]"
| "kids (ReadExpr a us i) = [i]"
| "kids (SelectExpr c t f) = [c, t, f]"
| "kids (ConcatExpr l r) = [l, r]"
| "kids (ExtractExpr e off w) = [e]"
| "kids (ZExtExpr e w) = [e]"
| "kids (SExtExpr e w) = [e]"
| "kids (NotExpr e) = [e]"
| "kids (BinaryExpr k l r) = [l, r]"

text \<open>One round of \<open>Expr::computeHash\<close>, and the loop over the characters of a name (\<open>char\<close> is signed).\<close>

definition mix_kid :: "u32 \<Rightarrow> u32 \<Rightarrow> u32" where
  "mix_kid res k = push_bit 1 res XOR k * 39"

definition name_hash :: "string \<Rightarrow> u32" where
  "name_hash s = foldl (\<lambda>res c. res * 39 + word_of_int (signed_take_bit 7 (of_char c))) 0 s"

function (sequential) expr_hash :: "(width \<Rightarrow> int \<Rightarrow> u32) \<Rightarrow> expr \<Rightarrow> u32"
  and nodes_hash :: "(width \<Rightarrow> int \<Rightarrow> u32) \<Rightarrow> (expr \<times> expr) list \<Rightarrow> u32" where
  "expr_hash wide (ConstantExpr w v) = (if w \<le> 64 then word_of_int v else wide w v) XOR (of_nat w * 39)"
| "expr_hash wide (NotOptimizedExpr e) = mix_kid (1 * 39) (expr_hash wide e)"
| "expr_hash wide (ReadExpr a us i) = (expr_hash wide i * 39) XOR (name_hash (array_name a) XOR nodes_hash wide us)"
| "expr_hash wide (SelectExpr c t f) =
     mix_kid (mix_kid (mix_kid (4 * 39) (expr_hash wide c)) (expr_hash wide t)) (expr_hash wide f)"
| "expr_hash wide (ConcatExpr l r) = mix_kid (mix_kid (5 * 39) (expr_hash wide l)) (expr_hash wide r)"
| "expr_hash wide (ExtractExpr e off w) = (of_nat off * 39) XOR (of_nat w * 39) XOR (expr_hash wide e * 39)"
| "expr_hash wide (ZExtExpr e w) = (of_nat w * 39) XOR (expr_hash wide e * 39)"
| "expr_hash wide (SExtExpr e w) = (of_nat w * 39) XOR (expr_hash wide e * 39)"
| "expr_hash wide (NotExpr e) = expr_hash wide e * 39 * 9"
| "expr_hash wide (BinaryExpr k l r) =
     mix_kid (mix_kid (of_nat (binary_kind_number k) * 39) (expr_hash wide l)) (expr_hash wide r)"
| "nodes_hash wide [] = 0"
| "nodes_hash wide ((i, v) # us) = expr_hash wide i XOR expr_hash wide v XOR nodes_hash wide us"
  by pat_completeness auto
termination
proof -
  have u: "sum_list (map (\<lambda>(i, v). Suc (size i + size v)) us) \<le> size_list (size_prod size size) us" for us :: "(expr \<times> expr) list"
    by (induction us) auto
  show ?thesis
    by (relation "measure (\<lambda>x. case x of
        Inl (_, e) \<Rightarrow> size e | Inr (_, us) \<Rightarrow> sum_list (map (\<lambda>(i, v). Suc (size i + size v)) us))")
      (auto simp: less_Suc_eq_le intro: le_trans [OF u])
qed

subsection \<open>Comparison\<close>

definition order :: "'a :: linorder \<Rightarrow> 'a \<Rightarrow> int" where
  "order a b = (if a < b then - 1 else if b < a then 1 else 0)"

text \<open>\<open>if (int res = first) return res; return second;\<close>\<close>

definition lex :: "int \<Rightarrow> int \<Rightarrow> int" where
  "lex first second = (if first \<noteq> 0 then first else second)"

lemma lex_cong [fundef_cong]: "r = r' \<Longrightarrow> (r' = 0 \<Longrightarrow> k = k') \<Longrightarrow> lex r k = lex r' k'"
  by (simp add: lex_def)

text \<open>
  \<open>UpdateList::compare\<close> on the roots, then on the sizes; then its loop, \<open>compareContents\<close> and \<open>compare\<close>.
\<close>

definition root_compare :: "array \<Rightarrow> array \<Rightarrow> int" where
  "root_compare a b = lex (order (array_name a) (array_name b)) (order (array_ptr a) (array_ptr b))"

function (sequential) expr_compare :: "(width \<Rightarrow> int \<Rightarrow> u32) \<Rightarrow> expr \<Rightarrow> expr \<Rightarrow> int"
  and compareContents :: "(width \<Rightarrow> int \<Rightarrow> u32) \<Rightarrow> expr \<Rightarrow> expr \<Rightarrow> int"
  and nodes_compare :: "(width \<Rightarrow> int \<Rightarrow> u32) \<Rightarrow> (expr \<times> expr) list \<Rightarrow> (expr \<times> expr) list \<Rightarrow> int"
  and kids_compare :: "(width \<Rightarrow> int \<Rightarrow> u32) \<Rightarrow> expr list \<Rightarrow> expr list \<Rightarrow> int" where
  "expr_compare wide a b =
     lex (order (getKind a) (getKind b))
       (lex (order (expr_hash wide a) (expr_hash wide b))
         (lex (compareContents wide a b) (kids_compare wide (kids a) (kids b))))"
| "compareContents wide a b =
     (case a of
        ConstantExpr w v \<Rightarrow> (case b of ConstantExpr w' v' \<Rightarrow> lex (order w w') (order v v') | _ \<Rightarrow> 0)
      | ReadExpr r us i \<Rightarrow>
          (case b of
             ReadExpr r' us' i' \<Rightarrow> lex (root_compare r r') (lex (order (length us) (length us')) (nodes_compare wide us us'))
           | _ \<Rightarrow> 0)
      | ConcatExpr l r \<Rightarrow> (case b of ConcatExpr l' r' \<Rightarrow> order (getWidth a) (getWidth b) | _ \<Rightarrow> 0)
      | ExtractExpr e off w \<Rightarrow> (case b of ExtractExpr e' off' w' \<Rightarrow> lex (order off off') (order w w') | _ \<Rightarrow> 0)
      | ZExtExpr e w \<Rightarrow> (case b of ZExtExpr e' w' \<Rightarrow> order w w' | _ \<Rightarrow> 0)
      | SExtExpr e w \<Rightarrow> (case b of SExtExpr e' w' \<Rightarrow> order w w' | _ \<Rightarrow> 0)
      | _ \<Rightarrow> 0)"
| "nodes_compare wide ((i, v) # us) ((i', v') # us') =
     lex (lex (expr_compare wide i i') (expr_compare wide v v')) (nodes_compare wide us us')"
| "nodes_compare wide us us' = 0"
| "kids_compare wide (x # xs) (y # ys) = lex (expr_compare wide x y) (kids_compare wide xs ys)"
| "kids_compare wide xs ys = 0"
  by pat_completeness auto
termination
proof -
  define m :: "expr \<Rightarrow> nat" where "m e = 3 * size e + 1" for e
  have k: "sum_list (map m (kids a)) < m a" for a by (cases a) (auto simp: m_def)
  have u: "sum_list (map (\<lambda>(i, v). m i + m v) us) \<le> 3 * size_list (size_prod size size) us" for us
    by (induction us) (auto simp: m_def)
  have r: "sum_list (map (\<lambda>(i, v). m i + m v) us) < m (ReadExpr a us i)" for a us i
    using u [of us] by (simp add: m_def)
  have p: "0 < m e" for e by (simp add: m_def)
  show ?thesis
    by (relation "inv_image (less_than <*lex*> less_than) (\<lambda>x. case x of
        Inl (Inl (_, a, _)) \<Rightarrow> (m a, 1)
      | Inl (Inr (_, a, _)) \<Rightarrow> (m a, 0)
      | Inr (Inl (_, us, _)) \<Rightarrow> (sum_list (map (\<lambda>(i, v). m i + m v) us), 2)
      | Inr (Inr (_, xs, _)) \<Rightarrow> (sum_list (map m xs), 2 :: nat))")
      (auto simp: k p r simp del: sum_list_eq_0_iff neq0_conv)
qed

declare expr_compare.simps [simp del] compareContents.simps [simp del]

subsection \<open>The comparison is a total order\<close>

lemma order_0 [simp]: "order a a = 0" "order a b = 0 \<longleftrightarrow> a = b"
  by (auto simp: order_def)

lemma order_swap: "order b a = - order a b"
  by (auto simp: order_def)

lemma lex_0 [simp]: "lex a b = 0 \<longleftrightarrow> a = 0 \<and> b = 0"
  by (simp add: lex_def)

lemma lex_minus: "lex (- a) (- b) = - lex a b"
  by (simp add: lex_def)

text \<open>The results for \<open>a, b\<close>, for \<open>b, c\<close> and for \<open>a, c\<close> fit together.\<close>

definition trans3 :: "int \<Rightarrow> int \<Rightarrow> int \<Rightarrow> bool" where
  "trans3 ab bc ac \<longleftrightarrow> (ab \<le> 0 \<and> bc \<le> 0 \<longrightarrow> ac \<le> 0 \<and> (ac = 0 \<longrightarrow> ab = 0 \<and> bc = 0))"

lemma trans3_0 [simp]: "trans3 0 0 0"
  by (simp add: trans3_def)

lemma trans3_order: "trans3 (order a b) (order b c) (order a c)"
  by (auto simp: trans3_def order_def split: if_splits)

lemma trans3_lex:
  assumes "trans3 ab bc ac" "ab = 0 \<Longrightarrow> bc = 0 \<Longrightarrow> trans3 ab' bc' ac'"
  shows "trans3 (lex ab ab') (lex bc bc') (lex ac ac')"
  using assms by (auto simp: trans3_def lex_def split: if_splits)

lemma binary_kind_number [simp]: "binary_kind_number k = binary_kind_number k' \<longleftrightarrow> k = k'"
  "9 < binary_kind_number k"
  by (cases k; cases k'; simp add: binary_kind_number_def) (cases k; simp add: binary_kind_number_def)

lemma same_kind:
  assumes "getKind a = getKind b"
  obtains (ConstantExpr) w v w' v' where "a = ConstantExpr w v" "b = ConstantExpr w' v'"
  | (NotOptimizedExpr) e e' where "a = NotOptimizedExpr e" "b = NotOptimizedExpr e'"
  | (ReadExpr) r us i r' us' i' where "a = ReadExpr r us i" "b = ReadExpr r' us' i'"
  | (SelectExpr) x y z x' y' z' where "a = SelectExpr x y z" "b = SelectExpr x' y' z'"
  | (ConcatExpr) x y x' y' where "a = ConcatExpr x y" "b = ConcatExpr x' y'"
  | (ExtractExpr) e off w e' off' w' where "a = ExtractExpr e off w" "b = ExtractExpr e' off' w'"
  | (ZExtExpr) e w e' w' where "a = ZExtExpr e w" "b = ZExtExpr e' w'"
  | (SExtExpr) e w e' w' where "a = SExtExpr e w" "b = SExtExpr e' w'"
  | (NotExpr) e e' where "a = NotExpr e" "b = NotExpr e'"
  | (BinaryExpr) k l r l' r' where "a = BinaryExpr k l r" "b = BinaryExpr k l' r'"
proof -
  have "binary_kind_number k \<noteq> n" "n \<noteq> binary_kind_number k" if "n \<le> 9" for k n
    using that binary_kind_number(2) [of k] by linarith+
  then show thesis using assms that by (cases a; cases b; simp)
qed

lemma kids_length: "getKind a = getKind b \<Longrightarrow> length (kids a) = length (kids b)"
  by (erule same_kind) auto

text \<open>Swapping the arguments changes the sign.\<close>

lemma compare_swap:
  "expr_compare wide b a = - expr_compare wide a b"
  "getKind a = getKind b \<Longrightarrow> compareContents wide b a = - compareContents wide a b"
  "length us = length us' \<Longrightarrow> nodes_compare wide us' us = - nodes_compare wide us us'"
  "length xs = length ys \<Longrightarrow> kids_compare wide ys xs = - kids_compare wide xs ys"
proof (induction wide a b and wide a b and wide us us' and wide xs ys
    rule: expr_compare_compareContents_nodes_compare_kids_compare.induct)
  case (1 wide a b)
  then show ?case
    using kids_length [of a b] by (subst (1 2) expr_compare.simps) (auto simp: lex_def order_swap [of "getKind b"] order_swap [of "expr_hash wide b"])
next
  case (2 wide a b)
  from 2(2) show ?case
  proof (cases rule: same_kind)
    case (ReadExpr r us i r' us' i')
    then show ?thesis
      using 2(1) order_swap [of "array_name r'"] order_swap [of "array_ptr r'"] order_swap [of "length us'"]
      by (auto simp: compareContents.simps root_compare_def lex_def)
  qed (simp_all add: compareContents.simps lex_def, simp_all add: order_def)
qed (auto simp: lex_def)

text \<open>Chains of comparisons.\<close>

lemma compare_trans:
  "trans3 (expr_compare wide a b) (expr_compare wide b c) (expr_compare wide a c)"
  "getKind a = getKind b \<Longrightarrow> getKind b = getKind c \<Longrightarrow>
     trans3 (compareContents wide a b) (compareContents wide b c) (compareContents wide a c)"
  "length us = length us' \<Longrightarrow> length us' = length us'' \<Longrightarrow>
     trans3 (nodes_compare wide us us') (nodes_compare wide us' us'') (nodes_compare wide us us'')"
  "length xs = length ys \<Longrightarrow> length ys = length zs \<Longrightarrow>
     trans3 (kids_compare wide xs ys) (kids_compare wide ys zs) (kids_compare wide xs zs)"
proof (induction wide a b and wide a b and wide us us' and wide xs ys
    arbitrary: c and c and us'' and zs
    rule: expr_compare_compareContents_nodes_compare_kids_compare.induct)
  case (1 wide a b)
  have contents: "trans3 (compareContents wide a b) (compareContents wide b c) (compareContents wide a c)"
    if "getKind a = getKind b" "getKind b = getKind c" "expr_hash wide a = expr_hash wide b" using 1(1) that by simp
  have kids: "trans3 (kids_compare wide (kids a) (kids b)) (kids_compare wide (kids b) (kids c)) (kids_compare wide (kids a) (kids c))"
    if "getKind a = getKind b" "getKind b = getKind c" "expr_hash wide a = expr_hash wide b" "compareContents wide a b = 0"
    using kids_length [OF that(1)] kids_length [OF that(2)] by (intro 1(2)) (simp_all add: that)
  show ?case
    unfolding expr_compare.simps [of wide a b] expr_compare.simps [of wide b c] expr_compare.simps [of wide a c]
    by (rule trans3_lex [OF trans3_order], rule trans3_lex [OF trans3_order], rule trans3_lex)
      (rule contents, simp_all, rule kids, simp_all)
next
  case (2 wide a b)
  from 2(2) show ?case
  proof (cases rule: same_kind)
    case (ReadExpr r us i r' us' i')
    moreover obtain r'' us'' i'' where "c = ReadExpr r'' us'' i''" by (rule same_kind [OF 2(3)]) (use ReadExpr that in auto)
    ultimately show ?thesis
      using 2(1) by (auto simp: compareContents.simps root_compare_def intro!: trans3_lex trans3_order)
  qed (rule same_kind [OF 2(3)]; auto simp: compareContents.simps intro!: trans3_lex trans3_order)+
next
  case (3 wide i v us i' v' us')
  then show ?case by (cases us'') (auto intro!: trans3_lex)
next
  case (5 wide x xs y ys)
  then show ?case by (cases zs) (auto intro!: trans3_lex)
qed simp_all

text \<open>The arrays of an expression; two of them are one when their addresses are.\<close>

function arrays :: "expr \<Rightarrow> array set" where
  "arrays e = (case e of ReadExpr a us i \<Rightarrow> {a} \<union> (\<Union>(x, y)\<in>set us. arrays x \<union> arrays y) | _ \<Rightarrow> {}) \<union> (\<Union>x\<in>set (kids e). arrays x)"
  by pat_completeness auto
termination
proof -
  have k: "x \<in> set (kids a) \<Longrightarrow> size x < size a" for a x by (cases a) auto
  have u: "(x, y) \<in> set us \<Longrightarrow> size x < size_list (size_prod size size) us \<and> size y < size_list (size_prod size size) us" for x y us
    by (induction us) auto
  show ?thesis by (relation "measure size") (auto simp: k dest!: u)
qed

declare arrays.simps [simp del]

lemma arrays_simps [simp]:
  "arrays (ConstantExpr w v) = {}"
  "arrays (ReadExpr a us i) = {a} \<union> (\<Union>(x, y)\<in>set us. arrays x \<union> arrays y) \<union> arrays i"
  "arrays (BinaryExpr k l r) = arrays l \<union> arrays r"
  by (subst arrays.simps; simp)+

lemma arrays_mono:
  "x \<in> set (kids e) \<Longrightarrow> arrays x \<subseteq> arrays e"
  "(x, y) \<in> set us \<Longrightarrow> arrays x \<subseteq> arrays (ReadExpr a us i) \<and> arrays y \<subseteq> arrays (ReadExpr a us i)"
  "a \<in> arrays (ReadExpr a us i)"
  by (subst arrays.simps; auto)+

lemma inj_mono: "inj_on array_ptr (A \<union> B) \<Longrightarrow> A' \<subseteq> A \<Longrightarrow> B' \<subseteq> B \<Longrightarrow> inj_on array_ptr (A' \<union> B')"
  by (rule inj_on_subset) auto

definition node_arrays :: "(expr \<times> expr) list \<Rightarrow> array set" where
  "node_arrays us = (\<Union>(x, y)\<in>set us. arrays x \<union> arrays y)"

lemma node_arrays_simps [simp]: "node_arrays ((i, v) # us) = arrays i \<union> arrays v \<union> node_arrays us" "node_arrays [] = {}"
  by (auto simp: node_arrays_def)

lemma node_arrays_read: "node_arrays us \<subseteq> arrays (ReadExpr a us i)"
  using arrays_mono(2) by (fastforce simp: node_arrays_def)

lemma same_contents:
  assumes "getKind a = getKind b" "compareContents wide a b = 0" "kids a = kids b"
    "\<And>r us i r' us' i'. a = ReadExpr r us i \<Longrightarrow> b = ReadExpr r' us' i' \<Longrightarrow> r = r' \<and> us = us'"
  shows "a = b"
  using assms(1)
proof (cases rule: same_kind)
  case ReadExpr
  then show ?thesis using assms(3,4) by auto
qed (use assms(2,3) in \<open>auto simp: compareContents.simps\<close>)

lemma compare_0:
  "expr_compare wide a b = 0 \<Longrightarrow> inj_on array_ptr (arrays a \<union> arrays b) \<Longrightarrow> a = b"
  "compareContents wide a b = 0 \<Longrightarrow> a = ReadExpr r us i \<Longrightarrow> b = ReadExpr r' us' i' \<Longrightarrow>
     inj_on array_ptr (arrays a \<union> arrays b) \<Longrightarrow> r = r' \<and> us = us'"
  "nodes_compare wide ns ns' = 0 \<Longrightarrow> length ns = length ns' \<Longrightarrow>
     inj_on array_ptr (node_arrays ns \<union> node_arrays ns') \<Longrightarrow> ns = ns'"
  "kids_compare wide xs ys = 0 \<Longrightarrow> length xs = length ys \<Longrightarrow>
     inj_on array_ptr ((\<Union>x\<in>set xs. arrays x) \<union> (\<Union>y\<in>set ys. arrays y)) \<Longrightarrow> xs = ys"
proof (induction wide a b and wide a b and wide ns ns' and wide xs ys
    arbitrary: and r us i r' us' i'
    rule: expr_compare_compareContents_nodes_compare_kids_compare.induct)
  case (1 wide a b)
  then have z: "getKind a = getKind b" "expr_hash wide a = expr_hash wide b" "compareContents wide a b = 0"
      "kids_compare wide (kids a) (kids b) = 0" by (simp_all add: expr_compare.simps)
  have "inj_on array_ptr ((\<Union>x\<in>set (kids a). arrays x) \<union> (\<Union>y\<in>set (kids b). arrays y))"
    using inj_mono [OF 1(4)] arrays_mono(1) by (meson UN_least)
  then have k: "kids a = kids b" using 1(2) z kids_length [OF z(1)] by simp
  show ?case by (rule same_contents [OF z(1,3) k], rule 1(1)) (use z 1(4) in simp_all)
next
  case (2 wide a b)
  then have z: "root_compare r r' = 0" "length us = length us'" "nodes_compare wide us us' = 0"
    by (auto simp: compareContents.simps)
  have "inj_on array_ptr (node_arrays us \<union> node_arrays us')"
    using inj_mono [OF 2(5)] node_arrays_read 2(3,4) by metis
  then have "us = us'" using 2(1) [OF 2(3,4)] z by simp
  moreover have "r = r'"
    using z(1) inj_onD [OF 2(5), of r r'] arrays_mono(3) 2(3,4) by (auto simp: root_compare_def)
  ultimately show ?case by simp
next
  case (3 wide i v us i' v' us')
  have "inj_on array_ptr (arrays i \<union> arrays i')" "inj_on array_ptr (arrays v \<union> arrays v')"
    "inj_on array_ptr (node_arrays us \<union> node_arrays us')"
    by (rule inj_mono [OF 3(6)]; auto)+
  then show ?case using 3(1-5) by simp
next
  case (5 wide x xs y ys)
  have "inj_on array_ptr (arrays x \<union> arrays y)"
    "inj_on array_ptr ((\<Union>x\<in>set xs. arrays x) \<union> (\<Union>y\<in>set ys. arrays y))"
    by (rule inj_mono [OF 5(5)]; auto)+
  then show ?case using 5(1-4) by simp
qed (auto simp: neq_Nil_conv)

lemma compare_refl:
  "a = b \<Longrightarrow> expr_compare wide a b = 0" "a = b \<Longrightarrow> compareContents wide a b = 0"
  "us = us' \<Longrightarrow> nodes_compare wide us us' = 0" "xs = ys \<Longrightarrow> kids_compare wide xs ys = 0"
proof (induction wide a b and wide a b and wide us us' and wide xs ys
    rule: expr_compare_compareContents_nodes_compare_kids_compare.induct)
  case (1 wide a b)
  then show ?case by (simp add: expr_compare.simps)
next
  case (2 wide a b)
  then show ?case by (cases a) (auto simp: compareContents.simps root_compare_def)
qed auto

text \<open>
  C30. \<open>Expr::compare\<close> is a total order on expressions whose arrays are told apart by their addresses: it
  is 0 exactly for equal expressions, it changes sign when its arguments are swapped, and it is
  transitive, whatever the hash values of wide constants are.
\<close>

theorem expr_compare_total_order:
  assumes "inj_on array_ptr (arrays a \<union> arrays b)"
  shows "(expr_compare wide a b = 0 \<longleftrightarrow> a = b) \<and> expr_compare wide b a = - expr_compare wide a b \<and>
    (expr_compare wide a b < 0 \<and> expr_compare wide b c < 0 \<longrightarrow> expr_compare wide a c < 0)"
proof (intro conjI)
  show "expr_compare wide a b = 0 \<longleftrightarrow> a = b" using compare_0(1) [OF _ assms] compare_refl(1) by blast
  show "expr_compare wide b a = - expr_compare wide a b" by (rule compare_swap)
  show "expr_compare wide a b < 0 \<and> expr_compare wide b c < 0 \<longrightarrow> expr_compare wide a c < 0"
    using compare_trans(1) [of wide a b c] by (auto simp: trans3_def)
qed

theorem expr_compare_total_order_witness:
  "let a = ReadExpr \<lparr>array_ptr = 1, array_name = ''x'', array_size = 4, array_domain = 32, array_range = 8, constantValues = []\<rparr> []
         (ConstantExpr 32 0);
       b = ReadExpr \<lparr>array_ptr = 2, array_name = ''x'', array_size = 4, array_domain = 32, array_range = 8, constantValues = []\<rparr> []
         (ConstantExpr 32 0) in
   expr_compare (\<lambda>_ _. 0) a b \<noteq> 0 \<and> expr_compare (\<lambda>_ _. 0) b a = - expr_compare (\<lambda>_ _. 0) a b"
proof -
  define a where "a = ReadExpr \<lparr>array_ptr = 1, array_name = ''x'', array_size = 4, array_domain = 32, array_range = 8, constantValues = []\<rparr> []
         (ConstantExpr 32 0)"
  define b where "b = ReadExpr \<lparr>array_ptr = 2, array_name = ''x'', array_size = 4, array_domain = 32, array_range = 8, constantValues = []\<rparr> []
         (ConstantExpr 32 0)"
  have "inj_on array_ptr (arrays a \<union> arrays b)" by (simp add: a_def b_def)
  from expr_compare_total_order [OF this, of "\<lambda>_ _. 0"] have "expr_compare (\<lambda>_ _. 0) a b \<noteq> 0"
      "expr_compare (\<lambda>_ _. 0) b a = - expr_compare (\<lambda>_ _. 0) a b"
    by (auto simp: a_def b_def)
  then show ?thesis unfolding Let_def a_def b_def by blast
qed

end
