(* ===== verification/CachingSolver.thy ===== *)
theory CachingSolver
  imports Solver ExprCompare
begin

section \<open>Partial answers, staging and the cache of answers\<close>

text \<open>
  \<open>klee/lib/Solver/IncompleteSolver.cpp\<close>: the answers of incomplete solvers and the solver that asks one first
  (\<open>StagedSolverImpl\<close>). \<open>klee/lib/Solver/CachingSolver.cpp\<close>: the branch cache, a map from the constraints and
  the canonical form of an expression to a partial answer. Both are solvers on top of a solver: given a
  solver that keeps the contract of the locale \<open>solver\<close>, they keep it. The counters of hits and misses are
  left out.
\<close>

subsection \<open>Partial validity\<close>

datatype partial_validity = MustBeTrue | MustBeFalse | MayBeTrue | MayBeFalse | TrueOrFalse | PV_None

text \<open>\<open>None\<close> is not a value to negate.\<close>

fun negatePartialValidity :: "partial_validity \<Rightarrow> partial_validity option" where
  "negatePartialValidity MustBeTrue = Some MustBeFalse"
| "negatePartialValidity MustBeFalse = Some MustBeTrue"
| "negatePartialValidity MayBeTrue = Some MayBeFalse"
| "negatePartialValidity MayBeFalse = Some MayBeTrue"
| "negatePartialValidity TrueOrFalse = Some TrueOrFalse"
| "negatePartialValidity PV_None = None"

record incomplete_impl =
  ic_computeValidity :: "query \<Rightarrow> partial_validity option"
  ic_computeTruth :: "query \<Rightarrow> partial_validity option"
  ic_computeValue :: "query \<Rightarrow> expr option option"
  ic_computeInitialValues :: "query \<Rightarrow> array list \<Rightarrow> solution option option"

text \<open>The implementation of \<open>computeValidity\<close> that \<open>IncompleteSolver\<close> provides.\<close>

definition incomplete_computeValidity :: "bool \<Rightarrow> (query \<Rightarrow> partial_validity option) \<Rightarrow> query \<Rightarrow> partial_validity option" where
  "incomplete_computeValidity cao computeTruth q = do {
     trueResult \<leftarrow> computeTruth q;
     if trueResult = MustBeTrue then Some MustBeTrue
     else do {
       n \<leftarrow> negateExpr cao q;
       falseResult \<leftarrow> computeTruth n;
       Some (if falseResult = MustBeTrue then MustBeFalse
             else if trueResult \<noteq> PV_None \<and> falseResult \<noteq> PV_None then TrueOrFalse
             else if trueResult \<noteq> PV_None then MayBeFalse
             else if falseResult \<noteq> PV_None then MayBeTrue
             else PV_None) } }"

subsection \<open>StagedSolverImpl\<close>

definition staged_computeTruth :: "incomplete_impl \<Rightarrow> 's solver_impl \<Rightarrow> query \<Rightarrow> 's \<Rightarrow> (bool, 's) answer" where
  "staged_computeTruth primary secondary q s = do {
     trueResult \<leftarrow> ic_computeTruth primary q;
     if trueResult \<noteq> PV_None then Some (Some (trueResult = MustBeTrue), s)
     else si_computeTruth secondary q s }"

definition staged_computeValidity :: "bool \<Rightarrow> incomplete_impl \<Rightarrow> 's solver_impl \<Rightarrow> query \<Rightarrow> 's \<Rightarrow> (validity, 's) answer" where
  "staged_computeValidity cao primary secondary q s = do {
     pv \<leftarrow> ic_computeValidity primary q;
     (case pv of
        MustBeTrue \<Rightarrow> Some (Some Validity_True, s)
      | MustBeFalse \<Rightarrow> Some (Some Validity_False, s)
      | TrueOrFalse \<Rightarrow> Some (Some Validity_Unknown, s)
      | MayBeTrue \<Rightarrow>
          ask (si_computeTruth secondary q s) (\<lambda>tmp s'. Some (Some (if tmp then Validity_True else Validity_Unknown), s'))
      | MayBeFalse \<Rightarrow> do {
          n \<leftarrow> negateExpr cao q;
          ask (si_computeTruth secondary n s) (\<lambda>tmp s'. Some (Some (if tmp then Validity_False else Validity_Unknown), s')) }
      | PV_None \<Rightarrow> si_computeValidity secondary q s) }"

definition staged_computeValue :: "incomplete_impl \<Rightarrow> 's solver_impl \<Rightarrow> query \<Rightarrow> 's \<Rightarrow> (expr, 's) answer" where
  "staged_computeValue primary secondary q s = do {
     r \<leftarrow> ic_computeValue primary q;
     (case r of Some e \<Rightarrow> Some (Some e, s) | None \<Rightarrow> si_computeValue secondary q s) }"

definition staged_computeInitialValues ::
    "incomplete_impl \<Rightarrow> 's solver_impl \<Rightarrow> query \<Rightarrow> array list \<Rightarrow> 's \<Rightarrow> (solution, 's) answer" where
  "staged_computeInitialValues primary secondary q objects s = do {
     r \<leftarrow> ic_computeInitialValues primary q objects;
     (case r of Some sol \<Rightarrow> Some (Some sol, s) | None \<Rightarrow> si_computeInitialValues secondary q objects s) }"

definition StagedSolverImpl :: "bool \<Rightarrow> incomplete_impl \<Rightarrow> 's solver_impl \<Rightarrow> 's solver_impl" where
  "StagedSolverImpl cao primary secondary =
     \<lparr>si_computeValidity = staged_computeValidity cao primary secondary,
      si_computeTruth = staged_computeTruth primary secondary,
      si_computeValue = staged_computeValue primary secondary,
      si_computeInitialValues = staged_computeInitialValues primary secondary\<rparr>"

subsection \<open>CachingSolver\<close>

type_synonym branch_cache = "expr list \<times> expr \<rightharpoonup> partial_validity"

definition canonicalizeQuery :: "bool \<Rightarrow> (width \<Rightarrow> int \<Rightarrow> u32) \<Rightarrow> expr \<Rightarrow> (expr \<times> bool) option" where
  "canonicalizeQuery cao wide originalQuery = do {
     negatedQuery \<leftarrow> createIsZero cao originalQuery;
     Some (if expr_compare wide originalQuery negatedQuery < 0 then (originalQuery, False) else (negatedQuery, True)) }"

definition cacheLookup :: "bool \<Rightarrow> (width \<Rightarrow> int \<Rightarrow> u32) \<Rightarrow> query \<Rightarrow> branch_cache \<Rightarrow> partial_validity option option" where
  "cacheLookup cao wide q cache = do {
     (canonicalQuery, negationUsed) \<leftarrow> canonicalizeQuery cao wide (q_expr q);
     (case cache (q_constraints q, canonicalQuery) of
        None \<Rightarrow> Some None
      | Some pv \<Rightarrow> map_option Some (if negationUsed then negatePartialValidity pv else Some pv)) }"

text \<open>\<open>insert\<close> keeps an entry that is there already.\<close>

definition cacheInsert :: "bool \<Rightarrow> (width \<Rightarrow> int \<Rightarrow> u32) \<Rightarrow> query \<Rightarrow> partial_validity \<Rightarrow> branch_cache \<Rightarrow> branch_cache option" where
  "cacheInsert cao wide q result cache = do {
     (canonicalQuery, negationUsed) \<leftarrow> canonicalizeQuery cao wide (q_expr q);
     cachedResult \<leftarrow> (if negationUsed then negatePartialValidity result else Some result);
     Some (case cache (q_constraints q, canonicalQuery) of
        None \<Rightarrow> cache((q_constraints q, canonicalQuery) \<mapsto> cachedResult)
      | Some _ \<Rightarrow> cache) }"

text \<open>A call of the solver below, and what follows it with the cache at hand.\<close>

definition ask_below :: "('a, 's) answer \<Rightarrow> branch_cache \<Rightarrow> ('a \<Rightarrow> (branch_cache \<times> 'b) option) \<Rightarrow> ('b, 's \<times> branch_cache) answer" where
  "ask_below call cache k =
     (case call of
        None \<Rightarrow> None
      | Some (None, s) \<Rightarrow> Some (None, (s, cache))
      | Some (Some x, s) \<Rightarrow> map_option (\<lambda>(cache', r). (Some r, (s, cache'))) (k x))"

definition caching_computeValidity ::
    "bool \<Rightarrow> (width \<Rightarrow> int \<Rightarrow> u32) \<Rightarrow> 's solver_impl \<Rightarrow> query \<Rightarrow> 's \<times> branch_cache \<Rightarrow> (validity, 's \<times> branch_cache) answer" where
  "caching_computeValidity cao wide impl q st = (case st of (s, cache) \<Rightarrow> do {
     hit \<leftarrow> cacheLookup cao wide q cache;
     (case hit of
        Some MustBeTrue \<Rightarrow> Some (Some Validity_True, (s, cache))
      | Some MustBeFalse \<Rightarrow> Some (Some Validity_False, (s, cache))
      | Some TrueOrFalse \<Rightarrow> Some (Some Validity_Unknown, (s, cache))
      | Some MayBeTrue \<Rightarrow>
          ask_below (si_computeTruth impl q s) cache (\<lambda>tmp.
            if tmp then map_option (\<lambda>c. (c, Validity_True)) (cacheInsert cao wide q MustBeTrue cache)
            else map_option (\<lambda>c. (c, Validity_Unknown)) (cacheInsert cao wide q TrueOrFalse cache))
      | Some MayBeFalse \<Rightarrow> do {
          n \<leftarrow> negateExpr cao q;
          ask_below (si_computeTruth impl n s) cache (\<lambda>tmp.
            if tmp then map_option (\<lambda>c. (c, Validity_False)) (cacheInsert cao wide q MustBeFalse cache)
            else map_option (\<lambda>c. (c, Validity_Unknown)) (cacheInsert cao wide q TrueOrFalse cache)) }
      | Some PV_None \<Rightarrow> None
      | None \<Rightarrow>
          ask_below (si_computeValidity impl q s) cache (\<lambda>result.
            let cachedResult = (case result of Validity_True \<Rightarrow> MustBeTrue | Validity_False \<Rightarrow> MustBeFalse | Validity_Unknown \<Rightarrow> TrueOrFalse)
            in map_option (\<lambda>c. (c, result)) (cacheInsert cao wide q cachedResult cache))) })"

definition caching_computeTruth ::
    "bool \<Rightarrow> (width \<Rightarrow> int \<Rightarrow> u32) \<Rightarrow> 's solver_impl \<Rightarrow> query \<Rightarrow> 's \<times> branch_cache \<Rightarrow> (bool, 's \<times> branch_cache) answer" where
  "caching_computeTruth cao wide impl q st = (case st of (s, cache) \<Rightarrow> do {
     hit \<leftarrow> cacheLookup cao wide q cache;
     if hit \<noteq> None \<and> hit \<noteq> Some MayBeTrue then Some (Some (hit = Some MustBeTrue), (s, cache))
     else
       ask_below (si_computeTruth impl q s) cache (\<lambda>isValid.
         let cachedResult = (if isValid then MustBeTrue else if hit \<noteq> None then TrueOrFalse else MayBeFalse)
         in map_option (\<lambda>c. (c, isValid)) (cacheInsert cao wide q cachedResult cache)) })"

definition pass_below :: "('a, 's) answer \<Rightarrow> branch_cache \<Rightarrow> ('a, 's \<times> branch_cache) answer" where
  "pass_below call cache = map_option (\<lambda>(r, s). (r, (s, cache))) call"

definition CachingSolver :: "bool \<Rightarrow> (width \<Rightarrow> int \<Rightarrow> u32) \<Rightarrow> 's solver_impl \<Rightarrow> ('s \<times> branch_cache) solver_impl" where
  "CachingSolver cao wide impl =
     \<lparr>si_computeValidity = caching_computeValidity cao wide impl,
      si_computeTruth = caching_computeTruth cao wide impl,
      si_computeValue = (\<lambda>q (s, cache). pass_below (si_computeValue impl q s) cache),
      si_computeInitialValues = (\<lambda>q objects (s, cache). pass_below (si_computeInitialValues impl q objects s) cache)\<rparr>"

subsection \<open>What partial answers mean\<close>

fun pv_right :: "query \<Rightarrow> partial_validity \<Rightarrow> bool" where
  "pv_right q MustBeTrue = must q"
| "pv_right q MustBeFalse = must_not q"
| "pv_right q MayBeTrue = (\<not> must_not q)"
| "pv_right q MayBeFalse = (\<not> must q)"
| "pv_right q TrueOrFalse = (\<not> must q \<and> \<not> must_not q)"
| "pv_right q PV_None = True"

text \<open>
  The documented contract of an incomplete solver: its answers are right, and \<open>computeTruth\<close> answers with
  \<open>MustBeTrue\<close>, \<open>MayBeFalse\<close> or \<open>None\<close>.
\<close>

definition incomplete_ok :: "bool \<Rightarrow> incomplete_impl \<Rightarrow> bool" where
  "incomplete_ok cao primary \<longleftrightarrow>
     (\<forall>q. bool_query cao q \<longrightarrow> consistent q \<longrightarrow> (\<exists>pv. ic_computeValidity primary q = Some pv \<and> pv_right q pv)) \<and>
     (\<forall>q. bool_query cao q \<longrightarrow> consistent q \<longrightarrow>
        (\<exists>pv. ic_computeTruth primary q = Some pv \<and> pv \<in> {MustBeTrue, MayBeFalse, PV_None} \<and> pv_right q pv)) \<and>
     (\<forall>q. query_ok cao q \<longrightarrow> consistent q \<longrightarrow>
        (\<exists>r. ic_computeValue primary q = Some r \<and> (\<forall>e. r = Some e \<longrightarrow> right_value q e))) \<and>
     (\<forall>q objects. bool_query cao q \<longrightarrow> can_fail q \<longrightarrow> list_all isSymbolicArray objects \<longrightarrow>
        (\<exists>r. ic_computeInitialValues primary q objects = Some r \<and> (\<forall>sol. r = Some sol \<longrightarrow> right_solution q objects sol)))"

lemma incomplete_validity_right:
  assumes truth: "\<And>q. bool_query cao q \<Longrightarrow> consistent q \<Longrightarrow>
      \<exists>pv. computeTruth q = Some pv \<and> pv \<in> {MustBeTrue, MayBeFalse, PV_None} \<and> pv_right q pv"
    and q: "bool_query cao q" "consistent q"
  shows "\<exists>pv. incomplete_computeValidity cao computeTruth q = Some pv \<and> pv_right q pv"
proof -
  obtain n where n: "negateExpr cao q = Some n" "bool_query cao n" "q_constraints n = q_constraints q"
      "\<And>env. eval env (q_expr n) = of_bool (eval env (q_expr q) = 0)"
    using negateExpr_ok [OF q(1)] by blast
  note m = negated_meaning [OF n(3,4)]
  obtain t where t: "computeTruth q = Some t" "t \<in> {MustBeTrue, MayBeFalse, PV_None}" "pv_right q t" using truth [OF q] by blast
  obtain f where f: "computeTruth n = Some f" "f \<in> {MustBeTrue, MayBeFalse, PV_None}" "pv_right n f" using truth [OF n(2)] m q(2) by blast
  show ?thesis using t f m n(1) by (auto simp: incomplete_computeValidity_def)
qed

text \<open>Staging keeps the contract.\<close>

context solver
begin

lemma staged_validity:
  assumes s: "good s" and q: "bool_query cao q" "consistent q"
    and v: "ic_computeValidity primary q = Some v" "pv_right q v"
  shows "answers good (\<lambda>x. x = validity_of q) (staged_computeValidity cao primary impl q s)"
proof -
  obtain n where n: "negateExpr cao q = Some n" "bool_query cao n" "q_constraints n = q_constraints q"
      "\<And>env. eval env (q_expr n) = of_bool (eval env (q_expr q) = 0)"
    using negateExpr_ok [OF q(1)] by blast
  have tn: "answers good (\<lambda>b. b = must_not q) (si_computeTruth impl n s)"
    using truth [OF s n(2)] negated_meaning [OF n(3,4)] q(2) by simp
  show ?thesis
  proof (cases v)
    case MayBeTrue
    have "answers good (\<lambda>x. x = validity_of q)
        (ask (si_computeTruth impl q s) (\<lambda>tmp s'. Some (Some (if tmp then Validity_True else Validity_Unknown), s')))"
      using MayBeTrue v(2) by (intro answers_ask [OF truth [OF s q]]) (simp add: validity_of_def)
    then show ?thesis using MayBeTrue v by (simp add: staged_computeValidity_def)
  next
    case MayBeFalse
    have "answers good (\<lambda>x. x = validity_of q)
        (ask (si_computeTruth impl n s) (\<lambda>tmp s'. Some (Some (if tmp then Validity_False else Validity_Unknown), s')))"
      using MayBeFalse v(2) by (intro answers_ask [OF tn]) (simp add: validity_of_def)
    then show ?thesis using MayBeFalse v n(1) by (simp add: staged_computeValidity_def)
  qed (use s q v validity [OF s q] must_exclusive in \<open>auto simp: staged_computeValidity_def validity_of_def\<close>)
qed

lemma staged_solver:
  assumes p: "incomplete_ok cao primary"
  shows "solver cao (StagedSolverImpl cao primary impl) good"
proof
  fix s q assume s: "good s" and q: "bool_query cao q" "consistent q"
  obtain v where v: "ic_computeValidity primary q = Some v" "pv_right q v" using p q by (auto simp: incomplete_ok_def)
  obtain t where t: "ic_computeTruth primary q = Some t" "t \<in> {MustBeTrue, MayBeFalse, PV_None}" "pv_right q t"
    using p q unfolding incomplete_ok_def by blast
  show "answers good (\<lambda>b. b = must q) (si_computeTruth (StagedSolverImpl cao primary impl) q s)"
    using t s truth [OF s q] by (auto simp: StagedSolverImpl_def staged_computeTruth_def)
  show "answers good (\<lambda>x. x = validity_of q) (si_computeValidity (StagedSolverImpl cao primary impl) q s)"
    using staged_validity [OF s q v] by (simp add: StagedSolverImpl_def)
next
  fix s q assume q: "good s" "query_ok cao q" "consistent q"
  obtain r where "ic_computeValue primary q = Some r" "\<forall>e. r = Some e \<longrightarrow> right_value q e"
    using p q unfolding incomplete_ok_def by blast
  then show "answers good (right_value q) (si_computeValue (StagedSolverImpl cao primary impl) q s)"
    using q(1) computed_value [OF q] by (auto simp: StagedSolverImpl_def staged_computeValue_def split: option.split)
next
  fix s q objects assume q: "good s" "bool_query cao q" "can_fail q" "list_all isSymbolicArray objects"
  obtain r where "ic_computeInitialValues primary q objects = Some r" "\<forall>sol. r = Some sol \<longrightarrow> right_solution q objects sol"
    using p q unfolding incomplete_ok_def by blast
  then show "answers good (right_solution q objects) (si_computeInitialValues (StagedSolverImpl cao primary impl) q objects s)"
    using q(1) initial [OF q] by (auto simp: StagedSolverImpl_def staged_computeInitialValues_def split: option.split)
qed

end

subsection \<open>The cache holds right answers\<close>

definition cache_ok :: "bool \<Rightarrow> branch_cache \<Rightarrow> bool" where
  "cache_ok cao cache \<longleftrightarrow>
     (\<forall>cs e pv. cache (cs, e) = Some pv \<longrightarrow> pv \<noteq> PV_None \<and>
        (bool_query cao \<lparr>q_constraints = cs, q_expr = e\<rparr> \<longrightarrow> consistent \<lparr>q_constraints = cs, q_expr = e\<rparr> \<longrightarrow>
         pv_right \<lparr>q_constraints = cs, q_expr = e\<rparr> pv))"

lemma query_eta [simp]: "\<lparr>q_constraints = q_constraints q, q_expr = q_expr q\<rparr> = q"
  by simp

text \<open>The canonical form of a query, and what a partial answer to it says about the query.\<close>

lemma canonical_form:
  assumes "bool_query cao q"
  obtains e neg where "canonicalizeQuery cao wide (q_expr q) = Some (e, neg)"
    "bool_query cao \<lparr>q_constraints = q_constraints q, q_expr = e\<rparr>"
    "consistent \<lparr>q_constraints = q_constraints q, q_expr = e\<rparr> = consistent q"
    "\<And>pv pv'. (if neg then negatePartialValidity pv else Some pv) = Some pv' \<Longrightarrow>
       pv_right \<lparr>q_constraints = q_constraints q, q_expr = e\<rparr> pv' = pv_right q pv"
    "\<And>pv pv'. (if neg then negatePartialValidity pv else Some pv) = Some pv' \<Longrightarrow>
       pv_right \<lparr>q_constraints = q_constraints q, q_expr = e\<rparr> pv = pv_right q pv'"
proof -
  obtain n where n: "negateExpr cao q = Some n" "bool_query cao n" "q_constraints n = q_constraints q"
      "\<And>env. eval env (q_expr n) = of_bool (eval env (q_expr q) = 0)"
    using negateExpr_ok [OF assms] by blast
  note m = negated_meaning [OF n(3,4)]
  have e: "createIsZero cao (q_expr q) = Some (q_expr n)" using n(1) by (auto simp: negateExpr_def withExpr_def)
  have nn: "n = \<lparr>q_constraints = q_constraints q, q_expr = q_expr n\<rparr>" using n(3) by simp
  show thesis
  proof (cases "expr_compare wide (q_expr q) (q_expr n) < 0")
    case True
    then show thesis using assms e by (intro that [of "q_expr q" False]) (simp_all add: canonicalizeQuery_def)
  next
    case False
    have "pv_right n pv' = pv_right q pv" "pv_right n pv = pv_right q pv'" if "negatePartialValidity pv = Some pv'" for pv pv'
      using that m by (cases pv; auto)+
    then show thesis using False e n(2) m(3) nn by (intro that [of "q_expr n" True]) (auto simp: canonicalizeQuery_def)
  qed
qed

lemma cacheLookup_right:
  assumes "cache_ok cao cache" "bool_query cao q" "consistent q"
  shows "\<exists>hit. cacheLookup cao wide q cache = Some hit \<and> (\<forall>pv. hit = Some pv \<longrightarrow> pv \<noteq> PV_None \<and> pv_right q pv)"
proof -
  obtain e neg where c: "canonicalizeQuery cao wide (q_expr q) = Some (e, neg)"
      "bool_query cao \<lparr>q_constraints = q_constraints q, q_expr = e\<rparr>"
      "consistent \<lparr>q_constraints = q_constraints q, q_expr = e\<rparr> = consistent q"
      "\<And>pv pv'. (if neg then negatePartialValidity pv else Some pv) = Some pv' \<Longrightarrow>
         pv_right \<lparr>q_constraints = q_constraints q, q_expr = e\<rparr> pv = pv_right q pv'"
    using canonical_form [OF assms(2), of wide] by metis
  show ?thesis
  proof (cases "cache (q_constraints q, e)")
    case None
    then show ?thesis using c(1) by (simp add: cacheLookup_def)
  next
    case (Some pv)
    then have pv: "pv \<noteq> PV_None" "pv_right \<lparr>q_constraints = q_constraints q, q_expr = e\<rparr> pv"
      using assms(1,3) c(2,3) by (auto simp: cache_ok_def)
    obtain pv' where pv': "(if neg then negatePartialValidity pv else Some pv) = Some pv'" "pv' \<noteq> PV_None"
      using pv(1) by (cases pv; cases neg) auto
    then show ?thesis using Some c(1) c(4) [OF pv'(1)] pv(2) by (auto simp: cacheLookup_def)
  qed
qed

lemma cacheInsert_ok:
  assumes "cache_ok cao cache" "bool_query cao q" "pv_right q pv" "pv \<noteq> PV_None"
  shows "\<exists>cache'. cacheInsert cao wide q pv cache = Some cache' \<and> cache_ok cao cache'"
proof -
  obtain e neg where c: "canonicalizeQuery cao wide (q_expr q) = Some (e, neg)"
      "\<And>pv pv'. (if neg then negatePartialValidity pv else Some pv) = Some pv' \<Longrightarrow>
         pv_right \<lparr>q_constraints = q_constraints q, q_expr = e\<rparr> pv' = pv_right q pv"
    using canonical_form [OF assms(2), of wide] by metis
  obtain pv' where pv': "(if neg then negatePartialValidity pv else Some pv) = Some pv'" "pv' \<noteq> PV_None"
    using assms(4) by (cases pv; cases neg) auto
  show ?thesis using assms(1,3) c(1) c(2) [OF pv'(1)] pv'
    by (auto simp: cacheInsert_def cache_ok_def split: option.split)
qed

text \<open>Asking below and recording a right answer.\<close>

lemma ask_below_right:
  assumes "answers good right call" "cache_ok cao cache" "bool_query cao q"
    and "\<And>x. right x \<Longrightarrow> pv_right q (pv x) \<and> pv x \<noteq> PV_None \<and> right' (res x)"
  shows "answers (\<lambda>(s, c). good s \<and> cache_ok cao c) right'
           (ask_below call cache (\<lambda>x. map_option (\<lambda>c. (c, res x)) (cacheInsert cao wide q (pv x) cache)))"
proof -
  obtain r s where r: "call = Some (r, s)" "good s" "\<And>x. r = Some x \<Longrightarrow> right x" using assms(1) by (auto simp: answers_def)
  show ?thesis
  proof (cases r)
    case None
    then show ?thesis using r assms(2) by (simp add: ask_below_def)
  next
    case (Some x)
    then obtain c where "cacheInsert cao wide q (pv x) cache = Some c" "cache_ok cao c"
      using cacheInsert_ok [OF assms(2,3)] assms(4) r(3) by blast
    then show ?thesis using Some r assms(4) by (simp add: ask_below_def)
  qed
qed

context solver
begin

lemma caching_truth:
  assumes s: "good s" "cache_ok cao cache" and q: "bool_query cao q" "consistent q"
  shows "answers (\<lambda>(s, c). good s \<and> cache_ok cao c) (\<lambda>b. b = must q) (caching_computeTruth cao wide impl q (s, cache))"
proof -
  obtain hit where hit: "cacheLookup cao wide q cache = Some hit" "\<And>pv. hit = Some pv \<Longrightarrow> pv \<noteq> PV_None \<and> pv_right q pv"
    using cacheLookup_right [OF s(2) q] by blast
  show ?thesis
  proof (cases "hit \<noteq> None \<and> hit \<noteq> Some MayBeTrue")
    case True
    then obtain pv where pv: "hit = Some pv" "pv \<noteq> MayBeTrue" "pv \<noteq> PV_None" "pv_right q pv" using hit(2) by auto
    then have "(pv = MustBeTrue) = must q" using must_exclusive [OF q(2)] by (cases pv) auto
    then show ?thesis using pv hit(1) s by (simp add: caching_computeTruth_def)
  next
    case False
    let ?pv = "\<lambda>b. if b then MustBeTrue else if hit \<noteq> None then TrueOrFalse else MayBeFalse"
    have "pv_right q (?pv b) \<and> ?pv b \<noteq> PV_None \<and> b = must q" if "b = must q" for b
      using that False hit(2) by auto
    then have "answers (\<lambda>(s, c). good s \<and> cache_ok cao c) (\<lambda>b. b = must q) (ask_below (si_computeTruth impl q s) cache
        (\<lambda>x. map_option (\<lambda>c. (c, x)) (cacheInsert cao wide q (?pv x) cache)))"
      by (intro ask_below_right [OF truth [OF s(1) q] s(2) q(1)]) blast
    then show ?thesis using False hit(1) by (auto simp: caching_computeTruth_def Let_def)
  qed
qed

lemma caching_validity:
  assumes s: "good s" "cache_ok cao cache" and q: "bool_query cao q" "consistent q"
  shows "answers (\<lambda>(s, c). good s \<and> cache_ok cao c) (\<lambda>v. v = validity_of q) (caching_computeValidity cao wide impl q (s, cache))"
proof -
  obtain hit where hit: "cacheLookup cao wide q cache = Some hit" "\<And>pv. hit = Some pv \<Longrightarrow> pv \<noteq> PV_None \<and> pv_right q pv"
    using cacheLookup_right [OF s(2) q] by blast
  obtain n where n: "negateExpr cao q = Some n" "bool_query cao n" "q_constraints n = q_constraints q"
      "\<And>env. eval env (q_expr n) = of_bool (eval env (q_expr q) = 0)"
    using negateExpr_ok [OF q(1)] by blast
  have tn: "answers good (\<lambda>b. b = must_not q) (si_computeTruth impl n s)"
    using truth [OF s(1) n(2)] negated_meaning [OF n(3,4)] q(2) by simp
  note below = ask_below_right [OF _ s(2) q(1), of good _ _ _ "\<lambda>v. v = validity_of q"]
  show ?thesis
  proof (cases hit)
    case None
    let ?pv = "\<lambda>result. case result of Validity_True \<Rightarrow> MustBeTrue | Validity_False \<Rightarrow> MustBeFalse | Validity_Unknown \<Rightarrow> TrueOrFalse"
    have "pv_right q (?pv v) \<and> ?pv v \<noteq> PV_None \<and> v = validity_of q" if "v = validity_of q" for v
      using that by (auto simp: validity_of_def)
    then show ?thesis using None hit(1) below [OF validity [OF s(1) q], of ?pv "\<lambda>x. x"]
      by (simp add: caching_computeValidity_def Let_def)
  next
    case (Some pv)
    note pv = hit(2) [OF Some]
    show ?thesis
    proof (cases pv)
      case MayBeTrue
      let ?pv = "\<lambda>tmp. if tmp then MustBeTrue else TrueOrFalse"
      let ?res = "\<lambda>tmp. if tmp then Validity_True else Validity_Unknown"
      have "answers (\<lambda>(s, c). good s \<and> cache_ok cao c) (\<lambda>v. v = validity_of q) (ask_below (si_computeTruth impl q s) cache
          (\<lambda>x. map_option (\<lambda>c. (c, ?res x)) (cacheInsert cao wide q (?pv x) cache)))"
        using MayBeTrue pv by (intro below [OF truth [OF s(1) q]]) (auto simp: validity_of_def)
      moreover have "(\<lambda>x. map_option (\<lambda>c. (c, ?res x)) (cacheInsert cao wide q (?pv x) cache)) =
          (\<lambda>tmp. if tmp then map_option (\<lambda>c. (c, Validity_True)) (cacheInsert cao wide q MustBeTrue cache)
            else map_option (\<lambda>c. (c, Validity_Unknown)) (cacheInsert cao wide q TrueOrFalse cache))" by auto
      ultimately show ?thesis using MayBeTrue Some hit(1) by (simp add: caching_computeValidity_def)
    next
      case MayBeFalse
      let ?pv = "\<lambda>tmp. if tmp then MustBeFalse else TrueOrFalse"
      let ?res = "\<lambda>tmp. if tmp then Validity_False else Validity_Unknown"
      have "answers (\<lambda>(s, c). good s \<and> cache_ok cao c) (\<lambda>v. v = validity_of q) (ask_below (si_computeTruth impl n s) cache
          (\<lambda>x. map_option (\<lambda>c. (c, ?res x)) (cacheInsert cao wide q (?pv x) cache)))"
        using MayBeFalse pv by (intro below [OF tn]) (auto simp: validity_of_def)
      moreover have "(\<lambda>x. map_option (\<lambda>c. (c, ?res x)) (cacheInsert cao wide q (?pv x) cache)) =
          (\<lambda>tmp. if tmp then map_option (\<lambda>c. (c, Validity_False)) (cacheInsert cao wide q MustBeFalse cache)
            else map_option (\<lambda>c. (c, Validity_Unknown)) (cacheInsert cao wide q TrueOrFalse cache))" by auto
      ultimately show ?thesis using MayBeFalse Some hit(1) n(1) by (simp add: caching_computeValidity_def)
    qed (use Some hit(1) s pv must_exclusive [OF q(2)] in \<open>auto simp: caching_computeValidity_def validity_of_def\<close>)
  qed
qed

lemma pass_below_right:
  "answers good right call \<Longrightarrow> cache_ok cao cache \<Longrightarrow> answers (\<lambda>(s, c). good s \<and> cache_ok cao c) right (pass_below call cache)"
  by (auto simp: answers_def pass_below_def)

end

locale caching_solver = solver cao impl good
  for cao :: bool and impl :: "'s solver_impl" and good :: "'s \<Rightarrow> bool" +
  fixes wide :: "width \<Rightarrow> int \<Rightarrow> u32"

context caching_solver
begin

lemma cached_solver: "solver cao (CachingSolver cao wide impl) (\<lambda>(s, c). good s \<and> cache_ok cao c)"
  by unfold_locales
    (auto simp: CachingSolver_def caching_truth caching_validity intro!: pass_below_right computed_value initial)

end

sublocale caching_solver \<subseteq> cached: solver cao "CachingSolver cao wide impl" "\<lambda>(s, c). good s \<and> cache_ok cao c"
  by (rule cached_solver)

text \<open>On top of a solver that always decides, the cache always decides.\<close>

locale caching_decider = deciding_solver cao impl good
  for cao :: bool and impl :: "'s solver_impl" and good :: "'s \<Rightarrow> bool" +
  fixes wide :: "width \<Rightarrow> int \<Rightarrow> u32"

sublocale caching_decider \<subseteq> caching_solver cao impl good wide
  by unfold_locales

context caching_decider
begin

lemma insert_answers:
  assumes "call = Some (Some x, s)" "cache_ok cao cache" "bool_query cao q" "pv_right q pv" "pv \<noteq> PV_None"
    "k x = map_option (\<lambda>c. (c, res)) (cacheInsert cao wide q pv cache)"
  shows "\<exists>r st. ask_below call cache k = Some (Some r, st)"
  using cacheInsert_ok [OF assms(2-5)] assms(1,6) by (auto simp: ask_below_def)

lemma cached_truth_found:
  assumes s: "good s" "cache_ok cao cache" and q: "bool_query cao q" "consistent q"
  shows "\<exists>b st. caching_computeTruth cao wide impl q (s, cache) = Some (Some b, st)"
proof -
  obtain hit where hit: "cacheLookup cao wide q cache = Some hit" "\<And>pv. hit = Some pv \<Longrightarrow> pv \<noteq> PV_None \<and> pv_right q pv"
    using cacheLookup_right [OF s(2) q] by blast
  obtain s' where t: "si_computeTruth impl q s = Some (Some (must q), s')"
    using truth_found [OF s(1) q] truth [OF s(1) q] by (auto simp: answers_def)
  let ?pv = "if must q then MustBeTrue else if hit \<noteq> None then TrueOrFalse else MayBeFalse"
  have "\<exists>r st. ask_below (si_computeTruth impl q s) cache
      (\<lambda>isValid. map_option (\<lambda>c. (c, isValid))
         (cacheInsert cao wide q (if isValid then MustBeTrue else if hit \<noteq> None then TrueOrFalse else MayBeFalse) cache)) = Some (Some r, st)"
    if "hit = None \<or> hit = Some MayBeTrue"
    by (rule insert_answers [OF t s(2) q(1), of ?pv]) (use that hit(2) in auto)
  then show ?thesis using hit(1) by (cases "hit \<noteq> None \<and> hit \<noteq> Some MayBeTrue") (auto simp: caching_computeTruth_def Let_def)
qed

lemma cached_validity_found:
  assumes s: "good s" "cache_ok cao cache" and q: "bool_query cao q" "consistent q"
  shows "\<exists>v st. caching_computeValidity cao wide impl q (s, cache) = Some (Some v, st)"
proof -
  obtain hit where hit: "cacheLookup cao wide q cache = Some hit" "\<And>pv. hit = Some pv \<Longrightarrow> pv \<noteq> PV_None \<and> pv_right q pv"
    using cacheLookup_right [OF s(2) q] by blast
  obtain n where n: "negateExpr cao q = Some n" "bool_query cao n" "q_constraints n = q_constraints q"
      "\<And>env. eval env (q_expr n) = of_bool (eval env (q_expr q) = 0)"
    using negateExpr_ok [OF q(1)] by blast
  note m = negated_meaning [OF n(3,4)]
  obtain s1 where t: "si_computeTruth impl q s = Some (Some (must q), s1)"
    using truth_found [OF s(1) q] truth [OF s(1) q] by (auto simp: answers_def)
  obtain s2 where f: "si_computeTruth impl n s = Some (Some (must_not q), s2)"
    using truth_found [OF s(1) n(2)] truth [OF s(1) n(2)] m q(2) by (auto simp: answers_def)
  obtain s3 where v: "si_computeValidity impl q s = Some (Some (validity_of q), s3)"
    using validity_found [OF s(1) q] validity [OF s(1) q] by (auto simp: answers_def)
  show ?thesis
  proof (cases hit)
    case None
    have "\<exists>r st. ask_below (si_computeValidity impl q s) cache (\<lambda>result.
        map_option (\<lambda>c. (c, result)) (cacheInsert cao wide q
          (case result of Validity_True \<Rightarrow> MustBeTrue | Validity_False \<Rightarrow> MustBeFalse | Validity_Unknown \<Rightarrow> TrueOrFalse) cache)) = Some (Some r, st)"
      by (rule insert_answers [OF v s(2) q(1), of "case validity_of q of Validity_True \<Rightarrow> MustBeTrue | Validity_False \<Rightarrow> MustBeFalse | Validity_Unknown \<Rightarrow> TrueOrFalse"])
        (auto simp: validity_of_def)
    then show ?thesis using None hit(1) by (simp add: caching_computeValidity_def Let_def)
  next
    case (Some pv)
    note pv = hit(2) [OF Some]
    show ?thesis
    proof (cases pv)
      case MayBeTrue
      then show ?thesis
        using Some hit(1) pv t cacheInsert_ok [OF s(2) q(1), of MustBeTrue wide] cacheInsert_ok [OF s(2) q(1), of TrueOrFalse wide]
        by (cases "must q") (auto simp: caching_computeValidity_def ask_below_def)
    next
      case MayBeFalse
      then show ?thesis
        using Some hit(1) pv n(1) f cacheInsert_ok [OF s(2) q(1), of MustBeFalse wide] cacheInsert_ok [OF s(2) q(1), of TrueOrFalse wide]
        by (cases "must_not q") (auto simp: caching_computeValidity_def ask_below_def)
    qed (use Some hit(1) pv in \<open>auto simp: caching_computeValidity_def\<close>)
  qed
qed

end

sublocale caching_decider \<subseteq> cached_decider: deciding_solver cao "CachingSolver cao wide impl" "\<lambda>(s, c). good s \<and> cache_ok cao c"
proof
  fix s q assume "case s of (s, c) \<Rightarrow> good s \<and> cache_ok cao c" "bool_query cao q" "consistent q"
  then show "\<exists>b s'. si_computeTruth (CachingSolver cao wide impl) q s = Some (Some b, s')"
      "\<exists>v s'. si_computeValidity (CachingSolver cao wide impl) q s = Some (Some v, s')"
    using cached_truth_found cached_validity_found by (cases s; fastforce simp: CachingSolver_def)+
qed

interpretation ideal_cache: caching_decider cao ideal_solver "\<lambda>_. True" wide for cao wide
  by unfold_locales

text \<open>
  C15. The branch cache keeps the contract of a solver. On top of a solver that keeps it, every answer of
  \<open>CachingSolver\<close> is right, whatever queries it has answered before: the cache is correct at the
  start, every operation keeps it correct, and no assertion fails.
\<close>

theorem CachingSolver_correct:
  assumes "solver cao impl good"
  shows "cache_ok cao Map.empty \<and> solver cao (CachingSolver cao wide impl) (\<lambda>(s, c). good s \<and> cache_ok cao c)"
  using caching_solver.cached_solver [of cao impl good wide] assms by (simp add: caching_solver_def cache_ok_def)

theorem CachingSolver_correct_witness:
  "solver False (CachingSolver False (\<lambda>_ _. 0) (dummy_solver :: unit solver_impl)) (\<lambda>(s, c). True \<and> cache_ok False c)"
  using CachingSolver_correct [OF dummy.solver_axioms] by blast

end
