(* ===== verification/ExprUtil.thy ===== *)
theory ExprUtil
  imports Expr_Sound ExprCompare
begin

section \<open>The reads of an expression\<close>

text \<open>
  \<open>klee/lib/Expr/ExprUtil.cpp\<close>: \<open>findReads\<close> walks an expression with a stack and a set of visited
  expressions. The set of update nodes that it also keeps only saves time: the expressions of a node seen before
  are in the visited set.
\<close>

subsection \<open>Sub-expressions\<close>

text \<open>The expressions reached in one step: the kids, and with \<open>visitUpdates\<close> those of the update list.\<close>

definition successors :: "bool \<Rightarrow> expr \<Rightarrow> expr list" where
  "successors visitUpdates e =
     kids e @ (case e of ReadExpr a us i \<Rightarrow> (if visitUpdates then concat (map (\<lambda>(x, y). [x, y]) us) else []) | _ \<Rightarrow> [])"

lemma successors_size: "x \<in> set (successors vu e) \<Longrightarrow> size x < size e"
proof -
  have "x \<in> set (kids e) \<Longrightarrow> size x < size e" by (cases e) auto
  moreover have "(y, z) \<in> set us \<Longrightarrow> size y < size_list (size_prod size size) us \<and> size z < size_list (size_prod size size) us"
    for y z and us :: "(expr \<times> expr) list" by (induction us) auto
  ultimately show "x \<in> set (successors vu e) \<Longrightarrow> size x < size e"
    by (auto simp: successors_def split: expr.splits if_splits) fastforce+
qed

function subexprs :: "expr \<Rightarrow> expr set" where
  "subexprs e = insert e (\<Union>x\<in>set (successors True e). subexprs x)"
  by pat_completeness auto
termination
  by (relation "measure size") (auto simp: successors_size)

declare subexprs.simps [simp del]

lemma subexprs_self [simp]: "e \<in> subexprs e"
  by (subst subexprs.simps) simp

lemma subexprs_constant [simp]: "subexprs (ConstantExpr w v) = {ConstantExpr w v}"
  by (subst subexprs.simps) (simp add: successors_def)

lemma subexprs_simps:
  "subexprs (NotOptimizedExpr e) = insert (NotOptimizedExpr e) (subexprs e)"
  "subexprs (SelectExpr c t f) = insert (SelectExpr c t f) (subexprs c \<union> subexprs t \<union> subexprs f)"
  "subexprs (ConcatExpr l r) = insert (ConcatExpr l r) (subexprs l \<union> subexprs r)"
  "subexprs (ExtractExpr e off w) = insert (ExtractExpr e off w) (subexprs e)"
  "subexprs (ZExtExpr e w) = insert (ZExtExpr e w) (subexprs e)"
  "subexprs (SExtExpr e w) = insert (SExtExpr e w) (subexprs e)"
  "subexprs (NotExpr e) = insert (NotExpr e) (subexprs e)"
  "subexprs (BinaryExpr k l r) = insert (BinaryExpr k l r) (subexprs l \<union> subexprs r)"
  by (subst subexprs.simps; auto simp: successors_def)+

lemma subexprs_step: "x \<in> set (successors True e) \<Longrightarrow> subexprs x \<subseteq> subexprs e"
  by (subst (2) subexprs.simps) auto

lemma successors_subset: "set (successors vu e) \<subseteq> set (successors True e)"
  by (cases e; cases vu) (auto simp: successors_def)

lemma finite_subexprs [simp]: "finite (subexprs e)"
proof (induction e rule: subexprs.induct)
  case (1 e)
  then show ?case by (subst subexprs.simps) auto
qed

subsection \<open>\<open>findReads\<close>\<close>

definition push_new :: "expr \<Rightarrow> expr list \<times> expr set \<Rightarrow> expr list \<times> expr set" where
  "push_new x = (\<lambda>(stack, visited). if \<not> isConstant x \<and> x \<notin> visited then (x # stack, insert x visited) else (stack, visited))"

fun is_read :: "expr \<Rightarrow> bool" where
  "is_read (ReadExpr a us i) = True"
| "is_read e = False"

lemma push_new_set:
  assumes "fold push_new xs (stack, visited) = (stack', visited')"
  shows "set stack' = set stack \<union> (visited' - visited)" "visited \<subseteq> visited'" "visited' \<subseteq> visited \<union> set xs"
    "\<And>x. x \<in> set xs \<Longrightarrow> \<not> isConstant x \<Longrightarrow> x \<in> visited'"
    "finite A \<Longrightarrow> set xs \<subseteq> A \<Longrightarrow> card (A - visited') + length stack' \<le> card (A - visited) + length stack"
proof -
  have "set stack' = set stack \<union> (visited' - visited) \<and> visited \<subseteq> visited' \<and> visited' \<subseteq> visited \<union> set xs \<and>
      (\<forall>x\<in>set xs. \<not> isConstant x \<longrightarrow> x \<in> visited')"
    using assms
  proof (induction xs arbitrary: stack visited)
    case (Cons x xs)
    obtain st vi where p: "push_new x (stack, visited) = (st, vi)" by force
    have "set st = set stack \<union> (vi - visited)" "visited \<subseteq> vi" "vi \<subseteq> visited \<union> {x}" "\<not> isConstant x \<longrightarrow> x \<in> vi"
      using p by (auto simp: push_new_def split: if_splits)
    then show ?case using Cons.IH [of st vi] Cons.prems p by auto
  qed simp
  then show "set stack' = set stack \<union> (visited' - visited)" "visited \<subseteq> visited'" "visited' \<subseteq> visited \<union> set xs"
    "\<And>x. x \<in> set xs \<Longrightarrow> \<not> isConstant x \<Longrightarrow> x \<in> visited'" by auto
  show "card (A - visited') + length stack' \<le> card (A - visited) + length stack" if A: "finite A" "set xs \<subseteq> A"
    using assms A(2)
  proof (induction xs arbitrary: stack visited)
    case (Cons x xs)
    obtain st vi where p: "push_new x (stack, visited) = (st, vi)" by force
    have "card (A - vi) + length st \<le> card (A - visited) + length stack"
    proof (cases "\<not> isConstant x \<and> x \<notin> visited")
      case True
      then have "card (A - visited) = Suc (card (A - vi))" "length st = Suc (length stack)"
        using p A(1) Cons.prems(2) card_Suc_Diff1 [of "A - visited" x] by (auto simp: push_new_def Diff_insert [of A x visited])
      then show ?thesis by simp
    next
      case False
      then show ?thesis using p by (auto simp: push_new_def)
    qed
    then show ?case using Cons.IH [of st vi] Cons.prems p by simp
  qed simp
qed

text \<open>The loop: the stack, the visited set and the reads found so far.\<close>

function findReads_loop :: "bool \<Rightarrow> expr list \<Rightarrow> expr set \<Rightarrow> expr list \<Rightarrow> expr list" where
  "findReads_loop visitUpdates stack visited results =
     (case stack of
        [] \<Rightarrow> results
      | t # rest \<Rightarrow>
          (case fold push_new (successors visitUpdates t) (rest, visited) of
             (stack', visited') \<Rightarrow>
               findReads_loop visitUpdates stack' visited' (if is_read t then results @ [t] else results)))"
  by pat_completeness auto
termination
proof -
  let ?all = "\<lambda>stack. \<Union>x\<in>set stack. subexprs x"
  have less: "card (?all stack' - visited') + length stack' < card (?all (t # rest) - visited) + length (t # rest)"
    if step: "fold push_new (successors vu t) (rest, visited) = (stack', visited')" for vu t rest visited stack' visited'
  proof -
    let ?A = "?all (t # rest)"
    have succ: "subexprs x \<subseteq> subexprs t" if "x \<in> set (successors vu t)" for x
      using that successors_subset subexprs_step by blast
    then have "set (successors vu t) \<subseteq> ?A" using subexprs_self by fastforce
    then have a: "card (?A - visited') + length stack' \<le> card (?A - visited) + length rest"
      by (intro push_new_set(5) [OF step]) auto
    have "set stack' \<subseteq> set rest \<union> set (successors vu t)" using push_new_set(1,3) [OF step] by auto
    then have "?all stack' - visited' \<subseteq> ?A - visited'" using succ by fastforce
    then have "card (?all stack' - visited') \<le> card (?A - visited')" by (intro card_mono) auto
    then show ?thesis using a by simp
  qed
  show ?thesis
    by (relation "measure (\<lambda>(vu, stack, visited, results). card (?all stack - visited) + length stack)")
      (auto intro!: less [OF sym, simplified])
qed

declare findReads_loop.simps [simp del]

definition findReads :: "expr \<Rightarrow> bool \<Rightarrow> expr list" where
  "findReads e visitUpdates =
     (if isConstant e then [] else findReads_loop visitUpdates [e] {e} [])"

subsection \<open>What \<open>findReads\<close> finds\<close>

text \<open>Visited expressions that are off the stack have their successors visited, and their reads are results.\<close>

definition walk_inv :: "bool \<Rightarrow> expr set \<Rightarrow> expr list \<Rightarrow> expr set \<Rightarrow> expr list \<Rightarrow> bool" where
  "walk_inv vu A stack visited results \<longleftrightarrow>
     set stack \<subseteq> visited \<and> visited \<subseteq> A \<and> set results \<subseteq> {r \<in> A. is_read r} \<and>
     (\<forall>x\<in>visited - set stack. (\<forall>y\<in>set (successors vu x). \<not> isConstant y \<longrightarrow> y \<in> visited) \<and>
        (is_read x \<longrightarrow> x \<in> set results))"

lemma findReads_loop_finds:
  assumes "walk_inv vu A stack visited results" "\<And>x y. x \<in> A \<Longrightarrow> y \<in> set (successors vu x) \<Longrightarrow> y \<in> A"
  shows "\<exists>visited'. visited \<subseteq> visited' \<and> walk_inv vu A [] visited' (findReads_loop vu stack visited results)"
  using assms
proof (induction vu stack visited results rule: findReads_loop.induct)
  case (1 vu stack visited results)
  show ?case
  proof (cases stack)
    case Nil
    then show ?thesis using 1(2) by (subst findReads_loop.simps) auto
  next
    case (Cons t rest)
    obtain stack' visited' where step: "fold push_new (successors vu t) (rest, visited) = (stack', visited')" by force
    note p = push_new_set [OF step]
    let ?res = "if is_read t then results @ [t] else results"
    have w: "set rest \<subseteq> visited" "t \<in> visited" "visited \<subseteq> A" "set results \<subseteq> {r \<in> A. is_read r}"
      using 1(2) Cons by (auto simp: walk_inv_def)
    have d: "(\<forall>y\<in>set (successors vu x). \<not> isConstant y \<longrightarrow> y \<in> visited') \<and> (is_read x \<longrightarrow> x \<in> set ?res)"
      if "x \<in> visited'" "x \<notin> set stack'" for x
    proof (cases "x = t")
      case True
      then show ?thesis using p(4) by simp
    next
      case False
      then have "x \<in> visited - set stack" using that p(1) Cons by auto
      then show ?thesis using 1(2) p(2) by (auto simp: walk_inv_def)
    qed
    have s: "set stack' \<subseteq> visited'" using p(1,2) w(1) by blast
    have v: "visited' \<subseteq> A" using p(3) w(3) 1(3) [OF subsetD [OF w(3,2)]] by blast
    have r: "set ?res \<subseteq> {r \<in> A. is_read r}" using w by auto
    have "walk_inv vu A stack' visited' ?res" unfolding walk_inv_def using s v r d by blast
    then have "\<exists>v. visited' \<subseteq> v \<and> walk_inv vu A [] v (findReads_loop vu stack' visited' ?res)"
      by (rule 1(1) [OF Cons step [symmetric] _ 1(3)])
    moreover have "findReads_loop vu stack visited results = findReads_loop vu stack' visited' ?res"
      using Cons step by (subst findReads_loop.simps) simp
    ultimately show ?thesis using p(2) by (metis order_trans)
  qed
qed

text \<open>\<open>findReads\<close> with \<open>visitUpdates\<close> finds exactly the reads among the sub-expressions.\<close>

lemma findReads_complete: "set (findReads e True) = {r \<in> subexprs e. is_read r}"
proof (cases "isConstant e")
  case True
  then obtain w v where "e = ConstantExpr w v" by (cases e) auto
  then show ?thesis by (auto simp: findReads_def)
next
  case False
  have closed: "y \<in> subexprs e" if "x \<in> subexprs e" "y \<in> set (successors True x)" for x y
    using that
  proof (induction e rule: subexprs.induct)
    case (1 e)
    show ?case
    proof (cases "x = e")
      case True
      then show ?thesis using 1(3) subexprs_step subexprs_self by blast
    next
      case False
      then obtain z where z: "z \<in> set (successors True e)" "x \<in> subexprs z" using 1(2) by (subst (asm) subexprs.simps) auto
      then show ?thesis using 1(1) [OF z 1(3)] subexprs_step by blast
    qed
  qed
  have "walk_inv True (subexprs e) [e] {e} []" by (simp add: walk_inv_def)
  then have "\<exists>v. {e} \<subseteq> v \<and> walk_inv True (subexprs e) [] v (findReads_loop True [e] {e} [])"
    by (rule findReads_loop_finds) (rule closed)
  then obtain v where v: "{e} \<subseteq> v" "walk_inv True (subexprs e) [] v (findReads e True)"
    using False by (auto simp: findReads_def)
  have reach: "x \<in> v" if "x \<in> subexprs y" "\<not> isConstant x" "y \<in> v" for x y
    using that
  proof (induction y rule: subexprs.induct)
    case (1 y)
    show ?case
    proof (cases "x = y")
      case False
      then obtain z where z: "z \<in> set (successors True y)" "x \<in> subexprs z" using 1(2) by (subst (asm) subexprs.simps) auto
      have "\<not> isConstant z" using z(2) 1(3) by (cases z) auto
      then show ?thesis using 1(1) [OF z(1,2) 1(3)] z(1) 1(4) v(2) by (auto simp: walk_inv_def)
    qed (use 1(4) in simp)
  qed
  have "r \<in> set (findReads e True)" if "r \<in> subexprs e" "is_read r" for r
  proof -
    have "\<not> isConstant r" using that(2) by (cases r) auto
    then have "r \<in> v" using reach [OF that(1)] v(1) by simp
    then show ?thesis using v(2) that(2) by (simp add: walk_inv_def)
  qed
  moreover have "set (findReads e True) \<subseteq> {r \<in> subexprs e. is_read r}" using v(2) by (simp add: walk_inv_def)
  ultimately show ?thesis by blast
qed

end
