(* ===== verification/IndependentSolver.thy ===== *)
theory IndependentSolver
  imports CachingSolver ExprUtil
begin

section \<open>Constraint independence\<close>

text \<open>
  \<open>klee/lib/Solver/IndependentSolver.cpp\<close>: the elements of arrays that an expression reads, and the solver that
  passes on a query with the constraints that share an element with the expression, directly or through other
  constraints. The set of elements of one array (\<open>DenseSet\<close>) is a set, the map from arrays to such sets a map;
  loops over them whose order does not matter are the operations on sets and maps they compute.
\<close>

subsection \<open>IndependentElementSet\<close>

record element_set =
  es_elements :: "array \<rightharpoonup> nat set"
  es_wholeObjects :: "array set"
  es_exprs :: "expr list"

text \<open>One read. \<open>getZExtValue(32)\<close> asserts that the index has at most 32 bits.\<close>

fun note_read :: "expr \<Rightarrow> element_set \<Rightarrow> element_set option" where
  "note_read (ReadExpr array us i) s =
     (if \<not> isSymbolicArray array \<and> us = [] then Some s
      else if array \<in> es_wholeObjects s then Some s
      else case as_constant i of
        Some (w, v) \<Rightarrow>
          if w \<le> 32
          then Some (s\<lparr>es_elements := (es_elements s)(array \<mapsto> insert (nat v) (case es_elements s array of None \<Rightarrow> {} | Some d \<Rightarrow> d))\<rparr>)
          else None
      | None \<Rightarrow> Some (s\<lparr>es_elements := (es_elements s)(array := None), es_wholeObjects := insert array (es_wholeObjects s)\<rparr>))"
| "note_read e s = None"

definition IndependentElementSet :: "expr \<Rightarrow> element_set option" where
  "IndependentElementSet e =
     foldM note_read (findReads e True) \<lparr>es_elements = Map.empty, es_wholeObjects = {}, es_exprs = [e]\<rparr>"

definition es_intersects :: "element_set \<Rightarrow> element_set \<Rightarrow> bool" where
  "es_intersects s b \<longleftrightarrow>
     (\<exists>array\<in>es_wholeObjects s. array \<in> es_wholeObjects b \<or> array \<in> dom (es_elements b)) \<or>
     (\<exists>array\<in>dom (es_elements s). array \<in> es_wholeObjects b \<or>
        (array \<in> dom (es_elements b) \<and> the (es_elements s array) \<inter> the (es_elements b array) \<noteq> {}))"

text \<open>\<open>add\<close>: the loop over the whole objects, the loop over the elements; whether something changed, and the sum.\<close>

definition add_whole :: "element_set \<Rightarrow> element_set \<Rightarrow> bool \<times> element_set" where
  "add_whole s b =
     ((\<exists>array\<in>es_wholeObjects b. array \<in> dom (es_elements s) \<or> array \<notin> es_wholeObjects s),
      s\<lparr>es_elements := es_elements s |` (- es_wholeObjects b), es_wholeObjects := es_wholeObjects s \<union> es_wholeObjects b\<rparr>)"

definition add_elements :: "element_set \<Rightarrow> element_set \<Rightarrow> bool \<times> element_set" where
  "add_elements s b =
     ((\<exists>array\<in>dom (es_elements b) - es_wholeObjects s.
         (case es_elements s array of None \<Rightarrow> True | Some d \<Rightarrow> \<not> the (es_elements b array) \<subseteq> d)),
      s\<lparr>es_elements := (\<lambda>array.
          if array \<in> es_wholeObjects s then es_elements s array
          else case es_elements b array of
            None \<Rightarrow> es_elements s array
          | Some d \<Rightarrow> Some (case es_elements s array of None \<Rightarrow> d | Some d0 \<Rightarrow> d0 \<union> d))\<rparr>)"

definition es_add :: "element_set \<Rightarrow> element_set \<Rightarrow> bool \<times> element_set" where
  "es_add s b =
     (case add_whole (s\<lparr>es_exprs := es_exprs s @ es_exprs b\<rparr>) b of
        (modified, s') \<Rightarrow> (case add_elements s' b of (modified', s'') \<Rightarrow> (modified \<or> modified', s'')))"

subsection \<open>\<open>getIndependentConstraints\<close>\<close>

text \<open>
  One pass over the worklist: the closure, whether it was left alone, the constraints moved to the result,
  the new worklist.
\<close>

fun independent_pass :: "(expr \<times> element_set) list \<Rightarrow> element_set \<Rightarrow>
    element_set \<times> bool \<times> expr list \<times> (expr \<times> element_set) list" where
  "independent_pass [] eltsClosure = (eltsClosure, True, [], [])"
| "independent_pass ((c, i) # worklist) eltsClosure =
     (if es_intersects i eltsClosure
      then case es_add eltsClosure i of
        (modified, closure1) \<Rightarrow>
          (case independent_pass worklist closure1 of
             (closure2, done, result, newWorklist) \<Rightarrow> (closure2, done \<and> \<not> modified, c # result, newWorklist))
      else case independent_pass worklist eltsClosure of
        (closure2, done, result, newWorklist) \<Rightarrow> (closure2, done, result, (c, i) # newWorklist))"

lemma independent_pass_length:
  "independent_pass worklist closure = (closure', done, result, new) \<Longrightarrow> length worklist = length result + length new \<and> (\<not> done \<longrightarrow> result \<noteq> [])"
  by (induction worklist closure arbitrary: closure' "done" result new rule: independent_pass.induct)
    (fastforce split: if_splits prod.splits)+

text \<open>The loop around the passes; the worklist that is left is the third component.\<close>

function independent_loop :: "(expr \<times> element_set) list \<Rightarrow> element_set \<Rightarrow> element_set \<times> expr list \<times> (expr \<times> element_set) list" where
  "independent_loop worklist eltsClosure =
     (case independent_pass worklist eltsClosure of
        (closure', done, result, newWorklist) \<Rightarrow>
          if done then (closure', result, newWorklist)
          else case independent_loop newWorklist closure' of (closure'', moved, rest) \<Rightarrow> (closure'', result @ moved, rest))"
  by pat_completeness auto
termination
  by (relation "measure (\<lambda>(worklist, c). length worklist)") (auto dest!: sym [THEN independent_pass_length])

declare independent_loop.simps [simp del]

definition getIndependentConstraints :: "query \<Rightarrow> (element_set \<times> expr list) option" where
  "getIndependentConstraints q = do {
     eltsClosure \<leftarrow> IndependentElementSet (q_expr q);
     worklist \<leftarrow> those (map (\<lambda>c. map_option (Pair c) (IndependentElementSet c)) (q_constraints q));
     (case independent_loop worklist eltsClosure of (closure, result, rest) \<Rightarrow> Some (closure, result)) }"

subsection \<open>IndependentSolver\<close>

text \<open>The query with the required constraints only.\<close>

definition required_query :: "query \<Rightarrow> query option" where
  "required_query q = map_option (\<lambda>(eltsClosure, required). q\<lparr>q_constraints := required\<rparr>) (getIndependentConstraints q)"

definition independent_computeValidity :: "'s solver_impl \<Rightarrow> query \<Rightarrow> 's \<Rightarrow> (validity, 's) answer" where
  "independent_computeValidity impl q s = do { q' \<leftarrow> required_query q; si_computeValidity impl q' s }"

definition independent_computeTruth :: "'s solver_impl \<Rightarrow> query \<Rightarrow> 's \<Rightarrow> (bool, 's) answer" where
  "independent_computeTruth impl q s = do { q' \<leftarrow> required_query q; si_computeTruth impl q' s }"

definition independent_computeValue :: "'s solver_impl \<Rightarrow> query \<Rightarrow> 's \<Rightarrow> (expr, 's) answer" where
  "independent_computeValue impl q s = do { q' \<leftarrow> required_query q; si_computeValue impl q' s }"

subsection \<open>What an element set covers\<close>

definition covered :: "element_set \<Rightarrow> (array \<times> nat) set" where
  "covered s = {(a, j). a \<in> es_wholeObjects s \<or> (\<exists>d. es_elements s a = Some d \<and> j \<in> d)}"

lemma coveredI: "a \<in> es_wholeObjects s \<Longrightarrow> (a, j) \<in> covered s" "es_elements s a = Some d \<Longrightarrow> j \<in> d \<Longrightarrow> (a, j) \<in> covered s"
  by (auto simp: covered_def)

lemma intersects_covered: "\<not> es_intersects s b \<Longrightarrow> covered s \<inter> covered b = {}"
  by (fastforce simp: es_intersects_def covered_def)

lemma es_add_parts:
  assumes "es_add s b = (m, s')"
  shows "es_wholeObjects s' = es_wholeObjects s \<union> es_wholeObjects b"
    "es_elements s' a =
       (if a \<in> es_wholeObjects s \<union> es_wholeObjects b then (if a \<in> es_wholeObjects b then None else es_elements s a)
        else case es_elements b a of
          None \<Rightarrow> es_elements s a
        | Some d \<Rightarrow> Some (case es_elements s a of None \<Rightarrow> d | Some d0 \<Rightarrow> d0 \<union> d))"
    "\<not> m \<Longrightarrow> x \<in> es_wholeObjects b \<Longrightarrow> x \<notin> dom (es_elements s) \<and> x \<in> es_wholeObjects s"
    "\<not> m \<Longrightarrow> es_elements b x = Some d \<Longrightarrow> x \<notin> es_wholeObjects s \<union> es_wholeObjects b \<Longrightarrow> \<exists>d0. es_elements s x = Some d0 \<and> d \<subseteq> d0"
  using assms
  by (cases s; cases b; fastforce simp: es_add_def add_whole_def add_elements_def restrict_map_def split: option.splits)+

lemma add_covers:
  assumes "es_add s b = (m, s')"
  shows "covered s \<union> covered b \<subseteq> covered s'"
    "\<not> m \<Longrightarrow> es_elements s' = es_elements s \<and> es_wholeObjects s' = es_wholeObjects s"
proof -
  note p = es_add_parts [OF assms]
  have "(a, j) \<in> covered s'" if "(a, j) \<in> covered s \<union> covered b" for a j
    using that p(1) p(2) [of a]
    by (cases "a \<in> es_wholeObjects s \<union> es_wholeObjects b") (auto simp: covered_def split: option.splits)
  then show "covered s \<union> covered b \<subseteq> covered s'" by auto
  assume "\<not> m"
  then have "es_elements s' a = es_elements s a" for a
    using p(3) [of a] p(4) [of a]
    by (subst p(2), cases "a \<in> es_wholeObjects s"; cases "a \<in> es_wholeObjects b") (auto split: option.split simp: domIff)
  then show "es_elements s' = es_elements s \<and> es_wholeObjects s' = es_wholeObjects s"
    using p(1,3) \<open>\<not> m\<close> by auto
qed

text \<open>The elements a read depends on.\<close>

fun read_covers :: "expr \<Rightarrow> (array \<times> nat) set" where
  "read_covers (ReadExpr a us i) =
     (if \<not> isSymbolicArray a then {} else case as_constant i of Some (w, v) \<Rightarrow> {(a, nat v)} | None \<Rightarrow> {a} \<times> UNIV)"
| "read_covers e = {}"

definition deps :: "expr \<Rightarrow> (array \<times> nat) set" where
  "deps e = \<Union> (read_covers ` {r \<in> subexprs e. is_read r})"

lemma deps_simps [simp]:
  "deps (ConstantExpr w v) = {}"
  "deps (NotOptimizedExpr e) = deps e"
  "deps (SelectExpr c t f) = deps c \<union> deps t \<union> deps f"
  "deps (ConcatExpr l r) = deps l \<union> deps r"
  "deps (ExtractExpr e off w) = deps e"
  "deps (ZExtExpr e w) = deps e"
  "deps (SExtExpr e w) = deps e"
  "deps (NotExpr e) = deps e"
  "deps (BinaryExpr k l r) = deps l \<union> deps r"
  by (auto simp: deps_def subexprs_simps)

lemma deps_step: "x \<in> set (successors True e) \<Longrightarrow> deps x \<subseteq> deps e"
  using subexprs_step by (fastforce simp: deps_def)

lemma note_read_covers: "note_read r s = Some s' \<Longrightarrow> covered s \<union> read_covers r \<subseteq> covered s'"
  by (cases r) (auto simp: covered_def split: if_splits option.splits)

lemma element_set_covers:
  assumes "IndependentElementSet e = Some s"
  shows "deps e \<subseteq> covered s"
proof -
  have "\<Union> (read_covers ` set rs) \<union> covered t \<subseteq> covered s" if "foldM note_read rs t = Some s" for rs t
    using that
  proof (induction rs arbitrary: t)
    case (Cons r rs)
    then obtain t' where "note_read r t = Some t'" "foldM note_read rs t' = Some s" by (auto split: option.splits)
    then show ?case using Cons.IH [of t'] note_read_covers [of r t t'] by auto
  qed simp
  from this [OF assms [unfolded IndependentElementSet_def]] show ?thesis unfolding findReads_complete deps_def by blast
qed

text \<open>Two assignments that agree on these elements give the same value.\<close>

lemma eval_agrees: "\<forall>p\<in>deps e. env (fst p) (snd p) = env' (fst p) (snd p) \<Longrightarrow> eval env e = eval env' e"
proof (induction env e rule: eval.induct)
  case (3 env a us i)
  have sub: "\<forall>p\<in>deps x. env (fst p) (snd p) = env' (fst p) (snd p)" if "x \<in> set (successors True (ReadExpr a us i))" for x
    using deps_step [OF that] 3(5) by blast
  have i: "eval env i = eval env' i" using sub [of i] by (intro 3(3)) (simp add: successors_def)
  have us: "map (\<lambda>(x, y). (eval env x, eval env y)) us = map (\<lambda>(x, y). (eval env' x, eval env' y)) us"
  proof (rule map_cong [OF refl])
    fix p assume us: "p \<in> set us"
    obtain x y where xy: "p = (x, y)" by fastforce
    note p = us [unfolded xy]
    have "x \<in> set (successors True (ReadExpr a us i))" "y \<in> set (successors True (ReadExpr a us i))"
      using p by (auto simp: successors_def)
    then have "eval env x = eval env' x" "eval env y = eval env' y" using 3(1,2) [OF p refl] sub by blast+
    then show "(\<lambda>(x, y). (eval env x, eval env y)) p = (\<lambda>(x, y). (eval env' x, eval env' y)) p" using xy by simp
  qed
  have "initial_value env a (eval env' i) = initial_value env' a (eval env' i)"
  proof (cases "isSymbolicArray a")
    case True
    have "(a, nat (eval env' i)) \<in> read_covers (ReadExpr a us i)" using True by (auto split: option.split)
    then have "(a, nat (eval env' i)) \<in> deps (ReadExpr a us i)" unfolding deps_def using subexprs_self is_read.simps(1) by blast
    then show ?thesis using 3(5) by (force simp: initial_value_def)
  qed (simp add: initial_value_def)
  then show ?case using i us by (simp only: eval.simps)
qed simp_all

lemma eval_covered:
  assumes "IndependentElementSet e = Some s" "\<And>a j. (a, j) \<in> covered s \<Longrightarrow> env a j = env' a j"
  shows "eval env e = eval env' e"
  using element_set_covers [OF assms(1)] assms(2) by (intro eval_agrees) auto

text \<open>Every well-typed expression has an element set.\<close>

lemma typed_subexprs: "well_typed cao env e \<Longrightarrow> x \<in> subexprs e \<Longrightarrow> well_typed cao env x"
proof (induction e rule: subexprs.induct)
  case (1 e)
  show ?case
  proof (cases "x = e")
    case False
    then obtain y where y: "y \<in> set (successors True e)" "x \<in> subexprs y" using 1(3) by (subst (asm) subexprs.simps) auto
    have "well_typed cao env y" using y(1) 1(2) by (cases e) (auto simp: successors_def list_all_iff)
    then show ?thesis using 1(1) [OF y(1) _ y(2)] by simp
  qed (use 1(2) in simp)
qed

lemma element_set_exists:
  assumes "typed cao e"
  obtains s where "IndependentElementSet e = Some s"
proof -
  have "\<exists>s'. note_read r s = Some s'" if "r \<in> set (findReads e True)" for r s
  proof -
    have "is_read r" "r \<in> subexprs e" using that findReads_complete [of e] by auto
    moreover from this(2) have "well_typed cao undefined r" using assms typed_subexprs [of cao undefined e r] by (simp add: typed_def)
    ultimately show ?thesis by (cases r) (auto simp: array_ok_def split: option.split)
  qed
  then have "\<exists>s'. foldM note_read rs s = Some s'" if "set rs \<subseteq> set (findReads e True)" for rs s
    using that by (induction rs arbitrary: s) (force split: option.split)+
  then show thesis using that by (auto simp: IndependentElementSet_def)
qed

subsection \<open>The closure separates\<close>

text \<open>What a pass from \<open>closure\<close> to \<open>closure'\<close> has done.\<close>

definition pass_done :: "(expr \<times> element_set) list \<Rightarrow> element_set \<Rightarrow> element_set \<Rightarrow> expr list \<Rightarrow> (expr \<times> element_set) list \<Rightarrow> bool" where
  "pass_done w closure closure' result new \<longleftrightarrow>
     covered closure \<subseteq> covered closure' \<and> set new \<subseteq> set w \<and>
     (\<forall>p\<in>set w. p \<in> set new \<or> fst p \<in> set result) \<and>
     (\<forall>c\<in>set result. \<exists>i. (c, i) \<in> set w \<and> covered i \<subseteq> covered closure')"

lemma pass_done_move:
  "pass_done w closure1 closure' result new \<Longrightarrow> covered closure \<union> covered i \<subseteq> covered closure1 \<Longrightarrow>
   pass_done ((c, i) # w) closure closure' (c # result) new"
  by (auto simp: pass_done_def)

lemma pass_done_keep:
  "pass_done w closure closure' result new \<Longrightarrow> pass_done ((c, i) # w) closure closure' result ((c, i) # new)"
  by (auto simp: pass_done_def)

lemma pass_done_trans:
  assumes "pass_done w closure closure1 result new" "pass_done new closure1 closure2 result' rest"
  shows "pass_done w closure closure2 (result @ result') rest"
proof -
  have c: "covered closure1 \<subseteq> covered closure2" "set new \<subseteq> set w" using assms by (auto simp: pass_done_def)
  have "\<exists>i. (c, i) \<in> set w \<and> covered i \<subseteq> covered closure2" if "c \<in> set result \<or> c \<in> set result'" for c
    using that assms c unfolding pass_done_def by (meson subset_trans subsetD)
  then show ?thesis using assms unfolding pass_done_def by auto
qed

lemma independent_pass_done:
  "independent_pass w closure = (closure', dn, result, new) \<Longrightarrow> pass_done w closure closure' result new"
proof (induction w closure arbitrary: closure' dn result new rule: independent_pass.induct)
  case (1 closure)
  then show ?case by (simp add: pass_done_def)
next
  case (2 c i w closure)
  show ?case
  proof (cases "es_intersects i closure")
    case True
    obtain m c1 where m: "es_add closure i = (m, c1)" by fastforce
    obtain c2 d r n where p: "independent_pass w c1 = (c2, d, r, n)" by (metis prod_cases4)
    show ?thesis
      using pass_done_move [OF 2(1) [OF True m [symmetric] p] add_covers(1) [OF m], of c] 2(3) True m p by simp
  next
    case False
    obtain c2 d r n where p: "independent_pass w closure = (c2, d, r, n)" by (metis prod_cases4)
    show ?thesis using pass_done_keep [OF 2(2) [OF False p], of c i] 2(3) False p by simp
  qed
qed

lemma independent_pass_stable:
  "independent_pass w closure = (closure', True, result, new) \<Longrightarrow>
     es_elements closure' = es_elements closure \<and> es_wholeObjects closure' = es_wholeObjects closure \<and>
     (\<forall>p\<in>set new. \<not> es_intersects (snd p) closure)"
proof (induction w closure arbitrary: closure' result new rule: independent_pass.induct)
  case (2 c i w closure)
  show ?case
  proof (cases "es_intersects i closure")
    case True
    obtain m c1 where m: "es_add closure i = (m, c1)" by fastforce
    obtain c2 d r n where p: "independent_pass w c1 = (c2, d, r, n)" by (metis prod_cases4)
    have d: "d" "\<not> m" "closure' = c2" "new = n" using 2(3) True m p by auto
    have "es_intersects j c1 = es_intersects j closure" for j using add_covers(2) [OF m d(2)] by (simp add: es_intersects_def)
    then show ?thesis using 2(1) [OF True m [symmetric]] p d add_covers(2) [OF m d(2)] by simp
  next
    case False
    obtain c2 d r n where p: "independent_pass w closure = (c2, d, r, n)" by (metis prod_cases4)
    then show ?thesis using 2(2,3) False by auto
  qed
qed simp

lemma independent_loop_separates:
  assumes "independent_loop w closure = (closure', result, rest)"
  shows "pass_done w closure closure' result rest \<and> (\<forall>p\<in>set rest. covered (snd p) \<inter> covered closure' = {})"
  using assms
proof (induction w closure arbitrary: closure' result rest rule: independent_loop.induct)
  case (1 w closure)
  obtain c1 dn r1 n1 where p: "independent_pass w closure = (c1, dn, r1, n1)" by (metis prod_cases4)
  show ?case
  proof (cases dn)
    case True
    then have e: "closure' = c1" "result = r1" "rest = n1" using 1(2) p by (simp_all add: independent_loop.simps)
    have "\<not> es_intersects (snd q) c1" if "q \<in> set n1" for q
      using independent_pass_stable [of w closure c1 r1 n1] p True that by (simp add: es_intersects_def)
    then show ?thesis using independent_pass_done [OF p] intersects_covered unfolding e by blast
  next
    case False
    obtain c2 r2 n2 where l: "independent_loop n1 c1 = (c2, r2, n2)" by (metis prod_cases3)
    then have e: "closure' = c2" "result = r1 @ r2" "rest = n2" using 1(2) p False by (simp_all add: independent_loop.simps [of w])
    show ?thesis using 1(1) [OF p [symmetric] refl refl False l] pass_done_trans [OF independent_pass_done [OF p]] unfolding e by blast
  qed
qed

subsection \<open>Independent constraints do not change the values\<close>

lemma those_map_Some:
  "(\<And>x. x \<in> set xs \<Longrightarrow> \<exists>y. f x = Some y) \<Longrightarrow> \<exists>ys. those (map f xs) = Some ys \<and> set ys = {y. \<exists>x\<in>set xs. f x = Some y}"
  by (induction xs) (auto, fastforce)

text \<open>
  The required constraints keep the values of the expression: a model of them and a model of all
  constraints join, the first on the elements of the closure and the second elsewhere.
\<close>

lemma required_query_values:
  assumes "query_ok cao q" "consistent q"
  obtains q' where "required_query q = Some q'" "q_expr q' = q_expr q" "set (q_constraints q') \<subseteq> set (q_constraints q)"
    "vals q' = vals q"
proof -
  have ts: "typed cao (q_expr q)" "\<And>c. c \<in> set (q_constraints q) \<Longrightarrow> typed cao c" using assms(1) by (auto simp: query_ok_def)
  obtain s0 where s0: "IndependentElementSet (q_expr q) = Some s0" using element_set_exists [OF ts(1)] .
  have "\<exists>y. map_option (Pair c) (IndependentElementSet c) = Some y" if "c \<in> set (q_constraints q)" for c
    using element_set_exists [OF ts(2) [OF that]] by (metis option.simps(9))
  then obtain w where w: "those (map (\<lambda>c. map_option (Pair c) (IndependentElementSet c)) (q_constraints q)) = Some w"
      "set w = {y. \<exists>c\<in>set (q_constraints q). map_option (Pair c) (IndependentElementSet c) = Some y}"
    using those_map_Some [of "q_constraints q" "\<lambda>c. map_option (Pair c) (IndependentElementSet c)"] by blast
  obtain closure required rest where l: "independent_loop w s0 = (closure, required, rest)" by (metis prod_cases3)
  note sep = independent_loop_separates [OF l]
  let ?q = "q\<lparr>q_constraints := required\<rparr>"
  have r: "required_query q = Some ?q" using s0 w(1) l by (simp add: required_query_def getIndependentConstraints_def)
  have w_iff: "(c, i) \<in> set w \<longleftrightarrow> c \<in> set (q_constraints q) \<and> IndependentElementSet c = Some i" for c i using w(2) by auto
  have sub: "set required \<subseteq> set (q_constraints q)" using sep w_iff by (auto simp: pass_done_def)
  have "eval env (q_expr q) \<in> vals q" if env: "models env required" for env
  proof -
    obtain env0 where env0: "models env0 (q_constraints q)" using assms(2) by (auto simp: consistent_def)
    define both where "both a j = (if (a, j) \<in> covered closure then env a j else env0 a j)" for a j
    have inside: "eval both e = eval env e" if "IndependentElementSet e = Some i" "covered i \<subseteq> covered closure" for e i
      using that by (intro eval_covered [OF that(1)]) (auto simp: both_def)
    have outside: "eval both e = eval env0 e" if "IndependentElementSet e = Some i" "covered i \<inter> covered closure = {}" for e i
      using that by (intro eval_covered [OF that(1)]) (auto simp: both_def)
    have "eval both c \<noteq> 0" if c: "c \<in> set (q_constraints q)" for c
    proof -
      obtain i where i: "IndependentElementSet c = Some i" using element_set_exists [OF ts(2) [OF c]] .
      consider "(c, i) \<in> set rest" | "c \<in> set required" using sep w_iff [of c i] c i by (auto simp: pass_done_def)
      then show ?thesis
      proof cases
        case 1
        then have "eval both c = eval env0 c" using sep by (intro outside [OF i]) fastforce
        then show ?thesis using env0 c by (simp add: models_def)
      next
        case 2
        then obtain j where "(c, j) \<in> set w" "covered j \<subseteq> covered closure" using sep by (auto simp: pass_done_def)
        then have "eval both c = eval env c" using w_iff by (intro inside) auto
        then show ?thesis using env 2 by (simp add: models_def)
      qed
    qed
    moreover have "eval both (q_expr q) = eval env (q_expr q)" using sep by (intro inside [OF s0]) (simp add: pass_done_def)
    ultimately have "models both (q_constraints q) \<and> eval env (q_expr q) = eval both (q_expr q)" by (simp add: models_def)
    then show ?thesis unfolding vals_def by blast
  qed
  moreover have "models env required" if "models env (q_constraints q)" for env using that sub by (auto simp: models_def)
  ultimately have "vals ?q = vals q" by (auto simp: vals_def)
  then show thesis using that [OF r] sub by simp
qed

lemma meaning_vals:
  "must q \<longleftrightarrow> 0 \<notin> vals q" "must_not q \<longleftrightarrow> vals q \<subseteq> {0}" "consistent q \<longleftrightarrow> vals q \<noteq> {}"
  "right_value q e \<longleftrightarrow> (\<exists>v\<in>vals q. e = ConstantExpr (getWidth (q_expr q)) v)"
  by (auto simp: must_def must_not_def consistent_def right_value_def vals_def)

lemma required_query_ok:
  assumes "query_ok cao q" "consistent q"
  obtains q' where "required_query q = Some q'" "query_ok cao q'" "consistent q'" "must q' = must q" "validity_of q' = validity_of q"
    "right_value q' = right_value q" "getWidth (q_expr q') = getWidth (q_expr q)"
proof -
  obtain q' where q': "required_query q = Some q'" "q_expr q' = q_expr q" "set (q_constraints q') \<subseteq> set (q_constraints q)"
      "vals q' = vals q" using required_query_values [OF assms] .
  have "query_ok cao q'" using assms(1) q'(2,3) by (auto simp: query_ok_def)
  moreover have "consistent q'" "must q' = must q" "must_not q' = must_not q" "right_value q' = right_value q"
    using assms(2) q'(2,4) by (simp_all add: meaning_vals fun_eq_iff)
  ultimately show thesis using that [OF q'(1)] q'(2) by (simp add: validity_of_def)
qed

text \<open>
  C14. Constraint independence is sound. On top of a solver that keeps its contract, \<open>IndependentSolver\<close>
  answers queries about validity, truth and values rightly for all the constraints of the query, although it
  passes on only those that its closure requires.
\<close>

theorem IndependentSolver_correct:
  assumes "solver cao impl good" "good s" "query_ok cao q" "consistent q"
  shows "answers good (right_value q) (independent_computeValue impl q s) \<and>
    (getWidth (q_expr q) = 1 \<longrightarrow>
       answers good (\<lambda>b. b = must q) (independent_computeTruth impl q s) \<and>
       answers good (\<lambda>v. v = validity_of q) (independent_computeValidity impl q s))"
proof -
  obtain q' where q': "required_query q = Some q'" "query_ok cao q'" "consistent q'" "must q' = must q" "validity_of q' = validity_of q"
      "right_value q' = right_value q" "getWidth (q_expr q') = getWidth (q_expr q)"
    using required_query_ok [OF assms(3,4)] .
  show ?thesis
    using solver.computed_value [OF assms(1,2) q'(2,3)] solver.truth [OF assms(1,2) _ q'(3)] solver.validity [OF assms(1,2) _ q'(3)] q'
    by (simp add: independent_computeValue_def independent_computeTruth_def independent_computeValidity_def bool_query_def)
qed

text \<open>A byte read at offset 0 of an array, compared with a constant; two arrays, one constraint on each.\<close>

definition byte_is :: "nat \<Rightarrow> int \<Rightarrow> expr" where
  "byte_is p v = BinaryExpr Eq (ConstantExpr 8 v) (ReadExpr (byte_array p) [] (ConstantExpr 32 0))"

definition two_arrays :: query where
  "two_arrays = \<lparr>q_constraints = [byte_is 1 7, byte_is 0 5], q_expr = byte_is 0 5\<rparr>"

lemma two_arrays_ok: "query_ok cao two_arrays" "consistent two_arrays" "getWidth (q_expr two_arrays) = 1"
proof -
  have "models (\<lambda>a _. if array_ptr a = 0 then 5 else 7) (q_constraints two_arrays)"
    by (simp add: two_arrays_def byte_is_def models_def constant_binary_def initial_value_def byte_array_def isSymbolicArray_def take_bit_eq_mod)
  then show "consistent two_arrays" by (auto simp: consistent_def)
  show "query_ok cao two_arrays" "getWidth (q_expr two_arrays) = 1"
    by (auto simp: two_arrays_def byte_is_def query_ok_def typed_def byte_array_def array_ok_def is_compare_def in_width_def isSymbolicArray_def)
qed

theorem IndependentSolver_correct_witness:
  "must two_arrays \<and> answers (\<lambda>_. True) (\<lambda>b. b = must two_arrays) (independent_computeTruth ideal_solver two_arrays ())"
  using IndependentSolver_correct [OF ideal.solver_axioms TrueI two_arrays_ok(1,2), of "()"] two_arrays_ok(3)
  by (simp add: must_def models_def two_arrays_def)

subsection \<open>The solvers stacked\<close>

text \<open>
  The order of \<open>constructSolverChain\<close>: constraint independence on top of the branch cache on top of a core
  solver. A sequence of questions, each answered in the state that the one before has left.
\<close>

fun ask_all :: "'s solver_impl \<Rightarrow> query list \<Rightarrow> 's \<Rightarrow> (bool option list \<times> 's) option" where
  "ask_all impl [] s = Some ([], s)"
| "ask_all impl (q # qs) s = do {
     (r, s') \<leftarrow> independent_computeTruth impl q s;
     (rs, s'') \<leftarrow> ask_all impl qs s';
     Some (r # rs, s'') }"

lemma ask_all_right:
  assumes "solver cao impl good" "good s" "\<forall>q\<in>set qs. bool_query cao q \<and> consistent q"
  shows "\<exists>rs s'. ask_all impl qs s = Some (rs, s') \<and> list_all2 (\<lambda>q r. r = None \<or> r = Some (must q)) qs rs"
  using assms(2,3)
proof (induction qs arbitrary: s)
  case (Cons q qs)
  then have q: "query_ok cao q" "consistent q" by (auto simp: bool_query_def)
  obtain q' where q': "required_query q = Some q'" "query_ok cao q'" "consistent q'" "must q' = must q"
      "getWidth (q_expr q') = getWidth (q_expr q)" using required_query_ok [OF q] by metis
  have "bool_query cao q'" using q' Cons.prems(2) by (simp add: bool_query_def)
  from solver.truth [OF assms(1) Cons.prems(1) this q'(3)]
  obtain r s1 where "si_computeTruth impl q' s = Some (r, s1)" "good s1" "\<forall>x. r = Some x \<longrightarrow> x = must q"
    unfolding answers_def q'(4) by blast
  then have "independent_computeTruth impl q s = Some (r, s1)" "good s1" "r = None \<or> r = Some (must q)"
    using q'(1) by (cases r; simp add: independent_computeTruth_def)+
  then show ?case using Cons.IH [of s1] Cons.prems(2) by auto
qed simp

text \<open>
  C13. The stacked solvers answer every sequence of truth queries rightly: however the branch cache has been
  filled by the queries before, each answer is the truth of its query under all its constraints, or
  the failure of the core solver.
\<close>

theorem solver_chain_correct:
  assumes "solver cao core good" "good s" "\<forall>q\<in>set qs. bool_query cao q \<and> consistent q"
  shows "\<exists>rs st. ask_all (CachingSolver cao wide core) qs (s, Map.empty) = Some (rs, st) \<and>
           list_all2 (\<lambda>q r. r = None \<or> r = Some (must q)) qs rs"
proof -
  have "solver cao (CachingSolver cao wide core) (\<lambda>(s, c). good s \<and> cache_ok cao c)"
    using caching_solver.cached_solver [of cao core good wide] assms(1) by (simp add: caching_solver_def)
  then show ?thesis by (rule ask_all_right) (use assms(2,3) in \<open>auto simp: cache_ok_def\<close>)
qed

theorem solver_chain_correct_witness:
  "\<exists>rs st. ask_all (CachingSolver False (\<lambda>_ _. 0) ideal_solver) [two_arrays, two_arrays] ((), Map.empty) = Some (rs, st) \<and>
     list_all2 (\<lambda>q r. r = None \<or> r = Some (must q)) [two_arrays, two_arrays] rs"
  using solver_chain_correct [OF ideal.solver_axioms TrueI, of "[two_arrays, two_arrays]" False "\<lambda>_ _. 0" "()"] two_arrays_ok
  by (simp add: bool_query_def)

end
