(* ===== verification/ObjectState.thy ===== *)
theory ObjectState
  imports Expr_Sound Bits_Arith
begin

unbundle bit_operations_syntax

declare One_nat_def [simp del]

section \<open>The contents of memory objects\<close>

text \<open>
  \<open>ObjectState\<close> (\<open>klee/lib/Core/Memory.cpp\<close>): the bytes of one memory object. A byte is concrete, or has a known
  symbolic value, or is read through the list of updates of an array; a byte of the first two kinds is flushed
  when the list of updates has its value as well. \<open>None\<close> is a failed assertion or an access outside the arrays of
  the object. The address and the name of an array that the array cache creates, the endianness of the target
  (\<open>Context::isLittleEndian\<close>) and the option \<open>UseConstantArrays\<close> are arguments. The methods declared
  \<open>const\<close> change the masks and the updates, which are mutable, and return the object.
\<close>

subsection \<open>Data and flags\<close>

record object_state =
  copyOnWriteOwner :: "32 word"
  concreteStore :: "8 word list"
  concreteMask :: "bool list option"
  knownSymbolics :: "expr option list option"
  unflushedMask :: "bool list option"
  upd_root :: "array option"
  upd_head :: "(expr \<times> expr) list"
  os_size :: nat
  os_readOnly :: bool

definition isByteConcrete :: "object_state \<Rightarrow> nat \<Rightarrow> bool" where
  "isByteConcrete os offset = (case concreteMask os of None \<Rightarrow> True | Some m \<Rightarrow> m ! offset)"

definition isByteUnflushed :: "object_state \<Rightarrow> nat \<Rightarrow> bool" where
  "isByteUnflushed os offset = (case unflushedMask os of None \<Rightarrow> True | Some m \<Rightarrow> m ! offset)"

text \<open>\<open>knownSymbolics[offset]\<close>; \<open>isByteKnownSymbolic\<close> asks whether there is one.\<close>

definition knownSymbolic :: "object_state \<Rightarrow> nat \<Rightarrow> expr option" where
  "knownSymbolic os offset = (case knownSymbolics os of None \<Rightarrow> None | Some k \<Rightarrow> k ! offset)"

definition isByteKnownSymbolic :: "object_state \<Rightarrow> nat \<Rightarrow> bool" where
  "isByteKnownSymbolic os offset \<longleftrightarrow> knownSymbolic os offset \<noteq> None"

definition markByteConcrete :: "nat \<Rightarrow> object_state \<Rightarrow> object_state" where
  "markByteConcrete offset os =
     (case concreteMask os of None \<Rightarrow> os | Some m \<Rightarrow> os\<lparr>concreteMask := Some (m[offset := True])\<rparr>)"

definition markByteSymbolic :: "nat \<Rightarrow> object_state \<Rightarrow> object_state" where
  "markByteSymbolic offset os =
     os\<lparr>concreteMask := Some ((case concreteMask os of None \<Rightarrow> replicate (os_size os) True | Some m \<Rightarrow> m)[offset := False])\<rparr>"

definition markByteUnflushed :: "nat \<Rightarrow> object_state \<Rightarrow> object_state" where
  "markByteUnflushed offset os =
     (case unflushedMask os of None \<Rightarrow> os | Some m \<Rightarrow> os\<lparr>unflushedMask := Some (m[offset := True])\<rparr>)"

definition markByteFlushed :: "nat \<Rightarrow> object_state \<Rightarrow> object_state" where
  "markByteFlushed offset os =
     os\<lparr>unflushedMask := Some (case unflushedMask os of None \<Rightarrow> replicate (os_size os) False | Some m \<Rightarrow> m[offset := False])\<rparr>"

definition setKnownSymbolic :: "nat \<Rightarrow> expr option \<Rightarrow> object_state \<Rightarrow> object_state" where
  "setKnownSymbolic offset v os =
     (case knownSymbolics os of
        Some k \<Rightarrow> os\<lparr>knownSymbolics := Some (k[offset := v])\<rparr>
      | None \<Rightarrow> if v = None then os else os\<lparr>knownSymbolics := Some ((replicate (os_size os) None)[offset := v])\<rparr>)"

subsection \<open>Construction\<close>

definition makeConcrete :: "object_state \<Rightarrow> object_state" where
  "makeConcrete os = os\<lparr>concreteMask := None, unflushedMask := None, knownSymbolics := None\<rparr>"

definition makeSymbolic :: "object_state \<Rightarrow> object_state option" where
  "makeSymbolic os =
     (if upd_head os \<noteq> [] then None
      else Some (fold (\<lambda>i. markByteFlushed i \<circ> setKnownSymbolic i None \<circ> markByteSymbolic i) [0..<os_size os] os))"

definition initializeToZero :: "object_state \<Rightarrow> object_state" where
  "initializeToZero os = (makeConcrete os)\<lparr>concreteStore := replicate (os_size os) 0\<rparr>"

definition initializeToRandom :: "object_state \<Rightarrow> object_state" where
  "initializeToRandom os = (makeConcrete os)\<lparr>concreteStore := replicate (os_size os) 0xAB\<rparr>"

text \<open>The constructor with concrete contents, the one with symbolic contents, and the copy.\<close>

definition new_concrete :: "bool \<Rightarrow> array \<Rightarrow> nat \<Rightarrow> object_state" where
  "new_concrete useConstantArrays tmp_arr sz =
     \<lparr>copyOnWriteOwner = 0, concreteStore = replicate sz 0, concreteMask = None, knownSymbolics = None, unflushedMask = None,
      upd_root = (if useConstantArrays then None else Some tmp_arr), upd_head = [], os_size = sz, os_readOnly = False\<rparr>"

definition new_symbolic :: "array \<Rightarrow> nat \<Rightarrow> object_state option" where
  "new_symbolic array sz =
     map_option (\<lambda>os. os\<lparr>concreteStore := replicate sz 0\<rparr>)
       (makeSymbolic \<lparr>copyOnWriteOwner = 0, concreteStore = replicate sz 0, concreteMask = None, knownSymbolics = None, unflushedMask = None,
          upd_root = Some array, upd_head = [], os_size = sz, os_readOnly = False\<rparr>)"

definition copy_object :: "object_state \<Rightarrow> object_state option" where
  "copy_object os = (if os_readOnly os then None else Some (os\<lparr>copyOnWriteOwner := 0\<rparr>))"

subsection \<open>Updates\<close>

text \<open>\<open>UpdateList::extend\<close>.\<close>

definition extend :: "expr \<Rightarrow> expr \<Rightarrow> object_state \<Rightarrow> object_state option" where
  "extend index v os =
     (case upd_root os of
        Some arr \<Rightarrow>
          if array_domain arr = getWidth index \<and> array_range arr = getWidth v
          then Some (os\<lparr>upd_head := (index, v) # upd_head os\<rparr>) else None
      | None \<Rightarrow> Some (os\<lparr>upd_head := (index, v) # upd_head os\<rparr>))"

text \<open>The concrete writes that go into a constant array, oldest first, and the writes that are left.\<close>

fun pull_writes :: "(expr \<times> expr) list \<Rightarrow> int list \<Rightarrow> (int list \<times> (expr \<times> expr) list) option" where
  "pull_writes [] contents = Some (contents, [])"
| "pull_writes ((i, v) # writes) contents =
     (case (as_constant i, as_constant v) of
        (Some (wi, index), Some (wv, val)) \<Rightarrow>
          if wi \<le> 64 \<and> nat index < length contents then pull_writes writes (contents[nat index := val]) else None
      | _ \<Rightarrow> Some (contents, (i, v) # writes))"

definition const_array :: "nat \<times> string \<Rightarrow> int list \<Rightarrow> array" where
  "const_array new contents =
     \<lparr>array_ptr = fst new, array_name = snd new, array_size = length contents, array_domain = 32, array_range = 8,
      constantValues = contents\<rparr>"

definition getUpdates :: "nat \<times> string \<Rightarrow> object_state \<Rightarrow> object_state option" where
  "getUpdates new os =
     (case upd_root os of
        Some arr \<Rightarrow> Some os
      | None \<Rightarrow>
          if os_size os = 0 then None
          else do {
            (contents, rest) \<leftarrow> pull_writes (rev (upd_head os)) (replicate (os_size os) 0);
            foldM (\<lambda>(i, v). extend i v) rest (os\<lparr>upd_root := Some (const_array new contents), upd_head := []\<rparr>) })"

definition flush_for_read :: "nat \<Rightarrow> object_state \<Rightarrow> object_state option" where
  "flush_for_read offset os =
     (if isByteUnflushed os offset
      then do {
        v \<leftarrow> (if isByteConcrete os offset then Some (ConstantExpr 8 (uint (concreteStore os ! offset))) else knownSymbolic os offset);
        os' \<leftarrow> extend (ConstantExpr 32 (int offset)) v os;
        Some (markByteFlushed offset os') }
      else Some os)"

definition with_unflushedMask :: "object_state \<Rightarrow> object_state" where
  "with_unflushedMask os = (case unflushedMask os of None \<Rightarrow> os\<lparr>unflushedMask := Some (replicate (os_size os) True)\<rparr> | Some _ \<Rightarrow> os)"

definition flushRangeForRead :: "nat \<Rightarrow> nat \<Rightarrow> object_state \<Rightarrow> object_state option" where
  "flushRangeForRead base sz os = foldM flush_for_read [base..<base + sz] (with_unflushedMask os)"

definition flush_for_write :: "nat \<Rightarrow> object_state \<Rightarrow> object_state option" where
  "flush_for_write offset os =
     (if isByteUnflushed os offset
      then if isByteConcrete os offset
        then do {
          os' \<leftarrow> extend (ConstantExpr 32 (int offset)) (ConstantExpr 8 (uint (concreteStore os ! offset))) os;
          Some (markByteFlushed offset (markByteSymbolic offset os')) }
        else do {
          v \<leftarrow> knownSymbolic os offset;
          os' \<leftarrow> extend (ConstantExpr 32 (int offset)) v os;
          Some (markByteFlushed offset (setKnownSymbolic offset None os')) }
      else Some (if isByteConcrete os offset then markByteSymbolic offset os
                 else if isByteKnownSymbolic os offset then setKnownSymbolic offset None os else os))"

definition flushRangeForWrite :: "nat \<Rightarrow> nat \<Rightarrow> object_state \<Rightarrow> object_state option" where
  "flushRangeForWrite base sz os = foldM flush_for_write [base..<base + sz] (with_unflushedMask os)"

subsection \<open>Reading and writing bytes\<close>

definition read8 :: "bool \<Rightarrow> nat \<times> string \<Rightarrow> nat \<Rightarrow> object_state \<Rightarrow> (expr \<times> object_state) option" where
  "read8 cao new offset os =
     (if os_size os \<le> offset then None
      else if isByteConcrete os offset then Some (ConstantExpr 8 (uint (concreteStore os ! offset)), os)
      else case knownSymbolic os offset of
        Some e \<Rightarrow> Some (e, os)
      | None \<Rightarrow>
          if isByteUnflushed os offset then None
          else do {
            os' \<leftarrow> getUpdates new os;
            arr \<leftarrow> upd_root os';
            e \<leftarrow> ReadExpr_create cao arr (upd_head os') (ConstantExpr 32 (int offset));
            Some (e, os') })"

definition read8_symbolic :: "bool \<Rightarrow> nat \<times> string \<Rightarrow> expr \<Rightarrow> object_state \<Rightarrow> (expr \<times> object_state) option" where
  "read8_symbolic cao new offset os =
     (if isConstant offset then None
      else do {
        os1 \<leftarrow> flushRangeForRead 0 (os_size os) os;
        os2 \<leftarrow> getUpdates new os1;
        arr \<leftarrow> upd_root os2;
        index \<leftarrow> ZExtExpr_create offset 32;
        e \<leftarrow> ReadExpr_create cao arr (upd_head os2) index;
        Some (e, os2) })"

definition write8_concrete :: "nat \<Rightarrow> 8 word \<Rightarrow> object_state \<Rightarrow> object_state option" where
  "write8_concrete offset v os =
     (if os_size os \<le> offset then None
      else Some (markByteUnflushed offset (markByteConcrete offset (setKnownSymbolic offset None
             (os\<lparr>concreteStore := (concreteStore os)[offset := v]\<rparr>)))))"

definition write8 :: "nat \<Rightarrow> expr \<Rightarrow> object_state \<Rightarrow> object_state option" where
  "write8 offset v os =
     (case as_constant v of
        Some (w, k) \<Rightarrow> if w \<le> 8 then write8_concrete offset (word_of_int k) os else None
      | None \<Rightarrow>
          if os_size os \<le> offset then None
          else Some (markByteUnflushed offset (markByteSymbolic offset (setKnownSymbolic offset (Some v) os))))"

definition write8_symbolic :: "expr \<Rightarrow> expr \<Rightarrow> object_state \<Rightarrow> object_state option" where
  "write8_symbolic offset v os =
     (if isConstant offset then None
      else do {
        os1 \<leftarrow> flushRangeForWrite 0 (os_size os) os;
        index \<leftarrow> ZExtExpr_create offset 32;
        extend index v os1 })"

subsection \<open>Reading and writing values\<close>

definition byte_index :: "bool \<Rightarrow> nat \<Rightarrow> nat \<Rightarrow> nat" where
  "byte_index le n i = (if le then i else n - i - 1)"

text \<open>The loop of both \<open>read\<close>s: the byte read in round \<open>i\<close> goes in front of the result so far.\<close>

fun read_bytes :: "(nat \<Rightarrow> object_state \<Rightarrow> (expr \<times> object_state) option) \<Rightarrow> nat list \<Rightarrow> expr option \<Rightarrow> object_state \<Rightarrow>
    (expr \<times> object_state) option" where
  "read_bytes read_byte [] res os = map_option (\<lambda>e. (e, os)) res"
| "read_bytes read_byte (i # is) res os = do {
     (b, os') \<leftarrow> read_byte i os;
     r \<leftarrow> (case res of None \<Rightarrow> Some b | Some r0 \<Rightarrow> ConcatExpr_create b r0);
     read_bytes read_byte is (Some r) os' }"

definition read_width :: "nat \<Rightarrow> (nat \<Rightarrow> nat \<Rightarrow> object_state \<Rightarrow> (expr \<times> object_state) option) \<Rightarrow> object_state \<Rightarrow> (expr \<times> object_state) option" where
  "read_width width read_byte os =
     (if width = 1 then do { (b, os') \<leftarrow> read_byte 1 0 os; e \<leftarrow> ExtractExpr_create b 0 1; Some (e, os') }
      else if width \<noteq> width div 8 * 8 then None
      else read_bytes (read_byte (width div 8)) [0..<width div 8] None os)"

definition read_const :: "bool \<Rightarrow> bool \<Rightarrow> nat \<times> string \<Rightarrow> nat \<Rightarrow> width \<Rightarrow> object_state \<Rightarrow> (expr \<times> object_state) option" where
  "read_const cao le new offset width =
     read_width width (\<lambda>n i. read8 cao new ((offset + byte_index le n i) mod 2 ^ 32))"

definition read_expr :: "bool \<Rightarrow> bool \<Rightarrow> nat \<times> string \<Rightarrow> expr \<Rightarrow> width \<Rightarrow> object_state \<Rightarrow> (expr \<times> object_state) option" where
  "read_expr cao le new offset width os = do {
     off \<leftarrow> ZExtExpr_create offset 32;
     (case as_constant off of
        Some (w, v) \<Rightarrow> read_const cao le new (nat v) width os
      | None \<Rightarrow>
          if width = 1 then do { (b, os') \<leftarrow> read8_symbolic cao new off os; e \<leftarrow> ExtractExpr_create b 0 1; Some (e, os') }
          else read_width width (\<lambda>n i os. do {
            a \<leftarrow> AddExpr_create cao off (ConstantExpr 32 (int (byte_index le n i)));
            read8_symbolic cao new a os }) os) }"

text \<open>\<open>write16\<close>, \<open>write32\<close>, \<open>write64\<close>: \<open>n\<close> bytes of a number.\<close>

definition write_number :: "bool \<Rightarrow> nat \<Rightarrow> nat \<Rightarrow> int \<Rightarrow> object_state \<Rightarrow> object_state option" where
  "write_number le n offset v =
     foldM (\<lambda>i. write8_concrete ((offset + byte_index le n i) mod 2 ^ 32) (word_of_int (drop_bit (8 * i) v))) [0..<n]"

text \<open>The general case of both \<open>write\<close>s, with the function that writes a byte.\<close>

definition write_bytes :: "(nat \<Rightarrow> nat \<Rightarrow> expr \<Rightarrow> object_state \<Rightarrow> object_state option) \<Rightarrow> expr \<Rightarrow> object_state \<Rightarrow> object_state option" where
  "write_bytes write_byte v os =
     (if getWidth v = 1 then do { b \<leftarrow> ZExtExpr_create v 8; write_byte 1 0 b os }
      else if getWidth v \<noteq> getWidth v div 8 * 8 then None
      else foldM (\<lambda>i os. do { b \<leftarrow> ExtractExpr_create v (8 * i) 8; write_byte (getWidth v div 8) i b os }) [0..<getWidth v div 8] os)"

definition write_const :: "bool \<Rightarrow> nat \<Rightarrow> expr \<Rightarrow> object_state \<Rightarrow> object_state option" where
  "write_const le offset v os =
     (case as_constant v of
        Some (w, k) \<Rightarrow>
          if w \<le> 64 \<and> isPowerOfTwo (of_nat w)
          then if w \<in> {1, 8} then write8_concrete offset (word_of_int k) os
            else if w \<in> {16, 32, 64} then write_number le (w div 8) offset k os
            else None
          else write_bytes (\<lambda>n i. write8 ((offset + byte_index le n i) mod 2 ^ 32)) v os
      | None \<Rightarrow> write_bytes (\<lambda>n i. write8 ((offset + byte_index le n i) mod 2 ^ 32)) v os)"

definition write_expr :: "bool \<Rightarrow> bool \<Rightarrow> expr \<Rightarrow> expr \<Rightarrow> object_state \<Rightarrow> object_state option" where
  "write_expr cao le offset v os = do {
     off \<leftarrow> ZExtExpr_create offset 32;
     (case as_constant off of
        Some (w, k) \<Rightarrow> write_const le (nat k) v os
      | None \<Rightarrow>
          if getWidth v = 1 then do { b \<leftarrow> ZExtExpr_create v 8; write8_symbolic off b os }
          else write_bytes (\<lambda>n i b os. do {
            a \<leftarrow> AddExpr_create cao off (ConstantExpr 32 (int (byte_index le n i)));
            write8_symbolic a b os }) v os) }"

text \<open>
  \<open>flushToConcreteStore\<close>: the value that the solver gives for a symbolic byte, \<open>None\<close> when it times out.
\<close>

definition flushToConcreteStore :: "(expr \<Rightarrow> int option) \<Rightarrow> object_state \<Rightarrow> object_state" where
  "flushToConcreteStore getValue os =
     fold (\<lambda>i s. case knownSymbolic s i of
         None \<Rightarrow> s
       | Some e \<Rightarrow>
           (case getValue (if isByteConcrete s i then ConstantExpr 8 (uint (concreteStore s ! i)) else e) of
              None \<Rightarrow> s
            | Some v \<Rightarrow> s\<lparr>concreteStore := (concreteStore s)[i := word_of_int v]\<rparr>)) [0..<os_size os] os"

subsection \<open>The bytes of an object\<close>

text \<open>The value of a byte through the updates, and the value of a byte.\<close>

definition upd_value :: "assignment \<Rightarrow> object_state \<Rightarrow> nat \<Rightarrow> int" where
  "upd_value env os j =
     read_value (update_values env (upd_head os)) (int j)
       (case upd_root os of None \<Rightarrow> 0 | Some arr \<Rightarrow> initial_value env arr (int j))"

definition os_byte :: "assignment \<Rightarrow> object_state \<Rightarrow> nat \<Rightarrow> int" where
  "os_byte env os j =
     (if isByteConcrete os j then uint (concreteStore os ! j)
      else case knownSymbolic os j of Some e \<Rightarrow> eval env e | None \<Rightarrow> upd_value env os j)"

text \<open>The arrays of the object have its size.\<close>

definition os_shape :: "object_state \<Rightarrow> bool" where
  "os_shape os \<longleftrightarrow> length (concreteStore os) = os_size os \<and> os_size os < 2 ^ 32 \<and>
     (\<forall>m. concreteMask os = Some m \<longrightarrow> length m = os_size os) \<and>
     (\<forall>k. knownSymbolics os = Some k \<longrightarrow> length k = os_size os) \<and>
     (\<forall>m. unflushedMask os = Some m \<longrightarrow> length m = os_size os)"

definition typed_updates :: "bool \<Rightarrow> assignment \<Rightarrow> (expr \<times> expr) list \<Rightarrow> bool" where
  "typed_updates cao env us \<longleftrightarrow>
     list_all (\<lambda>(x, y). well_typed cao env x \<and> getWidth x = 32 \<and> well_typed cao env y \<and> getWidth y = 8) us"

text \<open>
  The updates: an array of the size of the object, or none yet, and then constant indices lie in the object.
\<close>

definition updates_ok :: "bool \<Rightarrow> assignment \<Rightarrow> object_state \<Rightarrow> bool" where
  "updates_ok cao env os \<longleftrightarrow> typed_updates cao env (upd_head os) \<and>
     (case upd_root os of
        Some arr \<Rightarrow> array_ok arr \<and> array_domain arr = 32 \<and> array_range arr = 8 \<and> array_size arr = os_size os
      | None \<Rightarrow> list_all (\<lambda>(x, y). \<forall>w v. x = ConstantExpr w v \<longrightarrow> nat v < os_size os) (upd_head os))"

text \<open>
  The cache invariants of the source, for one byte, and that a flushed byte has its value in the updates.
\<close>

definition byte_ok :: "bool \<Rightarrow> assignment \<Rightarrow> object_state \<Rightarrow> nat \<Rightarrow> bool" where
  "byte_ok cao env os j \<longleftrightarrow>
     (\<forall>e. knownSymbolic os j = Some e \<longrightarrow> \<not> isByteConcrete os j \<and> well_typed cao env e \<and> getWidth e = 8) \<and>
     (isByteUnflushed os j \<longrightarrow> isByteConcrete os j \<or> isByteKnownSymbolic os j) \<and>
     (\<not> isByteUnflushed os j \<longrightarrow> os_byte env os j = upd_value env os j)"

definition os_inv :: "bool \<Rightarrow> assignment \<Rightarrow> object_state \<Rightarrow> bool" where
  "os_inv cao env os \<longleftrightarrow> os_shape os \<and> updates_ok cao env os \<and> (\<forall>j<os_size os. byte_ok cao env os j)"

lemmas os_flags = isByteConcrete_def isByteUnflushed_def knownSymbolic_def
  markByteConcrete_def markByteSymbolic_def markByteUnflushed_def markByteFlushed_def setKnownSymbolic_def with_unflushedMask_def

text \<open>What the operations on the flags change, and what they leave alone.\<close>

lemma flag_frame [simp]:
  "isByteUnflushed (markByteConcrete i os) = isByteUnflushed os" "knownSymbolic (markByteConcrete i os) = knownSymbolic os"
  "isByteUnflushed (markByteSymbolic i os) = isByteUnflushed os" "knownSymbolic (markByteSymbolic i os) = knownSymbolic os"
  "isByteConcrete (markByteUnflushed i os) = isByteConcrete os" "knownSymbolic (markByteUnflushed i os) = knownSymbolic os"
  "isByteConcrete (markByteFlushed i os) = isByteConcrete os" "knownSymbolic (markByteFlushed i os) = knownSymbolic os"
  "isByteConcrete (setKnownSymbolic i v os) = isByteConcrete os" "isByteUnflushed (setKnownSymbolic i v os) = isByteUnflushed os"
  "isByteConcrete (with_unflushedMask os) = isByteConcrete os" "knownSymbolic (with_unflushedMask os) = knownSymbolic os"
  by (auto simp: os_flags fun_eq_iff split: option.split)

lemma flag_fields [simp]:
  "concreteStore (markByteConcrete i os) = concreteStore os" "upd_root (markByteConcrete i os) = upd_root os" "upd_head (markByteConcrete i os) = upd_head os" "os_size (markByteConcrete i os) = os_size os"
  "concreteStore (markByteSymbolic i os) = concreteStore os" "upd_root (markByteSymbolic i os) = upd_root os" "upd_head (markByteSymbolic i os) = upd_head os" "os_size (markByteSymbolic i os) = os_size os"
  "concreteStore (markByteUnflushed i os) = concreteStore os" "upd_root (markByteUnflushed i os) = upd_root os" "upd_head (markByteUnflushed i os) = upd_head os" "os_size (markByteUnflushed i os) = os_size os"
  "concreteStore (markByteFlushed i os) = concreteStore os" "upd_root (markByteFlushed i os) = upd_root os" "upd_head (markByteFlushed i os) = upd_head os" "os_size (markByteFlushed i os) = os_size os"
  "concreteStore (setKnownSymbolic i v os) = concreteStore os" "upd_root (setKnownSymbolic i v os) = upd_root os" "upd_head (setKnownSymbolic i v os) = upd_head os" "os_size (setKnownSymbolic i v os) = os_size os"
  "concreteStore (with_unflushedMask os) = concreteStore os" "upd_root (with_unflushedMask os) = upd_root os" "upd_head (with_unflushedMask os) = upd_head os" "os_size (with_unflushedMask os) = os_size os"
  by (auto simp: os_flags split: option.split)

lemma upd_frame [simp]:
  "isByteConcrete (os\<lparr>upd_head := h\<rparr>) = isByteConcrete os" "isByteUnflushed (os\<lparr>upd_head := h\<rparr>) = isByteUnflushed os"
  "knownSymbolic (os\<lparr>upd_head := h\<rparr>) = knownSymbolic os"
  "isByteConcrete (os\<lparr>upd_root := r\<rparr>) = isByteConcrete os" "isByteUnflushed (os\<lparr>upd_root := r\<rparr>) = isByteUnflushed os"
  "knownSymbolic (os\<lparr>upd_root := r\<rparr>) = knownSymbolic os"
  "isByteConcrete (os\<lparr>concreteStore := c\<rparr>) = isByteConcrete os" "isByteUnflushed (os\<lparr>concreteStore := c\<rparr>) = isByteUnflushed os"
  "knownSymbolic (os\<lparr>concreteStore := c\<rparr>) = knownSymbolic os"
  by (auto simp: os_flags fun_eq_iff)

lemma flag_effect:
  assumes "os_shape os" "i < os_size os" "j < os_size os"
  shows "isByteConcrete (markByteConcrete i os) j \<longleftrightarrow> j = i \<or> isByteConcrete os j"
    "isByteConcrete (markByteSymbolic i os) j \<longleftrightarrow> j \<noteq> i \<and> isByteConcrete os j"
    "isByteUnflushed (markByteUnflushed i os) j \<longleftrightarrow> j = i \<or> isByteUnflushed os j"
    "unflushedMask os \<noteq> None \<Longrightarrow> isByteUnflushed (markByteFlushed i os) j \<longleftrightarrow> j \<noteq> i \<and> isByteUnflushed os j"
    "knownSymbolic (setKnownSymbolic i v os) j = (if j = i then v else knownSymbolic os j)"
    "isByteUnflushed (with_unflushedMask os) j = isByteUnflushed os j"
  using assms by (auto simp: os_flags os_shape_def nth_list_update split: option.split)

lemma flag_shape:
  assumes "os_shape os"
  shows "os_shape (markByteConcrete i os)"
    "os_shape (markByteSymbolic i os)"
    "os_shape (markByteUnflushed i os)"
    "os_shape (markByteFlushed i os)"
    "os_shape (setKnownSymbolic i v os)"
    "os_shape (with_unflushedMask os)"
  using assms by (auto simp: os_flags os_shape_def split: option.splits if_splits)

lemma upd_value_flags [simp]:
  "upd_value env (markByteConcrete i os) = upd_value env os"
  "upd_value env (markByteSymbolic i os) = upd_value env os"
  "upd_value env (markByteUnflushed i os) = upd_value env os"
  "upd_value env (markByteFlushed i os) = upd_value env os"
  "upd_value env (setKnownSymbolic i v os) = upd_value env os"
  "upd_value env (with_unflushedMask os) = upd_value env os"
  by (simp_all add: upd_value_def fun_eq_iff)

lemma updates_ok_cong:
  "upd_root os' = upd_root os \<Longrightarrow> upd_head os' = upd_head os \<Longrightarrow> os_size os' = os_size os \<Longrightarrow> updates_ok cao env os' = updates_ok cao env os"
  by (cases "upd_root os") (simp_all add: updates_ok_def)

lemma updates_ok_flags [simp]:
  "updates_ok cao env (markByteConcrete i os) = updates_ok cao env os"
  "updates_ok cao env (markByteSymbolic i os) = updates_ok cao env os"
  "updates_ok cao env (markByteUnflushed i os) = updates_ok cao env os"
  "updates_ok cao env (markByteFlushed i os) = updates_ok cao env os"
  "updates_ok cao env (setKnownSymbolic i v os) = updates_ok cao env os"
  "updates_ok cao env (with_unflushedMask os) = updates_ok cao env os"
  by (rule updates_ok_cong; simp)+

subsection \<open>Writing a byte at a known offset\<close>

definition sets_byte :: "bool \<Rightarrow> assignment \<Rightarrow> object_state \<Rightarrow> nat \<Rightarrow> int \<Rightarrow> object_state \<Rightarrow> bool" where
  "sets_byte cao env os i v os' \<longleftrightarrow> os_inv cao env os' \<and> os_size os' = os_size os \<and>
     (\<forall>j<os_size os. os_byte env os' j = (if j = i then v else os_byte env os j))"

definition same_bytes :: "bool \<Rightarrow> assignment \<Rightarrow> object_state \<Rightarrow> object_state \<Rightarrow> bool" where
  "same_bytes cao env os os' \<longleftrightarrow> os_inv cao env os' \<and> os_size os' = os_size os \<and>
     (\<forall>j<os_size os. os_byte env os' j = os_byte env os j)"

lemma same_bytes_refl: "os_inv cao env os \<Longrightarrow> same_bytes cao env os os"
  by (simp add: same_bytes_def)

lemma same_bytes_trans: "same_bytes cao env a b \<Longrightarrow> same_bytes cao env b c \<Longrightarrow> same_bytes cao env a c"
  by (simp add: same_bytes_def)

text \<open>A new state of one byte, with the updates as they are.\<close>

lemma set_one_byte:
  assumes inv: "os_inv cao env os" and i: "i < os_size os" and shape: "os_shape os'"
    and upd: "upd_root os' = upd_root os" "upd_head os' = upd_head os" "os_size os' = os_size os"
    and other: "\<And>j. j < os_size os \<Longrightarrow> j \<noteq> i \<Longrightarrow> isByteConcrete os' j = isByteConcrete os j \<and> knownSymbolic os' j = knownSymbolic os j \<and>
        isByteUnflushed os' j = isByteUnflushed os j \<and> concreteStore os' ! j = concreteStore os ! j"
    and here: "byte_ok cao env os' i" "os_byte env os' i = v"
  shows "sets_byte cao env os i v os'"
proof -
  have u: "upd_value env os' = upd_value env os" using upd by (simp add: upd_value_def fun_eq_iff)
  have b: "os_byte env os' j = os_byte env os j \<and> byte_ok cao env os' j" if "j < os_size os" "j \<noteq> i" for j
  proof -
    have eq: "os_byte env os' j = os_byte env os j" using other [OF that] u by (simp add: os_byte_def split: option.split)
    then show ?thesis using other [OF that] u inv that(1) by (simp add: byte_ok_def os_inv_def isByteKnownSymbolic_def)
  qed
  have "byte_ok cao env os' j" if "j < os_size os" for j using b [OF that] here(1) by (cases "j = i") auto
  then show ?thesis using inv shape upd(3) updates_ok_cong [OF upd] b here(2) by (auto simp: sets_byte_def os_inv_def)
qed

lemma write8_concrete_ok:
  assumes "os_inv cao env os" "i < os_size os"
  shows "\<exists>os'. write8_concrete i v os = Some os' \<and> sets_byte cao env os i (uint v) os'"
proof -
  let ?s0 = "os\<lparr>concreteStore := (concreteStore os)[i := v]\<rparr>"
  let ?s1 = "setKnownSymbolic i None ?s0"
  let ?s2 = "markByteConcrete i ?s1"
  let ?os = "markByteUnflushed i ?s2"
  have i: "i < length (concreteStore os)" using assms by (simp add: os_inv_def os_shape_def)
  have s0: "os_shape ?s0" using assms(1) by (simp add: os_inv_def os_shape_def)
  have s1: "os_shape ?s1" using s0 by (rule flag_shape)
  have s2: "os_shape ?s2" using s1 by (rule flag_shape)
  note e = flag_effect(1) [OF s1] flag_effect(3) [OF s2] flag_effect(5) [OF s0]
  have "sets_byte cao env os i (uint v) ?os"
  proof (rule set_one_byte [OF assms])
    show "os_shape ?os" using s2 by (rule flag_shape)
  next
    fix j assume j: "j < os_size os" "j \<noteq> i"
    show "isByteConcrete ?os j = isByteConcrete os j \<and> knownSymbolic ?os j = knownSymbolic os j \<and>
        isByteUnflushed ?os j = isByteUnflushed os j \<and> concreteStore ?os ! j = concreteStore os ! j"
      using e [of i j] j assms(2) by simp
  qed (use e [of i i] assms(2) i in \<open>simp_all add: byte_ok_def os_byte_def\<close>)
  then show ?thesis using assms(2) by (auto simp: write8_concrete_def)
qed

lemma write8_ok:
  assumes "os_inv cao env os" "i < os_size os" "well_typed cao env e" "getWidth e = 8"
  shows "\<exists>os'. write8 i e os = Some os' \<and> sets_byte cao env os i (eval env e) os'"
proof (cases "as_constant e")
  case (Some p)
  then obtain k where k: "e = ConstantExpr 8 k" using assms(4) by (cases p) auto
  then have "uint (word_of_int k :: 8 word) = k" using assms(3) by (simp add: in_width_iff uint_word_of_int_eq)
  then show ?thesis using write8_concrete_ok [OF assms(1,2), of "word_of_int k"] k by (simp add: write8_def)
next
  case None
  let ?s1 = "setKnownSymbolic i (Some e) os"
  let ?s2 = "markByteSymbolic i ?s1"
  let ?os = "markByteUnflushed i ?s2"
  have s0: "os_shape os" using assms(1) by (simp add: os_inv_def)
  have s1: "os_shape ?s1" using s0 by (rule flag_shape)
  have s2: "os_shape ?s2" using s1 by (rule flag_shape)
  note f = flag_effect(2) [OF s1] flag_effect(3) [OF s2] flag_effect(5) [OF s0]
  have "sets_byte cao env os i (eval env e) ?os"
  proof (rule set_one_byte [OF assms(1,2)])
    show "os_shape ?os" using s2 by (rule flag_shape)
  next
    fix j assume j: "j < os_size os" "j \<noteq> i"
    show "isByteConcrete ?os j = isByteConcrete os j \<and> knownSymbolic ?os j = knownSymbolic os j \<and>
        isByteUnflushed ?os j = isByteUnflushed os j \<and> concreteStore ?os ! j = concreteStore os ! j"
      using f [of i j] j assms(2) by simp
  qed (use f [of i i] assms(2-4) in \<open>simp_all add: byte_ok_def os_byte_def isByteKnownSymbolic_def\<close>)
  then show ?thesis using assms(2) None by (auto simp: write8_def)
qed

subsection \<open>Flushing\<close>

lemma upd_value_extend: "upd_value env (os\<lparr>upd_head := (x, y) # upd_head os\<rparr>) j = (if int j = eval env x then eval env y else upd_value env os j)"
  by (simp add: upd_value_def)

text \<open>An update of a byte in its range.\<close>

definition update_fits :: "bool \<Rightarrow> assignment \<Rightarrow> object_state \<Rightarrow> expr \<Rightarrow> expr \<Rightarrow> bool" where
  "update_fits cao env os x y \<longleftrightarrow> well_typed cao env x \<and> getWidth x = 32 \<and> well_typed cao env y \<and> getWidth y = 8 \<and>
     eval env x < int (os_size os)"

lemma extend_ok:
  assumes "updates_ok cao env os" "update_fits cao env os x y"
  shows "extend x y os = Some (os\<lparr>upd_head := (x, y) # upd_head os\<rparr>)"
    "updates_ok cao env (os\<lparr>upd_head := (x, y) # upd_head os\<rparr>)"
  using assms eval_in_width [of cao env x]
  by (auto simp: extend_def updates_ok_def update_fits_def typed_updates_def in_width_def split: option.split)

text \<open>The value that flushing a byte adds to the updates.\<close>

lemma flushed_value:
  assumes "os_inv cao env os" "i < os_size os" "isByteUnflushed os i"
  obtains v where "(if isByteConcrete os i then Some (ConstantExpr 8 (uint (concreteStore os ! i))) else knownSymbolic os i) = Some v"
    "update_fits cao env os (ConstantExpr 32 (int i)) v" "eval env v = os_byte env os i"
proof -
  have o: "byte_ok cao env os i" "os_size os < 2 ^ 32" using assms by (auto simp: os_inv_def os_shape_def)
  have x: "well_typed cao env (ConstantExpr 32 (int i))" using assms(2) o(2) by (simp add: in_width_def)
  show thesis
  proof (cases "isByteConcrete os i")
    case True
    have "uint (concreteStore os ! i) < 2 ^ 8" using uint_lt2p [of "concreteStore os ! i"] by simp
    then show thesis using that True assms(2) x by (simp add: update_fits_def os_byte_def in_width_def)
  next
    case False
    then obtain e where e: "knownSymbolic os i = Some e" using o(1) assms(3) by (auto simp: byte_ok_def isByteKnownSymbolic_def)
    then show thesis using that False assms(2) x o(1) by (simp add: update_fits_def os_byte_def byte_ok_def)
  qed
qed

lemma flush_for_read_ok:
  assumes "os_inv cao env os" "i < os_size os" "unflushedMask os \<noteq> None"
  shows "\<exists>os'. flush_for_read i os = Some os' \<and> same_bytes cao env os os' \<and> unflushedMask os' \<noteq> None \<and>
           (\<forall>j<os_size os. isByteUnflushed os' j \<longleftrightarrow> j \<noteq> i \<and> isByteUnflushed os j)"
proof (cases "isByteUnflushed os i")
  case False
  then show ?thesis using assms same_bytes_refl by (auto simp: flush_for_read_def)
next
  case True
  have ok: "updates_ok cao env os" and shape: "os_shape os" and bytes: "\<And>j. j < os_size os \<Longrightarrow> byte_ok cao env os j"
    using assms(1) by (auto simp: os_inv_def)
  obtain v where v: "(if isByteConcrete os i then Some (ConstantExpr 8 (uint (concreteStore os ! i))) else knownSymbolic os i) = Some v"
      "update_fits cao env os (ConstantExpr 32 (int i)) v" "eval env v = os_byte env os i"
    using flushed_value [OF assms(1,2) True] .
  let ?s = "os\<lparr>upd_head := (ConstantExpr 32 (int i), v) # upd_head os\<rparr>"
  let ?os = "markByteFlushed i ?s"
  have shape': "os_shape ?s" using shape by (simp add: os_shape_def)
  have un: "isByteUnflushed ?os j \<longleftrightarrow> j \<noteq> i \<and> isByteUnflushed os j" if "j < os_size os" for j
    using flag_effect(4) [OF shape', of i j] that assms(2,3) by simp
  have u: "upd_value env ?os j = (if j = i then os_byte env os i else upd_value env os j)" for j
    by (simp add: upd_value_extend v(3))
  have b: "os_byte env ?os j = os_byte env os j \<and> byte_ok cao env ?os j" if "j < os_size os" for j
  proof -
    have "os_byte env ?os j = os_byte env os j"
      using bytes [OF assms(2)] True u by (auto simp: os_byte_def byte_ok_def isByteKnownSymbolic_def split: option.split)
    then show ?thesis using bytes [OF that] un [OF that] u by (auto simp: byte_ok_def isByteKnownSymbolic_def)
  qed
  have "same_bytes cao env os ?os"
    using b extend_ok(2) [OF ok v(2)] flag_shape(4) [OF shape', of i] by (simp add: same_bytes_def os_inv_def)
  moreover have "flush_for_read i os = Some ?os" using True v(1) extend_ok(1) [OF ok v(2)] by (simp add: flush_for_read_def)
  ultimately show ?thesis using un by (auto simp: markByteFlushed_def)
qed

text \<open>Flushing for a write moves a byte to the updates: it is neither concrete nor known afterwards.\<close>

definition plain :: "object_state \<Rightarrow> nat \<Rightarrow> bool" where
  "plain os j \<longleftrightarrow> \<not> isByteConcrete os j \<and> knownSymbolic os j = None"

lemma drop_byte:
  assumes inv: "os_inv cao env os" and os': "os_shape os'" "updates_ok cao env os'" "os_size os' = os_size os" "concreteStore os' = concreteStore os"
    and conc: "\<And>j. j < os_size os \<Longrightarrow> isByteConcrete os' j \<longleftrightarrow> j \<noteq> i \<and> isByteConcrete os j"
    and known: "\<And>j. j < os_size os \<Longrightarrow> knownSymbolic os' j = (if j = i then None else knownSymbolic os j)"
    and unfl: "\<And>j. j < os_size os \<Longrightarrow> isByteUnflushed os' j \<longleftrightarrow> j \<noteq> i \<and> isByteUnflushed os j"
    and val: "\<And>j. j < os_size os \<Longrightarrow> upd_value env os' j = (if j = i then os_byte env os i else upd_value env os j)"
  shows "same_bytes cao env os os' \<and> (\<forall>j<os_size os. j = i \<or> plain os j \<longrightarrow> plain os' j)"
proof -
  have "os_byte env os' j = os_byte env os j \<and> byte_ok cao env os' j" if j: "j < os_size os" for j
  proof (cases "j = i")
    case True
    then show ?thesis using conc [OF j] known [OF j] unfl [OF j] val [OF j] by (simp add: os_byte_def byte_ok_def)
  next
    case False
    have "os_byte env os' j = os_byte env os j"
      using conc [OF j] known [OF j] val [OF j] os'(4) False by (simp add: os_byte_def split: option.split)
    moreover have "byte_ok cao env os j" using inv j by (simp add: os_inv_def)
    ultimately show ?thesis using conc [OF j] known [OF j] unfl [OF j] val [OF j] False by (simp add: byte_ok_def isByteKnownSymbolic_def)
  qed
  then show ?thesis using os'(1-3) conc known by (auto simp: same_bytes_def os_inv_def plain_def)
qed

lemma flush_for_write_ok:
  assumes "os_inv cao env os" "i < os_size os" "unflushedMask os \<noteq> None"
  shows "\<exists>os'. flush_for_write i os = Some os' \<and> same_bytes cao env os os' \<and> unflushedMask os' \<noteq> None \<and>
           (\<forall>j<os_size os. j = i \<or> plain os j \<longrightarrow> plain os' j)"
proof -
  have ok: "updates_ok cao env os" and shape: "os_shape os" and byte: "byte_ok cao env os i" using assms by (auto simp: os_inv_def)
  note drop = drop_byte [OF assms(1), of _ i]
  show ?thesis
  proof (cases "isByteUnflushed os i")
    case True
    obtain v where v: "(if isByteConcrete os i then Some (ConstantExpr 8 (uint (concreteStore os ! i))) else knownSymbolic os i) = Some v"
        "update_fits cao env os (ConstantExpr 32 (int i)) v" "eval env v = os_byte env os i"
      using flushed_value [OF assms(1,2) True] .
    let ?s = "os\<lparr>upd_head := (ConstantExpr 32 (int i), v) # upd_head os\<rparr>"
    have s: "os_shape ?s" "updates_ok cao env ?s" using shape extend_ok(2) [OF ok v(2)] by (auto simp: os_shape_def)
    have u: "upd_value env ?s j = (if j = i then os_byte env os i else upd_value env os j)" for j by (simp add: upd_value_extend v(3))
    let ?t = "if isByteConcrete os i then markByteSymbolic i ?s else setKnownSymbolic i None ?s"
    have t: "os_shape ?t" "unflushedMask ?t \<noteq> None" "os_size ?t = os_size os"
      using flag_shape [OF s(1)] assms(3) by (auto simp: markByteSymbolic_def setKnownSymbolic_def split: option.split)
    have "same_bytes cao env os (markByteFlushed i ?t) \<and> (\<forall>j<os_size os. j = i \<or> plain os j \<longrightarrow> plain (markByteFlushed i ?t) j)"
      using flag_effect(2,5) [OF s(1), of i] flag_effect(4) [OF t(1), of i] t(2) assms(2) byte s(2) u
      by (intro drop) (auto simp: flag_shape [OF t(1)] byte_ok_def)
    moreover have "flush_for_write i os = Some (markByteFlushed i ?t)"
      using True v(1) extend_ok(1) [OF ok v(2)] by (auto simp: flush_for_write_def split: if_splits)
    ultimately show ?thesis by (auto simp: markByteFlushed_def)
  next
    case False
    let ?t = "if isByteConcrete os i then markByteSymbolic i os else if isByteKnownSymbolic os i then setKnownSymbolic i None os else os"
    have "same_bytes cao env os ?t \<and> (\<forall>j<os_size os. j = i \<or> plain os j \<longrightarrow> plain ?t j)"
      using flag_effect(2,5) [OF shape, of i] assms(2) byte False shape ok
      by (intro drop) (auto simp: flag_shape byte_ok_def isByteKnownSymbolic_def)
    then show ?thesis using False assms(3)
      by (auto simp: flush_for_write_def markByteSymbolic_def setKnownSymbolic_def split: option.split)
  qed
qed

lemma with_unflushedMask_ok:
  assumes "os_inv cao env os"
  shows "same_bytes cao env os (with_unflushedMask os)" "unflushedMask (with_unflushedMask os) \<noteq> None"
proof -
  have shape: "os_shape os" using assms by (simp add: os_inv_def)
  have b: "os_byte env (with_unflushedMask os) = os_byte env os" by (simp add: os_byte_def fun_eq_iff split: option.split)
  then have "byte_ok cao env (with_unflushedMask os) j" if "j < os_size os" for j
    using assms that flag_effect(6) [OF shape that that] by (simp add: os_inv_def byte_ok_def isByteKnownSymbolic_def)
  then show "same_bytes cao env os (with_unflushedMask os)"
    using assms b flag_shape(6) [OF shape] by (simp add: same_bytes_def os_inv_def)
  show "unflushedMask (with_unflushedMask os) \<noteq> None" by (auto simp: with_unflushedMask_def split: option.split)
qed

lemma flushRangeForRead_ok:
  assumes "os_inv cao env os"
  obtains os' where "flushRangeForRead 0 (os_size os) os = Some os'" "same_bytes cao env os os'"
    "\<And>j. j < os_size os \<Longrightarrow> \<not> isByteUnflushed os' j"
proof -
  have loop: "\<exists>s'. foldM flush_for_read is s = Some s' \<and> same_bytes cao env s s' \<and>
      (\<forall>j<os_size s. isByteUnflushed s' j \<longrightarrow> isByteUnflushed s j \<and> j \<notin> set is)"
    if "os_inv cao env s" "set is \<subseteq> {..<os_size s}" "unflushedMask s \<noteq> None" for "is" s
    using that
  proof (induction "is" arbitrary: s)
    case (Cons i "is")
    then obtain s1 where s1: "flush_for_read i s = Some s1" "same_bytes cao env s s1" "unflushedMask s1 \<noteq> None"
        "\<forall>j<os_size s. isByteUnflushed s1 j \<longleftrightarrow> j \<noteq> i \<and> isByteUnflushed s j"
      using flush_for_read_ok [of cao env s i] by auto
    have "os_inv cao env s1" "os_size s1 = os_size s" using s1(2) by (auto simp: same_bytes_def)
    then obtain s2 where "foldM flush_for_read is s1 = Some s2" "same_bytes cao env s1 s2"
        "\<forall>j<os_size s. isByteUnflushed s2 j \<longrightarrow> isByteUnflushed s1 j \<and> j \<notin> set is"
      using Cons.IH [of s1] Cons.prems(2) s1(3) by auto
    then show ?case using s1 same_bytes_trans by fastforce
  qed (simp add: same_bytes_refl)
  note w = with_unflushedMask_ok [OF assms]
  have "os_inv cao env (with_unflushedMask os)" "set [0..<os_size os] \<subseteq> {..<os_size (with_unflushedMask os)}"
    using w(1) by (auto simp: same_bytes_def)
  then obtain s where "foldM flush_for_read [0..<os_size os] (with_unflushedMask os) = Some s" "same_bytes cao env (with_unflushedMask os) s"
      "\<forall>j<os_size os. isByteUnflushed s j \<longrightarrow> j \<notin> set [0..<os_size os]"
    using loop [of "with_unflushedMask os" "[0..<os_size os]"] w(2) by force
  then show thesis using that [of s] same_bytes_trans [OF w(1)] by (simp add: flushRangeForRead_def)
qed

lemma flushRangeForWrite_ok:
  assumes "os_inv cao env os"
  obtains os' where "flushRangeForWrite 0 (os_size os) os = Some os'" "same_bytes cao env os os'" "\<And>j. j < os_size os \<Longrightarrow> plain os' j"
proof -
  have loop: "\<exists>s'. foldM flush_for_write is s = Some s' \<and> same_bytes cao env s s' \<and>
      (\<forall>j<os_size s. plain s j \<or> j \<in> set is \<longrightarrow> plain s' j)"
    if "os_inv cao env s" "set is \<subseteq> {..<os_size s}" "unflushedMask s \<noteq> None" for "is" s
    using that
  proof (induction "is" arbitrary: s)
    case (Cons i "is")
    then obtain s1 where s1: "flush_for_write i s = Some s1" "same_bytes cao env s s1" "unflushedMask s1 \<noteq> None"
        "\<forall>j<os_size s. j = i \<or> plain s j \<longrightarrow> plain s1 j"
      using flush_for_write_ok [of cao env s i] by auto
    have "os_inv cao env s1" "os_size s1 = os_size s" using s1(2) by (auto simp: same_bytes_def)
    then obtain s2 where "foldM flush_for_write is s1 = Some s2" "same_bytes cao env s1 s2"
        "\<forall>j<os_size s. plain s1 j \<or> j \<in> set is \<longrightarrow> plain s2 j"
      using Cons.IH [of s1] Cons.prems(2) s1(3) by auto
    then show ?case using s1 same_bytes_trans by fastforce
  qed (simp add: same_bytes_refl)
  note w = with_unflushedMask_ok [OF assms]
  have "os_inv cao env (with_unflushedMask os)" "set [0..<os_size os] \<subseteq> {..<os_size (with_unflushedMask os)}"
    using w(1) by (auto simp: same_bytes_def)
  then obtain s where "foldM flush_for_write [0..<os_size os] (with_unflushedMask os) = Some s" "same_bytes cao env (with_unflushedMask os) s"
      "\<forall>j<os_size os. j \<in> set [0..<os_size os] \<longrightarrow> plain s j"
    using loop [of "with_unflushedMask os" "[0..<os_size os]"] w(2) by force
  then show thesis using that [of s] same_bytes_trans [OF w(1)] by (simp add: flushRangeForWrite_def)
qed

subsection \<open>Constant arrays made late\<close>

lemma read_value_append: "read_value (us @ us') j d = read_value us j (read_value us' j d)"
  by (induction us j d rule: read_value.induct) auto

lemma pull_writes_ok:
  assumes "typed_updates cao env writes" "list_all (\<lambda>(x, y). \<forall>w v. x = ConstantExpr w v \<longrightarrow> nat v < length contents) writes"
    "list_all (in_width 8) contents"
  shows "\<exists>contents' rest. pull_writes writes contents = Some (contents', rest) \<and> length contents' = length contents \<and>
           list_all (in_width 8) contents' \<and> typed_updates cao env rest \<and>
           (\<forall>j<length contents. read_value (update_values env (rev rest)) (int j) (contents' ! j) =
              read_value (update_values env (rev writes)) (int j) (contents ! j))"
  using assms
proof (induction writes arbitrary: contents)
  case (Cons p writes)
  obtain i v where p: "p = (i, v)" by force
  note prems = Cons.prems [unfolded p]
  show ?case
  proof (cases "isConstant i \<and> isConstant v")
    case False
    then have "pull_writes ((i, v) # writes) contents = Some (contents, (i, v) # writes)"
      by (cases "as_constant i"; cases "as_constant v") auto
    then show ?thesis using prems(1,3) p by simp
  next
    case True
    then obtain wi ii wv vv where c: "i = ConstantExpr wi ii" "v = ConstantExpr wv vv" by (cases i; cases v) auto
    have t: "wi = 32" "wv = 8" "0 \<le> ii" "in_width 8 vv" "nat ii < length contents" "typed_updates cao env writes"
      using prems(1,2) c by (auto simp: typed_updates_def in_width_def)
    let ?c = "contents[nat ii := vv]"
    have "list_all (in_width 8) ?c" using prems(3) t(4) by (metis list_all_iff set_update_subset_insert insertE subsetD)
    then obtain c' rest where "pull_writes writes ?c = Some (c', rest)" "length c' = length contents" "list_all (in_width 8) c'"
        "typed_updates cao env rest" "\<forall>j<length contents. read_value (update_values env (rev rest)) (int j) (c' ! j) =
          read_value (update_values env (rev writes)) (int j) (?c ! j)"
      using Cons.IH [of ?c] t(6) prems(2) by auto
    moreover have "(if int j = ii then vv else contents ! j) = ?c ! j" if "j < length contents" for j
      using that t(3) by (auto simp: nth_list_update)
    ultimately show ?thesis using c t p by (auto simp: read_value_append)
  qed
qed simp

lemma extend_all:
  assumes "typed_updates cao env us" "upd_root os = Some arr" "array_domain arr = 32" "array_range arr = 8"
  shows "foldM (\<lambda>(i, v). extend i v) us os = Some (os\<lparr>upd_head := rev us @ upd_head os\<rparr>)"
  using assms(1,2)
proof (induction us arbitrary: os)
  case (Cons u us)
  then show ?case using assms(3,4) by (cases u) (auto simp: extend_def typed_updates_def)
qed simp

text \<open>\<open>getUpdates\<close> makes the array when there is none, and changes no byte.\<close>

lemma getUpdates_ok:
  assumes "os_inv cao env os" "0 < os_size os"
  obtains os' arr where "getUpdates new os = Some os'" "same_bytes cao env os os'" "upd_root os' = Some arr"
    "\<And>j. isByteUnflushed os' j = isByteUnflushed os j" "\<And>j. isByteConcrete os' j = isByteConcrete os j"
    "\<And>j. knownSymbolic os' j = knownSymbolic os j"
proof (cases "upd_root os")
  case (Some arr)
  then show thesis using that same_bytes_refl [OF assms(1)] by (simp add: getUpdates_def)
next
  case None
  let ?n = "os_size os"
  have ok: "updates_ok cao env os" and shape: "os_shape os" and bytes: "\<And>j. j < ?n \<Longrightarrow> byte_ok cao env os j"
    using assms(1) by (auto simp: os_inv_def)
  have "typed_updates cao env (rev (upd_head os))"
      "list_all (\<lambda>(x, y). \<forall>w v. x = ConstantExpr w v \<longrightarrow> nat v < length (replicate ?n (0 :: int))) (rev (upd_head os))"
    using ok None by (auto simp: updates_ok_def typed_updates_def)
  moreover have "list_all (in_width 8) (replicate ?n 0)" by (simp add: list_all_iff)
  ultimately obtain contents rest where p: "pull_writes (rev (upd_head os)) (replicate ?n 0) = Some (contents, rest)" "length contents = ?n"
      "list_all (in_width 8) contents" "typed_updates cao env rest"
      "\<forall>j<?n. read_value (update_values env (rev rest)) (int j) (contents ! j) = read_value (update_values env (upd_head os)) (int j) 0"
    using pull_writes_ok [of cao env "rev (upd_head os)" "replicate ?n 0"] by auto
  let ?arr = "const_array new contents"
  let ?os = "os\<lparr>upd_root := Some ?arr, upd_head := rev rest\<rparr>"
  have arr: "array_ok ?arr" "array_domain ?arr = 32" "array_range ?arr = 8" "array_size ?arr = ?n" "\<not> isSymbolicArray ?arr"
    using p(2,3) shape assms(2) by (auto simp: const_array_def array_ok_def os_shape_def isSymbolicArray_def)
  have g: "getUpdates new os = Some ?os"
    using None p(1) extend_all [OF p(4), of "os\<lparr>upd_root := Some ?arr, upd_head := []\<rparr>" ?arr] arr(2,3) assms(2)
    by (simp add: getUpdates_def)
  have flags: "isByteConcrete ?os = isByteConcrete os" "isByteUnflushed ?os = isByteUnflushed os" "knownSymbolic ?os = knownSymbolic os"
    by (auto simp: os_flags fun_eq_iff)
  have u: "upd_value env ?os j = upd_value env os j" if "j < ?n" for j
    using p(2,5) that None arr(5) by (simp add: upd_value_def initial_value_def const_array_def)
  then have b: "os_byte env ?os j = os_byte env os j" if "j < ?n" for j
    using that by (simp add: os_byte_def flags split: option.split)
  have "byte_ok cao env ?os j" if "j < ?n" for j
    using bytes [OF that] b [OF that] u [OF that] by (simp add: byte_ok_def flags isByteKnownSymbolic_def)
  moreover have "updates_ok cao env ?os" "os_shape ?os" using p(4) arr shape by (auto simp: updates_ok_def typed_updates_def os_shape_def)
  ultimately have "same_bytes cao env os ?os" using b by (simp add: same_bytes_def os_inv_def)
  then show thesis using that [OF g] flags by simp
qed

subsection \<open>Reading a byte\<close>

text \<open>Reading an index in the object through the updates.\<close>

lemma read_updates:
  assumes "os_inv cao env os" "upd_root os = Some arr" "well_typed cao env i" "getWidth i = 32" "eval env i < int (os_size os)"
  shows "gives cao env 8 (upd_value env os (nat (eval env i))) (ReadExpr_create cao arr (upd_head os) i)"
proof -
  have u: "array_ok arr" "array_domain arr = 32" "array_range arr = 8" "array_size arr = os_size os" "typed_updates cao env (upd_head os)"
    using assms(1,2) by (auto simp: os_inv_def updates_ok_def)
  have "well_typed cao env (ReadExpr arr (upd_head os) i)"
    using u assms(3-5) by (simp add: typed_updates_def)
  moreover have "0 \<le> eval env i" using eval_in_width [OF assms(3)] by (simp add: in_width_def)
  ultimately show ?thesis using ReadExpr_create_gives [of cao env arr "upd_head os" i] u(3) assms(2) by (simp add: upd_value_def)
qed

lemma read8_ok:
  assumes "os_inv cao env os" "i < os_size os"
  shows "\<exists>e os'. read8 cao new i os = Some (e, os') \<and> same_bytes cao env os os' \<and>
           well_typed cao env e \<and> getWidth e = 8 \<and> eval env e = os_byte env os i"
proof (cases "isByteConcrete os i")
  case True
  have "uint (concreteStore os ! i) < 2 ^ 8" using uint_lt2p [of "concreteStore os ! i"] by simp
  then show ?thesis using True assms same_bytes_refl by (simp add: read8_def os_byte_def in_width_def)
next
  case False
  have b: "byte_ok cao env os i" "i < 2 ^ 32" using assms by (auto simp: os_inv_def os_shape_def)
  show ?thesis
  proof (cases "knownSymbolic os i")
    case (Some e)
    then show ?thesis using False assms same_bytes_refl b(1) by (simp add: read8_def os_byte_def byte_ok_def)
  next
    case None
    then have fl: "\<not> isByteUnflushed os i" using False b(1) by (auto simp: byte_ok_def isByteKnownSymbolic_def)
    have "0 < os_size os" using assms(2) by simp
    then obtain os' arr where g: "getUpdates new os = Some os'" "same_bytes cao env os os'" "upd_root os' = Some arr"
        "\<And>j. isByteConcrete os' j = isByteConcrete os j" "\<And>j. knownSymbolic os' j = knownSymbolic os j"
      using getUpdates_ok [OF assms(1)] by metis
    have s: "os_inv cao env os'" "os_size os' = os_size os" "os_byte env os' i = os_byte env os i" using g(2) assms(2) by (auto simp: same_bytes_def)
    have "upd_value env os' i = os_byte env os i" using s(3) g(4,5) False None by (simp add: os_byte_def)
    moreover have "well_typed cao env (ConstantExpr 32 (int i))" using b(2) by (simp add: in_width_def)
    ultimately show ?thesis
      using read_updates [OF s(1) g(3), of "ConstantExpr 32 (int i)"] s(2) assms(2) False None fl g(1-3)
      by (auto simp: read8_def gives_def)
  qed
qed

end
