(* ===== verification/ObjectAccess.thy ===== *)
theory ObjectAccess
  imports ObjectState
begin

unbundle bit_operations_syntax

declare One_nat_def [simp del]

section \<open>Reading and writing values in memory objects\<close>

text \<open>
  The reads and writes of \<open>ObjectState\<close> refine an array of bytes: at a symbolic offset and at a constant one, in
  both byte orders, for values of one bit and of any number of bytes; every operation keeps the cache invariants.
\<close>

subsection \<open>Bytes at a symbolic offset\<close>

lemma typed_nonneg: "well_typed cao env e \<Longrightarrow> 0 \<le> eval env e"
  using eval_in_width [of cao env e] by (simp add: in_width_def)

lemma read8_symbolic_ok:
  assumes inv: "os_inv cao env os" and off: "\<not> isConstant off" "well_typed cao env off" "getWidth off = 32"
    and i: "eval env off = int i" "i < os_size os"
  shows "\<exists>e os'. read8_symbolic cao new off os = Some (e, os') \<and> same_bytes cao env os os' \<and>
           well_typed cao env e \<and> getWidth e = 8 \<and> eval env e = os_byte env os i"
proof -
  obtain s1 where s1: "flushRangeForRead 0 (os_size os) os = Some s1" "same_bytes cao env os s1"
      "\<And>j. j < os_size os \<Longrightarrow> \<not> isByteUnflushed s1 j"
    using flushRangeForRead_ok [OF inv] by blast
  have inv1: "os_inv cao env s1" "0 < os_size s1" using s1(2) i(2) by (auto simp: same_bytes_def)
  obtain s2 arr where s2: "getUpdates new s1 = Some s2" "same_bytes cao env s1 s2" "upd_root s2 = Some arr"
      "\<And>j. isByteUnflushed s2 j = isByteUnflushed s1 j"
    using getUpdates_ok [OF inv1] by metis
  have s: "same_bytes cao env os s2" using same_bytes_trans [OF s1(2) s2(2)] .
  then have inv2: "os_inv cao env s2" "os_size s2 = os_size os" "os_byte env s2 i = os_byte env os i"
    using i(2) by (auto simp: same_bytes_def)
  have "byte_ok cao env s2 i" using inv2(1,2) i(2) by (simp add: os_inv_def)
  then have "upd_value env s2 i = os_byte env os i" using s2(4) s1(3) i(2) inv2(3) by (simp add: byte_ok_def)
  then have "gives cao env 8 (os_byte env os i) (ReadExpr_create cao arr (upd_head s2) off)"
    using read_updates [OF inv2(1) s2(3) off(2,3)] i inv2(2) by simp
  then show ?thesis using s1(1) s2(1,3) s off(1,3) by (auto simp: read8_symbolic_def ZExtExpr_create_def gives_def)
qed

lemma write8_symbolic_ok:
  assumes inv: "os_inv cao env os" and off: "\<not> isConstant off" "well_typed cao env off" "getWidth off = 32"
    and i: "eval env off = int i" "i < os_size os" and v: "well_typed cao env v" "getWidth v = 8"
  shows "\<exists>os'. write8_symbolic off v os = Some os' \<and> sets_byte cao env os i (eval env v) os'"
proof -
  obtain s where s: "flushRangeForWrite 0 (os_size os) os = Some s" "same_bytes cao env os s" "\<And>j. j < os_size os \<Longrightarrow> plain s j"
    using flushRangeForWrite_ok [OF inv] by blast
  have sz: "os_size s = os_size os" and inv': "os_inv cao env s" using s(2) by (auto simp: same_bytes_def)
  have ok: "updates_ok cao env s" "update_fits cao env s off v" using inv' off i v sz by (auto simp: os_inv_def update_fits_def)
  let ?s = "s\<lparr>upd_head := (off, v) # upd_head s\<rparr>"
  have b: "os_byte env ?s j = (if j = i then eval env v else os_byte env os j) \<and> byte_ok cao env ?s j" if "j < os_size os" for j
  proof -
    have p: "plain s j" "byte_ok cao env s j" using s(3) that inv' sz by (auto simp: os_inv_def)
    have "os_byte env ?s j = (if j = i then eval env v else os_byte env s j)"
      using p(1) i(1) by (simp add: plain_def os_byte_def upd_value_extend)
    moreover have "os_byte env s j = os_byte env os j" using s(2) that by (simp add: same_bytes_def)
    ultimately show ?thesis
      using p by (simp add: plain_def byte_ok_def isByteKnownSymbolic_def os_byte_def)
  qed
  have "os_shape ?s" using inv' by (simp add: os_inv_def os_shape_def)
  then have "sets_byte cao env os i (eval env v) ?s"
    using b extend_ok(2) [OF ok] sz by (simp add: sets_byte_def os_inv_def)
  moreover have "write8_symbolic off v os = Some ?s"
    using s(1) off(1,3) extend_ok(1) [OF ok] by (simp add: write8_symbolic_def ZExtExpr_create_def)
  ultimately show ?thesis by blast
qed

subsection \<open>Sums that stay symbolic\<close>

text \<open>
  The assertions of the symbolic \<open>read8\<close> and \<open>write8\<close> need that the sum of the offset and the number of a byte is
  not a constant. It is one only when the offset has a sum or difference of two constants in it, which the
  constructors fold.
\<close>

fun symbolic_sum :: "expr \<Rightarrow> bool" where
  "symbolic_sum (ConstantExpr w v) = False"
| "symbolic_sum (BinaryExpr k l r) = (k \<in> {Add, Sub} \<and> isConstant l \<longrightarrow> symbolic_sum r)"
| "symbolic_sum e = True"

lemma symbolic_sum_nonconstant [simp]: "symbolic_sum e \<Longrightarrow> \<not> isConstant e"
  by (cases e) auto

lemma constant_sum_step:
  assumes "\<not> isConstant r"
  shows "AddExpr_create cao (ConstantExpr w v) r = (if w = getWidth r then AddExpr_createPartialR cao w v r else None)"
    "SubExpr_create cao (ConstantExpr w v) r = (if w = getWidth r then SubExpr_createPartialR cao w v r else None)"
  using assms by (simp_all add: AddExpr_create.simps SubExpr_create.simps)

lemmas partial_on_sum = AddExpr_createPartialR.simps [of cao w v "BinaryExpr k l r" for cao w v k l r]
  SubExpr_createPartialR.simps [of cao w v "BinaryExpr k l r" for cao w v k l r]

lemma sum_cases:
  obtains (Add) w b where "k = Add" "l = ConstantExpr w b" | (Sub) w b where "k = Sub" "l = ConstantExpr w b"
    | (other) "constant_left Add (BinaryExpr k l r) = None" "constant_left Sub (BinaryExpr k l r) = None"
  by (cases l; cases k) (auto simp: constant_left_def)

lemma constant_sum_nonconstant:
  assumes "symbolic_sum e" "w \<noteq> 1"
  shows "AddExpr_createPartialR cao w v e = Some a \<Longrightarrow> \<not> isConstant a"
    "SubExpr_createPartialR cao w v e = Some a \<Longrightarrow> \<not> isConstant a"
  using assms
proof (induction e arbitrary: v a)
  case (BinaryExpr k l r)
  {
    case 1
    show ?case
    proof (cases rule: sum_cases [of k l _ r])
      case Add
      then show ?thesis using 1 BinaryExpr.IH(3) by (auto simp: partial_on_sum constant_left_def constant_sum_step split: if_splits)
    next
      case Sub
      then show ?thesis using 1 BinaryExpr.IH(4) by (auto simp: partial_on_sum constant_left_def constant_sum_step split: if_splits)
    qed (use 1 in \<open>auto simp: partial_on_sum split: if_splits\<close>)
  next
    case 2
    show ?case
    proof (cases rule: sum_cases [of k l _ r])
      case Add
      then show ?thesis using 2 BinaryExpr.IH(4) by (auto simp: partial_on_sum constant_left_def constant_sum_step split: if_splits)
    next
      case Sub
      then show ?thesis using 2 BinaryExpr.IH(3) by (auto simp: partial_on_sum constant_left_def constant_sum_step split: if_splits)
    qed (use 2 in \<open>auto simp: partial_on_sum split: if_splits\<close>)
  }
qed (auto simp: AddExpr_createPartialR.simps SubExpr_createPartialR.simps constant_left_def split: if_splits)

lemma byte_address:
  assumes "symbolic_sum off" "well_typed cao env off" "getWidth off = 32" "eval env off + int k < 2 ^ 32"
  obtains a where "AddExpr_create cao off (ConstantExpr 32 (int k)) = Some a" "\<not> isConstant a" "well_typed cao env a"
    "getWidth a = 32" "eval env a = eval env off + int k"
proof -
  have n: "0 \<le> eval env off" using typed_nonneg [OF assms(2)] .
  then have "operands cao env off (ConstantExpr 32 (int k))" using assms by (simp add: operands_def in_width_def)
  then have "gives_binary cao env Add off (ConstantExpr 32 (int k)) (AddExpr_create cao off (ConstantExpr 32 (int k)))"
    using AddExpr_create_gives by blast
  moreover have "take_bit 32 (eval env off + int k) = eval env off + int k"
    using n assms(4) by (simp add: take_bit_int_eq_self)
  ultimately obtain a where a: "AddExpr_create cao off (ConstantExpr 32 (int k)) = Some a" "well_typed cao env a" "getWidth a = 32"
      "eval env a = eval env off + int k"
    using assms(3) by (auto simp: gives_arith constant_binary_def gives_def)
  have "AddExpr_createPartialR cao 32 (int k) off = Some a"
    using a(1) assms(1,3) by (simp add: AddExpr_create.simps)
  then have "\<not> isConstant a" using constant_sum_nonconstant(1) [OF assms(1), of 32] by simp
  then show thesis using that a by blast
qed

subsection \<open>Values of several bytes\<close>

definition access_bytes :: "width \<Rightarrow> nat" where
  "access_bytes w = (if w = 1 then 1 else w div 8)"

definition access_ok :: "object_state \<Rightarrow> nat \<Rightarrow> width \<Rightarrow> bool" where
  "access_ok os p w \<longleftrightarrow> (w = 1 \<or> 0 < w \<and> w = w div 8 * 8) \<and> p + access_bytes w \<le> os_size os"

text \<open>The value of \<open>w\<close> bits at an offset.\<close>

definition object_value :: "assignment \<Rightarrow> object_state \<Rightarrow> bool \<Rightarrow> nat \<Rightarrow> width \<Rightarrow> int" where
  "object_value env os le p w =
     (if w = 1 then os_byte env os p mod 2 else \<Sum>i<w div 8. os_byte env os (p + byte_index le (w div 8) i) * 256 ^ i)"

text \<open>The expression of a read has the width and the value that are asked for, and the object keeps its bytes.\<close>

definition reads :: "bool \<Rightarrow> assignment \<Rightarrow> object_state \<Rightarrow> width \<Rightarrow> int \<Rightarrow> (expr \<times> object_state) option \<Rightarrow> bool" where
  "reads cao env os w v r \<longleftrightarrow>
     (\<exists>e os'. r = Some (e, os') \<and> same_bytes cao env os os' \<and> well_typed cao env e \<and> getWidth e = w \<and> eval env e = v)"

lemma byte_index_less: "i < n \<Longrightarrow> byte_index le n i < n"
  by (auto simp: byte_index_def)

lemma byte_index_inj: "inj_on (byte_index le n) {..<n}"
  by (auto simp: byte_index_def inj_on_def)

lemma read_bytes_step:
  assumes step: "\<And>i s. i < n \<Longrightarrow> same_bytes cao env os s \<Longrightarrow> reads cao env s 8 (f i) (read_byte i s)"
    and "k + d = n" "0 < k" "same_bytes cao env os s" "well_typed cao env r" "getWidth r = 8 * k" "eval env r = (\<Sum>i<k. f i * 256 ^ i)"
  shows "reads cao env os (8 * n) (\<Sum>i<n. f i * 256 ^ i) (read_bytes read_byte [k..<n] (Some r) s)"
  using assms(2-)
proof (induction d arbitrary: k r s)
  case 0
  then show ?case by (auto simp: reads_def)
next
  case (Suc d)
  obtain b s' where b: "read_byte k s = Some (b, s')" "same_bytes cao env s s'" "well_typed cao env b" "getWidth b = 8" "eval env b = f k"
    using step [OF _ Suc.prems(3), of k] Suc.prems(1) by (auto simp: reads_def)
  have "in_width (8 * k) (eval env r)" using eval_in_width [OF Suc.prems(4)] Suc.prems(5) by simp
  then have v: "constant_concat (eval env b) (getWidth r) (eval env r) = (\<Sum>i<Suc k. f i * 256 ^ i)"
    using Suc.prems(5,6) b(5) by (simp add: constant_concat_eq power_mult)
  obtain c where c: "ConcatExpr_create b r = Some c" "well_typed cao env c" "getWidth c = 8 * Suc k" "eval env c = (\<Sum>i<Suc k. f i * 256 ^ i)"
    using ExtractExpr_create_gives(1) [OF b(3) Suc.prems(4)] b(4) Suc.prems(5) v by (auto simp: gives_def)
  have "same_bytes cao env os s'" using same_bytes_trans [OF Suc.prems(3) b(2)] .
  then have "reads cao env os (8 * n) (\<Sum>i<n. f i * 256 ^ i) (read_bytes read_byte [Suc k..<n] (Some c) s')"
    using Suc.IH [of "Suc k" s' c] c Suc.prems(1) by simp
  moreover have "[k..<n] = k # [Suc k..<n]" using Suc.prems(1) by (simp add: upt_conv_Cons)
  ultimately show ?case using b(1) c(1) by simp
qed

lemma read_width_ok:
  assumes step: "\<And>i s. i < access_bytes w \<Longrightarrow> same_bytes cao env os s \<Longrightarrow>
      reads cao env s 8 (os_byte env os (p + byte_index le (access_bytes w) i)) (read_byte (access_bytes w) i s)"
    and inv: "os_inv cao env os" and ok: "access_ok os p w"
  shows "reads cao env os w (object_value env os le p w) (read_width w read_byte os)"
proof (cases "w = 1")
  case True
  obtain b s where b: "read_byte 1 0 os = Some (b, s)" "same_bytes cao env os s" "well_typed cao env b" "getWidth b = 8" "eval env b = os_byte env os p"
    using step [OF _ same_bytes_refl [OF inv], of 0] True by (auto simp: reads_def access_bytes_def byte_index_def)
  have "gives cao env 1 (take_bit 1 (drop_bit 0 (eval env b))) (ExtractExpr_create b 0 1)"
    using ExtractExpr_create_gives(2) [OF b(3), of 1 0] b(4) by simp
  then have "gives cao env 1 (os_byte env os p mod 2) (ExtractExpr_create b 0 1)" using b(5) by (simp add: take_bit_eq_mod)
  then show ?thesis using True b by (auto simp: read_width_def reads_def object_value_def gives_def)
next
  case False
  let ?n = "w div 8"
  let ?f = "\<lambda>i. os_byte env os (p + byte_index le ?n i)"
  have n: "0 < ?n" "w = 8 * ?n" "access_bytes w = ?n" using ok False by (auto simp: access_ok_def access_bytes_def)
  obtain b s where b: "read_byte ?n 0 os = Some (b, s)" "same_bytes cao env os s" "well_typed cao env b" "getWidth b = 8" "eval env b = ?f 0"
    using step [OF _ same_bytes_refl [OF inv], of 0] n by (auto simp: reads_def)
  have one: "(\<Sum>i<1. g i) = g 0" for g :: "nat \<Rightarrow> int" by (simp add: One_nat_def)
  have "reads cao env os (8 * ?n) (\<Sum>i<?n. ?f i * 256 ^ i) (read_bytes (read_byte ?n) [1..<?n] (Some b) s)"
    using step n b by (intro read_bytes_step [where d = "?n - 1"]) (auto simp: one)
  moreover have "[0..<?n] = 0 # [1..<?n]" using n(1) by (simp add: upt_conv_Cons One_nat_def)
  ultimately show ?thesis using False n(2) b(1) by (simp add: read_width_def object_value_def)
qed

lemma read_const_ok:
  assumes "os_inv cao env os" "access_ok os p w"
  shows "reads cao env os w (object_value env os le p w) (read_const cao le new p w os)"
  unfolding read_const_def
proof (rule read_width_ok [OF _ assms])
  fix i s
  assume i: "i < access_bytes w" and s: "same_bytes cao env os s"
  let ?j = "p + byte_index le (access_bytes w) i"
  have j: "?j < os_size os" "?j < 2 ^ 32"
    using byte_index_less [OF i, of le] assms by (auto simp: access_ok_def os_inv_def os_shape_def)
  then have "os_inv cao env s" "?j < os_size s" "os_byte env s ?j = os_byte env os ?j" using s by (auto simp: same_bytes_def)
  then show "reads cao env s 8 (os_byte env os ?j) (read8 cao new (?j mod 2 ^ 32) s)"
    using read8_ok [of cao env s ?j new] j(2) by (simp add: reads_def)
qed

text \<open>The symbolic offset of both accesses, truncated to 32 bits.\<close>

definition offset_ok :: "bool \<Rightarrow> assignment \<Rightarrow> expr \<Rightarrow> nat \<Rightarrow> bool" where
  "offset_ok cao env off p \<longleftrightarrow> well_typed cao env off \<and> int p = eval env off mod 2 ^ 32 \<and>
     (\<forall>e. ZExtExpr_create off 32 = Some e \<longrightarrow> isConstant e \<or> symbolic_sum e)"

lemma offset_cases:
  assumes "offset_ok cao env off p"
  obtains (const) "ZExtExpr_create off 32 = Some (ConstantExpr 32 (int p))"
    | (symbolic) e where "ZExtExpr_create off 32 = Some e" "symbolic_sum e" "well_typed cao env e" "getWidth e = 32" "eval env e = int p"
proof -
  have w: "well_typed cao env off" "int p = eval env off mod 2 ^ 32" using assms by (auto simp: offset_ok_def)
  have v: "(if 32 < getWidth off then take_bit 32 (eval env off) else eval env off) = int p"
  proof (cases "32 < getWidth off")
    case False
    then have "in_width 32 (eval env off)" using eval_in_width [OF w(1)] in_width_mono [of "getWidth off" "eval env off" 32] by simp
    then show ?thesis using False w(2) by (simp add: in_width_iff take_bit_eq_mod)
  qed (simp add: w(2) take_bit_eq_mod)
  obtain e where e: "ZExtExpr_create off 32 = Some e" "well_typed cao env e" "getWidth e = 32" "eval env e = int p"
    using cast_create_gives(1) [OF w(1), of 32] v by (auto simp: gives_def)
  have "isConstant e \<or> symbolic_sum e" using assms e(1) by (simp add: offset_ok_def)
  then show thesis using e that by (cases e) auto
qed

lemma read_expr_ok:
  assumes inv: "os_inv cao env os" and ok: "access_ok os p w" and off: "offset_ok cao env off p"
  shows "reads cao env os w (object_value env os le p w) (read_expr cao le new off w os)"
  using off
proof (cases rule: offset_cases)
  case const
  then show ?thesis using read_const_ok [OF inv ok] by (simp add: read_expr_def)
next
  case (symbolic e)
  let ?rd = "\<lambda>n i os. do { a \<leftarrow> AddExpr_create cao e (ConstantExpr 32 (int (byte_index le n i))); read8_symbolic cao new a os }"
  have "reads cao env os w (object_value env os le p w) (read_width w ?rd os)"
  proof (rule read_width_ok [OF _ inv ok])
    fix i s
    assume i: "i < access_bytes w" and s: "same_bytes cao env os s"
    let ?j = "p + byte_index le (access_bytes w) i"
    have j: "?j < os_size os" "?j < 2 ^ 32"
      using byte_index_less [OF i, of le] ok inv by (auto simp: access_ok_def os_inv_def os_shape_def)
    then have s': "os_inv cao env s" "?j < os_size s" "os_byte env s ?j = os_byte env os ?j" using s by (auto simp: same_bytes_def)
    have "eval env e + int (byte_index le (access_bytes w) i) < 2 ^ 32" using j(2) symbolic(5) by simp
    then obtain a where a: "AddExpr_create cao e (ConstantExpr 32 (int (byte_index le (access_bytes w) i))) = Some a" "\<not> isConstant a"
        "well_typed cao env a" "getWidth a = 32" "eval env a = int ?j"
      using byte_address [OF symbolic(2-4)] symbolic(5) by auto
    then show "reads cao env s 8 (os_byte env os ?j) (?rd (access_bytes w) i s)"
      using read8_symbolic_ok [OF s'(1) a(2-5) s'(2), of new] s'(3) by (simp add: reads_def)
  qed
  moreover have "read_expr cao le new off w os = read_width w ?rd os"
  proof (cases "w = 1")
    case True
    have "AddExpr_create cao e (ConstantExpr 32 (int (byte_index le 1 0))) = Some e"
      using symbolic(2,4) by (simp add: byte_index_def AddExpr_create.simps AddExpr_createPartialR.simps)
    then show ?thesis using True symbolic(1,2) by (simp add: read_expr_def read_width_def)
  qed (simp add: read_expr_def symbolic(1,2))
  ultimately show ?thesis by simp
qed

subsection \<open>Writing values\<close>

text \<open>
  A write of \<open>w\<close> bits at an offset: the bytes of the value are there afterwards, the other bytes are as they were.
\<close>

definition stores :: "bool \<Rightarrow> assignment \<Rightarrow> object_state \<Rightarrow> (nat \<Rightarrow> nat) \<Rightarrow> nat \<Rightarrow> (nat \<Rightarrow> int) \<Rightarrow> object_state option \<Rightarrow> bool" where
  "stores cao env os pos n b r \<longleftrightarrow>
     (\<exists>os'. r = Some os' \<and> os_inv cao env os' \<and> os_size os' = os_size os \<and> (\<forall>i<n. os_byte env os' (pos i) = b i) \<and>
        (\<forall>j<os_size os. j \<notin> pos ` {..<n} \<longrightarrow> os_byte env os' j = os_byte env os j))"

definition writes :: "bool \<Rightarrow> assignment \<Rightarrow> object_state \<Rightarrow> bool \<Rightarrow> nat \<Rightarrow> width \<Rightarrow> int \<Rightarrow> object_state option \<Rightarrow> bool" where
  "writes cao env os le p w v r \<longleftrightarrow>
     stores cao env os (\<lambda>i. p + byte_index le (access_bytes w) i) (access_bytes w) (\<lambda>i. v div 256 ^ i mod 256) r"

lemma stores_cong: "(\<And>i. i < n \<Longrightarrow> b i = b' i) \<Longrightarrow> stores cao env os pos n b r = stores cao env os pos n b' r"
  by (simp add: stores_def)

lemma stores_loop:
  assumes step: "\<And>i s. i < n \<Longrightarrow> os_inv cao env s \<Longrightarrow> os_size s = os_size os \<Longrightarrow> \<exists>s'. f i s = Some s' \<and> sets_byte cao env s (pos i) (b i) s'"
    and "os_inv cao env os" "inj_on pos {..<n}" "\<And>i. i < n \<Longrightarrow> pos i < os_size os"
  shows "stores cao env os pos n b (foldM f [0..<n] os)"
  using assms
proof (induction n)
  case (Suc n)
  have "inj_on pos {..<n}" using Suc.prems(3) by (auto simp: inj_on_def)
  then obtain s where s: "foldM f [0..<n] os = Some s" "os_inv cao env s" "os_size s = os_size os" "\<forall>i<n. os_byte env s (pos i) = b i"
      "\<forall>j<os_size os. j \<notin> pos ` {..<n} \<longrightarrow> os_byte env s j = os_byte env os j"
    using Suc.IH Suc.prems(1,2,4) by (auto simp: stores_def)
  obtain s' where s': "f n s = Some s'" "sets_byte cao env s (pos n) (b n) s'" using Suc.prems(1) s(2,3) by blast
  have "pos i \<noteq> pos n" if "i < n" for i using Suc.prems(3) that by (force simp: inj_on_def)
  then have "\<forall>i<Suc n. os_byte env s' (pos i) = b i"
    using s(4) s'(2) Suc.prems(4) s(3) by (auto simp: sets_byte_def less_Suc_eq)
  moreover have "os_byte env s' j = os_byte env os j" if "j < os_size os" "j \<notin> pos ` {..<Suc n}" for j
    using that s(3,5) s'(2) by (auto simp: sets_byte_def lessThan_Suc)
  ultimately show ?case using s(1,3) s' by (auto simp: stores_def foldM_append sets_byte_def)
qed (simp add: stores_def)

lemma stores_one:
  assumes "r = Some os'" "sets_byte cao env os (pos 0) (b 0) os'" "pos 0 < os_size os"
  shows "stores cao env os pos 1 b r"
  using assms by (auto simp: stores_def sets_byte_def)

text \<open>The byte addresses of an access.\<close>

lemma access_addresses:
  assumes "access_ok os p w"
  shows "inj_on (\<lambda>i. p + byte_index le (access_bytes w) i) {..<access_bytes w}"
    "i < access_bytes w \<Longrightarrow> p + byte_index le (access_bytes w) i < os_size os"
proof -
  show "inj_on (\<lambda>i. p + byte_index le (access_bytes w) i) {..<access_bytes w}"
    using byte_index_inj [of le "access_bytes w"] by (simp add: inj_on_def)
  show "i < access_bytes w \<Longrightarrow> p + byte_index le (access_bytes w) i < os_size os"
    using byte_index_less [of i "access_bytes w" le] assms by (simp add: access_ok_def)
qed

lemma write_number_ok:
  assumes inv: "os_inv cao env os" and ok: "access_ok os p w" and w: "w \<noteq> 1"
  shows "writes cao env os le p w v (write_number le (w div 8) p v os)"
proof -
  have n: "access_bytes w = w div 8" using w by (simp add: access_bytes_def)
  note a = access_addresses [OF ok, where le = le, unfolded n]
  have b: "uint (word_of_int (drop_bit (8 * i) v) :: 8 word) = v div 256 ^ i mod 256" for i
    by (simp add: uint_word_of_int drop_bit_eq_div power_mult)
  have "stores cao env os (\<lambda>i. p + byte_index le (w div 8) i) (w div 8) (\<lambda>i. v div 256 ^ i mod 256) (write_number le (w div 8) p v os)"
    unfolding write_number_def
  proof (rule stores_loop [OF _ inv a(1) a(2)])
    fix i s
    assume i: "i < w div 8" and s: "os_inv cao env s" "os_size s = os_size os"
    let ?j = "p + byte_index le (w div 8) i"
    have j: "?j < os_size s" "?j < 2 ^ 32" using a(2) [OF i] s inv by (auto simp: os_inv_def os_shape_def)
    then show "\<exists>s'. write8_concrete (?j mod 2 ^ 32) (word_of_int (drop_bit (8 * i) v)) s = Some s' \<and>
        sets_byte cao env s ?j (v div 256 ^ i mod 256) s'"
      using write8_concrete_ok [OF s(1) j(1), of "word_of_int (drop_bit (8 * i) v)"] unfolding b by simp
  qed
  then show ?thesis by (simp add: writes_def n)
qed

text \<open>The general case, for a function that writes a byte.\<close>

lemma write_bytes_ok:
  assumes step: "\<And>i s e. i < access_bytes (getWidth v) \<Longrightarrow> os_inv cao env s \<Longrightarrow> os_size s = os_size os \<Longrightarrow> well_typed cao env e \<Longrightarrow>
      getWidth e = 8 \<Longrightarrow>
      \<exists>s'. write_byte (access_bytes (getWidth v)) i e s = Some s' \<and>
        sets_byte cao env s (p + byte_index le (access_bytes (getWidth v)) i) (eval env e) s'"
    and inv: "os_inv cao env os" and ok: "access_ok os p (getWidth v)" and v: "well_typed cao env v"
  shows "writes cao env os le p (getWidth v) (eval env v) (write_bytes write_byte v os)"
proof (cases "getWidth v = 1")
  case True
  obtain b where b: "ZExtExpr_create v 8 = Some b" "well_typed cao env b" "getWidth b = 8" "eval env b = eval env v"
    using cast_create_gives(1) [OF v, of 8] True by (auto simp: gives_def)
  have "eval env v mod 256 = eval env v" using eval_in_width [OF v] True by (auto simp: in_width_1)
  then show ?thesis
    using step [OF _ inv _ b(2,3), of 0] True b(1,4) access_addresses(2) [OF ok, of 0 le]
    by (auto simp: writes_def write_bytes_def access_bytes_def byte_index_def intro!: stores_one)
next
  case False
  let ?n = "getWidth v div 8"
  have n: "access_bytes (getWidth v) = ?n" "getWidth v = ?n * 8" using False ok by (auto simp: access_bytes_def access_ok_def)
  note a = access_addresses [OF ok, where le = le, unfolded n(1)]
  have "stores cao env os (\<lambda>i. p + byte_index le ?n i) ?n (\<lambda>i. eval env v div 256 ^ i mod 256)
      (foldM (\<lambda>i os. do { b \<leftarrow> ExtractExpr_create v (8 * i) 8; write_byte ?n i b os }) [0..<?n] os)"
  proof (rule stores_loop [OF _ inv a(1) a(2)])
    fix i s
    assume i: "i < ?n" and s: "os_inv cao env s" "os_size s = os_size os"
    have "8 * i + 8 \<le> getWidth v" using i n(2) by linarith
    then obtain b where b: "ExtractExpr_create v (8 * i) 8 = Some b" "well_typed cao env b" "getWidth b = 8"
        "eval env b = eval env v div 256 ^ i mod 256"
      using ExtractExpr_create_gives(2) [OF v, of 8 "8 * i"] by (auto simp: gives_def take_bit_eq_mod drop_bit_eq_div power_mult)
    then show "\<exists>s'. (do { b \<leftarrow> ExtractExpr_create v (8 * i) 8; write_byte ?n i b s }) = Some s' \<and>
        sets_byte cao env s (p + byte_index le ?n i) (eval env v div 256 ^ i mod 256) s'"
      using step [of i s b] i s by (simp add: n(1))
  qed
  then show ?thesis using False n by (simp add: writes_def write_bytes_def)
qed

text \<open>Among the widths of whole bytes up to 64 bits the powers of two are those with a method of their own.\<close>

lemma power_of_two_widths:
  assumes "w \<le> 64" "w = w div 8 * 8" "0 < w"
  shows "isPowerOfTwo (of_nat w) \<longleftrightarrow> w \<in> {8, 16, 32, 64}"
proof -
  have "w div 8 \<in> {1, 2, 3, 4, 5, 6, 7, 8}" using assms by auto
  then show ?thesis by (subst (1 2) assms(2)) (auto simp: isPowerOfTwo_def)
qed

lemma write8_step:
  assumes "os_inv cao env os" "access_ok os p w" "i < access_bytes w" "os_inv cao env s" "os_size s = os_size os"
    "well_typed cao env e" "getWidth e = 8"
  shows "\<exists>s'. write8 ((p + byte_index le (access_bytes w) i) mod 2 ^ 32) e s = Some s' \<and>
           sets_byte cao env s (p + byte_index le (access_bytes w) i) (eval env e) s'"
proof -
  let ?j = "p + byte_index le (access_bytes w) i"
  have j: "?j < os_size s" "?j < 2 ^ 32" using access_addresses(2) [OF assms(2,3), of le] assms(1,5) by (auto simp: os_inv_def os_shape_def)
  show ?thesis using write8_ok [OF assms(4) j(1) assms(6,7)] j(2) by simp
qed

lemma write_const_ok:
  assumes inv: "os_inv cao env os" and ok: "access_ok os p (getWidth v)" and v: "well_typed cao env v"
  shows "writes cao env os le p (getWidth v) (eval env v) (write_const le p v os)"
proof -
  have general: "writes cao env os le p (getWidth v) (eval env v) (write_bytes (\<lambda>n i. write8 ((p + byte_index le n i) mod 2 ^ 32)) v os)"
    using write8_step [OF inv ok] by (intro write_bytes_ok [OF _ inv ok v]) blast
  show ?thesis
  proof (cases "as_constant v")
    case None
    then show ?thesis using general by (simp add: write_const_def)
  next
    case (Some c)
    then obtain w k where c: "v = ConstantExpr w k" by (cases c) auto
    consider "w \<in> {1, 8}" | "w \<in> {16, 32, 64}" | "w \<noteq> 1" "\<not> (w \<le> 64 \<and> isPowerOfTwo (of_nat w))"
      using power_of_two_widths [of w] ok c by (auto simp: access_ok_def)
    then show ?thesis
    proof cases
      case 1
      have k: "uint (word_of_int k :: 8 word) = k mod 256" "k mod 256 = k"
        using v c 1 in_width_mono [of w k 8] by (auto simp: uint_word_of_int in_width_iff take_bit_eq_mod)
      have "isPowerOfTwo (of_nat w)" "w \<le> 64" using 1 by (auto simp: isPowerOfTwo_def)
      moreover have "access_bytes w = 1" using 1 by (auto simp: access_bytes_def)
      ultimately show ?thesis
        using 1 c write8_concrete_ok [OF inv, of p "word_of_int k"] ok k
        by (auto simp: writes_def write_const_def byte_index_def access_ok_def intro!: stores_one)
    next
      case 2
      then have "isPowerOfTwo (of_nat w)" "w \<le> 64" "w \<notin> {1, 8}" by (auto simp: isPowerOfTwo_def)
      then show ?thesis using 2 c ok write_number_ok [OF inv, of p w le k] by (simp add: write_const_def)
    next
      case 3
      then show ?thesis using c general by (auto simp: write_const_def)
    qed
  qed
qed

lemma write_expr_ok:
  assumes inv: "os_inv cao env os" and ok: "access_ok os p (getWidth v)" and v: "well_typed cao env v" and off: "offset_ok cao env off p"
  shows "writes cao env os le p (getWidth v) (eval env v) (write_expr cao le off v os)"
  using off
proof (cases rule: offset_cases)
  case const
  then show ?thesis using write_const_ok [OF inv ok v] by (simp add: write_expr_def)
next
  case (symbolic e)
  let ?n = "access_bytes (getWidth v)"
  let ?wr = "\<lambda>n i b os. do { a \<leftarrow> AddExpr_create cao e (ConstantExpr 32 (int (byte_index le n i))); write8_symbolic a b os }"
  have "writes cao env os le p (getWidth v) (eval env v) (write_bytes ?wr v os)"
  proof (rule write_bytes_ok [OF _ inv ok v])
    fix i s b
    assume i: "i < ?n" and s: "os_inv cao env s" "os_size s = os_size os" and b: "well_typed cao env b" "getWidth b = 8"
    let ?j = "p + byte_index le ?n i"
    have j: "?j < os_size s" "?j < 2 ^ 32" using access_addresses(2) [OF ok i, of le] s inv by (auto simp: os_inv_def os_shape_def)
    have "eval env e + int (byte_index le ?n i) < 2 ^ 32" using j(2) symbolic(5) by simp
    then obtain a where a: "AddExpr_create cao e (ConstantExpr 32 (int (byte_index le ?n i))) = Some a" "\<not> isConstant a"
        "well_typed cao env a" "getWidth a = 32" "eval env a = int ?j"
      using byte_address [OF symbolic(2-4)] symbolic(5) by auto
    then show "\<exists>s'. ?wr ?n i b s = Some s' \<and> sets_byte cao env s ?j (eval env b) s'"
      using write8_symbolic_ok [OF s(1) a(2-5) j(1) b] by simp
  qed
  moreover have "write_expr cao le off v os = write_bytes ?wr v os"
  proof (cases "getWidth v = 1")
    case True
    have "AddExpr_create cao e (ConstantExpr 32 (int (byte_index le 1 0))) = Some e"
      using symbolic(2,4) by (simp add: byte_index_def AddExpr_create.simps AddExpr_createPartialR.simps)
    then show ?thesis using True symbolic(1,2) by (simp add: write_expr_def write_bytes_def)
  qed (simp add: write_expr_def symbolic(1,2))
  ultimately show ?thesis by simp
qed

subsection \<open>What was written is read\<close>

lemma base_256_digits: "(\<Sum>i<n. v div 256 ^ i mod 256 * 256 ^ i) = v mod 256 ^ n" for v :: int
proof (induction n)
  case (Suc n)
  then show ?case using zmod_zmult2_eq [of 256 v "256 ^ n"] by (simp add: mult.commute)
qed simp

lemma object_value_written:
  assumes "writes cao env os le p w v (Some os')" "in_width w v" "access_ok os p w"
  shows "object_value env os' le p w = v"
proof (cases "w = 1")
  case True
  then have "os_byte env os' p = v mod 256" using assms(1) by (auto simp: writes_def stores_def access_bytes_def byte_index_def split: if_splits)
  then show ?thesis using True assms(2) by (auto simp: object_value_def in_width_1)
next
  case False
  let ?n = "w div 8"
  have n: "w = 8 * ?n" using False assms(3) by (simp add: access_ok_def)
  have "object_value env os' le p w = (\<Sum>i<?n. v div 256 ^ i mod 256 * 256 ^ i)"
    using assms(1) False by (simp add: object_value_def writes_def stores_def access_bytes_def)
  also have "\<dots> = v mod 2 ^ w" by (subst n) (simp add: base_256_digits power_mult)
  finally show ?thesis using assms(2) by (simp add: in_width_iff take_bit_eq_mod)
qed

lemma object_value_cong:
  assumes "access_ok os q w" "\<And>j. q \<le> j \<Longrightarrow> j < q + access_bytes w \<Longrightarrow> os_byte env os' j = os_byte env os j"
  shows "object_value env os' le q w = object_value env os le q w"
  using assms(2) byte_index_less [of _ "w div 8" le] by (auto simp: object_value_def access_bytes_def intro!: sum.cong)

text \<open>
  An access to an object by offsets of some kind: what a read and a write at an offset are to do. The client reads what it
  wrote, and what it wrote elsewhere does not matter.
\<close>

locale object_access =
  fixes cao :: bool and env :: assignment and le :: bool and at_offset :: "'offset \<Rightarrow> nat \<Rightarrow> bool"
    and obj_read :: "'offset \<Rightarrow> width \<Rightarrow> object_state \<Rightarrow> (expr \<times> object_state) option"
    and obj_write :: "'offset \<Rightarrow> expr \<Rightarrow> object_state \<Rightarrow> object_state option"
  assumes reads_value: "os_inv cao env os \<Longrightarrow> access_ok os p w \<Longrightarrow> at_offset off p \<Longrightarrow>
      reads cao env os w (object_value env os le p w) (obj_read off w os)"
    and writes_value: "os_inv cao env os \<Longrightarrow> access_ok os p (getWidth v) \<Longrightarrow> well_typed cao env v \<Longrightarrow> at_offset off p \<Longrightarrow>
      writes cao env os le p (getWidth v) (eval env v) (obj_write off v os)"
begin

lemma write_returns:
  assumes "os_inv cao env os" "access_ok os p (getWidth v)" "well_typed cao env v" "at_offset off p"
  obtains os' where "obj_write off v os = Some os'" "os_inv cao env os'" "os_size os' = os_size os"
    "writes cao env os le p (getWidth v) (eval env v) (Some os')"
proof -
  have "writes cao env os le p (getWidth v) (eval env v) (obj_write off v os)" using writes_value [OF assms] .
  then obtain os' where "obj_write off v os = Some os'" "os_inv cao env os'" "os_size os' = os_size os" by (auto simp: writes_def stores_def)
  then show thesis using that writes_value [OF assms] by simp
qed

lemma read_after_write:
  assumes "os_inv cao env os" "access_ok os p (getWidth v)" "well_typed cao env v" "at_offset off p" "at_offset off' p"
  shows "reads cao env (the (obj_write off v os)) (getWidth v) (eval env v) (obj_write off v os \<bind> obj_read off' (getWidth v))"
proof -
  obtain os' where os': "obj_write off v os = Some os'" "os_inv cao env os'" "os_size os' = os_size os"
      "writes cao env os le p (getWidth v) (eval env v) (Some os')"
    using write_returns [OF assms(1-4)] by blast
  have "access_ok os' p (getWidth v)" using assms(2) os'(3) by (simp add: access_ok_def)
  moreover have "object_value env os' le p (getWidth v) = eval env v"
    using object_value_written [OF os'(4) _ assms(2)] eval_in_width [OF assms(3)] by simp
  ultimately show ?thesis using reads_value [OF os'(2) _ assms(5), of "getWidth v"] os'(1) by simp
qed

lemma read_elsewhere:
  assumes "os_inv cao env os" "access_ok os p (getWidth v)" "well_typed cao env v" "at_offset off p" "at_offset off' q" "access_ok os q w"
    "p + access_bytes (getWidth v) \<le> q \<or> q + access_bytes w \<le> p"
  shows "reads cao env (the (obj_write off v os)) w (object_value env os le q w) (obj_write off v os \<bind> obj_read off' w)"
proof -
  obtain os' where os': "obj_write off v os = Some os'" "os_inv cao env os'" "os_size os' = os_size os"
      "writes cao env os le p (getWidth v) (eval env v) (Some os')"
    using write_returns [OF assms(1-4)] by blast
  have ok: "access_ok os' q w" using assms(6) os'(3) by (simp add: access_ok_def)
  have "os_byte env os' j = os_byte env os j" if j: "q \<le> j" "j < q + access_bytes w" for j
  proof -
    have "j \<noteq> p + byte_index le (access_bytes (getWidth v)) i" if "i < access_bytes (getWidth v)" for i
      using byte_index_less [OF that, of le] assms(7) j by auto
    moreover have "j < os_size os" using j assms(6) by (simp add: access_ok_def)
    ultimately show ?thesis using os'(4) by (auto simp: writes_def stores_def)
  qed
  then have "object_value env os' le q w = object_value env os le q w" by (rule object_value_cong [OF assms(6)])
  then show ?thesis using reads_value [OF os'(2) ok assms(5)] os'(1) by simp
qed

end

interpretation const_access: object_access cao env le "(=)" "read_const cao le new" "write_const le" for cao env le new
  by unfold_locales (auto intro: read_const_ok write_const_ok)

interpretation expr_access: object_access cao env le "offset_ok cao env" "read_expr cao le new" "write_expr cao le" for cao env le new
  by unfold_locales (auto intro: read_expr_ok write_expr_ok)

subsection \<open>The objects of the constructors\<close>

lemma makeConcrete_ok:
  assumes "updates_ok cao env os" "os_size os < 2 ^ 32" "length c = os_size os"
  shows "os_inv cao env ((makeConcrete os)\<lparr>concreteStore := c\<rparr>)" "os_byte env ((makeConcrete os)\<lparr>concreteStore := c\<rparr>) j = uint (c ! j)"
  using assms updates_ok_cong [of "(makeConcrete os)\<lparr>concreteStore := c\<rparr>" os cao env]
  by (auto simp: makeConcrete_def os_inv_def os_shape_def byte_ok_def os_byte_def isByteConcrete_def isByteUnflushed_def knownSymbolic_def)

text \<open>An array for the updates of an object.\<close>

definition object_array :: "array \<Rightarrow> nat \<Rightarrow> bool" where
  "object_array arr sz \<longleftrightarrow> array_ok arr \<and> array_domain arr = 32 \<and> array_range arr = 8 \<and> array_size arr = sz \<and> sz < 2 ^ 32"

lemma makeSymbolic_bytes:
  assumes "os_shape os" "k \<le> os_size os"
  shows "let s = fold (\<lambda>i. markByteFlushed i \<circ> setKnownSymbolic i None \<circ> markByteSymbolic i) [0..<k] os in
     os_shape s \<and> upd_root s = upd_root os \<and> upd_head s = upd_head os \<and> os_size s = os_size os \<and> (0 < k \<longrightarrow> unflushedMask s \<noteq> None) \<and>
     (\<forall>j<os_size os. j < k \<longrightarrow> plain s j \<and> \<not> isByteUnflushed s j)"
  using assms(2)
proof (induction k)
  case 0
  then show ?case using assms(1) by simp
next
  case (Suc k)
  define s where "s = fold (\<lambda>i. markByteFlushed i \<circ> setKnownSymbolic i None \<circ> markByteSymbolic i) [0..<k] os"
  let ?a = "markByteSymbolic k s"
  let ?b = "setKnownSymbolic k None ?a"
  let ?c = "markByteFlushed k ?b"
  have s: "os_shape s" "upd_root s = upd_root os" "upd_head s = upd_head os" "os_size s = os_size os" "0 < k \<Longrightarrow> unflushedMask s \<noteq> None"
      "\<And>j. j < os_size os \<Longrightarrow> j < k \<Longrightarrow> plain s j \<and> \<not> isByteUnflushed s j"
    using Suc.IH Suc.prems unfolding s_def Let_def by auto
  have a: "os_shape ?a" using s(1) by (rule flag_shape)
  have b: "os_shape ?b" using a by (rule flag_shape)
  have "plain ?c j \<and> \<not> isByteUnflushed ?c j" if j: "j < os_size os" "j < Suc k" for j
  proof -
    have "isByteConcrete ?c j \<longleftrightarrow> j \<noteq> k \<and> isByteConcrete s j" "knownSymbolic ?c j = (if j = k then None else knownSymbolic s j)"
      using flag_effect(2) [OF s(1), of k j] flag_effect(5) [OF a, of k j None] j s(4) Suc.prems by auto
    moreover have "\<not> isByteUnflushed ?c j"
      using s(1) s(4-6) j a b by (cases "j = k") (auto simp: os_flags os_shape_def nth_list_update split: option.splits)
    ultimately show ?thesis using s(6) [OF j(1)] j(2) by (cases "j = k") (auto simp: plain_def)
  qed
  moreover have "os_shape ?c" using b by (rule flag_shape)
  moreover have "unflushedMask ?c \<noteq> None" by (simp add: markByteFlushed_def)
  moreover have eq: "fold (\<lambda>i. markByteFlushed i \<circ> setKnownSymbolic i None \<circ> markByteSymbolic i) [0..<Suc k] os = ?c"
    unfolding s_def by simp
  ultimately show ?case unfolding Let_def eq using s(2-4) by simp
qed

lemma new_symbolic_ok:
  assumes "object_array arr sz"
  shows "\<exists>os. new_symbolic arr sz = Some os \<and> os_inv cao env os \<and> os_size os = sz \<and>
           (\<forall>j < sz. os_byte env os j = initial_value env arr (int j))"
proof -
  let ?os = "\<lparr>copyOnWriteOwner = 0, concreteStore = replicate sz 0, concreteMask = None, knownSymbolics = None, unflushedMask = None,
          upd_root = Some arr, upd_head = [], os_size = sz, os_readOnly = False\<rparr>"
  let ?s = "fold (\<lambda>i. markByteFlushed i \<circ> setKnownSymbolic i None \<circ> markByteSymbolic i) [0..<sz] ?os"
  let ?t = "?s\<lparr>concreteStore := replicate sz 0\<rparr>"
  have "os_shape ?os" using assms by (simp add: os_shape_def object_array_def)
  with makeSymbolic_bytes [of ?os sz] have s: "os_shape ?s" "upd_root ?s = Some arr" "upd_head ?s = []" "os_size ?s = sz"
      "\<And>j. j < sz \<Longrightarrow> plain ?s j \<and> \<not> isByteUnflushed ?s j"
    by (auto simp: Let_def)
  have v: "upd_value env ?t j = initial_value env arr (int j)" for j using s(2,3) by (simp add: upd_value_def)
  have b: "os_byte env ?t j = initial_value env arr (int j)" if "j < sz" for j
    using s(5) [OF that] v by (simp add: os_byte_def plain_def)
  then have "byte_ok cao env ?t j" if "j < sz" for j
    using s(5) [OF that] v that by (simp add: byte_ok_def plain_def)
  moreover have "os_shape ?t" "updates_ok cao env ?t"
    using s(1-4) assms by (auto simp: os_shape_def updates_ok_def typed_updates_def object_array_def)
  ultimately have "os_inv cao env ?t" using s(4) by (simp add: os_inv_def)
  then show ?thesis using b s(4) by (auto simp: new_symbolic_def makeSymbolic_def)
qed

lemma new_concrete_ok:
  assumes "useConstantArrays \<or> object_array arr sz" "sz < 2 ^ 32"
  shows "os_inv cao env (new_concrete useConstantArrays arr sz)"
    "os_byte env (new_concrete useConstantArrays arr sz) j = uint ((replicate sz (0 :: 8 word)) ! j)"
proof -
  let ?os = "new_concrete useConstantArrays arr sz"
  have u: "updates_ok cao env ?os" "os_size ?os = sz"
    using assms by (auto simp: new_concrete_def updates_ok_def typed_updates_def object_array_def)
  have eq: "?os = (makeConcrete ?os)\<lparr>concreteStore := replicate sz 0\<rparr>" by (simp add: new_concrete_def makeConcrete_def)
  show "os_inv cao env ?os" by (subst eq, rule makeConcrete_ok) (use u assms in simp_all)
  show "os_byte env ?os j = uint ((replicate sz (0 :: 8 word)) ! j)" by (subst eq, rule makeConcrete_ok) (use u assms in simp_all)
qed

subsection \<open>Values for external calls\<close>

text \<open>One byte of \<open>flushToConcreteStore\<close>.\<close>

definition flush_byte :: "(expr \<Rightarrow> int option) \<Rightarrow> nat \<Rightarrow> object_state \<Rightarrow> object_state" where
  "flush_byte getValue i s = (case knownSymbolic s i of
         None \<Rightarrow> s
       | Some e \<Rightarrow>
           (case getValue (if isByteConcrete s i then ConstantExpr 8 (uint (concreteStore s ! i)) else e) of
              None \<Rightarrow> s
            | Some v \<Rightarrow> s\<lparr>concreteStore := (concreteStore s)[i := word_of_int v]\<rparr>))"

text \<open>The store after the bytes of a list are flushed; the masks and the updates are as they were.\<close>

lemma flush_bytes_ok:
  assumes "os_shape os" "set is \<subseteq> {..<os_size os}" "distinct is" "\<And>j e. j < os_size os \<Longrightarrow> knownSymbolic os j = Some e \<Longrightarrow> \<not> isByteConcrete os j"
  shows "\<exists>c. fold (flush_byte getValue) is os = os\<lparr>concreteStore := c\<rparr> \<and> length c = os_size os \<and>
           (\<forall>j<os_size os. c ! j = (case (if j \<in> set is then knownSymbolic os j \<bind> getValue else None) of
              None \<Rightarrow> concreteStore os ! j | Some v \<Rightarrow> word_of_int v))"
  using assms
proof (induction "is" arbitrary: os)
  case Nil
  then show ?case by (auto simp: os_shape_def intro!: exI [of _ "concreteStore os"])
next
  case (Cons i "is")
  let ?c = "(case knownSymbolic os i \<bind> getValue of None \<Rightarrow> concreteStore os | Some v \<Rightarrow> (concreteStore os)[i := word_of_int v])"
  let ?s = "os\<lparr>concreteStore := ?c\<rparr>"
  have i: "i < os_size os" "i < length (concreteStore os)" "length ?c = os_size os"
    using Cons.prems(1,2) by (auto simp: os_shape_def split: option.split)
  have s: "flush_byte getValue i os = ?s"
    using Cons.prems(4) [OF i(1)] by (auto simp: flush_byte_def split: option.split)
  have "os_shape ?s" using Cons.prems(1) i(3) by (simp add: os_shape_def)
  then obtain c where c: "fold (flush_byte getValue) is ?s = os\<lparr>concreteStore := c\<rparr>" "length c = os_size os"
      "\<forall>j<os_size os. c ! j = (case (if j \<in> set is then knownSymbolic ?s j \<bind> getValue else None) of None \<Rightarrow> concreteStore ?s ! j | Some v \<Rightarrow> word_of_int v)"
    using Cons.IH [of ?s] Cons.prems(2-4) by auto
  then show ?case using s i Cons.prems(3) by (intro exI [of _ c]) (auto split: option.split simp: nth_list_update)
qed

lemma flushToConcreteStore_ok:
  assumes "os_inv cao env os"
  shows "\<exists>c. flushToConcreteStore getValue os = os\<lparr>concreteStore := c\<rparr> \<and> length c = os_size os \<and>
           (\<forall>j<os_size os. c ! j = (case knownSymbolic os j \<bind> getValue of None \<Rightarrow> concreteStore os ! j | Some v \<Rightarrow> word_of_int v))"
proof -
  have "flushToConcreteStore getValue os = fold (flush_byte getValue) [0..<os_size os] os"
    by (simp add: flushToConcreteStore_def flush_byte_def [abs_def])
  moreover have "\<not> isByteConcrete os j" if "j < os_size os" "knownSymbolic os j = Some e" for j e
    using assms that by (auto simp: os_inv_def byte_ok_def)
  ultimately show ?thesis
    using flush_bytes_ok [of os "[0..<os_size os]" getValue] assms by (simp add: os_inv_def lessThan_atLeast0)
qed

subsection \<open>The correctness of memory objects\<close>

text \<open>
  C25. \<open>ObjectState::read\<close> at any offset, constant or symbolic, that stands for a position of the object with
  the bytes of the access inside it: no assertion fails, the expression has the width that is asked for and its value
  under the assignment is that of the bytes at that position, in the byte order of the target; the object
  has the same bytes as before, and the cache invariants, though the read has flushed bytes to the updates.
\<close>

theorem object_read_refines:
  assumes "os_inv cao env os" "access_ok os p w" "offset_ok cao env off p"
  shows "\<exists>e os'. read_expr cao le new off w os = Some (e, os') \<and> well_typed cao env e \<and> getWidth e = w \<and>
           eval env e = object_value env os le p w \<and> os_inv cao env os' \<and> os_size os' = os_size os \<and>
           (\<forall>j<os_size os. os_byte env os' j = os_byte env os j)"
  using expr_access.reads_value [OF assms, where le = le and new = new] by (auto simp: reads_def same_bytes_def)

text \<open>
  C26. \<open>ObjectState::write\<close> at any such offset of any value of one bit or of whole bytes: no assertion fails, the
  bytes of the value are at that position in the byte order of the target, every other byte has the value it
  had, and the cache invariants hold.
\<close>

theorem object_write_refines:
  assumes "os_inv cao env os" "access_ok os p (getWidth v)" "well_typed cao env v" "offset_ok cao env off p"
  shows "\<exists>os'. write_expr cao le off v os = Some os' \<and> os_inv cao env os' \<and> os_size os' = os_size os \<and>
           (\<forall>i<access_bytes (getWidth v).
              os_byte env os' (p + byte_index le (access_bytes (getWidth v)) i) = eval env v div 256 ^ i mod 256) \<and>
           (\<forall>j<os_size os. j < p \<or> p + access_bytes (getWidth v) \<le> j \<longrightarrow> os_byte env os' j = os_byte env os j)"
proof -
  let ?n = "access_bytes (getWidth v)"
  obtain os' where os': "write_expr cao le off v os = Some os'" "os_inv cao env os'" "os_size os' = os_size os"
      "writes cao env os le p (getWidth v) (eval env v) (Some os')"
    using expr_access.write_returns [OF assms, where le = le] by blast
  have "j \<notin> (\<lambda>i. p + byte_index le ?n i) ` {..<?n}" if "j < p \<or> p + ?n \<le> j" for j
    using that byte_index_less [of _ ?n le] by fastforce
  then show ?thesis using os' by (auto simp: writes_def stores_def)
qed

text \<open>
  A value written at an offset is read back: the read, at the same or another offset expression for that position,
  returns an expression with the width and the value of what was written.
\<close>

theorem object_write_read:
  assumes "os_inv cao env os" "access_ok os p (getWidth v)" "well_typed cao env v" "offset_ok cao env off p" "offset_ok cao env off' p"
  shows "\<exists>os1 e os2. write_expr cao le off v os = Some os1 \<and> read_expr cao le new off' (getWidth v) os1 = Some (e, os2) \<and>
           well_typed cao env e \<and> getWidth e = getWidth v \<and> eval env e = eval env v"
  using expr_access.read_after_write [OF assms, where le = le and new = new] by (auto simp: reads_def split: bind_splits)

text \<open>
The constructors: an object with symbolic contents exists for an array of its size and has the bytes of the
  array; an object with concrete contents is zero; both have the cache invariants. \<open>initializeToZero\<close> and
  \<open>initializeToRandom\<close> bring any object there, with every byte 0 or 0xAB.
\<close>

theorem new_objects_ok:
  assumes "object_array arr sz"
  shows "(\<exists>os. new_symbolic arr sz = Some os \<and> os_inv cao env os \<and> (\<forall>j < sz. os_byte env os j = initial_value env arr (int j))) \<and>
    os_inv cao env (new_concrete useConstantArrays arr sz) \<and> (\<forall>j < sz. os_byte env (new_concrete useConstantArrays arr sz) j = 0) \<and>
    (\<forall>os. os_inv cao env os \<longrightarrow>
       os_inv cao env (initializeToZero os) \<and> os_inv cao env (initializeToRandom os) \<and>
       (\<forall>j<os_size os. os_byte env (initializeToZero os) j = 0 \<and> os_byte env (initializeToRandom os) j = 0xAB))"
proof -
  have n: "sz < 2 ^ 32" using assms by (simp add: object_array_def)
  have "os_inv cao env (initializeToZero os) \<and> os_inv cao env (initializeToRandom os) \<and>
      (\<forall>j<os_size os. os_byte env (initializeToZero os) j = 0 \<and> os_byte env (initializeToRandom os) j = 0xAB)" if "os_inv cao env os" for os
  proof -
    have u: "updates_ok cao env os" "os_size os < 2 ^ 32" using that by (auto simp: os_inv_def os_shape_def)
    show ?thesis using makeConcrete_ok [OF u, of "replicate (os_size os) _"] by (simp add: initializeToZero_def initializeToRandom_def One_nat_def)
  qed
  then show ?thesis
    using new_symbolic_ok [OF assms, of cao env] new_concrete_ok(1) [of useConstantArrays arr sz cao env]
      new_concrete_ok(2) [of useConstantArrays arr sz env] assms n by auto
qed

text \<open>
  C39. \<open>flushToConcreteStore\<close> looks only at the bytes whose symbolic expression is cached: the bytes of an object
  with symbolic contents that were never written keep the zero that the constructor put there, whatever the
  solver would answer, so that is what an external call sees of them.
\<close>

theorem flush_skips_array_bytes:
  assumes "object_array arr sz" "new_symbolic arr sz = Some os"
  shows "flushToConcreteStore getValue os = os \<and> concreteStore os = replicate sz 0"
proof -
  let ?s = "\<lparr>copyOnWriteOwner = 0, concreteStore = replicate sz 0, concreteMask = None, knownSymbolics = None, unflushedMask = None,
          upd_root = Some arr, upd_head = [], os_size = sz, os_readOnly = False\<rparr>"
  have "os_shape ?s" using assms(1) by (simp add: os_shape_def object_array_def)
  with makeSymbolic_bytes [of ?s sz] have os: "\<And>j. j < sz \<Longrightarrow> knownSymbolic os j = None" "os_size os = sz" "concreteStore os = replicate sz 0"
    using assms(2) by (auto simp: new_symbolic_def makeSymbolic_def Let_def plain_def)
  have "os_inv cao env os" for cao env using new_symbolic_ok [OF assms(1), of cao env] assms(2) by auto
  then obtain c where c: "flushToConcreteStore getValue os = os\<lparr>concreteStore := c\<rparr>" "length c = sz" "\<forall>j < sz. c ! j = concreteStore os ! j"
    using flushToConcreteStore_ok [of False undefined os getValue] os by auto
  then have "c = concreteStore os" using os(3) by (intro nth_equalityI) auto
  then show ?thesis using c(1) os(3) by simp
qed

subsection \<open>Concrete instances\<close>

text \<open>A byte of an array as an offset, and a value of two bytes with a symbolic one.\<close>

definition sample_array :: "nat \<Rightarrow> array" where
  "sample_array n = \<lparr>array_ptr = n, array_name = ''a'', array_size = n, array_domain = 32, array_range = 8, constantValues = []\<rparr>"

definition sample_read :: expr where
  "sample_read = ReadExpr (sample_array 2) [] (ConstantExpr 32 0)"

definition sample_env :: assignment where
  "sample_env a i = 1"

lemma sample_offset: "offset_ok False sample_env (ZExtExpr sample_read 32) 1"
  by (simp add: offset_ok_def sample_read_def sample_array_def sample_env_def array_ok_def ZExtExpr_create_def initial_value_def isSymbolicArray_def)

lemma sample_value:
  "well_typed False sample_env (ConcatExpr (ConstantExpr 8 7) sample_read)"
  "eval sample_env (ConcatExpr (ConstantExpr 8 7) sample_read) = 0x701"
  "getWidth (ConcatExpr (ConstantExpr 8 7) sample_read) = 16"
  by (simp_all add: sample_read_def sample_array_def sample_env_def array_ok_def in_width_def constant_concat_def initial_value_def isSymbolicArray_def One_nat_def)

lemma sample_object: "os_inv False sample_env (new_concrete True (sample_array 4) 4)" "access_ok (new_concrete True (sample_array 4) 4) 1 16"
  using new_concrete_ok(1) [of True "sample_array 4" 4 False sample_env] by (simp_all add: access_ok_def access_bytes_def new_concrete_def)

theorem object_read_refines_witness:
  "\<exists>e os'. read_expr False True (1, ''c'') (ZExtExpr sample_read 32) 16 (new_concrete True (sample_array 4) 4) = Some (e, os') \<and> eval sample_env e = 0"
proof -
  have "os_byte sample_env (new_concrete True (sample_array 4) 4) j = 0" if "j < 4" for j
    using new_concrete_ok(2) [of True "sample_array 4" 4 sample_env j] that by simp
  then have "object_value sample_env (new_concrete True (sample_array 4) 4) True 1 16 = 0"
    by (auto simp: object_value_def byte_index_def intro!: sum.neutral)
  then show ?thesis using object_read_refines [OF sample_object sample_offset, of True "(1, ''c'')"] by auto
qed

theorem object_write_refines_witness:
  "\<exists>os'. write_expr False True (ZExtExpr sample_read 32) (ConcatExpr (ConstantExpr 8 7) sample_read) (new_concrete True (sample_array 4) 4) = Some os' \<and>
     os_byte sample_env os' 1 = 1 \<and> os_byte sample_env os' 2 = 7"
proof -
  let ?v = "ConcatExpr (ConstantExpr 8 7) sample_read"
  have "access_ok (new_concrete True (sample_array 4) 4) 1 (getWidth ?v)" unfolding sample_value(3) by (rule sample_object)
  from object_write_refines [OF sample_object(1) this sample_value(1) sample_offset, of True, unfolded sample_value]
  obtain os' where os': "write_expr False True (ZExtExpr sample_read 32) ?v (new_concrete True (sample_array 4) 4) = Some os'"
      "\<forall>i<access_bytes 16. os_byte sample_env os' (1 + byte_index True (access_bytes 16) i) = 1793 div 256 ^ i mod 256"
    by auto
  have "os_byte sample_env os' 1 = 1" "os_byte sample_env os' 2 = 7"
    using os'(2) [rule_format, of 0] os'(2) [rule_format, of 1] by (simp_all add: access_bytes_def byte_index_def)
  then show ?thesis using os'(1) by blast
qed

theorem object_write_read_witness:
  "\<exists>os1 e os2. write_expr False False (ZExtExpr sample_read 32) (ConcatExpr (ConstantExpr 8 7) sample_read) (new_concrete True (sample_array 4) 4) = Some os1 \<and>
     read_expr False False (1, ''c'') (ZExtExpr sample_read 32) 16 os1 = Some (e, os2) \<and> eval sample_env e = 0x701"
proof -
  let ?v = "ConcatExpr (ConstantExpr 8 7) sample_read"
  have "access_ok (new_concrete True (sample_array 4) 4) 1 (getWidth ?v)" unfolding sample_value(3) by (rule sample_object)
  from object_write_read [OF sample_object(1) this sample_value(1) sample_offset sample_offset, of False "(1, ''c'')", unfolded sample_value]
  show ?thesis by auto
qed

theorem new_objects_ok_witness:
  "\<exists>os. new_symbolic (sample_array 4) 4 = Some os \<and> os_byte sample_env os 2 = 1"
  using new_objects_ok [of "sample_array 4" 4 False sample_env True]
  by (fastforce simp: object_array_def sample_array_def array_ok_def sample_env_def initial_value_def isSymbolicArray_def)

theorem flush_skips_array_bytes_witness:
  "\<exists>os. new_symbolic (sample_array 4) 4 = Some os \<and> concreteStore (flushToConcreteStore (\<lambda>e. Some 65) os) = [0, 0, 0, 0]"
proof -
  have a: "object_array (sample_array 4) 4" by (simp add: object_array_def sample_array_def array_ok_def)
  obtain os where os: "new_symbolic (sample_array 4) 4 = Some os" using new_symbolic_ok [OF a] by blast
  show ?thesis using flush_skips_array_bytes [OF a os, of "\<lambda>e. Some 65"] os by (simp add: numeral_eq_Suc)
qed

end
