(* ===== verification/TimingSolver.thy ===== *)
theory TimingSolver
  imports Solver
begin

unbundle bit_operations_syntax

declare One_nat_def [simp del]

section \<open>The solver of the executor\<close>

text \<open>
  \<open>TimingSolver\<close> (\<open>klee/lib/Core/TimingSolver.cpp\<close>) answers constants itself and passes other queries to the solver
  chain. The argument \<open>simplify\<close> is \<open>ConstraintManager::simplifyExpr\<close> when the executor simplifies queries with the
  constraints, and returns its expression when it does not. The times it adds up are left out.
\<close>

definition ts_query :: "(expr list \<Rightarrow> expr \<Rightarrow> expr option) \<Rightarrow> expr list \<Rightarrow> expr \<Rightarrow> query option" where
  "ts_query simplify cs e = map_option (\<lambda>e'. \<lparr>q_constraints = cs, q_expr = e'\<rparr>) (simplify cs e)"

definition ts_evaluate :: "(expr list \<Rightarrow> expr \<Rightarrow> expr option) \<Rightarrow> 's solver_impl \<Rightarrow> expr list \<Rightarrow> expr \<Rightarrow> 's \<Rightarrow> (validity, 's) answer" where
  "ts_evaluate simplify impl cs e s =
     (case as_constant e of
        Some (w, v) \<Rightarrow> Some (Some (if isTrue w v then Validity_True else Validity_False), s)
      | None \<Rightarrow> do { q \<leftarrow> ts_query simplify cs e; sv_evaluate impl q s })"

definition ts_mustBeTrue :: "(expr list \<Rightarrow> expr \<Rightarrow> expr option) \<Rightarrow> 's solver_impl \<Rightarrow> expr list \<Rightarrow> expr \<Rightarrow> 's \<Rightarrow> (bool, 's) answer" where
  "ts_mustBeTrue simplify impl cs e s =
     (case as_constant e of
        Some (w, v) \<Rightarrow> Some (Some (isTrue w v), s)
      | None \<Rightarrow> do { q \<leftarrow> ts_query simplify cs e; mustBeTrue impl q s })"

definition ts_mustBeFalse :: "bool \<Rightarrow> (expr list \<Rightarrow> expr \<Rightarrow> expr option) \<Rightarrow> 's solver_impl \<Rightarrow> expr list \<Rightarrow> expr \<Rightarrow> 's \<Rightarrow> (bool, 's) answer" where
  "ts_mustBeFalse cao simplify impl cs e s = do { n \<leftarrow> createIsZero cao e; ts_mustBeTrue simplify impl cs n s }"

definition ts_mayBeTrue :: "bool \<Rightarrow> (expr list \<Rightarrow> expr \<Rightarrow> expr option) \<Rightarrow> 's solver_impl \<Rightarrow> expr list \<Rightarrow> expr \<Rightarrow> 's \<Rightarrow> (bool, 's) answer" where
  "ts_mayBeTrue cao simplify impl cs e s = ask (ts_mustBeFalse cao simplify impl cs e s) (\<lambda>res s'. Some (Some (\<not> res), s'))"

definition ts_mayBeFalse :: "(expr list \<Rightarrow> expr \<Rightarrow> expr option) \<Rightarrow> 's solver_impl \<Rightarrow> expr list \<Rightarrow> expr \<Rightarrow> 's \<Rightarrow> (bool, 's) answer" where
  "ts_mayBeFalse simplify impl cs e s = ask (ts_mustBeTrue simplify impl cs e s) (\<lambda>res s'. Some (Some (\<not> res), s'))"

definition ts_getValue :: "(expr list \<Rightarrow> expr \<Rightarrow> expr option) \<Rightarrow> 's solver_impl \<Rightarrow> expr list \<Rightarrow> expr \<Rightarrow> 's \<Rightarrow> (expr, 's) answer" where
  "ts_getValue simplify impl cs e s =
     (if isConstant e then Some (Some e, s)
      else do { q \<leftarrow> ts_query simplify cs e; getValue impl q s })"

definition ts_getInitialValues :: "'s solver_impl \<Rightarrow> expr list \<Rightarrow> array list \<Rightarrow> 's \<Rightarrow> (int list list, 's) answer" where
  "ts_getInitialValues impl cs objects s =
     (if objects = [] then Some (Some [], s)
      else getInitialValues impl \<lparr>q_constraints = cs, q_expr = ConstantExpr 1 0\<rparr> objects s)"

definition ts_getRange :: "bool \<Rightarrow> 's solver_impl \<Rightarrow> expr list \<Rightarrow> expr \<Rightarrow> 's \<Rightarrow> ((expr \<times> expr) \<times> 's) option" where
  "ts_getRange cao impl cs e s = getRange cao impl \<lparr>q_constraints = cs, q_expr = e\<rparr> s"

subsection \<open>Its answers\<close>

text \<open>A simplification keeps the type and, under the constraints, the value.\<close>

definition simplifies :: "bool \<Rightarrow> (expr list \<Rightarrow> expr \<Rightarrow> expr option) \<Rightarrow> bool" where
  "simplifies cao simplify \<longleftrightarrow>
     (\<forall>cs e. typed cao e \<longrightarrow> (\<exists>e'. simplify cs e = Some e' \<and> typed cao e' \<and> getWidth e' = getWidth e \<and>
        (\<forall>env. models env cs \<longrightarrow> eval env e' = eval env e)))"

lemma simplifies_off: "simplifies cao (\<lambda>cs e. Some e)"
  by (simp add: simplifies_def)

text \<open>The constraints of a state: truth values, with a solution.\<close>

definition path_ok :: "bool \<Rightarrow> expr list \<Rightarrow> bool" where
  "path_ok cao cs \<longleftrightarrow> (\<forall>c\<in>set cs. typed cao c \<and> getWidth c = 1) \<and> (\<exists>env. models env cs)"

definition always :: "expr list \<Rightarrow> expr \<Rightarrow> bool" where
  "always cs e \<longleftrightarrow> (\<forall>env. models env cs \<longrightarrow> eval env e \<noteq> 0)"

definition sometimes :: "expr list \<Rightarrow> expr \<Rightarrow> bool" where
  "sometimes cs e \<longleftrightarrow> (\<exists>env. models env cs \<and> eval env e \<noteq> 0)"

lemma path_query:
  assumes "path_ok cao cs" "typed cao e"
  shows "query_ok cao \<lparr>q_constraints = cs, q_expr = e\<rparr>" "consistent \<lparr>q_constraints = cs, q_expr = e\<rparr>"
    "must \<lparr>q_constraints = cs, q_expr = e\<rparr> = always cs e"
    "getWidth e = 1 \<Longrightarrow> bool_query cao \<lparr>q_constraints = cs, q_expr = e\<rparr>"
  using assms by (auto simp: path_ok_def query_ok_def consistent_def must_def always_def bool_query_def)

lemma simplified_query:
  assumes "simplifies cao simplify" "path_ok cao cs" "typed cao e"
  obtains q where "ts_query simplify cs e = Some q" "query_ok cao q" "consistent q" "must q = always cs e"
    "getWidth (q_expr q) = getWidth e" "getWidth e = 1 \<Longrightarrow> bool_query cao q" "q_constraints q = cs" "vals q = {eval env e |env. models env cs}"
proof -
  obtain e' where e': "simplify cs e = Some e'" "typed cao e'" "getWidth e' = getWidth e" "\<And>env. models env cs \<Longrightarrow> eval env e' = eval env e"
    using assms(1,3) unfolding simplifies_def by meson
  have "always cs e' = always cs e" using e'(4) by (auto simp: always_def)
  moreover have "{eval env e' |env. models env cs} = {eval env e |env. models env cs}" by (rule Collect_cong) (metis e'(4))
  ultimately show thesis using that [of "\<lparr>q_constraints = cs, q_expr = e'\<rparr>"] path_query [OF assms(2) e'(2)] e' by (simp add: ts_query_def vals_def)
qed

text \<open>What the executor relies on: answers are right.\<close>

locale timing_solver = solver +
  fixes simplify :: "expr list \<Rightarrow> expr \<Rightarrow> expr option"
  assumes simplify_ok: "simplifies cao simplify"
begin

lemma mustBeTrue_right:
  assumes "good s" "path_ok cao cs" "typed cao e" "getWidth e = 1"
  shows "answers good (\<lambda>b. b = always cs e) (ts_mustBeTrue simplify impl cs e s)"
proof (cases "as_constant e")
  case (Some p)
  then obtain v where v: "e = ConstantExpr 1 v" using assms(4) by (cases p) auto
  have "always cs e = (v \<noteq> 0)" using assms(2) v by (auto simp: always_def path_ok_def)
  then show ?thesis using v assms(1) by (simp add: ts_mustBeTrue_def isTrue_def)
next
  case None
  obtain q where q: "ts_query simplify cs e = Some q" "consistent q" "must q = always cs e" "bool_query cao q"
    using simplified_query [OF simplify_ok assms(2,3)] assms(4) by metis
  have "answers good (\<lambda>b. b = must q) (mustBeTrue impl q s)"
  proof (cases "as_constant (q_expr q)")
    case None
    then show ?thesis using truth [OF assms(1) q(4,2)] q(4) by (simp add: mustBeTrue_def bool_query_def)
  next
    case (Some p)
    then obtain v where v: "q_expr q = ConstantExpr 1 v" using q(4) by (cases p) (auto simp: bool_query_def)
    have "must q = (v \<noteq> 0)" using q(2) v by (auto simp: must_def consistent_def)
    then show ?thesis using v assms(1) by (simp add: mustBeTrue_def isTrue_def)
  qed
  then show ?thesis using None q(1,3) by (simp add: ts_mustBeTrue_def)
qed

lemma mayBeTrue_right:
  assumes "good s" "path_ok cao cs" "typed cao e" "getWidth e = 1"
  shows "answers good (\<lambda>b. b = sometimes cs e) (ts_mayBeTrue cao simplify impl cs e s)"
proof -
  have "gives cao env 1 (of_bool (eval env e = 0)) (createIsZero cao e)" for env
    using assms(3) createIsZero_gives by (simp add: typed_def)
  then obtain z where z: "createIsZero cao e = Some z" "typed cao z" "getWidth z = 1" "\<And>env. eval env z = of_bool (eval env e = 0)"
    using gives_all [of cao 1 "\<lambda>env. of_bool (eval env e = 0)"] by metis
  have "always cs z = (\<not> sometimes cs e)" using z(4) by (auto simp: always_def sometimes_def)
  then show ?thesis
    using mustBeTrue_right [OF assms(1,2) z(2,3)] unfolding ts_mayBeTrue_def ts_mustBeFalse_def z(1)
    by (intro answers_ask) auto
qed

lemma getValue_right:
  assumes "good s" "path_ok cao cs" "typed cao e"
  shows "answers good (\<lambda>c. \<exists>env. models env cs \<and> c = ConstantExpr (getWidth e) (eval env e)) (ts_getValue simplify impl cs e s)"
proof (cases "isConstant e")
  case True
  then obtain w v where "e = ConstantExpr w v" by (cases e) auto
  then show ?thesis using assms(1,2) by (auto simp: ts_getValue_def path_ok_def)
next
  case False
  obtain q where q: "ts_query simplify cs e = Some q" "query_ok cao q" "consistent q" "getWidth (q_expr q) = getWidth e" "q_constraints q = cs"
      "vals q = {eval env e |env. models env cs}"
    by (rule simplified_query [OF simplify_ok assms(2,3)]) (rule that, assumption+)
  have right: "\<exists>env. models env cs \<and> c = ConstantExpr (getWidth e) (eval env e)" if rv: "right_value q c" for c
  proof -
    obtain env where env: "models env cs" "c = ConstantExpr (getWidth e) (eval env (q_expr q))" using rv q(4,5) by (auto simp: right_value_def)
    then have "eval env (q_expr q) \<in> {eval env e |env. models env cs}" using q(5,6) by (auto simp: vals_def)
    then show ?thesis using env(2) by auto
  qed
  have "answers good (right_value q) (getValue impl q s)"
  proof (cases "isConstant (q_expr q)")
    case True
    then obtain w v where "q_expr q = ConstantExpr w v" by (cases "q_expr q") auto
    then show ?thesis using assms(1) q(3) by (auto simp: getValue_def right_value_def consistent_def)
  next
    case False
    have "answers good (right_value q) (ask (si_computeValue impl q s) (\<lambda>tmp s'. if isConstant tmp then Some (Some tmp, s') else None))"
      by (rule answers_ask [OF computed_value [OF assms(1) q(2,3)]]) (auto simp: right_value_def)
    then show ?thesis using False by (simp add: getValue_def)
  qed
  then show ?thesis using False q(1) right by (auto simp: ts_getValue_def intro: answers_weaken)
qed

end

text \<open>The solver without simplification, over any solver.\<close>

lemma timing_solver_off: "solver cao impl good \<Longrightarrow> timing_solver cao impl good (\<lambda>cs e. Some e)"
  by (simp add: timing_solver_def timing_solver_axioms_def simplifies_off)

interpretation ideal_timing: timing_solver cao ideal_solver "\<lambda>_. True" "\<lambda>cs e. Some e" for cao
  by (intro timing_solver_off) (rule ideal.solver_axioms)

end
