(* ===== verification/ImmutableTree.thy ===== *)
theory ImmutableTree
  imports Prelude "HOL-Library.Monad_Syntax"
begin

section \<open>Immutable trees\<close>

text \<open>
  \<open>ImmutableTree\<close> (\<open>klee/include/klee/ADT/ImmutableTree.h\<close>): balanced search trees whose nodes are never changed; an
  update builds new nodes along a path and shares the rest. \<open>ImmutableMap\<close> and \<open>ImmutableSet\<close> only rename its
  operations. The key of a value is a parameter, keys are compared by a linear order. Reference counts are left
  out: they free nodes and have no other effect. An iterator is the stack of nodes on the way from the root to
  its position, the end of the tree the empty stack; \<open>None\<close> is a failed assertion, or a push onto a stack that is
  full, which the code does not check.
\<close>

subsection \<open>Nodes\<close>

datatype 'v itree = Terminator | Node (left: "'v itree") (right: "'v itree") (val: 'v) (node_height: nat)
  where
    "left Terminator = Terminator"
  | "right Terminator = Terminator"
  | "node_height Terminator = 0"

definition it_node :: "'v itree \<Rightarrow> 'v itree \<Rightarrow> 'v \<Rightarrow> 'v itree" where
  "it_node l r v = Node l r v (max (node_height l) (node_height r) + 1)"

definition balance :: "'v itree \<Rightarrow> 'v \<Rightarrow> 'v itree \<Rightarrow> 'v itree" where
  "balance l v r =
     (if node_height l > node_height r + 2
      then let ll = left l; lr = right l
        in if node_height ll \<ge> node_height lr then it_node ll (it_node lr r v) (val l)
           else it_node (it_node ll (left lr) (val l)) (it_node (right lr) r v) (val lr)
      else if node_height r > node_height l + 2
      then let rl = left r; rr = right r
        in if node_height rr \<ge> node_height rl then it_node (it_node l rl v) rr (val r)
           else it_node (it_node l (left rl) v) (it_node (right rl) rr (val r)) (val rl)
      else it_node l r v)"

fun it_size :: "'v itree \<Rightarrow> nat" where
  "it_size Terminator = 0"
| "it_size (Node l r v h) = it_size l + 1 + it_size r"

fun it_popMin :: "'v itree \<Rightarrow> ('v \<times> 'v itree) option" where
  "it_popMin Terminator = None"
| "it_popMin (Node l r v h) =
     (if l = Terminator then Some (v, r) else map_option (\<lambda>(m, l'). (m, balance l' v r)) (it_popMin l))"

fun it_popMax :: "'v itree \<Rightarrow> ('v \<times> 'v itree) option" where
  "it_popMax Terminator = None"
| "it_popMax (Node l r v h) =
     (if r = Terminator then Some (v, l) else map_option (\<lambda>(m, r'). (m, balance l v r')) (it_popMax r))"

fun it_insert :: "('v \<Rightarrow> 'k :: linorder) \<Rightarrow> 'v \<Rightarrow> 'v itree \<Rightarrow> 'v itree" where
  "it_insert key x Terminator = it_node Terminator Terminator x"
| "it_insert key x (Node l r v h) =
     (if key x < key v then balance (it_insert key x l) v r
      else if key v < key x then balance l v (it_insert key x r)
      else Node l r v h)"

fun it_replace :: "('v \<Rightarrow> 'k :: linorder) \<Rightarrow> 'v \<Rightarrow> 'v itree \<Rightarrow> 'v itree" where
  "it_replace key x Terminator = it_node Terminator Terminator x"
| "it_replace key x (Node l r v h) =
     (if key x < key v then balance (it_replace key x l) v r
      else if key v < key x then balance l v (it_replace key x r)
      else it_node l r x)"

fun it_remove :: "('v \<Rightarrow> 'k :: linorder) \<Rightarrow> 'k \<Rightarrow> 'v itree \<Rightarrow> 'v itree" where
  "it_remove key k Terminator = Terminator"
| "it_remove key k (Node l r v h) =
     (if k < key v then balance (it_remove key k l) v r
      else if key v < k then balance l v (it_remove key k r)
      else if l = Terminator then r
      else if r = Terminator then l
      else case it_popMin r of Some (m, nr) \<Rightarrow> balance l m nr | None \<Rightarrow> l)"

subsection \<open>Searching\<close>

fun it_count :: "('v \<Rightarrow> 'k :: linorder) \<Rightarrow> 'k \<Rightarrow> 'v itree \<Rightarrow> nat" where
  "it_count key k Terminator = 0"
| "it_count key k (Node l r v h) =
     (if k < key v then it_count key k l else if key v < k then it_count key k r else 1)"

fun it_lookup :: "('v \<Rightarrow> 'k :: linorder) \<Rightarrow> 'k \<Rightarrow> 'v itree \<Rightarrow> 'v option" where
  "it_lookup key k Terminator = None"
| "it_lookup key k (Node l r v h) =
     (if k < key v then it_lookup key k l else if key v < k then it_lookup key k r else Some v)"

fun previous_loop :: "('v \<Rightarrow> 'k :: linorder) \<Rightarrow> 'k \<Rightarrow> 'v itree \<Rightarrow> 'v option \<Rightarrow> 'v option" where
  "previous_loop key k Terminator result = result"
| "previous_loop key k (Node l r v h) result =
     (if k < key v then previous_loop key k l result
      else if key v < k then previous_loop key k r (Some v)
      else Some v)"

definition it_lookup_previous :: "('v \<Rightarrow> 'k :: linorder) \<Rightarrow> 'k \<Rightarrow> 'v itree \<Rightarrow> 'v option" where
  "it_lookup_previous key k t = previous_loop key k t None"

fun it_min :: "'v itree \<Rightarrow> 'v option" where
  "it_min Terminator = None"
| "it_min (Node l r v h) = (if l = Terminator then Some v else it_min l)"

fun it_max :: "'v itree \<Rightarrow> 'v option" where
  "it_max Terminator = None"
| "it_max (Node l r v h) = (if r = Terminator then Some v else it_max r)"

subsection \<open>Iterators\<close>

definition push :: "nat \<Rightarrow> 'v itree \<Rightarrow> 'v itree list \<Rightarrow> 'v itree list option" where
  "push cap n stack = (if length stack < cap then Some (n # stack) else None)"

fun go_left :: "nat \<Rightarrow> 'v itree \<Rightarrow> 'v itree list \<Rightarrow> 'v itree list option" where
  "go_left cap Terminator stack = Some stack"
| "go_left cap (Node l r v h) stack = push cap (Node l r v h) stack \<bind> go_left cap l"

fun go_right :: "nat \<Rightarrow> 'v itree \<Rightarrow> 'v itree list \<Rightarrow> 'v itree list option" where
  "go_right cap Terminator stack = Some stack"
| "go_right cap (Node l r v h) stack = push cap (Node l r v h) stack \<bind> go_right cap r"

text \<open>The way up from a node until it is the child \<open>side\<close> of its parent.\<close>

fun climb :: "('v itree \<Rightarrow> 'v itree) \<Rightarrow> 'v itree list \<Rightarrow> 'v itree list" where
  "climb side (prev # n # stack) = (if prev = side n then n # stack else climb side (n # stack))"
| "climb side _ = []"

definition it_begin :: "'v itree \<Rightarrow> 'v itree list option" where
  "it_begin root = go_left (node_height root) root []"

definition it_inc :: "'v itree \<Rightarrow> 'v itree list \<Rightarrow> 'v itree list option" where
  "it_inc root stack =
     (case stack of
        [] \<Rightarrow> None
      | n # _ \<Rightarrow>
          if right n = Terminator then Some (climb left stack)
          else do {
            s \<leftarrow> push (node_height root) (right n) stack;
            go_left (node_height root) (left (right n)) s })"

definition it_dec :: "'v itree \<Rightarrow> 'v itree list \<Rightarrow> 'v itree list option" where
  "it_dec root stack =
     (case stack of
        [] \<Rightarrow> go_right (node_height root) root []
      | n # _ \<Rightarrow>
          if left n = Terminator then Some (climb right stack)
          else do {
            s \<leftarrow> push (node_height root) (left n) stack;
            go_right (node_height root) (right (left n)) s })"

fun lower_loop :: "('v \<Rightarrow> 'k :: linorder) \<Rightarrow> 'k \<Rightarrow> nat \<Rightarrow> 'v itree \<Rightarrow> 'v itree list \<Rightarrow> (bool \<times> 'v itree list) option" where
  "lower_loop key k cap Terminator stack = Some (False, stack)"
| "lower_loop key k cap (Node l r v h) stack = do {
     s \<leftarrow> push cap (Node l r v h) stack;
     if k < key v then lower_loop key k cap l s
     else if key v < k then lower_loop key k cap r s
     else Some (True, s) }"

definition it_lower_bound :: "('v \<Rightarrow> 'k :: linorder) \<Rightarrow> 'k \<Rightarrow> 'v itree \<Rightarrow> 'v itree list option" where
  "it_lower_bound key k root = do {
     (found, stack) \<leftarrow> lower_loop key k (node_height root) root [];
     if found then Some stack
     else case stack of
       [] \<Rightarrow> Some stack
     | n # _ \<Rightarrow> if key (val n) < k then it_inc root stack else Some stack }"

definition it_upper_bound :: "('v \<Rightarrow> 'k :: linorder) \<Rightarrow> 'k \<Rightarrow> 'v itree \<Rightarrow> 'v itree list option" where
  "it_upper_bound key k root = do {
     it \<leftarrow> it_lower_bound key k root;
     (case it of
        [] \<Rightarrow> Some it
      | n # _ \<Rightarrow> if \<not> k < key (val n) then it_inc root it else Some it) }"

definition it_find :: "('v \<Rightarrow> 'k :: linorder) \<Rightarrow> 'k \<Rightarrow> 'v itree \<Rightarrow> 'v itree list option" where
  "it_find key k root = do {
     it \<leftarrow> it_lower_bound key k root;
     (case it of
        [] \<Rightarrow> Some []
      | n # _ \<Rightarrow> if k < key (val n) then Some [] else Some it) }"

text \<open>The values that \<open>while (it != begin) --it\<close> and \<open>for (; it != end; ++it)\<close> visit, in at most \<open>n\<close> steps.\<close>

fun visit_back :: "nat \<Rightarrow> 'v itree \<Rightarrow> 'v itree list \<Rightarrow> 'v list option" where
  "visit_back n root it = do {
     b \<leftarrow> it_begin root;
     if it = b then Some []
     else case n of
       0 \<Rightarrow> None
     | Suc n' \<Rightarrow> do {
         it' \<leftarrow> it_dec root it;
         vs \<leftarrow> visit_back n' root it';
         (case it' of [] \<Rightarrow> None | x # _ \<Rightarrow> Some (val x # vs)) } }"

fun visit_forward :: "nat \<Rightarrow> 'v itree \<Rightarrow> 'v itree list \<Rightarrow> 'v list option" where
  "visit_forward n root [] = Some []"
| "visit_forward 0 root (x # stack) = None"
| "visit_forward (Suc n) root (x # stack) = do {
     it' \<leftarrow> it_inc root (x # stack);
     map_option (Cons (val x)) (visit_forward n root it') }"

subsection \<open>Order and balance\<close>

fun inorder :: "'v itree \<Rightarrow> 'v list" where
  "inorder Terminator = []"
| "inorder (Node l r v h) = inorder l @ v # inorder r"

text \<open>The heights are right, and those of two siblings differ by at most 2.\<close>

fun balanced :: "'v itree \<Rightarrow> bool" where
  "balanced Terminator \<longleftrightarrow> True"
| "balanced (Node l r v h) \<longleftrightarrow> balanced l \<and> balanced r \<and> h = max (node_height l) (node_height r) + 1 \<and>
     node_height l \<le> node_height r + 2 \<and> node_height r \<le> node_height l + 2"

definition ascending :: "('v \<Rightarrow> 'k :: linorder) \<Rightarrow> 'v list \<Rightarrow> bool" where
  "ascending key xs \<longleftrightarrow> sorted_wrt (\<lambda>x y. key x < key y) xs"

definition itree_ok :: "('v \<Rightarrow> 'k :: linorder) \<Rightarrow> 'v itree \<Rightarrow> bool" where
  "itree_ok key t \<longleftrightarrow> balanced t \<and> ascending key (inorder t)"

lemma ascending_append [simp]:
  "ascending key (xs @ ys) \<longleftrightarrow> ascending key xs \<and> ascending key ys \<and> (\<forall>x\<in>set xs. \<forall>y\<in>set ys. key x < key y)"
  "ascending key (x # xs) \<longleftrightarrow> (\<forall>y\<in>set xs. key x < key y) \<and> ascending key xs" "ascending key []"
  by (auto simp: ascending_def sorted_wrt_append)

lemma ascending_inj: "ascending key xs \<Longrightarrow> inj_on key (set xs)"
  by (induction xs) fastforce+

lemma ascending_filter: "ascending key xs \<Longrightarrow> ascending key (filter P xs)"
  by (simp add: ascending_def sorted_wrt_filter)

lemma filter_head: "filter P xs = y # ys \<Longrightarrow> y \<in> set xs \<and> P y"
  by (induction xs) (auto split: if_splits)

lemma node_height_0: "balanced t \<Longrightarrow> node_height t = 0 \<longleftrightarrow> t = Terminator"
  by (cases t) auto

lemma it_node_simps [simp]:
  "inorder (it_node l r v) = inorder l @ v # inorder r"
  "node_height (it_node l r v) = max (node_height l) (node_height r) + 1"
  "balanced (it_node l r v) \<longleftrightarrow> balanced l \<and> balanced r \<and> node_height l \<le> node_height r + 2 \<and> node_height r \<le> node_height l + 2"
  "it_node l r v \<noteq> Terminator"
  by (auto simp: it_node_def)

lemma inorder_parts: "0 < node_height t \<Longrightarrow> inorder t = inorder (left t) @ val t # inorder (right t)"
  by (cases t) auto

lemma balanced_parts: "balanced t \<Longrightarrow> balanced (left t) \<and> balanced (right t)"
  by (cases t) auto

lemma balanced_heights:
  "balanced t \<Longrightarrow> 0 < node_height t \<Longrightarrow> node_height t = max (node_height (left t)) (node_height (right t)) + 1 \<and>
     node_height (left t) \<le> node_height (right t) + 2 \<and> node_height (right t) \<le> node_height (left t) + 2"
  by (cases t) auto

lemma inorder_balance: "inorder (balance l v r) = inorder l @ v # inorder r"
  using inorder_parts [of l] inorder_parts [of r] inorder_parts [of "right l"] inorder_parts [of "left r"]
  by (auto simp: balance_def Let_def)

text \<open>One rotation is enough for subtrees whose heights differ by at most 3.\<close>

lemma balance_ok:
  assumes "balanced l" "balanced r" "node_height l \<le> node_height r + 3" "node_height r \<le> node_height l + 3"
  shows "balanced (balance l v r)"
    "max (node_height l) (node_height r) \<le> node_height (balance l v r)"
    "node_height (balance l v r) \<le> max (node_height l) (node_height r) + 1"
    "node_height l \<le> node_height r + 2 \<Longrightarrow> node_height r \<le> node_height l + 2 \<Longrightarrow> node_height (balance l v r) = max (node_height l) (node_height r) + 1"
proof -
  note b = balanced_parts [OF assms(1)] balanced_parts [OF assms(2)]
  note h = balanced_heights [OF assms(1)] balanced_heights [OF assms(2)]
    balanced_heights [OF conjunct2 [OF b(1)]] balanced_heights [OF conjunct1 [OF b(2)]]
  consider (l) "node_height l > node_height r + 2" | (r) "node_height r > node_height l + 2"
    | (b) "node_height l \<le> node_height r + 2" "node_height r \<le> node_height l + 2" by linarith
  then have "balanced (balance l v r) \<and> max (node_height l) (node_height r) \<le> node_height (balance l v r) \<and>
      node_height (balance l v r) \<le> max (node_height l) (node_height r) + 1"
  proof cases
    case l
    have p: "balanced (left (right l))" "balanced (right (right l))" using b(1) balanced_parts by auto
    show ?thesis
    proof (cases "node_height (left l) \<ge> node_height (right l)")
      case True
      then show ?thesis using l assms b h(1) by (auto simp: balance_def Let_def)
    next
      case False
      then show ?thesis using l assms b p h(1,3) by (auto simp: balance_def Let_def)
    qed
  next
    case r
    have p: "balanced (left (left r))" "balanced (right (left r))" using b(2) balanced_parts by auto
    show ?thesis
    proof (cases "node_height (right r) \<ge> node_height (left r)")
      case True
      then show ?thesis using r assms b h(2) by (auto simp: balance_def Let_def)
    next
      case False
      then show ?thesis using r assms b p h(2,4) by (auto simp: balance_def Let_def)
    qed
  qed (use assms in \<open>auto simp: balance_def\<close>)
  then show "balanced (balance l v r)" "max (node_height l) (node_height r) \<le> node_height (balance l v r)"
    "node_height (balance l v r) \<le> max (node_height l) (node_height r) + 1" by auto
  show "node_height l \<le> node_height r + 2 \<Longrightarrow> node_height r \<le> node_height l + 2 \<Longrightarrow> node_height (balance l v r) = max (node_height l) (node_height r) + 1"
    by (auto simp: balance_def)
qed

subsection \<open>What the operations do to the sequence of values\<close>

lemma it_size_inorder: "it_size t = length (inorder t)"
  by (induction t) auto

lemma it_popMin_inorder: "it_popMin t = Some (m, t') \<Longrightarrow> inorder t = m # inorder t'"
  by (induction t arbitrary: m t') (auto simp: inorder_balance split: if_splits)

lemma it_popMax_inorder: "it_popMax t = Some (m, t') \<Longrightarrow> inorder t = inorder t' @ [m]"
  by (induction t arbitrary: m t') (auto simp: inorder_balance split: if_splits)

lemma it_popMin_defined: "t \<noteq> Terminator \<Longrightarrow> \<exists>m t'. it_popMin t = Some (m, t')"
  by (induction t) auto

lemma it_popMax_defined: "t \<noteq> Terminator \<Longrightarrow> \<exists>m t'. it_popMax t = Some (m, t')"
  by (induction t) auto

text \<open>The values of a sequence below and above a key.\<close>

abbreviation keys_below :: "('v \<Rightarrow> 'k :: linorder) \<Rightarrow> 'k \<Rightarrow> 'v list \<Rightarrow> 'v list" where
  "keys_below key k xs \<equiv> filter (\<lambda>x. key x < k) xs"

abbreviation keys_above :: "('v \<Rightarrow> 'k :: linorder) \<Rightarrow> 'k \<Rightarrow> 'v list \<Rightarrow> 'v list" where
  "keys_above key k xs \<equiv> filter (\<lambda>x. k < key x) xs"

lemma all_above:
  assumes "\<forall>x\<in>set xs. k < key x"
  shows "keys_below key k xs = []" "keys_above key k xs = xs" "filter (\<lambda>x. key x \<noteq> k) xs = xs" "filter (\<lambda>x. key x = k) xs = []"
  using assms by (auto simp: filter_empty_conv filter_id_conv)

lemma all_below:
  assumes "\<forall>x\<in>set xs. key x < k"
  shows "keys_above key k xs = []" "keys_below key k xs = xs" "filter (\<lambda>x. key x \<noteq> k) xs = xs" "filter (\<lambda>x. key x = k) xs = []"
  using assms by (auto simp: filter_empty_conv filter_id_conv)

text \<open>A node of an ordered tree and a key: which of its subtrees lie below and above the key.\<close>

lemma node_order: "ascending key (inorder (Node l r v h)) \<Longrightarrow> ascending key (inorder l) \<and> ascending key (inorder r)"
  by simp

lemma node_sides:
  assumes "ascending key (inorder (Node l r v h))"
  shows "k \<le> key v \<Longrightarrow> \<forall>x\<in>set (inorder r). k < key x" "key v \<le> k \<Longrightarrow> \<forall>x\<in>set (inorder l). key x < k"
  using assms by auto

lemma it_insert_inorder:
  assumes "ascending key (inorder t)"
  shows "inorder (it_insert key x t) =
    keys_below key (key x) (inorder t) @ (case filter (\<lambda>y. key y = key x) (inorder t) of [] \<Rightarrow> x | y # _ \<Rightarrow> y) # keys_above key (key x) (inorder t)"
  using assms
proof (induction t)
  case (Node l r v h)
  note s = node_order [OF Node.prems] node_sides [OF Node.prems, of "key x"]
  consider "key x < key v" | "key v < key x" | "key x = key v" by fastforce
  then show ?case
    using Node.IH s by cases (auto simp: inorder_balance all_above all_below)
qed simp

lemma it_replace_inorder:
  assumes "ascending key (inorder t)"
  shows "inorder (it_replace key x t) = keys_below key (key x) (inorder t) @ x # keys_above key (key x) (inorder t)"
  using assms
proof (induction t)
  case (Node l r v h)
  note s = node_order [OF Node.prems] node_sides [OF Node.prems, of "key x"]
  consider "key x < key v" | "key v < key x" | "key x = key v" by fastforce
  then show ?case
    using Node.IH s by cases (auto simp: inorder_balance all_above all_below)
qed simp

lemma it_remove_inorder:
  assumes "ascending key (inorder t)"
  shows "inorder (it_remove key k t) = filter (\<lambda>y. key y \<noteq> k) (inorder t)"
  using assms
proof (induction t)
  case (Node l r v h)
  note s = node_order [OF Node.prems] node_sides [OF Node.prems, of k]
  consider "k < key v" | "key v < k" | "k = key v" by fastforce
  then show ?case
  proof cases
    case 3
    have "inorder (case it_popMin r of Some (m, nr) \<Rightarrow> balance l m nr | None \<Rightarrow> l) = inorder l @ inorder r" if "r \<noteq> Terminator"
      using it_popMin_defined [OF that] it_popMin_inorder by (fastforce simp: inorder_balance)
    then show ?thesis using 3 s by (simp add: all_above all_below)
  qed (use Node.IH s in \<open>auto simp: inorder_balance all_above all_below\<close>)
qed simp

lemma it_lookup_spec:
  assumes "ascending key (inorder t)"
  shows "it_lookup key k t = (case filter (\<lambda>y. key y = k) (inorder t) of [] \<Rightarrow> None | y # _ \<Rightarrow> Some y)"
    "it_count key k t = length (filter (\<lambda>y. key y = k) (inorder t))"
  using assms
proof (induction t)
  case (Node l r v h)
  {
    case 1
    note s = node_order [OF 1] node_sides [OF 1, of k]
    show ?case using Node.IH(1,3) s by (cases "k < key v"; cases "key v < k") (auto simp: all_above all_below)
  next
    case 2
    note s = node_order [OF 2] node_sides [OF 2, of k]
    show ?case using Node.IH(2,4) s by (cases "k < key v"; cases "key v < k") (auto simp: all_above all_below)
  }
qed simp_all

lemma previous_loop_spec:
  assumes "ascending key (inorder t)"
  shows "previous_loop key k t result = (case rev (filter (\<lambda>y. key y \<le> k) (inorder t)) of [] \<Rightarrow> result | y # _ \<Rightarrow> Some y)"
  using assms
proof (induction t arbitrary: result)
  case (Node l r v h)
  note s = node_order [OF Node.prems] node_sides [OF Node.prems, of k]
  have r: "k < key v \<Longrightarrow> filter (\<lambda>y. key y \<le> k) (inorder r) = []" "k = key v \<Longrightarrow> filter (\<lambda>y. key y \<le> k) (inorder r) = []"
    using s(2) by (auto simp: filter_empty_conv not_le)
  show ?case using Node.IH s(1) r by (cases "k < key v"; cases "key v < k") (auto split: list.splits)
qed simp

text \<open>\<open>lookup_previous\<close> finds the last value at or before the key.\<close>

lemma it_lookup_previous_spec:
  "ascending key (inorder t) \<Longrightarrow>
     it_lookup_previous key k t = (case rev (filter (\<lambda>y. key y \<le> k) (inorder t)) of [] \<Rightarrow> None | y # _ \<Rightarrow> Some y)"
  by (simp add: it_lookup_previous_def previous_loop_spec)

lemma it_min_max: "it_min t = (case inorder t of [] \<Rightarrow> None | y # _ \<Rightarrow> Some y)" "it_max t = (case rev (inorder t) of [] \<Rightarrow> None | y # _ \<Rightarrow> Some y)"
proof -
  have e: "inorder t = [] \<longleftrightarrow> t = Terminator" for t :: "'a itree" by (cases t) auto
  show "it_min t = (case inorder t of [] \<Rightarrow> None | y # _ \<Rightarrow> Some y)" by (induction t) (auto simp: e split: list.splits)
  show "it_max t = (case rev (inorder t) of [] \<Rightarrow> None | y # _ \<Rightarrow> Some y)" by (induction t) (auto simp: e split: list.splits)
qed

subsection \<open>Balance\<close>

text \<open>An update changes the height of a tree by at most one, so that one rotation restores the balance above it.\<close>

definition grows :: "'v itree \<Rightarrow> 'v itree \<Rightarrow> bool" where
  "grows t t' \<longleftrightarrow> balanced t' \<and> node_height t \<le> node_height t' \<and> node_height t' \<le> node_height t + 1"

definition shrinks :: "'v itree \<Rightarrow> 'v itree \<Rightarrow> bool" where
  "shrinks t t' \<longleftrightarrow> balanced t' \<and> node_height t' \<le> node_height t \<and> node_height t \<le> node_height t' + 1"

lemma balance_grows:
  assumes b: "balanced (Node l r v h)"
  shows "grows l l' \<Longrightarrow> grows (Node l r v h) (balance l' x r)" "grows r r' \<Longrightarrow> grows (Node l r v h) (balance l x r')"
proof -
  assume g: "grows l l'"
  then have "balanced l'" "balanced r" "node_height l' \<le> node_height r + 3" "node_height r \<le> node_height l' + 3" using b by (auto simp: grows_def)
  note k = balance_ok [OF this, of x]
  show "grows (Node l r v h) (balance l' x r)"
    using k b g by (cases "node_height l' \<le> node_height r + 2") (auto simp: grows_def max_def split: if_splits)
next
  assume g: "grows r r'"
  then have "balanced l" "balanced r'" "node_height l \<le> node_height r' + 3" "node_height r' \<le> node_height l + 3" using b by (auto simp: grows_def)
  note k = balance_ok [OF this, of x]
  show "grows (Node l r v h) (balance l x r')"
    using k b g by (cases "node_height r' \<le> node_height l + 2") (auto simp: grows_def max_def split: if_splits)
qed

lemma balance_shrinks:
  assumes b: "balanced (Node l r v h)"
  shows "shrinks l l' \<Longrightarrow> shrinks (Node l r v h) (balance l' x r)" "shrinks r r' \<Longrightarrow> shrinks (Node l r v h) (balance l x r')"
proof -
  assume g: "shrinks l l'"
  then have "balanced l'" "balanced r" "node_height l' \<le> node_height r + 3" "node_height r \<le> node_height l' + 3" using b by (auto simp: shrinks_def)
  note k = balance_ok [OF this, of x]
  show "shrinks (Node l r v h) (balance l' x r)"
    using k b g by (cases "node_height r \<le> node_height l' + 2") (auto simp: shrinks_def max_def split: if_splits)
next
  assume g: "shrinks r r'"
  then have "balanced l" "balanced r'" "node_height l \<le> node_height r' + 3" "node_height r' \<le> node_height l + 3" using b by (auto simp: shrinks_def)
  note k = balance_ok [OF this, of x]
  show "shrinks (Node l r v h) (balance l x r')"
    using k b g by (cases "node_height l \<le> node_height r' + 2") (auto simp: shrinks_def max_def split: if_splits)
qed

lemma insert_grows: "balanced t \<Longrightarrow> grows t (it_insert key x t)"
proof (induction t)
  case (Node l r v h)
  have "grows (Node l r v h) (Node l r v h)" using Node.prems by (auto simp: grows_def)
  then show ?case using Node balance_grows [OF Node.prems] by simp
qed (simp add: grows_def)

lemma replace_grows: "balanced t \<Longrightarrow> grows t (it_replace key x t)"
proof (induction t)
  case (Node l r v h)
  have "grows (Node l r v h) (it_node l r x)" using Node.prems by (auto simp: grows_def)
  then show ?case using Node balance_grows [OF Node.prems] by simp
qed (simp add: grows_def)

lemma popMin_shrinks: "balanced t \<Longrightarrow> it_popMin t = Some (m, t') \<Longrightarrow> shrinks t t'"
proof (induction t arbitrary: m t')
  case (Node l r v h)
  show ?case
  proof (cases "l = Terminator")
    case True
    then show ?thesis using Node.prems by (simp add: shrinks_def)
  next
    case False
    then obtain l' where l': "it_popMin l = Some (m, l')" "t' = balance l' v r" using Node.prems(2) by auto
    then show ?thesis using Node.IH(1) Node.prems(1) balance_shrinks(1) [OF Node.prems(1)] by simp
  qed
qed simp

lemma popMax_shrinks: "balanced t \<Longrightarrow> it_popMax t = Some (m, t') \<Longrightarrow> shrinks t t'"
proof (induction t arbitrary: m t')
  case (Node l r v h)
  show ?case
  proof (cases "r = Terminator")
    case True
    then show ?thesis using Node.prems by (simp add: shrinks_def)
  next
    case False
    then obtain r' where r': "it_popMax r = Some (m, r')" "t' = balance l v r'" using Node.prems(2) by auto
    then show ?thesis using Node.IH(2) Node.prems(1) balance_shrinks(2) [OF Node.prems(1)] by simp
  qed
qed simp

lemma remove_shrinks: "balanced t \<Longrightarrow> shrinks t (it_remove key k t)"
proof (induction t)
  case (Node l r v h)
  have parts: "l = Terminator \<Longrightarrow> shrinks (Node l r v h) r" "r = Terminator \<Longrightarrow> shrinks (Node l r v h) l"
    using Node.prems by (auto simp: shrinks_def)
  have "shrinks (Node l r v h) (balance l m nr)" if "it_popMin r = Some (m, nr)" for m nr
    using popMin_shrinks [OF _ that] Node.prems balance_shrinks(2) [OF Node.prems] by simp
  then show ?case
    using Node parts it_popMin_defined [of r] balance_shrinks [OF Node.prems] by (auto split: option.split)
qed (simp add: shrinks_def)

text \<open>A balanced tree of height \<open>h\<close> has at least \<open>h\<close> values, and so many that its height is logarithmic.\<close>

fun least_size :: "nat \<Rightarrow> nat" where
  "least_size 0 = 0"
| "least_size (Suc 0) = 1"
| "least_size (Suc (Suc 0)) = 2"
| "least_size (Suc (Suc (Suc h))) = least_size (Suc (Suc h)) + 1 + least_size h"

lemma least_size_Suc: "least_size h \<le> least_size (Suc h)"
  by (induction h rule: least_size.induct) auto

lemma least_size_mono: "a \<le> b \<Longrightarrow> least_size a \<le> least_size b"
  by (rule lift_Suc_mono_le [of least_size]) (auto intro: least_size_Suc)

lemma balanced_size: "balanced t \<Longrightarrow> least_size (node_height t) \<le> it_size t"
proof (induction t)
  case (Node l r v h)
  have IH: "least_size (node_height l) \<le> it_size l" "least_size (node_height r) \<le> it_size r" using Node by auto
  define a b where "a = max (node_height l) (node_height r)" and "b = min (node_height l) (node_height r)"
  have h: "h = Suc a" "a \<le> b + 2" using Node.prems by (auto simp: a_def b_def)
  have ab: "least_size a + least_size b \<le> it_size l + it_size r" using IH by (auto simp: a_def b_def max_def min_def)
  have "least_size (Suc a) \<le> least_size a + 1 + least_size b"
  proof (cases "a < 2")
    case True
    then show ?thesis by (cases a) (auto simp: less_Suc_eq numeral_2_eq_2)
  next
    case False
    then obtain c where c: "a = Suc (Suc c)" by (metis add_2_eq_Suc le_add_diff_inverse not_less)
    then have "least_size c \<le> least_size b" using h(2) by (intro least_size_mono) simp
    then show ?thesis by (simp add: c)
  qed
  then show ?case using ab h(1) by simp
qed simp

lemma least_size_exponential: "2 ^ (h div 3) \<le> least_size h + 1"
proof (induction h rule: least_size.induct)
  case (4 h)
  have "least_size h \<le> least_size (Suc (Suc h))" by (rule least_size_mono) simp
  moreover have "Suc (Suc (Suc h)) div 3 = Suc (h div 3)" by simp
  ultimately show ?case using 4(2) by simp
qed auto

subsection \<open>Positions\<close>

text \<open>
  A stack is a position of the tree when it leads from the root down to a node. The values after a node on a stack, and
  those before it; \<open>it_before\<close> and \<open>it_after\<close> split the values of the tree at an iterator.
\<close>

fun path :: "'v itree \<Rightarrow> 'v itree list \<Rightarrow> bool" where
  "path root [] \<longleftrightarrow> False"
| "path root [n] \<longleftrightarrow> n = root \<and> n \<noteq> Terminator"
| "path root (c # n # stack) \<longleftrightarrow> c \<noteq> Terminator \<and> (c = left n \<or> c = right n) \<and> path root (n # stack)"

fun up_after :: "'v itree \<Rightarrow> 'v itree list \<Rightarrow> 'v list" where
  "up_after c [] = []"
| "up_after c (n # stack) = (if c = left n then val n # inorder (right n) else []) @ up_after n stack"

fun up_before :: "'v itree \<Rightarrow> 'v itree list \<Rightarrow> 'v list" where
  "up_before c [] = []"
| "up_before c (n # stack) = up_before n stack @ (if c = left n then [] else inorder (left n) @ [val n])"

definition it_before :: "'v itree \<Rightarrow> 'v itree list \<Rightarrow> 'v list" where
  "it_before root stack = (case stack of [] \<Rightarrow> inorder root | n # s \<Rightarrow> up_before n s @ inorder (left n))"

definition it_after :: "'v itree list \<Rightarrow> 'v list" where
  "it_after stack = (case stack of [] \<Rightarrow> [] | n # s \<Rightarrow> val n # inorder (right n) @ up_after n s)"

definition position :: "'v itree \<Rightarrow> 'v itree list \<Rightarrow> bool" where
  "position root stack \<longleftrightarrow> stack = [] \<or> path root stack"

lemma inorder_node: "n \<noteq> Terminator \<Longrightarrow> inorder n = inorder (left n) @ val n # inorder (right n)"
  by (cases n) auto

lemma path_cases: "path root (n # stack) \<Longrightarrow> n \<noteq> Terminator"
  by (cases stack) auto

lemma path_tail: "path root (c # n # stack) \<Longrightarrow> path root (n # stack)"
  by simp

lemma path_splits: "path root (n # stack) \<Longrightarrow> up_before n stack @ inorder n @ up_after n stack = inorder root"
proof (induction stack arbitrary: n)
  case (Cons m stack)
  have m: "inorder m = inorder (left m) @ val m # inorder (right m)" using Cons.prems path_cases [of root m stack] by (intro inorder_node) simp
  show ?case using Cons.prems Cons.IH [of m] by (auto simp: m)
qed simp

lemma before_after: "position root stack \<Longrightarrow> it_before root stack @ it_after stack = inorder root"
  using path_splits [of root] inorder_node [OF path_cases] by (fastforce simp: position_def it_before_def it_after_def split: list.split)

text \<open>The children of a node of an ordered tree are different.\<close>

lemma ordered_subtree: "path root (n # stack) \<Longrightarrow> ascending key (inorder root) \<Longrightarrow> ascending key (inorder n)"
  using path_splits [of root n stack] by (metis ascending_append(1))

lemma children_differ:
  assumes "ascending key (inorder n)" "left n \<noteq> Terminator"
  shows "left n \<noteq> right n"
proof
  assume eq: "left n = right n"
  have "n \<noteq> Terminator" using assms(2) by auto
  then have "ascending key (inorder (left n) @ val n # inorder (left n))" using assms(1) inorder_node [of n] eq by simp
  moreover have "val (left n) \<in> set (inorder (left n))" using inorder_node [OF assms(2)] by simp
  ultimately show False by force
qed

text \<open>There is room on the stack: what is below a node fits above it.\<close>

lemma balanced_child: "balanced n \<Longrightarrow> n \<noteq> Terminator \<Longrightarrow> node_height (left n) < node_height n \<and> node_height (right n) < node_height n"
  by (cases n) auto

lemma path_height:
  assumes "path root (n # stack)" "balanced root"
  shows "balanced n \<and> node_height n + length stack \<le> node_height root"
  using assms(1)
proof (induction stack arbitrary: n)
  case Nil
  then show ?case using assms(2) by simp
next
  case (Cons m stack)
  have m: "balanced m" "node_height m + length stack \<le> node_height root" "m \<noteq> Terminator"
    using Cons path_cases [of root m stack] by auto
  then show ?case using Cons.prems balanced_parts [OF m(1)] balanced_child [OF m(1,3)] by auto
qed

lemma push_child:
  assumes "path root (n # stack)" "balanced root" "c \<noteq> Terminator" "c = left n \<or> c = right n"
  shows "push (node_height root) c (n # stack) = Some (c # n # stack)" "path root (c # n # stack)"
proof -
  have h: "balanced n" "node_height n + length stack \<le> node_height root" using path_height [OF assms(1,2)] by auto
  have "balanced c" "node_height c < node_height n"
    using balanced_parts [OF h(1)] balanced_child [OF h(1) path_cases [OF assms(1)]] assms(4) by auto
  moreover from this have "0 < node_height c" using assms(3) node_height_0 [of c] by simp
  ultimately show "push (node_height root) c (n # stack) = Some (c # n # stack)" using h(2) by (simp add: push_def)
  show "path root (c # n # stack)" using assms(1,3,4) by simp
qed

lemma push_root:
  assumes "balanced root" "root \<noteq> Terminator"
  shows "push (node_height root) root [] = Some [root]" "path root [root]"
  using assms node_height_0 [of root] by (auto simp: push_def)

text \<open>Down to the first and to the last value of a subtree.\<close>

lemma go_node:
  "c \<noteq> Terminator \<Longrightarrow> go_left cap c stack = push cap c stack \<bind> go_left cap (left c)"
  "c \<noteq> Terminator \<Longrightarrow> go_right cap c stack = push cap c stack \<bind> go_right cap (right c)"
  by (cases c; simp)+

lemma go_left_ok:
  assumes "path root (n # stack)" "balanced root"
  shows "\<exists>s. go_left (node_height root) (left n) (n # stack) = Some s \<and> path root s \<and> it_after s = inorder n @ up_after n stack"
  using assms(1)
proof (induction "left n" arbitrary: n stack)
  case Terminator
  have "inorder n = inorder (left n) @ val n # inorder (right n)" using path_cases [OF Terminator.prems] by (rule inorder_node)
  then show ?case using Terminator by (auto simp: it_after_def simp flip: Terminator.hyps)
next
  case (Node l r v h)
  have c: "left n \<noteq> Terminator" using Node.hyps(3) by (metis itree.distinct(1))
  note p = push_child [OF Node.prems assms(2) c disjI1 [OF refl]]
  have l: "l = left (left n)" by (simp flip: Node.hyps(3))
  obtain s where s: "go_left (node_height root) l (left n # n # stack) = Some s" "path root s"
      "it_after s = inorder (left n) @ up_after (left n) (n # stack)"
    using Node.hyps(1) [OF l p(2)] unfolding l by blast
  have "go_left (node_height root) (left n) (n # stack) = Some s"
    using p(1) s(1) c l by (simp add: go_node)
  moreover have "inorder n = inorder (left n) @ val n # inorder (right n)" using path_cases [OF Node.prems] by (rule inorder_node)
  ultimately show ?case using s(2,3) by auto
qed

lemma go_right_ok:
  assumes "path root (n # stack)" "balanced root" "ascending key (inorder root)"
  shows "\<exists>s. go_right (node_height root) (right n) (n # stack) = Some s \<and> path root s \<and>
           it_before root s @ [val (hd s)] = up_before n stack @ inorder n"
  using assms(1)
proof (induction "right n" arbitrary: n stack)
  case Terminator
  have "inorder n = inorder (left n) @ val n # inorder (right n)" using path_cases [OF Terminator.prems] by (rule inorder_node)
  then show ?case using Terminator by (auto simp: it_before_def simp flip: Terminator.hyps)
next
  case (Node l r v h)
  have c: "right n \<noteq> Terminator" using Node.hyps(3) by (metis itree.distinct(1))
  note p = push_child [OF Node.prems assms(2) c disjI2 [OF refl]]
  have r: "r = right (right n)" by (simp flip: Node.hyps(3))
  obtain s where s: "go_right (node_height root) r (right n # n # stack) = Some s" "path root s"
      "it_before root s @ [val (hd s)] = up_before (right n) (n # stack) @ inorder (right n)"
    using Node.hyps(2) [OF r p(2)] unfolding r by blast
  have "go_right (node_height root) (right n) (n # stack) = Some s"
    using p(1) s(1) c r by (simp add: go_node)
  moreover have "inorder n = inorder (left n) @ val n # inorder (right n)" using path_cases [OF Node.prems] by (rule inorder_node)
  moreover have "right n \<noteq> left n" using children_differ [OF ordered_subtree [OF Node.prems assms(3)]] c by metis
  ultimately show ?case using s(2,3) by auto
qed

text \<open>Up to the first ancestor on the other side.\<close>

lemma climb_left_ok: "path root (n # stack) \<Longrightarrow> position root (climb left (n # stack)) \<and> it_after (climb left (n # stack)) = up_after n stack"
  by (induction stack arbitrary: n) (auto simp: position_def it_after_def)

lemma climb_right_ok:
  assumes "path root (n # stack)" "ascending key (inorder root)" "up_before n stack \<noteq> []"
  shows "path root (climb right (n # stack)) \<and>
    it_before root (climb right (n # stack)) @ [val (hd (climb right (n # stack)))] = up_before n stack"
  using assms(1,3)
proof (induction stack arbitrary: n)
  case (Cons m stack)
  have d: "n = right m \<Longrightarrow> n \<noteq> left m" using children_differ [OF ordered_subtree [OF _ assms(2)], of m stack] Cons.prems(1) by auto
  show ?case
  proof (cases "n = right m")
    case True
    then show ?thesis using Cons.prems(1) d by (simp add: it_before_def)
  next
    case False
    then show ?thesis using Cons by auto
  qed
qed simp

subsection \<open>Iterators walk the sequence of values\<close>

lemma it_begin_ok:
  assumes "balanced root"
  shows "\<exists>s. it_begin root = Some s \<and> position root s \<and> it_after s = inorder root"
proof (cases root)
  case (Node l r v h)
  then have "root \<noteq> Terminator" "left root = l" by auto
  note p = push_root [OF assms this(1)]
  obtain s where "go_left (node_height root) (left root) [root] = Some s" "path root s" "it_after s = inorder root @ up_after root []"
    using go_left_ok [OF p(2) assms] by blast
  moreover have "it_begin root = go_left (node_height root) (left root) [root]"
    using p(1) Node by (simp add: it_begin_def)
  ultimately show ?thesis by (simp add: position_def)
qed (simp add: it_begin_def position_def it_after_def)

lemma it_inc_ok:
  assumes "position root it" "itree_ok key root" "it \<noteq> []"
  shows "\<exists>s. it_inc root it = Some s \<and> position root s \<and> it_after it = val (hd it) # it_after s"
proof -
  have ok: "balanced root" "ascending key (inorder root)" using assms(2) by (auto simp: itree_ok_def)
  obtain n stack where it: "it = n # stack" "path root (n # stack)" using assms(1,3) by (cases it) (auto simp: position_def)
  show ?thesis
  proof (cases "right n = Terminator")
    case True
    then show ?thesis using climb_left_ok [OF it(2)] it(1) by (auto simp: it_inc_def it_after_def)
  next
    case False
    note p = push_child [OF it(2) ok(1) False disjI2 [OF refl]]
    obtain s where s: "go_left (node_height root) (left (right n)) (right n # n # stack) = Some s" "path root s"
        "it_after s = inorder (right n) @ up_after (right n) (n # stack)"
      using go_left_ok [OF p(2) ok(1)] by blast
    have "right n \<noteq> left n" using children_differ [OF ordered_subtree [OF it(2) ok(2)]] False by metis
    moreover have "it_inc root it = Some s" using p(1) s(1) False it(1) by (simp add: it_inc_def)
    ultimately show ?thesis using s(2,3) it(1) by (auto simp: position_def it_after_def)
  qed
qed

lemma it_dec_ok:
  assumes "position root it" "itree_ok key root" "it_before root it \<noteq> []"
  shows "\<exists>s. it_dec root it = Some s \<and> path root s \<and> it_before root it = it_before root s @ [val (hd s)]"
proof (cases it)
  case Nil
  have ok: "balanced root" "ascending key (inorder root)" using assms(2) by (auto simp: itree_ok_def)
  have root: "root \<noteq> Terminator" using Nil assms(3) by (auto simp: it_before_def)
  note p = push_root [OF ok(1) root]
  obtain s where "go_right (node_height root) (right root) [root] = Some s" "path root s"
      "it_before root s @ [val (hd s)] = up_before root [] @ inorder root"
    using go_right_ok [OF p(2) ok] by blast
  moreover have "it_dec root it = go_right (node_height root) (right root) [root]"
    using p(1) Nil root by (cases root) (auto simp: it_dec_def)
  ultimately show ?thesis using Nil by (simp add: it_before_def)
next
  case (Cons n stack)
  have ok: "balanced root" "ascending key (inorder root)" using assms(2) by (auto simp: itree_ok_def)
  have it: "path root (n # stack)" using assms(1) Cons by (simp add: position_def)
  show ?thesis
  proof (cases "left n = Terminator")
    case True
    then show ?thesis using climb_right_ok [OF it ok(2)] assms(3) Cons by (auto simp: it_dec_def it_before_def)
  next
    case False
    note p = push_child [OF it ok(1) False disjI1 [OF refl]]
    obtain s where s: "go_right (node_height root) (right (left n)) (left n # n # stack) = Some s" "path root s"
        "it_before root s @ [val (hd s)] = up_before (left n) (n # stack) @ inorder (left n)"
      using go_right_ok [OF p(2) ok] by blast
    have "it_dec root it = Some s" using p(1) s(1) False Cons by (simp add: it_dec_def)
    then show ?thesis using s(2,3) Cons by (simp add: it_before_def)
  qed
qed

text \<open>The only position with no value before it is the beginning.\<close>

lemma leftmost_path:
  assumes "path root (n # stack)" "balanced root" "up_before n stack = []"
  shows "it_begin root = go_left (node_height root) (left n) (n # stack)"
  using assms(1,3)
proof (induction stack arbitrary: n)
  case Nil
  then show ?case using push_root(1) [OF assms(2)] by (auto simp: it_begin_def go_node)
next
  case (Cons m stack)
  then have "n = left m" "n \<noteq> Terminator" "path root (m # stack)" "up_before m stack = []" by (auto split: if_splits)
  then show ?case using Cons.IH [of m] push_child(1) [OF _ assms(2), of m stack n] by (simp add: go_node)
qed

lemma begin_iff:
  assumes "position root it" "balanced root"
  shows "it_begin root = Some it \<longleftrightarrow> it_before root it = []"
proof
  assume b: "it_begin root = Some it"
  then have "it_after it = inorder root" using it_begin_ok [OF assms(2)] by simp
  then show "it_before root it = []" using before_after [OF assms(1)] by simp
next
  assume e: "it_before root it = []"
  show "it_begin root = Some it"
  proof (cases it)
    case Nil
    then have "root = Terminator" using e by (cases root) (auto simp: it_before_def)
    then show ?thesis using Nil by (simp add: it_begin_def)
  next
    case (Cons n stack)
    have p: "path root (n # stack)" "up_before n stack = []" "inorder (left n) = []"
      using assms(1) e Cons by (auto simp: position_def it_before_def)
    then have "left n = Terminator" by (cases "left n") auto
    then show ?thesis using leftmost_path [OF p(1) assms(2) p(2)] Cons by simp
  qed
qed

lemma visit_back_ok:
  assumes "itree_ok key root" "position root it" "length (it_before root it) \<le> n"
  shows "visit_back n root it = Some (rev (it_before root it))"
  using assms(2,3)
proof (induction n arbitrary: it)
  case 0
  have "balanced root" using assms(1) by (simp add: itree_ok_def)
  then show ?case using 0 begin_iff [of root it] by simp
next
  case (Suc n)
  have bal: "balanced root" using assms(1) by (simp add: itree_ok_def)
  obtain b where b: "it_begin root = Some b" using it_begin_ok [OF bal] by blast
  show ?case
  proof (cases "it = b")
    case True
    then show ?thesis using b begin_iff [OF Suc.prems(1) bal] by simp
  next
    case False
    then have "it_before root it \<noteq> []" using b begin_iff [OF Suc.prems(1) bal] by auto
    then obtain s where s: "it_dec root it = Some s" "path root s" "it_before root it = it_before root s @ [val (hd s)]"
      using it_dec_ok [OF Suc.prems(1) assms(1)] by blast
    have "visit_back n root s = Some (rev (it_before root s))"
      using Suc.IH [of s] s(2,3) Suc.prems(2) by (simp add: position_def)
    moreover obtain x s' where "s = x # s'" using s(2) by (cases s) auto
    ultimately show ?thesis using b False s(1,3) by simp
  qed
qed

lemma visit_forward_ok:
  assumes "itree_ok key root" "position root it" "length (it_after it) \<le> n"
  shows "visit_forward n root it = Some (it_after it)"
  using assms(2,3)
proof (induction n arbitrary: it)
  case 0
  then show ?case by (cases it) (auto simp: it_after_def)
next
  case (Suc n)
  show ?case
  proof (cases it)
    case Nil
    then show ?thesis by (simp add: it_after_def)
  next
    case (Cons x stack)
    obtain s where s: "it_inc root it = Some s" "position root s" "it_after it = val x # it_after s"
      using it_inc_ok [OF Suc.prems(1) assms(1)] Cons by auto
    then show ?thesis using Suc.IH [OF s(2)] Suc.prems(2) Cons by simp
  qed
qed

subsection \<open>Searching positions\<close>

text \<open>
  The loop of \<open>lower_bound\<close>: it stops at the key, or at a node next to it, below which there is no way on.
\<close>

lemma lower_loop_ok:
  assumes "itree_ok key root" "path root (n # stack)"
    "\<forall>x\<in>set (up_before n stack). key x < k" "\<forall>x\<in>set (up_after n stack). k < key x"
    "push (node_height root) n stack = Some (n # stack)"
  shows "\<exists>found m s. lower_loop key k (node_height root) n stack = Some (found, m # s) \<and> path root (m # s) \<and>
           (\<forall>x\<in>set (up_before m s). key x < k) \<and> (\<forall>x\<in>set (up_after m s). k < key x) \<and>
           (if found then key (val m) = k
            else k < key (val m) \<and> left m = Terminator \<or> key (val m) < k \<and> right m = Terminator)"
  using assms(2-)
proof (induction n arbitrary: stack)
  case Terminator
  then show ?case using path_cases by blast
next
  case (Node l r v h)
  let ?n = "Node l r v h"
  have ok: "balanced root" "ascending key (inorder root)" using assms(1) by (auto simp: itree_ok_def)
  have asc: "ascending key (inorder ?n)" using ordered_subtree [OF Node.prems(1) ok(2)] .
  consider (l) "k < key v" "l \<noteq> Terminator" | (r) "key v < k" "r \<noteq> Terminator" | (found) "key v = k"
    | (stop) "k < key v \<and> l = Terminator \<or> key v < k \<and> r = Terminator" by fastforce
  then show ?case
  proof cases
    case l
    note p = push_child [OF Node.prems(1) ok(1) l(2)]
    have "\<forall>x\<in>set (inorder r). k < key x" using node_sides(1) [OF asc, of k] l(1) by simp
    then have "\<exists>found m s. lower_loop key k (node_height root) l (?n # stack) = Some (found, m # s) \<and> path root (m # s) \<and>
        (\<forall>x\<in>set (up_before m s). key x < k) \<and> (\<forall>x\<in>set (up_after m s). k < key x) \<and>
        (if found then key (val m) = k else k < key (val m) \<and> left m = Terminator \<or> key (val m) < k \<and> right m = Terminator)"
      using p Node.prems(2,3) l(1) by (intro Node.IH(1)) auto
    then show ?thesis using Node.prems(4) l(1) by simp
  next
    case r
    note p = push_child [OF Node.prems(1) ok(1) r(2)]
    have "\<forall>x\<in>set (inorder l). key x < k" using node_sides(2) [OF asc, of k] r(1) by simp
    moreover have "r \<noteq> l" using children_differ [OF asc] r(2) by auto
    ultimately have "\<exists>found m s. lower_loop key k (node_height root) r (?n # stack) = Some (found, m # s) \<and> path root (m # s) \<and>
        (\<forall>x\<in>set (up_before m s). key x < k) \<and> (\<forall>x\<in>set (up_after m s). k < key x) \<and>
        (if found then key (val m) = k else k < key (val m) \<and> left m = Terminator \<or> key (val m) < k \<and> right m = Terminator)"
      using p Node.prems(2,3) r(1) by (intro Node.IH(2)) auto
    moreover have "\<not> k < key v" using r(1) by simp
    ultimately show ?thesis using Node.prems(4) r(1) by simp
  next
    case found
    then show ?thesis using Node.prems by (intro exI [of _ True] exI [of _ ?n] exI [of _ stack]) simp
  next
    case stop
    then show ?thesis using Node.prems by (intro exI [of _ False] exI [of _ ?n] exI [of _ stack]) auto
  qed
qed

text \<open>A split of an ordered sequence at a key is the only one.\<close>

lemma split_below:
  assumes "xs @ ys = zs" "\<forall>x\<in>set xs. P x" "\<forall>x\<in>set ys. \<not> P x"
  shows "xs = filter P zs" "ys = filter (\<lambda>x. \<not> P x) zs"
  using assms by (auto simp: filter_empty_conv filter_id_conv)

lemma it_lower_bound_ok:
  assumes "itree_ok key root"
  shows "\<exists>it. it_lower_bound key k root = Some it \<and> position root it \<and>
           it_before root it = filter (\<lambda>x. key x < k) (inorder root) \<and> it_after it = filter (\<lambda>x. \<not> key x < k) (inorder root)"
proof -
  have "\<exists>it. it_lower_bound key k root = Some it \<and> position root it \<and>
      (\<forall>x\<in>set (it_before root it). key x < k) \<and> (\<forall>x\<in>set (it_after it). \<not> key x < k)"
  proof (cases "root = Terminator")
    case True
    then show ?thesis by (auto simp: it_lower_bound_def position_def it_before_def it_after_def)
  next
    case False
    have ok: "balanced root" "ascending key (inorder root)" using assms by (auto simp: itree_ok_def)
    obtain found m s where loop: "lower_loop key k (node_height root) root [] = Some (found, m # s)" "path root (m # s)"
        "\<forall>x\<in>set (up_before m s). key x < k" "\<forall>x\<in>set (up_after m s). k < key x"
        "if found then key (val m) = k else k < key (val m) \<and> left m = Terminator \<or> key (val m) < k \<and> right m = Terminator"
      using lower_loop_ok [OF assms push_root(2) [OF ok(1) False], of k] push_root(1) [OF ok(1) False] by auto
    have pos: "position root (m # s)" using loop(2) by (simp add: position_def)
    have "m \<noteq> Terminator" using loop(2) by (rule path_cases)
    then have m: "inorder m = inorder (left m) @ val m # inorder (right m)" by (rule inorder_node)
    have asc: "ascending key (inorder (left m) @ val m # inorder (right m))" using ordered_subtree [OF loop(2) ok(2)] m by simp
    show ?thesis
    proof (cases "\<not> found \<and> key (val m) < k")
      case True
      obtain it where it: "it_inc root (m # s) = Some it" "position root it" "it_after (m # s) = val m # it_after it"
        using it_inc_ok [OF pos assms] by auto
      have "it_after it = up_after m s" using it(3) True loop(5) by (auto simp: it_after_def)
      moreover have "it_before root it @ it_after it = it_before root (m # s) @ val m # it_after it"
        using before_after [OF pos] before_after [OF it(2)] it(3) by simp
      moreover have "\<forall>x\<in>set (it_before root (m # s) @ [val m]). key x < k"
        using loop(3) True asc by (auto simp: it_before_def)
      ultimately have "\<forall>x\<in>set (it_before root it). key x < k" "\<forall>x\<in>set (it_after it). \<not> key x < k"
        using loop(4) by (auto simp: append_eq_append_conv2)
      then show ?thesis using loop(1) it(1,2) True by (simp add: it_lower_bound_def)
    next
      case False
      have "\<forall>x\<in>set (it_before root (m # s)). key x < k" "\<forall>x\<in>set (it_after (m # s)). \<not> key x < k"
        using loop(3-5) False asc by (auto simp: it_before_def it_after_def split: if_splits)
      then show ?thesis using loop(1) pos False by (auto simp: it_lower_bound_def)
    qed
  qed
  then show ?thesis using split_below [OF before_after] by blast
qed

lemma it_upper_bound_ok:
  assumes "itree_ok key root"
  shows "\<exists>it. it_upper_bound key k root = Some it \<and> position root it \<and>
           it_before root it = filter (\<lambda>x. key x \<le> k) (inorder root) \<and> it_after it = filter (\<lambda>x. \<not> key x \<le> k) (inorder root)"
proof -
  have asc: "ascending key (inorder root)" using assms by (simp add: itree_ok_def)
  obtain lb where lb: "it_lower_bound key k root = Some lb" "position root lb"
      "it_before root lb = filter (\<lambda>x. key x < k) (inorder root)" "it_after lb = filter (\<lambda>x. \<not> key x < k) (inorder root)"
    using it_lower_bound_ok [OF assms] by blast
  have below: "\<forall>x\<in>set (it_before root lb). key x \<le> k" using lb(3) by auto
  have "\<exists>it. it_upper_bound key k root = Some it \<and> position root it \<and>
      (\<forall>x\<in>set (it_before root it). key x \<le> k) \<and> (\<forall>x\<in>set (it_after it). \<not> key x \<le> k)"
  proof (cases "lb \<noteq> [] \<and> \<not> k < key (val (hd lb))")
    case True
    obtain it where it: "it_inc root lb = Some it" "position root it" "it_after lb = val (hd lb) # it_after it"
      using it_inc_ok [OF lb(2) assms] True by blast
    have asc': "ascending key (it_after lb)" using before_after [OF lb(2)] asc by (metis ascending_append(1))
    have "val (hd lb) \<in> set (it_after lb)" using it(3) by simp
    then have k: "key (val (hd lb)) = k" using True lb(4) by auto
    have "it_before root it @ it_after it = it_before root lb @ val (hd lb) # it_after it"
      using before_after [OF lb(2)] before_after [OF it(2)] it(3) by simp
    then have "it_before root it = it_before root lb @ [val (hd lb)]" by simp
    moreover have "\<forall>x\<in>set (it_after it). \<not> key x \<le> k" using asc' it(3) k by auto
    ultimately have "(\<forall>x\<in>set (it_before root it). key x \<le> k) \<and> (\<forall>x\<in>set (it_after it). \<not> key x \<le> k)" using below k by auto
    moreover have "it_upper_bound key k root = Some it" using lb(1) it(1) True by (cases lb) (auto simp: it_upper_bound_def)
    ultimately show ?thesis using it(2) by blast
  next
    case False
    have "\<forall>x\<in>set (it_after lb). k < key x"
    proof (cases lb)
      case (Cons n s)
      have "it_after lb = val n # tl (it_after lb)" using Cons by (simp add: it_after_def)
      moreover have "ascending key (it_after lb)" using before_after [OF lb(2)] asc by (metis ascending_append(1))
      ultimately have "\<forall>x\<in>set (it_after lb). key (val n) \<le> key x" by (metis ascending_append(2) order.strict_implies_order order_refl set_ConsD)
      then show ?thesis using False Cons by force
    qed (simp add: it_after_def)
    then have "\<forall>x\<in>set (it_after lb). \<not> key x \<le> k" by auto
    moreover have "it_upper_bound key k root = Some lb" using lb(1) False by (cases lb) (auto simp: it_upper_bound_def)
    ultimately show ?thesis using lb(2) below by blast
  qed
  then show ?thesis using split_below [OF before_after] by blast
qed

lemma it_find_ok:
  assumes "itree_ok key root"
  shows "\<exists>it. it_find key k root = Some it \<and> position root it \<and>
           (if \<exists>x\<in>set (inorder root). key x = k then it \<noteq> [] \<and> key (val (hd it)) = k else it = [])"
proof -
  obtain lb where lb: "it_lower_bound key k root = Some lb" "position root lb"
      "it_after lb = filter (\<lambda>x. \<not> key x < k) (inorder root)" using it_lower_bound_ok [OF assms] by blast
  have asc: "ascending key (it_after lb)"
    using before_after [OF lb(2)] assms by (metis ascending_append(1) itree_ok_def)
  have has: "(\<exists>x\<in>set (inorder root). key x = k) \<longleftrightarrow> (\<exists>x\<in>set (it_after lb). key x = k)" using lb(3) by auto
  show ?thesis
  proof (cases lb)
    case Nil
    then show ?thesis using lb(1,2) has by (simp add: it_find_def it_after_def)
  next
    case (Cons n s)
    have n: "it_after lb = val n # tl (it_after lb)" using Cons by (simp add: it_after_def)
    then have "val n \<in> set (it_after lb)" by (metis list.set_intros(1))
    then have "k \<le> key (val n)" using lb(3) by auto
    moreover have "\<forall>x\<in>set (it_after lb). key (val n) \<le> key x"
      using asc n by (metis ascending_append(2) order.strict_implies_order order_refl set_ConsD)
    moreover have "val n \<in> set (it_after lb)" by fact
    ultimately have "(\<exists>x\<in>set (inorder root). key x = k) \<longleftrightarrow> \<not> k < key (val n)" unfolding has by force
    then show ?thesis using lb(1,2) Cons \<open>k \<le> key (val n)\<close> by (auto simp: it_find_def position_def)
  qed
qed

subsection \<open>The contract of an ordered map\<close>

text \<open>
  What the users of \<open>ImmutableMap\<close> rely on: the map is a sequence of values in ascending order of their keys, and what each
  operation does to the sequence. The client of a search over the values near a key visits the ones at or before the key
  downwards, and the ones after it upwards.
\<close>

locale ordered_map =
  fixes key :: "'v \<Rightarrow> 'k :: linorder" and empty :: 'm and elems :: "'m \<Rightarrow> 'v list" and good :: "'m \<Rightarrow> bool"
    and insert :: "'v \<Rightarrow> 'm \<Rightarrow> 'm" and replace :: "'v \<Rightarrow> 'm \<Rightarrow> 'm" and delete :: "'k \<Rightarrow> 'm \<Rightarrow> 'm"
    and lookup :: "'k \<Rightarrow> 'm \<Rightarrow> 'v option" and previous :: "'k \<Rightarrow> 'm \<Rightarrow> 'v option"
  assumes good_empty: "good empty" and elems_empty: "elems empty = []"
    and ordered: "good m \<Longrightarrow> ascending key (elems m)"
    and good_insert: "good m \<Longrightarrow> good (insert x m)" and good_replace: "good m \<Longrightarrow> good (replace x m)" and good_delete: "good m \<Longrightarrow> good (delete k m)"
    and elems_insert: "good m \<Longrightarrow> elems (insert x m) =
      keys_below key (key x) (elems m) @ (case filter (\<lambda>y. key y = key x) (elems m) of [] \<Rightarrow> x | y # _ \<Rightarrow> y) # keys_above key (key x) (elems m)"
    and elems_replace: "good m \<Longrightarrow> elems (replace x m) = keys_below key (key x) (elems m) @ x # keys_above key (key x) (elems m)"
    and elems_delete: "good m \<Longrightarrow> elems (delete k m) = filter (\<lambda>y. key y \<noteq> k) (elems m)"
    and lookup_elems: "good m \<Longrightarrow> lookup k m = (case filter (\<lambda>y. key y = k) (elems m) of [] \<Rightarrow> None | y # _ \<Rightarrow> Some y)"
    and previous_elems: "good m \<Longrightarrow> previous k m = (case rev (filter (\<lambda>y. key y \<le> k) (elems m)) of [] \<Rightarrow> None | y # _ \<Rightarrow> Some y)"
begin

lemma lookup_iff:
  assumes "good m"
  shows "lookup k m = Some x \<longleftrightarrow> x \<in> set (elems m) \<and> key x = k"
proof -
  have "y = x" if "y \<in> set (elems m)" "x \<in> set (elems m)" "key y = key x" for x y
    using ascending_inj [OF ordered [OF assms]] that by (auto dest: inj_onD)
  note eq = this
  show ?thesis
  proof (cases "filter (\<lambda>y. key y = k) (elems m)")
    case Nil
    then show ?thesis using lookup_elems [OF assms, of k] by (auto simp: filter_empty_conv)
  next
    case (Cons z zs)
    have z: "z \<in> set (elems m)" "key z = k" using filter_head [OF Cons] by auto
    have "lookup k m = Some z" using lookup_elems [OF assms, of k] Cons by simp
    then show ?thesis using z eq [of z x] by (cases "x = z") auto
  qed
qed

lemma lookup_None: "good m \<Longrightarrow> lookup k m = None \<longleftrightarrow> (\<forall>x\<in>set (elems m). key x \<noteq> k)"
  using lookup_iff [of m k] by (cases "lookup k m") auto

lemma set_replace: "good m \<Longrightarrow> set (elems (replace x m)) = {x} \<union> {y \<in> set (elems m). key y \<noteq> key x}"
  by (auto simp: elems_replace)

lemma set_delete: "good m \<Longrightarrow> set (elems (delete k m)) = {y \<in> set (elems m). key y \<noteq> k}"
  by (auto simp: elems_delete)

lemma lookup_replace:
  assumes "good m"
  shows "lookup k (replace x m) = (if k = key x then Some x else lookup k m)"
proof -
  have "lookup k (replace x m) = Some y \<longleftrightarrow> (if k = key x then y = x else lookup k m = Some y)" for y
    by (auto simp: lookup_iff assms good_replace set_replace)
  then show ?thesis by (metis not_Some_eq)
qed

lemma lookup_delete:
  assumes "good m"
  shows "lookup k (delete k' m) = (if k = k' then None else lookup k m)"
proof -
  have "lookup k (delete k' m) = Some y \<longleftrightarrow> k \<noteq> k' \<and> lookup k m = Some y" for y
    by (auto simp: lookup_iff assms good_delete set_delete)
  then show ?thesis by (metis not_Some_eq)
qed

text \<open>The greatest value at or before a key.\<close>

lemma previous_iff:
  assumes "good m"
  shows "previous k m = Some x \<longleftrightarrow> x \<in> set (elems m) \<and> key x \<le> k \<and> (\<forall>y\<in>set (elems m). key y \<le> k \<longrightarrow> key y \<le> key x)"
proof -
  define xs where "xs = filter (\<lambda>y. key y \<le> k) (elems m)"
  have asc: "ascending key xs" using ordered [OF assms] by (simp add: xs_def ascending_def sorted_wrt_filter)
  have set: "y \<in> set xs \<longleftrightarrow> y \<in> set (elems m) \<and> key y \<le> k" for y by (auto simp: xs_def)
  have prev: "previous k m = (case rev xs of [] \<Rightarrow> None | y # _ \<Rightarrow> Some y)" using previous_elems [OF assms] by (simp add: xs_def)
  show ?thesis
  proof (cases xs rule: rev_cases)
    case Nil
    then show ?thesis using prev set by auto
  next
    case (snoc ys z)
    have z: "z \<in> set xs" "\<forall>y\<in>set xs. key y \<le> key z" using snoc asc by auto
    have "x = z" if "x \<in> set xs" "key z \<le> key x" for x
      using that z ascending_inj [OF asc] by (metis dual_order.antisym inj_onD)
    then have "previous k m = Some x \<longleftrightarrow> x \<in> set xs \<and> (\<forall>y\<in>set xs. key y \<le> key x)" using prev snoc z by auto
    then show ?thesis using set by auto
  qed
qed

lemma previous_None: "good m \<Longrightarrow> previous k m = None \<longleftrightarrow> (\<forall>x\<in>set (elems m). k < key x)"
  using previous_iff [of m k] previous_elems [of m k] by (auto simp: filter_empty_conv not_le split: list.splits) (metis leD)

end

interpretation itree: ordered_map key Terminator inorder "itree_ok key" "it_insert key" "it_replace key" "it_remove key" "it_lookup key"
  "it_lookup_previous key" for key
proof
  fix m :: "'a itree" and x :: 'a and k :: 'b
  assume m: "itree_ok key m"
  show asc: "ascending key (inorder m)" using m by (simp add: itree_ok_def)
  show i: "inorder (it_insert key x m) =
      keys_below key (key x) (inorder m) @ (case filter (\<lambda>y. key y = key x) (inorder m) of [] \<Rightarrow> x | y # _ \<Rightarrow> y) # keys_above key (key x) (inorder m)"
    using asc by (rule it_insert_inorder)
  show r: "inorder (it_replace key x m) = keys_below key (key x) (inorder m) @ x # keys_above key (key x) (inorder m)"
    using asc by (rule it_replace_inorder)
  show d: "inorder (it_remove key k m) = filter (\<lambda>y. key y \<noteq> k) (inorder m)" using asc by (rule it_remove_inorder)
  have bal: "balanced (it_insert key x m)" "balanced (it_replace key x m)" "balanced (it_remove key k m)"
    using insert_grows [of m key x] replace_grows [of m key x] remove_shrinks [of m key k] m by (auto simp: itree_ok_def grows_def shrinks_def)
  have "case filter (\<lambda>y. key y = key x) (inorder m) of [] \<Rightarrow> True | y # _ \<Rightarrow> key y = key x" by (auto split: list.split dest: filter_head)
  then have "ascending key (inorder (it_insert key x m))"
    unfolding i using asc by (auto simp: ascending_filter split: list.splits)
  then show "itree_ok key (it_insert key x m)" using bal by (simp add: itree_ok_def)
  show "itree_ok key (it_replace key x m)" using bal r asc by (auto simp: itree_ok_def ascending_filter)
  show "itree_ok key (it_remove key k m)" using bal d asc by (simp add: itree_ok_def ascending_filter)
  show "it_lookup key k m = (case filter (\<lambda>y. key y = k) (inorder m) of [] \<Rightarrow> None | y # _ \<Rightarrow> Some y)"
    using asc by (rule it_lookup_spec)
  show "it_lookup_previous key k m = (case rev (filter (\<lambda>y. key y \<le> k) (inorder m)) of [] \<Rightarrow> None | y # _ \<Rightarrow> Some y)"
    using asc by (rule it_lookup_previous_spec)
qed (simp_all add: itree_ok_def)

text \<open>
  C24. The immutable tree: \<open>insert\<close>, \<open>replace\<close>, \<open>remove\<close>, \<open>popMin\<close> and \<open>popMax\<close> on a balanced, ordered tree give
  a balanced, ordered tree with the values that a sorted sequence would have; the searches find what is in the
  sequence, \<open>lookup_previous\<close> the last value at or before a key; and the height is at most logarithmic in the
  number of values.
\<close>

theorem immutable_tree_refines:
  assumes "itree_ok key t"
  shows "itree_ok key (it_insert key x t) \<and> itree_ok key (it_replace key x t) \<and> itree_ok key (it_remove key k t) \<and>
    inorder (it_insert key x t) =
      keys_below key (key x) (inorder t) @ (case filter (\<lambda>y. key y = key x) (inorder t) of [] \<Rightarrow> x | y # _ \<Rightarrow> y) # keys_above key (key x) (inorder t) \<and>
    inorder (it_replace key x t) = keys_below key (key x) (inorder t) @ x # keys_above key (key x) (inorder t) \<and>
    inorder (it_remove key k t) = filter (\<lambda>y. key y \<noteq> k) (inorder t) \<and>
    (\<forall>m t'. it_popMin t = Some (m, t') \<longrightarrow> itree_ok key t' \<and> inorder t = m # inorder t') \<and>
    (\<forall>m t'. it_popMax t = Some (m, t') \<longrightarrow> itree_ok key t' \<and> inorder t = inorder t' @ [m]) \<and>
    (it_lookup key k t = Some y \<longleftrightarrow> y \<in> set (inorder t) \<and> key y = k) \<and>
    (it_lookup_previous key k t = Some y \<longleftrightarrow> y \<in> set (inorder t) \<and> key y \<le> k \<and> (\<forall>z\<in>set (inorder t). key z \<le> k \<longrightarrow> key z \<le> key y)) \<and>
    2 ^ (node_height t div 3) \<le> it_size t + 1"
proof -
  have pops: "itree_ok key t' \<and> inorder t = m # inorder t'" if "it_popMin t = Some (m, t')" for m t'
    using popMin_shrinks [OF _ that] it_popMin_inorder [OF that] assms by (simp add: itree_ok_def shrinks_def)
  have pops': "itree_ok key t' \<and> inorder t = inorder t' @ [m]" if "it_popMax t = Some (m, t')" for m t'
    using popMax_shrinks [OF _ that] it_popMax_inorder [OF that] assms by (simp add: itree_ok_def shrinks_def)
  have "2 ^ (node_height t div 3) \<le> it_size t + 1"
    using least_size_exponential [of "node_height t"] balanced_size [of t] assms by (simp add: itree_ok_def)
  then show ?thesis
    using pops pops' itree.good_insert [OF assms, of x] itree.good_replace [OF assms, of x] itree.good_delete [OF assms, of k]
      itree.elems_insert [OF assms, of x] itree.elems_replace [OF assms, of x] itree.elems_delete [OF assms, of k]
      itree.lookup_iff [OF assms, of k y] itree.previous_iff [OF assms, of k y] by blast
qed

text \<open>
  Iterators: from \<open>upper_bound\<close> of a key, going back to the beginning visits the values at or before the key
  in descending order, and going forward to the end the values after it in ascending order; no push overflows
  the stack of an iterator and no iterator is dereferenced at the end.
\<close>

theorem iterators_visit:
  assumes "itree_ok key t"
  shows "\<exists>it. it_upper_bound key k t = Some it \<and>
    visit_back (it_size t) t it = Some (rev (filter (\<lambda>x. key x \<le> k) (inorder t))) \<and>
    visit_forward (it_size t) t it = Some (filter (\<lambda>x. \<not> key x \<le> k) (inorder t))"
proof -
  obtain it where it: "it_upper_bound key k t = Some it" "position t it" "it_before t it = filter (\<lambda>x. key x \<le> k) (inorder t)"
      "it_after it = filter (\<lambda>x. \<not> key x \<le> k) (inorder t)"
    using it_upper_bound_ok [OF assms] by blast
  have "length (it_before t it) \<le> it_size t" "length (it_after it) \<le> it_size t"
    using before_after [OF it(2)] by (auto simp: it_size_inorder simp flip: before_after [OF it(2)])
  then show ?thesis using visit_back_ok [OF assms it(2)] visit_forward_ok [OF assms it(2)] it(1,3,4) by simp
qed

definition sample_tree :: "nat itree" where
  "sample_tree = fold (it_insert id) [3, 1, 4, 15, 9, 2, 6] Terminator"

lemma sample_tree_ok: "itree_ok id sample_tree"
  unfolding sample_tree_def by (intro fold_invariant [where Q = "\<lambda>_. True" and P = "itree_ok id"]) (auto intro: itree.good_insert itree.good_empty)

lemma sample_tree_values: "inorder sample_tree = [1, 2, 3, 4, 6, 9, 15]"
  by (simp add: sample_tree_def it_node_def balance_def)

theorem immutable_tree_refines_witness: "inorder (it_remove id 4 sample_tree) = [1, 2, 3, 6, 9, 15]"
  using immutable_tree_refines [OF sample_tree_ok, of 0 4] by (simp add: sample_tree_values)

theorem iterators_visit_witness:
  "\<exists>it. it_upper_bound id 5 sample_tree = Some it \<and> visit_back (it_size sample_tree) sample_tree it = Some [4, 3, 2, 1]"
  using iterators_visit [OF sample_tree_ok, of 5] by (auto simp: sample_tree_values simp del: visit_back.simps)

end
