(* ===== verification/AddressSpace.thy ===== *)
theory AddressSpace
  imports TimingSolver ObjectState ImmutableTree
begin

unbundle bit_operations_syntax

declare One_nat_def [simp del]

section \<open>Address spaces\<close>

text \<open>
  \<open>AddressSpace\<close> (\<open>klee/lib/Core/AddressSpace.cpp\<close>): the memory objects of a state, in an immutable tree ordered by
  address, with the contents of an object shared between states until one of them writes to it. The contents
  are a heap of \<open>object_state\<close>s, a reference is a number. Resolution finds the objects that a pointer can point to by
  asking the solver along the order of addresses.
\<close>

subsection \<open>Memory objects\<close>

record memory_object =
  mo_id :: nat
  mo_address :: "64 word"
  mo_size :: nat
  mo_isUserSpecified :: bool

definition getBaseExpr :: "width \<Rightarrow> memory_object \<Rightarrow> expr option" where
  "getBaseExpr pw mo = constant_create (unat (mo_address mo)) pw"

definition getSizeExpr :: "width \<Rightarrow> memory_object \<Rightarrow> expr option" where
  "getSizeExpr pw mo = constant_create (mo_size mo) pw"

definition getOffsetExpr :: "bool \<Rightarrow> width \<Rightarrow> memory_object \<Rightarrow> expr \<Rightarrow> expr option" where
  "getOffsetExpr cao pw mo pointer = do { b \<leftarrow> getBaseExpr pw mo; SubExpr_create cao pointer b }"

definition getBoundsCheckOffset :: "bool \<Rightarrow> width \<Rightarrow> memory_object \<Rightarrow> expr \<Rightarrow> expr option" where
  "getBoundsCheckOffset cao pw mo offset =
     (if mo_size mo = 0 then EqExpr_create cao offset (ConstantExpr pw 0)
      else do { sz \<leftarrow> getSizeExpr pw mo; UltExpr_create cao offset sz })"

definition getBoundsCheckOffset_bytes :: "bool \<Rightarrow> width \<Rightarrow> memory_object \<Rightarrow> expr \<Rightarrow> nat \<Rightarrow> expr option" where
  "getBoundsCheckOffset_bytes cao pw mo offset bytes =
     (if bytes \<le> mo_size mo
      then UltExpr_create cao offset (ConstantExpr pw (take_bit pw (int (mo_size mo - bytes + 1) mod 2 ^ 32)))
      else Some (ConstantExpr 1 0))"

definition getBoundsCheckPointer :: "bool \<Rightarrow> width \<Rightarrow> memory_object \<Rightarrow> expr \<Rightarrow> expr option" where
  "getBoundsCheckPointer cao pw mo pointer = do { off \<leftarrow> getOffsetExpr cao pw mo pointer; getBoundsCheckOffset cao pw mo off }"

definition getBoundsCheckPointer_bytes :: "bool \<Rightarrow> width \<Rightarrow> memory_object \<Rightarrow> expr \<Rightarrow> nat \<Rightarrow> expr option" where
  "getBoundsCheckPointer_bytes cao pw mo pointer bytes =
     do { off \<leftarrow> getOffsetExpr cao pw mo pointer; getBoundsCheckOffset_bytes cao pw mo off bytes }"

subsection \<open>The map and the sharing of objects\<close>

type_synonym object_ref = nat
type_synonym object_heap = "object_ref \<rightharpoonup> object_state"
type_synonym object_pair = "memory_object \<times> object_ref"

definition mo_key :: "object_pair \<Rightarrow> 64 word" where
  "mo_key op = mo_address (fst op)"

record address_space =
  cowKey :: "32 word"
  as_objects :: "object_pair itree"

definition new_space :: address_space where
  "new_space = \<lparr>cowKey = 1, as_objects = Terminator\<rparr>"

text \<open>The copy constructor increments the key of the original, and the copy has the same key.\<close>

definition copy_space :: "address_space \<Rightarrow> address_space \<times> address_space" where
  "copy_space b = (let k = cowKey b + 1 in (b\<lparr>cowKey := k\<rparr>, \<lparr>cowKey = k, as_objects = as_objects b\<rparr>))"

definition bindObject :: "memory_object \<Rightarrow> object_ref \<Rightarrow> address_space \<Rightarrow> object_heap \<Rightarrow> (address_space \<times> object_heap) option" where
  "bindObject mo r as h = do {
     os \<leftarrow> h r;
     if copyOnWriteOwner os \<noteq> 0 then None
     else Some (as\<lparr>as_objects := it_replace mo_key (mo, r) (as_objects as)\<rparr>, h(r \<mapsto> os\<lparr>copyOnWriteOwner := cowKey as\<rparr>)) }"

definition unbindObject :: "memory_object \<Rightarrow> address_space \<Rightarrow> address_space" where
  "unbindObject mo as = as\<lparr>as_objects := it_remove mo_key (mo_address mo) (as_objects as)\<rparr>"

definition findObject :: "memory_object \<Rightarrow> address_space \<Rightarrow> object_ref option" where
  "findObject mo as = map_option snd (it_lookup mo_key (mo_address mo) (as_objects as))"

text \<open>\<open>fresh\<close> is the reference of the copy, when one is made.\<close>

definition getWriteable :: "object_ref \<Rightarrow> memory_object \<Rightarrow> object_ref \<Rightarrow> address_space \<Rightarrow> object_heap \<Rightarrow> (object_ref \<times> address_space \<times> object_heap) option" where
  "getWriteable fresh mo r as h = do {
     os \<leftarrow> h r;
     if os_readOnly os then None
     else if cowKey as = copyOnWriteOwner os then Some (r, as, h)
     else do {
       newObjectState \<leftarrow> copy_object os;
       Some (fresh, as\<lparr>as_objects := it_replace mo_key (mo, fresh) (as_objects as)\<rparr>,
             h(fresh \<mapsto> newObjectState\<lparr>copyOnWriteOwner := cowKey as\<rparr>)) } }"

subsection \<open>Resolution\<close>

definition resolveOne_constant :: "64 word \<Rightarrow> address_space \<Rightarrow> object_pair option" where
  "resolveOne_constant address as =
     (case it_lookup_previous mo_key address (as_objects as) of
        None \<Rightarrow> None
      | Some (mo, r) \<Rightarrow>
          if mo_size mo = 0 \<and> address = mo_address mo \<or> unat (address - mo_address mo) < mo_size mo then Some (mo, r) else None)"

text \<open>What the queries of a state need: options, the solver and the constraints.\<close>

record 's query_context =
  qc_cao :: bool
  qc_pw :: width
  qc_simplify :: "expr list \<Rightarrow> expr \<Rightarrow> expr option"
  qc_impl :: "'s solver_impl"
  qc_constraints :: "expr list"

definition may :: "'s query_context \<Rightarrow> expr option \<Rightarrow> 's \<Rightarrow> (bool, 's) answer" where
  "may c e s = do { x \<leftarrow> e; ts_mayBeTrue (qc_cao c) (qc_simplify c) (qc_impl c) (qc_constraints c) x s }"

definition must_be :: "'s query_context \<Rightarrow> expr option \<Rightarrow> 's \<Rightarrow> (bool, 's) answer" where
  "must_be c e s = do { x \<leftarrow> e; ts_mustBeTrue (qc_simplify c) (qc_impl c) (qc_constraints c) x s }"

definition in_bounds :: "'s query_context \<Rightarrow> expr \<Rightarrow> memory_object \<Rightarrow> expr option" where
  "in_bounds c p mo = getBoundsCheckPointer (qc_cao c) (qc_pw c) mo p"

definition at_or_above :: "'s query_context \<Rightarrow> expr \<Rightarrow> memory_object \<Rightarrow> expr option" where
  "at_or_above c p mo = do { b \<leftarrow> getBaseExpr (qc_pw c) mo; createFromKind (qc_cao c) Uge p b }"

definition below_base :: "'s query_context \<Rightarrow> expr \<Rightarrow> memory_object \<Rightarrow> expr option" where
  "below_base c p mo = do { b \<leftarrow> getBaseExpr (qc_pw c) mo; UltExpr_create (qc_cao c) p b }"

text \<open>The value of the pointer in some solution, and the objects before and after it.\<close>

definition example_address :: "expr \<Rightarrow> (64 word) option" where
  "example_address e = (case as_constant e of Some (w, v) \<Rightarrow> if w \<le> 64 then Some (word_of_int v) else None | None \<Rightarrow> None)"

definition around :: "64 word \<Rightarrow> address_space \<Rightarrow> (object_pair list \<times> object_pair list) option" where
  "around address as = do {
     it \<leftarrow> it_upper_bound mo_key address (as_objects as);
     downs \<leftarrow> visit_back (it_size (as_objects as)) (as_objects as) it;
     ups \<leftarrow> visit_forward (it_size (as_objects as)) (as_objects as) it;
     Some (downs, ups) }"

text \<open>
  The two loops of \<open>resolveOne\<close>. The result of a loop is \<open>None\<close> when it breaks or ends, and otherwise what the
  function returns: \<open>None\<close> when a query fails, \<open>Some op\<close> for the object found.
\<close>

fun one_back :: "'s query_context \<Rightarrow> expr \<Rightarrow> object_pair list \<Rightarrow> 's \<Rightarrow> (object_pair option option \<times> 's) option" where
  "one_back c p [] s = Some (None, s)"
| "one_back c p (op # ops) s = do {
     (m, s1) \<leftarrow> may c (in_bounds c p (fst op)) s;
     (case m of
        None \<Rightarrow> Some (Some None, s1)
      | Some True \<Rightarrow> Some (Some (Some op), s1)
      | Some False \<Rightarrow> do {
          (t, s2) \<leftarrow> must_be c (at_or_above c p (fst op)) s1;
          (case t of
             None \<Rightarrow> Some (Some None, s2)
           | Some True \<Rightarrow> Some (None, s2)
           | Some False \<Rightarrow> one_back c p ops s2) }) }"

fun one_forward :: "'s query_context \<Rightarrow> expr \<Rightarrow> object_pair list \<Rightarrow> 's \<Rightarrow> (object_pair option option \<times> 's) option" where
  "one_forward c p [] s = Some (None, s)"
| "one_forward c p (op # ops) s = do {
     (t, s1) \<leftarrow> must_be c (below_base c p (fst op)) s;
     (case t of
        None \<Rightarrow> Some (Some None, s1)
      | Some True \<Rightarrow> Some (None, s1)
      | Some False \<Rightarrow> do {
          (m, s2) \<leftarrow> may c (in_bounds c p (fst op)) s1;
          (case m of
             None \<Rightarrow> Some (Some None, s2)
           | Some True \<Rightarrow> Some (Some (Some op), s2)
           | Some False \<Rightarrow> one_forward c p ops s2) }) }"

text \<open>The search when the example does not lie in an object.\<close>

definition search_one :: "'s query_context \<Rightarrow> expr \<Rightarrow> 64 word \<Rightarrow> address_space \<Rightarrow> 's \<Rightarrow> (object_pair option, 's) answer" where
  "search_one c p example as s = do {
     (downs, ups) \<leftarrow> around example as;
     (r, s1) \<leftarrow> one_back c p downs s;
     (case r of
        Some None \<Rightarrow> Some (None, s1)
      | Some (Some op) \<Rightarrow> Some (Some (Some op), s1)
      | None \<Rightarrow> do {
          (r', s2) \<leftarrow> one_forward c p ups s1;
          (case r' of
             Some None \<Rightarrow> Some (None, s2)
           | Some (Some op) \<Rightarrow> Some (Some (Some op), s2)
           | None \<Rightarrow> Some (Some None, s2)) }) }"

text \<open>\<open>resolveOne\<close>: \<open>None\<close> when it returns false, otherwise the object, if there is one.\<close>

definition resolveOne :: "'s query_context \<Rightarrow> expr \<Rightarrow> address_space \<Rightarrow> 's \<Rightarrow> (object_pair option, 's) answer" where
  "resolveOne c p as s =
     (if isConstant p then do { address \<leftarrow> example_address p; Some (Some (resolveOne_constant address as), s) }
      else ask (ts_getValue (qc_simplify c) (qc_impl c) (qc_constraints c) p s) (\<lambda>cex s1. do {
        example \<leftarrow> example_address cex;
        (case it_lookup_previous mo_key example (as_objects as) of
           Some (mo, r) \<Rightarrow>
             if unat (example - mo_address mo) < mo_size mo then Some (Some (Some (mo, r)), s1)
             else search_one c p example as s1
         | None \<Rightarrow> search_one c p example as s1) }))"

text \<open>\<open>checkPointerInObject\<close> with its result 0, 1 or 2, and the list of resolutions.\<close>

definition checkPointerInObject ::
    "'s query_context \<Rightarrow> expr \<Rightarrow> object_pair \<Rightarrow> nat \<Rightarrow> object_pair list \<Rightarrow> 's \<Rightarrow> ((nat \<times> object_pair list) \<times> 's) option" where
  "checkPointerInObject c p op maxResolutions rl s = do {
     (m, s1) \<leftarrow> may c (in_bounds c p (fst op)) s;
     (case m of
        None \<Rightarrow> Some ((1, rl), s1)
      | Some False \<Rightarrow> Some ((2, rl), s1)
      | Some True \<Rightarrow>
          (let rl' = rl @ [op] in
           if length rl' = 1
           then do {
             (t, s2) \<leftarrow> must_be c (in_bounds c p (fst op)) s1;
             (case t of
                None \<Rightarrow> Some ((1, rl'), s2)
              | Some True \<Rightarrow> Some ((0, rl'), s2)
              | Some False \<Rightarrow> Some ((2, rl'), s2)) }
           else if length rl' = maxResolutions then Some ((1, rl'), s1)
           else Some ((2, rl'), s1))) }"

text \<open>
  The two loops of \<open>resolve\<close>: \<open>None\<close> when a loop breaks or ends, otherwise what the function returns. \<open>late\<close> tells of
  each object whether the time is up when the loop comes to it.
\<close>

fun resolve_back :: "'s query_context \<Rightarrow> expr \<Rightarrow> (object_pair \<Rightarrow> bool) \<Rightarrow> nat \<Rightarrow> object_pair list \<Rightarrow> object_pair list \<Rightarrow> 's \<Rightarrow>
    ((bool option \<times> object_pair list) \<times> 's) option" where
  "resolve_back c p late maxResolutions [] rl s = Some ((None, rl), s)"
| "resolve_back c p late maxResolutions (op # ops) rl s =
     (if late op then Some ((Some True, rl), s)
      else do {
        ((incomplete, rl1), s1) \<leftarrow> checkPointerInObject c p op maxResolutions rl s;
        if incomplete \<noteq> 2 then Some ((Some (incomplete \<noteq> 0), rl1), s1)
        else do {
          (t, s2) \<leftarrow> must_be c (at_or_above c p (fst op)) s1;
          (case t of
             None \<Rightarrow> Some ((Some True, rl1), s2)
           | Some True \<Rightarrow> Some ((None, rl1), s2)
           | Some False \<Rightarrow> resolve_back c p late maxResolutions ops rl1 s2) } })"

fun resolve_forward :: "'s query_context \<Rightarrow> expr \<Rightarrow> (object_pair \<Rightarrow> bool) \<Rightarrow> nat \<Rightarrow> object_pair list \<Rightarrow> object_pair list \<Rightarrow> 's \<Rightarrow>
    ((bool option \<times> object_pair list) \<times> 's) option" where
  "resolve_forward c p late maxResolutions [] rl s = Some ((None, rl), s)"
| "resolve_forward c p late maxResolutions (op # ops) rl s =
     (if late op then Some ((Some True, rl), s)
      else do {
        (t, s1) \<leftarrow> must_be c (below_base c p (fst op)) s;
        (case t of
           None \<Rightarrow> Some ((Some True, rl), s1)
         | Some True \<Rightarrow> Some ((None, rl), s1)
         | Some False \<Rightarrow> do {
             ((incomplete, rl1), s2) \<leftarrow> checkPointerInObject c p op maxResolutions rl s1;
             if incomplete \<noteq> 2 then Some ((Some (incomplete \<noteq> 0), rl1), s2)
             else resolve_forward c p late maxResolutions ops rl1 s2 }) })"

text \<open>\<open>resolve\<close>: whether the resolution is incomplete, and the list.\<close>

definition resolve :: "'s query_context \<Rightarrow> expr \<Rightarrow> (object_pair \<Rightarrow> bool) \<Rightarrow> nat \<Rightarrow> address_space \<Rightarrow> 's \<Rightarrow> ((bool \<times> object_pair list) \<times> 's) option" where
  "resolve c p late maxResolutions as s =
     (if isConstant p
      then do {
        address \<leftarrow> example_address p;
        Some ((False, case resolveOne_constant address as of None \<Rightarrow> [] | Some op \<Rightarrow> [op]), s) }
      else do {
        (cex, s1) \<leftarrow> ts_getValue (qc_simplify c) (qc_impl c) (qc_constraints c) p s;
        (case cex of
           None \<Rightarrow> Some ((True, []), s1)
         | Some v \<Rightarrow> do {
             example \<leftarrow> example_address v;
             (downs, ups) \<leftarrow> around example as;
             ((r, rl), s2) \<leftarrow> resolve_back c p late maxResolutions downs [] s1;
             (case r of
                Some incomplete \<Rightarrow> Some ((incomplete, rl), s2)
              | None \<Rightarrow> do {
                  ((r', rl'), s3) \<leftarrow> resolve_forward c p late maxResolutions ups rl s2;
                  Some ((r' = Some True, rl'), s3) }) }) })"

subsection \<open>Memory shared with external functions\<close>

text \<open>\<open>mem\<close> is the memory of the process. The objects are visited in the order of their addresses.\<close>

definition space_objects :: "address_space \<Rightarrow> object_pair list option" where
  "space_objects as = do { it \<leftarrow> it_begin (as_objects as); visit_forward (it_size (as_objects as)) (as_objects as) it }"

definition copy_bytes :: "64 word \<Rightarrow> 8 word list \<Rightarrow> (64 word \<Rightarrow> 8 word) \<Rightarrow> 64 word \<Rightarrow> 8 word" where
  "copy_bytes address bytes mem = fold (\<lambda>i m. m(address + of_nat i := bytes ! i)) [0..<length bytes] mem"

definition read_bytes_at :: "64 word \<Rightarrow> nat \<Rightarrow> (64 word \<Rightarrow> 8 word) \<Rightarrow> 8 word list" where
  "read_bytes_at address n mem = map (\<lambda>i. mem (address + of_nat i)) [0..<n]"

definition copyOut_object :: "object_heap \<Rightarrow> object_pair \<Rightarrow> (64 word \<Rightarrow> 8 word) \<Rightarrow> (64 word \<Rightarrow> 8 word) option" where
  "copyOut_object h = (\<lambda>(mo, r) mem.
     if mo_isUserSpecified mo then Some mem
     else do {
       os \<leftarrow> h r;
       Some (if os_readOnly os then mem else copy_bytes (mo_address mo) (take (mo_size mo) (concreteStore os)) mem) })"

definition copyOutConcretes :: "address_space \<Rightarrow> object_heap \<Rightarrow> (64 word \<Rightarrow> 8 word) \<Rightarrow> (64 word \<Rightarrow> 8 word) option" where
  "copyOutConcretes as h mem = do { ops \<leftarrow> space_objects as; foldM (copyOut_object h) ops mem }"

text \<open>The result of \<open>copyInConcrete\<close> is whether it succeeded, with the space and the heap; \<open>fresh\<close> chooses the reference of a copy.\<close>

definition copyInConcrete :: "(object_heap \<Rightarrow> object_ref) \<Rightarrow> (64 word \<Rightarrow> 8 word) \<Rightarrow> memory_object \<Rightarrow> object_ref \<Rightarrow> 64 word \<Rightarrow>
    address_space \<times> object_heap \<Rightarrow> (bool \<times> address_space \<times> object_heap) option" where
  "copyInConcrete fresh mem mo r src_address = (\<lambda>(as, h). do {
     os \<leftarrow> h r;
     (let bytes = read_bytes_at src_address (mo_size mo) mem in
      if bytes \<noteq> take (mo_size mo) (concreteStore os)
      then if os_readOnly os then Some (False, as, h)
        else do {
          (r', as', h') \<leftarrow> getWriteable (fresh h) mo r as h;
          wos \<leftarrow> h' r';
          Some (True, as', h'(r' \<mapsto> wos\<lparr>concreteStore := bytes @ drop (mo_size mo) (concreteStore wos)\<rparr>)) }
      else Some (True, as, h)) })"

fun copyIn_loop :: "(object_heap \<Rightarrow> object_ref) \<Rightarrow> (64 word \<Rightarrow> 8 word) \<Rightarrow> object_pair list \<Rightarrow> address_space \<times> object_heap \<Rightarrow>
    (bool \<times> address_space \<times> object_heap) option" where
  "copyIn_loop fresh mem [] st = Some (True, st)"
| "copyIn_loop fresh mem ((mo, r) # ops) st =
     (if mo_isUserSpecified mo then copyIn_loop fresh mem ops st
      else do {
        (ok, st') \<leftarrow> copyInConcrete fresh mem mo r (mo_address mo) st;
        if ok then copyIn_loop fresh mem ops st' else Some (False, st') })"

definition copyInConcretes :: "(object_heap \<Rightarrow> object_ref) \<Rightarrow> (64 word \<Rightarrow> 8 word) \<Rightarrow> address_space \<times> object_heap \<Rightarrow>
    (bool \<times> address_space \<times> object_heap) option" where
  "copyInConcretes fresh mem = (\<lambda>(as, h). do { ops \<leftarrow> space_objects as; copyIn_loop fresh mem ops (as, h) })"

subsection \<open>Where objects lie\<close>

text \<open>An object without bytes still has its address.\<close>

definition extent :: "memory_object \<Rightarrow> nat" where
  "extent mo = max 1 (mo_size mo)"

definition mo_ok :: "memory_object \<Rightarrow> bool" where
  "mo_ok mo \<longleftrightarrow> mo_size mo < 2 ^ 32 \<and> unat (mo_address mo) + extent mo \<le> 2 ^ 64"

definition in_object :: "memory_object \<Rightarrow> int \<Rightarrow> bool" where
  "in_object mo a \<longleftrightarrow> uint (mo_address mo) \<le> a \<and> a < uint (mo_address mo) + int (extent mo)"

text \<open>The objects of a space are ordered and do not overlap.\<close>

definition space_ok :: "address_space \<Rightarrow> bool" where
  "space_ok as \<longleftrightarrow> itree_ok mo_key (as_objects as) \<and>
     (\<forall>op\<in>set (inorder (as_objects as)). mo_ok (fst op)) \<and>
     (\<forall>op\<in>set (inorder (as_objects as)). \<forall>op'\<in>set (inorder (as_objects as)).
        mo_key op < mo_key op' \<longrightarrow> unat (mo_key op) + extent (fst op) \<le> unat (mo_key op'))"

lemma space_disjoint:
  assumes "space_ok as" "op \<in> set (inorder (as_objects as))" "op' \<in> set (inorder (as_objects as))" "in_object (fst op) a" "in_object (fst op') a"
  shows "op = op'"
proof -
  have "\<not> mo_key x < mo_key y" if "x \<in> set (inorder (as_objects as))" "y \<in> set (inorder (as_objects as))"
      "in_object (fst x) a" "in_object (fst y) a" for x y
  proof
    assume "mo_key x < mo_key y"
    then have "unat (mo_key x) + extent (fst x) \<le> unat (mo_key y)" using assms(1) that(1,2) by (auto simp: space_ok_def)
    then have "int (unat (mo_key x) + extent (fst x)) \<le> int (unat (mo_key y))" by (simp only: of_nat_le_iff)
    then show False using that(3,4) by (simp add: in_object_def mo_key_def)
  qed
  then have "mo_key op = mo_key op'" using assms(2-5) by (metis linorder_neqE)
  moreover have "inj_on mo_key (set (inorder (as_objects as)))" using assms(1) ascending_inj by (auto simp: space_ok_def itree_ok_def)
  ultimately show ?thesis using assms(2,3) by (auto dest: inj_onD)
qed

text \<open>A concrete address is resolved to the object it lies in.\<close>

lemma in_object_word:
  assumes "mo_address mo \<le> a"
  shows "in_object mo (uint a) \<longleftrightarrow> mo_size mo = 0 \<and> a = mo_address mo \<or> unat (a - mo_address mo) < mo_size mo"
proof -
  have d: "unat (a - mo_address mo) = unat a - unat (mo_address mo)" using assms by (rule unat_sub)
  have le: "unat (mo_address mo) \<le> unat a" using assms by (simp add: word_le_nat_alt)
  have eq: "a = mo_address mo \<longleftrightarrow> unat a = unat (mo_address mo)" by (simp add: word_unat_eq_iff)
  have "int (unat (mo_address mo)) \<le> int (unat a)" using le by (simp only: of_nat_le_iff)
  moreover have "unat a < unat (mo_address mo) + extent mo \<longleftrightarrow> int (unat a) < int (unat (mo_address mo)) + int (extent mo)"
    by (simp only: of_nat_less_iff flip: of_nat_add)
  ultimately have "in_object mo (uint a) \<longleftrightarrow> unat a < unat (mo_address mo) + extent mo" by (simp add: in_object_def)
  then show ?thesis using le unfolding eq d extent_def by (auto simp: max_def)
qed

lemma resolveOne_constant_ok:
  assumes "space_ok as"
  shows "resolveOne_constant a as = Some op \<longleftrightarrow> op \<in> set (inorder (as_objects as)) \<and> in_object (fst op) (uint a)"
proof -
  have ok: "itree_ok mo_key (as_objects as)" using assms by (simp add: space_ok_def)
  have inside: "mo_key x \<le> a" if "in_object (fst x) (uint a)" for x using that by (simp add: in_object_def mo_key_def word_le_def)
  show ?thesis
  proof (cases "it_lookup_previous mo_key a (as_objects as)")
    case None
    then have "\<forall>x\<in>set (inorder (as_objects as)). a < mo_key x" using itree.previous_None [OF ok] by simp
    then show ?thesis using None inside [of op] by (auto simp: resolveOne_constant_def)
  next
    case (Some x)
    then have x: "x \<in> set (inorder (as_objects as))" "mo_key x \<le> a" "\<forall>y\<in>set (inorder (as_objects as)). mo_key y \<le> a \<longrightarrow> mo_key y \<le> mo_key x"
      using itree.previous_iff [OF ok] by auto
    have other: "y = x \<and> in_object (fst x) (uint a)" if y: "y \<in> set (inorder (as_objects as))" "in_object (fst y) (uint a)" for y
    proof (cases "mo_key y = mo_key x")
      case True
      have "inj_on mo_key (set (inorder (as_objects as)))" using ok ascending_inj by (auto simp: itree_ok_def)
      then have "y = x" using True y(1) x(1) by (auto dest: inj_onD)
      then show ?thesis using y(2) by simp
    next
      case False
      then have "mo_key y < mo_key x" using x(3) y(1) inside [OF y(2)] by (simp add: order.strict_iff_order)
      then have "unat (mo_key y) + extent (fst y) \<le> unat (mo_key x)" using assms y(1) x(1) by (auto simp: space_ok_def)
      moreover have "unat (mo_key x) \<le> unat a" using x(2) by (simp add: word_le_nat_alt)
      ultimately have "int (unat (mo_key y) + extent (fst y)) \<le> int (unat a)" by linarith
      then show ?thesis using y(2) by (simp add: in_object_def mo_key_def)
    qed
    have "resolveOne_constant a as = Some op \<longleftrightarrow> op = x \<and> in_object (fst x) (uint a)"
      using Some in_object_word [of "fst x" a] x(2) by (auto simp: resolveOne_constant_def mo_key_def split: prod.splits)
    then show ?thesis using other x(1) by blast
  qed
qed

subsection \<open>What the queries ask\<close>

definition resolver_ok :: "'s query_context \<Rightarrow> ('s \<Rightarrow> bool) \<Rightarrow> expr \<Rightarrow> bool" where
  "resolver_ok c good p \<longleftrightarrow> timing_solver (qc_cao c) (qc_impl c) good (qc_simplify c) \<and> path_ok (qc_cao c) (qc_constraints c) \<and>
     typed (qc_cao c) p \<and> getWidth p = 64 \<and> qc_pw c = 64"

definition points_to :: "'s query_context \<Rightarrow> expr \<Rightarrow> memory_object \<Rightarrow> bool" where
  "points_to c p mo \<longleftrightarrow> (\<exists>env. models env (qc_constraints c) \<and> in_object mo (eval env p))"

definition only_points_to :: "'s query_context \<Rightarrow> expr \<Rightarrow> memory_object \<Rightarrow> bool" where
  "only_points_to c p mo \<longleftrightarrow> (\<forall>env. models env (qc_constraints c) \<longrightarrow> in_object mo (eval env p))"

lemma getBaseExpr_ok: "getBaseExpr 64 mo = Some (ConstantExpr 64 (uint (mo_address mo)))"
proof -
  have "unat (mo_address mo) < 2 ^ 64" using unsigned_less [of "mo_address mo", where ?'a = nat] by simp
  then show ?thesis by (simp add: getBaseExpr_def constant_create_small)
qed

text \<open>The expression of a comparison of the pointer.\<close>

lemma pointer_query:
  assumes "resolver_ok c good p" "\<And>env. gives (qc_cao c) env 1 (of_bool (P (eval env p))) r" "good s"
  shows "answers good (\<lambda>b. b = (\<exists>env. models env (qc_constraints c) \<and> P (eval env p))) (may c r s)"
    "answers good (\<lambda>b. b = (\<forall>env. models env (qc_constraints c) \<longrightarrow> P (eval env p))) (must_be c r s)"
proof -
  obtain e where e: "r = Some e" "typed (qc_cao c) e" "getWidth e = 1" "\<And>env. eval env e = of_bool (P (eval env p))"
    using gives_all [OF assms(2)] by blast
  have ts: "timing_solver (qc_cao c) (qc_impl c) good (qc_simplify c)" "path_ok (qc_cao c) (qc_constraints c)"
    using assms(1) by (auto simp: resolver_ok_def)
  have m: "sometimes (qc_constraints c) e \<longleftrightarrow> (\<exists>env. models env (qc_constraints c) \<and> P (eval env p))"
      "always (qc_constraints c) e \<longleftrightarrow> (\<forall>env. models env (qc_constraints c) \<longrightarrow> P (eval env p))"
    using e(4) by (auto simp: sometimes_def always_def)
  show "answers good (\<lambda>b. b = (\<exists>env. models env (qc_constraints c) \<and> P (eval env p))) (may c r s)"
    using timing_solver.mayBeTrue_right [OF ts(1) assms(3) ts(2) e(2,3)] e(1) m(1) by (simp add: may_def)
  show "answers good (\<lambda>b. b = (\<forall>env. models env (qc_constraints c) \<longrightarrow> P (eval env p))) (must_be c r s)"
    using timing_solver.mustBeTrue_right [OF ts(1) assms(3) ts(2) e(2,3)] e(1) m(2) by (simp add: must_be_def)
qed

lemma pointer_operands:
  assumes "resolver_ok c good p"
  shows "operands (qc_cao c) env p (ConstantExpr 64 (uint (a :: 64 word)))"
  using assms uint_lt2p [of a] by (simp add: resolver_ok_def operands_def typed_def in_width_def)

lemma pointer_range:
  assumes "resolver_ok c good p"
  shows "0 \<le> eval env p" "eval env p < 2 ^ 64"
  using assms typed_width [of "qc_cao c" p env] by (auto simp: resolver_ok_def in_width_def)

lemma in_bounds_gives:
  assumes "resolver_ok c good p" "mo_ok mo"
  shows "gives (qc_cao c) env 1 (of_bool (in_object mo (eval env p))) (in_bounds c p mo)"
proof -
  let ?b = "uint (mo_address mo)"
  have pw: "qc_pw c = 64" "getWidth p = 64" using assms(1) by (auto simp: resolver_ok_def)
  have "gives (qc_cao c) env 64 (take_bit 64 (eval env p - ?b)) (SubExpr_create (qc_cao c) p (ConstantExpr 64 ?b))"
    using AddExpr_create_gives [OF pointer_operands [OF assms(1), of env "mo_address mo"]] pw
    by (simp add: gives_arith constant_binary_def)
  then obtain off where off: "SubExpr_create (qc_cao c) p (ConstantExpr 64 ?b) = Some off" "well_typed (qc_cao c) env off" "getWidth off = 64"
      "eval env off = take_bit 64 (eval env p - ?b)" by (auto simp: gives_def)
  have range: "0 \<le> eval env p" "eval env p < 2 ^ 64" "0 \<le> ?b" "?b < 2 ^ 64"
    using pointer_range [OF assms(1)] uint_lt2p [of "mo_address mo"] by auto
  have inside: "take_bit 64 (eval env p - ?b) < int n \<longleftrightarrow> ?b \<le> eval env p \<and> eval env p < ?b + int n" if "?b + int n \<le> 2 ^ 64" for n
  proof (cases "?b \<le> eval env p")
    case True
    then have "take_bit 64 (eval env p - ?b) = eval env p - ?b" using range(2,3) by (intro take_bit_int_eq_self) linarith+
    then show ?thesis using True by linarith
  next
    case False
    have "take_bit 64 (eval env p - ?b) = (eval env p - ?b + 2 ^ 64) mod 2 ^ 64" by (simp add: take_bit_eq_mod)
    also have "\<dots> = eval env p - ?b + 2 ^ 64" using False range by (intro mod_pos_pos_trivial) linarith+
    finally have "take_bit 64 (eval env p - ?b) = eval env p - ?b + 2 ^ 64" .
    then show ?thesis using False that range by linarith
  qed
  have "int (unat (mo_address mo) + extent mo) \<le> int (2 ^ 64)" using assms(2) by (simp only: mo_ok_def of_nat_le_iff)
  then have fits: "?b + int (extent mo) \<le> 2 ^ 64" by simp
  have eq: "in_bounds c p mo = getBoundsCheckOffset (qc_cao c) 64 mo off"
    using off(1) pw by (simp add: in_bounds_def getBoundsCheckPointer_def getOffsetExpr_def getBaseExpr_ok)
  show ?thesis
  proof (cases "mo_size mo = 0")
    case True
    have o: "operands (qc_cao c) env off (ConstantExpr 64 0)" using off(2,3) by (simp add: operands_def)
    have "gives (qc_cao c) env 1 (of_bool (eval env off = 0)) (EqExpr_create (qc_cao c) off (ConstantExpr 64 0))"
      using EqExpr_create_gives(1) [OF o] off(3) by (simp add: gives_binary_def constant_binary_def is_compare_def)
    moreover have "eval env off = 0 \<longleftrightarrow> in_object mo (eval env p)"
      using inside [of 1] fits off(4) True by (simp add: in_object_def extent_def) (smt (verit) take_bit_nonnegative)
    ultimately show ?thesis using True eq by (simp add: getBoundsCheckOffset_def)
  next
    case False
    have sz: "getSizeExpr 64 mo = Some (ConstantExpr 64 (int (mo_size mo)))" "in_width 64 (int (mo_size mo))"
      using assms(2) by (auto simp: getSizeExpr_def mo_ok_def constant_create_small in_width_def)
    have o: "operands (qc_cao c) env off (ConstantExpr 64 (int (mo_size mo)))" using off(2,3) sz(2) by (simp add: operands_def)
    have "gives (qc_cao c) env 1 (of_bool (eval env off < int (mo_size mo))) (UltExpr_create (qc_cao c) off (ConstantExpr 64 (int (mo_size mo))))"
      using fold_operations_give(5) [OF o] off(3) by (simp add: gives_binary_def constant_binary_def is_compare_def)
    moreover have "eval env off < int (mo_size mo) \<longleftrightarrow> in_object mo (eval env p)"
      using inside [of "mo_size mo"] fits off(4) False by (simp add: in_object_def extent_def max_def)
    ultimately show ?thesis using False eq sz(1) by (simp add: getBoundsCheckOffset_def)
  qed
qed

lemma base_compare_gives:
  assumes "resolver_ok c good p"
  shows "gives (qc_cao c) env 1 (of_bool (uint (mo_address mo) \<le> eval env p)) (at_or_above c p mo)"
    "gives (qc_cao c) env 1 (of_bool (eval env p < uint (mo_address mo))) (below_base c p mo)"
proof -
  have o: "operands (qc_cao c) env p (ConstantExpr 64 (uint (mo_address mo)))" using pointer_operands [OF assms] .
  then have o': "operands (qc_cao c) env (ConstantExpr 64 (uint (mo_address mo))) p" by (auto simp: operands_def)
  have pw: "qc_pw c = 64" using assms by (simp add: resolver_ok_def)
  show "gives (qc_cao c) env 1 (of_bool (uint (mo_address mo) \<le> eval env p)) (at_or_above c p mo)"
    using fold_operations_give(6) [OF o'] pw by (simp add: at_or_above_def getBaseExpr_ok createFromKind_def gives_binary_def constant_binary_def is_compare_def)
  show "gives (qc_cao c) env 1 (of_bool (eval env p < uint (mo_address mo))) (below_base c p mo)"
    using fold_operations_give(5) [OF o] pw by (simp add: below_base_def getBaseExpr_ok gives_binary_def constant_binary_def is_compare_def)
qed

lemmas in_bounds_asked = pointer_query [OF _ in_bounds_gives]
  and above_asked = pointer_query [OF _ base_compare_gives(1)]
  and below_asked = pointer_query [OF _ base_compare_gives(2)]

subsection \<open>Resolution is exact\<close>

lemma answersE:
  assumes "answers good valid call"
  obtains r s where "call = Some (r, s)" "good s" "\<And>x. r = Some x \<Longrightarrow> valid x"
  using assms by (auto simp: answers_def)

lemma checkPointerInObject_ok:
  assumes "resolver_ok c good p" "mo_ok (fst op)" "good s"
  obtains n rl' s' where "checkPointerInObject c p op maxResolutions rl s = Some ((n, rl'), s')" "good s'"
    "rl' = rl \<or> rl' = rl @ [op] \<and> points_to c p (fst op)"
    "n = 2 \<Longrightarrow> points_to c p (fst op) \<Longrightarrow> rl' = rl @ [op]"
    "n = 0 \<Longrightarrow> rl = [] \<and> rl' = [op] \<and> only_points_to c p (fst op)"
proof -
  obtain m s1 where m: "may c (in_bounds c p (fst op)) s = Some (m, s1)" "good s1" "\<And>b. m = Some b \<Longrightarrow> b = points_to c p (fst op)"
    using answersE [OF in_bounds_asked(1) [OF assms(1) assms(1,2,3)]] unfolding points_to_def by blast
  obtain t s2 where t: "must_be c (in_bounds c p (fst op)) s1 = Some (t, s2)" "good s2" "\<And>b. t = Some b \<Longrightarrow> b = only_points_to c p (fst op)"
    using answersE [OF in_bounds_asked(2) [OF assms(1) assms(1,2) m(2)]] unfolding only_points_to_def by blast
  note d = checkPointerInObject_def m(1) t(1)
  consider "m = None" | "m = Some False" | "m = Some True" by (cases m) auto
  then show thesis
  proof cases
    case 1
    then show thesis using that [of 1 rl s1] m(2) by (simp add: d)
  next
    case 2
    then show thesis using that [of 2 rl s1] m(2) m(3) [of False] by (simp add: d)
  next
    case 3
    then have pt: "points_to c p (fst op)" using m(3) by simp
    show thesis
    proof (cases "rl = []")
      case True
      consider "t = None" | "t = Some False" | "t = Some True" by (cases t) auto
      then show thesis
      proof cases
        case 1
        then show thesis using that [of 1 "[op]" s2] 3 True t(2) pt by (simp add: d)
      next
        case 2
        then show thesis using that [of 2 "[op]" s2] 3 True t(2) pt by (simp add: d)
      next
        case t3: 3
        then show thesis using that [of 0 "[op]" s2] 3 True t(2,3) pt by (simp add: d)
      qed
    next
      case False
      then have l: "length (rl @ [op]) \<noteq> 1" by simp
      show thesis
      proof (cases "length (rl @ [op]) = maxResolutions")
        case True
        then show thesis using that [of 1 "rl @ [op]" s1] 3 l m(2) pt by (simp add: d Let_def)
      next
        case False
        then show thesis using that [of 2 "rl @ [op]" s1] 3 l m(2) pt by (simp add: d Let_def)
      qed
    qed
  qed
qed

text \<open>What a loop over objects has done to the list of resolutions when it ends with a result.\<close>

definition resolved :: "'s query_context \<Rightarrow> expr \<Rightarrow> object_pair list \<Rightarrow> object_pair list \<Rightarrow> bool option \<Rightarrow> object_pair list \<Rightarrow> bool" where
  "resolved c p ops rl r rl' \<longleftrightarrow>
     set rl \<subseteq> set rl' \<and> (\<forall>op\<in>set rl' - set rl. op \<in> set ops \<and> points_to c p (fst op)) \<and>
     (r = None \<longrightarrow> (\<forall>op\<in>set ops. points_to c p (fst op) \<longrightarrow> op \<in> set rl')) \<and>
     (r = Some False \<longrightarrow> (\<exists>op\<in>set ops. rl' = [op] \<and> only_points_to c p (fst op)))"

lemma resolved_Cons:
  assumes "resolved c p ops rl1 r rl'" "rl1 = rl \<or> rl1 = rl @ [op] \<and> points_to c p (fst op)" "points_to c p (fst op) \<Longrightarrow> rl1 = rl @ [op]"
  shows "resolved c p (op # ops) rl r rl'"
proof (cases "points_to c p (fst op)")
  case True
  then have "rl1 = rl @ [op]" using assms(3) by simp
  then show ?thesis using True assms(1) by (auto simp: resolved_def)
next
  case False
  then have "rl1 = rl" using assms(2) by simp
  then show ?thesis using False assms(1) by (auto simp: resolved_def)
qed

lemma resolve_back_ok:
  assumes "resolver_ok c good p" "\<forall>op\<in>set ops. mo_ok (fst op)" "good s"
    "sorted_wrt (\<lambda>a b. unat (mo_key b) + extent (fst b) \<le> unat (mo_key a)) ops"
  shows "\<exists>r rl' s'. resolve_back c p late maxResolutions ops rl s = Some ((r, rl'), s') \<and> good s' \<and> resolved c p ops rl r rl'"
  using assms(2-)
proof (induction ops arbitrary: rl s)
  case Nil
  then show ?case by (auto simp: resolved_def)
next
  case (Cons op ops)
  have mo: "mo_ok (fst op)" using Cons.prems(1) by simp
  show ?case
  proof (cases "late op")
    case True
    then show ?thesis using Cons.prems by (auto simp: resolved_def)
  next
    case late: False
    obtain n rl1 s1 where n: "checkPointerInObject c p op maxResolutions rl s = Some ((n, rl1), s1)" "good s1"
        "rl1 = rl \<or> rl1 = rl @ [op] \<and> points_to c p (fst op)" "n = 2 \<Longrightarrow> points_to c p (fst op) \<Longrightarrow> rl1 = rl @ [op]"
        "n = 0 \<Longrightarrow> rl = [] \<and> rl1 = [op] \<and> only_points_to c p (fst op)"
      using checkPointerInObject_ok [OF assms(1) mo Cons.prems(2), of maxResolutions rl] by blast
    show ?thesis
    proof (cases "n = 2")
      case False
      then have "resolved c p (op # ops) rl (Some (n \<noteq> 0)) rl1" using n(3,5) by (auto simp: resolved_def)
      then show ?thesis using late n(1,2) False by auto
    next
      case n2: True
      obtain t s2 where t: "must_be c (at_or_above c p (fst op)) s1 = Some (t, s2)" "good s2"
          "\<And>b. t = Some b \<Longrightarrow> b = (\<forall>env. models env (qc_constraints c) \<longrightarrow> uint (mo_address (fst op)) \<le> eval env p)"
        using answersE [OF above_asked(2) [OF assms(1) assms(1) n(2)]] by blast
      consider "t = None" | "t = Some True" | "t = Some False" by (cases t) auto
      then show ?thesis
      proof cases
        case 1
        have "resolved c p (op # ops) rl (Some True) rl1" using n(3) by (auto simp: resolved_def)
        then show ?thesis using late n(1) n2 t(1,2) 1 by auto
      next
        case 2
        have "\<not> points_to c p (fst x)" if "x \<in> set ops" for x
        proof
          assume "points_to c p (fst x)"
          then obtain env where env: "models env (qc_constraints c)" "in_object (fst x) (eval env p)" by (auto simp: points_to_def)
          have "unat (mo_key x) + extent (fst x) \<le> unat (mo_key op)" using Cons.prems(3) that by simp
          then have "int (unat (mo_key x) + extent (fst x)) \<le> int (unat (mo_key op))" by (simp only: of_nat_le_iff)
          then show False using env t(3) [OF 2] by (auto simp: in_object_def mo_key_def)
        qed
        then have "resolved c p ops rl1 None rl1" by (auto simp: resolved_def)
        then have "resolved c p (op # ops) rl None rl1" using resolved_Cons [OF _ n(3) n(4) [OF n2]] by blast
        then show ?thesis using late n(1) n2 t(1,2) 2 by auto
      next
        case 3
        obtain r rl' s' where "resolve_back c p late maxResolutions ops rl1 s2 = Some ((r, rl'), s')" "good s'" "resolved c p ops rl1 r rl'"
          using Cons.IH [OF _ t(2), of rl1] Cons.prems(1,3) by auto
        then show ?thesis using late n(1) n2 t(1) 3 resolved_Cons [OF _ n(3) n(4)] by auto
      qed
    qed
  qed
qed

lemma resolve_forward_ok:
  assumes "resolver_ok c good p" "\<forall>op\<in>set ops. mo_ok (fst op)" "good s" "ascending mo_key ops"
  shows "\<exists>r rl' s'. resolve_forward c p late maxResolutions ops rl s = Some ((r, rl'), s') \<and> good s' \<and> resolved c p ops rl r rl'"
  using assms(2-)
proof (induction ops arbitrary: rl s)
  case Nil
  then show ?case by (auto simp: resolved_def)
next
  case (Cons op ops)
  have mo: "mo_ok (fst op)" using Cons.prems(1) by simp
  show ?case
  proof (cases "late op")
    case True
    then show ?thesis using Cons.prems by (auto simp: resolved_def)
  next
    case late: False
    obtain t s1 where t: "must_be c (below_base c p (fst op)) s = Some (t, s1)" "good s1"
        "\<And>b. t = Some b \<Longrightarrow> b = (\<forall>env. models env (qc_constraints c) \<longrightarrow> eval env p < uint (mo_address (fst op)))"
      using answersE [OF below_asked(2) [OF assms(1) assms(1) Cons.prems(2)]] by blast
    consider "t = None" | "t = Some True" | "t = Some False" by (cases t) auto
    then show ?thesis
    proof cases
      case 1
      then show ?thesis using late t(1,2) by (auto simp: resolved_def)
    next
      case 2
      have "\<not> points_to c p (fst x)" if "x \<in> set (op # ops)" for x
      proof
        assume "points_to c p (fst x)"
        then obtain env where env: "models env (qc_constraints c)" "in_object (fst x) (eval env p)" by (auto simp: points_to_def)
        have "mo_key op \<le> mo_key x" using Cons.prems(3) that by (auto intro: order.strict_implies_order)
        then show False using env t(3) [OF 2] by (auto simp: in_object_def mo_key_def word_le_def)
      qed
      then show ?thesis using late t(1,2) 2 by (auto simp: resolved_def)
    next
      case 3
      obtain n rl1 s2 where n: "checkPointerInObject c p op maxResolutions rl s1 = Some ((n, rl1), s2)" "good s2"
          "rl1 = rl \<or> rl1 = rl @ [op] \<and> points_to c p (fst op)" "n = 2 \<Longrightarrow> points_to c p (fst op) \<Longrightarrow> rl1 = rl @ [op]"
          "n = 0 \<Longrightarrow> rl = [] \<and> rl1 = [op] \<and> only_points_to c p (fst op)"
        using checkPointerInObject_ok [OF assms(1) mo t(2), of maxResolutions rl] by blast
      show ?thesis
      proof (cases "n = 2")
        case False
        then have "resolved c p (op # ops) rl (Some (n \<noteq> 0)) rl1" using n(3,5) by (auto simp: resolved_def)
        then show ?thesis using late t(1) n(1,2) 3 False by auto
      next
        case n2: True
        obtain r rl' s' where "resolve_forward c p late maxResolutions ops rl1 s2 = Some ((r, rl'), s')" "good s'" "resolved c p ops rl1 r rl'"
          using Cons.IH [OF _ n(2), of rl1] Cons.prems(1,3) by auto
        then show ?thesis using late t(1) n(1) n2 3 resolved_Cons [OF _ n(3) n(4)] by auto
      qed
    qed
  qed
qed

text \<open>The objects before and after an address, in the order in which they are visited.\<close>

lemma around_ok:
  assumes "space_ok as"
  obtains downs ups where "around a as = Some (downs, ups)" "set downs \<union> set ups = set (inorder (as_objects as))"
    "sorted_wrt (\<lambda>x y. unat (mo_key y) + extent (fst y) \<le> unat (mo_key x)) downs" "ascending mo_key ups"
    "\<forall>op\<in>set downs \<union> set ups. mo_ok (fst op)"
proof -
  let ?xs = "inorder (as_objects as)"
  have ok: "itree_ok mo_key (as_objects as)" using assms by (simp add: space_ok_def)
  obtain it where it: "it_upper_bound mo_key a (as_objects as) = Some it" "position (as_objects as) it"
      "it_before (as_objects as) it = filter (\<lambda>x. mo_key x \<le> a) ?xs" "it_after it = filter (\<lambda>x. \<not> mo_key x \<le> a) ?xs"
    using it_upper_bound_ok [OF ok] by blast
  define downs where "downs = rev (it_before (as_objects as) it)"
  have "length (it_before (as_objects as) it) \<le> it_size (as_objects as)" "length (it_after it) \<le> it_size (as_objects as)"
    using before_after [OF it(2)] by (auto simp: it_size_inorder simp flip: before_after [OF it(2)])
  then have a: "around a as = Some (downs, it_after it)"
    using it(1) visit_back_ok [OF ok it(2)] visit_forward_ok [OF ok it(2)]
    by (simp add: around_def downs_def del: visit_back.simps)
  have s: "set downs \<union> set (it_after it) = set ?xs" using it(3,4) by (auto simp: downs_def)
  have asc: "ascending mo_key ?xs" using ok by (simp add: itree_ok_def)
  have "sorted_wrt (\<lambda>x y. mo_key y < mo_key x) downs"
    using ascending_filter [OF asc] by (simp add: downs_def it(3) sorted_wrt_rev ascending_def)
  then have "sorted_wrt (\<lambda>x y. unat (mo_key y) + extent (fst y) \<le> unat (mo_key x)) downs"
    using assms s by (elim sorted_wrt_mono_rel [rotated]) (auto simp: space_ok_def)
  then show thesis using that [OF a s] it(4) ascending_filter [OF asc] assms s by (auto simp: space_ok_def)
qed

lemma example_ok:
  assumes "resolver_ok c good p" "models env (qc_constraints c)"
  shows "example_address (ConstantExpr (getWidth p) (eval env p)) = Some (word_of_int (eval env p))"
    "uint (word_of_int (eval env p) :: 64 word) = eval env p"
  using assms pointer_range [OF assms(1), of env] by (auto simp: example_address_def resolver_ok_def uint_word_of_int)

lemma resolve_constant:
  assumes "resolver_ok c good p" "isConstant p" "space_ok as"
  obtains a where "example_address p = Some a" "\<And>op. op \<in> set (inorder (as_objects as)) \<Longrightarrow>
      points_to c p (fst op) \<longleftrightarrow> resolveOne_constant a as = Some op"
proof -
  obtain v where v: "p = ConstantExpr 64 v" using assms(1,2) by (cases p) (auto simp: resolver_ok_def)
  obtain env where env: "models env (qc_constraints c)" using assms(1) by (auto simp: resolver_ok_def path_ok_def)
  have pt: "points_to c p (fst op) \<longleftrightarrow> in_object (fst op) (uint (word_of_int v :: 64 word))" for op
    using env example_ok(2) [OF assms(1) env] v by (auto simp: points_to_def)
  have "example_address p = Some (word_of_int v)" using example_ok(1) [OF assms(1) env] v by simp
  then show thesis by (rule that) (simp add: pt resolveOne_constant_ok [OF assms(3)])
qed

lemma resolve_ok:
  assumes c: "resolver_ok c good p" and as: "space_ok as" and s: "good s"
  shows "\<exists>incomplete rl s'. resolve c p late maxResolutions as s = Some ((incomplete, rl), s') \<and> good s' \<and>
    (\<forall>op\<in>set rl. op \<in> set (inorder (as_objects as)) \<and> points_to c p (fst op)) \<and>
    (\<not> incomplete \<longrightarrow> (\<forall>op\<in>set (inorder (as_objects as)). points_to c p (fst op) \<longrightarrow> op \<in> set rl))"
proof (cases "isConstant p")
  case True
  obtain a where a: "example_address p = Some a" "\<And>op. op \<in> set (inorder (as_objects as)) \<Longrightarrow>
      points_to c p (fst op) \<longleftrightarrow> resolveOne_constant a as = Some op"
    using resolve_constant [OF c True as] by blast
  define r where "r = resolveOne_constant a as"
  have "resolve c p late maxResolutions as s = Some ((False, case r of None \<Rightarrow> [] | Some op \<Rightarrow> [op]), s)"
    using True a(1) by (simp add: resolve_def r_def)
  moreover have "op \<in> set (inorder (as_objects as))" if "r = Some op" for op using that resolveOne_constant_ok [OF as] by (simp add: r_def)
  ultimately show ?thesis using s a(2) by (cases r) (auto simp flip: r_def)
next
  case False
  have ts: "timing_solver (qc_cao c) (qc_impl c) good (qc_simplify c)" "path_ok (qc_cao c) (qc_constraints c)" "typed (qc_cao c) p"
    using c by (auto simp: resolver_ok_def)
  obtain cex s1 where cex: "ts_getValue (qc_simplify c) (qc_impl c) (qc_constraints c) p s = Some (cex, s1)" "good s1"
      "\<And>v. cex = Some v \<Longrightarrow> \<exists>env. models env (qc_constraints c) \<and> v = ConstantExpr (getWidth p) (eval env p)"
    using answersE [OF timing_solver.getValue_right [OF ts(1) s ts(2,3)]] by blast
  show ?thesis
  proof (cases cex)
    case None
    then show ?thesis using False cex(1,2) by (auto simp: resolve_def)
  next
    case (Some v)
    obtain env where env: "models env (qc_constraints c)" "v = ConstantExpr (getWidth p) (eval env p)" using cex(3) [OF Some] by blast
    obtain a where a: "example_address v = Some a" using example_ok(1) [OF c env(1)] env(2) by simp
    obtain downs ups where ar: "around a as = Some (downs, ups)" "set downs \<union> set ups = set (inorder (as_objects as))"
        "sorted_wrt (\<lambda>x y. unat (mo_key y) + extent (fst y) \<le> unat (mo_key x)) downs" "ascending mo_key ups"
        "\<forall>op\<in>set downs \<union> set ups. mo_ok (fst op)"
      using around_ok [OF as] by blast
    obtain r rl s2 where b: "resolve_back c p late maxResolutions downs [] s1 = Some ((r, rl), s2)" "good s2" "resolved c p downs [] r rl"
      using resolve_back_ok [OF c _ cex(2) ar(3), of late maxResolutions "[]"] ar(5) by auto
    have only: "op = op'" if "only_points_to c p (fst op)" "op \<in> set downs \<union> set ups" "op' \<in> set downs \<union> set ups"
        "points_to c p (fst op')" for op op'
      using that space_disjoint [OF as, of op op'] ar(2) by (auto simp: only_points_to_def points_to_def)
    show ?thesis
    proof (cases r)
      case r: (Some incomplete)
      have "resolve c p late maxResolutions as s = Some ((incomplete, rl), s2)"
        using False cex(1) Some a ar(1) b(1) r by (simp add: resolve_def)
      moreover have "\<forall>op\<in>set rl. op \<in> set (inorder (as_objects as)) \<and> points_to c p (fst op)" using b(3) ar(2) by (auto simp: resolved_def)
      moreover have "op \<in> set rl" if inc: "\<not> incomplete" and op: "op \<in> set (inorder (as_objects as))" "points_to c p (fst op)" for op
      proof -
        obtain x where x: "x \<in> set downs" "rl = [x]" "only_points_to c p (fst x)" using inc b(3) r by (auto simp: resolved_def)
        then show ?thesis using only [OF x(3), of op] op ar(2) by auto
      qed
      ultimately show ?thesis using b(2) by blast
    next
      case r: None
      obtain r' rl' s3 where f: "resolve_forward c p late maxResolutions ups rl s2 = Some ((r', rl'), s3)" "good s3" "resolved c p ups rl r' rl'"
        using resolve_forward_ok [OF c _ b(2) ar(4), of late maxResolutions rl] ar(5) by auto
      have eq: "resolve c p late maxResolutions as s = Some ((r' = Some True, rl'), s3)"
        using False cex(1) Some a ar(1) b(1) r f(1) by (simp add: resolve_def)
      have sound: "\<forall>op\<in>set rl'. op \<in> set (inorder (as_objects as)) \<and> points_to c p (fst op)"
        using b(3) f(3) ar(2) by (auto simp: resolved_def)
      have "\<forall>op\<in>set (inorder (as_objects as)). points_to c p (fst op) \<longrightarrow> op \<in> set rl'" if inc: "r' \<noteq> Some True"
      proof (cases r')
        case None
        have d: "\<forall>op\<in>set downs. points_to c p (fst op) \<longrightarrow> op \<in> set rl" "set rl \<subseteq> set rl'" using b(3) f(3) r unfolding resolved_def by blast+
        have u: "\<forall>op\<in>set ups. points_to c p (fst op) \<longrightarrow> op \<in> set rl'" using f(3) None unfolding resolved_def by blast
        show ?thesis unfolding ar(2) [symmetric] using d u by blast
      next
        case (Some x)
        then obtain op where "op \<in> set ups" "rl' = [op]" "only_points_to c p (fst op)" using inc f(3) by (cases x) (auto simp: resolved_def)
        then show ?thesis using only [of op] ar(2) by auto
      qed
      then show ?thesis using eq f(2) sound by blast
    qed
  qed
qed

text \<open>When the solver answers every query, no time is up and there is no limit, the resolution is complete.\<close>

definition decided :: "'s query_context \<Rightarrow> ('s \<Rightarrow> bool) \<Rightarrow> expr \<Rightarrow> bool" where
  "decided c good p \<longleftrightarrow>
     (\<forall>e s. good s \<and> typed (qc_cao c) e \<and> getWidth e = 1 \<longrightarrow>
        (\<exists>b s'. ts_mustBeTrue (qc_simplify c) (qc_impl c) (qc_constraints c) e s = Some (Some b, s'))) \<and>
     (\<forall>s. good s \<longrightarrow> (\<exists>v s'. ts_getValue (qc_simplify c) (qc_impl c) (qc_constraints c) p s = Some (Some v, s')))"

lemma pointer_query_decided:
  assumes "resolver_ok c good p" "decided c good p" "\<And>env. gives (qc_cao c) env 1 (of_bool (P (eval env p))) r" "good s"
  shows "\<exists>b s'. may c r s = Some (Some b, s') \<and> good s'" "\<exists>b s'. must_be c r s = Some (Some b, s') \<and> good s'"
proof -
  obtain e where e: "r = Some e" "typed (qc_cao c) e" "getWidth e = 1" using gives_all [OF assms(3)] by blast
  have "gives (qc_cao c) env 1 (of_bool (eval env e = 0)) (createIsZero (qc_cao c) e)" for env
    using e(2) createIsZero_gives by (simp add: typed_def)
  then obtain z where z: "createIsZero (qc_cao c) e = Some z" "typed (qc_cao c) z" "getWidth z = 1"
    using gives_all [of "qc_cao c" 1 "\<lambda>env. of_bool (eval env e = 0)"] by metis
  note q = pointer_query [OF assms(1,3,4)]
  obtain b s' where "ts_mustBeTrue (qc_simplify c) (qc_impl c) (qc_constraints c) z s = Some (Some b, s')"
    using assms(2,4) z(2,3) unfolding decided_def by blast
  then have "may c r s = Some (Some (\<not> b), s')" using e(1) z(1) by (simp add: may_def ts_mayBeTrue_def ts_mustBeFalse_def ask_def)
  then show "\<exists>b s'. may c r s = Some (Some b, s') \<and> good s'" using q(1) by (auto simp: answers_def)
  obtain b s' where "must_be c r s = Some (Some b, s')" using assms(2,4) e(2,3) unfolding decided_def must_be_def e(1) by fastforce
  then show "\<exists>b s'. must_be c r s = Some (Some b, s') \<and> good s'" using q(2) by (auto simp: answers_def)
qed

lemmas in_bounds_decided = pointer_query_decided [OF _ _ in_bounds_gives]
  and above_decided = pointer_query_decided [OF _ _ base_compare_gives(1)]
  and below_decided = pointer_query_decided [OF _ _ base_compare_gives(2)]

lemma checkPointer_decided:
  assumes "resolver_ok c good p" "decided c good p" "mo_ok (fst op)" "good s"
  obtains n rl' s' where "checkPointerInObject c p op 0 rl s = Some ((n, rl'), s')" "good s'" "n \<in> {0, 2}"
proof -
  obtain m s1 where m: "may c (in_bounds c p (fst op)) s = Some (Some m, s1)" "good s1"
    using in_bounds_decided(1) [OF assms(1,2) assms(1,3,4)] by blast
  obtain t s2 where t: "must_be c (in_bounds c p (fst op)) s1 = Some (Some t, s2)" "good s2"
    using in_bounds_decided(2) [OF assms(1,2) assms(1,3) m(2)] by blast
  show thesis using m t that by (cases m; cases t; cases "rl = []") (auto simp: checkPointerInObject_def Let_def)
qed

lemma resolve_back_decided:
  assumes "resolver_ok c good p" "decided c good p" "\<forall>op\<in>set ops. mo_ok (fst op)" "good s"
    "resolve_back c p (\<lambda>_. False) 0 ops rl s = Some ((r, rl'), s')"
  shows "r \<noteq> Some True"
  using assms(3-)
proof (induction ops arbitrary: rl s)
  case (Cons op ops)
  have mo: "mo_ok (fst op)" using Cons.prems(1) by simp
  obtain n rl1 s1 where n: "checkPointerInObject c p op 0 rl s = Some ((n, rl1), s1)" "good s1" "n \<in> {0, 2}"
    using checkPointer_decided [OF assms(1,2) mo Cons.prems(2)] by blast
  obtain t s2 where t: "must_be c (at_or_above c p (fst op)) s1 = Some (Some t, s2)" "good s2"
    using above_decided(2) [OF assms(1,2) assms(1) n(2)] by blast
  show ?case
  proof (cases "n = 2 \<and> \<not> t")
    case True
    then show ?thesis using Cons.IH [of s2 rl1] Cons.prems n(1) t by simp
  next
    case False
    then show ?thesis using Cons.prems(3) n(1,3) t(1) by auto
  qed
qed simp

lemma resolve_forward_decided:
  assumes "resolver_ok c good p" "decided c good p" "\<forall>op\<in>set ops. mo_ok (fst op)" "good s"
    "resolve_forward c p (\<lambda>_. False) 0 ops rl s = Some ((r, rl'), s')"
  shows "r \<noteq> Some True"
  using assms(3-)
proof (induction ops arbitrary: rl s)
  case (Cons op ops)
  have mo: "mo_ok (fst op)" using Cons.prems(1) by simp
  obtain t s1 where t: "must_be c (below_base c p (fst op)) s = Some (Some t, s1)" "good s1"
    using below_decided(2) [OF assms(1,2) assms(1) Cons.prems(2)] by blast
  obtain n rl1 s2 where n: "checkPointerInObject c p op 0 rl s1 = Some ((n, rl1), s2)" "good s2" "n \<in> {0, 2}"
    using checkPointer_decided [OF assms(1,2) mo t(2)] by blast
  show ?case
  proof (cases "n = 2 \<and> \<not> t")
    case True
    then show ?thesis using Cons.IH [of s2 rl1] Cons.prems n t by simp
  next
    case False
    then show ?thesis using Cons.prems(3) n(1,3) t(1) by (cases t) auto
  qed
qed simp

lemma resolve_decided:
  assumes c: "resolver_ok c good p" and d: "decided c good p" and as: "space_ok as" and s: "good s"
    and r: "resolve c p (\<lambda>_. False) 0 as s = Some ((incomplete, rl), s')"
  shows "\<not> incomplete"
proof (cases "isConstant p")
  case True
  then show ?thesis using r by (auto simp: resolve_def split: bind_splits)
next
  case False
  have ts: "timing_solver (qc_cao c) (qc_impl c) good (qc_simplify c)" "path_ok (qc_cao c) (qc_constraints c)" "typed (qc_cao c) p"
    using c by (auto simp: resolver_ok_def)
  obtain v s1 where v: "ts_getValue (qc_simplify c) (qc_impl c) (qc_constraints c) p s = Some (Some v, s1)" using d s unfolding decided_def by blast
  then have s1: "good s1" "\<exists>env. models env (qc_constraints c) \<and> v = ConstantExpr (getWidth p) (eval env p)"
    using timing_solver.getValue_right [OF ts(1) s ts(2,3)] by (auto simp: answers_def)
  then obtain a where a: "example_address v = Some a" using example_ok(1) [OF c] by auto
  obtain downs ups where ar: "around a as = Some (downs, ups)" "set downs \<union> set ups = set (inorder (as_objects as))"
      "sorted_wrt (\<lambda>x y. unat (mo_key y) + extent (fst y) \<le> unat (mo_key x)) downs" "ascending mo_key ups"
      "\<forall>op\<in>set downs \<union> set ups. mo_ok (fst op)"
    using around_ok [OF as] by blast
  obtain q rl1 s2 where b: "resolve_back c p (\<lambda>_. False) 0 downs [] s1 = Some ((q, rl1), s2)" "good s2"
    using resolve_back_ok [OF c _ s1(1) ar(3), of "\<lambda>_. False" 0 "[]"] ar(5) by auto
  have "q \<noteq> Some True" using resolve_back_decided [OF c d _ s1(1) b(1)] ar(5) by auto
  moreover have "q' \<noteq> Some True" if "resolve_forward c p (\<lambda>_. False) 0 ups rl1 s2 = Some ((q', rl2), s3)" for q' rl2 s3
    using resolve_forward_decided [OF c d _ b(2) that] ar(5) by auto
  ultimately show ?thesis using r False v a ar(1) b(1) by (auto simp: resolve_def split: option.splits bind_splits)
qed

subsection \<open>The first object\<close>

definition one_found :: "'s query_context \<Rightarrow> expr \<Rightarrow> object_pair list \<Rightarrow> object_pair option option \<Rightarrow> bool" where
  "one_found c p ops r \<longleftrightarrow>
     (r = None \<longrightarrow> (\<forall>op\<in>set ops. \<not> points_to c p (fst op))) \<and> (\<forall>op. r = Some (Some op) \<longrightarrow> op \<in> set ops \<and> points_to c p (fst op))"

lemma one_back_ok:
  assumes "resolver_ok c good p" "\<forall>op\<in>set ops. mo_ok (fst op)" "good s"
    "sorted_wrt (\<lambda>a b. unat (mo_key b) + extent (fst b) \<le> unat (mo_key a)) ops"
  shows "\<exists>r s'. one_back c p ops s = Some (r, s') \<and> good s' \<and> one_found c p ops r"
  using assms(2-)
proof (induction ops arbitrary: s)
  case Nil
  then show ?case by (simp add: one_found_def)
next
  case (Cons op ops)
  have mo: "mo_ok (fst op)" using Cons.prems(1) by simp
  obtain m s1 where m: "may c (in_bounds c p (fst op)) s = Some (m, s1)" "good s1" "\<And>b. m = Some b \<Longrightarrow> b = points_to c p (fst op)"
    using answersE [OF in_bounds_asked(1) [OF assms(1) assms(1) mo Cons.prems(2)]] unfolding points_to_def by blast
  consider "m = None" | "m = Some True" | "m = Some False" by (cases m) auto
  then show ?case
  proof cases
    case 3
    then have np: "\<not> points_to c p (fst op)" using m(3) by blast
    obtain t s2 where t: "must_be c (at_or_above c p (fst op)) s1 = Some (t, s2)" "good s2"
        "\<And>b. t = Some b \<Longrightarrow> b = (\<forall>env. models env (qc_constraints c) \<longrightarrow> uint (mo_address (fst op)) \<le> eval env p)"
      using answersE [OF above_asked(2) [OF assms(1) assms(1) m(2)]] by blast
    consider "t = None" | "t = Some True" | "t = Some False" by (cases t) auto
    then show ?thesis
    proof cases
      case t2: 2
      have "\<not> points_to c p (fst x)" if "x \<in> set ops" for x
      proof
        assume "points_to c p (fst x)"
        then obtain env where env: "models env (qc_constraints c)" "in_object (fst x) (eval env p)" by (auto simp: points_to_def)
        have "unat (mo_key x) + extent (fst x) \<le> unat (mo_key op)" using Cons.prems(3) that by simp
        then have "int (unat (mo_key x) + extent (fst x)) \<le> int (unat (mo_key op))" by (simp only: of_nat_le_iff)
        then show False using env t(3) [OF t2] by (auto simp: in_object_def mo_key_def)
      qed
      then show ?thesis using m(1) t(1,2) 3 t2 np by (auto simp: one_found_def)
    next
      case t3: 3
      obtain r s' where "one_back c p ops s2 = Some (r, s')" "good s'" "one_found c p ops r"
        using Cons.IH [OF _ t(2)] Cons.prems(1,3) by auto
      then show ?thesis using m(1) t(1) 3 t3 np by (auto simp: one_found_def)
    next
      case t1: 1
      then show ?thesis using m(1) t(1,2) 3 by (simp add: one_found_def)
    qed
  next
    case 1
    then show ?thesis using m(1,2) by (simp add: one_found_def)
  next
    case 2
    then show ?thesis using m(1,2) m(3) [of True] by (cases op) (simp add: one_found_def)
  qed
qed

lemma one_forward_ok:
  assumes "resolver_ok c good p" "\<forall>op\<in>set ops. mo_ok (fst op)" "good s" "ascending mo_key ops"
  shows "\<exists>r s'. one_forward c p ops s = Some (r, s') \<and> good s' \<and> one_found c p ops r"
  using assms(2-)
proof (induction ops arbitrary: s)
  case Nil
  then show ?case by (simp add: one_found_def)
next
  case (Cons op ops)
  have mo: "mo_ok (fst op)" using Cons.prems(1) by simp
  obtain t s1 where t: "must_be c (below_base c p (fst op)) s = Some (t, s1)" "good s1"
      "\<And>b. t = Some b \<Longrightarrow> b = (\<forall>env. models env (qc_constraints c) \<longrightarrow> eval env p < uint (mo_address (fst op)))"
    using answersE [OF below_asked(2) [OF assms(1) assms(1) Cons.prems(2)]] by blast
  consider "t = None" | "t = Some True" | "t = Some False" by (cases t) auto
  then show ?case
  proof cases
    case 2
    have "\<not> points_to c p (fst x)" if "x \<in> set (op # ops)" for x
    proof
      assume "points_to c p (fst x)"
      then obtain env where env: "models env (qc_constraints c)" "in_object (fst x) (eval env p)" by (auto simp: points_to_def)
      have "mo_key op \<le> mo_key x" using Cons.prems(3) that by (auto intro: order.strict_implies_order)
      then show False using env t(3) [OF 2] by (auto simp: in_object_def mo_key_def word_le_def)
    qed
    then show ?thesis using t(1,2) 2 by (auto simp: one_found_def)
  next
    case 3
    obtain m s2 where m: "may c (in_bounds c p (fst op)) s1 = Some (m, s2)" "good s2" "\<And>b. m = Some b \<Longrightarrow> b = points_to c p (fst op)"
      using answersE [OF in_bounds_asked(1) [OF assms(1) assms(1) mo t(2)]] unfolding points_to_def by blast
    consider "m = None" | "m = Some True" | "m = Some False" by (cases m) auto
    then show ?thesis
    proof cases
      case m3: 3
      then have np: "\<not> points_to c p (fst op)" using m(3) by blast
      obtain r s' where "one_forward c p ops s2 = Some (r, s')" "good s'" "one_found c p ops r"
        using Cons.IH [OF _ m(2)] Cons.prems(1,3) by auto
      then show ?thesis using t(1) m(1) 3 m3 np by (auto simp: one_found_def)
    next
      case m1: 1
      then show ?thesis using t(1) m(1,2) 3 by (simp add: one_found_def)
    next
      case m2: 2
      then show ?thesis using t(1) m(1,2) m(3) [of True] 3 by (cases op) (simp add: one_found_def)
    qed
  next
    case 1
    then show ?thesis using t(1,2) by (simp add: one_found_def)
  qed
qed

lemma search_one_ok:
  assumes "resolver_ok c good p" "space_ok as" "good s"
  shows "answers good (\<lambda>r. case r of
      Some op \<Rightarrow> op \<in> set (inorder (as_objects as)) \<and> points_to c p (fst op)
    | None \<Rightarrow> \<forall>op\<in>set (inorder (as_objects as)). \<not> points_to c p (fst op)) (search_one c p a as s)"
proof -
  obtain downs ups where ar: "around a as = Some (downs, ups)" "set downs \<union> set ups = set (inorder (as_objects as))"
      "sorted_wrt (\<lambda>x y. unat (mo_key y) + extent (fst y) \<le> unat (mo_key x)) downs" "ascending mo_key ups"
      "\<forall>op\<in>set downs \<union> set ups. mo_ok (fst op)"
    using around_ok [OF assms(2)] by blast
  obtain r s1 where b: "one_back c p downs s = Some (r, s1)" "good s1" "one_found c p downs r"
    using one_back_ok [OF assms(1) _ assms(3) ar(3)] ar(5) by auto
  obtain r' s2 where f: "one_forward c p ups s1 = Some (r', s2)" "good s2" "one_found c p ups r'"
    using one_forward_ok [OF assms(1) _ b(2) ar(4)] ar(5) by auto
  consider "r = Some None" | op where "r = Some (Some op)" | "r = None" by (metis not_Some_eq)
  then show ?thesis
  proof cases
    case 3
    consider "r' = Some None" | op where "r' = Some (Some op)" | "r' = None" by (metis not_Some_eq)
    then show ?thesis using 3 ar(1) b f unfolding ar(2) [symmetric] by cases (auto simp: search_one_def one_found_def)
  qed (use ar(1) b in \<open>auto simp: search_one_def one_found_def simp flip: ar(2)\<close>)
qed

lemma resolveOne_ok:
  assumes c: "resolver_ok c good p" and as: "space_ok as" and s: "good s"
  shows "answers good (\<lambda>r. case r of
      Some op \<Rightarrow> op \<in> set (inorder (as_objects as)) \<and> points_to c p (fst op)
    | None \<Rightarrow> \<forall>op\<in>set (inorder (as_objects as)). \<not> points_to c p (fst op)) (resolveOne c p as s)"
proof (cases "isConstant p")
  case True
  obtain a where a: "example_address p = Some a" "\<And>op. op \<in> set (inorder (as_objects as)) \<Longrightarrow>
      points_to c p (fst op) \<longleftrightarrow> resolveOne_constant a as = Some op"
    using resolve_constant [OF c True as] by blast
  show ?thesis using True s a resolveOne_constant_ok [OF as, of a] by (cases "resolveOne_constant a as") (auto simp: resolveOne_def)
next
  case False
  have ok: "itree_ok mo_key (as_objects as)" using as by (simp add: space_ok_def)
  have ts: "timing_solver (qc_cao c) (qc_impl c) good (qc_simplify c)" "path_ok (qc_cao c) (qc_constraints c)" "typed (qc_cao c) p"
    using c by (auto simp: resolver_ok_def)
  show ?thesis unfolding resolveOne_def if_not_P [OF False]
  proof (rule answers_ask [OF timing_solver.getValue_right [OF ts(1) s ts(2,3)]])
    fix cex s1
    assume s1: "good s1" and "\<exists>env. models env (qc_constraints c) \<and> cex = ConstantExpr (getWidth p) (eval env p)"
    then obtain env where env: "models env (qc_constraints c)" "cex = ConstantExpr (getWidth p) (eval env p)" by blast
    define a where "a = (word_of_int (eval env p) :: 64 word)"
    have a: "example_address cex = Some a" "uint a = eval env p" using example_ok [OF c env(1)] env(2) by (auto simp: a_def)
    note search = search_one_ok [OF c as s1, of a]
    show "answers good (\<lambda>r. case r of
        Some op \<Rightarrow> op \<in> set (inorder (as_objects as)) \<and> points_to c p (fst op)
      | None \<Rightarrow> \<forall>op\<in>set (inorder (as_objects as)). \<not> points_to c p (fst op))
      (do {
        example \<leftarrow> example_address cex;
        (case it_lookup_previous mo_key example (as_objects as) of
           Some (mo, r) \<Rightarrow>
             if unat (example - mo_address mo) < mo_size mo then Some (Some (Some (mo, r)), s1) else search_one c p example as s1
         | None \<Rightarrow> search_one c p example as s1) })"
    proof (cases "it_lookup_previous mo_key a (as_objects as)")
      case None
      then show ?thesis using a(1) search by simp
    next
      case (Some x)
      then have x: "x \<in> set (inorder (as_objects as))" "mo_address (fst x) \<le> a"
        using itree.previous_iff [OF ok] by (auto simp: mo_key_def)
      have "points_to c p (fst x)" if "unat (a - mo_address (fst x)) < mo_size (fst x)"
        using that in_object_word [OF x(2)] env(1) a(2) by (auto simp: points_to_def)
      then show ?thesis using Some a(1) search s1 x(1) by (cases x) simp
    qed
  qed
qed

text \<open>The limit 1 is not a limit.\<close>

lemma check_limit_one: "checkPointerInObject c p op 1 rl s = checkPointerInObject c p op 0 rl s"
  unfolding checkPointerInObject_def Let_def by (intro bind_option_cong refl) (auto split: prod.split option.split bool.split)

lemma loops_limit_one:
  "resolve_back c p late 1 ops rl s = resolve_back c p late 0 ops rl s"
  "resolve_forward c p late 1 ops rl s = resolve_forward c p late 0 ops rl s"
  by (induction ops arbitrary: rl s) (simp_all add: check_limit_one cong: bind_option_cong option.case_cong bool.case_cong if_cong prod.case_cong)

lemma resolve_limit_one: "resolve c p late 1 as s = resolve c p late 0 as s"
  by (simp add: resolve_def loops_limit_one cong: bind_option_cong option.case_cong bool.case_cong if_cong prod.case_cong)

subsection \<open>A solver with a solution at hand\<close>

text \<open>It answers truth queries, and value queries with the value in a given assignment where that is a solution.\<close>

definition guided_solver :: "assignment \<Rightarrow> 's solver_impl" where
  "guided_solver env = ideal_solver\<lparr>si_computeValue := \<lambda>q s.
     Some (if models env (q_constraints q) then Some (ConstantExpr (getWidth (q_expr q)) (eval env (q_expr q))) else None, s)\<rparr>"

interpretation guided: deciding_solver cao "guided_solver env" "\<lambda>_. True" for cao env
  by unfold_locales (auto simp: guided_solver_def ideal_solver_def right_value_def)

text \<open>A pointer that is a byte of input, and three objects of which it can reach two.\<close>

definition byte_pointer :: expr where
  "byte_pointer = ZExtExpr (ReadExpr (byte_array 0) [] (ConstantExpr 32 0)) 64"

definition byte_context :: "unit query_context" where
  "byte_context = \<lparr>qc_cao = False, qc_pw = 64, qc_simplify = (\<lambda>cs e. Some e), qc_impl = guided_solver (\<lambda>_ _. 0), qc_constraints = []\<rparr>"

definition near_object :: object_pair where
  "near_object = (\<lparr>mo_id = 0, mo_address = 16, mo_size = 4, mo_isUserSpecified = False\<rparr>, 0)"

definition middle_object :: object_pair where
  "middle_object = (\<lparr>mo_id = 1, mo_address = 64, mo_size = 0, mo_isUserSpecified = False\<rparr>, 2)"

definition far_object :: object_pair where
  "far_object = (\<lparr>mo_id = 2, mo_address = 512, mo_size = 8, mo_isUserSpecified = False\<rparr>, 1)"

definition small_space :: address_space where
  "small_space = \<lparr>cowKey = 1, as_objects = it_insert mo_key middle_object (it_insert mo_key far_object (it_insert mo_key near_object Terminator))\<rparr>"

lemma small_space_objects: "inorder (as_objects small_space) = [near_object, middle_object, far_object]"
  by (simp add: small_space_def near_object_def middle_object_def far_object_def mo_key_def it_node_def balance_def)

lemma small_space_ok: "space_ok small_space"
proof -
  have "itree_ok mo_key (as_objects small_space)" unfolding small_space_def address_space.simps
    by (intro itree.good_insert itree.good_empty)
  then show ?thesis unfolding space_ok_def small_space_objects by (simp add: near_object_def middle_object_def far_object_def mo_key_def mo_ok_def extent_def)
qed

lemma byte_context_ok: "resolver_ok byte_context (\<lambda>_. True) byte_pointer"
proof -
  have "timing_solver False (guided_solver (\<lambda>_ _. 0)) (\<lambda>_. True) (\<lambda>cs e. Some e)"
    by (intro timing_solver_off) (rule guided.solver_axioms)
  then show ?thesis
    by (simp add: resolver_ok_def byte_context_def path_ok_def models_def byte_pointer_def typed_def byte_array_def array_ok_def)
qed

lemma byte_context_decided: "decided byte_context (\<lambda>_. True) byte_pointer"
proof -
  have "\<exists>b. ts_mustBeTrue (\<lambda>cs e. Some e) (guided_solver (\<lambda>_ _. 0)) [] e () = Some (Some b, ())" if "getWidth e = 1" for e
    using that by (cases "as_constant e") (auto simp: ts_mustBeTrue_def ts_query_def mustBeTrue_def guided_solver_def ideal_solver_def)
  moreover have "\<exists>v. ts_getValue (\<lambda>cs e. Some e) (guided_solver (\<lambda>_ _. 0)) [] byte_pointer () = Some (Some v, ())"
    by (simp add: ts_getValue_def ts_query_def getValue_def guided_solver_def ideal_solver_def models_def byte_pointer_def ask_def)
  ultimately show ?thesis by (simp add: decided_def byte_context_def)
qed

lemma byte_pointer_reaches: "points_to byte_context byte_pointer mo \<longleftrightarrow> (\<exists>a. in_width 8 a \<and> in_object mo a)"
proof
  assume "points_to byte_context byte_pointer mo"
  then obtain env where env: "in_object mo (eval env byte_pointer)" by (auto simp: points_to_def)
  have "typed False (ReadExpr (byte_array 0) [] (ConstantExpr 32 0))" by (simp add: typed_def byte_array_def array_ok_def)
  from typed_width [OF this, of env] have "in_width 8 (eval env (ReadExpr (byte_array 0) [] (ConstantExpr 32 0)))" by (simp add: byte_array_def)
  then show "\<exists>a. in_width 8 a \<and> in_object mo a" using env by (auto simp: byte_pointer_def)
next
  assume "\<exists>a. in_width 8 a \<and> in_object mo a"
  then obtain a where a: "in_width 8 a" "in_object mo a" by blast
  then have "eval (\<lambda>_ _. a) byte_pointer = a"
    by (simp add: byte_pointer_def byte_array_def initial_value_def isSymbolicArray_def in_width_iff)
  then show "points_to byte_context byte_pointer mo" using a(2) by (auto simp: points_to_def models_def byte_context_def intro!: exI [of _ "\<lambda>_ _. a"])
qed

lemma byte_pointer_objects: "points_to byte_context byte_pointer (fst near_object)" "points_to byte_context byte_pointer (fst middle_object)"
    "\<not> points_to byte_context byte_pointer (fst far_object)"
proof -
  have "in_width 8 17" "in_object (fst near_object) 17" by (simp_all add: in_width_def in_object_def near_object_def extent_def)
  then show "points_to byte_context byte_pointer (fst near_object)" unfolding byte_pointer_reaches by blast
  have "in_width 8 64" "in_object (fst middle_object) 64" by (simp_all add: in_width_def in_object_def middle_object_def extent_def)
  then show "points_to byte_context byte_pointer (fst middle_object)" unfolding byte_pointer_reaches by blast
  show "\<not> points_to byte_context byte_pointer (fst far_object)"
    unfolding byte_pointer_reaches by (auto simp: in_width_def in_object_def far_object_def)
qed

subsection \<open>Properties\<close>

text \<open>
  C17. Resolution of a pointer, concrete or symbolic: \<open>AddressSpace::resolve\<close> returns, lists only objects of the
  space that the pointer can point to under the constraints, and lists all of them unless it says that it is
  incomplete; and when the solver answers, there is no limit and the time is not up, it is complete.
\<close>

theorem resolve_exact:
  assumes "resolver_ok c good p" "space_ok as" "good s"
  shows "\<exists>incomplete rl s'. resolve c p late maxResolutions as s = Some ((incomplete, rl), s') \<and> good s' \<and>
    set rl \<subseteq> {op \<in> set (inorder (as_objects as)). points_to c p (fst op)} \<and>
    (\<not> incomplete \<longrightarrow> set rl = {op \<in> set (inorder (as_objects as)). points_to c p (fst op)}) \<and>
    (decided c good p \<and> maxResolutions = 0 \<and> late = (\<lambda>_. False) \<longrightarrow> \<not> incomplete)"
proof -
  obtain incomplete rl s' where r: "resolve c p late maxResolutions as s = Some ((incomplete, rl), s')" "good s'"
      "\<forall>op\<in>set rl. op \<in> set (inorder (as_objects as)) \<and> points_to c p (fst op)"
      "\<not> incomplete \<Longrightarrow> \<forall>op\<in>set (inorder (as_objects as)). points_to c p (fst op) \<longrightarrow> op \<in> set rl"
    using resolve_ok [OF assms, of late maxResolutions] by blast
  have "\<not> incomplete" if "decided c good p" "maxResolutions = 0" "late = (\<lambda>_. False)"
    using resolve_decided [OF assms(1) that(1) assms(2,3)] r(1) that(2,3) by blast
  moreover have "set rl = {op \<in> set (inorder (as_objects as)). points_to c p (fst op)}" if "\<not> incomplete" using r(3) r(4) [OF that] by blast
  ultimately show ?thesis using r(1,2,3) by blast
qed

theorem resolve_exact_witness:
  "\<exists>rl. resolve byte_context byte_pointer (\<lambda>_. False) 0 small_space () = Some ((False, rl), ()) \<and> set rl = {near_object, middle_object}"
  using resolve_exact [OF byte_context_ok small_space_ok TrueI, of "\<lambda>_. False" 0 "()"] byte_context_decided byte_pointer_objects
  by (auto simp: small_space_objects)

text \<open>
  \<open>AddressSpace::resolveOne\<close> of a symbolic address returns, and when its queries are answered it finds an object
  that the address can point to, or there is none; of a concrete address it finds the object the address lies in.
\<close>

theorem resolveOne_right:
  assumes "resolver_ok c good p" "space_ok as" "good s"
  shows "(\<exists>r s'. resolveOne c p as s = Some (r, s') \<and> good s' \<and>
      (\<forall>op. r = Some (Some op) \<longrightarrow> op \<in> set (inorder (as_objects as)) \<and> points_to c p (fst op)) \<and>
      (r = Some None \<longrightarrow> (\<forall>op\<in>set (inorder (as_objects as)). \<not> points_to c p (fst op)))) \<and>
    (resolveOne_constant a as = Some op \<longleftrightarrow> op \<in> set (inorder (as_objects as)) \<and> in_object (fst op) (uint a))"
  using resolveOne_ok [OF assms] resolveOne_constant_ok [OF assms(2)] by (fastforce simp: answers_def split: option.splits)

theorem resolveOne_right_witness:
  "\<exists>r. resolveOne byte_context byte_pointer small_space () = Some (r, ()) \<and> (\<forall>op. r = Some (Some op) \<longrightarrow> op \<in> {near_object, middle_object})"
proof -
  obtain r where r: "resolveOne byte_context byte_pointer small_space () = Some (r, ())"
      "\<And>op. r = Some (Some op) \<Longrightarrow> op \<in> set [near_object, middle_object, far_object] \<and> points_to byte_context byte_pointer (fst op)"
    using resolveOne_right [OF byte_context_ok small_space_ok TrueI, of "()" 0 near_object] unfolding small_space_objects by auto
  have "op \<in> {near_object, middle_object}" if "r = Some (Some op)" for op using r(2) [OF that] byte_pointer_objects(3) by auto
  then show ?thesis using r(1) by blast
qed

text \<open>
  C38. A limit of one object is no limit: \<open>resolve\<close> with \<open>maxResolutions\<close> 1 does what it does without a limit, although
  its documentation says that no more than \<open>maxResolutions\<close> pairs are returned. For a pointer into two objects it
  returns both, and says that it is complete.
\<close>

theorem limit_one_ignored:
  "resolve c p late 1 as s = resolve c p late 0 as s \<and>
   (\<exists>rl. resolve byte_context byte_pointer (\<lambda>_. False) 1 small_space () = Some ((False, rl), ()) \<and> near_object \<in> set rl \<and> middle_object \<in> set rl)"
proof -
  obtain incomplete rl where r: "resolve byte_context byte_pointer (\<lambda>_. False) 0 small_space () = Some ((incomplete, rl), ())"
      "\<not> incomplete \<Longrightarrow> \<forall>op\<in>set (inorder (as_objects small_space)). points_to byte_context byte_pointer (fst op) \<longrightarrow> op \<in> set rl"
    using resolve_ok [OF byte_context_ok small_space_ok TrueI, of "\<lambda>_. False" 0 "()"] by auto
  have "\<not> incomplete" by (rule resolve_decided [OF byte_context_ok byte_context_decided small_space_ok TrueI r(1)])
  then show ?thesis using r byte_pointer_objects by (auto simp: small_space_objects resolve_limit_one)
qed

end
