(* ===== verification/CopyOnWrite.thy ===== *)
theory CopyOnWrite
  imports AddressSpace
begin

declare One_nat_def [simp del]

section \<open>Copy on write\<close>

text \<open>
  States that fork share the contents of their objects. An object belongs to the address space whose \<open>cowKey\<close> it
  carries (\<open>copyOnWriteOwner\<close>); a fork gives both spaces a new key, so that neither owns what they share, and
  \<open>getWriteable\<close> copies an object that is not owned. The theory shows that sharing cannot be observed: a system of
  spaces over one heap refines one in which every state has its own memory.
\<close>

subsection \<open>Spaces over a heap\<close>

text \<open>The states by number; \<open>forks\<close> counts the copies of address spaces.\<close>

record cow_system =
  spaces :: "nat \<rightharpoonup> address_space"
  cow_heap :: object_heap
  forks :: nat

text \<open>
  What states do with their memory. \<open>Cow_Read\<close> is a read, which may change the caches of an object that is shared;
  \<open>Cow_Write\<close> is \<open>getWriteable\<close> and then a change of the object it returns. Both give the new object; its owner
  stays, because only \<open>AddressSpace\<close> sets it. The references of \<open>Cow_Bind\<close> and \<open>Cow_Write\<close> are where a new object is.
\<close>

datatype cow_action =
    Cow_Fork nat nat
  | Cow_Bind nat memory_object object_ref object_state
  | Cow_Unbind nat memory_object
  | Cow_Read nat memory_object object_state
  | Cow_Write nat memory_object object_ref object_state
  | Cow_End nat

definition new_contents :: "object_ref \<Rightarrow> object_state \<Rightarrow> object_heap \<Rightarrow> object_heap option" where
  "new_contents r os h = map_option (\<lambda>old. h(r \<mapsto> os\<lparr>copyOnWriteOwner := copyOnWriteOwner old\<rparr>)) (h r)"

fun cow_do :: "cow_action \<Rightarrow> cow_system \<Rightarrow> cow_system option" where
  "cow_do (Cow_Fork i k) w = do {
     as \<leftarrow> spaces w i;
     (let (b, c) = copy_space as in Some (w\<lparr>spaces := (spaces w)(i \<mapsto> b, k \<mapsto> c), forks := forks w + 1\<rparr>)) }"
| "cow_do (Cow_Bind i mo r os) w = do {
     as \<leftarrow> spaces w i;
     (as', h') \<leftarrow> bindObject mo r as ((cow_heap w)(r \<mapsto> os));
     Some (w\<lparr>spaces := (spaces w)(i \<mapsto> as'), cow_heap := h'\<rparr>) }"
| "cow_do (Cow_Unbind i mo) w = do {
     as \<leftarrow> spaces w i;
     Some (w\<lparr>spaces := (spaces w)(i \<mapsto> unbindObject mo as)\<rparr>) }"
| "cow_do (Cow_Read i mo os) w = do {
     as \<leftarrow> spaces w i;
     r \<leftarrow> findObject mo as;
     h' \<leftarrow> new_contents r os (cow_heap w);
     Some (w\<lparr>cow_heap := h'\<rparr>) }"
| "cow_do (Cow_Write i mo fresh os) w = do {
     as \<leftarrow> spaces w i;
     r \<leftarrow> findObject mo as;
     (r', as', h) \<leftarrow> getWriteable fresh mo r as (cow_heap w);
     h' \<leftarrow> new_contents r' os h;
     Some (w\<lparr>spaces := (spaces w)(i \<mapsto> as'), cow_heap := h'\<rparr>) }"
| "cow_do (Cow_End i) w = do {
     as \<leftarrow> spaces w i;
     Some (w\<lparr>spaces := (spaces w)(i := None)\<rparr>) }"

subsection \<open>Memories of their own\<close>

text \<open>The contents of an object: its size, whether it is read-only, and the values of its bytes.\<close>

type_synonym contents = "nat \<times> bool \<times> (assignment \<Rightarrow> nat \<Rightarrow> int)"

definition contents_of :: "object_state \<Rightarrow> contents" where
  "contents_of os = (os_size os, os_readOnly os, \<lambda>env j. if j < os_size os then os_byte env os j else 0)"

type_synonym private_memories = "nat \<rightharpoonup> 64 word \<rightharpoonup> contents"

definition in_memory :: "nat \<Rightarrow> ((64 word \<rightharpoonup> contents) \<Rightarrow> 64 word \<rightharpoonup> contents) \<Rightarrow> private_memories \<Rightarrow> private_memories" where
  "in_memory i f m = m(i := map_option f (m i))"

fun private_do :: "cow_action \<Rightarrow> private_memories \<Rightarrow> private_memories" where
  "private_do (Cow_Fork i k) m = m(k := m i)"
| "private_do (Cow_Bind i mo r os) m = in_memory i (\<lambda>a. a(mo_address mo \<mapsto> contents_of os)) m"
| "private_do (Cow_Unbind i mo) m = in_memory i (\<lambda>a. a(mo_address mo := None)) m"
| "private_do (Cow_Read i mo os) m = m"
| "private_do (Cow_Write i mo fresh os) m = in_memory i (\<lambda>a. a(mo_address mo \<mapsto> contents_of os)) m"
| "private_do (Cow_End i) m = m(i := None)"

text \<open>The memory that a state sees.\<close>

definition space_view :: "object_heap \<Rightarrow> address_space \<Rightarrow> 64 word \<rightharpoonup> contents" where
  "space_view h as a = do { op \<leftarrow> it_lookup mo_key a (as_objects as); os \<leftarrow> h (snd op); Some (contents_of os) }"

definition private_view :: "cow_system \<Rightarrow> private_memories" where
  "private_view w i = map_option (space_view (cow_heap w)) (spaces w i)"

text \<open>
  When an action is allowed: the state lives, a new state and a new object have new places, an object is bound
  where one is used, it is not written when it is read-only, and a read keeps the contents.
\<close>

fun cow_allowed :: "cow_action \<Rightarrow> cow_system \<Rightarrow> bool" where
  "cow_allowed (Cow_Fork i k) w \<longleftrightarrow> spaces w i \<noteq> None \<and> spaces w k = None"
| "cow_allowed (Cow_Bind i mo r os) w \<longleftrightarrow> spaces w i \<noteq> None \<and> cow_heap w r = None \<and> copyOnWriteOwner os = 0"
| "cow_allowed (Cow_Unbind i mo) w \<longleftrightarrow> spaces w i \<noteq> None"
| "cow_allowed (Cow_Read i mo os) w \<longleftrightarrow> (\<exists>m. private_view w i = Some m \<and> m (mo_address mo) = Some (contents_of os))"
| "cow_allowed (Cow_Write i mo fresh os) w \<longleftrightarrow> cow_heap w fresh = None \<and>
     (\<exists>m n b. private_view w i = Some m \<and> m (mo_address mo) = Some (n, False, b))"
| "cow_allowed (Cow_End i) w \<longleftrightarrow> spaces w i \<noteq> None"

definition first_system :: cow_system where
  "first_system = \<lparr>spaces = [0 \<mapsto> new_space], cow_heap = Map.empty, forks = 0\<rparr>"

text \<open>Keys have 32 bits; the number of forks stays below the values they have.\<close>

inductive cow_reach :: "cow_system \<Rightarrow> bool" where
  start: "cow_reach first_system"
| act: "cow_reach w \<Longrightarrow> cow_allowed a w \<Longrightarrow> cow_do a w = Some w' \<Longrightarrow> forks w' < 2 ^ 32 - 1 \<Longrightarrow> cow_reach w'"

subsection \<open>Ownership\<close>

definition refs_of :: "address_space \<Rightarrow> object_ref set" where
  "refs_of as = snd ` set (inorder (as_objects as))"

text \<open>The invariant of \<open>AddressSpace.h\<close>, no object has an owner after the key of the space, and no object is bound twice.\<close>

definition owners_ok :: "object_heap \<Rightarrow> address_space \<Rightarrow> bool" where
  "owners_ok h as \<longleftrightarrow> itree_ok mo_key (as_objects as) \<and> inj_on snd (set (inorder (as_objects as))) \<and>
     (\<forall>r\<in>refs_of as. \<exists>os. h r = Some os \<and> copyOnWriteOwner os \<le> cowKey as)"

text \<open>An object of two spaces belongs to neither.\<close>

definition not_owned :: "object_heap \<Rightarrow> address_space \<Rightarrow> address_space \<Rightarrow> bool" where
  "not_owned h as as' \<longleftrightarrow> (\<forall>r\<in>refs_of as \<inter> refs_of as'. \<forall>os. h r = Some os \<longrightarrow> copyOnWriteOwner os < cowKey as)"

definition cow_ok :: "cow_system \<Rightarrow> bool" where
  "cow_ok w \<longleftrightarrow>
     (\<forall>i as. spaces w i = Some as \<longrightarrow> owners_ok (cow_heap w) as \<and> unat (cowKey as) \<le> forks w + 1) \<and>
     (\<forall>i j as as'. spaces w i = Some as \<longrightarrow> spaces w j = Some as' \<longrightarrow> i \<noteq> j \<longrightarrow> not_owned (cow_heap w) as as')"

lemma contents_of_owner [simp]: "contents_of (os\<lparr>copyOnWriteOwner := k\<rparr>) = contents_of os"
proof -
  have "upd_value env (os\<lparr>copyOnWriteOwner := k\<rparr>) j = upd_value env os j" for env j by (simp add: upd_value_def)
  then have "os_byte env (os\<lparr>copyOnWriteOwner := k\<rparr>) j = os_byte env os j" for env j
    by (simp add: os_byte_def isByteConcrete_def knownSymbolic_def split: option.split)
  then show ?thesis by (simp add: contents_of_def cong: if_cong)
qed

text \<open>Two heaps look the same to a space.\<close>

definition same_for :: "object_heap \<Rightarrow> object_heap \<Rightarrow> address_space \<Rightarrow> bool" where
  "same_for h h' as \<longleftrightarrow> (\<forall>r\<in>refs_of as. \<forall>os. h r = Some os \<longrightarrow>
     (\<exists>os'. h' r = Some os' \<and> copyOnWriteOwner os' = copyOnWriteOwner os \<and> contents_of os' = contents_of os))"

lemma bound_ref: "owners_ok h as \<Longrightarrow> it_lookup mo_key a (as_objects as) = Some op \<Longrightarrow>
    snd op \<in> refs_of as \<and> (\<exists>os. h (snd op) = Some os \<and> copyOnWriteOwner os \<le> cowKey as)"
  using itree.lookup_iff [of mo_key "as_objects as" a op] by (auto simp: owners_ok_def refs_of_def)

lemma bound_inj: "owners_ok h as \<Longrightarrow> it_lookup mo_key a (as_objects as) = Some op \<Longrightarrow> it_lookup mo_key b (as_objects as) = Some op' \<Longrightarrow>
    snd op = snd op' \<Longrightarrow> a = b"
  using itree.lookup_iff [of mo_key "as_objects as"] by (auto simp: owners_ok_def dest: inj_onD)

lemma same_for_view:
  assumes "same_for h h' as" "owners_ok h as"
  shows "space_view h' as = space_view h as" "owners_ok h' as"
proof -
  show "space_view h' as = space_view h as"
  proof
    fix a
    show "space_view h' as a = space_view h as a"
    proof (cases "it_lookup mo_key a (as_objects as)")
      case (Some op)
      then obtain os os' where "h (snd op) = Some os" "h' (snd op) = Some os'" "contents_of os' = contents_of os"
        using bound_ref [OF assms(2) Some] assms(1) unfolding same_for_def by metis
      then show ?thesis using Some by (simp add: space_view_def)
    qed (simp add: space_view_def)
  qed
  have "\<exists>os'. h' r = Some os' \<and> copyOnWriteOwner os' \<le> cowKey as" if r: "r \<in> refs_of as" for r
  proof -
    obtain os where "h r = Some os" "copyOnWriteOwner os \<le> cowKey as" using assms(2) r by (auto simp: owners_ok_def)
    then show ?thesis using assms(1) r unfolding same_for_def by metis
  qed
  then show "owners_ok h' as" using assms(2) by (auto simp: owners_ok_def)
qed

text \<open>A change of one space and of the heap, seen by no other space.\<close>

lemma change_ok:
  assumes ok: "cow_ok w" and i: "spaces w i = Some as" and as': "owners_ok h' as'" "cowKey as' = cowKey as"
    and other: "\<And>j as2. j \<noteq> i \<Longrightarrow> spaces w j = Some as2 \<Longrightarrow> same_for (cow_heap w) h' as2"
    and refs: "refs_of as' \<subseteq> refs_of as \<union> {r. cow_heap w r = None}"
  shows "cow_ok (w\<lparr>spaces := (spaces w)(i \<mapsto> as'), cow_heap := h'\<rparr>)"
    "private_view (w\<lparr>spaces := (spaces w)(i \<mapsto> as'), cow_heap := h'\<rparr>) = (private_view w)(i \<mapsto> space_view h' as')"
proof -
  let ?h = "cow_heap w"
  have owners: "owners_ok ?h x" "unat (cowKey x) \<le> forks w + 1" if "spaces w j = Some x" for j x using ok that by (auto simp: cow_ok_def)
  have shared: "not_owned ?h x y" if "spaces w j = Some x" "spaces w k = Some y" "j \<noteq> k" for j k x y using ok that by (auto simp: cow_ok_def)
  have keep: "owners_ok h' x" if "j \<noteq> i" "spaces w j = Some x" for j x using same_for_view(2) [OF other [OF that] owners(1) [OF that(2)]] .
  have both: "copyOnWriteOwner os < cowKey as' \<and> copyOnWriteOwner os < cowKey x"
    if x: "j \<noteq> i" "spaces w j = Some x" and r: "r \<in> refs_of as'" "r \<in> refs_of x" "h' r = Some os" for j x r os
  proof -
    obtain old where old: "?h r = Some old" using owners(1) [OF x(2)] r(2) by (auto simp: owners_ok_def)
    then have "copyOnWriteOwner os = copyOnWriteOwner old" using other [OF x] r(2,3) by (auto simp: same_for_def)
    moreover have "r \<in> refs_of as" using refs r(1) old by auto
    ultimately show ?thesis using shared [OF i x(2)] shared [OF x(2) i] x(1) old r(2) as'(2) by (auto simp: not_owned_def)
  qed
  have apart: "not_owned h' x y" if x: "j \<noteq> i" "k \<noteq> i" "j \<noteq> k" "spaces w j = Some x" "spaces w k = Some y" for j k x y
    unfolding not_owned_def
  proof (intro ballI allI impI)
    fix r os
    assume r: "r \<in> refs_of x \<inter> refs_of y" "h' r = Some os"
    then obtain old where "?h r = Some old" using owners(1) [OF x(4)] by (auto simp: owners_ok_def)
    then show "copyOnWriteOwner os < cowKey x" using other [OF x(1,4)] r shared [OF x(4,5,3)] by (auto simp: same_for_def not_owned_def)
  qed
  show "cow_ok (w\<lparr>spaces := (spaces w)(i \<mapsto> as'), cow_heap := h'\<rparr>)"
    unfolding cow_ok_def using as' owners(2) i keep both apart by (auto simp: not_owned_def)
  show "private_view (w\<lparr>spaces := (spaces w)(i \<mapsto> as'), cow_heap := h'\<rparr>) = (private_view w)(i \<mapsto> space_view h' as')"
  proof
    fix j
    show "private_view (w\<lparr>spaces := (spaces w)(i \<mapsto> as'), cow_heap := h'\<rparr>) j = ((private_view w)(i \<mapsto> space_view h' as')) j"
      using same_for_view(1) [OF other owners(1)] by (cases "spaces w j") (auto simp: private_view_def)
  qed
qed

lemma set_bound: "itree_ok mo_key (as_objects as) \<Longrightarrow>
    set (inorder (it_replace mo_key op (as_objects as))) = {op} \<union> {op' \<in> set (inorder (as_objects as)). mo_key op' \<noteq> mo_key op}"
  by (rule itree.set_replace)

text \<open>A new object in a space, in place of the one at its address if there is one.\<close>

lemma replaced_ok:
  fixes mo :: memory_object
  assumes as: "owners_ok h as" and r: "h r = None" "copyOnWriteOwner os \<le> cowKey as"
  defines "as' \<equiv> as\<lparr>as_objects := it_replace mo_key (mo, r) (as_objects as)\<rparr>"
  shows "owners_ok (h(r \<mapsto> os)) as'" "refs_of as' \<subseteq> refs_of as \<union> {r}"
    "space_view (h(r \<mapsto> os)) as' = (space_view h as)(mo_address mo \<mapsto> contents_of os)"
proof -
  have ok: "itree_ok mo_key (as_objects as)" using as by (simp add: owners_ok_def)
  have new: "snd op \<noteq> r" if "op \<in> set (inorder (as_objects as))" for op using as that r(1) by (force simp: owners_ok_def refs_of_def)
  show "refs_of as' \<subseteq> refs_of as \<union> {r}" by (auto simp: as'_def refs_of_def itree.set_replace [OF ok])
  then have "\<forall>x\<in>refs_of as'. \<exists>s. (h(r \<mapsto> os)) x = Some s \<and> copyOnWriteOwner s \<le> cowKey as'"
    using as r by (fastforce simp: owners_ok_def as'_def)
  moreover have "inj_on snd (set (inorder (as_objects as')))"
    using as new unfolding as'_def owners_ok_def inj_on_def by (simp add: itree.set_replace [OF ok]) fastforce
  ultimately show "owners_ok (h(r \<mapsto> os)) as'" using itree.good_replace [OF ok] by (simp add: owners_ok_def as'_def)
  show "space_view (h(r \<mapsto> os)) as' = (space_view h as)(mo_address mo \<mapsto> contents_of os)"
  proof
    fix a
    have "snd op \<noteq> r" if "it_lookup mo_key a (as_objects as) = Some op" for op using new that itree.lookup_iff [OF ok] by auto
    then show "space_view (h(r \<mapsto> os)) as' a = ((space_view h as)(mo_address mo \<mapsto> contents_of os)) a"
      by (cases "it_lookup mo_key a (as_objects as)") (auto simp: space_view_def as'_def itree.lookup_replace [OF ok] mo_key_def)
  qed
qed

text \<open>A new value of an object that is there.\<close>

lemma changed_object:
  assumes as: "owners_ok h as" and op: "it_lookup mo_key a (as_objects as) = Some op" "h (snd op) = Some old"
    and os: "copyOnWriteOwner os = copyOnWriteOwner old"
  shows "owners_ok (h(snd op \<mapsto> os)) as" "space_view (h(snd op \<mapsto> os)) as = (space_view h as)(a \<mapsto> contents_of os)"
proof -
  show "owners_ok (h(snd op \<mapsto> os)) as" using as op(2) os by (fastforce simp: owners_ok_def)
  show "space_view (h(snd op \<mapsto> os)) as = (space_view h as)(a \<mapsto> contents_of os)"
  proof
    fix b
    show "space_view (h(snd op \<mapsto> os)) as b = ((space_view h as)(a \<mapsto> contents_of os)) b"
    proof (cases "a = b")
      case False
      then have "snd op' \<noteq> snd op" if "it_lookup mo_key b (as_objects as) = Some op'" for op' using bound_inj [OF as op(1) that] by auto
      then show ?thesis using False by (cases "it_lookup mo_key b (as_objects as)") (auto simp: space_view_def)
    qed (use op(1) in \<open>simp add: space_view_def\<close>)
  qed
qed

lemma same_for_outside: "r \<notin> refs_of as \<Longrightarrow> same_for h (h(r := x)) as"
  by (auto simp: same_for_def)

lemma same_for_new: "owners_ok h as \<Longrightarrow> h r = None \<Longrightarrow> same_for h (h(r := x)) as"
  by (intro same_for_outside) (auto simp: owners_ok_def)

subsection \<open>Every action\<close>

lemma bind_ok:
  assumes "cow_ok w" "cow_allowed (Cow_Bind i mo r os) w"
  shows "\<exists>w'. cow_do (Cow_Bind i mo r os) w = Some w' \<and> forks w' = forks w \<and> cow_ok w' \<and>
    private_view w' = private_do (Cow_Bind i mo r os) (private_view w)"
proof -
  let ?h = "cow_heap w"
  obtain as where as: "spaces w i = Some as" "?h r = None" "copyOnWriteOwner os = 0" using assms(2) by auto
  have ok: "owners_ok ?h x" if "spaces w j = Some x" for j x using assms(1) that by (auto simp: cow_ok_def)
  let ?os = "os\<lparr>copyOnWriteOwner := cowKey as\<rparr>"
  let ?as = "as\<lparr>as_objects := it_replace mo_key (mo, r) (as_objects as)\<rparr>"
  have new: "owners_ok (?h(r \<mapsto> ?os)) ?as" "refs_of ?as \<subseteq> refs_of as \<union> {r}"
      "space_view (?h(r \<mapsto> ?os)) ?as = (space_view ?h as)(mo_address mo \<mapsto> contents_of os)"
    using replaced_ok [OF ok [OF as(1)] as(2), of ?os mo] by auto
  have other: "same_for ?h (?h(r \<mapsto> ?os)) x" if "j \<noteq> i" "spaces w j = Some x" for j x
    using same_for_new [OF ok [OF that(2)] as(2)] .
  have refs: "refs_of ?as \<subseteq> refs_of as \<union> {r. ?h r = None}" using new(2) as(2) by auto
  have c: "cow_ok (w\<lparr>spaces := (spaces w)(i \<mapsto> ?as), cow_heap := ?h(r \<mapsto> ?os)\<rparr>)"
      "private_view (w\<lparr>spaces := (spaces w)(i \<mapsto> ?as), cow_heap := ?h(r \<mapsto> ?os)\<rparr>) =
        (private_view w)(i \<mapsto> space_view (?h(r \<mapsto> ?os)) ?as)"
    using change_ok [OF assms(1) as(1) new(1) _ other refs] by simp_all
  show ?thesis using as c new(3) by (simp add: bindObject_def in_memory_def private_view_def [of w i])
qed

lemma unbind_ok:
  assumes "cow_ok w" "cow_allowed (Cow_Unbind i mo) w"
  shows "\<exists>w'. cow_do (Cow_Unbind i mo) w = Some w' \<and> forks w' = forks w \<and> cow_ok w' \<and>
    private_view w' = private_do (Cow_Unbind i mo) (private_view w)"
proof -
  let ?h = "cow_heap w"
  obtain as where as: "spaces w i = Some as" using assms(2) by auto
  then have ok: "owners_ok ?h as" using assms(1) by (auto simp: cow_ok_def)
  then have t: "itree_ok mo_key (as_objects as)" by (simp add: owners_ok_def)
  have sub: "refs_of (unbindObject mo as) \<subseteq> refs_of as" by (auto simp: refs_of_def unbindObject_def itree.set_delete [OF t])
  have "inj_on snd (set (inorder (as_objects (unbindObject mo as))))"
    using ok by (auto simp: owners_ok_def unbindObject_def itree.set_delete [OF t] inj_on_def)
  then have new: "owners_ok ?h (unbindObject mo as)"
    using ok sub itree.good_delete [OF t] by (auto simp: owners_ok_def unbindObject_def)
  have view: "space_view ?h (unbindObject mo as) = (space_view ?h as)(mo_address mo := None)"
    by (rule ext) (simp add: space_view_def unbindObject_def itree.lookup_delete [OF t])
  have "w\<lparr>spaces := (spaces w)(i \<mapsto> unbindObject mo as), cow_heap := ?h\<rparr> = w\<lparr>spaces := (spaces w)(i \<mapsto> unbindObject mo as)\<rparr>" by simp
  then have c: "cow_ok (w\<lparr>spaces := (spaces w)(i \<mapsto> unbindObject mo as)\<rparr>)"
      "private_view (w\<lparr>spaces := (spaces w)(i \<mapsto> unbindObject mo as)\<rparr>) = (private_view w)(i \<mapsto> space_view ?h (unbindObject mo as))"
    using change_ok [OF assms(1) as new _ _] sub by (auto simp: unbindObject_def same_for_def)
  show ?thesis using as c view by (simp add: in_memory_def private_view_def [of w i])
qed

text \<open>The object at an address of a state.\<close>

lemma view_object:
  assumes "private_view w i = Some m" "m (mo_address mo) = Some x"
  obtains as op os where "spaces w i = Some as" "it_lookup mo_key (mo_address mo) (as_objects as) = Some op" "findObject mo as = Some (snd op)"
    "cow_heap w (snd op) = Some os" "x = contents_of os" "m = space_view (cow_heap w) as"
  using assms by (auto simp: private_view_def space_view_def findObject_def bind_eq_Some_conv)

lemma read_ok:
  assumes "cow_ok w" "cow_allowed (Cow_Read i mo os) w"
  shows "\<exists>w'. cow_do (Cow_Read i mo os) w = Some w' \<and> forks w' = forks w \<and> cow_ok w' \<and>
    private_view w' = private_do (Cow_Read i mo os) (private_view w)"
proof -
  let ?h = "cow_heap w"
  obtain m where m: "private_view w i = Some m" "m (mo_address mo) = Some (contents_of os)" using assms(2) by auto
  obtain as op old where as: "spaces w i = Some as" "it_lookup mo_key (mo_address mo) (as_objects as) = Some op" "findObject mo as = Some (snd op)"
      "?h (snd op) = Some old" "contents_of os = contents_of old" "m = space_view ?h as"
    by (rule view_object [OF m])
  then have ok: "owners_ok ?h as" using assms(1) by (auto simp: cow_ok_def)
  let ?os = "os\<lparr>copyOnWriteOwner := copyOnWriteOwner old\<rparr>"
  have new: "owners_ok (?h(snd op \<mapsto> ?os)) as" "space_view (?h(snd op \<mapsto> ?os)) as = space_view ?h as"
    using changed_object [OF ok as(2,4), of ?os] m as(6) by auto
  have "same_for ?h (?h(snd op \<mapsto> ?os)) x" for x using as(4,5) by (auto simp: same_for_def)
  then have c: "cow_ok (w\<lparr>spaces := (spaces w)(i \<mapsto> as), cow_heap := ?h(snd op \<mapsto> ?os)\<rparr>)"
      "private_view (w\<lparr>spaces := (spaces w)(i \<mapsto> as), cow_heap := ?h(snd op \<mapsto> ?os)\<rparr>) = (private_view w)(i \<mapsto> space_view (?h(snd op \<mapsto> ?os)) as)"
    using change_ok [OF assms(1) as(1) new(1)] by simp_all
  moreover have "w\<lparr>spaces := (spaces w)(i \<mapsto> as), cow_heap := ?h(snd op \<mapsto> ?os)\<rparr> = w\<lparr>cow_heap := ?h(snd op \<mapsto> ?os)\<rparr>"
    using as(1) by (simp add: fun_upd_idem)
  moreover have "(private_view w)(i \<mapsto> space_view ?h as) = private_view w" using m(1) as(6) by (simp add: fun_upd_idem)
  ultimately show ?thesis using as(1,3,4) new(2) by (simp add: new_contents_def)
qed

lemma write_ok:
  assumes "cow_ok w" "cow_allowed (Cow_Write i mo fresh os) w"
  shows "\<exists>w'. cow_do (Cow_Write i mo fresh os) w = Some w' \<and> forks w' = forks w \<and> cow_ok w' \<and>
    private_view w' = private_do (Cow_Write i mo fresh os) (private_view w)"
proof -
  let ?h = "cow_heap w"
  obtain m n b where m: "private_view w i = Some m" "m (mo_address mo) = Some (n, False, b)" and fresh: "?h fresh = None" using assms(2) by auto
  obtain as op old where as: "spaces w i = Some as" "it_lookup mo_key (mo_address mo) (as_objects as) = Some op" "findObject mo as = Some (snd op)"
      "?h (snd op) = Some old" "(n, False, b) = contents_of old" "m = space_view ?h as"
    by (rule view_object [OF m])
  have ok: "owners_ok ?h x" if "spaces w j = Some x" for j x using assms(1) that by (auto simp: cow_ok_def)
  have ro: "\<not> os_readOnly old" using as(5) by (simp add: contents_of_def)
  let ?os = "os\<lparr>copyOnWriteOwner := cowKey as\<rparr>"
  show ?thesis
  proof (cases "cowKey as = copyOnWriteOwner old")
    case True
    have new: "owners_ok (?h(snd op \<mapsto> ?os)) as" "space_view (?h(snd op \<mapsto> ?os)) as = (space_view ?h as)(mo_address mo \<mapsto> contents_of os)"
      using changed_object [OF ok [OF as(1)] as(2,4), of ?os] True by auto
    have "snd op \<notin> refs_of x" if "j \<noteq> i" "spaces w j = Some x" for j x
      using assms(1) that as(1,4) True bound_ref [OF ok [OF as(1)] as(2)] by (fastforce simp: cow_ok_def not_owned_def)
    then have c: "cow_ok (w\<lparr>spaces := (spaces w)(i \<mapsto> as), cow_heap := ?h(snd op \<mapsto> ?os)\<rparr>)"
        "private_view (w\<lparr>spaces := (spaces w)(i \<mapsto> as), cow_heap := ?h(snd op \<mapsto> ?os)\<rparr>) = (private_view w)(i \<mapsto> space_view (?h(snd op \<mapsto> ?os)) as)"
      using change_ok [OF assms(1) as(1) new(1)] same_for_outside by auto
    have "getWriteable fresh mo (snd op) as ?h = Some (snd op, as, ?h)" using ro True as(4) by (simp add: getWriteable_def)
    then show ?thesis using as m(1) c new(2) True by (simp add: new_contents_def in_memory_def)
  next
    case False
    let ?as = "as\<lparr>as_objects := it_replace mo_key (mo, fresh) (as_objects as)\<rparr>"
    have new: "owners_ok (?h(fresh \<mapsto> ?os)) ?as" "refs_of ?as \<subseteq> refs_of as \<union> {fresh}"
        "space_view (?h(fresh \<mapsto> ?os)) ?as = (space_view ?h as)(mo_address mo \<mapsto> contents_of os)"
      using replaced_ok [OF ok [OF as(1)] fresh, of ?os mo] by auto
    have other: "same_for ?h (?h(fresh \<mapsto> ?os)) x" if "j \<noteq> i" "spaces w j = Some x" for j x
      using same_for_new [OF ok [OF that(2)] fresh] .
    have refs: "refs_of ?as \<subseteq> refs_of as \<union> {r. ?h r = None}" using new(2) fresh by auto
    have c: "cow_ok (w\<lparr>spaces := (spaces w)(i \<mapsto> ?as), cow_heap := ?h(fresh \<mapsto> ?os)\<rparr>)"
        "private_view (w\<lparr>spaces := (spaces w)(i \<mapsto> ?as), cow_heap := ?h(fresh \<mapsto> ?os)\<rparr>) =
          (private_view w)(i \<mapsto> space_view (?h(fresh \<mapsto> ?os)) ?as)"
      using change_ok [OF assms(1) as(1) new(1) _ other refs] by simp_all
    have "getWriteable fresh mo (snd op) as ?h = Some (fresh, ?as, ?h(fresh \<mapsto> old\<lparr>copyOnWriteOwner := cowKey as\<rparr>))"
      using ro False as(4) by (simp add: getWriteable_def copy_object_def)
    then show ?thesis using as m(1) c new(3) by (simp add: new_contents_def in_memory_def)
  qed
qed

lemma end_ok:
  assumes "cow_ok w" "cow_allowed (Cow_End i) w"
  shows "\<exists>w'. cow_do (Cow_End i) w = Some w' \<and> forks w' = forks w \<and> cow_ok w' \<and>
    private_view w' = private_do (Cow_End i) (private_view w)"
  using assms by (auto simp: cow_ok_def private_view_def fun_eq_iff split: if_splits)

lemma next_key:
  assumes "unat (k :: 32 word) \<le> n + 1" "n + 1 < 2 ^ 32 - 1"
  shows "k < k + 1" "unat (k + 1) \<le> n + 2"
proof -
  have "unat (k + 1) = unat k + 1" using assms by (intro unat_add_lem [THEN iffD1, of k 1, simplified]) (simp add: One_nat_def)
  then show "k < k + 1" "unat (k + 1) \<le> n + 2" using assms(1) by (simp_all add: word_less_nat_alt)
qed

lemma fork_ok:
  assumes "cow_ok w" "cow_allowed (Cow_Fork i k) w" "forks w + 1 < 2 ^ 32 - 1"
  shows "\<exists>w'. cow_do (Cow_Fork i k) w = Some w' \<and> forks w' = forks w + 1 \<and> cow_ok w' \<and>
    private_view w' = private_do (Cow_Fork i k) (private_view w)"
proof -
  let ?h = "cow_heap w"
  obtain as where as: "spaces w i = Some as" "spaces w k = None" using assms(2) by auto
  have ok: "owners_ok ?h x" "unat (cowKey x) \<le> forks w + 1" if "spaces w j = Some x" for j x using assms(1) that by (auto simp: cow_ok_def)
  have shared: "not_owned ?h x y" if "spaces w j = Some x" "spaces w l = Some y" "j \<noteq> l" for j l x y using assms(1) that by (auto simp: cow_ok_def)
  let ?b = "as\<lparr>cowKey := cowKey as + 1\<rparr>"
  have key: "cowKey as < cowKey as + 1" "unat (cowKey as + 1) \<le> forks w + 2" using next_key [OF ok(2) [OF as(1)] assms(3)] by auto
  have refs: "refs_of ?b = refs_of as" by (simp add: refs_of_def)
  have b: "owners_ok ?h ?b"
    using ok(1) [OF as(1)] order.trans [OF _ order.strict_implies_order [OF key(1)]] unfolding owners_ok_def refs by fastforce
  have c: "copy_space as = (?b, ?b)" by (simp add: copy_space_def Let_def)
  have alone: "not_owned ?h ?b y" if "refs_of y = refs_of as" for y
    using ok(1) [OF as(1)] order.strict_trans1 [OF _ key(1)] that unfolding not_owned_def owners_ok_def refs by fastforce
  have apart: "not_owned ?h ?b x \<and> not_owned ?h x ?b" if "spaces w j = Some x" "j \<noteq> i" for j x
    using shared [OF as(1) that(1)] shared [OF that(1) as(1)] that(2) order.strict_trans [OF _ key(1)] unfolding not_owned_def refs by fastforce
  let ?w = "w\<lparr>spaces := (spaces w)(i \<mapsto> ?b, k \<mapsto> ?b), forks := forks w + 1\<rparr>"
  have "cow_ok ?w" unfolding cow_ok_def
  proof (intro conjI allI impI)
    fix j x
    assume "spaces ?w j = Some x"
    then show "owners_ok (cow_heap ?w) x" "unat (cowKey x) \<le> forks ?w + 1"
      using b key(2) ok [of j x] by (auto split: if_splits)
  next
    fix j l x y
    assume "spaces ?w j = Some x" "spaces ?w l = Some y" "j \<noteq> l"
    then show "not_owned (cow_heap ?w) x y"
      using alone [of ?b] apart [of j x] apart [of l y] shared [of j x l y] by (auto simp: refs_of_def split: if_splits)
  qed
  moreover have "private_view ?w = (private_view w)(k := private_view w i)"
    using as(1) by (auto simp: private_view_def space_view_def fun_eq_iff)
  ultimately show ?thesis using as(1) c by simp
qed

lemmas actions_ok = bind_ok unbind_ok read_ok write_ok end_ok fork_ok

lemma act_ok:
  assumes "cow_ok w" "cow_allowed a w" "forks w + 1 < 2 ^ 32 - 1"
  shows "\<exists>w'. cow_do a w = Some w' \<and> forks w' \<le> forks w + 1 \<and> cow_ok w' \<and> private_view w' = private_do a (private_view w)"
  using assms actions_ok [OF assms(1)] by (cases a) (fastforce simp del: cow_do.simps cow_allowed.simps private_do.simps)+

lemma first_ok: "cow_ok first_system"
  by (auto simp: cow_ok_def first_system_def owners_ok_def new_space_def refs_of_def itree.good_empty One_nat_def split: if_splits)

lemma reach_ok: "cow_reach w \<Longrightarrow> cow_ok w"
proof (induction rule: cow_reach.induct)
  case (act w a w')
  show ?case
  proof (cases "\<exists>i k. a = Cow_Fork i k")
    case True
    then obtain i k where a: "a = Cow_Fork i k" by blast
    have "forks w + 1 < 2 ^ 32 - 1" using act.hyps(3,4) a by (auto simp: bind_eq_Some_conv copy_space_def Let_def)
    then show ?thesis using fork_ok [OF act.IH act.hyps(2) [unfolded a]] act.hyps(3) a by fastforce
  next
    case False
    then show ?thesis using actions_ok(1-5) [OF act.IH] act.hyps(2,3) by (cases a) (fastforce simp del: cow_do.simps cow_allowed.simps private_do.simps)+
  qed
qed (rule first_ok)

subsection \<open>Properties\<close>

text \<open>
  C18. Sharing cannot be observed: in every system of address spaces that forks, bindings, reads, writes and
  terminations can reach, each of these actions returns, and every state sees the memory that it would see if it
  had its own copy of every object, while there are fewer than 2 to the 32 forks. No object has an owner after the
  key of a space that holds it, the invariant that the header states.
\<close>

theorem copy_on_write_refines:
  assumes "cow_reach w" "cow_allowed a w" "forks w + 1 < 2 ^ 32 - 1"
  shows "\<exists>w'. cow_do a w = Some w' \<and> private_view w' = private_do a (private_view w) \<and>
    (\<forall>i as op. spaces w' i = Some as \<and> op \<in> set (inorder (as_objects as)) \<longrightarrow>
      (\<exists>os. cow_heap w' (snd op) = Some os \<and> copyOnWriteOwner os \<le> cowKey as))"
proof -
  obtain w' where w': "cow_do a w = Some w'" "cow_ok w'" "private_view w' = private_do a (private_view w)"
    using act_ok [OF reach_ok [OF assms(1)] assms(2,3)] by blast
  have "\<exists>os. cow_heap w' (snd op) = Some os \<and> copyOnWriteOwner os \<le> cowKey as"
    if "spaces w' i = Some as" "op \<in> set (inorder (as_objects as))" for i as op
    using w'(2) that by (fastforce simp: cow_ok_def owners_ok_def refs_of_def)
  then show ?thesis using w'(1,3) by blast
qed

text \<open>A state with one object and its copy.\<close>

definition zero_object :: object_state where
  "zero_object = new_concrete True (byte_array 0) 4"

definition shared_system :: cow_system where
  "shared_system = the (foldM cow_do [Cow_Bind 0 (fst near_object) 0 zero_object, Cow_Fork 0 1] first_system)"

definition near_tree :: "object_pair itree" where
  "near_tree = it_insert mo_key near_object Terminator"

definition bound_system :: cow_system where
  "bound_system = \<lparr>spaces = [0 \<mapsto> \<lparr>cowKey = 1, as_objects = near_tree\<rparr>], cow_heap = [0 \<mapsto> zero_object\<lparr>copyOnWriteOwner := 1\<rparr>], forks = 0\<rparr>"

lemma bound_system_eq: "cow_do (Cow_Bind 0 (fst near_object) 0 zero_object) first_system = Some bound_system"
  by (simp add: bound_system_def near_tree_def first_system_def new_space_def bindObject_def zero_object_def new_concrete_def near_object_def)

lemma shared_system_eq:
  "cow_do (Cow_Fork 0 1) bound_system = Some shared_system"
  "shared_system = \<lparr>spaces = [0 \<mapsto> \<lparr>cowKey = 2, as_objects = near_tree\<rparr>, 1 \<mapsto> \<lparr>cowKey = 2, as_objects = near_tree\<rparr>],
     cow_heap = [0 \<mapsto> zero_object\<lparr>copyOnWriteOwner := 1\<rparr>], forks = 1\<rparr>"
  using bound_system_eq by (simp_all add: shared_system_def bound_system_def copy_space_def del: cow_do.simps(2))

lemma shared_system_reach: "cow_reach shared_system"
proof -
  have "cow_reach bound_system"
    by (rule cow_reach.act [OF cow_reach.start _ bound_system_eq])
      (simp_all add: first_system_def bound_system_def zero_object_def new_concrete_def)
  then show ?thesis by (rule cow_reach.act [OF _ _ shared_system_eq(1)]) (simp_all add: bound_system_def shared_system_eq(2))
qed

theorem copy_on_write_refines_witness:
  "\<exists>w'. cow_do (Cow_Write 1 (fst near_object) 1 (initializeToRandom zero_object)) shared_system = Some w' \<and>
     private_view w' 0 = private_view shared_system 0 \<and>
     map_option (\<lambda>m. m 16) (private_view w' 1) = Some (Some (contents_of (initializeToRandom zero_object)))"
proof -
  let ?a = "Cow_Write 1 (fst near_object) 1 (initializeToRandom zero_object)"
  have v: "private_view shared_system 1 = Some (space_view (cow_heap shared_system) \<lparr>cowKey = 2, as_objects = near_tree\<rparr>)"
    by (simp add: private_view_def shared_system_eq(2))
  have ok: "cow_allowed ?a shared_system"
    by (simp add: v) (simp add: shared_system_eq(2) space_view_def near_tree_def near_object_def mo_key_def it_node_def contents_of_def zero_object_def new_concrete_def)
  have "forks shared_system + 1 < 2 ^ 32 - 1" by (simp add: shared_system_eq(2))
  then obtain w' where w': "cow_do ?a shared_system = Some w'" "private_view w' = private_do ?a (private_view shared_system)"
    using copy_on_write_refines [OF shared_system_reach ok] by blast
  have "private_view w' 0 = private_view shared_system 0" "map_option (\<lambda>m. m 16) (private_view w' 1) = Some (Some (contents_of (initializeToRandom zero_object)))"
    unfolding w'(2) by (simp_all add: in_memory_def v near_object_def)
  then show ?thesis using w'(1) by blast
qed

end
