(* ===== verification/ExternalMemory.thy ===== *)
theory ExternalMemory
  imports CopyOnWrite ObjectAccess
begin

declare One_nat_def [simp del]

section \<open>The memory of external functions\<close>

text \<open>
  Around a call of an external function the executor copies the concrete bytes of all objects to the addresses
  they have (\<open>copyOutConcretes\<close>) and back (\<open>copyInConcretes\<close>, \<open>klee/lib/Core/AddressSpace.cpp\<close>). The definitions are in
  \<open>AddressSpace\<close>; this theory shows what the two loops do to the memory and to the objects, and where the second one
  leaves the caches of an object behind.
\<close>

subsection \<open>Bytes of objects\<close>

definition covers :: "memory_object \<Rightarrow> 64 word \<Rightarrow> bool" where
  "covers mo x \<longleftrightarrow> unat (x - mo_address mo) < mo_size mo"

lemma covers_in_object:
  assumes "mo_ok mo" "covers mo x"
  shows "in_object mo (uint x)"
proof (cases "mo_address mo \<le> x")
  case True
  then show ?thesis using in_object_word assms(2) by (simp add: covers_def)
next
  case False
  then have "unat x < unat (mo_address mo)" by (simp add: word_le_nat_alt)
  then have "unat (x - mo_address mo) = 2 ^ 64 + unat x - unat (mo_address mo)" using unat_sub_if' [of x "mo_address mo"] by simp
  moreover have "unat (mo_address mo) + mo_size mo \<le> 2 ^ 64" using assms(1) unfolding mo_ok_def extent_def by linarith
  ultimately have False using assms(2) unfolding covers_def by linarith
  then show ?thesis ..
qed

lemma covers_once:
  assumes "space_ok as" "op \<in> set (inorder (as_objects as))" "op' \<in> set (inorder (as_objects as))" "covers (fst op) x" "covers (fst op') x"
  shows "op = op'"
proof -
  have "mo_ok (fst op)" "mo_ok (fst op')" using assms(1-3) by (auto simp: space_ok_def)
  then show ?thesis using space_disjoint [OF assms(1-3)] covers_in_object assms(4,5) by blast
qed

lemma copy_bytes_at:
  fixes a x :: "64 word"
  assumes "n \<le> length bytes" "n \<le> 2 ^ 64"
  shows "fold (\<lambda>i m. m(a + of_nat i := bytes ! i)) [0..<n] mem x = (if unat (x - a) < n then bytes ! unat (x - a) else mem x)"
  using assms
proof (induction n)
  case (Suc n)
  have "x = a + of_nat n \<longleftrightarrow> x - a = of_nat n" by (auto simp: algebra_simps)
  also have "\<dots> \<longleftrightarrow> unat (x - a) = n" using Suc.prems(2) by (auto simp: word_unat_eq_iff unat_of_nat take_bit_nat_eq_self)
  finally show ?case using Suc by (auto simp: less_Suc_eq)
qed simp

lemma copy_bytes_apply: "length bytes \<le> 2 ^ 64 \<Longrightarrow> copy_bytes a bytes mem x = (if unat (x - a) < length bytes then bytes ! unat (x - a) else mem x)"
  by (simp add: copy_bytes_def copy_bytes_at)

lemma read_bytes_length [simp]: "length (read_bytes_at a n mem) = n"
  by (simp add: read_bytes_at_def)

lemma offset_word: "i < n \<Longrightarrow> n \<le> 2 ^ 64 \<Longrightarrow> unat (of_nat i :: 64 word) = i"
  by (simp add: unat_of_nat take_bit_nat_eq_self)

lemma read_copied: "length bytes \<le> 2 ^ 64 \<Longrightarrow> read_bytes_at a (length bytes) (copy_bytes a bytes mem) = bytes"
  by (rule nth_equalityI) (simp_all add: read_bytes_at_def copy_bytes_apply offset_word)

lemma read_same:
  assumes "mo_size mo < 2 ^ 32" "\<And>x. covers mo x \<Longrightarrow> mem' x = mem x"
  shows "read_bytes_at (mo_address mo) (mo_size mo) mem' = read_bytes_at (mo_address mo) (mo_size mo) mem"
  unfolding read_bytes_at_def using assms offset_word [of _ "mo_size mo"] by (auto simp: covers_def)

lemma space_objects_ok:
  assumes "itree_ok mo_key (as_objects as)"
  shows "space_objects as = Some (inorder (as_objects as))"
proof -
  obtain s where s: "it_begin (as_objects as) = Some s" "position (as_objects as) s" "it_after s = inorder (as_objects as)"
    using it_begin_ok assms by (auto simp: itree_ok_def)
  then have "visit_forward (it_size (as_objects as)) (as_objects as) s = Some (inorder (as_objects as))"
    using visit_forward_ok [OF assms s(2), of "it_size (as_objects as)"] by (simp add: it_size_inorder)
  then show ?thesis using s(1) by (simp add: space_objects_def)
qed

subsection \<open>Copying out\<close>

text \<open>Every object has its contents, and as many bytes as its size says.\<close>

definition sized :: "object_heap \<Rightarrow> object_pair \<Rightarrow> bool" where
  "sized h op \<longleftrightarrow> mo_size (fst op) < 2 ^ 32 \<and> (\<exists>os. h (snd op) = Some os \<and> length (concreteStore os) = mo_size (fst op))"

lemma copy_out_loop:
  assumes "list_all (sized h) ops" "\<And>op op' x. op \<in> set ops \<Longrightarrow> op' \<in> set ops \<Longrightarrow> covers (fst op) x \<Longrightarrow> covers (fst op') x \<Longrightarrow> op = op'"
    "distinct ops"
  shows "\<exists>mem'. foldM (copyOut_object h) ops mem = Some mem' \<and>
     (\<forall>x. (\<forall>op\<in>set ops. \<not> covers (fst op) x) \<longrightarrow> mem' x = mem x) \<and>
     (\<forall>op\<in>set ops. \<forall>os. h (snd op) = Some os \<longrightarrow> read_bytes_at (mo_address (fst op)) (mo_size (fst op)) mem' =
        (if mo_isUserSpecified (fst op) \<or> os_readOnly os then read_bytes_at (mo_address (fst op)) (mo_size (fst op)) mem else concreteStore os))"
  using assms
proof (induction ops arbitrary: mem)
  case (Cons op ops)
  obtain mo r os where op: "op = (mo, r)" "h r = Some os" "length (concreteStore os) = mo_size mo" "mo_size mo < 2 ^ 32"
    using Cons.prems(1) by (cases op) (auto simp: sized_def)
  define mem1 where "mem1 = (if mo_isUserSpecified mo \<or> os_readOnly os then mem else copy_bytes (mo_address mo) (concreteStore os) mem)"
  have m1: "mem1 x = mem x" if "\<not> covers mo x" for x using that op(3,4) by (simp add: mem1_def covers_def copy_bytes_apply)
  obtain mem' where mem': "foldM (copyOut_object h) ops mem1 = Some mem'"
      "\<And>x. \<forall>op\<in>set ops. \<not> covers (fst op) x \<Longrightarrow> mem' x = mem1 x"
      "\<forall>op\<in>set ops. \<forall>os. h (snd op) = Some os \<longrightarrow> read_bytes_at (mo_address (fst op)) (mo_size (fst op)) mem' =
        (if mo_isUserSpecified (fst op) \<or> os_readOnly os then read_bytes_at (mo_address (fst op)) (mo_size (fst op)) mem1 else concreteStore os)"
    using Cons.IH [of mem1] Cons.prems by auto
  have apart: "\<not> covers (fst x) y" if "x \<in> set ops" "covers mo y" for x y
    using Cons.prems(2) [of op x y] Cons.prems(3) that op(1) by auto
  have "read_bytes_at (mo_address mo) (mo_size mo) mem' = read_bytes_at (mo_address mo) (mo_size mo) mem1"
    by (rule read_same [OF op(4)]) (use apart mem'(2) in blast)
  also have "\<dots> = (if mo_isUserSpecified mo \<or> os_readOnly os then read_bytes_at (mo_address mo) (mo_size mo) mem else concreteStore os)"
    using read_copied [of "concreteStore os" "mo_address mo" mem] op(3,4) by (simp add: mem1_def)
  finally have head: "read_bytes_at (mo_address mo) (mo_size mo) mem' =
    (if mo_isUserSpecified mo \<or> os_readOnly os then read_bytes_at (mo_address mo) (mo_size mo) mem else concreteStore os)" .
  have rest: "read_bytes_at (mo_address (fst x)) (mo_size (fst x)) mem1 = read_bytes_at (mo_address (fst x)) (mo_size (fst x)) mem" if x: "x \<in> set ops" for x
  proof (rule read_same)
    show "mo_size (fst x) < 2 ^ 32" using Cons.prems(1) x by (auto simp: list_all_iff sized_def)
    show "mem1 y = mem y" if "covers (fst x) y" for y using apart [OF x] m1 that by blast
  qed
  show ?case
  proof (intro exI conjI)
    show "foldM (copyOut_object h) (op # ops) mem = Some mem'"
      using mem'(1) op by (auto simp: mem1_def copyOut_object_def)
    show "\<forall>x. (\<forall>op\<in>set (op # ops). \<not> covers (fst op) x) \<longrightarrow> mem' x = mem x" using mem'(2) m1 op(1) by auto
    show "\<forall>x\<in>set (op # ops). \<forall>os. h (snd x) = Some os \<longrightarrow> read_bytes_at (mo_address (fst x)) (mo_size (fst x)) mem' =
        (if mo_isUserSpecified (fst x) \<or> os_readOnly os then read_bytes_at (mo_address (fst x)) (mo_size (fst x)) mem else concreteStore os)"
      using head mem'(3) rest op(1,2) by auto
  qed
qed simp

lemma ascending_distinct: "ascending key xs \<Longrightarrow> distinct xs"
  by (induction xs) (auto simp: ascending_def)

lemma copyOut_ok:
  assumes "space_ok as" "list_all (sized h) (inorder (as_objects as))"
  shows "\<exists>mem'. copyOutConcretes as h mem = Some mem' \<and>
     (\<forall>x. (\<forall>op\<in>set (inorder (as_objects as)). \<not> covers (fst op) x) \<longrightarrow> mem' x = mem x) \<and>
     (\<forall>op\<in>set (inorder (as_objects as)). \<forall>os. h (snd op) = Some os \<longrightarrow> read_bytes_at (mo_address (fst op)) (mo_size (fst op)) mem' =
        (if mo_isUserSpecified (fst op) \<or> os_readOnly os then read_bytes_at (mo_address (fst op)) (mo_size (fst op)) mem else concreteStore os))"
proof -
  have ok: "itree_ok mo_key (as_objects as)" using assms(1) by (simp add: space_ok_def)
  then have "distinct (inorder (as_objects as))" using ascending_distinct by (auto simp: itree_ok_def)
  then show ?thesis using copy_out_loop [OF assms(2) covers_once [OF assms(1)], where mem = mem] space_objects_ok [OF ok] by (simp add: copyOutConcretes_def)
qed

subsection \<open>Copying in\<close>

text \<open>The memory differs from the bytes of an object that is copied in.\<close>

definition differs :: "(64 word \<Rightarrow> 8 word) \<Rightarrow> object_heap \<Rightarrow> object_pair \<Rightarrow> bool" where
  "differs mem h op \<longleftrightarrow> \<not> mo_isUserSpecified (fst op) \<and>
     (\<forall>os. h (snd op) = Some os \<longrightarrow> read_bytes_at (mo_address (fst op)) (mo_size (fst op)) mem \<noteq> concreteStore os)"

definition blocked :: "(64 word \<Rightarrow> 8 word) \<Rightarrow> object_heap \<Rightarrow> object_pair \<Rightarrow> bool" where
  "blocked mem h op \<longleftrightarrow> differs mem h op \<and> (\<forall>os. h (snd op) = Some os \<longrightarrow> os_readOnly os)"

text \<open>
  How one object is found afterwards in a space with an owner key. An object that differs has the bytes of the memory
  and belongs to the space: it is the object itself where the space owned it, otherwise a copy at a new place. An
  object that does not differ is the same object.
\<close>

definition copied_in :: "(64 word \<Rightarrow> 8 word) \<Rightarrow> 32 word \<Rightarrow> object_heap \<Rightarrow> object_heap \<Rightarrow> address_space \<Rightarrow> object_pair \<Rightarrow> bool" where
  "copied_in mem key h h' as' op \<longleftrightarrow> (\<exists>r' os. it_lookup mo_key (mo_key op) (as_objects as') = Some (fst op, r') \<and> h (snd op) = Some os \<and>
     (if differs mem h op
      then h' r' = Some (os\<lparr>copyOnWriteOwner := key, concreteStore := read_bytes_at (mo_address (fst op)) (mo_size (fst op)) mem\<rparr>) \<and>
        (if copyOnWriteOwner os = key then r' = snd op else h r' = None)
      else r' = snd op \<and> h' r' = Some os))"

text \<open>Objects that the space does not own are as they were, for every other state that has them.\<close>

definition untouched :: "32 word \<Rightarrow> object_heap \<Rightarrow> object_heap \<Rightarrow> bool" where
  "untouched key h h' \<longleftrightarrow> dom h \<subseteq> dom h' \<and> (\<forall>r os. h r = Some os \<and> copyOnWriteOwner os \<noteq> key \<longrightarrow> h' r = Some os)"

lemma untouched_refl [simp]: "untouched key h h"
  by (simp add: untouched_def)

lemma untouched_trans: "untouched key h h1 \<Longrightarrow> untouched key h1 h2 \<Longrightarrow> untouched key h h2"
  unfolding untouched_def by blast

lemma copyIn_same:
  assumes "\<forall>op\<in>set ops. sized h op \<and> \<not> differs mem h op"
  shows "copyIn_loop fresh mem ops (as, h) = Some (True, as, h)"
  using assms
proof (induction ops)
  case (Cons op ops)
  then show ?case by (cases op) (auto simp: copyInConcrete_def differs_def sized_def Let_def)
qed simp

definition fresh_ref :: "(object_heap \<Rightarrow> object_ref) \<Rightarrow> bool" where
  "fresh_ref fresh \<longleftrightarrow> (\<forall>h. finite (dom h) \<longrightarrow> h (fresh h) = None)"

text \<open>One object that differs and is not read-only.\<close>

lemma copyIn_object:
  assumes as: "owners_ok h as" and fresh: "fresh_ref fresh" "finite (dom h)" and op: "(mo, r) \<in> set (inorder (as_objects as))" "sized h (mo, r)"
    "differs mem h (mo, r)" "\<not> blocked mem h (mo, r)"
  shows "\<exists>r' as' h'. copyInConcrete fresh mem mo r (mo_address mo) (as, h) = Some (True, as', h') \<and> owners_ok h' as' \<and> finite (dom h') \<and>
    cowKey as' = cowKey as \<and> untouched (cowKey as) h h' \<and> copied_in mem (cowKey as) h h' as' (mo, r) \<and> set (inorder (as_objects as')) = {(mo, r')} \<union> {y \<in> set (inorder (as_objects as)). mo_key y \<noteq> mo_address mo} \<and>
    (\<forall>y\<in>set (inorder (as_objects as)). mo_key y \<noteq> mo_address mo \<longrightarrow> h' (snd y) = h (snd y))"
proof -
  let ?b = "read_bytes_at (mo_address mo) (mo_size mo) mem"
  have t: "itree_ok mo_key (as_objects as)" using as by (simp add: owners_ok_def)
  obtain os where os: "h r = Some os" "length (concreteStore os) = mo_size mo" "?b \<noteq> concreteStore os" "\<not> os_readOnly os"
    using op(2-4) by (auto simp: sized_def differs_def blocked_def)
  have key: "mo_key (mo, r) = mo_address mo" by (simp add: mo_key_def)
  have found: "it_lookup mo_key (mo_address mo) (as_objects as) = Some (mo, r)" using itree.lookup_iff [OF t] op(1) by (simp add: mo_key_def)
  show ?thesis
  proof (cases "cowKey as = copyOnWriteOwner os")
    case True
    let ?os = "os\<lparr>concreteStore := ?b\<rparr>"
    have "copyInConcrete fresh mem mo r (mo_address mo) (as, h) = Some (True, as, h(r \<mapsto> ?os))"
      using os True by (simp add: copyInConcrete_def getWriteable_def Let_def)
    moreover have "owners_ok (h(r \<mapsto> ?os)) as" using changed_object(1) [OF as found, of os ?os] os(1) by simp
    moreover have "copied_in mem (cowKey as) h (h(r \<mapsto> ?os)) as (mo, r)" using found os(1) op(3) key True by (simp add: copied_in_def)
    moreover have "untouched (cowKey as) h (h(r \<mapsto> ?os))" using os(1) True by (auto simp: untouched_def)
    moreover have "y = (mo, r)" if "y \<in> set (inorder (as_objects as))" "mo_key y = mo_address mo" for y
      using itree.lookup_iff [OF t, of "mo_address mo" y] found that by simp
    then have "set (inorder (as_objects as)) = {(mo, r)} \<union> {y \<in> set (inorder (as_objects as)). mo_key y \<noteq> mo_address mo}"
      using op(1) by auto
    moreover have "snd y \<noteq> r" if "y \<in> set (inorder (as_objects as))" "mo_key y \<noteq> mo_address mo" for y
      using inj_onD [of snd "set (inorder (as_objects as))" y "(mo, r)"] as that op(1) key by (auto simp: owners_ok_def)
    ultimately show ?thesis using fresh(2) by fastforce
  next
    case False
    let ?f = "fresh h"
    let ?as = "as\<lparr>as_objects := it_replace mo_key (mo, ?f) (as_objects as)\<rparr>"
    let ?os = "os\<lparr>copyOnWriteOwner := cowKey as, concreteStore := ?b\<rparr>"
    have f: "h ?f = None" using fresh by (simp add: fresh_ref_def)
    have "copyInConcrete fresh mem mo r (mo_address mo) (as, h) = Some (True, ?as, h(?f \<mapsto> ?os))"
      using os False by (simp add: copyInConcrete_def getWriteable_def copy_object_def Let_def)
    moreover have "owners_ok (h(?f \<mapsto> ?os)) ?as" using replaced_ok(1) [OF as f, of ?os mo] by simp
    moreover have "copied_in mem (cowKey as) h (h(?f \<mapsto> ?os)) ?as (mo, r)"
      using os(1) op(3) key f False itree.lookup_replace [OF t, of "mo_address mo" "(mo, ?f)"] by (simp add: copied_in_def mo_key_def)
    moreover have "untouched (cowKey as) h (h(?f \<mapsto> ?os))" using f by (auto simp: untouched_def)
    moreover have "set (inorder (as_objects ?as)) = {(mo, ?f)} \<union> {y \<in> set (inorder (as_objects as)). mo_key y \<noteq> mo_address mo}"
      by (simp add: itree.set_replace [OF t] mo_key_def)
    moreover have "snd y \<noteq> ?f" if "y \<in> set (inorder (as_objects as))" for y using as f that by (fastforce simp: owners_ok_def refs_of_def)
    ultimately show ?thesis using fresh(2) by fastforce
  qed
qed

lemma differs_cong: "h' (snd op) = h (snd op) \<Longrightarrow> differs mem h' op = differs mem h op \<and> blocked mem h' op = blocked mem h op \<and> sized h' op = sized h op"
  by (simp add: differs_def blocked_def sized_def)

lemma copied_same:
  assumes "owners_ok h' as'" "op \<in> set (inorder (as_objects as'))" "h' (snd op) = h (snd op)" "\<not> differs mem h op"
  shows "copied_in mem key h h' as' op"
proof -
  have "it_lookup mo_key (mo_key op) (as_objects as') = Some op" using itree.lookup_iff [of mo_key "as_objects as'"] assms(1,2) by (auto simp: owners_ok_def)
  moreover obtain os where "h' (snd op) = Some os" using assms(1,2) by (fastforce simp: owners_ok_def refs_of_def)
  ultimately show ?thesis unfolding copied_in_def using assms(3,4) by simp
qed

lemma copied_earlier:
  assumes "copied_in mem key h1 h' as' x" "h1 (snd x) = h (snd x)" "\<And>r. h1 r = None \<Longrightarrow> h r = None"
  shows "copied_in mem key h h' as' x"
proof -
  have d: "differs mem h1 x = differs mem h x" using differs_cong [of h1 x h mem] assms(2) by blast
  obtain r' os where "it_lookup mo_key (mo_key x) (as_objects as') = Some (fst x, r')" "h1 (snd x) = Some os"
      "if differs mem h x
       then h' r' = Some (os\<lparr>copyOnWriteOwner := key, concreteStore := read_bytes_at (mo_address (fst x)) (mo_size (fst x)) mem\<rparr>) \<and>
         (if copyOnWriteOwner os = key then r' = snd x else h1 r' = None)
       else r' = snd x \<and> h' r' = Some os"
    using assms(1) d by (auto simp: copied_in_def)
  then show ?thesis unfolding copied_in_def using assms(2,3) by (intro exI [of _ r'] exI [of _ os]) (auto split: if_splits)
qed

lemma copied_keep:
  assumes "copied_in mem key h h1 as1 op" "owners_ok h1 as1" "owners_ok h' as'" "(fst op, r1) \<in> set (inorder (as_objects as1))"
    "(fst op, r1) \<in> set (inorder (as_objects as'))" "h' r1 = h1 r1"
  shows "copied_in mem key h h' as' op"
proof -
  have l: "it_lookup mo_key (mo_key op) (as_objects as1) = Some (fst op, r1)" "it_lookup mo_key (mo_key op) (as_objects as') = Some (fst op, r1)"
    using assms(2-5) itree.lookup_iff [of mo_key "as_objects as1"] itree.lookup_iff [of mo_key "as_objects as'"] by (auto simp: owners_ok_def mo_key_def)
  then show ?thesis using assms(1,6) unfolding copied_in_def by auto
qed

lemma bound_key:
  assumes "owners_ok h as" "x \<in> set (inorder (as_objects as))" "y \<in> set (inorder (as_objects as))" "mo_key x = mo_key y"
  shows "x = y"
  using inj_onD [OF ascending_inj, of mo_key "inorder (as_objects as)" x y] assms by (auto simp: owners_ok_def itree_ok_def)

lemma copyIn_step:
  assumes as: "owners_ok h as" "finite (dom h)" and fresh: "fresh_ref fresh"
    and op: "(mo, r) \<in> set (inorder (as_objects as))" "sized h (mo, r)" "\<not> blocked mem h (mo, r)"
  obtains r1 as1 h1 where "copyIn_loop fresh mem ((mo, r) # ops) (as, h) = copyIn_loop fresh mem ops (as1, h1)" "owners_ok h1 as1" "finite (dom h1)"
    "cowKey as1 = cowKey as" "untouched (cowKey as) h h1" "set (inorder (as_objects as1)) = {(mo, r1)} \<union> {y \<in> set (inorder (as_objects as)). mo_key y \<noteq> mo_address mo}"
    "\<forall>y\<in>set (inorder (as_objects as)). mo_key y \<noteq> mo_address mo \<longrightarrow> h1 (snd y) = h (snd y)"
    "\<forall>as' h'. owners_ok h' as' \<longrightarrow> (mo, r1) \<in> set (inorder (as_objects as')) \<longrightarrow> h' r1 = h1 r1 \<longrightarrow> copied_in mem (cowKey as) h h' as' (mo, r)"
proof (cases "differs mem h (mo, r)")
  case True
  obtain r' as' h' where c: "copyInConcrete fresh mem mo r (mo_address mo) (as, h) = Some (True, as', h')" "owners_ok h' as'" "finite (dom h')"
      "cowKey as' = cowKey as" "untouched (cowKey as) h h'" "copied_in mem (cowKey as) h h' as' (mo, r)" "set (inorder (as_objects as')) = {(mo, r')} \<union> {y \<in> set (inorder (as_objects as)). mo_key y \<noteq> mo_address mo}"
      "\<forall>y\<in>set (inorder (as_objects as)). mo_key y \<noteq> mo_address mo \<longrightarrow> h' (snd y) = h (snd y)"
    using copyIn_object [OF as(1) fresh as(2) op(1,2) True op(3)] by blast
  have keep: "copied_in mem (cowKey as) h h2 as2 (mo, r)" if "owners_ok h2 as2" "(mo, r') \<in> set (inorder (as_objects as2))" "h2 r' = h' r'" for as2 h2
    using copied_keep [OF c(6,2) that(1), of r'] that(2,3) c(7) by simp
  have "copyIn_loop fresh mem ((mo, r) # ops) (as, h) = copyIn_loop fresh mem ops (as', h')" using True c(1) by (simp add: differs_def)
  from that [OF this c(2,3,4,5,7,8)] keep show thesis by blast
next
  case False
  have "y = (mo, r)" if "y \<in> set (inorder (as_objects as))" "mo_key y = mo_address mo" for y
    using bound_key [OF as(1) that(1) op(1)] that(2) by (simp add: mo_key_def)
  then have u: "set (inorder (as_objects as)) = {(mo, r)} \<union> {y \<in> set (inorder (as_objects as)). mo_key y \<noteq> mo_address mo}" using op(1) by auto
  have s: "copyIn_loop fresh mem ((mo, r) # ops) (as, h) = copyIn_loop fresh mem ops (as, h)"
    using False op(2) by (auto simp: copyInConcrete_def differs_def sized_def Let_def)
  have keep: "copied_in mem (cowKey as) h h' as' (mo, r)" if "owners_ok h' as'" "(mo, r) \<in> set (inorder (as_objects as'))" "h' r = h r" for as' h'
    using copied_same [OF that(1,2) _ False] that(3) by simp
  show thesis using that [OF s as refl untouched_refl u] keep by blast
qed

text \<open>The loop over the rest of the objects; it ends at the first read-only object that differs.\<close>

lemma copyIn_loop_ok:
  assumes "owners_ok h as" "finite (dom h)" "set ops \<subseteq> set (inorder (as_objects as))" "\<forall>op\<in>set ops. sized h op" "distinct (map mo_key ops)"
    and fresh: "fresh_ref fresh"
  shows "\<exists>as' h'. copyIn_loop fresh mem ops (as, h) = Some (\<forall>op\<in>set ops. \<not> blocked mem h op, as', h') \<and> owners_ok h' as' \<and> cowKey as' = cowKey as \<and> untouched (cowKey as) h h' \<and>
    ((\<forall>op\<in>set ops. \<not> blocked mem h op) \<longrightarrow> (\<forall>op\<in>set (inorder (as_objects as)). if op \<in> set ops then copied_in mem (cowKey as) h h' as' op
       else op \<in> set (inorder (as_objects as')) \<and> h' (snd op) = h (snd op)))"
  using assms(1-5)
proof (induction ops arbitrary: as h)
  case Nil
  then show ?case by auto
next
  case (Cons op ops)
  obtain mo r where op: "op = (mo, r)" by (cases op) auto
  show ?case
  proof (cases "blocked mem h op")
    case True
    then have "copyIn_loop fresh mem (op # ops) (as, h) = Some (False, as, h)"
      using Cons.prems(4) by (auto simp: op copyInConcrete_def blocked_def differs_def sized_def Let_def)
    then show ?thesis using Cons.prems(1) True by auto
  next
    case nb: False
    have opin: "(mo, r) \<in> set (inorder (as_objects as))" "sized h (mo, r)" using Cons.prems(3,4) op by auto
    obtain r1 as1 h1 where s: "copyIn_loop fresh mem ((mo, r) # ops) (as, h) = copyIn_loop fresh mem ops (as1, h1)" "owners_ok h1 as1" "finite (dom h1)"
        "cowKey as1 = cowKey as" "untouched (cowKey as) h h1" "set (inorder (as_objects as1)) = {(mo, r1)} \<union> {y \<in> set (inorder (as_objects as)). mo_key y \<noteq> mo_address mo}"
        "\<forall>y\<in>set (inorder (as_objects as)). mo_key y \<noteq> mo_address mo \<longrightarrow> h1 (snd y) = h (snd y)"
        "\<forall>as' h'. owners_ok h' as' \<longrightarrow> (mo, r1) \<in> set (inorder (as_objects as')) \<longrightarrow> h' r1 = h1 r1 \<longrightarrow> copied_in mem (cowKey as) h h' as' (mo, r)"
      by (rule copyIn_step [OF Cons.prems(1,2) fresh opin nb [unfolded op], where ops = ops])
    have other: "mo_key y \<noteq> mo_address mo" if "y \<in> set ops" for y using Cons.prems(5) that by (auto simp: op image_iff mo_key_def)
    have same: "h1 (snd y) = h (snd y)" if "y \<in> set ops" for y using s(7) other [OF that] Cons.prems(3) that by auto
    have bl: "blocked mem h1 y = blocked mem h y" "sized h1 y = sized h y" if "y \<in> set ops" for y using differs_cong [of h1 y h mem] same [OF that] by blast+
    have sub: "set ops \<subseteq> set (inorder (as_objects as1))" using s(6) other Cons.prems(3) by auto
    obtain as' h' where l: "copyIn_loop fresh mem ops (as1, h1) = Some (\<forall>op\<in>set ops. \<not> blocked mem h1 op, as', h')" "owners_ok h' as'" "cowKey as' = cowKey as1"
        "untouched (cowKey as1) h1 h'"
        "\<forall>op\<in>set ops. \<not> blocked mem h1 op \<Longrightarrow> \<forall>op\<in>set (inorder (as_objects as1)). if op \<in> set ops then copied_in mem (cowKey as1) h1 h' as' op
          else op \<in> set (inorder (as_objects as')) \<and> h' (snd op) = h1 (snd op)"
      using Cons.IH [OF s(2,3) sub] Cons.prems(4,5) bl(2) by auto
    have un: "untouched (cowKey as) h h'" using untouched_trans [OF s(5)] l(4) s(4) by simp
    have all: "(\<forall>y\<in>set ops. \<not> blocked mem h1 y) = (\<forall>y\<in>set (op # ops). \<not> blocked mem h y)" using bl(1) nb by auto
    have "if x \<in> set (op # ops) then copied_in mem (cowKey as) h h' as' x else x \<in> set (inorder (as_objects as')) \<and> h' (snd x) = h (snd x)"
      if nob: "\<forall>y\<in>set (op # ops). \<not> blocked mem h y" and x: "x \<in> set (inorder (as_objects as))" for x
    proof (cases "mo_key x = mo_address mo")
      case True
      have xop: "x = op" using bound_key [OF Cons.prems(1) x opin(1)] True by (simp add: op mo_key_def)
      have "(mo, r1) \<notin> set ops" using other [of "(mo, r1)"] by (auto simp: mo_key_def)
      then have "(mo, r1) \<in> set (inorder (as_objects as')) \<and> h' r1 = h1 r1" using l(5) nob all s(6) by auto
      then show ?thesis using xop s(8) l(2) op by auto
    next
      case False
      then have x1: "x \<in> set (inorder (as_objects as1))" "h1 (snd x) = h (snd x)" using s(6,7) x by auto
      have "h r = None" if "h1 r = None" for r using that s(5) by (auto simp: untouched_def)
      then have "copied_in mem (cowKey as) h h' as' x" if "copied_in mem (cowKey as1) h1 h' as' x"
        using copied_earlier [OF that, of h] x1(2) s(4) by simp
      moreover have "x \<noteq> op" using False by (auto simp: op mo_key_def)
      ultimately show ?thesis using l(5) nob all x1 by (auto split: if_splits)
    qed
    then show ?thesis using l(1,2,3) s(1,4) all op un by auto
  qed
qed

lemma copyIn_loop_stops:
  assumes "\<forall>op\<in>set ops. sized h op \<and> (differs mem h op \<longrightarrow> blocked mem h op)"
  shows "copyIn_loop fresh mem ops (as, h) = Some (\<forall>op\<in>set ops. \<not> blocked mem h op, as, h)"
  using assms
proof (induction ops)
  case (Cons op ops)
  then show ?case by (cases op) (auto simp: copyInConcrete_def differs_def blocked_def sized_def Let_def)
qed simp

subsection \<open>Properties\<close>

text \<open>
  C19. What external functions find in memory, and what happens when they change nothing: \<open>copyOutConcretes\<close> returns,
  puts the concrete bytes of exactly the objects that are neither user-specified nor read-only at their addresses, and
  leaves the bytes of the other objects and every byte outside the objects; \<open>copyInConcretes\<close> of that memory leaves the
  address space, the sharing and every object as they are, and returns true exactly when the read-only objects that
  are not user-specified had their bytes in memory before. Objects do not overlap.
\<close>

theorem external_memory_roundtrip:
  assumes "space_ok as" "list_all (sized h) (inorder (as_objects as))"
  shows "\<exists>mem'. copyOutConcretes as h mem = Some mem' \<and>
     (\<forall>x. (\<forall>op\<in>set (inorder (as_objects as)). \<not> covers (fst op) x) \<longrightarrow> mem' x = mem x) \<and>
     (\<forall>op\<in>set (inorder (as_objects as)). \<forall>os. h (snd op) = Some os \<longrightarrow>
        read_bytes_at (mo_address (fst op)) (mo_size (fst op)) mem' =
          (if mo_isUserSpecified (fst op) \<or> os_readOnly os then read_bytes_at (mo_address (fst op)) (mo_size (fst op)) mem else concreteStore os)) \<and>
     copyInConcretes fresh mem' (as, h) =
       Some (\<forall>op\<in>set (inorder (as_objects as)). \<forall>os. h (snd op) = Some os \<and> os_readOnly os \<and> \<not> mo_isUserSpecified (fst op) \<longrightarrow>
         read_bytes_at (mo_address (fst op)) (mo_size (fst op)) mem = concreteStore os, as, h)"
proof -
  let ?ops = "inorder (as_objects as)"
  have ok: "itree_ok mo_key (as_objects as)" using assms(1) by (simp add: space_ok_def)
  obtain mem' where mem': "copyOutConcretes as h mem = Some mem'" "\<forall>x. (\<forall>op\<in>set ?ops. \<not> covers (fst op) x) \<longrightarrow> mem' x = mem x"
      "\<forall>op\<in>set ?ops. \<forall>os. h (snd op) = Some os \<longrightarrow> read_bytes_at (mo_address (fst op)) (mo_size (fst op)) mem' =
        (if mo_isUserSpecified (fst op) \<or> os_readOnly os then read_bytes_at (mo_address (fst op)) (mo_size (fst op)) mem else concreteStore os)"
    using copyOut_ok [OF assms, of mem] by blast
  have op: "differs mem' h op \<longrightarrow> blocked mem' h op"
      "\<not> blocked mem' h op \<longleftrightarrow> (\<forall>os. h (snd op) = Some os \<and> os_readOnly os \<and> \<not> mo_isUserSpecified (fst op) \<longrightarrow>
         read_bytes_at (mo_address (fst op)) (mo_size (fst op)) mem = concreteStore os)" if op: "op \<in> set ?ops" for op
  proof -
    obtain os where "h (snd op) = Some os" using assms(2) op by (auto simp: list_all_iff sized_def)
    then show "differs mem' h op \<longrightarrow> blocked mem' h op"
        "\<not> blocked mem' h op \<longleftrightarrow> (\<forall>os. h (snd op) = Some os \<and> os_readOnly os \<and> \<not> mo_isUserSpecified (fst op) \<longrightarrow>
         read_bytes_at (mo_address (fst op)) (mo_size (fst op)) mem = concreteStore os)"
      using mem'(3) op by (auto simp: differs_def blocked_def)
  qed
  have "copyIn_loop fresh mem' ?ops (as, h) = Some (\<forall>op\<in>set ?ops. \<not> blocked mem' h op, as, h)"
    using assms(2) op(1) by (intro copyIn_loop_stops) (simp add: list_all_iff)
  then have "copyInConcretes fresh mem' (as, h) = Some (\<forall>op\<in>set ?ops. \<not> blocked mem' h op, as, h)"
    using space_objects_ok [OF ok] by (simp add: copyInConcretes_def)
  then show ?thesis using mem' op(2) by auto
qed

text \<open>
  C20. What \<open>copyInConcretes\<close> does after an external function has run: it returns, and returns false exactly when a
  read-only object that is not user-specified was modified; otherwise the address space has every object that it
  had: an object that differs from the memory has the bytes of the memory, the caches of symbolic bytes as they were,
  and belongs to the space, in a copy at a new place where the space shared it; the others are the same objects. In
  every case the objects that the space does not own, which other states may share, are left as they were.
\<close>

theorem copyIn_exact:
  assumes "owners_ok h as" "list_all (sized h) (inorder (as_objects as))" "finite (dom h)" "fresh_ref fresh"
  shows "\<exists>ok as' h'. copyInConcretes fresh mem (as, h) = Some (ok, as', h') \<and>
     (ok \<longleftrightarrow> (\<forall>op\<in>set (inorder (as_objects as)). \<not> blocked mem h op)) \<and>
     (ok \<longrightarrow> (\<forall>op\<in>set (inorder (as_objects as)). copied_in mem (cowKey as) h h' as' op)) \<and>
     owners_ok h' as' \<and> cowKey as' = cowKey as \<and> untouched (cowKey as) h h'"
proof -
  have t: "itree_ok mo_key (as_objects as)" using assms(1) by (simp add: owners_ok_def)
  then have "distinct (map mo_key (inorder (as_objects as)))"
    using ascending_distinct [of id "map mo_key (inorder (as_objects as))"] by (simp add: itree_ok_def ascending_def sorted_wrt_map)
  then show ?thesis
    using copyIn_loop_ok [OF assms(1,3) subset_refl _ _ assms(4), of mem] assms(2) space_objects_ok [OF t]
    by (auto simp: copyInConcretes_def list_all_iff)
qed

text \<open>A space with one object of four zero bytes, which it owns.\<close>

definition owner_space :: address_space where
  "owner_space = \<lparr>cowKey = 1, as_objects = near_tree\<rparr>"

definition owner_heap :: object_heap where
  "owner_heap = [0 \<mapsto> zero_object\<lparr>copyOnWriteOwner := 1\<rparr>]"

lemma near_tree_objects: "inorder near_tree = [near_object]" "itree_ok mo_key near_tree"
  unfolding near_tree_def by (simp_all add: itree.good_insert itree.good_empty it_node_def) (simp add: itree_ok_def ascending_def)

lemma owner_ok:
  "space_ok owner_space" "list_all (sized owner_heap) (inorder (as_objects owner_space))" "owners_ok owner_heap owner_space" "finite (dom owner_heap)"
  by (simp_all add: space_ok_def owners_ok_def refs_of_def sized_def owner_space_def owner_heap_def near_tree_objects near_object_def mo_ok_def extent_def
      zero_object_def new_concrete_def)

text \<open>The same space with an object that an earlier fork shares, and two more objects: a read-only one and a user-specified one.\<close>

definition shared_heap :: object_heap where
  "shared_heap = [0 \<mapsto> zero_object]"

definition mixed_space :: address_space where
  "mixed_space = owner_space\<lparr>as_objects := fold (it_insert mo_key)
     [near_object, (\<lparr>mo_id = 1, mo_address = 32, mo_size = 4, mo_isUserSpecified = False\<rparr>, 1),
      (\<lparr>mo_id = 2, mo_address = 48, mo_size = 4, mo_isUserSpecified = True\<rparr>, 2)] Terminator\<rparr>"

definition mixed_heap :: object_heap where
  "mixed_heap = [0 \<mapsto> zero_object, 1 \<mapsto> zero_object\<lparr>os_readOnly := True\<rparr>, 2 \<mapsto> zero_object]"

lemma mixed_objects: "inorder (as_objects mixed_space) = [near_object, (\<lparr>mo_id = 1, mo_address = 32, mo_size = 4, mo_isUserSpecified = False\<rparr>, 1),
    (\<lparr>mo_id = 2, mo_address = 48, mo_size = 4, mo_isUserSpecified = True\<rparr>, 2)]"
  by (simp add: mixed_space_def near_object_def mo_key_def it_node_def balance_def)

lemma mixed_ok: "space_ok mixed_space" "list_all (sized mixed_heap) (inorder (as_objects mixed_space))"
proof -
  have "itree_ok mo_key (as_objects mixed_space)"
    by (simp add: mixed_space_def itree.good_insert itree.good_empty del: it_insert.simps)
  then show "space_ok mixed_space" by (simp add: space_ok_def mixed_objects mo_ok_def extent_def near_object_def mo_key_def)
  show "list_all (sized mixed_heap) (inorder (as_objects mixed_space))"
    by (simp add: mixed_objects sized_def mixed_heap_def near_object_def zero_object_def new_concrete_def)
qed

theorem external_memory_roundtrip_witness:
  "\<exists>mem'. copyOutConcretes mixed_space mixed_heap (\<lambda>_. 9) = Some mem' \<and> mem' 100 = 9 \<and> read_bytes_at 16 4 mem' = [0, 0, 0, 0] \<and>
     read_bytes_at 32 4 mem' = [9, 9, 9, 9] \<and> read_bytes_at 48 4 mem' = [9, 9, 9, 9] \<and>
     copyInConcretes (\<lambda>_. 0) mem' (mixed_space, mixed_heap) = Some (False, mixed_space, mixed_heap)"
proof -
  have "\<not> covers mo 100" if "mo \<in> fst ` set (inorder (as_objects mixed_space))" for mo
    using that by (auto simp: covers_def mixed_objects near_object_def)
  moreover have "concreteStore zero_object = [0, 0, 0, 0]" by (simp add: zero_object_def new_concrete_def numeral_eq_Suc)
  moreover have "os_readOnly zero_object = False" by (simp add: zero_object_def new_concrete_def)
  moreover have "read_bytes_at a 4 (\<lambda>_. 9) = [9, 9, 9, 9]" for a by (simp add: read_bytes_at_def numeral_eq_Suc)
  ultimately show ?thesis
    using external_memory_roundtrip [OF mixed_ok, of "\<lambda>_. 9" "\<lambda>_. 0"]
    by (auto simp: mixed_objects mixed_heap_def near_object_def)
qed

definition least_free :: "object_heap \<Rightarrow> object_ref" where
  "least_free h = (LEAST r. h r = None)"

lemma least_free_ok: "fresh_ref least_free"
proof -
  have "h (least_free h) = None" if fin: "finite (dom h)" for h :: object_heap
  proof -
    obtain r where "r \<notin> dom h" using ex_new_if_finite [OF infinite_UNIV_nat fin] by blast
    then have "h r = None" by auto
    then show ?thesis unfolding least_free_def by (rule LeastI)
  qed
  then show ?thesis by (simp add: fresh_ref_def)
qed

lemma shared_ok: "owners_ok shared_heap owner_space" "list_all (sized shared_heap) (inorder (as_objects owner_space))" "finite (dom shared_heap)"
  by (simp_all add: owners_ok_def refs_of_def sized_def owner_space_def shared_heap_def near_tree_objects near_object_def zero_object_def new_concrete_def)

theorem copyIn_exact_witness:
  "\<exists>as' h' r. copyInConcretes least_free (\<lambda>_. 7) (owner_space, shared_heap) = Some (True, as', h') \<and>
     it_lookup mo_key 16 (as_objects as') = Some (fst near_object, r) \<and> r \<noteq> 0 \<and> h' 0 = Some zero_object \<and>
     h' r = Some (zero_object\<lparr>copyOnWriteOwner := 1, concreteStore := [7, 7, 7, 7]\<rparr>)"
proof -
  have b: "read_bytes_at 16 4 (\<lambda>_. 7) = [7, 7, 7, 7]" "concreteStore zero_object = [0, 0, 0, 0]" "copyOnWriteOwner zero_object = 0" "\<not> os_readOnly zero_object"
    by (simp_all add: read_bytes_at_def numeral_eq_Suc zero_object_def new_concrete_def)
  then have d: "\<not> blocked (\<lambda>_. 7) shared_heap near_object" "differs (\<lambda>_. 7) shared_heap near_object"
    by (simp_all add: blocked_def differs_def shared_heap_def near_object_def)
  obtain as' h' where c: "copyInConcretes least_free (\<lambda>_. 7) (owner_space, shared_heap) = Some (True, as', h')"
      "copied_in (\<lambda>_. 7) (cowKey owner_space) shared_heap h' as' near_object" "untouched (cowKey owner_space) shared_heap h'"
    using copyIn_exact [OF shared_ok least_free_ok, of "\<lambda>_. 7"] d(1) by (auto simp: owner_space_def near_tree_objects)
  then show ?thesis using b d(2)
    by (auto simp: copied_in_def untouched_def owner_space_def shared_heap_def near_object_def mo_key_def split: if_splits)
qed

text \<open>The object after a read at a symbolic offset: its bytes are in the array of the updates.\<close>

definition flushed_object :: object_state where
  "flushed_object = zero_object\<lparr>unflushedMask := Some (replicate 4 False), upd_root := Some (const_array (1, ''c'') [0, 0, 0, 0])\<rparr>"

lemma flushed_read: "map_option snd (read_expr False True (1, ''c'') (ZExtExpr sample_read 32) 8 zero_object) = Some flushed_object"
  by code_simp

definition stale_object :: object_state where
  "stale_object = flushed_object\<lparr>copyOnWriteOwner := 1, concreteStore := replicate 4 7\<rparr>"

lemma stale_reads:
  "read_const False True (2, ''d'') 1 8 stale_object = Some (ConstantExpr 8 7, stale_object)"
  "map_option (eval sample_env \<circ> fst) (read_expr False True (2, ''d'') (ZExtExpr sample_read 32) 8 stale_object) = Some 0"
proof -
  show "read_const False True (2, ''d'') 1 8 stale_object = Some (ConstantExpr 8 7, stale_object)"
    by (simp add: One_nat_def stale_object_def read_const_def read_width_def read8_def byte_index_def flushed_object_def zero_object_def new_concrete_def isByteConcrete_def)
  show "map_option (eval sample_env \<circ> fst) (read_expr False True (2, ''d'') (ZExtExpr sample_read 32) 8 stale_object) = Some 0"
    by code_simp
qed

lemma stale_copyIn:
  "copyInConcretes fresh (\<lambda>_. 7) (owner_space, [0 \<mapsto> flushed_object\<lparr>copyOnWriteOwner := 1\<rparr>]) = Some (True, owner_space, [0 \<mapsto> stale_object])"
proof -
  have objects: "space_objects owner_space = Some [near_object]"
    using space_objects_ok [of owner_space] by (simp add: owner_space_def near_tree_objects)
  have key: "cowKey owner_space = 1" by (simp add: owner_space_def)
  have fields: "concreteStore flushed_object = replicate 4 0" "\<not> os_readOnly flushed_object"
    by (simp_all add: flushed_object_def zero_object_def new_concrete_def)
  have "read_bytes_at 16 4 (\<lambda>_. 7) = replicate 4 7" by (simp add: read_bytes_at_def map_replicate_const)
  moreover have "replicate 4 7 \<noteq> replicate 4 (0 :: 8 word)" using nth_replicate [of 0 4 "7 :: 8 word"] nth_replicate [of 0 4 "0 :: 8 word"] by auto
  ultimately show ?thesis
    by (simp add: copyInConcretes_def objects near_object_def copyInConcrete_def getWriteable_def key stale_object_def fields Let_def)
qed

text \<open>
  C37. \<open>copyInConcrete\<close> overwrites the concrete bytes of an object but not its updates: bytes that a read at a symbolic
  offset has flushed stay marked as flushed. After an external function has changed them, a read at a constant
  offset returns the new byte, a read at a symbolic offset of the same value returns the old one.
\<close>

theorem copyIn_leaves_updates:
  "\<exists>e1 os1 os2 e2 os3. read_expr False True (1, ''c'') (ZExtExpr sample_read 32) 8 zero_object = Some (e1, os1) \<and>
     copyInConcretes fresh (\<lambda>_. 7) (owner_space, [0 \<mapsto> os1\<lparr>copyOnWriteOwner := 1\<rparr>]) = Some (True, owner_space, [0 \<mapsto> os2]) \<and>
     eval sample_env (ZExtExpr sample_read 32) = 1 \<and>
     read_const False True (2, ''d'') 1 8 os2 = Some (ConstantExpr 8 7, os2) \<and>
     read_expr False True (2, ''d'') (ZExtExpr sample_read 32) 8 os2 = Some (e2, os3) \<and> eval sample_env e2 = 0"
proof -
  obtain e1 where e1: "read_expr False True (1, ''c'') (ZExtExpr sample_read 32) 8 zero_object = Some (e1, flushed_object)" using flushed_read by auto
  obtain e2 os3 where e2: "read_expr False True (2, ''d'') (ZExtExpr sample_read 32) 8 stale_object = Some (e2, os3)" "eval sample_env e2 = 0"
    using stale_reads(2) by auto
  have "eval sample_env (ZExtExpr sample_read 32) = 1" by (simp add: sample_read_def sample_array_def sample_env_def initial_value_def isSymbolicArray_def)
  then show ?thesis using e1 e2 stale_reads(1) stale_copyIn by blast
qed

end
