(* ===== verification/StateMerge.thy ===== *)
theory StateMerge
  imports ExternalMemory ExprCompare
begin

declare One_nat_def [simp del]

section \<open>Merging of states\<close>

text \<open>
  \<open>ExecutionState::merge\<close> (\<open>klee/lib/Core/ExecutionState.cpp\<close>): two states at the same instruction become one, whose
  registers and bytes select between the values of the two by the constraints that only the first one has.
  \<open>ConstraintManager::addConstraint\<close> is the argument \<open>add\<close>. Output for debugging is left out.
\<close>

record stack_frame =
  sf_caller :: nat
  sf_kf :: nat
  sf_locals :: "expr option list"

record merge_state =
  ms_pc :: nat
  ms_symbolics :: "(memory_object \<times> array) list"
  ms_stack :: "stack_frame list"
  ms_constraints :: "expr list"
  ms_space :: address_space

text \<open>\<open>std::set\<close>s of expressions, ordered by \<open>Expr::compare\<close>.\<close>

fun set_insert :: "(width \<Rightarrow> int \<Rightarrow> u32) \<Rightarrow> expr \<Rightarrow> expr list \<Rightarrow> expr list" where
  "set_insert wide x [] = [x]"
| "set_insert wide x (y # ys) =
     (if expr_compare wide x y < 0 then x # y # ys
      else if expr_compare wide x y = 0 then y # ys else y # set_insert wide x ys)"

definition expr_set :: "(width \<Rightarrow> int \<Rightarrow> u32) \<Rightarrow> expr list \<Rightarrow> expr list" where
  "expr_set wide xs = fold (set_insert wide) xs []"

definition in_set :: "(width \<Rightarrow> int \<Rightarrow> u32) \<Rightarrow> expr list \<Rightarrow> expr \<Rightarrow> bool" where
  "in_set wide ys x = list_ex (\<lambda>y. expr_compare wide x y = 0) ys"

definition set_intersection :: "(width \<Rightarrow> int \<Rightarrow> u32) \<Rightarrow> expr list \<Rightarrow> expr list \<Rightarrow> expr list" where
  "set_intersection wide xs ys = filter (in_set wide ys) xs"

definition set_difference :: "(width \<Rightarrow> int \<Rightarrow> u32) \<Rightarrow> expr list \<Rightarrow> expr list \<Rightarrow> expr list" where
  "set_difference wide xs ys = filter (\<lambda>x. \<not> in_set wide ys x) xs"

definition same_stack :: "stack_frame list \<Rightarrow> stack_frame list \<Rightarrow> bool" where
  "same_stack a b = list_all2 (\<lambda>f g. sf_caller f = sf_caller g \<and> sf_kf f = sf_kf g) a b"

text \<open>The bindings of both spaces in the order of addresses: \<open>None\<close> when they differ, otherwise the objects with other contents.\<close>

fun mutated_objects :: "object_pair list \<Rightarrow> object_pair list \<Rightarrow> memory_object list option" where
  "mutated_objects [] [] = Some []"
| "mutated_objects (a # as) (b # bs) =
     (if fst a \<noteq> fst b then None
      else map_option (\<lambda>ms. if snd a \<noteq> snd b then fst a # ms else ms) (mutated_objects as bs))"
| "mutated_objects _ _ = None"

definition conjunction :: "expr list \<Rightarrow> expr option" where
  "conjunction suffix = foldM (\<lambda>e acc. AndExpr_create acc e) suffix (ConstantExpr 1 1)"

definition merge_register :: "bool \<Rightarrow> expr \<Rightarrow> expr option \<Rightarrow> expr option \<Rightarrow> expr option option" where
  "merge_register cao inA av bv =
     (case (av, bv) of (Some a, Some b) \<Rightarrow> map_option Some (SelectExpr_create cao inA a b) | _ \<Rightarrow> Some av)"

fun merge_registers :: "bool \<Rightarrow> expr \<Rightarrow> nat \<Rightarrow> expr option list \<Rightarrow> expr option list \<Rightarrow> expr option list option" where
  "merge_registers cao inA 0 as bs = Some as"
| "merge_registers cao inA (Suc n) (a # as) (b # bs) = do {
     x \<leftarrow> merge_register cao inA a b;
     xs \<leftarrow> merge_registers cao inA n as bs;
     Some (x # xs) }"
| "merge_registers cao inA (Suc n) _ _ = None"

fun merge_frames :: "bool \<Rightarrow> (nat \<Rightarrow> nat) \<Rightarrow> expr \<Rightarrow> stack_frame list \<Rightarrow> stack_frame list \<Rightarrow> stack_frame list option" where
  "merge_frames cao numRegisters inA [] bs = Some []"
| "merge_frames cao numRegisters inA (a # as) (b # bs) = do {
     l \<leftarrow> merge_registers cao inA (numRegisters (sf_kf a)) (sf_locals a) (sf_locals b);
     fs \<leftarrow> merge_frames cao numRegisters inA as bs;
     Some (a\<lparr>sf_locals := l\<rparr> # fs) }"
| "merge_frames cao numRegisters inA (a # as) [] = None"

text \<open>One byte: both are read, and the selection is written to the object of the first state.\<close>

definition merge_byte :: "bool \<Rightarrow> bool \<Rightarrow> nat \<times> string \<Rightarrow> nat \<times> string \<Rightarrow> expr \<Rightarrow> nat \<Rightarrow> object_state \<times> object_state \<Rightarrow>
    (object_state \<times> object_state) option" where
  "merge_byte cao le newA newB inA i = (\<lambda>(wos, otherOS). do {
     (av, wos1) \<leftarrow> read8 cao newA i wos;
     (bv, other1) \<leftarrow> read8 cao newB i otherOS;
     e \<leftarrow> SelectExpr_create cao inA av bv;
     wos2 \<leftarrow> write_const le i e wos1;
     Some (wos2, other1) })"

text \<open>
  One object. \<open>fresh\<close> chooses the place of a copy; \<open>newA\<close> and \<open>newB\<close> name the constant arrays that reading can make
  of the two objects.
\<close>

definition merge_object :: "bool \<Rightarrow> bool \<Rightarrow> (object_heap \<Rightarrow> object_ref) \<Rightarrow> (memory_object \<Rightarrow> nat \<times> string) \<Rightarrow> (memory_object \<Rightarrow> nat \<times> string) \<Rightarrow>
    expr \<Rightarrow> address_space \<Rightarrow> memory_object \<Rightarrow> address_space \<times> object_heap \<Rightarrow> (address_space \<times> object_heap) option" where
  "merge_object cao le fresh newA newB inA bs mo = (\<lambda>(as, h). do {
     r \<leftarrow> findObject mo as;
     os \<leftarrow> h r;
     if os_readOnly os then None
     else do {
       rb \<leftarrow> findObject mo bs;
       (r', as', h1) \<leftarrow> getWriteable (fresh h) mo r as h;
       wos \<leftarrow> h1 r';
       otherOS \<leftarrow> h1 rb;
       (wos', other') \<leftarrow> foldM (merge_byte cao le (newA mo) (newB mo) inA) [0..<mo_size mo] (wos, otherOS);
       Some (as', h1(r' \<mapsto> wos', rb \<mapsto> other')) } })"

text \<open>
  The whole function, with whether it merges. \<open>by_pointer\<close> is the order of the set of mutated objects.
\<close>

definition merge_states ::
    "bool \<Rightarrow> bool \<Rightarrow> (width \<Rightarrow> int \<Rightarrow> u32) \<Rightarrow> (nat \<Rightarrow> nat) \<Rightarrow> (expr list \<Rightarrow> expr \<Rightarrow> expr list option) \<Rightarrow>
     (object_heap \<Rightarrow> object_ref) \<Rightarrow> (memory_object \<Rightarrow> nat \<times> string) \<Rightarrow> (memory_object \<Rightarrow> nat \<times> string) \<Rightarrow> (memory_object list \<Rightarrow> memory_object list) \<Rightarrow>
     merge_state \<Rightarrow> merge_state \<Rightarrow> object_heap \<Rightarrow> (bool \<times> merge_state \<times> object_heap) option" where
  "merge_states cao le wide numRegisters add fresh newA newB by_pointer a b h =
     (if ms_pc a \<noteq> ms_pc b \<or> ms_symbolics a \<noteq> ms_symbolics b \<or> \<not> same_stack (ms_stack a) (ms_stack b) then Some (False, a, h)
      else do {
        let aConstraints = expr_set wide (ms_constraints a);
        let bConstraints = expr_set wide (ms_constraints b);
        let common = set_intersection wide aConstraints bConstraints;
        let aSuffix = set_difference wide aConstraints common;
        let bSuffix = set_difference wide bConstraints common;
        oa \<leftarrow> space_objects (ms_space a);
        ob \<leftarrow> space_objects (ms_space b);
        (case mutated_objects oa ob of
           None \<Rightarrow> Some (False, a, h)
         | Some mutated \<Rightarrow> do {
             inA \<leftarrow> conjunction aSuffix;
             inB \<leftarrow> conjunction bSuffix;
             stack \<leftarrow> merge_frames cao numRegisters inA (ms_stack a) (ms_stack b);
             (space, h') \<leftarrow> foldM (merge_object cao le fresh newA newB inA (ms_space b)) (by_pointer mutated) (ms_space a, h);
             cs \<leftarrow> foldM (\<lambda>c cs. add cs c) common [];
             either \<leftarrow> OrExpr_create inA inB;
             cs' \<leftarrow> add cs either;
             Some (True, a\<lparr>ms_stack := stack, ms_constraints := cs', ms_space := space\<rparr>, h') }) })"

subsection \<open>Sets of constraints\<close>

definition same_arrays :: "expr list \<Rightarrow> bool" where
  "same_arrays xs \<longleftrightarrow> inj_on array_ptr (\<Union>x\<in>set xs. arrays x)"

lemma compare_same:
  assumes "same_arrays xs" "x \<in> set xs" "y \<in> set xs"
  shows "expr_compare wide x y = 0 \<longleftrightarrow> x = y"
proof -
  have "inj_on array_ptr (arrays x \<union> arrays y)" using assms by (auto simp: same_arrays_def intro: inj_on_subset)
  then show ?thesis using compare_0(1) [of wide x y] compare_refl(1) [of x y wide] by blast
qed

lemma set_insert_set: "same_arrays (x # ys) \<Longrightarrow> set (set_insert wide x ys) = insert x (set ys)"
proof (induction ys)
  case (Cons y ys)
  then have "same_arrays (x # ys)" by (auto simp: same_arrays_def intro: inj_on_subset)
  then show ?case using Cons compare_same [OF Cons.prems, of x y wide] by auto
qed simp

lemma expr_set_set:
  assumes "same_arrays xs"
  shows "set (expr_set wide xs) = set xs"
proof -
  have "set (fold (set_insert wide) ys acc) = set ys \<union> set acc" if "same_arrays (ys @ acc)" for ys acc
    using that
  proof (induction ys arbitrary: acc)
    case (Cons y ys)
    then have "same_arrays (y # acc)" by (auto simp: same_arrays_def intro: inj_on_subset)
    then have s: "set (set_insert wide y acc) = insert y (set acc)" by (rule set_insert_set)
    then have "same_arrays (ys @ set_insert wide y acc)" using Cons.prems by (simp add: same_arrays_def)
    then show ?case using Cons.IH [of "set_insert wide y acc"] s by auto
  qed simp
  then show ?thesis using assms by (simp add: expr_set_def)
qed

lemma in_set_iff: "same_arrays (x # ys) \<Longrightarrow> in_set wide ys x \<longleftrightarrow> x \<in> set ys"
  using compare_same [of "x # ys" x _ wide] by (auto simp: in_set_def list_ex_iff)

lemma set_parts:
  assumes "same_arrays (xs @ ys)"
  shows "set (set_intersection wide xs ys) = set xs \<inter> set ys" "set (set_difference wide xs ys) = set xs - set ys"
proof -
  have "in_set wide ys x \<longleftrightarrow> x \<in> set ys" if "x \<in> set xs" for x
    using that assms by (intro in_set_iff) (auto simp: same_arrays_def intro: inj_on_subset)
  then show "set (set_intersection wide xs ys) = set xs \<inter> set ys" "set (set_difference wide xs ys) = set xs - set ys"
    by (auto simp: set_intersection_def set_difference_def)
qed

text \<open>Conjunctions of constraints.\<close>

definition truth_value :: "bool \<Rightarrow> expr \<Rightarrow> bool" where
  "truth_value cao e \<longleftrightarrow> typed cao e \<and> getWidth e = 1"

lemma truth_operations:
  assumes "truth_value cao l" "truth_value cao r"
  shows "\<exists>e. AndExpr_create l r = Some e \<and> truth_value cao e \<and> (\<forall>env. eval env e \<noteq> 0 \<longleftrightarrow> eval env l \<noteq> 0 \<and> eval env r \<noteq> 0)"
    "\<exists>e. OrExpr_create l r = Some e \<and> truth_value cao e \<and> (\<forall>env. eval env e \<noteq> 0 \<longleftrightarrow> eval env l \<noteq> 0 \<or> eval env r \<noteq> 0)"
proof -
  have o: "operands cao env l r" for env using assms by (auto simp: truth_value_def operands_def typed_def)
  have b: "eval env l = 0 \<or> eval env l = 1" "eval env r = 0 \<or> eval env r = 1" for env
    using typed_width [of cao l env] typed_width [of cao r env] assms by (auto simp: truth_value_def in_width_1)
  have "gives cao env 1 (of_bool (eval env l \<noteq> 0 \<and> eval env r \<noteq> 0)) (AndExpr_create l r)"
      "gives cao env 1 (of_bool (eval env l \<noteq> 0 \<or> eval env r \<noteq> 0)) (OrExpr_create l r)" for env
    using AndExpr_create_gives [OF o, of env] OrExpr_create_gives [OF o, of env] assms(1) b [of env]
    by (auto simp: truth_value_def gives_binary_def is_compare_def constant_binary_def)
  note g = this
  obtain a where "AndExpr_create l r = Some a" "typed cao a" "getWidth a = 1" "\<And>env. eval env a = of_bool (eval env l \<noteq> 0 \<and> eval env r \<noteq> 0)"
    using gives_all [OF g(1)] by blast
  then show "\<exists>e. AndExpr_create l r = Some e \<and> truth_value cao e \<and> (\<forall>env. eval env e \<noteq> 0 \<longleftrightarrow> eval env l \<noteq> 0 \<and> eval env r \<noteq> 0)"
    by (simp add: truth_value_def)
  obtain b where "OrExpr_create l r = Some b" "typed cao b" "getWidth b = 1" "\<And>env. eval env b = of_bool (eval env l \<noteq> 0 \<or> eval env r \<noteq> 0)"
    using gives_all [OF g(2)] by blast
  then show "\<exists>e. OrExpr_create l r = Some e \<and> truth_value cao e \<and> (\<forall>env. eval env e \<noteq> 0 \<longleftrightarrow> eval env l \<noteq> 0 \<or> eval env r \<noteq> 0)"
    by (simp add: truth_value_def)
qed

lemma conjunction_ok:
  assumes "\<forall>c\<in>set cs. truth_value cao c"
  obtains e where "conjunction cs = Some e" "truth_value cao e" "\<And>env. eval env e \<noteq> 0 \<longleftrightarrow> models env cs"
proof -
  have "\<exists>e. foldM (\<lambda>e acc. AndExpr_create acc e) cs acc = Some e \<and> truth_value cao e \<and> (\<forall>env. eval env e \<noteq> 0 \<longleftrightarrow> eval env acc \<noteq> 0 \<and> models env cs)"
    if "truth_value cao acc" for acc
    using assms that
  proof (induction cs arbitrary: acc)
    case Nil
    then show ?case by (simp add: models_def)
  next
    case (Cons c cs)
    obtain e where e: "AndExpr_create acc c = Some e" "truth_value cao e" "\<forall>env. eval env e \<noteq> 0 \<longleftrightarrow> eval env acc \<noteq> 0 \<and> eval env c \<noteq> 0"
      using truth_operations(1) [of cao acc c] Cons.prems by auto
    show ?case using Cons.IH [OF _ e(2)] Cons.prems(1) e(1,3) by (auto simp: models_def)
  qed
  from this [of "ConstantExpr 1 1"] show thesis using that by (auto simp: conjunction_def truth_value_def typed_def in_width_def)
qed

subsection \<open>Registers\<close>

text \<open>A register of both states has values of one width; where one has none, the register is not used.\<close>

definition register_ok :: "bool \<Rightarrow> assignment \<Rightarrow> expr option \<Rightarrow> expr option \<Rightarrow> bool" where
  "register_ok cao env a b \<longleftrightarrow> (\<forall>u v. a = Some u \<and> b = Some v \<longrightarrow> well_typed cao env u \<and> well_typed cao env v \<and> getWidth u = getWidth v)"

definition register_merged :: "bool \<Rightarrow> assignment \<Rightarrow> bool \<Rightarrow> expr option \<times> expr option \<Rightarrow> expr option \<Rightarrow> bool" where
  "register_merged cao env pick = (\<lambda>(a, b) x.
     case (a, b) of
       (Some u, Some v) \<Rightarrow> (\<exists>e. x = Some e \<and> well_typed cao env e \<and> getWidth e = getWidth u \<and> eval env e = (if pick then eval env u else eval env v))
     | _ \<Rightarrow> x = a)"

lemma select_value:
  assumes "truth_value cao inA" "well_typed cao env u" "well_typed cao env v" "getWidth u = getWidth v"
  obtains e where "SelectExpr_create cao inA u v = Some e" "well_typed cao env e" "getWidth e = getWidth u"
    "eval env e = (if eval env inA \<noteq> 0 then eval env u else eval env v)"
proof -
  have "well_typed cao env (SelectExpr inA u v)" using assms by (auto simp: truth_value_def typed_def)
  from SelectExpr_create_gives [OF this] show thesis using that by (auto simp: gives_def)
qed

lemma merge_register_ok:
  assumes "truth_value cao inA" "register_ok cao env a b"
  shows "\<exists>x. merge_register cao inA a b = Some x \<and> register_merged cao env (eval env inA \<noteq> 0) (a, b) x"
proof (cases "a = None \<or> b = None")
  case True
  then show ?thesis by (auto simp: merge_register_def register_merged_def split: option.splits)
next
  case False
  then obtain u v where uv: "a = Some u" "b = Some v" by auto
  then have "well_typed cao env u" "well_typed cao env v" "getWidth u = getWidth v" using assms(2) by (auto simp: register_ok_def)
  then obtain e where "SelectExpr_create cao inA u v = Some e" "well_typed cao env e" "getWidth e = getWidth u"
      "eval env e = (if eval env inA \<noteq> 0 then eval env u else eval env v)"
    by (rule select_value [OF assms(1)])
  then show ?thesis by (simp add: uv merge_register_def register_merged_def)
qed

lemma merge_registers_ok:
  assumes "truth_value cao inA" "length as = n" "list_all2 (register_ok cao env) as bs"
  shows "\<exists>xs. merge_registers cao inA n as bs = Some xs \<and> list_all2 (register_merged cao env (eval env inA \<noteq> 0)) (zip as bs) xs"
  using assms(2,3)
proof (induction as arbitrary: bs n)
  case (Cons a as)
  then obtain b bs' m where b: "bs = b # bs'" "n = Suc m" "register_ok cao env a b" by (cases bs; cases n) auto
  obtain x where "merge_register cao inA a b = Some x" "register_merged cao env (eval env inA \<noteq> 0) (a, b) x" using merge_register_ok [OF assms(1) b(3)] by blast
  then show ?case using Cons.IH [of m bs'] Cons.prems b by auto
qed simp

definition frame_ok :: "bool \<Rightarrow> (nat \<Rightarrow> nat) \<Rightarrow> assignment \<Rightarrow> stack_frame \<Rightarrow> stack_frame \<Rightarrow> bool" where
  "frame_ok cao numRegisters env f g \<longleftrightarrow> length (sf_locals f) = numRegisters (sf_kf f) \<and> list_all2 (register_ok cao env) (sf_locals f) (sf_locals g)"

definition frame_merged :: "bool \<Rightarrow> assignment \<Rightarrow> bool \<Rightarrow> stack_frame \<times> stack_frame \<Rightarrow> stack_frame \<Rightarrow> bool" where
  "frame_merged cao env pick = (\<lambda>(f, g) x. sf_caller x = sf_caller f \<and> sf_kf x = sf_kf f \<and>
     list_all2 (register_merged cao env pick) (zip (sf_locals f) (sf_locals g)) (sf_locals x))"

lemma merge_frames_ok:
  assumes "truth_value cao inA" "list_all2 (frame_ok cao numRegisters env) as bs"
  shows "\<exists>fs. merge_frames cao numRegisters inA as bs = Some fs \<and> list_all2 (frame_merged cao env (eval env inA \<noteq> 0)) (zip as bs) fs"
  using assms(2)
proof (induction as bs rule: list_all2_induct)
  case (Cons a as b bs)
  obtain l where "merge_registers cao inA (numRegisters (sf_kf a)) (sf_locals a) (sf_locals b) = Some l"
      "list_all2 (register_merged cao env (eval env inA \<noteq> 0)) (zip (sf_locals a) (sf_locals b)) l"
    using merge_registers_ok [OF assms(1), of "sf_locals a" "numRegisters (sf_kf a)" env "sf_locals b"] Cons.hyps(1) unfolding frame_ok_def by blast
  then show ?case using Cons.IH by (auto simp: frame_merged_def)
qed simp

subsection \<open>Bytes\<close>

lemma merge_byte_ok:
  assumes "truth_value cao inA" "os_inv cao env w" "os_inv cao env ot" "i < os_size w" "i < os_size ot"
  shows "\<exists>w' ot'. merge_byte cao le newA newB inA i (w, ot) = Some (w', ot') \<and> same_bytes cao env ot ot' \<and>
    sets_byte cao env w i (if eval env inA \<noteq> 0 then os_byte env w i else os_byte env ot i) w'"
proof -
  obtain av w1 where a: "read8 cao newA i w = Some (av, w1)" "same_bytes cao env w w1" "well_typed cao env av" "getWidth av = 8" "eval env av = os_byte env w i"
    using read8_ok [OF assms(2,4)] by blast
  obtain bv o1 where b: "read8 cao newB i ot = Some (bv, o1)" "same_bytes cao env ot o1" "well_typed cao env bv" "getWidth bv = 8" "eval env bv = os_byte env ot i"
    using read8_ok [OF assms(3,5)] by blast
  obtain e where e: "SelectExpr_create cao inA av bv = Some e" "well_typed cao env e" "getWidth e = 8"
      "eval env e = (if eval env inA \<noteq> 0 then os_byte env w i else os_byte env ot i)"
    using select_value [OF assms(1) a(3) b(3)] a(4,5) b(4,5) by metis
  have w1: "os_inv cao env w1" "os_size w1 = os_size w" "\<And>j. j < os_size w \<Longrightarrow> os_byte env w1 j = os_byte env w j"
    using a(2) by (auto simp: same_bytes_def)
  have "access_ok w1 i (getWidth e)" using e(3) assms(4) w1(2) by (simp add: access_ok_def access_bytes_def)
  moreover have one: "byte_index le 1 0 = 0" "{..<1 :: nat} = {0}" by (auto simp: byte_index_def)
  ultimately have "writes cao env w1 le i (getWidth e) (eval env e) (write_const le i e w1)" using write_const_ok [OF w1(1) _ e(2)] by blast
  then
  obtain w2 where w2: "write_const le i e w1 = Some w2" "os_inv cao env w2" "os_size w2 = os_size w1" "os_byte env w2 i = eval env e mod 256"
      "\<forall>j<os_size w1. j \<noteq> i \<longrightarrow> os_byte env w2 j = os_byte env w1 j"
    using one by (auto simp: writes_def stores_def e(3) access_bytes_def)
  have "in_width 8 (eval env e)" using eval_in_width [OF e(2)] e(3) by simp
  then have "eval env e mod 256 = eval env e" by (simp add: in_width_def)
  then have "sets_byte cao env w i (eval env e) w2" using w1 w2 assms(4) by (auto simp: sets_byte_def)
  then show ?thesis using a(1) b(1,2) e(1,4) w2(1) by (simp add: merge_byte_def)
qed

lemma merge_bytes_ok:
  assumes "truth_value cao inA" "os_inv cao env w" "os_inv cao env ot" "k \<le> os_size w" "k \<le> os_size ot"
  shows "\<exists>w' ot'. foldM (merge_byte cao le newA newB inA) [0..<k] (w, ot) = Some (w', ot') \<and> same_bytes cao env ot ot' \<and>
    os_inv cao env w' \<and> os_size w' = os_size w \<and>
    (\<forall>j<os_size w. os_byte env w' j = (if j < k \<and> eval env inA = 0 then os_byte env ot j else os_byte env w j))"
  using assms(4,5)
proof (induction k)
  case 0
  then show ?case using assms(2,3) same_bytes_refl by simp
next
  case (Suc k)
  then obtain w1 o1 where s: "foldM (merge_byte cao le newA newB inA) [0..<k] (w, ot) = Some (w1, o1)" "same_bytes cao env ot o1"
      "os_inv cao env w1" "os_size w1 = os_size w" "\<forall>j<os_size w. os_byte env w1 j = (if j < k \<and> eval env inA = 0 then os_byte env ot j else os_byte env w j)"
    by auto
  have o1: "os_inv cao env o1" "os_size o1 = os_size ot" "\<And>j. j < os_size ot \<Longrightarrow> os_byte env o1 j = os_byte env ot j" using s(2) by (auto simp: same_bytes_def)
  obtain w2 o2 where t: "merge_byte cao le newA newB inA k (w1, o1) = Some (w2, o2)" "same_bytes cao env o1 o2"
      "sets_byte cao env w1 k (if eval env inA \<noteq> 0 then os_byte env w1 k else os_byte env o1 k) w2"
    using merge_byte_ok [OF assms(1) s(3) o1(1), of k le newA newB] s(4) o1(2) Suc.prems by auto
  have "same_bytes cao env ot o2" using s(2) t(2) by (auto simp: same_bytes_def)
  moreover have "os_byte env w2 j = (if j < Suc k \<and> eval env inA = 0 then os_byte env ot j else os_byte env w j)" if "j < os_size w" for j
    using that s(4,5) t(3) o1(3) [of j] Suc.prems by (auto simp: sets_byte_def less_Suc_eq)
  ultimately show ?case using s(1,4) t(1,3) by (simp add: foldM_append sets_byte_def)
qed

subsection \<open>Objects\<close>

abbreviation objects_of :: "address_space \<Rightarrow> object_pair set" where
  "objects_of as \<equiv> set (inorder (as_objects as))"

text \<open>
  Two spaces over one heap: the invariants of ownership, objects with good caches for an assignment, contents that
  belong to one memory object, and no read-only object that the two have different contents of.
\<close>

definition spaces_ok :: "bool \<Rightarrow> assignment \<Rightarrow> object_heap \<Rightarrow> address_space \<Rightarrow> address_space \<Rightarrow> bool" where
  "spaces_ok cao env h as bs \<longleftrightarrow> owners_ok h as \<and> owners_ok h bs \<and> not_owned h as bs \<and> finite (dom h) \<and>
     (\<forall>op\<in>objects_of as \<union> objects_of bs. \<exists>os. h (snd op) = Some os \<and> os_inv cao env os \<and> os_size os = mo_size (fst op)) \<and>
     (\<forall>op\<in>objects_of as. \<forall>op'\<in>objects_of bs. snd op = snd op' \<longrightarrow> fst op = fst op') \<and>
     (\<forall>op\<in>objects_of as. \<forall>op'\<in>objects_of bs. fst op = fst op' \<and> snd op \<noteq> snd op' \<longrightarrow> (\<forall>os. h (snd op) = Some os \<longrightarrow> \<not> os_readOnly os))"

text \<open>A space has an object with the bytes that one of two objects had.\<close>

definition object_merged :: "bool \<Rightarrow> assignment \<Rightarrow> bool \<Rightarrow> object_heap \<Rightarrow> object_pair \<Rightarrow> object_pair \<Rightarrow> object_heap \<Rightarrow> address_space \<Rightarrow> object_ref \<Rightarrow> bool" where
  "object_merged cao env pick h a b h' as' r' \<longleftrightarrow>
     it_lookup mo_key (mo_key a) (as_objects as') = Some (fst a, r') \<and>
     (\<exists>x y z. h (snd a) = Some x \<and> h (snd b) = Some y \<and> h' r' = Some z \<and> os_inv cao env z \<and> os_size z = mo_size (fst a) \<and>
        (\<forall>j<mo_size (fst a). os_byte env z j = (if pick then os_byte env x j else os_byte env y j)))"

lemma owner_unseen [simp]: "os_byte env (os\<lparr>copyOnWriteOwner := k\<rparr>) j = os_byte env os j" "os_inv cao env (os\<lparr>copyOnWriteOwner := k\<rparr>) = os_inv cao env os"
proof -
  have u: "upd_value env (os\<lparr>copyOnWriteOwner := k\<rparr>) j = upd_value env os j" for j by (simp add: upd_value_def)
  then show b: "os_byte env (os\<lparr>copyOnWriteOwner := k\<rparr>) j = os_byte env os j" for j
    by (simp add: os_byte_def isByteConcrete_def knownSymbolic_def split: option.split)
  have "updates_ok cao env (os\<lparr>copyOnWriteOwner := k\<rparr>) = updates_ok cao env os" by (simp add: updates_ok_def split: option.split)
  moreover have "byte_ok cao env (os\<lparr>copyOnWriteOwner := k\<rparr>) j = byte_ok cao env os j" for j
    using u b by (simp add: byte_ok_def isByteConcrete_def isByteUnflushed_def isByteKnownSymbolic_def knownSymbolic_def)
  ultimately show "os_inv cao env (os\<lparr>copyOnWriteOwner := k\<rparr>) = os_inv cao env os" by (simp add: os_inv_def os_shape_def)
qed

lemma found_object: "itree_ok mo_key (as_objects as) \<Longrightarrow> it_lookup mo_key (mo_address mo) (as_objects as) = Some (mo, r) \<Longrightarrow> findObject mo as = Some r"
  by (simp add: findObject_def)

text \<open>One object, seen from the heap: what changes is a copy of it or the object itself, and the caches of the other one.\<close>

lemma merge_object_ok:
  assumes inA: "truth_value cao inA" and as: "itree_ok mo_key (as_objects as)" "it_lookup mo_key (mo_address mo) (as_objects as) = Some (mo, r)"
    and h: "h r = Some x" "os_inv cao env x" "os_size x = mo_size mo" "\<not> os_readOnly x"
    and b: "findObject mo bs = Some rb" "h rb = Some y" "os_inv cao env y" "os_size y = mo_size mo" "r \<noteq> rb"
    and fresh: "h (fresh h) = None"
  shows "\<exists>r' as' h'. merge_object cao le fresh newA newB inA bs mo (as, h) = Some (as', h') \<and>
    (r' = fresh h \<or> r' = r \<and> cowKey as = copyOnWriteOwner x) \<and> itree_ok mo_key (as_objects as') \<and> cowKey as' = cowKey as \<and> dom h' \<subseteq> dom h \<union> {r'} \<and> dom h \<subseteq> dom h' \<and>
    (\<forall>k. it_lookup mo_key k (as_objects as') = (if k = mo_address mo then Some (mo, r') else it_lookup mo_key k (as_objects as))) \<and>
    (\<forall>q. q \<noteq> r' \<and> q \<noteq> rb \<longrightarrow> h' q = h q) \<and> r' \<noteq> rb \<and> object_merged cao env (eval env inA \<noteq> 0) h (mo, r) (mo, rb) h' as' r'"
proof -
  have loop: "\<exists>w' y'. foldM (merge_byte cao le (newA mo) (newB mo) inA) [0..<mo_size mo] (w, y) = Some (w', y') \<and> os_inv cao env w' \<and> os_size w' = mo_size mo \<and>
      (\<forall>j<mo_size mo. os_byte env w' j = (if eval env inA \<noteq> 0 then os_byte env x j else os_byte env y j))"
    if "os_inv cao env w" "os_size w = mo_size mo" "\<And>j. os_byte env w j = os_byte env x j" for w
    using merge_bytes_ok [OF inA that(1) b(3), of "mo_size mo" le "newA mo" "newB mo"] that(2,3) b(4) by auto
  have found: "findObject mo as = Some r" using found_object [OF as] .
  show ?thesis
  proof (cases "cowKey as = copyOnWriteOwner x")
    case True
    obtain w' y' where w: "foldM (merge_byte cao le (newA mo) (newB mo) inA) [0..<mo_size mo] (x, y) = Some (w', y')" "os_inv cao env w'" "os_size w' = mo_size mo"
        "\<forall>j<mo_size mo. os_byte env w' j = (if eval env inA \<noteq> 0 then os_byte env x j else os_byte env y j)"
      using loop [OF h(2,3)] by auto
    have "merge_object cao le fresh newA newB inA bs mo (as, h) = Some (as, h(r \<mapsto> w', rb \<mapsto> y'))"
      using found h(1,4) b(1,2) True w(1) by (simp add: merge_object_def getWriteable_def)
    moreover have "object_merged cao env (eval env inA \<noteq> 0) h (mo, r) (mo, rb) (h(r \<mapsto> w', rb \<mapsto> y')) as r"
      using as(2) h(1) b(2,5) w(2-4) by (simp add: object_merged_def mo_key_def)
    ultimately show ?thesis using as True h(1) b(2,5) by (intro exI [of _ r] exI [of _ as] exI) (auto split: if_splits)
  next
    case False
    let ?as = "as\<lparr>as_objects := it_replace mo_key (mo, fresh h) (as_objects as)\<rparr>"
    let ?x = "x\<lparr>copyOnWriteOwner := cowKey as\<rparr>"
    have ne: "fresh h \<noteq> rb" "fresh h \<noteq> r" using fresh b(2) h(1) by auto
    obtain w' y' where w: "foldM (merge_byte cao le (newA mo) (newB mo) inA) [0..<mo_size mo] (?x, y) = Some (w', y')" "os_inv cao env w'" "os_size w' = mo_size mo"
        "\<forall>j<mo_size mo. os_byte env w' j = (if eval env inA \<noteq> 0 then os_byte env x j else os_byte env y j)"
      using loop [of ?x] h(2,3) by auto
    have m: "merge_object cao le fresh newA newB inA bs mo (as, h) = Some (?as, h(fresh h \<mapsto> w', rb \<mapsto> y'))"
      using found h(1,4) b(1,2) False w(1) ne by (simp add: merge_object_def getWriteable_def copy_object_def fun_upd_twist)
    have l: "it_lookup mo_key k (as_objects ?as) = (if k = mo_address mo then Some (mo, fresh h) else it_lookup mo_key k (as_objects as))" for k
      using itree.lookup_replace [OF as(1), of k "(mo, fresh h)"] by (simp add: mo_key_def)
    then have "object_merged cao env (eval env inA \<noteq> 0) h (mo, r) (mo, rb) (h(fresh h \<mapsto> w', rb \<mapsto> y')) ?as (fresh h)"
      using h(1) b(2) ne(1) w(2-4) by (simp add: object_merged_def mo_key_def)
    moreover have "itree_ok mo_key (as_objects ?as)" using itree.good_replace [OF as(1)] by simp
    ultimately show ?thesis using m l ne b(2) by (intro exI [of _ "fresh h"] exI [of _ ?as] exI) (auto split: if_splits)
  qed
qed

lemma spaces_objects:
  assumes "spaces_ok cao env h as bs"
  shows "op \<in> objects_of as \<union> objects_of bs \<Longrightarrow> \<exists>os. h (snd op) = Some os \<and> os_inv cao env os \<and> os_size os = mo_size (fst op)"
    "a \<in> objects_of as \<Longrightarrow> b \<in> objects_of bs \<Longrightarrow> snd a = snd b \<Longrightarrow> fst a = fst b"
    "a \<in> objects_of as \<Longrightarrow> b \<in> objects_of bs \<Longrightarrow> fst a = fst b \<and> snd a \<noteq> snd b \<Longrightarrow> h (snd a) = Some os \<Longrightarrow> \<not> os_readOnly os"
    "owners_ok h as" "owners_ok h bs" "not_owned h as bs" "finite (dom h)"
  using assms unfolding spaces_ok_def by meson+

text \<open>In the middle of the loop: the objects that are done are merged, the others are as they were.\<close>

definition merge_inv :: "bool \<Rightarrow> assignment \<Rightarrow> bool \<Rightarrow> object_heap \<Rightarrow> address_space \<Rightarrow> address_space \<Rightarrow> memory_object set \<Rightarrow> address_space \<times> object_heap \<Rightarrow> bool" where
  "merge_inv cao env pick h as bs finished = (\<lambda>(as1, h1).
     itree_ok mo_key (as_objects as1) \<and> finite (dom h1) \<and> dom h \<subseteq> dom h1 \<and> cowKey as1 = cowKey as \<and>
     (\<forall>a\<in>objects_of as. fst a \<notin> finished \<longrightarrow> it_lookup mo_key (mo_key a) (as_objects as1) = Some a \<and> h1 (snd a) = h (snd a)) \<and>
     (\<forall>b\<in>objects_of bs. fst b \<notin> finished \<longrightarrow> h1 (snd b) = h (snd b)) \<and>
     (\<forall>a\<in>objects_of as. \<forall>b\<in>objects_of bs. fst a = fst b \<and> fst a \<in> finished \<longrightarrow>
        (\<exists>r'. object_merged cao env pick h a b h1 as1 r' \<and> r' \<notin> refs_of bs \<and> (\<forall>a2\<in>objects_of as. fst a2 \<noteq> fst a \<longrightarrow> snd a2 \<noteq> r'))))"

lemma merge_inv_start: "spaces_ok cao env h as bs \<Longrightarrow> merge_inv cao env pick h as bs {} (as, h)"
  using itree.lookup_iff [of mo_key "as_objects as"] by (auto simp: merge_inv_def spaces_ok_def owners_ok_def)

lemma merge_inv_step:
  assumes inA: "truth_value cao inA" and sp: "spaces_ok cao env h as bs" and fresh: "fresh_ref fresh"
    and inv: "merge_inv cao env (eval env inA \<noteq> 0) h as bs finished st"
    and mo: "(mo, r) \<in> objects_of as" "(mo, rb) \<in> objects_of bs" "r \<noteq> rb" "mo \<notin> finished"
  shows "\<exists>st'. merge_object cao le fresh newA newB inA bs mo st = Some st' \<and> merge_inv cao env (eval env inA \<noteq> 0) h as bs (insert mo finished) st'"
proof -
  obtain as1 h1 where st: "st = (as1, h1)" by (cases st) auto
  note i0 = inv [unfolded merge_inv_def st prod.case]
  note rest = conjunct2 [OF conjunct2 [OF conjunct2 [OF conjunct2 [OF i0]]]]
  have i: "itree_ok mo_key (as_objects as1)" "finite (dom h1)" "dom h \<subseteq> dom h1" "cowKey as1 = cowKey as" using i0 by simp_all
  have i5: "it_lookup mo_key (mo_key a) (as_objects as1) = Some a \<and> h1 (snd a) = h (snd a)" if "a \<in> objects_of as" "fst a \<notin> finished" for a
    using bspec [OF conjunct1 [OF rest] that(1)] that(2) by (rule mp)
  have i6: "h1 (snd b) = h (snd b)" if "b \<in> objects_of bs" "fst b \<notin> finished" for b
    using bspec [OF conjunct1 [OF conjunct2 [OF rest]] that(1)] that(2) by (rule mp)
  have i7: "\<exists>r'. object_merged cao env (eval env inA \<noteq> 0) h a b h1 as1 r' \<and> r' \<notin> refs_of bs \<and> (\<forall>a2\<in>objects_of as. fst a2 \<noteq> fst a \<longrightarrow> snd a2 \<noteq> r')"
    if "a \<in> objects_of as" "b \<in> objects_of bs" "fst a = fst b \<and> fst a \<in> finished" for a b
    using bspec [OF bspec [OF conjunct2 [OF conjunct2 [OF rest]] that(1)] that(2)] that(3) by (rule mp)
  have key: "mo_key (mo, q) = mo_address mo" for q by (simp add: mo_key_def)
  have l1: "it_lookup mo_key (mo_address mo) (as_objects as1) = Some (mo, r)" "h1 r = h r" "h1 rb = h rb" using i5 [OF mo(1)] i6 [OF mo(2)] mo(4) key by simp_all
  obtain x where x: "h r = Some x" "os_inv cao env x" "os_size x = mo_size mo" "\<not> os_readOnly x" 
    using spaces_objects(1) [OF sp, of "(mo, r)"] spaces_objects(3) [OF sp mo(1,2)] mo(1,3) by auto
  obtain y where y: "h rb = Some y" "os_inv cao env y" "os_size y = mo_size mo" 
    using spaces_objects(1) [OF sp, of "(mo, rb)"] mo(2) by auto
  have tb: "itree_ok mo_key (as_objects bs)" and ta: "itree_ok mo_key (as_objects as)" using spaces_objects(4,5) [OF sp] by (auto simp: owners_ok_def)
  have fb: "findObject mo bs = Some rb" using itree.lookup_iff [OF tb, of "mo_address mo" "(mo, rb)"] mo(2) key by (simp add: findObject_def)
  have hx: "h1 r = Some x" and hy: "h1 rb = Some y" using l1(2,3) x(1) y(1) by simp_all
  have fr: "h1 (fresh h1) = None" using fresh i(2) by (simp add: fresh_ref_def)
  obtain r' as' h' where m: "merge_object cao le fresh newA newB inA bs mo (as1, h1) = Some (as', h')"
      "r' = fresh h1 \<or> r' = r \<and> cowKey as1 = copyOnWriteOwner x" "itree_ok mo_key (as_objects as')" "cowKey as' = cowKey as1"
      "dom h' \<subseteq> dom h1 \<union> {r'}" "dom h1 \<subseteq> dom h'"
      "\<forall>k. it_lookup mo_key k (as_objects as') = (if k = mo_address mo then Some (mo, r') else it_lookup mo_key k (as_objects as1))"
      "\<forall>q. q \<noteq> r' \<and> q \<noteq> rb \<longrightarrow> h' q = h1 q" "r' \<noteq> rb" "object_merged cao env (eval env inA \<noteq> 0) h1 (mo, r) (mo, rb) h' as' r'"
    using merge_object_ok [where h = h1 and fresh = fresh and le = le and newA = newA and newB = newB, OF inA i(1) l1(1) hx x(2,3,4) fb hy y(2,3) mo(3) fr] by blast
  have rdom: "r' = r \<or> r' \<notin> dom h" using m(2) fr i(3) by auto
  have refb: "r' \<notin> refs_of bs"
  proof
    assume r': "r' \<in> refs_of bs"
    then have "r' \<in> dom h" using spaces_objects(5) [OF sp] by (auto simp: owners_ok_def)
    then have "r' = r" "cowKey as = copyOnWriteOwner x" using m(2) fr i(3,4) by auto
    moreover have "r \<in> refs_of as" using mo(1) by (force simp: refs_of_def)
    ultimately show False using spaces_objects(6) [OF sp] r' x(1) by (auto simp: not_owned_def)
  qed
  have refa: "snd a2 \<noteq> r'" if a2: "a2 \<in> objects_of as" "fst a2 \<noteq> mo" for a2
  proof
    assume e: "snd a2 = r'"
    then have "r' \<in> dom h" using spaces_objects(1) [OF sp, of a2] a2(1) by auto
    then have "snd a2 = snd (mo, r)" using rdom e by simp
    then have "a2 = (mo, r)" using spaces_objects(4) [OF sp] a2(1) mo(1) unfolding owners_ok_def by (meson inj_onD)
    then show False using a2(2) by simp
  qed
  have addr: "mo_key a \<noteq> mo_address mo" if "a \<in> objects_of as" "fst a \<noteq> mo" for a
    using bound_key [OF spaces_objects(4) [OF sp] that(1) mo(1)] that(2) key by auto
  have other: "snd a \<noteq> rb" if "a \<in> objects_of as" "fst a \<noteq> mo" for a using spaces_objects(2) [OF sp that(1) mo(2)] that(2) by auto
  have "merge_inv cao env (eval env inA \<noteq> 0) h as bs (insert mo finished) (as', h')"
    unfolding merge_inv_def prod.case
  proof (intro conjI ballI impI)
    show "itree_ok mo_key (as_objects as')" "cowKey as' = cowKey as" "dom h \<subseteq> dom h'" using m(3,4,6) i(3,4) by auto
    show "finite (dom h')" using m(5) i(2) by (auto intro: finite_subset)
  next
    fix a
    assume a: "a \<in> objects_of as" "fst a \<notin> insert mo finished"
    then show "it_lookup mo_key (mo_key a) (as_objects as') = Some a" "h' (snd a) = h (snd a)"
      using i5 [OF a(1)] m(7,8) addr [OF a(1)] refa [OF a(1)] other [OF a(1)] a(2) by auto
  next
    fix b
    assume b: "b \<in> objects_of bs" "fst b \<notin> insert mo finished"
    have "snd b \<noteq> r'" using refb b(1) by (auto simp: refs_of_def)
    moreover have "snd b \<noteq> rb"
    proof
      assume "snd b = rb"
      then have "snd b = snd (mo, rb)" by simp
      then have "b = (mo, rb)" using spaces_objects(5) [OF sp] b(1) mo(2) unfolding owners_ok_def by (meson inj_onD)
      then show False using b(2) by simp
    qed
    ultimately show "h' (snd b) = h (snd b)" using i6 [OF b(1)] m(8) b(2) by auto
  next
    fix a b
    assume ab: "a \<in> objects_of as" "b \<in> objects_of bs" "fst a = fst b \<and> fst a \<in> insert mo finished"
    show "\<exists>r'. object_merged cao env (eval env inA \<noteq> 0) h a b h' as' r' \<and> r' \<notin> refs_of bs \<and> (\<forall>a2\<in>objects_of as. fst a2 \<noteq> fst a \<longrightarrow> snd a2 \<noteq> r')"
    proof (cases "fst a = mo")
      case True
      have "a = (mo, r)" "b = (mo, rb)"
        using bound_key [OF spaces_objects(4) [OF sp] ab(1) mo(1)] bound_key [OF spaces_objects(5) [OF sp] ab(2) mo(2)] ab(3) True by (auto simp: mo_key_def)
      moreover have "object_merged cao env (eval env inA \<noteq> 0) h (mo, r) (mo, rb) h' as' r'"
        using m(10) l1(2,3) by (simp add: object_merged_def)
      ultimately show ?thesis using refb refa by (intro exI [of _ r']) simp
    next
      case False
      then obtain q where q: "object_merged cao env (eval env inA \<noteq> 0) h a b h1 as1 q" "q \<notin> refs_of bs" "\<forall>a2\<in>objects_of as. fst a2 \<noteq> fst a \<longrightarrow> snd a2 \<noteq> q"
        using i7 [OF ab(1,2)] ab(3) by blast
      have "q \<noteq> rb" using q(2) mo(2) by (force simp: refs_of_def)
      moreover have "q \<noteq> r'" using m(2) fr q(1) q(3) mo(1) False by (fastforce simp: object_merged_def)
      ultimately have "h' q = h1 q" using m(8) by blast
      then have "object_merged cao env (eval env inA \<noteq> 0) h a b h' as' q"
        using q(1) m(7) addr [OF ab(1) False] by (simp add: object_merged_def)
      then show ?thesis using q(2,3) by blast
    qed
  qed
  then show ?thesis using m(1) st by blast
qed

lemma merge_objects_ok:
  assumes "truth_value cao inA" "spaces_ok cao env h as bs" "fresh_ref fresh" "distinct ms" "finished \<inter> set ms = {}"
    "\<forall>mo\<in>set ms. \<exists>r rb. (mo, r) \<in> objects_of as \<and> (mo, rb) \<in> objects_of bs \<and> r \<noteq> rb"
    "merge_inv cao env (eval env inA \<noteq> 0) h as bs finished st"
  shows "\<exists>st'. foldM (merge_object cao le fresh newA newB inA bs) ms st = Some st' \<and> merge_inv cao env (eval env inA \<noteq> 0) h as bs (finished \<union> set ms) st'"
  using assms(4-)
proof (induction ms arbitrary: st finished)
  case (Cons mo ms)
  obtain r rb where mo: "(mo, r) \<in> objects_of as" "(mo, rb) \<in> objects_of bs" "r \<noteq> rb" using Cons.prems(3) by auto
  obtain st1 where s: "merge_object cao le fresh newA newB inA bs mo st = Some st1" "merge_inv cao env (eval env inA \<noteq> 0) h as bs (insert mo finished) st1"
    using merge_inv_step [OF assms(1,2,3) Cons.prems(4) mo, of le newA newB] Cons.prems(2) by auto
  then show ?case using Cons.IH [of "insert mo finished" st1] Cons.prems(1,2,3) by auto
qed simp

text \<open>The comparison of the two maps.\<close>

lemma mutated_objects_ok:
  assumes "mutated_objects as bs = Some ms"
  shows "map fst as = map fst bs \<and> set ms = {fst a |a b. (a, b) \<in> set (zip as bs) \<and> snd a \<noteq> snd b} \<and> (distinct (map fst as) \<longrightarrow> distinct ms)"
  using assms
proof (induction as bs arbitrary: ms rule: mutated_objects.induct)
  case (2 a as b bs)
  then obtain ms' where ms': "mutated_objects as bs = Some ms'" "fst a = fst b" "ms = (if snd a \<noteq> snd b then fst a # ms' else ms')"
    by (auto split: if_splits)
  then have ih: "map fst as = map fst bs" "set ms' = {fst a |a b. (a, b) \<in> set (zip as bs) \<and> snd a \<noteq> snd b}" "distinct (map fst as) \<longrightarrow> distinct ms'"
    using "2.IH" [of ms'] by auto
  have eq: "{fst x |x y. (x, y) \<in> set (zip (a # as) (b # bs)) \<and> snd x \<noteq> snd y} =
      (if snd a \<noteq> snd b then {fst a} else {}) \<union> {fst x |x y. (x, y) \<in> set (zip as bs) \<and> snd x \<noteq> snd y}"
    by (cases a; cases b) auto
  have sub: "set ms' \<subseteq> fst ` set as" unfolding ih(2) using set_zip_leftD by fast
  show ?case
  proof (intro conjI impI)
    show "map fst (a # as) = map fst (b # bs)" using ih(1) ms'(2) by simp
    show "set ms = {fst x |x y. (x, y) \<in> set (zip (a # as) (b # bs)) \<and> snd x \<noteq> snd y}" unfolding eq ih(2) [symmetric] ms'(3) by simp
    show "distinct ms" if "distinct (map fst (a # as))" using that ih(3) sub unfolding ms'(3) by auto
  qed
qed simp_all

lemma mutated_bound:
  assumes "mutated_objects xs ys = Some ms" "mo \<in> set ms"
  shows "\<exists>r rb. (mo, r) \<in> set xs \<and> (mo, rb) \<in> set ys \<and> r \<noteq> rb"
proof -
  note m = mutated_objects_ok [OF assms(1)]
  obtain x y where xy: "(x, y) \<in> set (zip xs ys)" "snd x \<noteq> snd y" "mo = fst x" using m assms(2) by blast
  then obtain i where i: "i < length xs" "i < length ys" "x = xs ! i" "y = ys ! i" by (auto simp: set_zip)
  have "map fst xs ! i = map fst ys ! i" using m by metis
  then have "fst x = fst y" using i by simp
  moreover have "x \<in> set xs" "y \<in> set ys" using i by simp_all
  ultimately show ?thesis using xy(2,3) by (metis prod.collapse)
qed

lemma distinct_bindings: "owners_ok h as \<Longrightarrow> distinct (map fst (inorder (as_objects as)))"
proof -
  assume "owners_ok h as"
  then have a: "ascending mo_key (inorder (as_objects as))" by (simp add: owners_ok_def itree_ok_def)
  have "distinct (map fst xs)" if "ascending mo_key xs" for xs :: "object_pair list"
    using that by (induction xs) (auto simp: ascending_def mo_key_def)
  then show ?thesis using a .
qed

subsection \<open>The whole merge\<close>

text \<open>What \<open>ConstraintManager::addConstraint\<close> does to the meaning of the constraints.\<close>

definition adds_constraints :: "bool \<Rightarrow> (expr list \<Rightarrow> expr \<Rightarrow> expr list option) \<Rightarrow> bool" where
  "adds_constraints cao add \<longleftrightarrow>
     (\<forall>cs c. path_ok cao (c # cs) \<longrightarrow> (\<exists>cs'. add cs c = Some cs' \<and> path_ok cao cs' \<and> (\<forall>env. models env cs' \<longleftrightarrow> models env (c # cs))))"

lemma models_simps [simp]: "models env []" "models env (c # cs) \<longleftrightarrow> eval env c \<noteq> 0 \<and> models env cs" "models env (xs @ ys) \<longleftrightarrow> models env xs \<and> models env ys"
  by (auto simp: models_def)

lemma path_truths: "path_ok cao cs \<longleftrightarrow> (\<forall>c\<in>set cs. truth_value cao c) \<and> (\<exists>env. models env cs)"
  by (auto simp: path_ok_def truth_value_def)

lemma add_all:
  assumes "adds_constraints cao add" "path_ok cao (xs @ cs)"
  shows "\<exists>cs'. foldM (\<lambda>c cs. add cs c) xs cs = Some cs' \<and> path_ok cao cs' \<and> (\<forall>env. models env cs' \<longleftrightarrow> models env (xs @ cs))"
  using assms(2)
proof (induction xs arbitrary: cs)
  case (Cons x xs)
  have "path_ok cao (x # cs)" using Cons.prems by (auto simp: path_ok_def models_def)
  then obtain cs1 where c: "add cs x = Some cs1" "path_ok cao cs1" "\<forall>env. models env cs1 \<longleftrightarrow> models env (x # cs)"
    using assms(1) unfolding adds_constraints_def by meson
  obtain env where "models env ((x # xs) @ cs)" using Cons.prems by (auto simp: path_ok_def)
  then have "models env (xs @ cs1)" using spec [OF c(3), of env] by auto
  then have "path_ok cao (xs @ cs1)" using Cons.prems c(2) by (auto simp: path_ok_def)
  then show ?case using Cons.IH [of cs1] c(1,3) by auto
qed auto

text \<open>Two states that can be merged, and what the merged state is in an assignment.\<close>

definition mergeable :: "bool \<Rightarrow> (nat \<Rightarrow> nat) \<Rightarrow> assignment \<Rightarrow> merge_state \<Rightarrow> merge_state \<Rightarrow> object_heap \<Rightarrow> bool" where
  "mergeable cao numRegisters env a b h \<longleftrightarrow> spaces_ok cao env h (ms_space a) (ms_space b) \<and>
     path_ok cao (ms_constraints a) \<and> path_ok cao (ms_constraints b) \<and> same_arrays (ms_constraints a @ ms_constraints b) \<and>
     (same_stack (ms_stack a) (ms_stack b) \<longrightarrow> list_all2 (frame_ok cao numRegisters env) (ms_stack a) (ms_stack b))"

definition merged :: "bool \<Rightarrow> assignment \<Rightarrow> merge_state \<Rightarrow> merge_state \<Rightarrow> object_heap \<Rightarrow> merge_state \<Rightarrow> object_heap \<Rightarrow> bool" where
  "merged cao env a b h m h' \<longleftrightarrow> ms_pc m = ms_pc a \<and> ms_symbolics m = ms_symbolics a \<and>
     (models env (ms_constraints m) \<longleftrightarrow> models env (ms_constraints a) \<or> models env (ms_constraints b)) \<and>
     (models env (ms_constraints m) \<longrightarrow>
        list_all2 (frame_merged cao env (models env (ms_constraints a))) (zip (ms_stack a) (ms_stack b)) (ms_stack m) \<and>
        (\<forall>x\<in>objects_of (ms_space a). \<exists>y\<in>objects_of (ms_space b). fst x = fst y \<and>
           (\<exists>r. object_merged cao env (models env (ms_constraints a)) h x y h' (ms_space m) r)))"

lemma models_set: "set xs = set ys \<Longrightarrow> models env xs = models env ys"
  by (simp add: models_def)

lemma mutated_objects_defined: "mutated_objects xs ys = None \<longleftrightarrow> map fst xs \<noteq> map fst ys"
  by (induction xs ys rule: mutated_objects.induct) auto

text \<open>The constraints: what is common and what only one state has.\<close>

lemma suffixes_ok:
  fixes wide :: "width \<Rightarrow> int \<Rightarrow> u32"
  assumes "same_arrays (as @ bs)" "\<forall>c\<in>set (as @ bs). truth_value cao c"
  defines "common \<equiv> set_intersection wide (expr_set wide as) (expr_set wide bs)"
  defines "sa \<equiv> set_difference wide (expr_set wide as) common" and "sb \<equiv> set_difference wide (expr_set wide bs) common"
  shows "\<forall>c\<in>set common \<union> set sa \<union> set sb. truth_value cao c"
    "models env as \<longleftrightarrow> models env common \<and> models env sa" "models env bs \<longleftrightarrow> models env common \<and> models env sb"
proof -
  have "same_arrays as" "same_arrays bs" using assms(1) by (auto simp: same_arrays_def intro: inj_on_subset)
  then have s: "set (expr_set wide as) = set as" "set (expr_set wide bs) = set bs" using expr_set_set by auto
  have "same_arrays (expr_set wide as @ expr_set wide bs)" using assms(1) s by (simp add: same_arrays_def)
  then have c: "set common = set as \<inter> set bs" using set_parts(1) s by (simp add: common_def)
  have "same_arrays (expr_set wide as @ common)" "same_arrays (expr_set wide bs @ common)"
    using assms(1) s c by (auto simp: same_arrays_def intro: inj_on_subset)
  then have d: "set sa = set as - set bs" "set sb = set bs - set as" using set_parts(2) s c by (auto simp: sa_def sb_def)
  show "\<forall>c\<in>set common \<union> set sa \<union> set sb. truth_value cao c" using assms(2) c d by auto
  show "models env as \<longleftrightarrow> models env common \<and> models env sa" "models env bs \<longleftrightarrow> models env common \<and> models env sb"
    using c d by (auto simp: models_def)
qed

lemma merged_objects:
  assumes sp: "spaces_ok cao env h as bs" and ms: "mutated_objects (inorder (as_objects as)) (inorder (as_objects bs)) = Some ms"
    and inv: "merge_inv cao env pick h as bs (set ms) (as', h')" and x: "x \<in> objects_of as"
  shows "\<exists>y\<in>objects_of bs. fst x = fst y \<and> (\<exists>r. object_merged cao env pick h x y h' as' r)"
proof -
  note m = mutated_objects_ok [OF ms]
  obtain i where i: "i < length (inorder (as_objects as))" "x = inorder (as_objects as) ! i" using x by (metis in_set_conv_nth)
  have len: "length (inorder (as_objects as)) = length (inorder (as_objects bs))" using arg_cong [OF conjunct1 [OF m], of length] by simp
  define y where "y = inorder (as_objects bs) ! i"
  have y: "y \<in> objects_of bs" "(x, y) \<in> set (zip (inorder (as_objects as)) (inorder (as_objects bs)))" using i len by (auto simp: y_def set_zip)
  have "map fst (inorder (as_objects as)) ! i = map fst (inorder (as_objects bs)) ! i" using conjunct1 [OF m] by (rule arg_cong)
  then have f: "fst x = fst y" using i len by (simp add: y_def)
  show ?thesis
  proof (cases "fst x \<in> set ms")
    case True
    then show ?thesis using inv x y(1) f unfolding merge_inv_def prod.case by blast
  next
    case False
    have same: "snd x = snd y" using False m y(2) by blast
    obtain os where os: "h (snd x) = Some os" "os_inv cao env os" "os_size os = mo_size (fst x)" using spaces_objects(1) [OF sp, of x] x by auto
    have "it_lookup mo_key (mo_key x) (as_objects as') = Some x" "h' (snd x) = h (snd x)"
      using inv x False unfolding merge_inv_def prod.case by blast+
    then have "object_merged cao env pick h x y h' as' (snd x)" using os same by (cases x) (simp add: object_merged_def)
    then show ?thesis using y(1) f by blast
  qed
qed

text \<open>
  C21. Merging keeps both states: \<open>ExecutionState::merge\<close> returns, merges exactly when the two states are at the same
  instruction with the same symbolic objects, the same calls and the same memory objects, and otherwise changes
  nothing. After a merge an assignment satisfies the constraints exactly when it satisfied those of one of the
  states; there every register and every byte has the value that it had in that state, the first one where both fit.
  Adding a constraint is assumed to keep its meaning.
\<close>

theorem state_merge_sound:
  assumes "mergeable cao numRegisters env a b h" "adds_constraints cao add" "fresh_ref fresh"
    "\<And>ms. distinct ms \<Longrightarrow> distinct (by_pointer ms) \<and> set (by_pointer ms) = set ms"
  shows "\<exists>ok m h'. merge_states cao le wide numRegisters add fresh newA newB by_pointer a b h = Some (ok, m, h') \<and>
    (ok \<longleftrightarrow> ms_pc a = ms_pc b \<and> ms_symbolics a = ms_symbolics b \<and> same_stack (ms_stack a) (ms_stack b) \<and>
       map fst (inorder (as_objects (ms_space a))) = map fst (inorder (as_objects (ms_space b)))) \<and>
    (if ok then merged cao env a b h m h' else m = a \<and> h' = h)"
proof -
  let ?as = "ms_space a" and ?bs = "ms_space b"
  have sp: "spaces_ok cao env h ?as ?bs" and pa: "path_ok cao (ms_constraints a)" and pb: "path_ok cao (ms_constraints b)"
    and same: "same_arrays (ms_constraints a @ ms_constraints b)" using assms(1) by (simp_all add: mergeable_def)
  have oa: "space_objects ?as = Some (inorder (as_objects ?as))" and ob: "space_objects ?bs = Some (inorder (as_objects ?bs))"
    using spaces_objects(4,5) [OF sp] by (simp_all add: space_objects_ok owners_ok_def)
  show ?thesis
  proof (cases "ms_pc a = ms_pc b \<and> ms_symbolics a = ms_symbolics b \<and> same_stack (ms_stack a) (ms_stack b)")
    case False
    then show ?thesis by (auto simp: merge_states_def)
  next
    case eq: True
    define common where "common = set_intersection wide (expr_set wide (ms_constraints a)) (expr_set wide (ms_constraints b))"
    define sa where "sa = set_difference wide (expr_set wide (ms_constraints a)) common"
    define sb where "sb = set_difference wide (expr_set wide (ms_constraints b)) common"
    note d = merge_states_def Let_def common_def [symmetric] sa_def [symmetric] sb_def [symmetric]
    show ?thesis
    proof (cases "mutated_objects (inorder (as_objects ?as)) (inorder (as_objects ?bs))")
      case None
      then have "map fst (inorder (as_objects ?as)) \<noteq> map fst (inorder (as_objects ?bs))" by (simp add: mutated_objects_defined)
      moreover have "merge_states cao le wide numRegisters add fresh newA newB by_pointer a b h = Some (False, a, h)"
        using None eq oa ob by (simp add: d)
      ultimately show ?thesis by auto
    next
      case (Some ms)
      have both: "\<forall>c\<in>set (ms_constraints a @ ms_constraints b). truth_value cao c" using pa pb by (auto simp: path_truths)
      have tv: "\<forall>c\<in>set common \<union> set sa \<union> set sb. truth_value cao c"
        and ma: "\<And>env. models env (ms_constraints a) \<longleftrightarrow> models env common \<and> models env sa"
        and mb: "\<And>env. models env (ms_constraints b) \<longleftrightarrow> models env common \<and> models env sb"
        using suffixes_ok [OF same both, where wide = wide] unfolding common_def sa_def sb_def by simp_all
      obtain inA where inA: "conjunction sa = Some inA" "truth_value cao inA" "\<And>env. eval env inA \<noteq> 0 \<longleftrightarrow> models env sa"
        using conjunction_ok [of sa cao] tv by auto
      obtain inB where inB: "conjunction sb = Some inB" "truth_value cao inB" "\<And>env. eval env inB \<noteq> 0 \<longleftrightarrow> models env sb"
        using conjunction_ok [of sb cao] tv by auto
      obtain fs where fs: "merge_frames cao numRegisters inA (ms_stack a) (ms_stack b) = Some fs"
          "list_all2 (frame_merged cao env (eval env inA \<noteq> 0)) (zip (ms_stack a) (ms_stack b)) fs"
        using merge_frames_ok [OF inA(2)] assms(1) eq unfolding mergeable_def by blast
      have ms: "distinct ms" using mutated_objects_ok [OF Some] distinct_bindings [OF spaces_objects(4) [OF sp]] by blast
      have mut: "\<forall>mo\<in>set (by_pointer ms). \<exists>r rb. (mo, r) \<in> objects_of ?as \<and> (mo, rb) \<in> objects_of ?bs \<and> r \<noteq> rb"
        using mutated_bound [OF Some] assms(4) [OF ms] by simp
      obtain as' h' where st: "foldM (merge_object cao le fresh newA newB inA ?bs) (by_pointer ms) (?as, h) = Some (as', h')"
          "merge_inv cao env (eval env inA \<noteq> 0) h ?as ?bs (set ms) (as', h')"
        using merge_objects_ok [OF inA(2) sp assms(3) _ _ mut merge_inv_start [OF sp], of le newA newB] assms(4) [OF ms] by auto
      obtain e0 where e0: "models e0 (ms_constraints a)" using pa by (auto simp: path_ok_def)
      obtain cs where cs: "foldM (\<lambda>c cs. add cs c) common [] = Some cs" "path_ok cao cs" "\<forall>env. models env cs \<longleftrightarrow> models env common"
        using add_all [OF assms(2), of common "[]"] tv e0 ma by (auto simp: path_truths)
      obtain u where u: "OrExpr_create inA inB = Some u" "truth_value cao u" "\<forall>env. eval env u \<noteq> 0 \<longleftrightarrow> eval env inA \<noteq> 0 \<or> eval env inB \<noteq> 0"
        using truth_operations(2) [OF inA(2) inB(2)] by blast
      have "path_ok cao (u # cs)" using cs(2,3) u e0 ma inA(3) by (auto simp: path_truths)
      then obtain cs' where cs': "add cs u = Some cs'" "\<forall>env. models env cs' \<longleftrightarrow> models env (u # cs)"
        using assms(2) unfolding adds_constraints_def by meson
      have m: "models env cs' \<longleftrightarrow> models env (ms_constraints a) \<or> models env (ms_constraints b)" for env
        using cs'(2) cs(3) u(3) inA(3) inB(3) ma mb by auto
      have pick: "eval env inA \<noteq> 0 \<longleftrightarrow> models env (ms_constraints a)" if "models env cs'" using that cs'(2) cs(3) ma inA(3) by auto
      have "merge_states cao le wide numRegisters add fresh newA newB by_pointer a b h =
          Some (True, a\<lparr>ms_stack := fs, ms_constraints := cs', ms_space := as'\<rparr>, h')"
        using eq oa ob Some inA(1) inB(1) fs(1) st(1) cs(1) u(1) cs'(1) by (simp add: d)
      moreover have "merged cao env a b h (a\<lparr>ms_stack := fs, ms_constraints := cs', ms_space := as'\<rparr>) h'"
        using m [of env] pick fs(2) merged_objects [OF sp Some] st(2) by (auto simp: merged_def)
      moreover have "map fst (inorder (as_objects ?as)) = map fst (inorder (as_objects ?bs))" using mutated_objects_ok [OF Some] by blast
      ultimately show ?thesis using eq by auto
    qed
  qed
qed

text \<open>Two states after a branch: the input byte is 5 or 6, one register and one object differ.\<close>

definition input_is :: "int \<Rightarrow> expr" where
  "input_is v = BinaryExpr Eq (ConstantExpr 8 v) (ReadExpr (byte_array 0) [] (ConstantExpr 32 0))"

definition branch_state :: "int \<Rightarrow> merge_state" where
  "branch_state v = \<lparr>ms_pc = 7, ms_symbolics = [(fst near_object, byte_array 0)],
     ms_stack = [\<lparr>sf_caller = 0, sf_kf = 0, sf_locals = [Some (ConstantExpr 32 v), None]\<rparr>], ms_constraints = [input_is v],
     ms_space = \<lparr>cowKey = 3, as_objects = it_insert mo_key (fst near_object, if v = 5 then 0 else 1) Terminator\<rparr>\<rparr>"

definition branch_heap :: object_heap where
  "branch_heap = [0 \<mapsto> zero_object\<lparr>copyOnWriteOwner := 3\<rparr>, 1 \<mapsto> (initializeToRandom zero_object)\<lparr>copyOnWriteOwner := 3\<rparr>]"

definition input_byte :: "int \<Rightarrow> assignment" where
  "input_byte v = (\<lambda>_ _. v)"

lemma input_is_eval: "0 \<le> v \<Longrightarrow> v < 256 \<Longrightarrow> 0 \<le> w \<Longrightarrow> w < 256 \<Longrightarrow> eval (input_byte w) (input_is v) \<noteq> 0 \<longleftrightarrow> v = w"
  by (simp add: input_is_def input_byte_def constant_binary_def initial_value_def byte_array_def isSymbolicArray_def take_bit_eq_mod)

lemma branch_path: "0 \<le> v \<Longrightarrow> v < 256 \<Longrightarrow> path_ok cao [input_is v]"
proof -
  assume v: "0 \<le> v" "v < 256"
  then have "models (input_byte v) [input_is v]" using input_is_eval [of v v] by simp
  moreover have "truth_value cao (input_is v)"
    using v by (auto simp: truth_value_def input_is_def typed_def byte_array_def array_ok_def is_compare_def in_width_def isSymbolicArray_def)
  ultimately show ?thesis by (auto simp: path_truths)
qed

lemma branch_objects:
  "os_inv cao env zero_object" "os_inv cao env (initializeToRandom zero_object)"
  "\<forall>j<4. os_byte env zero_object j = 0 \<and> os_byte env (initializeToRandom zero_object) j = 0xAB"
  "os_size zero_object = 4" "os_size (initializeToRandom zero_object) = 4" "os_readOnly zero_object = False" 
proof -
  have z: "os_inv cao env zero_object" "\<forall>j<4. os_byte env zero_object j = 0" 
    using new_concrete_ok(1) [of True "byte_array 0" 4 cao env] new_concrete_ok(2) [of True "byte_array 0" 4 env] by (auto simp: zero_object_def)
  have s: "os_size zero_object = 4" by (simp add: zero_object_def new_concrete_def)
  have u: "updates_ok cao env zero_object" "os_size zero_object < 2 ^ 32" using z(1) by (auto simp: os_inv_def os_shape_def)
  have "os_inv cao env (initializeToRandom zero_object)" "\<forall>j<4. os_byte env (initializeToRandom zero_object) j = 0xAB"
    using makeConcrete_ok [OF u, of "replicate (os_size zero_object) 0xAB"] s by (simp_all add: initializeToRandom_def One_nat_def)
  then show "os_inv cao env zero_object" "os_inv cao env (initializeToRandom zero_object)"
    "\<forall>j<4. os_byte env zero_object j = 0 \<and> os_byte env (initializeToRandom zero_object) j = 0xAB" using z by auto
  show "os_size zero_object = 4" "os_size (initializeToRandom zero_object) = 4" "os_readOnly zero_object = False"
    by (simp_all add: zero_object_def new_concrete_def initializeToRandom_def makeConcrete_def)
qed

lemma branch_spaces: "spaces_ok cao env branch_heap (ms_space (branch_state 5)) (ms_space (branch_state 6))"
proof -
  have t: "inorder (it_node Terminator Terminator op) = [op]" "itree_ok mo_key (it_node Terminator Terminator op)" for op
    by (simp_all add: it_node_def itree_ok_def ascending_def)
  show ?thesis
    by (simp add: spaces_ok_def owners_ok_def not_owned_def refs_of_def branch_state_def branch_heap_def t branch_objects near_object_def)
qed

lemma branch_mergeable: "mergeable False (\<lambda>_. 2) env (branch_state 5) (branch_state 6) branch_heap"
  using branch_spaces branch_path [of 5] branch_path [of 6]
  by (simp add: mergeable_def branch_state_def same_arrays_def input_is_def frame_ok_def register_ok_def in_width_def)

theorem state_merge_sound_witness:
  "\<exists>m h' f e. merge_states False True (\<lambda>_ _. 0) (\<lambda>_. 2) (\<lambda>cs c. Some (c # cs)) least_free (\<lambda>_. (0, ''a'')) (\<lambda>_. (1, ''b'')) (\<lambda>ms. ms)
       (branch_state 5) (branch_state 6) branch_heap = Some (True, m, h') \<and>
     models (input_byte 6) (ms_constraints m) \<and> ms_stack m = [f] \<and> sf_locals f = [Some e, None] \<and> eval (input_byte 6) e = 6"
proof -
  have add: "adds_constraints False (\<lambda>cs c. Some (c # cs))" by (simp add: adds_constraints_def)
  obtain ok m h' where m: "merge_states False True (\<lambda>_ _. 0) (\<lambda>_. 2) (\<lambda>cs c. Some (c # cs)) least_free (\<lambda>_. (0, ''a'')) (\<lambda>_. (1, ''b'')) (\<lambda>ms. ms)
       (branch_state 5) (branch_state 6) branch_heap = Some (ok, m, h')"
    "ok \<longleftrightarrow> ms_pc (branch_state 5) = ms_pc (branch_state 6) \<and> ms_symbolics (branch_state 5) = ms_symbolics (branch_state 6) \<and>
       same_stack (ms_stack (branch_state 5)) (ms_stack (branch_state 6)) \<and>
       map fst (inorder (as_objects (ms_space (branch_state 5)))) = map fst (inorder (as_objects (ms_space (branch_state 6))))"
    "if ok then merged False (input_byte 6) (branch_state 5) (branch_state 6) branch_heap m h' else m = branch_state 5 \<and> h' = branch_heap"
    using state_merge_sound [OF branch_mergeable [of "input_byte 6"] add least_free_ok, of "\<lambda>ms. ms" True "\<lambda>_ _. 0" "\<lambda>_. (0, ''a'')" "\<lambda>_. (1, ''b'')"]
    by blast
  have ok: "ok" using m(2) by (simp add: branch_state_def same_stack_def it_node_def)
  have mm: "models (input_byte 6) (ms_constraints m)" "list_all2 (frame_merged False (input_byte 6) False) (zip (ms_stack (branch_state 5)) (ms_stack (branch_state 6))) (ms_stack m)"
    using m(3) ok input_is_eval [of 5 6] input_is_eval [of 6 6] unfolding merged_def by (simp_all add: branch_state_def)
  then obtain f e where "ms_stack m = [f]" "sf_locals f = [Some e, None]" "eval (input_byte 6) e = 6"
    by (auto simp: branch_state_def list_all2_Cons1 frame_merged_def register_merged_def)
  moreover have "merge_states False True (\<lambda>_ _. 0) (\<lambda>_. 2) (\<lambda>cs c. Some (c # cs)) least_free (\<lambda>_. (0, ''a'')) (\<lambda>_. (1, ''b'')) (\<lambda>ms. ms)
       (branch_state 5) (branch_state 6) branch_heap = Some (True, m, h')" using m(1) ok by simp
  ultimately show ?thesis using mm(1) by blast
qed

end
