(* ===== verification/KTest.thy ===== *)
theory KTest
  imports Prelude "HOL-Library.Word" "HOL-Library.Monad_Syntax"
begin

unbundle bit_operations_syntax

section \<open>Test files\<close>

text \<open>
  The test cases that the engine writes and the replay tools read (\<open>klee/lib/Basic/KTest.cpp\<close>). A file is a list of
  bytes. A \<open>char *\<close> is the contents of its buffer without the final zero; what is printed of it ends at the first
  zero. \<open>Failed\<close> is the error result of a function; the other errors are writes outside a buffer or through a null
  pointer, with the number that was read for the length of the string or of the object. \<open>alloc\<close> tells which sizes \<open>malloc\<close> and \<open>calloc\<close> can serve. What an aborted write leaves in a file and the
  freeing of memory are left out.
\<close>

datatype ktest_error = Failed | Overrun_string "32 word" | Overrun_object "32 word"

type_synonym file_bytes = "8 word list"
type_synonym 'a reader = "file_bytes \<Rightarrow> ktest_error + 'a \<times> file_bytes"

definition read_bind :: "'a reader \<Rightarrow> ('a \<Rightarrow> 'b reader) \<Rightarrow> 'b reader" where
  "read_bind r k f = (case r f of Inl e \<Rightarrow> Inl e | Inr (x, f') \<Rightarrow> k x f')"

definition read_return :: "'a \<Rightarrow> 'a reader" where
  "read_return x f = Inr (x, f)"

definition read_fail :: "'a reader" where
  "read_fail f = Inl Failed"

text \<open>\<open>fread(data, n, 1, f) != 1\<close> and \<open>fwrite(data, n, 1, f) != 1\<close>: both return 0 when the size is 0.\<close>

definition fread :: "nat \<Rightarrow> file_bytes reader" where
  "fread n f = (if n = 0 \<or> length f < n then Inl Failed else Inr (take n f, drop n f))"

definition fwrite :: "8 word list \<Rightarrow> file_bytes option" where
  "fwrite data = (if data = [] then None else Some data)"

subsection \<open>Numbers and strings\<close>

definition read_uint32 :: "32 word reader" where
  "read_uint32 = read_bind (fread 4) (\<lambda>data. read_return
     (push_bit 8 (push_bit 8 (push_bit 8 (ucast (data ! 0)) + ucast (data ! 1)) + ucast (data ! 2)) + ucast (data ! 3)))"

definition write_uint32 :: "32 word \<Rightarrow> file_bytes option" where
  "write_uint32 v = Some [ucast (drop_bit 24 v), ucast (drop_bit 16 v), ucast (drop_bit 8 v), ucast v]"

text \<open>A read of \<open>n\<close> bytes to a buffer of \<open>m\<close> bytes, which does not hold more.\<close>

definition read_to_buffer :: "ktest_error \<Rightarrow> nat \<Rightarrow> nat \<Rightarrow> file_bytes reader" where
  "read_to_buffer e m n f = (if m < min n (length f) then Inl e else fread n f)"

definition read_string :: "(nat \<Rightarrow> bool) \<Rightarrow> 8 word list reader" where
  "read_string alloc = read_bind read_uint32 (\<lambda>len.
     if \<not> alloc (unat (len + 1)) then read_fail else read_to_buffer (Overrun_string len) (unat (len + 1)) (unat len))"

definition c_string :: "8 word list \<Rightarrow> 8 word list" where
  "c_string v = takeWhile (\<lambda>c. c \<noteq> 0) v"

definition write_string :: "8 word list \<Rightarrow> file_bytes option" where
  "write_string v = do {
     a \<leftarrow> write_uint32 (of_nat (length (c_string v)));
     b \<leftarrow> fwrite (c_string v);
     Some (a @ b) }"

subsection \<open>Tests\<close>

record ktest_object =
  obj_name :: "8 word list"
  numBytes :: "32 word"
  obj_bytes :: "8 word list"

record ktest =
  version :: "32 word"
  numArgs :: "32 word"
  args :: "8 word list list"
  symArgvs :: "32 word"
  symArgvLen :: "32 word"
  numObjects :: "32 word"
  objects :: "ktest_object list"

definition kTest_getCurrentVersion :: "32 word" where
  "kTest_getCurrentVersion = 3"

definition KTEST_MAGIC :: file_bytes where
  "KTEST_MAGIC = [0x4B, 0x54, 0x45, 0x53, 0x54]"

definition BOUT_MAGIC :: file_bytes where
  "BOUT_MAGIC = [0x42, 0x4F, 0x55, 0x54, 0x0A]"

definition kTest_checkHeader :: "unit reader" where
  "kTest_checkHeader = read_bind (fread 5) (\<lambda>header. if header \<noteq> KTEST_MAGIC \<and> header \<noteq> BOUT_MAGIC then read_fail else read_return ())"

definition kTest_isKTestFile :: "file_bytes option \<Rightarrow> bool" where
  "kTest_isKTestFile path = (case path of None \<Rightarrow> False | Some f \<Rightarrow> (case kTest_checkHeader f of Inl _ \<Rightarrow> False | Inr _ \<Rightarrow> True))"

text \<open>The loops over arguments and objects.\<close>

fun read_many :: "'a reader \<Rightarrow> nat \<Rightarrow> 'a list reader" where
  "read_many r 0 = read_return []"
| "read_many r (Suc n) = read_bind r (\<lambda>x. read_bind (read_many r n) (\<lambda>xs. read_return (x # xs)))"

text \<open>The result of \<open>malloc\<close> for the bytes of an object is not looked at: the buffer has no bytes when it fails.\<close>

definition read_object :: "(nat \<Rightarrow> bool) \<Rightarrow> ktest_object reader" where
  "read_object alloc = read_bind (read_string alloc) (\<lambda>name. read_bind read_uint32 (\<lambda>n.
     read_bind (read_to_buffer (Overrun_object n) (if alloc (unat n) then unat n else 0) (unat n)) (\<lambda>bytes.
       read_return \<lparr>obj_name = name, numBytes = n, obj_bytes = bytes\<rparr>)))"

definition read_ktest :: "(nat \<Rightarrow> bool) \<Rightarrow> ktest reader" where
  "read_ktest alloc =
     read_bind kTest_checkHeader (\<lambda>_. if \<not> alloc 40 then read_fail else
     read_bind read_uint32 (\<lambda>v. if kTest_getCurrentVersion < v then read_fail else
     read_bind read_uint32 (\<lambda>na. if \<not> alloc (unat na * 8) then read_fail else
     read_bind (read_many (read_string alloc) (unat na)) (\<lambda>as.
     read_bind (if 2 \<le> v then read_uint32 else read_return 0) (\<lambda>sa.
     read_bind (if 2 \<le> v then read_uint32 else read_return 0) (\<lambda>sl.
     read_bind read_uint32 (\<lambda>no. if \<not> alloc (unat no * 24) then read_fail else
     read_bind (read_many (read_object alloc) (unat no)) (\<lambda>os.
     read_return \<lparr>version = v, numArgs = na, args = as, symArgvs = sa, symArgvLen = sl, numObjects = no, objects = os\<rparr>))))))))"

definition kTest_fromFile :: "(nat \<Rightarrow> bool) \<Rightarrow> file_bytes option \<Rightarrow> ktest_error + ktest" where
  "kTest_fromFile alloc path =
     (case path of None \<Rightarrow> Inl Failed | Some f \<Rightarrow> (case read_ktest alloc f of Inl e \<Rightarrow> Inl e | Inr (k, _) \<Rightarrow> Inr k))"

text \<open>\<open>None\<close>: the function returns 0, or reads past the arrays.\<close>

fun write_many :: "('a \<Rightarrow> file_bytes option) \<Rightarrow> nat \<Rightarrow> 'a list \<Rightarrow> file_bytes option" where
  "write_many w 0 xs = Some []"
| "write_many w (Suc n) [] = None"
| "write_many w (Suc n) (x # xs) = do { a \<leftarrow> w x; b \<leftarrow> write_many w n xs; Some (a @ b) }"

definition write_object :: "ktest_object \<Rightarrow> file_bytes option" where
  "write_object ob = do {
     a \<leftarrow> write_string (obj_name ob);
     b \<leftarrow> write_uint32 (numBytes ob);
     c \<leftarrow> fwrite (take (unat (numBytes ob)) (obj_bytes ob));
     Some (a @ b @ c) }"

definition kTest_toFile :: "ktest \<Rightarrow> file_bytes option" where
  "kTest_toFile bo = do {
     m \<leftarrow> fwrite KTEST_MAGIC;
     v \<leftarrow> write_uint32 kTest_getCurrentVersion;
     na \<leftarrow> write_uint32 (numArgs bo);
     as \<leftarrow> write_many write_string (unat (numArgs bo)) (args bo);
     sa \<leftarrow> write_uint32 (symArgvs bo);
     sl \<leftarrow> write_uint32 (symArgvLen bo);
     no \<leftarrow> write_uint32 (numObjects bo);
     os \<leftarrow> write_many write_object (unat (numObjects bo)) (objects bo);
     Some (m @ v @ na @ as @ sa @ sl @ no @ os) }"

definition kTest_numBytes :: "ktest \<Rightarrow> 32 word" where
  "kTest_numBytes bo = fold (\<lambda>i res. res + numBytes (objects bo ! i)) [0..<unat (numObjects bo)] 0"

subsection \<open>Readers and writers\<close>

text \<open>A reader takes back what a writer put in front of any other bytes.\<close>

locale codec =
  fixes reads :: "'a reader" and writes :: "'a \<Rightarrow> file_bytes option" and fits :: "'a \<Rightarrow> bool" and normal :: "'a \<Rightarrow> 'a"
  assumes reads_back: "fits x \<Longrightarrow> writes x = Some a \<Longrightarrow> reads (a @ rest) = Inr (normal x, rest)"
begin

lemma many_back:
  assumes "list_all fits xs" "write_many writes (length xs) xs = Some a"
  shows "read_many reads (length xs) (a @ rest) = Inr (map normal xs, rest)"
  using assms
proof (induction xs arbitrary: a)
  case (Cons x xs)
  then obtain b c where bc: "writes x = Some b" "write_many writes (length xs) xs = Some c" "a = b @ c" by (auto split: bind_splits)
  have "reads (b @ c @ rest) = Inr (normal x, c @ rest)" using reads_back [of x b "c @ rest"] Cons.prems(1) bc(1) by simp
  moreover have "read_many reads (length xs) (c @ rest) = Inr (map normal xs, rest)" using Cons.IH [OF _ bc(2)] Cons.prems(1) by simp
  ultimately show ?case using bc(3) by (simp add: read_bind_def read_return_def)
qed (simp add: read_return_def)

end

lemma fread_append: "n = length a \<Longrightarrow> a \<noteq> [] \<Longrightarrow> fread n (a @ rest) = Inr (a, rest)"
  by (simp add: fread_def)

lemma uint32_bytes:
  "push_bit 8 (push_bit 8 (push_bit 8 (ucast (ucast (drop_bit 24 v) :: 8 word)) + ucast (ucast (drop_bit 16 v) :: 8 word)) + ucast (ucast (drop_bit 8 v) :: 8 word)) +
     ucast (ucast v :: 8 word) = (v :: 32 word)"
proof (rule bit_word_eqI)
  fix n
  assume "n < LENGTH(32)"
  consider "n < 8" | "8 \<le> n" "n < 16" | "16 \<le> n" "n < 24" | "24 \<le> n" by linarith
  then show "bit (push_bit 8 (push_bit 8 (push_bit 8 (ucast (ucast (drop_bit 24 v) :: 8 word)) + ucast (ucast (drop_bit 16 v) :: 8 word)) +
      ucast (ucast (drop_bit 8 v) :: 8 word)) + ucast (ucast v :: 8 word) :: 32 word) n = bit v n"
    using \<open>n < LENGTH(32)\<close> by cases (auto simp: disjunctive_add_eq_or bit_eq_iff bit_simps)
qed

lemma read_uint32_back: "write_uint32 v = Some a \<Longrightarrow> read_uint32 (a @ rest) = Inr (v, rest)"
  using fread_append [of 4 a rest] uint32_bytes [of v] by (auto simp: write_uint32_def read_uint32_def read_bind_def read_return_def)

interpretation uint32: codec read_uint32 write_uint32 "\<lambda>_. True" id
  by unfold_locales (simp add: read_uint32_back)

definition string_fits :: "(nat \<Rightarrow> bool) \<Rightarrow> 8 word list \<Rightarrow> bool" where
  "string_fits alloc v \<longleftrightarrow> length (c_string v) < 2 ^ 32 - 1 \<and> alloc (length (c_string v) + 1)"

lemma read_string_back:
  assumes "string_fits alloc v" "write_string v = Some a"
  shows "read_string alloc (a @ rest) = Inr (c_string v, rest)"
proof -
  define n where "n = length (c_string v)"
  obtain b where a: "write_uint32 (of_nat n) = Some b" "c_string v \<noteq> []" "a = b @ c_string v"
    using assms(2) by (auto simp: write_string_def fwrite_def n_def write_uint32_def split: if_splits)
  have len: "unat (of_nat n :: 32 word) = n" "unat (of_nat n + 1 :: 32 word) = n + 1"
    using assms(1) by (auto simp: string_fits_def n_def unat_of_nat take_bit_nat_eq_self unat_word_ariths)
  show ?thesis
    using read_uint32_back [OF a(1), of "c_string v @ rest"] a(2,3) fread_append [of n "c_string v" rest] assms(1) len
    by (simp add: string_fits_def read_string_def read_bind_def read_to_buffer_def n_def)
qed

interpretation strings: codec "read_string alloc" write_string "string_fits alloc" c_string for alloc
  by unfold_locales (rule read_string_back)

definition object_fits :: "(nat \<Rightarrow> bool) \<Rightarrow> ktest_object \<Rightarrow> bool" where
  "object_fits alloc ob \<longleftrightarrow> string_fits alloc (obj_name ob) \<and> unat (numBytes ob) = length (obj_bytes ob) \<and> alloc (length (obj_bytes ob))"

definition object_normal :: "ktest_object \<Rightarrow> ktest_object" where
  "object_normal ob = ob\<lparr>obj_name := c_string (obj_name ob)\<rparr>"

lemma read_object_back:
  assumes "object_fits alloc ob" "write_object ob = Some a"
  shows "read_object alloc (a @ rest) = Inr (object_normal ob, rest)"
proof -
  obtain b c where a: "write_string (obj_name ob) = Some b" "write_uint32 (numBytes ob) = Some c" "obj_bytes ob \<noteq> []" "a = b @ c @ obj_bytes ob"
    using assms by (auto simp: write_object_def fwrite_def object_fits_def write_uint32_def split: bind_splits if_splits)
  have "read_string alloc (b @ c @ obj_bytes ob @ rest) = Inr (c_string (obj_name ob), c @ obj_bytes ob @ rest)"
    using strings.reads_back [of alloc "obj_name ob" b] assms(1) a(1) by (simp add: object_fits_def)
  moreover have "fread (unat (numBytes ob)) (obj_bytes ob @ rest) = Inr (obj_bytes ob, rest)"
    using a(3) assms(1) by (intro fread_append) (auto simp: object_fits_def)
  ultimately show ?thesis
    using a(4) read_uint32_back [OF a(2), of "obj_bytes ob @ rest"] assms(1)
    by (simp add: object_fits_def read_object_def read_bind_def read_return_def read_to_buffer_def object_normal_def)
qed

interpretation objects: codec "read_object alloc" write_object "object_fits alloc" object_normal for alloc
  by unfold_locales (rule read_object_back)

subsection \<open>Readers of any file\<close>






















lemma write_many_fails: "write_many w (length xs) xs = None \<longleftrightarrow> (\<exists>x\<in>set xs. w x = None)"
  by (induction xs) (auto split: bind_splits)

subsection \<open>Properties\<close>

text \<open>
  A test whose numbers are those of its arguments and objects, with strings that have room for their final zero, and
  the sizes of the memory that reading it needs.
\<close>

definition ktest_ok :: "(nat \<Rightarrow> bool) \<Rightarrow> ktest \<Rightarrow> bool" where
  "ktest_ok alloc k \<longleftrightarrow> alloc 40 \<and> alloc (length (args k) * 8) \<and> alloc (length (objects k) * 24) \<and>
     unat (numArgs k) = length (args k) \<and> list_all (string_fits alloc) (args k) \<and>
     unat (numObjects k) = length (objects k) \<and> list_all (object_fits alloc) (objects k)"

definition has_empty_part :: "ktest \<Rightarrow> bool" where
  "has_empty_part k \<longleftrightarrow> (\<exists>a\<in>set (args k). c_string a = []) \<or> (\<exists>ob\<in>set (objects k). c_string (obj_name ob) = [] \<or> numBytes ob = 0)"

text \<open>What a test is after it was written and read: in the current version, and with strings that end at their first zero.\<close>

definition ktest_normal :: "ktest \<Rightarrow> ktest" where
  "ktest_normal k = k\<lparr>version := kTest_getCurrentVersion, args := map c_string (args k), objects := map object_normal (objects k)\<rparr>"

lemma written_iff:
  assumes "ktest_ok alloc k"
  shows "kTest_toFile k = None \<longleftrightarrow> has_empty_part k"
proof -
  have "write_object ob = None \<longleftrightarrow> c_string (obj_name ob) = [] \<or> numBytes ob = 0" if "ob \<in> set (objects k)" for ob
    using assms that unat_eq_0 [of "numBytes ob"]
    by (auto simp: ktest_ok_def list_all_iff object_fits_def write_object_def write_string_def write_uint32_def fwrite_def split: bind_splits if_splits)
  moreover have "write_string a = None \<longleftrightarrow> c_string a = []" for a by (simp add: write_string_def write_uint32_def fwrite_def)
  ultimately have "write_many write_object (length (objects k)) (objects k) = None \<longleftrightarrow> (\<exists>ob\<in>set (objects k). c_string (obj_name ob) = [] \<or> numBytes ob = 0)"
      "write_many write_string (length (args k)) (args k) = None \<longleftrightarrow> (\<exists>a\<in>set (args k). c_string a = [])"
    by (simp_all add: write_many_fails)
  moreover have "kTest_toFile k = None \<longleftrightarrow> write_many write_string (length (args k)) (args k) = None \<or> write_many write_object (length (objects k)) (objects k) = None"
    using assms by (auto simp: kTest_toFile_def ktest_ok_def write_uint32_def fwrite_def KTEST_MAGIC_def split: bind_splits)
  ultimately show ?thesis by (simp add: has_empty_part_def)
qed

text \<open>
  C22. Test files: a test without empty arguments, names and objects is written, and \<open>kTest_fromFile\<close> reads it back
  from the file, whatever follows in the file: the arguments, the numbers and the names and bytes of every object are
  the same, with strings up to their first zero; the version is the current one. The memory that reading asks for is
  there.
\<close>

theorem ktest_roundtrip:
  assumes "ktest_ok alloc k" "\<not> has_empty_part k"
  shows "\<exists>f. kTest_toFile k = Some f \<and> kTest_fromFile alloc (Some (f @ rest)) = Inr (ktest_normal k)"
proof -
  obtain f where f: "kTest_toFile k = Some f" using written_iff [OF assms(1)] assms(2) by auto
  obtain v na as sa sl no os where w: "write_uint32 kTest_getCurrentVersion = Some v" "write_uint32 (numArgs k) = Some na"
      "write_many write_string (length (args k)) (args k) = Some as" "write_uint32 (symArgvs k) = Some sa" "write_uint32 (symArgvLen k) = Some sl"
      "write_uint32 (numObjects k) = Some no" "write_many write_object (length (objects k)) (objects k) = Some os"
      "f = KTEST_MAGIC @ v @ na @ as @ sa @ sl @ no @ os"
    using assms(1) f by (auto simp: kTest_toFile_def ktest_ok_def fwrite_def KTEST_MAGIC_def split: bind_splits)
  note numbers = read_uint32_back [OF w(1)] read_uint32_back [OF w(2)] read_uint32_back [OF w(4)] read_uint32_back [OF w(5)] read_uint32_back [OF w(6)]
  have m: "read_many (read_string alloc) (unat (numArgs k)) (as @ r) = Inr (map c_string (args k), r)" for r
    using strings.many_back [OF _ w(3), of alloc r] assms(1) by (simp add: ktest_ok_def)
  have n: "read_many (read_object alloc) (unat (numObjects k)) (os @ r) = Inr (map object_normal (objects k), r)" for r
    using objects.many_back [OF _ w(7), of alloc r] assms(1) by (simp add: ktest_ok_def)
  have h: "kTest_checkHeader (KTEST_MAGIC @ r) = Inr ((), r)" for r
    using fread_append [of 5 KTEST_MAGIC r] by (simp add: kTest_checkHeader_def read_bind_def read_return_def KTEST_MAGIC_def)
  have "alloc 40" "alloc (unat (numArgs k) * 8)" "alloc (unat (numObjects k) * 24)" using assms(1) by (simp_all add: ktest_ok_def)
  then have "kTest_fromFile alloc (Some (f @ rest)) = Inr (ktest_normal k)"
    by (simp add: kTest_fromFile_def read_ktest_def w(8) h numbers m n read_bind_def read_return_def kTest_getCurrentVersion_def ktest_normal_def)
  then show ?thesis using f by blast
qed

text \<open>
  C40. A test is written exactly when no argument and no name of an object is empty and no object is without bytes:
  \<open>fwrite\<close> of no bytes returns 0, which is taken for an error, and the whole test is lost.
\<close>

theorem ktest_toFile_fails:
  assumes "ktest_ok (\<lambda>_. True) k"
  shows "kTest_toFile k = None \<longleftrightarrow>
    (\<exists>a\<in>set (args k). c_string a = []) \<or> (\<exists>ob\<in>set (objects k). c_string (obj_name ob) = [] \<or> numBytes ob = 0)"
  using written_iff [OF assms] by (simp add: has_empty_part_def)


text \<open>A test with one argument and one object of two bytes.\<close>

definition small_test :: ktest where
  "small_test = \<lparr>version = 0, numArgs = 1, args = [[0x61]], symArgvs = 0, symArgvLen = 0, numObjects = 1,
     objects = [\<lparr>obj_name = [0x78, 0, 0x79], numBytes = 2, obj_bytes = [7, 0]\<rparr>]\<rparr>"

lemma small_test_ok: "ktest_ok (\<lambda>n. n < 1000) small_test" "\<not> has_empty_part small_test"
  by (simp_all add: ktest_ok_def small_test_def string_fits_def object_fits_def c_string_def has_empty_part_def)

theorem ktest_roundtrip_witness:
  "\<exists>f. kTest_toFile small_test = Some f \<and>
     map_sum id objects (kTest_fromFile (\<lambda>n. n < 1000) (Some (f @ [1, 2]))) = Inr [\<lparr>obj_name = [0x78], numBytes = 2, obj_bytes = [7, 0]\<rparr>]"
  using ktest_roundtrip [OF small_test_ok, of "[1, 2]"]
  by (auto simp: ktest_normal_def small_test_def object_normal_def c_string_def)

theorem ktest_toFile_fails_witness: "kTest_toFile (small_test\<lparr>objects := [\<lparr>obj_name = [0x78], numBytes = 0, obj_bytes = []\<rparr>]\<rparr>) = None"
proof -
  have "ktest_ok (\<lambda>_. True) (small_test\<lparr>objects := [\<lparr>obj_name = [0x78], numBytes = 0, obj_bytes = []\<rparr>]\<rparr>)"
    by (simp add: ktest_ok_def small_test_def string_fits_def object_fits_def c_string_def)
  from ktest_toFile_fails [OF this] show ?thesis by simp
qed



end
