(* ===== verification/Spec2Isabelle.thy ===== *)
theory Spec2Isabelle
  imports CGS_Values CGS_Safety Metadata Combinators UserSearcher RandomPath ConstDivision IndependentSolver ObjectAccess StateMerge KTest
begin

text \<open>
  \<^bold>\<open>What this development verifies.\<close> The repository is KLEE, a symbolic execution engine, extended with a
  concrete-constraint guided search (CGS), and an LLVM pass (\<open>IDA/\<close>) that prepares modules for that search.
  The pass finds, for each branch that compares one variable with a constant, the stores that write the
  variable, and attaches the result to the instructions as metadata. KLEE loads the metadata
  (\<open>Executor::setModule\<close>); while it executes \<open>br\<close>, \<open>switch\<close> and \<open>store\<close> instructions it records which side of
  a branch is not covered yet and which values were stored; and \<open>CGSSearcher\<close> prefers states whose stored
  values can take such a side.

  \<^bold>\<open>Theories and the code they model.\<close>

  \<^item> \<open>Prelude\<close>: names for pointers, fallible folds, \<open>std::vector\<close> idioms.
  \<^item> \<open>RNG\<close>: \<open>klee/lib/Support/RNG.cpp\<close>, the Mersenne Twister and the draws the searchers use.
  \<^item> \<open>Searchers\<close>: the contract of a searcher as the locales \<open>searcher_core\<close>, \<open>searcher\<close> and
    \<open>robust_searcher\<close>; DFS, BFS and random searcher (\<open>klee/lib/Core/Searcher.cpp\<close>) as interpretations;
    \<open>Executor::updateStates\<close> and a round of the interpreter loop as the client of the contract.
  \<^item> \<open>Combinators\<close>: batching, iterative deepening and interleaved searchers: each keeps the contract of the
    searchers it holds. \<open>UserSearcher\<close>: which of them the command line builds
    (\<open>klee/lib/Core/UserSearcher.cpp\<close>).
  \<^item> \<open>LLVM_IR\<close>: the part of a module that the analysis and the executor read. \<open>CGS_Types\<close>: the data the
    executor and the searcher share (\<open>Executor.h\<close>, \<open>ExecutionState.h\<close>).
  \<^item> \<open>StatsTracker\<close>: the statistics of covered instructions and branches, and the marks \<open>coveredNew\<close> and
    \<open>instsSinceCovNew\<close> they leave on states (\<open>klee/lib/Core/StatsTracker.cpp\<close>).
  \<^item> \<open>CGS_Executor\<close>: what the search adds to the handlers of \<open>br\<close>, \<open>switch\<close> and \<open>store\<close> in
    \<open>Executor::executeInstruction\<close>. \<open>CGS_Searcher\<close>: \<open>CGSSearcher\<close>. \<open>CGS_Values\<close>: which values a branch
    record accepts. \<open>CGS_Round\<close> and \<open>CGS_Safety\<close>: the interpreter loop with the tracker and the CGS searcher as a
    step relation \<open>cgs_reach\<close> on the world and the statistics, its invariant, and that it never gets stuck.
  \<^item> \<open>CallGraph\<close>, \<open>BranchDependency\<close>, \<open>Interprocedural\<close>: the three passes under \<open>IDA/src\<close>.
    \<open>Metadata\<close>: the loader in \<open>Executor::setModule\<close>, and what survives from the writer to the loader.
  \<^item> \<open>PTree\<close> and \<open>RandomPath\<close>: the process tree (\<open>klee/lib/Core/PTree.cpp\<close>) as a heap of nodes with parent
    pointers, \<open>RandomPathSearcher\<close> over it, and the places of \<open>Executor.cpp\<close> that change it (\<open>branch\<close>,
    \<open>fork\<close>, \<open>terminateState\<close>, \<open>updateStates\<close>) as a step relation \<open>pt_reach\<close>.
  \<^item> \<open>Bits_Arith\<close>: \<open>klee/ADT/Bits.h\<close> and \<open>klee/Support/IntEvaluation.h\<close>. \<open>ConstDivision\<close>: the constants by which
    a solver replaces multiplications and divisions (\<open>klee/lib/Solver/ConstantDivision.cpp\<close>).
  \<^item> \<open>Expr\<close>: expressions and the functions that create them (\<open>klee/lib/Expr/Expr.cpp\<close>), \<open>Expr_Sound\<close>: the value
    of an expression, and that every create function keeps it. \<open>ExprCompare\<close>: hash values and \<open>Expr::compare\<close>,
    a total order. \<open>ExprUtil\<close>: \<open>findReads\<close> (\<open>klee/lib/Expr/ExprUtil.cpp\<close>).
  \<^item> \<open>Solver\<close>: queries and their meaning, the virtual functions of \<open>SolverImpl\<close> as a record, what its documentation
    promises as the locales \<open>solver\<close> and \<open>deciding_solver\<close>, the front end \<open>Solver\<close> with the binary searches of
    \<open>getRange\<close> (\<open>klee/lib/Solver/Solver.cpp\<close>). \<open>CachingSolver\<close>: the branch cache and the staged solver;
    \<open>IndependentSolver\<close>: constraint independence; each keeps the contract of the solver below it, and the
    core solver (STP, Z3) is the parameter at the bottom.
  \<^item> \<open>ObjectState\<close>: the contents of memory objects (\<open>klee/lib/Core/Memory.cpp\<close>), with the masks, the cached
    expressions and the updates as the code has them, its cache invariants, and that flushing keeps every
    byte. \<open>ObjectAccess\<close>: reads and writes of values refine an array of bytes; the contract is the locale
    \<open>object_access\<close>, with constant and with symbolic offsets as its interpretations.
  \<^item> \<open>ImmutableTree\<close>: the balanced trees of \<open>klee/ADT/ImmutableTree.h\<close> with their iterators, a refinement of
    sorted sequences (the locale \<open>ordered_map\<close>). \<open>TimingSolver\<close>: the solver as the executor asks it
    (\<open>klee/lib/Core/TimingSolver.cpp\<close>), the locale \<open>timing_solver\<close>; the simplification of queries with the constraints
    is a parameter that keeps values under the constraints.
  \<^item> \<open>AddressSpace\<close>: the objects of a state in such a tree (\<open>klee/lib/Core/AddressSpace.cpp\<close>), the bounds checks of
    \<open>MemoryObject\<close>, and the resolution of pointers, which lists exactly the objects a pointer can point to.
    \<open>CopyOnWrite\<close>: the states of a run over one heap of objects refine states with memories of their own.
    \<open>ExternalMemory\<close>: the copies of concrete bytes around external calls. \<open>StateMerge\<close>: \<open>ExecutionState::merge\<close> over
    the same heap (\<open>klee/lib/Core/ExecutionState.cpp\<close>), which keeps what either state had.
  \<^item> \<open>KTest\<close>: the files of generated tests (\<open>klee/lib/Basic/KTest.cpp\<close>) as lists of bytes; the locale \<open>codec\<close> states that
    what is written is read back, and composes from numbers and strings to whole tests.

  \<^bold>\<open>Conventions.\<close> A pointer to a state, an instruction, a function or a block is a number. \<open>None\<close> is a run of
  the C++ code that does not return: a failed assertion, a null dereference, an access outside a container,
  or a loop that does not end (\<open>partial_function\<close>). A hash set that is iterated is a list; where the set is an input
  the theorems hold for every list; the sets that the analysis itself builds are kept in the order of insertion.
  Numbers in labels (\<open>stoi\<close>), offsets of extractions and times are unbounded. 32-bit values are \<open>32 word\<close>
  where wrap-around or signedness matters. What LLVM computes
  (users, reachability, block names, \<open>getUnsignedPredicate\<close>) is a parameter; the hypotheses on it are
  documented facts (\<open>documented_unsigned\<close>, \<open>ops_local\<close>). Loops are structural recursion, or \<open>function\<close>s with
  a measure: the walk of \<open>extractDataDependency\<close> visits each instruction at most \<open>maxInstCount\<close> = 10 times;
  the searches over the call graph end by the set of functions still to be traced; no fuel is used.
  \<open>reachBranchCount\<close> is a natural number: it is compared with its bound before it can wrap.

  \<^bold>\<open>What the theorems show.\<close> The interpreter loop with CGS is safe on everything the analysis can produce (the
  theorem below, \<open>CGS_Safety\<close>) when statistics are in use, as long as no store that a target branch takes note of
  terminates the state that executes it; \<open>terminating_store_breaks_update\<close> shows what happens otherwise. The
  records of a branch accept exactly the values of the uncovered side for signed comparisons and operands below
  \<open>2 ^ 31\<close>; \<open>unsigned_compare_wrong\<close> says exactly where unsigned comparisons go wrong, and
  \<open>right_record_second_visit_wrong\<close> where a second visit does (\<open>narrow_negative_case_never_covered\<close>: switches). The
  caches of store values change nothing but the fate of the first value looked up for a branch
  (\<open>isNewStoreValue_caches_transparent\<close>, \<open>handlePartly_moves_exactly\<close>). The analysis passes are characterised exactly where the code has a clear meaning (call graph,
  reachability, nearest store, chains of struct pointers), and shown to lose or reject inputs where it does
  (\<open>bda_loops_on_vector\<close>, \<open>store_through_select_asserts\<close>, \<open>metadata_loses_stores\<close>). Expressions keep their values
  through every constructor, the stacked solvers answer rightly whatever they have cached, and the random-path
  searcher walks a process tree whose leaves are the states. Memory: the caches of an object and the sharing of
  objects between states cannot be observed, a pointer is resolved to exactly the objects it can point to, and
  the copies around external calls are exact, up to the cache that \<open>copyIn_leaves_updates\<close> shows to be left behind.

  \<^bold>\<open>Not modelled.\<close> The symbolic interpreter itself (the values of operands, the forks and terminations of an
  instruction are inputs of a round), the allocator and \<open>ConstraintManager\<close>, the counterexample cache, \<open>computeInitialValues\<close> of the
  independent solver, the SMT back ends, the POSIX runtime and the tools. Printing,
  statistics files, the seeding phase, the option \<open>covStats\<close> and debug locations are left out everywhere. \<open>getDoubleLR\<close> and the float draws of the
  generator round.
\<close>

section \<open>From the analysis to the search\<close>

text \<open>
  C1. The parts fit together: the metadata that the dependency analysis attaches to a module load into tables
  with which the interpreter loop with the CGS searcher never gets stuck, in every world it reaches and
  whatever the next instruction does. The conditions are that the module is one LLVM's verifier accepts,
  that the analysis returns, that statistics are in use, and that no store that a target branch takes note of
  terminates the state that executes it, in the rounds before and in this one.
\<close>

theorem pipeline_never_stuck:
  assumes "ida_runOnModule M Pf fs = Some m" and "ops_local M"
    and "load_metadata upred M fs num maxc m = Some x0" and "useStatistics tc"
    and "cgs_reach M iter tc x0 ws" and "valid_round M (fst ws) ri" and "round_keeps_store (fst ws) ri"
  shows "\<exists>ws'. cgs_round M iter tc ri ws = Some ws'"
proof -
  have "loaded M x0" using ida_loads [OF assms(1,2), of upred num maxc] assms(3) by simp
  then show ?thesis using round_ok [OF reach_loop_ok [OF assms(5) _ assms(4)] assms(4,6,7)] by blast
qed

definition sum_tables :: cgs_exec where
  "sum_tables = the (load_metadata id sum_module one_function 10 64 sum_md)"

definition sum_start :: "cgs_world \<times> branch_stats" where
  "sum_start = ((init_world sum_tables)\<lparr>states := [0, 1]\<rparr>, init_stats all_stats)"

definition sum_br :: round_input where
  "sum_br = \<lparr>r_instr = IBr \<lparr>br_i = 7, br_cond_constant = True, br_first = None, br_second = Some 0,
       br_v1 = Some 3, br_v2 = Some 5\<rparr>,
     r_pos = (0, 0), r_added = [], r_removed = [], r_memory = None, r_tick = False\<rparr>"

theorem pipeline_never_stuck_witness:
  "\<exists>ws'. cgs_round sum_module (\<lambda>_. []) all_stats sum_br sum_start = Some ws'"
proof (rule pipeline_never_stuck [OF sum_ida sum_ops_local])
  show "load_metadata id sum_module one_function 10 64 sum_md = Some sum_tables"
    by (simp add: sum_load sum_tables_def)
  show "useStatistics all_stats" by (rule ex_stats)
  have "cgs_update sum_module None [0, 1] [] (init_world sum_tables) = Some ((init_world sum_tables)\<lparr>states := [0, 1]\<rparr>)"
    by (simp add: cgs_update_def upd_targets_def upd_add_def init_world_def sum_tables_def sum_load init_exec_def)
  then show "cgs_reach sum_module (\<lambda>_. []) all_stats sum_tables sum_start"
    unfolding sum_start_def by (intro cgs_reach.start [of "[0, 1]"]) simp_all
  have "is_br sum_module 7" by (simp add: is_br_def sum_module_def inst_at_def)
  moreover have "fullyCoveredBranches sum_tables = []" by (simp add: sum_tables_def sum_load init_exec_def)
  ultimately show "valid_round sum_module (fst sum_start) sum_br"
    by (simp add: valid_round_def cgs_selectState_def init_world_def sum_br_def valid_update_def sum_start_def)
  show "round_keeps_store (fst sum_start) sum_br"
    by (simp add: round_keeps_store_def cgs_selectState_def init_world_def sum_br_def sum_start_def)
qed

end
